(* ===== verification/Kprelude.thy ===== *)
theory Kprelude
  imports Main "HOL-Library.Word"
begin

text \<open>
  Shared vocabulary of the development: the result type of the kernel's fallible
  routines, the machine-integer synonyms, and the generic facts on results, lists
  and machine words that the component theories rest on.

  A C routine that can fail is a function into \<^typ>\<open>'e + 'a\<close>: the left summand carries
  what stops the kernel (an active \<open>ASSERT\<close> or \<open>PANIC\<close>, an access outside of an object,
  or a loop that outlives its bound).  The release build is modelled, in which
  \<open>DEBUG_ASSERT\<close> expands to nothing (\<open>include/kernel/panic.h\<close>).
\<close>

unbundle bit_operations_syntax

named_theorems res_simps \<open>rewriting of computations in the result type\<close>
named_theorems inv_intros \<open>introduction rules for component invariants\<close>
named_theorems word_nat \<open>reading of word expressions as natural numbers\<close>

type_synonym u8 = "8 word"
type_synonym u16 = "16 word"
type_synonym u32 = "32 word"
type_synonym u64 = "64 word"

section \<open>Results\<close>

datatype kerror =
    Panic string \<comment> \<open>\<open>PANIC(msg)\<close> or a failing \<open>ASSERT\<close>\<close>
  | Fault \<comment> \<open>an access outside of the object it is meant for\<close>
  | Diverge \<comment> \<open>a loop that did not finish within its bound\<close>

type_synonym 'a res = "kerror + 'a"

fun rbind :: "'a res \<Rightarrow> ('a \<Rightarrow> 'b res) \<Rightarrow> 'b res" where
  "rbind (Inl e) f = Inl e"
| "rbind (Inr x) f = f x"

definition rassert :: "bool \<Rightarrow> kerror \<Rightarrow> 'a res \<Rightarrow> 'a res" where
  "rassert b e k = (if b then k else Inl e)"

fun is_ok :: "'a res \<Rightarrow> bool" where
  "is_ok (Inl _) = False"
| "is_ok (Inr _) = True"

lemma rassert_True [simp, res_simps]: "rassert True e k = k"
  by (simp add: rassert_def)

lemma rassert_False [simp, res_simps]: "rassert False e k = Inl e"
  by (simp add: rassert_def)

lemma rbind_eq_Inr [res_simps]:
  "(rbind m f = Inr y) = (\<exists>x. m = Inr x \<and> f x = Inr y)"
  by (cases m) auto

lemma rbind_eq_Inl [res_simps]:
  "(rbind m f = Inl e) = (m = Inl e \<or> (\<exists>x. m = Inr x \<and> f x = Inl e))"
  by (cases m) auto

lemma rassert_eq_Inr [res_simps]: "(rassert b e k = Inr y) = (b \<and> k = Inr y)"
  by (simp add: rassert_def)

lemma rassert_eq_Inl [res_simps]:
  "(rassert b e k = Inl e') = (\<not> b \<and> e' = e \<or> b \<and> k = Inl e')"
  by (auto simp: rassert_def)

lemma rbind_assoc: "rbind (rbind m f) g = rbind m (\<lambda>x. rbind (f x) g)"
  by (cases m) auto

lemma rbind_cong [fundef_cong]:
  "m = m' \<Longrightarrow> (\<And>x. m' = Inr x \<Longrightarrow> f x = f' x) \<Longrightarrow> rbind m f = rbind m' f'"
  by (cases m') auto

lemma rassert_cong [fundef_cong]:
  "b = b' \<Longrightarrow> e = e' \<Longrightarrow> (b' \<Longrightarrow> k = k') \<Longrightarrow> rassert b e k = rassert b' e' k'"
  by (simp add: rassert_def)

lemma is_ok_iff: "is_ok r = (\<exists>x. r = Inr x)"
  by (cases r) auto

text \<open>Executable tests on a result.\<close>

definition ok_and :: "'a res \<Rightarrow> ('a \<Rightarrow> bool) \<Rightarrow> bool" where
  "ok_and r P = (case r of Inl _ \<Rightarrow> False | Inr x \<Rightarrow> P x)"

definition is_err :: "'a res \<Rightarrow> kerror \<Rightarrow> bool" where
  "is_err r e = (case r of Inl e' \<Rightarrow> e' = e | Inr _ \<Rightarrow> False)"

lemma ok_and_iff: "ok_and r P \<longleftrightarrow> (\<exists>x. r = Inr x \<and> P x)"
  by (cases r) (auto simp: ok_and_def)

lemma is_err_iff: "is_err r e \<longleftrightarrow> r = Inl e"
  by (cases r) (auto simp: is_err_def)

text \<open>A fold that stops at the first failing step.\<close>

fun rfold :: "('a \<Rightarrow> 's \<Rightarrow> 's res) \<Rightarrow> 'a list \<Rightarrow> 's \<Rightarrow> 's res" where
  "rfold f [] s = Inr s"
| "rfold f (x # xs) s = rbind (f x s) (rfold f xs)"

lemma rfold_append: "rfold f (xs @ ys) s = rbind (rfold f xs s) (rfold f ys)"
  by (induction xs arbitrary: s) (auto simp: rbind_assoc intro: rbind_cong)

lemma rfold_invariant:
  assumes "rfold f xs s = Inr s'" and "P s"
    and "\<And>x t t'. x \<in> set xs \<Longrightarrow> P t \<Longrightarrow> f x t = Inr t' \<Longrightarrow> P t'"
  shows "P s'"
  using assms by (induction xs arbitrary: s) (auto simp: rbind_eq_Inr)

section \<open>Words\<close>

text \<open>An equation for the evaluation of shifts: the generic one multiplies by a power.\<close>

lemma push_bit_word_code [code]:
  "push_bit n (w :: 'a::len word) = word_of_int (push_bit n (uint w))"
  by (rule bit_word_eqI) (auto simp: bit_simps)

lemma push_bit_one_exp: "push_bit n (1 :: 'a::len word) = 2 ^ n"
  by (simp add: push_bit_eq_mult)

lemma exp_minus_one_mask: "(2 ^ n - 1 :: 'a::len word) = mask n"
  by (simp add: mask_eq_exp_minus_1)

lemma unat_exp [word_nat]:
  "n < LENGTH('a) \<Longrightarrow> unat (2 ^ n :: 'a::len word) = 2 ^ n"
  unfolding push_bit_one_exp [symmetric] unsigned_push_bit_eq
  by (simp add: take_bit_push_bit push_bit_eq_mult)

lemma unat_and_mask [word_nat]: "unat (x AND mask n :: 'a::len word) = unat x mod 2 ^ n"
  unfolding take_bit_eq_mask [symmetric] unsigned_take_bit_eq by (rule take_bit_eq_mod)

lemma and_not_mask_eq: "x AND NOT (mask n) = x - (x AND mask n)" for x :: "'a::len word"
  by (subst disjunctive_diff) (auto simp: bit_simps intro: bit_word_eqI)

lemma unat_and_not_mask [word_nat]:
  "unat (x AND NOT (mask n) :: 'a::len word) = unat x - unat x mod 2 ^ n"
  unfolding and_not_mask_eq by (subst unat_sub) (simp_all add: word_le_nat_alt unat_and_mask)

lemma unat_xor_exp:
  assumes "n < LENGTH('a)" and "2 ^ n dvd unat (x :: 'a::len word)"
  shows "unat (x XOR 2 ^ n) = (if even (unat x div 2 ^ n) then unat x + 2 ^ n else unat x - 2 ^ n)"
proof -
  have b: "bit x n = odd (unat x div 2 ^ n)"
    using assms(1) by (simp add: bit_unsigned_iff flip: bit_iff_odd)
  show ?thesis
  proof (cases "bit x n")
    case True
    hence "x XOR 2 ^ n = x - 2 ^ n"
      by (subst disjunctive_diff) (auto simp: bit_simps intro!: bit_word_eqI)
    moreover have "2 ^ n \<le> unat x"
      using True b by (cases "unat x < 2 ^ n") auto
    ultimately show ?thesis
      using True b assms(1) by (simp add: unat_sub word_le_nat_alt unat_exp)
  next
    case False
    hence "x XOR 2 ^ n = x + 2 ^ n"
      by (subst disjunctive_add) (auto simp: bit_simps intro!: bit_word_eqI)
    moreover have "unat x + 2 ^ n < 2 ^ LENGTH('a)"
    proof -
      obtain k where k: "unat x = 2 ^ n * k" using assms(2) by blast
      moreover have "(2 :: nat) ^ LENGTH('a) = 2 ^ n * 2 ^ (LENGTH('a) - n)"
        using assms(1) by (simp flip: power_add)
      moreover have "unat x < 2 ^ LENGTH('a)" by simp
      ultimately have "k < 2 ^ (LENGTH('a) - n)" by simp
      moreover have "even k" using False b k by simp
      moreover have "even (2 ^ (LENGTH('a) - n) :: nat)" using assms(1) by simp
      ultimately have "k + 1 < 2 ^ (LENGTH('a) - n)" by (metis even_Suc Suc_eq_plus1 Suc_lessI)
      hence "2 ^ n * (k + 1) < 2 ^ n * 2 ^ (LENGTH('a) - n)" by (rule mult_strict_left_mono) simp
      with k \<open>(2 :: nat) ^ LENGTH('a) = _\<close> show ?thesis by simp
    qed
    ultimately show ?thesis
      using False b assms(1) by (simp add: unat_word_ariths unat_exp)
  qed
qed

lemma and_exp_eq_0: "(a AND 2 ^ n) = 0 \<longleftrightarrow> \<not> bit a n" for a :: "'a::len word"
proof
  assume "(a AND 2 ^ n) = 0"
  hence "\<not> bit (a AND 2 ^ n) n" by simp
  thus "\<not> bit a n" by (auto simp: bit_simps dest: bit_imp_le_length)
qed (auto simp: bit_simps intro!: bit_word_eqI)

lemma and_not_mask_eq_0:
  "(a AND NOT (mask n)) = 0 \<longleftrightarrow> (\<forall>k. n \<le> k \<and> k < LENGTH('a) \<longrightarrow> \<not> bit a k)" for a :: "'a::len word"
proof
  assume z: "(a AND NOT (mask n)) = 0"
  have "\<not> bit a k" if "n \<le> k" "k < LENGTH('a)" for k
    using that arg_cong [OF z, of "\<lambda>x. bit x k"] by (simp add: bit_simps)
  thus "\<forall>k. n \<le> k \<and> k < LENGTH('a) \<longrightarrow> \<not> bit a k" by blast
next
  assume "\<forall>k. n \<le> k \<and> k < LENGTH('a) \<longrightarrow> \<not> bit a k"
  thus "(a AND NOT (mask n)) = 0"
    by (intro bit_word_eqI) (auto simp: bit_simps not_less)
qed

lemma and_not_mask_full:
  "(a AND NOT (mask n)) = NOT (mask n) \<longleftrightarrow> (\<forall>k. n \<le> k \<and> k < LENGTH('a) \<longrightarrow> bit a k)"
  for a :: "'a::len word"
proof
  assume z: "(a AND NOT (mask n)) = NOT (mask n)"
  have "bit a k" if "n \<le> k" "k < LENGTH('a)" for k
    using that arg_cong [OF z, of "\<lambda>x. bit x k"] by (simp add: bit_simps)
  thus "\<forall>k. n \<le> k \<and> k < LENGTH('a) \<longrightarrow> bit a k" by blast
next
  assume "\<forall>k. n \<le> k \<and> k < LENGTH('a) \<longrightarrow> bit a k"
  thus "(a AND NOT (mask n)) = NOT (mask n)"
    by (intro bit_word_eqI) (auto simp: bit_simps not_less)
qed

end
