(* ===== verification/Kmath.thy ===== *)
theory Kmath
  imports Kprelude
begin

text \<open>
  The arithmetic and address helpers every memory component calls:
  \<open>include/lib/math.h\<close>, \<open>include/lib/align.h\<close>, \<open>include/lib/stdbitfield.h\<close>,
  the address predicates of \<open>include/lib/mem.h\<close> and the kernel/physical address
  conversions of \<open>include/kernel/mm.h\<close>.  All of them work on machine words, so that
  wrap-around is part of the model.
\<close>

section \<open>Logarithms and powers of two (math.h)\<close>

text \<open>\<open>__builtin_clz\<close> and \<open>__builtin_clzll\<close> of a non-zero argument.\<close>

fun bit_length :: "nat \<Rightarrow> nat" where
  "bit_length n = (if n = 0 then 0 else Suc (bit_length (n div 2)))"

declare bit_length.simps [simp del]

definition clz :: "'a::len word \<Rightarrow> nat" where
  "clz x = LENGTH('a) - bit_length (unat x)"

definition log2_floor_u32 :: "u32 \<Rightarrow> u32" where
  "log2_floor_u32 x = (if x \<noteq> 0 then 31 - word_of_nat (clz x) else 0)"

definition log2_floor_u64 :: "u64 \<Rightarrow> u64" where
  "log2_floor_u64 x = (if x \<noteq> 0 then 63 - word_of_nat (clz x) else 0)"

definition log2_ceil_u32 :: "u32 \<Rightarrow> u32" where
  "log2_ceil_u32 x = (if x \<le> 1 then 0 else 32 - word_of_nat (clz (x - 1)))"

definition log2_ceil_u64 :: "u64 \<Rightarrow> u64" where
  "log2_ceil_u64 x = (if x \<le> 1 then 0 else 64 - word_of_nat (clz (x - 1)))"

definition power_of2 :: "u64 \<Rightarrow> u64" where
  "power_of2 x = (if x < 64 then push_bit (unat x) 1 else 0)"

definition square :: "u64 \<Rightarrow> u64" where
  "square x = x * x"

definition max_u64 :: "u64 \<Rightarrow> u64 \<Rightarrow> u64" where
  "max_u64 a b = (if a > b then a else b)"

definition min_u64 :: "u64 \<Rightarrow> u64 \<Rightarrow> u64" where
  "min_u64 a b = (if a < b then a else b)"

definition div_ceil :: "u64 \<Rightarrow> u64 \<Rightarrow> u64" where
  "div_ceil a b = (a + b - 1) div b"

definition is_pow2 :: "u64 \<Rightarrow> bool" where
  "is_pow2 x = (x \<noteq> 0 \<and> (x AND (x - 1)) = 0)"

definition next_pow2_u32 :: "u32 \<Rightarrow> u32" where
  "next_pow2_u32 x = (if x \<le> 1 then 1 else push_bit (32 - clz (x - 1)) 1)"

definition next_pow2_u64 :: "u64 \<Rightarrow> u64" where
  "next_pow2_u64 x = (if x \<le> 1 then 1 else push_bit (64 - clz (x - 1)) 1)"

section \<open>Alignment (align.h)\<close>

definition align_up :: "u64 \<Rightarrow> u64 \<Rightarrow> u64" where
  "align_up x a = ((x + a - 1) AND NOT (a - 1))"

definition align_down :: "u64 \<Rightarrow> u64 \<Rightarrow> u64" where
  "align_down x a = (x AND NOT (a - 1))"

definition is_aligned :: "u64 \<Rightarrow> u64 \<Rightarrow> bool" where
  "is_aligned x a = ((x AND (a - 1)) = 0)"

section \<open>Bitfields (stdbitfield.h)\<close>

definition bitfield_get :: "'a::len word \<Rightarrow> nat \<Rightarrow> 'a word" where
  "bitfield_get bf n = (drop_bit n bf AND 1)"

definition bitfield_set_high :: "'a::len word \<Rightarrow> nat \<Rightarrow> 'a word" where
  "bitfield_set_high bf n = (bf OR push_bit n 1)"

definition bitfield_clear :: "'a::len word \<Rightarrow> nat \<Rightarrow> 'a word" where
  "bitfield_clear bf n = (bf AND NOT (push_bit n 1))"

definition bitfield_toggle :: "'a::len word \<Rightarrow> nat \<Rightarrow> 'a word" where
  "bitfield_toggle bf n = (bf XOR push_bit n 1)"

definition bitfield_set :: "'a::len word \<Rightarrow> nat \<Rightarrow> 'a word \<Rightarrow> 'a word" where
  "bitfield_set bf n v = ((bf AND NOT (push_bit n 1)) OR ((v AND 1) * push_bit n 1))"

definition BITFIELD_COUNT_FOR :: "u64 \<Rightarrow> u64 \<Rightarrow> u64" where
  "BITFIELD_COUNT_FOR n cap = (n + cap - 1) div cap"

section \<open>Addresses (mem.h, mm.h)\<close>

definition address_is_valid :: "u64 \<Rightarrow> nat \<Rightarrow> bool \<Rightarrow> bool res" where
  "address_is_valid a bits sign_extended =
     rassert (bits > 0 \<and> bits \<le> 64) (Panic ''address_is_valid'')
       (if bits = 64 then Inr True
        else let upper_mask = NOT (push_bit bits 1 - 1) in
          if \<not> sign_extended then Inr ((upper_mask AND a) = 0)
          else let sign_bit = push_bit (bits - 1) 1 in
            Inr (if (a AND sign_bit) \<noteq> 0 then (a AND upper_mask) = upper_mask
                 else (a AND upper_mask) = 0))"

definition va_sign_extend :: "u64 \<Rightarrow> nat \<Rightarrow> u64 res" where
  "va_sign_extend va bits =
     (if bits = 64 then Inr va
      else rassert (bits > 0 \<and> bits < 64) (Panic ''va_sign_extend: bits'')
        (rbind (address_is_valid va bits False) (\<lambda>ok.
         rassert ok (Panic ''va_sign_extend: address'')
           (let sign_bit = push_bit (bits - 1) 1;
                m = NOT (push_bit bits 1 - 1)
            in Inr (if (va AND sign_bit) \<noteq> 0 then va OR m else va)))))"

definition va_zero_extend :: "u64 \<Rightarrow> nat \<Rightarrow> u64 res" where
  "va_zero_extend va bits =
     (if bits = 64 then Inr va
      else rassert (bits > 0 \<and> bits < 64) (Panic ''va_zero_extend: bits'')
        (rbind (address_is_valid va bits True) (\<lambda>ok.
         rassert ok (Panic ''va_zero_extend: address'')
           (Inr (va AND (push_bit bits 1 - 1))))))"

definition PAGE_SIZE :: u64 where
  "PAGE_SIZE = 0x1000"

definition KERNEL_ADDR_BITS :: nat where
  "KERNEL_ADDR_BITS = 48"

definition KERNEL_BASE :: u64 where
  "KERNEL_BASE = NOT (push_bit (KERNEL_ADDR_BITS - 1) 1 - 1)"

definition kva_to_kpa :: "u64 \<Rightarrow> u64" where
  "kva_to_kpa va = (va AND NOT KERNEL_BASE)"

definition kpa_to_kva :: "u64 \<Rightarrow> u64" where
  "kpa_to_kva pa = (pa OR KERNEL_BASE)"

definition is_kva :: "u64 \<Rightarrow> bool" where
  "is_kva a = (a \<ge> KERNEL_BASE)"

definition as_kva :: "u64 \<Rightarrow> u64" where
  "as_kva p = (if is_kva p then p else kpa_to_kva p)"

definition as_kpa :: "u64 \<Rightarrow> u64" where
  "as_kpa p = (if is_kva p then kva_to_kpa p else p)"

record pv_ptr =
  pv_pa :: u64
  pv_va :: u64

definition pv_ptr_new :: "u64 \<Rightarrow> u64 \<Rightarrow> pv_ptr" where
  "pv_ptr_new pa va = \<lparr>pv_pa = pa, pv_va = va\<rparr>"

definition ptrs_are_kmapped :: "pv_ptr \<Rightarrow> bool" where
  "ptrs_are_kmapped pv = ((pv_pa pv OR KERNEL_BASE) = pv_va pv)"

section \<open>Facts on logarithms\<close>

lemma bit_length_le_iff: "bit_length n \<le> k \<longleftrightarrow> n < 2 ^ k"
proof (induction n arbitrary: k rule: bit_length.induct)
  case (1 n)
  show ?case
  proof (cases "n = 0")
    case False
    then show ?thesis
      using 1 [of "k - 1"] by (cases k) (auto simp: bit_length.simps [of n] div_less_iff_less_mult)
  qed (simp add: bit_length.simps)
qed

lemma less_bit_length_iff: "k < bit_length n \<longleftrightarrow> 2 ^ k \<le> n"
  using bit_length_le_iff [of n k] by linarith

lemma bit_length_bounds:
  "0 < n \<Longrightarrow> 0 < bit_length n \<and> 2 ^ (bit_length n - 1) \<le> n \<and> n < 2 ^ bit_length n"
  using less_bit_length_iff [of 0 n] less_bit_length_iff [of "bit_length n - 1" n]
    bit_length_le_iff [of n "bit_length n"]
  by auto

lemma bit_length_word: "bit_length (unat (x :: 'a::len word)) \<le> LENGTH('a)"
  by (simp add: bit_length_le_iff)

lemma bit_length_pos: "(x :: 'a::len word) \<noteq> 0 \<Longrightarrow> 0 < bit_length (unat x)"
  by (simp add: less_bit_length_iff unat_gt_0 Suc_leI)

lemma unat_log2_floor_u64: "x \<noteq> 0 \<Longrightarrow> unat (log2_floor_u64 x) = bit_length (unat x) - 1"
  using bit_length_pos [of x] bit_length_word [of x]
  by (simp add: log2_floor_u64_def clz_def unat_sub_if' unat_of_nat)

lemma unat_log2_floor_u32: "x \<noteq> 0 \<Longrightarrow> unat (log2_floor_u32 x) = bit_length (unat x) - 1"
  using bit_length_pos [of x] bit_length_word [of x]
  by (simp add: log2_floor_u32_def clz_def unat_sub_if' unat_of_nat)

lemma unat_log2_ceil_u64:
  "x > 1 \<Longrightarrow> unat (log2_ceil_u64 x) = bit_length (unat x - 1)"
proof -
  assume x: "x > 1"
  hence "unat (x - 1) = unat x - 1" by (intro unat_minus_one) auto
  thus ?thesis
    using x bit_length_pos [of "x - 1"] bit_length_word [of "x - 1"]
    by (auto simp: log2_ceil_u64_def clz_def unat_sub_if' unat_of_nat)
qed

lemma log2_floor_u64_bounds:
  assumes "x \<noteq> 0"
  shows "2 ^ unat (log2_floor_u64 x) \<le> unat x" and "unat x < 2 ^ Suc (unat (log2_floor_u64 x))"
    and "unat (log2_floor_u64 x) < 64"
  using bit_length_bounds [of "unat x"] bit_length_word [of x] assms
  by (auto simp: unat_log2_floor_u64 unat_gt_0 simp del: power_Suc)

lemma unat_power_of2: "x < 64 \<Longrightarrow> unat (power_of2 x) = 2 ^ unat x"
  by (simp add: power_of2_def push_bit_one_exp unat_exp word_less_nat_alt)

lemma bit_top:
  fixes m n :: nat
  assumes "2 ^ n \<le> m" and "m < 2 ^ Suc n"
  shows "bit m n"
proof -
  have "m div 2 ^ n = 1" using assms by (intro div_nat_eqI) auto
  thus ?thesis by (simp add: bit_iff_odd)
qed

lemma is_pow2_exp: "n < 64 \<Longrightarrow> is_pow2 (2 ^ n)"
  unfolding is_pow2_def exp_minus_one_mask
  by (auto simp: bit_simps intro!: bit_word_eqI)

lemma is_pow2_D: "is_pow2 x \<Longrightarrow> \<exists>n < 64. x = 2 ^ n"
proof -
  assume p: "is_pow2 x"
  define n where "n = bit_length (unat x) - 1"
  have x0: "x \<noteq> 0" using p by (simp add: is_pow2_def)
  have b: "2 ^ n \<le> unat x" "unat x < 2 ^ Suc n" and n: "n < 64"
    using log2_floor_u64_bounds [OF x0] by (auto simp: n_def unat_log2_floor_u64 [OF x0])
  have bx: "bit (unat x) n"
    using b by (rule bit_top)
  have "x = 2 ^ n"
  proof (rule ccontr)
    assume "x \<noteq> 2 ^ n"
    hence "unat x \<noteq> unat (2 ^ n :: u64)" by (simp add: word_unat_eq_iff)
    hence "2 ^ n \<noteq> unat x" using n by (simp add: unat_exp)
    hence "2 ^ n \<le> unat x - 1" "unat x - 1 < 2 ^ Suc n" using b by auto
    hence "bit (unat (x - 1)) n" unfolding unat_minus_one [OF x0] by (rule bit_top)
    hence "bit (x AND (x - 1)) n"
      using bx n by (simp add: bit_simps)
    thus False using p by (simp add: is_pow2_def)
  qed
  with n show ?thesis by blast
qed

lemma is_pow2_iff: "is_pow2 x \<longleftrightarrow> (\<exists>n < 64. x = 2 ^ n)"
  using is_pow2_exp is_pow2_D by blast

section \<open>Facts on alignment\<close>

lemma unat_align_down:
  "n < 64 \<Longrightarrow> unat (align_down x (2 ^ n)) = unat x - unat x mod 2 ^ n"
  by (simp add: align_down_def exp_minus_one_mask unat_and_not_mask)

lemma is_aligned_iff: "n < 64 \<Longrightarrow> is_aligned x (2 ^ n) \<longleftrightarrow> 2 ^ n dvd unat x"
proof -
  have "is_aligned x (2 ^ n) \<longleftrightarrow> unat (x AND mask n) = 0"
    unfolding is_aligned_def exp_minus_one_mask by (simp add: unat_eq_zero)
  thus ?thesis by (simp add: unat_and_mask mod_eq_0_iff_dvd)
qed

lemma unat_align_up:
  assumes "n < 64" and "unat x + 2 ^ n \<le> 2 ^ 64"
  shows "unat (align_up x (2 ^ n)) = (unat x + 2 ^ n - 1) div 2 ^ n * 2 ^ n"
proof -
  have "unat (x + (2 ^ n - 1)) = unat x + (2 ^ n - 1)"
  proof (subst unat_add_lem [THEN iffD1])
    have "unat (2 ^ n - 1 :: u64) = 2 ^ n - 1"
      using assms(1) by (simp add: unat_minus_one unat_exp)
    thus "unat x + unat (2 ^ n - 1 :: u64) < 2 ^ LENGTH(64)"
      and "unat x + unat (2 ^ n - 1 :: u64) = unat x + (2 ^ n - 1)"
      using assms by auto
  qed
  hence "unat (x + 2 ^ n - 1) = unat x + 2 ^ n - 1"
    by (simp add: add_diff_eq)
  thus ?thesis
    by (simp add: align_up_def exp_minus_one_mask unat_and_not_mask minus_mod_eq_div_mult)
qed

lemma unat_div_ceil:
  assumes "b \<noteq> 0" and "unat a + unat b \<le> 2 ^ 64"
  shows "unat (div_ceil a b) = (unat a + unat b - 1) div unat b"
proof -
  have "unat (a + (b - 1)) = unat a + (unat b - 1)"
    using assms unat_gt_0 [of b] by (subst unat_add_lem [THEN iffD1]) (simp_all add: unat_minus_one)
  thus ?thesis
    using assms by (simp add: div_ceil_def unat_div add_diff_eq unat_gt_0 Suc_leI)
qed

section \<open>Facts on bitfields\<close>

lemma bitfield_get_iff: "bitfield_get bf n = 1 \<longleftrightarrow> bit bf n" for bf :: "'a::len word"
  by (simp add: bitfield_get_def and_one_eq bit_iff_odd_drop_bit mod2_eq_if)

lemma bit_bitfield_set_high:
  "bit (bitfield_set_high bf n) m \<longleftrightarrow> bit bf m \<or> m = n \<and> n < LENGTH('a)" for bf :: "'a::len word"
  by (auto simp: bitfield_set_high_def push_bit_one_exp bit_simps)

lemma bit_bitfield_clear:
  "bit (bitfield_clear bf n) m \<longleftrightarrow> bit bf m \<and> m \<noteq> n" for bf :: "'a::len word"
  by (auto simp: bitfield_clear_def push_bit_one_exp bit_simps dest: bit_imp_le_length)

section \<open>Facts on addresses\<close>

lemma KERNEL_BASE_mask: "KERNEL_BASE = NOT (mask 47)"
  unfolding KERNEL_BASE_def KERNEL_ADDR_BITS_def push_bit_one_exp exp_minus_one_mask by simp

lemma address_is_valid_zero:
  assumes "0 < bits" and "bits < 64"
  shows "address_is_valid a bits False = Inr (\<forall>n. bits \<le> n \<and> n < 64 \<longrightarrow> \<not> bit a n)"
  using assms and_not_mask_eq_0 [of a bits]
  by (simp add: address_is_valid_def push_bit_one_exp exp_minus_one_mask Let_def and.commute)

lemma address_is_valid_sign:
  assumes "0 < bits" and "bits < 64"
  shows "address_is_valid a bits True =
    Inr (\<forall>n. bits \<le> n \<and> n < 64 \<longrightarrow> bit a n = bit a (bits - 1))"
  using assms and_not_mask_eq_0 [of a bits] and_not_mask_full [of a bits]
  by (auto simp: address_is_valid_def push_bit_one_exp exp_minus_one_mask Let_def and_exp_eq_0)

lemma va_sign_extend_bits:
  assumes "0 < bits" and "bits < 64" and "\<forall>n. bits \<le> n \<and> n < 64 \<longrightarrow> \<not> bit va n"
  shows "va_sign_extend va bits =
    Inr (if bit va (bits - 1) then va OR NOT (mask bits) else va)"
  using assms by (simp add: va_sign_extend_def address_is_valid_zero push_bit_one_exp
      exp_minus_one_mask and_exp_eq_0 Let_def)

lemma va_zero_extend_bits:
  assumes "0 < bits" and "bits < 64"
    and "\<forall>n. bits \<le> n \<and> n < 64 \<longrightarrow> bit va n = bit va (bits - 1)"
  shows "va_zero_extend va bits = Inr (take_bit bits va)"
  using assms by (simp add: va_zero_extend_def address_is_valid_sign push_bit_one_exp
      exp_minus_one_mask take_bit_eq_mask)

lemma kva_kpa_inverse: "pa AND KERNEL_BASE = 0 \<Longrightarrow> kva_to_kpa (kpa_to_kva pa) = pa"
  unfolding kva_to_kpa_def kpa_to_kva_def KERNEL_BASE_mask and_not_mask_eq_0
  by (auto simp: bit_simps not_less intro!: bit_word_eqI)

lemma kpa_kva_inverse: "va AND KERNEL_BASE = KERNEL_BASE \<Longrightarrow> kpa_to_kva (kva_to_kpa va) = va"
  unfolding kva_to_kpa_def kpa_to_kva_def KERNEL_BASE_mask and_not_mask_full
  by (auto simp: bit_simps intro!: bit_word_eqI)

lemma is_kva_iff: "is_kva a \<longleftrightarrow> a AND KERNEL_BASE = KERNEL_BASE"
proof
  assume "is_kva a"
  hence "unat a \<ge> 2 ^ 64 - 2 ^ 47"
    by (simp add: is_kva_def KERNEL_BASE_def KERNEL_ADDR_BITS_def word_le_nat_alt)
  moreover have "unat a < 2 ^ 64" using unsigned_less [of a] by simp
  ultimately have "unat a div 2 ^ 47 = 2 ^ 17 - 1" by simp
  hence "unat (a AND NOT (mask 47)) = unat KERNEL_BASE"
    unfolding unat_and_not_mask
    by (simp add: minus_mod_eq_div_mult KERNEL_BASE_def KERNEL_ADDR_BITS_def)
  thus "a AND KERNEL_BASE = KERNEL_BASE" by (simp add: KERNEL_BASE_mask word_unat_eq_iff)
next
  assume "a AND KERNEL_BASE = KERNEL_BASE"
  thus "is_kva a" unfolding is_kva_def by (metis word_and_le2)
qed

section \<open>Properties\<close>

text \<open>For an alignment that is a power of two and an address that does not wrap,
  \<open>align_up\<close> is the least multiple of the alignment that is not below the address, and
  \<open>align_down\<close> the greatest one that is not above it.\<close>
theorem align_spec:
  assumes "is_pow2 a" and "unat x + unat a \<le> 2 ^ 64"
  shows "unat a dvd unat (align_up x a) \<and> unat x \<le> unat (align_up x a) \<and>
      (\<forall>k. unat x \<le> k * unat a \<longrightarrow> unat (align_up x a) \<le> k * unat a) \<and>
    unat a dvd unat (align_down x a) \<and> unat (align_down x a) \<le> unat x \<and>
      (\<forall>k. k * unat a \<le> unat x \<longrightarrow> k * unat a \<le> unat (align_down x a))"
proof -
  obtain n where n: "n < 64" "a = 2 ^ n" using is_pow2_D [OF assms(1)] by blast
  have a: "unat a = 2 ^ n" using n by (simp add: unat_exp)
  have up: "unat (align_up x a) = (unat x + 2 ^ n - 1) div 2 ^ n * 2 ^ n"
    using unat_align_up [OF n(1)] assms(2) n a by simp
  have down: "unat (align_down x a) = unat x div 2 ^ n * 2 ^ n"
    using unat_align_down [OF n(1)] n by (simp add: minus_mod_eq_div_mult)
  have p: "0 < (2 :: nat) ^ n" by simp
  have "unat x \<le> (unat x + 2 ^ n - 1) div 2 ^ n * 2 ^ n"
    using div_mult_mod_eq [of "unat x + 2 ^ n - 1" "2 ^ n"]
      mod_less_divisor [OF p, of "unat x + 2 ^ n - 1"] by linarith
  moreover have "(unat x + 2 ^ n - 1) div 2 ^ n \<le> k" if "unat x \<le> k * 2 ^ n" for k
  proof -
    have "unat x + 2 ^ n - 1 < (k + 1) * 2 ^ n"
      using that p unfolding add_mult_distrib mult_1 by linarith
    hence "(unat x + 2 ^ n - 1) div 2 ^ n < k + 1" by (simp add: div_less_iff_less_mult)
    thus ?thesis by simp
  qed
  moreover have "k \<le> unat x div 2 ^ n" if "k * 2 ^ n \<le> unat x" for k
    using that by (simp add: less_eq_div_iff_mult_less_eq)
  ultimately show ?thesis
    unfolding up down a by auto
qed

theorem align_spec_witness:
  "align_up 0x40200123 PAGE_SIZE = 0x40201000 \<and>
   unat (0x1000 :: u64) dvd unat (align_up 0x40200123 0x1000)"
  using align_spec [of "0x1000" "0x40200123"]
  by (simp add: align_up_def is_pow2_def PAGE_SIZE_def)

text \<open>Sign extension of an address of the given width and zero extension are inverse
  to each other, and neither of them panics on an address that is valid for its form.\<close>
theorem va_extend_roundtrip:
  assumes "0 < bits" and "bits \<le> 64" and "address_is_valid va bits False = Inr True"
  shows "\<exists>a. va_sign_extend va bits = Inr a \<and> address_is_valid a bits True = Inr True \<and>
    va_zero_extend a bits = Inr va"
proof (cases "bits = 64")
  case True
  then show ?thesis by (simp add: va_sign_extend_def va_zero_extend_def address_is_valid_def)
next
  case False
  hence b: "0 < bits" "bits < 64" using assms by auto
  have z: "\<forall>n. bits \<le> n \<and> n < 64 \<longrightarrow> \<not> bit va n"
    using assms(3) address_is_valid_zero [OF b] by simp
  let ?a = "if bit va (bits - 1) then va OR NOT (mask bits) else va"
  have "bits - 1 < bits" using b by simp
  hence s: "\<forall>n. bits \<le> n \<and> n < 64 \<longrightarrow> bit ?a n = bit ?a (bits - 1)"
    using z b by (auto simp: bit_simps)
  have t: "take_bit bits ?a = va"
    using z b by (auto intro!: bit_word_eqI simp: bit_simps) (metis not_less)+
  have "va_sign_extend va bits = Inr ?a" using va_sign_extend_bits [OF b z] .
  moreover have "address_is_valid ?a bits True = Inr True" using address_is_valid_sign [OF b] s by simp
  moreover have "va_zero_extend ?a bits = Inr va" using va_zero_extend_bits [OF b s] t by simp
  ultimately show ?thesis by blast
qed

theorem va_extend_roundtrip_witness:
  "\<exists>a. va_sign_extend 0xFFFF80000000 48 = Inr a \<and> va_zero_extend a 48 = Inr 0xFFFF80000000"
  using va_extend_roundtrip [of 48 "0xFFFF80000000"] by (auto simp: address_is_valid_def)

text \<open>The kernel's linear map is a bijection between the physical addresses below
  the kernel half and the kernel addresses, and \<open>as_kva\<close> and \<open>as_kpa\<close> are idempotent
  normalisations onto the two halves.\<close>
theorem kva_kpa_roundtrip:
  "(pa AND KERNEL_BASE = 0 \<longrightarrow> kva_to_kpa (kpa_to_kva pa) = pa) \<and>
   (is_kva va \<longrightarrow> kpa_to_kva (kva_to_kpa va) = va) \<and>
   is_kva (kpa_to_kva pa) \<and> is_kva (as_kva p) \<and> as_kva (as_kpa (as_kva p)) = as_kva p"
proof -
  have k: "is_kva (kpa_to_kva x)" for x
    unfolding is_kva_iff kpa_to_kva_def by (simp add: bit_simps bit_word_eqI)
  have ka: "is_kva (as_kva p)" by (simp add: as_kva_def k)
  have "kpa_to_kva (kva_to_kpa v) = v" if "is_kva v" for v
    using that by (simp add: is_kva_iff kpa_kva_inverse)
  moreover have "\<not> is_kva (kva_to_kpa v)" for v
    unfolding is_kva_iff kva_to_kpa_def and.assoc
    by (auto simp: KERNEL_BASE_def KERNEL_ADDR_BITS_def)
  ultimately show ?thesis
    using k ka kva_kpa_inverse by (simp add: as_kpa_def as_kva_def)
qed

theorem kva_kpa_roundtrip_witness:
  "kva_to_kpa (kpa_to_kva 0x40200000) = 0x40200000"
  using kva_kpa_roundtrip [of "0x40200000" 0 0] by (simp add: KERNEL_BASE_def KERNEL_ADDR_BITS_def)

text \<open>\<open>next_pow2\<close> is the least power of two that is not below its argument, as long
  as one is representable.\<close>
theorem next_pow2_u64_spec:
  assumes "0 < x" and "x \<le> 2 ^ 63"
  shows "is_pow2 (next_pow2_u64 x) \<and> x \<le> next_pow2_u64 x \<and>
    (\<forall>y. is_pow2 y \<and> x \<le> y \<longrightarrow> next_pow2_u64 x \<le> y)"
proof (cases "x \<le> 1")
  case True
  hence "x = 1" using assms(1) by (simp add: word_le_nat_alt word_less_nat_alt word_unat_eq_iff)
  thus ?thesis by (simp add: next_pow2_u64_def is_pow2_def)
next
  case False
  hence u: "unat (x - 1) = unat x - 1" and g: "1 < unat x"
    using unat_minus_one [of x] assms(1) by (auto simp: word_le_nat_alt)
  define n where "n = bit_length (unat x - 1)"
  have "unat x - 1 < 2 ^ 63" using assms(2) g by (simp add: word_le_nat_alt unat_exp)
  hence n: "n \<le> 63" by (simp add: n_def bit_length_le_iff)
  have e: "next_pow2_u64 x = 2 ^ n"
    using False n by (simp add: next_pow2_u64_def clz_def u n_def push_bit_one_exp)
  have le: "unat x \<le> 2 ^ k \<longleftrightarrow> n \<le> k" for k
    using g by (auto simp: n_def bit_length_le_iff)
  have "x \<le> 2 ^ n" using n le [of n] by (simp add: word_le_nat_alt unat_exp)
  moreover have "2 ^ n \<le> y" if y: "is_pow2 y" "x \<le> y" for y
  proof -
    obtain k where k: "k < 64" "y = 2 ^ k" using is_pow2_D [OF y(1)] by blast
    hence "n \<le> k" using y(2) le [of k] by (simp add: word_le_nat_alt unat_exp)
    thus ?thesis using k n by (simp add: word_le_nat_alt unat_exp power_increasing)
  qed
  ultimately show ?thesis using n by (simp add: e is_pow2_exp)
qed

theorem next_pow2_u64_spec_witness: "(0x1235 :: u64) \<le> next_pow2_u64 0x1235"
  using next_pow2_u64_spec [of "0x1235"] by simp

end
