(* ===== verification/Mm_Info.thy ===== *)
theory Mm_Info
  imports Kmath
begin

text \<open>
  The memory map of the SoC (\<open>init/mem_regions/mem_regions.c\<close>) and the figures derived
  from it at boot (\<open>mm_info.c\<close>).  The addresses of string literals and of the linker's
  section symbols are not fixed by the sources: a literal's address is given by the
  parameter \<open>lit\<close>, the sections by a record of the type \<open>mm_ksections\<close>.
\<close>

datatype mem_regions_type = MEM_REGION_RESERVED | MEM_REGION_DDR | MEM_REGION_MMIO

record mem_region =
  mr_tag :: u64
  mr_start :: u64
  mr_size :: u64
  mr_type :: mem_regions_type

definition MEM_REGIONS :: "(string \<Rightarrow> u64) \<Rightarrow> mem_region list" where
  "MEM_REGIONS lit =
    [\<lparr>mr_tag = lit ''MMIO'', mr_start = 0x0, mr_size = 0x40000000, mr_type = MEM_REGION_MMIO\<rparr>,
     \<lparr>mr_tag = lit ''DDR'', mr_start = 0x40000000, mr_size = 0x100000000, mr_type = MEM_REGION_DDR\<rparr>,
     \<lparr>mr_tag = lit ''OP-TEE'', mr_start = 0x56000000, mr_size = 0x2000000,
      mr_type = MEM_REGION_RESERVED\<rparr>]"

record mm_ksection =
  ks_start :: u64
  ks_end :: u64
  ks_size :: u64

record mm_ksections =
  ks_text :: mm_ksection
  ks_rodata :: mm_ksection
  ks_data :: mm_ksection
  ks_bss :: mm_ksection
  ks_stacks :: mm_ksection

record mm_info =
  mm_ddr_size :: u64
  mm_ddr_start :: u64
  mm_ddr_end :: u64
  mm_kernel_start :: u64
  mm_page_count :: u64
  mm_addr_space :: u64

definition is_valid_ksection :: "mm_info \<Rightarrow> mm_ksection \<Rightarrow> bool" where
  "is_valid_ksection m k =
     (if ks_start k + ks_size k \<noteq> ks_end k then False
      else if as_kpa (ks_end k) > mm_addr_space m then False
      else True)"

text \<open>The body of the loop over the regions; the flag is \<open>ddr_declared\<close>.\<close>

fun mm_info_region :: "mem_region \<Rightarrow> bool \<times> mm_info \<Rightarrow> bool \<times> mm_info" where
  "mm_info_region r (declared, m) =
     (case mr_type r of
        MEM_REGION_RESERVED \<Rightarrow> (declared, m)
      | MEM_REGION_DDR \<Rightarrow>
          (True, m\<lparr>mm_ddr_start := (if \<not> declared then mr_start r
                                   else min_u64 (mm_ddr_start m) (mr_start r)),
                   mm_ddr_end := max_u64 (mm_ddr_end m) (mr_start r + mr_size r),
                   mm_ddr_size := mm_ddr_size m + mr_size r,
                   mm_addr_space := max_u64 (mr_start r + mr_size r) (mm_addr_space m)\<rparr>)
      | MEM_REGION_MMIO \<Rightarrow>
          (declared, m\<lparr>mm_addr_space := max_u64 (mr_start r + mr_size r) (mm_addr_space m)\<rparr>))"

definition mm_info_init :: "mem_region list \<Rightarrow> u64 \<Rightarrow> mm_ksections \<Rightarrow> mm_info res" where
  "mm_info_init regions start ks =
    (let m0 = \<lparr>mm_ddr_size = 0, mm_ddr_start = 0, mm_ddr_end = 0, mm_kernel_start = 0,
               mm_page_count = 0, mm_addr_space = 0\<rparr>;
         m1 = snd (fold mm_info_region regions (False, m0));
         m2 = m1\<lparr>mm_kernel_start := start\<rparr>
     in rassert (mm_kernel_start m2 \<ge> mm_ddr_start m2 \<and> mm_kernel_start m2 < mm_ddr_end m2)
          (Panic ''mm_info_init: kernel start'')
        (let m3 = m2\<lparr>mm_page_count := div_ceil (mm_addr_space m2) PAGE_SIZE\<rparr>
         in rassert (is_valid_ksection m3 (ks_text ks)) (Panic ''text'')
           (rassert (is_valid_ksection m3 (ks_rodata ks)) (Panic ''rodata'')
           (rassert (is_valid_ksection m3 (ks_data ks)) (Panic ''data'')
           (rassert (is_valid_ksection m3 (ks_bss ks)) (Panic ''bss'')
           (rassert (is_valid_ksection m3 (ks_stacks ks)) (Panic ''stacks'')
             (Inr m3)))))))"

definition mm_va_is_in_kmap_range :: "mm_info \<Rightarrow> u64 \<Rightarrow> bool" where
  "mm_va_is_in_kmap_range m p =
     (if \<not> is_kva p then False
      else if p < kpa_to_kva (mm_addr_space m) then True
      else False)"

lemmas mm_info_defs = mm_info_init_def MEM_REGIONS_def max_u64_def min_u64_def
  div_ceil_def PAGE_SIZE_def

text \<open>The figures of the board, from the hard-coded regions.\<close>

definition board_info :: "u64 \<Rightarrow> mm_info" where
  "board_info start =
    \<lparr>mm_ddr_size = 0x100000000, mm_ddr_start = 0x40000000, mm_ddr_end = 0x140000000,
     mm_kernel_start = start, mm_page_count = 0x140000, mm_addr_space = 0x140000000\<rparr>"

text \<open>Whenever the boot-time scan of the memory map succeeds, its figures are
  the board's: 4 GiB of DDR from 0x40000000 and an address space of 0x140000 pages.\<close>
theorem mm_info_init_board:
  assumes "mm_info_init (MEM_REGIONS lit) start ks = Inr m"
  shows "m = board_info start"
  using assms by (simp add: mm_info_defs board_info_def rassert_eq_Inr Let_def)

theorem mm_info_init_board_witness:
  "mm_info_init (MEM_REGIONS (\<lambda>_. 0)) 0x40200000
     \<lparr>ks_text = \<lparr>ks_start = 0x40200000, ks_end = 0x40210000, ks_size = 0x10000\<rparr>,
      ks_rodata = \<lparr>ks_start = 0x40210000, ks_end = 0x40220000, ks_size = 0x10000\<rparr>,
      ks_data = \<lparr>ks_start = 0x40220000, ks_end = 0x40230000, ks_size = 0x10000\<rparr>,
      ks_bss = \<lparr>ks_start = 0x40230000, ks_end = 0x40240000, ks_size = 0x10000\<rparr>,
      ks_stacks = \<lparr>ks_start = 0x40240000, ks_end = 0x40250000, ks_size = 0x10000\<rparr>\<rparr>
   = Inr (board_info 0x40200000)"
proof -
  let ?r = "mm_info_init (MEM_REGIONS (\<lambda>_. 0)) 0x40200000
     \<lparr>ks_text = \<lparr>ks_start = 0x40200000, ks_end = 0x40210000, ks_size = 0x10000\<rparr>,
      ks_rodata = \<lparr>ks_start = 0x40210000, ks_end = 0x40220000, ks_size = 0x10000\<rparr>,
      ks_data = \<lparr>ks_start = 0x40220000, ks_end = 0x40230000, ks_size = 0x10000\<rparr>,
      ks_bss = \<lparr>ks_start = 0x40230000, ks_end = 0x40240000, ks_size = 0x10000\<rparr>,
      ks_stacks = \<lparr>ks_start = 0x40240000, ks_end = 0x40250000, ks_size = 0x10000\<rparr>\<rparr>"
  have "is_ok ?r"
    by (simp add: mm_info_defs is_valid_ksection_def as_kpa_def is_kva_def KERNEL_BASE_def
        KERNEL_ADDR_BITS_def)
  then obtain m where "?r = Inr m" by (auto simp: is_ok_iff)
  with mm_info_init_board [OF this] show ?thesis by simp
qed

end
