(* ===== verification/Early_Kalloc.thy ===== *)
theory Early_Kalloc
  imports Mm_Info
begin

text \<open>
  The boot-time allocator of \<open>init/mem_regions/early_kalloc.c\<close>.  It keeps a linked list of
  memory regions; the nodes are carved downwards from the end of DDR by \<open>alloc_node\<close>, so a
  fresh node never aliases an older one, and the list is modelled by the sequence of its
  \<open>memreg\<close> fields.  The lemmas show that the list stays a tiling of the address space and
  that an allocation turns exactly the returned, previously free, range into a reserved one.
\<close>

record early_memreg =
  em_addr :: u64
  em_pages :: u64
  em_free :: bool
  em_tag :: u64
  em_permanent :: bool
  em_device_memory :: bool

record early_state =
  ek_list :: "early_memreg list"
  ek_next_allocation_node :: u64
  ek_ended :: bool
  ek_memreg_count :: u64
  ek_memregs_buf :: "early_memreg list"

definition EK_NODE_SIZE :: u64 where \<comment> \<open>\<open>sizeof(ek_node)\<close>: a pointer and six 16-byte slots\<close>
  "EK_NODE_SIZE = 112"

definition EARLY_MEMREG_SIZE :: u64 where \<comment> \<open>\<open>sizeof(early_memreg)\<close>\<close>
  "EARLY_MEMREG_SIZE = 96"

definition node_start :: "early_memreg \<Rightarrow> u64" where
  "node_start n = as_kpa (em_addr n)"

definition node_end :: "early_memreg \<Rightarrow> u64" where
  "node_end n = as_kpa (em_addr n) + em_pages n * PAGE_SIZE"

definition alloc_node :: "mm_info \<Rightarrow> early_state \<Rightarrow> early_state res" where
  "alloc_node m s =
    (let n = ek_next_allocation_node s;
         s = s\<lparr>ek_next_allocation_node := n - EK_NODE_SIZE,
               ek_memreg_count := ek_memreg_count s + 1\<rparr>
     in rassert (n \<ge> mm_ddr_start m) (Panic ''alloc_node'') (Inr s))"

text \<open>The part of a region that follows the reserved one; its \<open>device_memory\<close> is taken from
  the region's tag pointer.\<close>

definition tail_memreg :: "early_memreg \<Rightarrow> u64 \<Rightarrow> early_memreg" where
  "tail_memreg c e =
    \<lparr>em_addr = e, em_pages = (node_end c - e) div PAGE_SIZE, em_free = em_free c,
     em_tag = em_tag c, em_permanent = em_permanent c, em_device_memory = (em_tag c \<noteq> 0)\<rparr>"

fun reserve_walk ::
  "mm_info \<Rightarrow> bool \<Rightarrow> early_memreg \<Rightarrow> early_state \<Rightarrow> early_memreg list \<Rightarrow> early_memreg list \<Rightarrow>
   early_state res" where
  "reserve_walk m replace_all e s pre [] = Inl (Panic ''reserve_memreg: region not free'')"
| "reserve_walk m replace_all e s pre (c # cs) =
    (let en = em_addr e + em_pages e * PAGE_SIZE;
         c_start = node_start c;
         c_end = node_end c
     in if (replace_all \<or> em_free c) \<and> c_start \<le> em_addr e \<and> en \<le> c_end then
          if c_start = em_addr e \<and> c_end = en then Inr (s\<lparr>ek_list := pre @ e # cs\<rparr>)
          else if c_start = em_addr e then
            rbind (alloc_node m s) (\<lambda>s.
            Inr (s\<lparr>ek_list := pre @ e # tail_memreg c en # cs\<rparr>))
          else if c_end = en then
            rbind (alloc_node m s) (\<lambda>s.
            Inr (s\<lparr>ek_list :=
                     pre @ c\<lparr>em_pages := (em_addr e - c_start) div PAGE_SIZE\<rparr> # e # cs\<rparr>))
          else
            rbind (alloc_node m s) (\<lambda>s.
            rbind (alloc_node m s) (\<lambda>s.
            Inr (s\<lparr>ek_list :=
                     pre @ c\<lparr>em_pages := (em_addr e - c_start) div PAGE_SIZE\<rparr> # e #
                       tail_memreg c en # cs\<rparr>)))
        else reserve_walk m replace_all e s (pre @ [c]) cs)"

definition reserve_memreg ::
  "mm_info \<Rightarrow> early_memreg \<Rightarrow> bool \<Rightarrow> early_state \<Rightarrow> early_state res" where
  "reserve_memreg m e replace_all s =
     rassert (\<not> em_free e) (Panic ''reserve_memreg'')
       (reserve_walk m replace_all (e\<lparr>em_addr := as_kpa (em_addr e)\<rparr>) s [] (ek_list s))"

text \<open>First pass of \<open>early_kalloc_init\<close>: one node per DDR or MMIO region; the node of the
  first region is the one allocated before the loop.\<close>

definition region_memreg :: "mem_region \<Rightarrow> early_memreg" where
  "region_memreg r =
    \<lparr>em_addr = mr_start r, em_pages = div_ceil (mr_size r) PAGE_SIZE,
     em_free = (mr_type r = MEM_REGION_DDR), em_tag = as_kpa (mr_tag r),
     em_permanent = True, em_device_memory = (mr_type r = MEM_REGION_MMIO)\<rparr>"

definition init_region :: "mm_info \<Rightarrow> mem_region \<Rightarrow> early_state \<Rightarrow> early_state res" where
  "init_region m r s =
    (if mr_type r = MEM_REGION_RESERVED then Inr s
     else rbind (if ek_list s = [] then Inr s else alloc_node m s) (\<lambda>s.
          rassert (mr_size r mod PAGE_SIZE = 0) (Panic ''early_kalloc_init: region size'')
            (Inr (s\<lparr>ek_list := ek_list s @ [region_memreg r]\<rparr>))))"

definition init_reserved :: "mm_info \<Rightarrow> mem_region \<Rightarrow> early_state \<Rightarrow> early_state res" where
  "init_reserved m r s =
    (if mr_type r \<noteq> MEM_REGION_RESERVED then Inr s
     else reserve_memreg m
       \<lparr>em_addr = mr_start r, em_pages = div_ceil (mr_size r) PAGE_SIZE, em_free = False,
        em_tag = as_kpa (mr_tag r), em_permanent = True, em_device_memory = False\<rparr> True s)"

definition reserve_section :: "mm_info \<Rightarrow> u64 \<times> mm_ksection \<Rightarrow> early_state \<Rightarrow> early_state res" where
  "reserve_section m k s =
    (let sec = snd k in
     rassert (ks_start sec mod PAGE_SIZE = 0 \<and> ks_size sec mod PAGE_SIZE = 0 \<and>
              ks_end sec = ks_start sec + ks_size sec) (Panic ''RESERVE_SECTION'')
       (reserve_memreg m
          \<lparr>em_addr = as_kpa (ks_start sec), em_pages = ks_size sec div PAGE_SIZE, em_free = False,
           em_tag = fst k, em_permanent = True, em_device_memory = False\<rparr> False s))"

definition early_kalloc_init ::
  "(string \<Rightarrow> u64) \<Rightarrow> mm_info \<Rightarrow> mem_region list \<Rightarrow> mm_ksections \<Rightarrow> early_state res" where
  "early_kalloc_init lit m regions ks =
    (let s = \<lparr>ek_list = [], ek_next_allocation_node = align_down (mm_ddr_end m) 16 - EK_NODE_SIZE,
              ek_ended = False, ek_memreg_count = 0, ek_memregs_buf = []\<rparr>
     in rassert (regions \<noteq> [] \<and> mr_type (hd regions) \<noteq> MEM_REGION_RESERVED) Fault
       (rbind (alloc_node m s) (\<lambda>s.
        rbind (rfold (init_region m) regions s) (\<lambda>s.
        rbind (rfold (init_reserved m) regions s) (\<lambda>s.
        rfold (reserve_section m)
          [(lit ''text'', ks_text ks), (lit ''rodata'', ks_rodata ks), (lit ''data'', ks_data ks),
           (lit ''bss'', ks_bss ks), (lit ''stacks'', ks_stacks ks)] s)))))"

text \<open>The search of \<open>early_kalloc\<close> for the first free region with enough pages.\<close>

fun first_fit :: "u64 \<Rightarrow> early_memreg list \<Rightarrow> early_memreg option" where
  "first_fit pages [] = None"
| "first_fit pages (c # cs) =
    (if \<not> em_free c \<or> em_pages c < pages then first_fit pages cs else Some c)"

definition early_kalloc ::
  "mm_info \<Rightarrow> u64 \<Rightarrow> u64 \<Rightarrow> bool \<Rightarrow> bool \<Rightarrow> early_state \<Rightarrow> (early_state \<times> pv_ptr) res" where
  "early_kalloc m bytes tag permanent device_memory s =
     rassert (\<not> ek_ended s) (Panic ''early_kalloc: ended'')
       (rassert (permanent \<or> is_pow2 (bytes div PAGE_SIZE)) (Panic ''early_kalloc: order'')
          (let pages = div_ceil bytes PAGE_SIZE in
           case first_fit pages (ek_list s) of
             None \<Rightarrow> Inl (Panic ''early_kalloc: no available free memory'')
           | Some c \<Rightarrow>
               rbind (reserve_memreg m
                  \<lparr>em_addr = em_addr c, em_pages = pages, em_free = False, em_tag = as_kva tag,
                   em_permanent = permanent, em_device_memory = device_memory\<rparr> False s) (\<lambda>s.
               Inr (s, pv_ptr_new (em_addr c) (as_kva (em_addr c))))))"

definition retag :: "early_memreg \<Rightarrow> early_memreg" where
  "retag e = e\<lparr>em_tag := as_kva (em_tag e)\<rparr>"

definition early_kalloc_get_memregs ::
  "(string \<Rightarrow> u64) \<Rightarrow> mm_info \<Rightarrow> early_state \<Rightarrow> (early_state \<times> early_memreg list) res" where
  "early_kalloc_get_memregs lit m s =
     rbind (if \<not> ek_ended s then
              rbind (early_kalloc m (ek_memreg_count s * EARLY_MEMREG_SIZE)
                       (lit ''early_kalloc memregs'') False False s) (\<lambda>(s, pv).
              Inr (s\<lparr>ek_memregs_buf := ek_list s, ek_ended := True\<rparr>))
            else Inr s) (\<lambda>s.
     let buf = map retag (ek_memregs_buf s) in
     Inr (s\<lparr>ek_memregs_buf := buf\<rparr>, buf))"

section \<open>The region list as a tiling\<close>

definition em_bytes :: "early_memreg \<Rightarrow> nat" where
  "em_bytes c = unat (em_pages c) * 4096"

definition em_range :: "early_memreg \<Rightarrow> nat set" where
  "em_range c = {unat (em_addr c) ..< unat (em_addr c) + em_bytes c}"

fun tiles :: "nat \<Rightarrow> early_memreg list \<Rightarrow> nat \<Rightarrow> bool" where
  "tiles a [] b = (a = b)"
| "tiles a (c # cs) b = (unat (em_addr c) = a \<and> 0 < em_bytes c \<and> tiles (a + em_bytes c) cs b)"

definition free_at :: "early_memreg list \<Rightarrow> nat \<Rightarrow> bool" where
  "free_at cs y = (\<exists>c \<in> set cs. em_free c \<and> y \<in> em_range c)"

lemma free_at_simps [simp]:
  "free_at [] y = False"
  "free_at (c # cs) y = (em_free c \<and> y \<in> em_range c \<or> free_at cs y)"
  "free_at (cs @ ds) y = (free_at cs y \<or> free_at ds y)"
  by (auto simp: free_at_def)

lemma tiles_le: "tiles a cs b \<Longrightarrow> a \<le> b"
  by (induction cs arbitrary: a) (force)+

lemma tiles_append: "tiles a (cs @ ds) b \<longleftrightarrow> (\<exists>x. tiles a cs x \<and> tiles x ds b)"
  by (induction cs arbitrary: a) auto

lemma tiles_free_bounds: "tiles a cs b \<Longrightarrow> free_at cs y \<Longrightarrow> a \<le> y \<and> y < b"
  by (induction cs arbitrary: a) (fastforce simp: em_range_def dest: tiles_le)+

lemma as_kpa_low: "unat a < 2 ^ 47 \<Longrightarrow> as_kpa a = a"
  by (auto simp: as_kpa_def is_kva_def KERNEL_BASE_def KERNEL_ADDR_BITS_def word_le_nat_alt)

lemma unat_pages_end:
  assumes "unat a + unat p * 4096 \<le> 2 ^ 47"
  shows "unat (a + p * PAGE_SIZE) = unat a + unat p * 4096"
  using assms by (simp add: PAGE_SIZE_def unat_word_ariths)

lemma node_bounds:
  assumes "unat (em_addr c) + em_bytes c \<le> 2 ^ 47" and "0 < em_bytes c"
  shows "node_start c = em_addr c" and "unat (node_end c) = unat (em_addr c) + em_bytes c"
proof -
  have "unat (em_addr c) < 2 ^ 47" using assms by linarith
  thus s: "node_start c = em_addr c" by (simp add: node_start_def as_kpa_low)
  have "as_kpa (em_addr c) = em_addr c" using \<open>unat (em_addr c) < 2 ^ 47\<close> by (rule as_kpa_low)
  thus "unat (node_end c) = unat (em_addr c) + em_bytes c"
    using assms unat_pages_end [of "em_addr c" "em_pages c"] by (simp add: node_end_def em_bytes_def)
qed

lemma unat_page_diff:
  assumes "x \<le> y" and "4096 dvd unat y - unat x"
  shows "unat ((y - x) div PAGE_SIZE) * 4096 = unat y - unat x"
  using assms by (simp add: unat_div PAGE_SIZE_def unat_sub)

lemma alloc_node_list: "alloc_node m s = Inr s' \<Longrightarrow> ek_list s' = ek_list s"
  by (auto simp: alloc_node_def Let_def rassert_eq_Inr)

text \<open>What a successful reservation does to one region that holds the reserved range.\<close>

definition carves :: "early_memreg \<Rightarrow> early_memreg \<Rightarrow> early_memreg list \<Rightarrow> bool" where
  "carves e c ds \<longleftrightarrow>
     tiles (unat (em_addr c)) ds (unat (em_addr c) + em_bytes c) \<and> e \<in> set ds \<and>
     (\<forall>y. free_at ds y \<longleftrightarrow> em_free c \<and> y \<in> em_range c - em_range e)"

lemma carve_here:
  assumes c: "unat (em_addr c) + em_bytes c \<le> 2 ^ 47" "0 < em_bytes c" "4096 dvd unat (em_addr c)"
    and e: "\<not> em_free e" "0 < em_bytes e" "4096 dvd unat (em_addr e)"
      "unat (em_addr e) + em_bytes e \<le> 2 ^ 47"
    and inside: "node_start c \<le> em_addr e" "em_addr e + em_pages e * PAGE_SIZE \<le> node_end c"
  defines "en \<equiv> em_addr e + em_pages e * PAGE_SIZE"
    and "c' \<equiv> c\<lparr>em_pages := (em_addr e - node_start c) div PAGE_SIZE\<rparr>"
  shows "em_range e \<subseteq> em_range c"
    and "node_start c = em_addr e \<Longrightarrow> node_end c = en \<Longrightarrow> carves e c [e]"
    and "node_start c = em_addr e \<Longrightarrow> node_end c \<noteq> en \<Longrightarrow> carves e c [e, tail_memreg c en]"
    and "node_start c \<noteq> em_addr e \<Longrightarrow> node_end c = en \<Longrightarrow> carves e c [c', e]"
    and "node_start c \<noteq> em_addr e \<Longrightarrow> node_end c \<noteq> en \<Longrightarrow> carves e c [c', e, tail_memreg c en]"
proof -
  have en: "unat en = unat (em_addr e) + em_bytes e"
    using e(4) unat_pages_end [of "em_addr e" "em_pages e"] by (simp add: en_def em_bytes_def)
  note nb = node_bounds [OF c(1,2)]
  have lo: "unat (em_addr c) \<le> unat (em_addr e)" using inside(1) nb(1) by (simp add: word_le_nat_alt)
  have hi: "unat (em_addr e) + em_bytes e \<le> unat (em_addr c) + em_bytes c"
    using inside(2) nb(2) en by (simp add: word_le_nat_alt en_def)
  have dv: "4096 dvd em_bytes e" "4096 dvd em_bytes c" by (simp_all add: em_bytes_def)
  have tl: "em_bytes (tail_memreg c en) = unat (node_end c) - unat en"
    unfolding em_bytes_def tail_memreg_def early_memreg.select_convs
    using nb en dv c(3) e(3) inside(2)
    by (intro unat_page_diff) (auto simp: en_def intro: dvd_diff_nat dvd_add)
  have hd: "em_bytes c' = unat (em_addr e) - unat (em_addr c)"
    using unat_page_diff [of "em_addr c" "em_addr e"] c(3) e(3) lo
    by (simp add: em_bytes_def c'_def nb(1) word_le_nat_alt dvd_diff_nat)
  have ta: "em_addr (tail_memreg c en) = en" "em_free (tail_memreg c en) = em_free c"
    and ca: "em_addr c' = em_addr c" "em_free c' = em_free c"
    by (simp_all add: tail_memreg_def c'_def)
  note facts = carves_def em_range_def ta ca en tl hd nb word_unat_eq_iff
  show "em_range e \<subseteq> em_range c" using lo hi by (auto simp: em_range_def)
  show "node_start c = em_addr e \<Longrightarrow> node_end c = en \<Longrightarrow> carves e c [e]"
    using e lo hi by (auto simp: facts)
  show "node_start c = em_addr e \<Longrightarrow> node_end c \<noteq> en \<Longrightarrow> carves e c [e, tail_memreg c en]"
    using e lo hi by (auto simp: facts)
  show "node_start c \<noteq> em_addr e \<Longrightarrow> node_end c = en \<Longrightarrow> carves e c [c', e]"
    using e lo hi by (auto simp: facts)
  show "node_start c \<noteq> em_addr e \<Longrightarrow> node_end c \<noteq> en \<Longrightarrow> carves e c [c', e, tail_memreg c en]"
    using e lo hi by (auto simp: facts)
qed

lemma reserve_walk_carves:
  assumes "reserve_walk m ra e s pre cs = Inr s'" and "tiles x cs b" and "b \<le> 2 ^ 47"
    and "4096 dvd x" and e: "\<not> em_free e" "0 < em_bytes e" "4096 dvd unat (em_addr e)"
      "unat (em_addr e) + em_bytes e \<le> 2 ^ 47"
  shows "\<exists>cs1 c cs2 ds. cs = cs1 @ c # cs2 \<and> ek_list s' = pre @ cs1 @ ds @ cs2 \<and>
    carves e c ds \<and> em_range e \<subseteq> em_range c \<and> (ra \<or> em_free c)"
  using assms(1-4)
proof (induction cs arbitrary: pre x)
  case (Cons c cs)
  let ?en = "em_addr e + em_pages e * PAGE_SIZE"
  show ?case
  proof (cases "(ra \<or> em_free c) \<and> node_start c \<le> em_addr e \<and> ?en \<le> node_end c")
    case True
    have "unat (em_addr c) + em_bytes c \<le> 2 ^ 47"
      using Cons.prems(2,3) by (auto dest: tiles_le)
    note here = carve_here [OF this _ _ e conjunct1 [OF conjunct2 [OF True]]
        conjunct2 [OF conjunct2 [OF True]]]
    have "0 < em_bytes c" "4096 dvd unat (em_addr c)" using Cons.prems by auto
    note here = here [OF this]
    have "\<exists>ds. ek_list s' = pre @ ds @ cs \<and> carves e c ds"
      using Cons.prems(1) True here
      by (fastforce simp: Let_def rbind_eq_Inr split: if_splits)
    then show ?thesis using True here(1)
      by (metis append_Nil)
  next
    case False
    have "reserve_walk m ra e s (pre @ [c]) cs = Inr s'"
      using Cons.prems(1) unfolding reserve_walk.simps Let_def if_not_P [OF False] .
    moreover have "tiles (x + em_bytes c) cs b" "4096 dvd x + em_bytes c"
      using Cons.prems by (auto simp: em_bytes_def)
    ultimately obtain cs1 c1 cs2 ds where "cs = cs1 @ c1 # cs2"
      "ek_list s' = (pre @ [c]) @ cs1 @ ds @ cs2" "carves e c1 ds" "em_range e \<subseteq> em_range c1"
      "ra \<or> em_free c1"
      using Cons.IH Cons.prems(3) by blast
    thus ?thesis by (intro exI [of _ "c # cs1"]) auto
  qed
qed simp

section \<open>Reservations and allocations\<close>

definition ek_inv :: "early_state \<Rightarrow> nat \<Rightarrow> bool" where
  "ek_inv s b \<longleftrightarrow> tiles 0 (ek_list s) b \<and> b \<le> 2 ^ 47"

lemma carves_tiles:
  assumes "tiles a (cs1 @ c # cs2) b" and "carves e c ds" and "em_range e \<subseteq> em_range c"
  shows "tiles a (cs1 @ ds @ cs2) b"
    and "free_at (cs1 @ ds @ cs2) y \<longleftrightarrow> free_at (cs1 @ c # cs2) y \<and> y \<notin> em_range e"
proof -
  obtain x where x: "tiles a cs1 x" "unat (em_addr c) = x" "tiles (x + em_bytes c) cs2 b"
    using assms(1) by (auto simp: tiles_append)
  show "tiles a (cs1 @ ds @ cs2) b"
    using x assms(2) unfolding carves_def tiles_append by blast
  have "free_at cs1 y \<Longrightarrow> y \<notin> em_range c" "free_at cs2 y \<Longrightarrow> y \<notin> em_range c"
    using tiles_free_bounds [OF x(1)] tiles_free_bounds [OF x(3)] x(2) by (force simp: em_range_def)+
  thus "free_at (cs1 @ ds @ cs2) y \<longleftrightarrow> free_at (cs1 @ c # cs2) y \<and> y \<notin> em_range e"
    using assms(2,3) unfolding carves_def by auto
qed

lemma reserve_memreg_correct:
  assumes "reserve_memreg m e ra s = Inr s'" and "ek_inv s b"
    and "0 < em_bytes e" and "4096 dvd unat (em_addr e)"
    and "unat (em_addr e) + em_bytes e \<le> 2 ^ 47"
  shows "ek_inv s' b" and "free_at (ek_list s') y \<longleftrightarrow> free_at (ek_list s) y \<and> y \<notin> em_range e"
    and "ra \<or> (\<forall>y \<in> em_range e. free_at (ek_list s) y)" and "e \<in> set (ek_list s')"
proof -
  have "unat (em_addr e) < 2 ^ 47" using assms(3,5) by linarith
  hence e: "e\<lparr>em_addr := as_kpa (em_addr e)\<rparr> = e" by (simp add: as_kpa_low)
  have "\<not> em_free e" and w: "reserve_walk m ra e s [] (ek_list s) = Inr s'"
    using assms(1) e by (auto simp: reserve_memreg_def rassert_eq_Inr)
  then obtain cs1 c cs2 ds where l: "ek_list s = cs1 @ c # cs2" "ek_list s' = cs1 @ ds @ cs2"
    and cv: "carves e c ds" "em_range e \<subseteq> em_range c" and f: "ra \<or> em_free c"
    using reserve_walk_carves [OF w, of 0 b] assms by (auto simp: ek_inv_def)
  note t = carves_tiles [OF _ cv, of 0 cs1 cs2 b]
  have "tiles 0 (cs1 @ c # cs2) b" using assms(2) l by (simp add: ek_inv_def)
  note t = t [OF this]
  show "ek_inv s' b" using t(1) assms(2) l by (simp add: ek_inv_def)
  show "free_at (ek_list s') y \<longleftrightarrow> free_at (ek_list s) y \<and> y \<notin> em_range e" using t(2) l by simp
  show "ra \<or> (\<forall>y \<in> em_range e. free_at (ek_list s) y)" using f cv(2) l by auto
  show "e \<in> set (ek_list s')" using cv(1) l by (auto simp: carves_def)
qed

lemma first_fit_Some:
  "first_fit p cs = Some c \<Longrightarrow> c \<in> set cs \<and> em_free c \<and> p \<le> em_pages c"
  by (induction cs) (auto split: if_splits)

lemma first_fit_None: "first_fit p cs = None \<longleftrightarrow> (\<forall>c \<in> set cs. em_free c \<longrightarrow> em_pages c < p)"
  by (induction cs) auto

lemma tiles_member:
  assumes "tiles a cs b" and "c \<in> set cs" and "4096 dvd a"
  shows "4096 dvd unat (em_addr c)" and "unat (em_addr c) + em_bytes c \<le> b" and "0 < em_bytes c"
  using assms by (induction cs arbitrary: a) (auto simp: em_bytes_def dest: tiles_le)

lemma unat_div_ceil_page:
  "unat bytes + 4096 \<le> 2 ^ 64 \<Longrightarrow> unat (div_ceil bytes PAGE_SIZE) = (unat bytes + 4095) div 4096"
  using unat_div_ceil [of PAGE_SIZE bytes] by (simp add: PAGE_SIZE_def)

text \<open>A reservation of a page-aligned range below the kernel half keeps the region
  list a gapless tiling of the address space, and afterwards exactly the bytes that were free
  before and lie outside of the range are free; without \<open>replace_all\<close> the whole range was free.\<close>
theorem reserve_memreg_spec:
  assumes "reserve_memreg m e replace_all s = Inr s'" and "ek_inv s b"
    and "em_pages e \<noteq> 0" and "is_aligned (em_addr e) PAGE_SIZE"
    and "unat (em_addr e) + em_bytes e \<le> 2 ^ 47"
  shows "ek_inv s' b \<and> e \<in> set (ek_list s') \<and>
    (\<forall>y. free_at (ek_list s') y \<longleftrightarrow> free_at (ek_list s) y \<and> y \<notin> em_range e) \<and>
    (replace_all \<or> (\<forall>y \<in> em_range e. free_at (ek_list s) y))"
proof -
  have "0 < em_bytes e" using assms(3) by (simp add: em_bytes_def unat_gt_0)
  moreover have "4096 dvd unat (em_addr e)"
    using assms(4) is_aligned_iff [of 12 "em_addr e"] by (simp add: PAGE_SIZE_def)
  ultimately show ?thesis
    using reserve_memreg_correct [OF assms(1,2) _ _ assms(5)] by blast
qed

lemma early_kalloc_correct:
  assumes "early_kalloc m bytes tag permanent dev s = Inr (s', pv)" and "ek_inv s b"
    and "0 < bytes" and "unat bytes + 4096 \<le> 2 ^ 64"
  defines "R \<equiv> {unat (pv_pa pv) ..< unat (pv_pa pv) + (unat bytes + 4095) div 4096 * 4096}"
  shows "ek_inv s' b \<and> 4096 dvd unat (pv_pa pv) \<and> pv_va pv = kpa_to_kva (pv_pa pv) \<and>
    (\<forall>y \<in> R. free_at (ek_list s) y) \<and>
    (\<forall>y. free_at (ek_list s') y \<longleftrightarrow> free_at (ek_list s) y \<and> y \<notin> R)"
proof -
  let ?p = "div_ceil bytes PAGE_SIZE"
  obtain c where ff: "first_fit ?p (ek_list s) = Some c"
    and r: "reserve_memreg m \<lparr>em_addr = em_addr c, em_pages = ?p, em_free = False,
      em_tag = as_kva tag, em_permanent = permanent, em_device_memory = dev\<rparr> False s = Inr s'"
      (is "reserve_memreg m ?e _ _ = _")
    and pv: "pv = pv_ptr_new (em_addr c) (as_kva (em_addr c))"
    using assms(1)
    by (auto simp: early_kalloc_def Let_def rassert_eq_Inr rbind_eq_Inr split: option.splits)
  have c: "c \<in> set (ek_list s)" and le: "?p \<le> em_pages c" using first_fit_Some [OF ff] by auto
  have t: "tiles 0 (ek_list s) b" and b: "b \<le> 2 ^ 47" using assms(2) by (auto simp: ek_inv_def)
  note cb = tiles_member [OF t c]
  have p: "unat ?p = (unat bytes + 4095) div 4096" by (rule unat_div_ceil_page [OF assms(4)])
  have e: "em_bytes ?e = (unat bytes + 4095) div 4096 * 4096" by (simp add: em_bytes_def p)
  have pos: "0 < em_bytes ?e" using assms(3) unfolding e by (simp add: word_less_nat_alt div_greater_zero_iff)
  have "em_bytes ?e \<le> em_bytes c" using le by (simp add: em_bytes_def word_le_nat_alt)
  hence bound: "unat (em_addr ?e) + em_bytes ?e \<le> 2 ^ 47" using cb(2) b by simp
  have R: "em_range ?e = R" unfolding R_def pv by (simp add: em_range_def e pv_ptr_new_def)
  have "unat (em_addr c) < 2 ^ 47" using bound pos by simp
  hence "\<not> is_kva (em_addr c)"
    by (simp add: is_kva_def KERNEL_BASE_def KERNEL_ADDR_BITS_def word_le_nat_alt)
  thus ?thesis
    using reserve_memreg_correct [OF r assms(2) pos _ bound] cb(1) R
    by (simp add: pv pv_ptr_new_def as_kva_def)
qed

text \<open>Property C11: \<open>early_kalloc\<close> returns a page-aligned range that was entirely free, at its
  kernel-mapped address; it is the only range whose status changes.\<close>
theorem early_kalloc_spec:
  assumes "early_kalloc m bytes tag permanent dev s = Inr (s', pv)" and "ek_inv s b"
    and "0 < bytes" and "unat bytes + 4096 \<le> 2 ^ 64"
  defines "R \<equiv> {unat (pv_pa pv) ..< unat (pv_pa pv) + (unat bytes + 4095) div 4096 * 4096}"
  shows "ek_inv s' b \<and> 4096 dvd unat (pv_pa pv) \<and> pv_va pv = kpa_to_kva (pv_pa pv) \<and>
    (\<forall>y \<in> R. free_at (ek_list s) y) \<and>
    (\<forall>y. free_at (ek_list s') y \<longleftrightarrow> free_at (ek_list s) y \<and> y \<notin> R)"
  unfolding R_def by (rule early_kalloc_correct [OF assms(1-4)])

text \<open>A two-region state as the first pass of the initialisation leaves it.\<close>

definition ek_sample :: early_state where
  "ek_sample =
    \<lparr>ek_list =
       [\<lparr>em_addr = 0, em_pages = 0x40000, em_free = False, em_tag = 0, em_permanent = True,
         em_device_memory = True\<rparr>,
        \<lparr>em_addr = 0x40000000, em_pages = 0x100000, em_free = True, em_tag = 0,
         em_permanent = True, em_device_memory = False\<rparr>],
     ek_next_allocation_node = 0x13FFFFF00, ek_ended = False, ek_memreg_count = 2,
     ek_memregs_buf = []\<rparr>"

lemma ek_sample_inv: "ek_inv ek_sample 0x140000000"
  by (simp add: ek_inv_def ek_sample_def em_bytes_def)

lemmas ek_eval = ek_sample_def early_kalloc_def reserve_memreg_def alloc_node_def board_info_def
  node_start_def node_end_def as_kpa_def as_kva_def is_kva_def KERNEL_BASE_def
  KERNEL_ADDR_BITS_def PAGE_SIZE_def div_ceil_def EK_NODE_SIZE_def is_pow2_def

theorem reserve_memreg_spec_witness:
  "\<exists>s'. reserve_memreg (board_info 0)
      \<lparr>em_addr = 0x56000000, em_pages = 0x2000, em_free = False, em_tag = 0,
       em_permanent = True, em_device_memory = False\<rparr> False ek_sample = Inr s' \<and>
    ek_inv s' 0x140000000 \<and> \<not> free_at (ek_list s') 0x56000000 \<and> free_at (ek_list s') 0x40000000"
proof -
  let ?e = "\<lparr>em_addr = 0x56000000, em_pages = 0x2000, em_free = False, em_tag = 0,
       em_permanent = True, em_device_memory = False\<rparr> :: early_memreg"
  have "is_ok (reserve_memreg (board_info 0) ?e False ek_sample)"
    by (simp add: ek_eval Let_def)
  then obtain s' where r: "reserve_memreg (board_info 0) ?e False ek_sample = Inr s'"
    by (auto simp: is_ok_iff)
  show ?thesis
    using reserve_memreg_spec [OF r ek_sample_inv] r
    by (simp add: em_bytes_def em_range_def is_aligned_def PAGE_SIZE_def ek_sample_def)
qed

theorem early_kalloc_spec_witness:
  "\<exists>s' pv. early_kalloc (board_info 0) 0x1800 0 True False ek_sample = Inr (s', pv) \<and>
    ek_inv s' 0x140000000 \<and> pv_va pv = kpa_to_kva (pv_pa pv)"
proof -
  have "is_ok (early_kalloc (board_info 0) 0x1800 0 True False ek_sample)"
    by (simp add: ek_eval Let_def)
  then obtain s' pv where r: "early_kalloc (board_info 0) 0x1800 0 True False ek_sample = Inr (s', pv)"
    by (auto simp: is_ok_iff)
  thus ?thesis
    using early_kalloc_spec [OF r ek_sample_inv] by simp
qed

lemma reserve_walk_ok:
  assumes "\<exists>c \<in> set cs. (ra \<or> em_free c) \<and> node_start c \<le> em_addr e \<and>
      em_addr e + em_pages e * PAGE_SIZE \<le> node_end c"
    and "mm_ddr_start m \<le> ek_next_allocation_node s"
    and "mm_ddr_start m \<le> ek_next_allocation_node s - EK_NODE_SIZE"
  shows "\<exists>s'. reserve_walk m ra e s pre cs = Inr s'"
  using assms
proof (induction cs arbitrary: pre)
  case (Cons a cs)
  show ?case
  proof (cases "(ra \<or> em_free a) \<and> node_start a \<le> em_addr e \<and>
      em_addr e + em_pages e * PAGE_SIZE \<le> node_end a")
    case True
    with Cons.prems show ?thesis by (auto simp: Let_def alloc_node_def)
  next
    case False
    with Cons show ?thesis
      unfolding reserve_walk.simps Let_def if_not_P [OF False] by auto
  qed
qed simp

text \<open>A request is served whenever some free region has enough pages and the node
  area has room for two more nodes, so the allocator does not fail early.\<close>
theorem early_kalloc_succeeds:
  assumes "ek_inv s b" and "\<not> ek_ended s" and "permanent \<or> is_pow2 (bytes div PAGE_SIZE)"
    and "c \<in> set (ek_list s)" and "em_free c" and "div_ceil bytes PAGE_SIZE \<le> em_pages c"
    and "0 < bytes" and "unat bytes + 4096 \<le> 2 ^ 64"
    and "mm_ddr_start m \<le> ek_next_allocation_node s"
    and "mm_ddr_start m \<le> ek_next_allocation_node s - EK_NODE_SIZE"
  shows "\<exists>s' pv. early_kalloc m bytes tag permanent dev s = Inr (s', pv)"
proof -
  let ?p = "div_ceil bytes PAGE_SIZE"
  obtain d where ff: "first_fit ?p (ek_list s) = Some d"
    using assms(4-6) first_fit_None [of ?p "ek_list s"] by fastforce
  have d: "d \<in> set (ek_list s)" "em_free d" and le: "?p \<le> em_pages d"
    using first_fit_Some [OF ff] by auto
  have t: "tiles 0 (ek_list s) b" and b: "b \<le> 2 ^ 47" using assms(1) by (auto simp: ek_inv_def)
  note db = tiles_member [OF t d(1)]
  have dl: "unat (em_addr d) + em_bytes d \<le> 2 ^ 47" using db(2) b by simp
  have lo: "unat (em_addr d) < 2 ^ 47" using dl db(3) by simp
  have pd: "unat ?p * 4096 \<le> em_bytes d" using le by (simp add: em_bytes_def word_le_nat_alt)
  have "unat (em_addr d + ?p * PAGE_SIZE) = unat (em_addr d) + unat ?p * 4096"
    using dl pd by (intro unat_pages_end) linarith
  hence "em_addr d + ?p * PAGE_SIZE \<le> node_end d"
    using node_bounds [OF dl db(3)] pd by (simp add: word_le_nat_alt)
  moreover have "node_start d = em_addr d" using node_bounds [OF dl db(3)] by simp
  ultimately have "\<exists>c \<in> set (ek_list s). em_free c \<and> node_start c \<le> em_addr d \<and>
      em_addr d + ?p * PAGE_SIZE \<le> node_end c"
    using d by auto
  hence "\<exists>s'. reserve_memreg m \<lparr>em_addr = em_addr d, em_pages = ?p, em_free = False,
      em_tag = as_kva tag, em_permanent = permanent, em_device_memory = dev\<rparr> False s = Inr s'"
    unfolding reserve_memreg_def using assms(9,10) lo
    by (simp add: as_kpa_low reserve_walk_ok)
  thus ?thesis using assms(2,3) ff by (auto simp: early_kalloc_def Let_def)
qed

theorem early_kalloc_succeeds_witness:
  "\<exists>s' pv. early_kalloc (board_info 0) 0x4000 0 False False ek_sample = Inr (s', pv)"
  by (rule early_kalloc_succeeds [OF ek_sample_inv, where c = "ek_list ek_sample ! 1"])
    (simp_all add: ek_eval)

section \<open>Boot\<close>

definition section_range :: "mm_ksection \<Rightarrow> nat set" where
  "section_range k = {unat (as_kpa (ks_start k)) ..< unat (as_kpa (ks_start k)) + unat (ks_size k)}"

definition sections_of :: "mm_ksections \<Rightarrow> mm_ksection list" where
  "sections_of ks = [ks_text ks, ks_rodata ks, ks_data ks, ks_bss ks, ks_stacks ks]"

lemma page_mod_dvd: "x mod PAGE_SIZE = 0 \<longleftrightarrow> 4096 dvd unat x"
  by (simp add: PAGE_SIZE_def word_unat_eq_iff unat_mod mod_eq_0_iff_dvd)

lemma as_kpa_aligned: "4096 dvd unat x \<Longrightarrow> 4096 dvd unat (as_kpa x)"
proof -
  assume "4096 dvd unat x"
  moreover have "NOT KERNEL_BASE = mask 47" by (simp add: KERNEL_BASE_mask)
  ultimately show ?thesis
    by (auto simp: as_kpa_def kva_to_kpa_def unat_and_mask intro: dvd_mod)
qed

lemma reserve_section_correct:
  assumes "reserve_section m (t, k) s = Inr s'" and "ek_inv s b" and "ks_size k \<noteq> 0"
    and "unat (as_kpa (ks_start k)) + unat (ks_size k) \<le> 2 ^ 47"
  shows "ek_inv s' b"
    and "free_at (ek_list s') y \<longleftrightarrow> free_at (ek_list s) y \<and> y \<notin> section_range k"
proof -
  let ?e = "\<lparr>em_addr = as_kpa (ks_start k), em_pages = ks_size k div PAGE_SIZE, em_free = False,
           em_tag = t, em_permanent = True, em_device_memory = False\<rparr>"
  have al: "4096 dvd unat (ks_start k)" "4096 dvd unat (ks_size k)"
    and r: "reserve_memreg m ?e False s = Inr s'"
    using assms(1) by (auto simp: reserve_section_def Let_def rassert_eq_Inr page_mod_dvd)
  have eb: "em_bytes ?e = unat (ks_size k)"
    using al(2) by (simp add: em_bytes_def unat_div PAGE_SIZE_def)
  moreover have "0 < unat (ks_size k)" using assms(3) by (simp add: unat_gt_0)
  ultimately have "0 < em_bytes ?e" by simp
  note c = reserve_memreg_correct [OF r assms(2) this]
  have "em_range ?e = section_range k" by (simp add: em_range_def section_range_def eb)
  thus "ek_inv s' b"
    and "free_at (ek_list s') y \<longleftrightarrow> free_at (ek_list s) y \<and> y \<notin> section_range k"
    using c as_kpa_aligned [OF al(1)] assms(4) eb by auto
qed

lemma reserve_sections_correct:
  assumes "rfold (reserve_section m) tks s = Inr s'" and "ek_inv s b"
    and "\<forall>k \<in> snd ` set tks. ks_size k \<noteq> 0 \<and> unat (as_kpa (ks_start k)) + unat (ks_size k) \<le> 2 ^ 47"
  shows "ek_inv s' b \<and> (\<forall>y. free_at (ek_list s') y \<longleftrightarrow>
    free_at (ek_list s) y \<and> (\<forall>k \<in> snd ` set tks. y \<notin> section_range k))"
  using assms
proof (induction tks arbitrary: s)
  case (Cons tk tks)
  obtain t k where tk: "tk = (t, k)" by (cases tk)
  from Cons.prems(1) obtain s1 where s1: "reserve_section m (t, k) s = Inr s1"
    "rfold (reserve_section m) tks s1 = Inr s'"
    by (auto simp: tk rbind_eq_Inr)
  have "ks_size k \<noteq> 0" "unat (as_kpa (ks_start k)) + unat (ks_size k) \<le> 2 ^ 47"
    using Cons.prems(3) tk by auto
  note c = reserve_section_correct [OF s1(1) Cons.prems(2) this]
  show ?case using Cons.IH [OF s1(2) c(1)] Cons.prems(3) c(2) tk by auto
qed simp

lemma init_regions_board:
  assumes "rbind (alloc_node (board_info st) s0) (rfold (init_region (board_info st)) (MEM_REGIONS lit)) = Inr s"
    and "ek_list s0 = []"
  shows "ek_inv s 0x140000000" and "free_at (ek_list s) y \<longleftrightarrow> 0x40000000 \<le> y \<and> y < 0x140000000"
proof -
  have "ek_list s = map region_memreg (butlast (MEM_REGIONS lit))"
    using assms
    by (auto simp: MEM_REGIONS_def init_region_def rbind_eq_Inr rassert_eq_Inr dest!: alloc_node_list)
  thus "ek_inv s 0x140000000" and "free_at (ek_list s) y \<longleftrightarrow> 0x40000000 \<le> y \<and> y < 0x140000000"
    by (auto simp: MEM_REGIONS_def region_memreg_def ek_inv_def em_bytes_def em_range_def
        div_ceil_def PAGE_SIZE_def)
qed

text \<open>After \<open>early_kalloc_init\<close> on the board's memory map the region list tiles the
  address space, and the free bytes are exactly the DDR without the OP-TEE carve-out and without
  the kernel's own sections.\<close>
theorem early_kalloc_init_free:
  assumes "early_kalloc_init lit (board_info st) (MEM_REGIONS lit) ks = Inr s"
    and "\<forall>k \<in> set (sections_of ks).
      ks_size k \<noteq> 0 \<and> unat (as_kpa (ks_start k)) + unat (ks_size k) \<le> 2 ^ 47"
  shows "ek_inv s 0x140000000 \<and>
    (\<forall>y. free_at (ek_list s) y \<longleftrightarrow> 0x40000000 \<le> y \<and> y < 0x140000000 \<and>
      \<not> (0x56000000 \<le> y \<and> y < 0x58000000) \<and> (\<forall>k \<in> set (sections_of ks). y \<notin> section_range k))"
proof -
  let ?m = "board_info st"
  let ?tks = "[(lit ''text'', ks_text ks), (lit ''rodata'', ks_rodata ks), (lit ''data'', ks_data ks),
           (lit ''bss'', ks_bss ks), (lit ''stacks'', ks_stacks ks)]"
  obtain s0 s2 s3 where s2: "rbind (alloc_node ?m s0) (rfold (init_region ?m) (MEM_REGIONS lit)) = Inr s2"
    "ek_list s0 = []"
    and s3: "rfold (init_reserved ?m) (MEM_REGIONS lit) s2 = Inr s3"
    and s: "rfold (reserve_section ?m) ?tks s3 = Inr s"
    using assms(1) unfolding early_kalloc_init_def Let_def rassert_eq_Inr rbind_eq_Inr by fastforce
  note i2 = init_regions_board [OF s2]
  let ?e = "\<lparr>em_addr = 0x56000000, em_pages = div_ceil 0x2000000 PAGE_SIZE, em_free = False,
        em_tag = as_kpa (lit ''OP-TEE''), em_permanent = True, em_device_memory = False\<rparr>"
  have r: "reserve_memreg ?m ?e True s2 = Inr s3"
    using s3 by (simp add: MEM_REGIONS_def init_reserved_def rbind_eq_Inr)
  have eb: "em_bytes ?e = 0x2000000" by (simp add: em_bytes_def div_ceil_def PAGE_SIZE_def)
  note i3 = reserve_memreg_correct [OF r i2(1), unfolded eb em_range_def]
  have i3': "ek_inv s3 0x140000000"
    "\<And>y. free_at (ek_list s3) y \<longleftrightarrow> free_at (ek_list s2) y \<and> \<not> (0x56000000 \<le> y \<and> y < 0x58000000)"
    using i3 by auto
  have ks: "snd ` set ?tks = set (sections_of ks)" by (simp add: sections_of_def)
  show ?thesis
    using reserve_sections_correct [OF s i3'(1), unfolded ks] assms(2) i3'(2) i2(2) by auto
qed

definition ks_sample :: mm_ksections where
  "ks_sample =
    \<lparr>ks_text = \<lparr>ks_start = 0x40200000, ks_end = 0x40210000, ks_size = 0x10000\<rparr>,
     ks_rodata = \<lparr>ks_start = 0x40210000, ks_end = 0x40220000, ks_size = 0x10000\<rparr>,
     ks_data = \<lparr>ks_start = 0x40220000, ks_end = 0x40230000, ks_size = 0x10000\<rparr>,
     ks_bss = \<lparr>ks_start = 0x40230000, ks_end = 0x40240000, ks_size = 0x10000\<rparr>,
     ks_stacks = \<lparr>ks_start = 0x40240000, ks_end = 0x40250000, ks_size = 0x10000\<rparr>\<rparr>"

theorem early_kalloc_init_free_witness:
  "\<exists>s. early_kalloc_init (\<lambda>_. 0) (board_info 0) (MEM_REGIONS (\<lambda>_. 0)) ks_sample = Inr s \<and>
     ek_inv s 0x140000000 \<and> free_at (ek_list s) 0x40000000 \<and> \<not> free_at (ek_list s) 0x40200000"
proof -
  have "is_ok (early_kalloc_init (\<lambda>_. 0) (board_info 0) (MEM_REGIONS (\<lambda>_. 0)) ks_sample)"
    by (simp add: ek_eval early_kalloc_init_def MEM_REGIONS_def init_region_def init_reserved_def
        region_memreg_def reserve_section_def ks_sample_def align_down_def tail_memreg_def Let_def)
  then obtain s where r: "early_kalloc_init (\<lambda>_. 0) (board_info 0) (MEM_REGIONS (\<lambda>_. 0)) ks_sample = Inr s"
    by (auto simp: is_ok_iff)
  show ?thesis
    using early_kalloc_init_free [OF r] r
    by (simp add: ks_sample_def sections_of_def section_range_def as_kpa_def is_kva_def
        KERNEL_BASE_def KERNEL_ADDR_BITS_def)
qed

end
