(* ===== verification/Page_Allocator.thy ===== *)
theory Page_Allocator
  imports Early_Kalloc
begin

text \<open>
  The buddy allocator for physical pages, \<open>malloc/page_allocator/page_allocator.c\<close>.

  The node array and the array of list heads are functions inside of the state record;
  \<open>get_node\<close> and \<open>get_head\<close> guard their bounds, so that an access outside of the arrays is
  the error \<^const>\<open>Fault\<close>.  A \<open>uint8_t\<close> order is a natural number; \<open>node_data\<close>, the list
  links and the page indices keep their 32 bits.  The scan of a free list and the merge
  loop carry a bound (the number of nodes, and the number of orders); the theory
  \<open>Page_Correct\<close> shows that the bounds are never reached on a well-formed state.
\<close>

definition NULL_IDX :: u32 where
  "NULL_IDX = NOT 0"

definition ORDER_SHIFT :: nat where "ORDER_SHIFT = 0"
definition ORDER_BITS :: nat where "ORDER_BITS = 7"
definition FREE_SHIFT :: nat where "FREE_SHIFT = 8"
definition FREE_BITS :: nat where "FREE_BITS = 1"

definition UNSHIFTED_MASK :: "nat \<Rightarrow> u32" where
  "UNSHIFTED_MASK n = push_bit n 1 - 1"

definition MASK :: "nat \<Rightarrow> nat \<Rightarrow> u32" where
  "MASK n s = push_bit s (UNSHIFTED_MASK n)"

record mm_page_data =
  pd_tag :: u64
  pd_device_mem :: bool
  pd_permanent :: bool
  pd_cache_size :: u8

definition mm_page_data_new :: "u64 \<Rightarrow> bool \<Rightarrow> bool \<Rightarrow> mm_page_data" where
  "mm_page_data_new tag device_mem permanent =
    \<lparr>pd_tag = tag, pd_device_mem = device_mem, pd_permanent = permanent, pd_cache_size = 0\<rparr>"

record page_node =
  pn_next :: u32
  pn_prev :: u32
  pn_data :: u32
  pn_page :: mm_page_data

record page_state =
  ps_N :: nat
  ps_MAX_ORDER :: nat
  ps_nodes :: "u32 \<Rightarrow> page_node"
  ps_free_lists :: "nat \<Rightarrow> u32"

definition buddy_of :: "u32 \<Rightarrow> nat \<Rightarrow> u32" where
  "buddy_of i ord = i XOR push_bit ord 1"

definition parent_at_order :: "u32 \<Rightarrow> nat \<Rightarrow> u32" where
  "parent_at_order i target = i AND NOT (push_bit target 1 - 1)"

definition get_order :: "page_node \<Rightarrow> nat" where
  "get_order n = unat (drop_bit ORDER_SHIFT (pn_data n) AND UNSHIFTED_MASK ORDER_BITS)"

definition set_order :: "nat \<Rightarrow> page_node \<Rightarrow> page_node" where
  "set_order ord n =
    n\<lparr>pn_data := (pn_data n AND NOT (MASK ORDER_BITS ORDER_SHIFT))
                  OR push_bit ORDER_SHIFT (word_of_nat ord)\<rparr>"

definition get_free :: "page_node \<Rightarrow> bool" where
  "get_free n = ((drop_bit FREE_SHIFT (pn_data n) AND UNSHIFTED_MASK FREE_BITS) \<noteq> 0)"

definition set_free :: "bool \<Rightarrow> page_node \<Rightarrow> page_node" where
  "set_free v n =
    n\<lparr>pn_data := (pn_data n AND NOT (MASK FREE_BITS FREE_SHIFT))
                  OR push_bit FREE_SHIFT (of_bool v)\<rparr>"

text \<open>Array accesses: \<open>get_node(i)->...\<close> and \<open>free_lists[o]\<close>, for reading and for writing.\<close>

definition get_node :: "page_state \<Rightarrow> u32 \<Rightarrow> page_node res" where
  "get_node s i = (if unat i < ps_N s then Inr (ps_nodes s i) else Inl Fault)"

definition upd_node :: "u32 \<Rightarrow> (page_node \<Rightarrow> page_node) \<Rightarrow> page_state \<Rightarrow> page_state res" where
  "upd_node i f s =
    (if unat i < ps_N s then Inr (s\<lparr>ps_nodes := (ps_nodes s)(i := f (ps_nodes s i))\<rparr>)
     else Inl Fault)"

definition get_head :: "page_state \<Rightarrow> nat \<Rightarrow> u32 res" where
  "get_head s ord = (if ord \<le> ps_MAX_ORDER s then Inr (ps_free_lists s ord) else Inl Fault)"

definition set_head :: "nat \<Rightarrow> u32 \<Rightarrow> page_state \<Rightarrow> page_state res" where
  "set_head ord i s =
    (if ord \<le> ps_MAX_ORDER s then Inr (s\<lparr>ps_free_lists := (ps_free_lists s)(ord := i)\<rparr>)
     else Inl Fault)"

fun free_list_scan :: "nat \<Rightarrow> page_state \<Rightarrow> u32 \<Rightarrow> u32 \<Rightarrow> bool res" where
  "free_list_scan 0 s i j = Inl Diverge"
| "free_list_scan (Suc fuel) s i j =
    (if i = j then Inr True
     else rbind (get_node s j) (\<lambda>n.
          if pn_next n \<noteq> NULL_IDX then free_list_scan fuel s i (pn_next n) else Inr False))"

definition is_in_order_free_list :: "page_state \<Rightarrow> u32 \<Rightarrow> nat \<Rightarrow> bool res" where
  "is_in_order_free_list s i ord =
     rbind (get_head s ord) (\<lambda>j.
     if j = NULL_IDX then Inr False else free_list_scan (ps_N s) s i j)"

definition is_in_free_list :: "page_state \<Rightarrow> u32 \<Rightarrow> bool res" where
  "is_in_free_list s i =
     rbind (get_node s i) (\<lambda>n. is_in_order_free_list s i (get_order n))"

fun inner_loop :: "page_state \<Rightarrow> u32 \<Rightarrow> nat list \<Rightarrow> bool res" where
  "inner_loop s i [] = Inr False"
| "inner_loop s i (t # ts) =
    (let i = parent_at_order i t in
     rbind (is_in_order_free_list s i t) (\<lambda>b. if b then Inr True else inner_loop s i ts))"

definition is_inner_idx :: "page_state \<Rightarrow> u32 \<Rightarrow> bool res" where
  "is_inner_idx s i =
     rbind (get_node s i) (\<lambda>n.
     inner_loop s i [Suc (get_order n) ..< Suc (ps_MAX_ORDER s)])"

definition push_to_list :: "u32 \<Rightarrow> page_state \<Rightarrow> page_state res" where
  "push_to_list i s =
     rbind (get_node s i) (\<lambda>n.
     let ord = get_order n in
     rbind (get_head s ord) (\<lambda>head.
     rbind (upd_node i (\<lambda>n. n\<lparr>pn_prev := NULL_IDX, pn_next := head\<rparr>) s) (\<lambda>s.
     rbind (if head \<noteq> NULL_IDX then upd_node head (\<lambda>n. n\<lparr>pn_prev := i\<rparr>) s else Inr s) (\<lambda>s.
     rbind (set_head ord i s) (\<lambda>s.
     upd_node i (set_free True) s)))))"

definition remove_from_list :: "u32 \<Rightarrow> page_state \<Rightarrow> page_state res" where
  "remove_from_list i s =
     rbind (get_node s i) (\<lambda>n.
     let ord = get_order n in
     rbind
       (if pn_prev n = NULL_IDX then
          rbind (set_head ord (pn_next n) s) (\<lambda>s.
          if pn_next n \<noteq> NULL_IDX
          then upd_node (pn_next n) (\<lambda>m. m\<lparr>pn_prev := NULL_IDX\<rparr>) s else Inr s)
        else
          rbind (upd_node (pn_prev n) (\<lambda>m. m\<lparr>pn_next := pn_next n\<rparr>) s) (\<lambda>s.
          rbind (get_node s i) (\<lambda>n.
          if pn_next n \<noteq> NULL_IDX
          then upd_node (pn_next n) (\<lambda>m. m\<lparr>pn_prev := pn_prev n\<rparr>) s else Inr s))) (\<lambda>s.
     upd_node i (\<lambda>n. set_free False (n\<lparr>pn_next := NULL_IDX, pn_prev := NULL_IDX\<rparr>)) s))"

text \<open>\<open>while (o-- > target_o)\<close>: the body runs for the orders below \<open>ord\<close> down to \<open>target\<close>.\<close>

fun split_loop :: "u32 \<Rightarrow> nat \<Rightarrow> nat \<Rightarrow> page_state \<Rightarrow> page_state res" where
  "split_loop i 0 target s = Inr s"
| "split_loop i (Suc ord) target s =
    (if Suc ord > target then
       let b = buddy_of i ord in
       rbind (upd_node b (set_order ord) s) (\<lambda>s.
       rbind (push_to_list b s) (\<lambda>s.
       split_loop i ord target s))
     else Inr s)"

definition split_to_order_and_pop :: "u32 \<Rightarrow> nat \<Rightarrow> page_state \<Rightarrow> page_state res" where
  "split_to_order_and_pop i target s =
     rbind (get_node s i) (\<lambda>n.
     let ord = get_order n in
     rassert (ord > target) (Panic ''split_to_order_and_pop'')
       (rbind (remove_from_list i s) (\<lambda>s.
        rbind (upd_node i (set_order target) s) (\<lambda>s.
        split_loop i ord target s))))"

fun merge_loop :: "nat \<Rightarrow> u32 \<Rightarrow> page_state \<Rightarrow> page_state res" where
  "merge_loop 0 i s = Inl Diverge"
| "merge_loop (Suc fuel) i s =
     rbind (get_node s i) (\<lambda>n.
     let ord = get_order n in
     if ord = ps_MAX_ORDER s then Inr s
     else
       let b = buddy_of i ord in
       rbind (get_node s b) (\<lambda>buddy.
       if \<not> get_free buddy \<or> get_order buddy \<noteq> ord then Inr s
       else
         rbind (remove_from_list i s) (\<lambda>s.
         rbind (remove_from_list b s) (\<lambda>s.
         let left = (if i < b then i else b) in
         rbind (upd_node left (set_order (ord + 1)) s) (\<lambda>s.
         rbind (push_to_list left s) (\<lambda>s.
         merge_loop fuel left s))))))"

definition try_merge :: "u32 \<Rightarrow> page_state \<Rightarrow> page_state res" where
  "try_merge i s = merge_loop (Suc (ps_MAX_ORDER s)) i s"

text \<open>The search of \<open>page_malloc\<close> over the orders that still have to be tried.\<close>

fun malloc_search :: "nat \<Rightarrow> mm_page_data \<Rightarrow> nat list \<Rightarrow> page_state \<Rightarrow> (page_state \<times> u64) res" where
  "malloc_search order p [] s =
     Inl (Panic ''page_malloc: no free pages for the requested or bigger order'')"
| "malloc_search order p (ord # ords) s =
     rbind (get_head s ord) (\<lambda>i.
     if i \<noteq> NULL_IDX then
       rbind (split_to_order_and_pop i order s) (\<lambda>s.
       rbind (upd_node i (\<lambda>n. n\<lparr>pn_page := p\<rparr>) s) (\<lambda>s.
       Inr (s, ucast i * PAGE_SIZE)))
     else malloc_search order p ords s)"

definition page_malloc :: "nat \<Rightarrow> mm_page_data \<Rightarrow> page_state \<Rightarrow> (page_state \<times> u64) res" where
  "page_malloc order p s =
     rbind (get_head s order) (\<lambda>i.
     if i = NULL_IDX then malloc_search order p [order ..< Suc (ps_MAX_ORDER s)] s
     else
       rbind (remove_from_list i s) (\<lambda>s.
       rbind (upd_node i (\<lambda>n. n\<lparr>pn_page := p\<rparr>) s) (\<lambda>s.
       Inr (s, ucast i * PAGE_SIZE))))"

definition page_idx :: "u64 \<Rightarrow> u32" where
  "page_idx pa = ucast (pa div PAGE_SIZE)"

definition page_free :: "u64 \<Rightarrow> page_state \<Rightarrow> page_state res" where
  "page_free pa s =
    (let i = page_idx pa in
     rbind (get_node s i) (\<lambda>n.
     if pd_permanent (pn_page n) then Inl (Panic ''page_free: cannot free a permanent region'')
     else if get_free n then Inl (Panic ''page_free: double free'')
     else rbind (is_inner_idx s i) (\<lambda>inner.
          if inner then Inl (Panic ''page_free: invalid pa provided'')
          else rbind (push_to_list i s) (try_merge i))))"

definition page_allocator_update_tag :: "u64 \<Rightarrow> u64 \<Rightarrow> page_state \<Rightarrow> (page_state \<times> u64) res" where
  "page_allocator_update_tag pa new_tag s =
    (let i = page_idx pa in
     rbind (is_inner_idx s i) (\<lambda>inner.
     rassert (\<not> inner) (Panic ''page_allocator_update_tag: inner'')
       (rassert (\<not> is_kva pa) (Panic ''page_allocator_update_tag: pa'')
         (rassert (is_kva new_tag) (Panic ''page_allocator_update_tag: tag'')
           (rbind (get_node s i) (\<lambda>n.
            rbind (upd_node i (\<lambda>n. n\<lparr>pn_page := (pn_page n)\<lparr>pd_tag := new_tag\<rparr>\<rparr>) s) (\<lambda>s.
            Inr (s, pd_tag (pn_page n)))))))))"

text \<open>Both accessors pass the node's order, not its index, to \<open>is_in_free_list\<close>.\<close>

definition page_allocator_get_data :: "u64 \<Rightarrow> page_state \<Rightarrow> mm_page_data option res" where
  "page_allocator_get_data pa s =
    (let i = page_idx pa in
     rbind (is_inner_idx s i) (\<lambda>inner.
     if inner then Inr None
     else rbind (get_node s i) (\<lambda>n.
          rbind (is_in_free_list s (word_of_nat (get_order n))) (\<lambda>b.
          if b then Inr None else Inr (Some (pn_page n))))))"

definition page_allocator_set_data ::
  "u64 \<Rightarrow> mm_page_data \<Rightarrow> page_state \<Rightarrow> (page_state \<times> bool) res" where
  "page_allocator_set_data pa d s =
    (let i = page_idx pa in
     rbind (is_inner_idx s i) (\<lambda>inner.
     if inner then Inr (s, False)
     else rbind (get_node s i) (\<lambda>n.
          rbind (is_in_free_list s (word_of_nat (get_order n))) (\<lambda>b.
          if b then Inr (s, False)
          else rbind (upd_node i (\<lambda>n. n\<lparr>pn_page := d\<rparr>) s) (\<lambda>s. Inr (s, True))))))"

text \<open>\<open>reserve\<close>: the search for the free block that holds the range, then the split towards it.\<close>

fun reserve_find :: "u32 \<Rightarrow> nat list \<Rightarrow> page_state \<Rightarrow> (u32 \<times> nat) res" where
  "reserve_find i [] s = Inl (Panic ''double reservation'')"
| "reserve_find i (k # ks) s =
    (let base = parent_at_order i k in
     rbind (get_node s base) (\<lambda>p.
     if get_free p \<and> get_order p = k then Inr (base, k) else reserve_find i ks s))"

fun reserve_split :: "u32 \<Rightarrow> nat \<Rightarrow> u32 \<Rightarrow> nat \<Rightarrow> page_state \<Rightarrow> (page_state \<times> u32) res" where
  "reserve_split i ord cur 0 s = Inr (s, cur)"
| "reserve_split i ord cur (Suc cur_o) s =
    (if Suc cur_o > ord then
       let left = cur; right = cur + push_bit cur_o 1 in
       if i < right then
         rbind (upd_node right (set_order cur_o) s) (\<lambda>s.
         rbind (push_to_list right s) (\<lambda>s.
         reserve_split i ord left cur_o s))
       else
         rbind (upd_node left (set_order cur_o) s) (\<lambda>s.
         rbind (push_to_list left s) (\<lambda>s.
         reserve_split i ord right cur_o s))
     else Inr (s, cur))"

definition reserve :: "u32 \<Rightarrow> nat \<Rightarrow> page_state \<Rightarrow> page_state res" where
  "reserve i ord s =
     rassert ((i AND (push_bit ord 1 - 1)) = 0) (Panic ''reserve: alignment'')
       (rbind (reserve_find i [ord ..< Suc (ps_MAX_ORDER s)] s) (\<lambda>(base, k).
        rbind (remove_from_list base s) (\<lambda>s.
        rbind (reserve_split i ord base k s) (\<lambda>(s, cur).
        upd_node cur (set_order ord) s))))"

section \<open>Initialisation\<close>

definition PAGE_NODE_SIZE :: u64 where \<comment> \<open>\<open>sizeof(page_node)\<close>\<close>
  "PAGE_NODE_SIZE = 32"

definition PAGE_NODE_ALIGN :: u64 where \<comment> \<open>\<open>_Alignof(page_node)\<close>\<close>
  "PAGE_NODE_ALIGN = 8"

definition empty_node :: page_node where
  "empty_node = \<lparr>pn_next = NULL_IDX, pn_prev = NULL_IDX, pn_data = 0,
     pn_page = \<lparr>pd_tag = 0, pd_device_mem = False, pd_permanent = False, pd_cache_size = 0\<rparr>\<rparr>"

lemma unat_minus_log2_floor:
  assumes "x \<noteq> 0" and "k \<le> unat (log2_floor_u64 x)"
  shows "unat (x - power_of2 (word_of_nat k)) = unat x - 2 ^ k"
    and "2 ^ k \<le> unat x" and "unat (power_of2 (word_of_nat k)) = 2 ^ k"
proof -
  have k: "k < 64" using assms log2_floor_u64_bounds(3) [OF assms(1)] by simp
  have "(2 :: nat) ^ k \<le> 2 ^ unat (log2_floor_u64 x)" using assms(2) by (simp add: power_increasing)
  thus le: "2 ^ k \<le> unat x" using log2_floor_u64_bounds(1) [OF assms(1)] by linarith
  have "unat (word_of_nat k :: u64) = k" using k by (simp add: unat_of_nat)
  thus p: "unat (power_of2 (word_of_nat k)) = 2 ^ k"
    using k by (subst unat_power_of2) (simp_all add: word_less_nat_alt)
  thus "unat (x - power_of2 (word_of_nat k)) = unat x - 2 ^ k"
    using le by (subst unat_sub) (simp_all add: word_le_nat_alt)
qed

function init_blocks :: "u64 \<Rightarrow> u64 \<Rightarrow> page_state \<Rightarrow> page_state res" where
  "init_blocks i remaining s =
    (if remaining \<noteq> 0 then
       let ord = log2_floor_u64 remaining in
       rbind (upd_node (ucast i) (set_order (unat ord)) s) (\<lambda>s.
       rbind (push_to_list (ucast i) s) (\<lambda>s.
       init_blocks (i + power_of2 ord) (remaining - power_of2 ord) s))
     else Inr s)"
  by pat_completeness auto
termination
proof (relation "measure (\<lambda>(i, r, s). unat r)", goal_cases)
  case (2 i r s ord)
  thus ?case
    using unat_minus_log2_floor [of r "unat (log2_floor_u64 r)"] by (simp add: unat_gt_0)
qed simp

definition page_allocator_init ::
  "(string \<Rightarrow> u64) \<Rightarrow> mm_info \<Rightarrow> early_state \<Rightarrow> (early_state \<times> page_state) res" where
  "page_allocator_init lit m ek =
    (let N = mm_page_count m;
         MAX_ORDER = log2_floor_u64 N;
         free_list_bytes = align_up (8 * MAX_ORDER) PAGE_NODE_ALIGN;
         nodes_bytes = PAGE_NODE_SIZE * N
     in rbind (early_kalloc m (align_up (free_list_bytes + nodes_bytes) PAGE_SIZE)
                 (lit ''page allocator'') True False ek) (\<lambda>(ek, pv).
        rassert (pv_va pv mod 4 = 0) (Panic ''page_allocator_init: free_lists'')
          (rassert ((pv_va pv + free_list_bytes) mod PAGE_NODE_ALIGN = 0)
             (Panic ''page_allocator_init: nodes'')
             (rbind (init_blocks 0 N
                \<lparr>ps_N = unat N, ps_MAX_ORDER = unat MAX_ORDER, ps_nodes = (\<lambda>_. empty_node),
                 ps_free_lists = (\<lambda>_. NULL_IDX)\<rparr>) (\<lambda>s.
              Inr (ek, s))))))"

text \<open>\<open>while ((j & ((1U << o) - 1)) != 0) o--\<close>\<close>

fun align_order :: "u64 \<Rightarrow> nat \<Rightarrow> nat" where
  "align_order j 0 = 0"
| "align_order j (Suc ord) =
    (if (j AND ucast (push_bit (Suc ord) 1 - 1 :: u32)) \<noteq> 0 then align_order j ord else Suc ord)"

lemma align_order_le: "align_order j ord \<le> ord"
  by (induction ord) (auto intro: le_SucI)

function memreg_blocks :: "early_memreg \<Rightarrow> u64 \<Rightarrow> u64 \<Rightarrow> page_state \<Rightarrow> page_state res" where
  "memreg_blocks e j remaining s =
    (if remaining > 0 then
       if em_free e then Inr s
       else
         let ord = align_order j (unat (log2_floor_u64 remaining)) in
         rbind (reserve (ucast j) ord s) (\<lambda>s.
         rbind (upd_node (ucast j) (\<lambda>n. n\<lparr>pn_page :=
                  \<lparr>pd_tag = em_tag e, pd_device_mem = em_device_memory e,
                   pd_permanent = em_permanent e, pd_cache_size = 0\<rparr>\<rparr>) s) (\<lambda>s.
         memreg_blocks e (j + power_of2 (word_of_nat ord))
           (remaining - power_of2 (word_of_nat ord)) s))
     else Inr s)"
  by pat_completeness auto
termination
proof (relation "measure (\<lambda>(e, j, r, s). unat r)", goal_cases)
  case (2 e j r s ord)
  thus ?case
    using unat_minus_log2_floor [of r "align_order j (unat (log2_floor_u64 r))"]
    by (simp add: unat_gt_0 align_order_le word_gt_0)
qed simp

declare init_blocks.simps [simp del] memreg_blocks.simps [simp del]

definition page_allocator_update_memregs :: "early_memreg list \<Rightarrow> page_state \<Rightarrow> page_state res" where
  "page_allocator_update_memregs mregs s =
     rfold (\<lambda>e. memreg_blocks e (em_addr e div PAGE_SIZE) (em_pages e)) mregs s"

end
