(* ===== verification/Page_Lists.thy ===== *)
theory Page_Lists
  imports Page_Allocator
begin

text \<open>
  The free lists of the page allocator as doubly linked lists over the node array: the
  representation predicate \<open>dlseg\<close>, the invariant \<open>linv\<close> that ties lists, flags and orders
  together, and one lemma per primitive (\<open>push_to_list\<close>, \<open>remove_from_list\<close>, \<open>set_order\<close>,
  the page data), each saying that the primitive succeeds, what it does to the abstract
  lists and what it leaves alone.
\<close>

section \<open>The packed node data\<close>

lemma UNSHIFTED_MASK_mask: "UNSHIFTED_MASK n = mask n"
  by (simp add: UNSHIFTED_MASK_def push_bit_one_exp exp_minus_one_mask)

lemma get_order_take_bit: "get_order n = unat (take_bit 7 (pn_data n))"
  by (simp add: get_order_def UNSHIFTED_MASK_mask ORDER_SHIFT_def ORDER_BITS_def take_bit_eq_mask)

lemma get_order_less: "get_order n < 128"
proof -
  have "get_order n = unat (pn_data n) mod 2 ^ 7"
    unfolding get_order_take_bit take_bit_eq_mask by (rule unat_and_mask)
  thus ?thesis by simp
qed

lemma get_free_bit: "get_free n = bit (pn_data n) 8"
proof -
  have "(drop_bit 8 (pn_data n) AND mask 1) = 0 \<longleftrightarrow> \<not> bit (drop_bit 8 (pn_data n)) 0"
    using and_exp_eq_0 [of "drop_bit 8 (pn_data n)" 0] by (simp add: mask_eq_exp_minus_1)
  thus ?thesis
    by (simp add: get_free_def UNSHIFTED_MASK_mask FREE_SHIFT_def FREE_BITS_def bit_simps)
qed

lemma pn_data_set_order:
  "k < 128 \<Longrightarrow> pn_data (set_order k n) = (pn_data n AND NOT (mask 7)) OR word_of_nat k"
  by (simp add: set_order_def MASK_def UNSHIFTED_MASK_mask ORDER_SHIFT_def ORDER_BITS_def)

lemma nat_bit_less: "k < 2 ^ n \<Longrightarrow> bit (k :: nat) m \<Longrightarrow> m < n"
proof (rule ccontr)
  assume "k < 2 ^ n" "bit k m" "\<not> m < n"
  hence "k < 2 ^ m" by (meson le_less_trans less_le_trans not_le one_le_numeral power_increasing)
  thus False using \<open>bit k m\<close> by (simp add: bit_iff_odd)
qed

lemma small_bits: "k < 128 \<Longrightarrow> bit (k :: nat) m \<Longrightarrow> m < 7"
  using nat_bit_less [of k 7 m] by simp

lemma get_order_set_order [simp]: "k < 128 \<Longrightarrow> get_order (set_order k n) = k"
proof -
  assume k: "k < 128"
  have "take_bit 7 (pn_data (set_order k n)) = word_of_nat k"
    unfolding pn_data_set_order [OF k]
    by (rule bit_word_eqI) (auto simp: bit_simps dest: small_bits [OF k])
  thus ?thesis using k by (simp add: get_order_take_bit unat_of_nat)
qed

lemma get_free_set_order [simp]: "k < 128 \<Longrightarrow> get_free (set_order k n) = get_free n"
  by (auto simp: get_free_bit pn_data_set_order bit_simps dest: small_bits)

lemma pn_data_set_free: "pn_data (set_free v n) = (pn_data n AND NOT (push_bit 8 1)) OR push_bit 8 (of_bool v)"
  by (simp add: set_free_def MASK_def UNSHIFTED_MASK_mask FREE_SHIFT_def FREE_BITS_def
      mask_eq_exp_minus_1)

lemma get_order_set_free [simp]: "get_order (set_free v n) = get_order n"
proof -
  have g: "take_bit l ((d AND NOT (push_bit m 1)) OR push_bit m (of_bool v)) = take_bit l d"
    if "l \<le> m" for l m and d :: u32
    using that by (intro bit_word_eqI) (auto simp: bit_simps)
  have "take_bit 7 (pn_data (set_free v n)) = take_bit 7 (pn_data n)"
    unfolding pn_data_set_free by (rule g) simp
  thus ?thesis by (simp add: get_order_take_bit)
qed

lemma get_free_set_free [simp]: "get_free (set_free v n) = v"
  unfolding get_free_bit pn_data_set_free by (auto simp: bit_simps)

lemma set_order_fields [simp]:
  "pn_next (set_order k n) = pn_next n" "pn_prev (set_order k n) = pn_prev n"
  "pn_page (set_order k n) = pn_page n"
  by (simp_all add: set_order_def)

lemma set_free_fields [simp]:
  "pn_next (set_free v n) = pn_next n" "pn_prev (set_free v n) = pn_prev n"
  "pn_page (set_free v n) = pn_page n"
  by (simp_all add: set_free_def)

lemma data_fields [simp]:
  "get_order (n\<lparr>pn_next := x\<rparr>) = get_order n" "get_order (n\<lparr>pn_prev := x\<rparr>) = get_order n"
  "get_order (n\<lparr>pn_page := d\<rparr>) = get_order n" "get_free (n\<lparr>pn_next := x\<rparr>) = get_free n"
  "get_free (n\<lparr>pn_prev := x\<rparr>) = get_free n" "get_free (n\<lparr>pn_page := d\<rparr>) = get_free n"
  by (simp_all add: get_order_def get_free_def)

section \<open>Doubly linked segments\<close>

fun dlseg :: "(u32 \<Rightarrow> page_node) \<Rightarrow> u32 \<Rightarrow> u32 \<Rightarrow> u32 list \<Rightarrow> u32 \<Rightarrow> bool" where
  "dlseg ns p h [] e = (h = e)"
| "dlseg ns p h (x # xs) e =
    (h = x \<and> x \<noteq> NULL_IDX \<and> pn_prev (ns x) = p \<and> dlseg ns x (pn_next (ns x)) xs e)"

lemma dlseg_append:
  "dlseg ns p h (xs @ ys) e \<longleftrightarrow> (\<exists>m. dlseg ns p h xs m \<and> dlseg ns (last (p # xs)) m ys e)"
  by (induction xs arbitrary: p h) auto

lemma dlseg_cong:
  "(\<And>x. x \<in> set xs \<Longrightarrow> pn_next (ns' x) = pn_next (ns x) \<and> pn_prev (ns' x) = pn_prev (ns x)) \<Longrightarrow>
   dlseg ns' p h xs e = dlseg ns p h xs e"
  by (induction xs arbitrary: p h) auto

lemma dlseg_upd [simp]: "i \<notin> set xs \<Longrightarrow> dlseg (ns(i := n)) p h xs e = dlseg ns p h xs e"
  by (rule dlseg_cong) auto

lemma dlseg_head_cases: "dlseg ns p h xs NULL_IDX \<Longrightarrow> h = NULL_IDX \<longleftrightarrow> xs = []"
  by (cases xs) auto

text \<open>Pushing a node that is not on the list.\<close>

lemma dlseg_push:
  assumes "dlseg ns NULL_IDX h xs NULL_IDX" and "i \<notin> set xs" and "i \<noteq> NULL_IDX" and "distinct xs"
    and "pn_prev (ns' i) = NULL_IDX" "pn_next (ns' i) = h"
    and "h \<noteq> NULL_IDX \<Longrightarrow> pn_prev (ns' h) = i \<and> pn_next (ns' h) = pn_next (ns h)"
    and "\<And>x. x \<noteq> i \<Longrightarrow> x \<noteq> h \<Longrightarrow> pn_next (ns' x) = pn_next (ns x) \<and> pn_prev (ns' x) = pn_prev (ns x)"
  shows "dlseg ns' NULL_IDX i (i # xs) NULL_IDX"
proof (cases xs)
  case Nil
  then show ?thesis using assms by auto
next
  case (Cons y ys)
  hence h: "h = y" "h \<noteq> NULL_IDX" using assms(1) by auto
  have "dlseg ns' y (pn_next (ns y)) ys NULL_IDX = dlseg ns y (pn_next (ns y)) ys NULL_IDX"
  proof (rule dlseg_cong)
    fix x assume "x \<in> set ys"
    hence "x \<noteq> i" "x \<noteq> h" using assms(2,4) Cons h by auto
    thus "pn_next (ns' x) = pn_next (ns x) \<and> pn_prev (ns' x) = pn_prev (ns x)" by (rule assms(8))
  qed
  then show ?thesis using assms Cons h by auto
qed

text \<open>Unlinking a node.\<close>

lemma dlseg_neighbours:
  assumes "dlseg ns p h (xs @ i # ys) e"
  shows "pn_prev (ns i) = last (p # xs)" and "pn_next (ns i) = hd (ys @ [e])"
    and "h = hd (xs @ [i])"
  using assms by (auto simp: dlseg_append neq_Nil_conv) (cases ys; cases xs; auto)+

lemma dlseg_unlink:
  assumes "dlseg ns p h (xs @ i # ys) e"
    and prev: "xs \<noteq> [] \<Longrightarrow> pn_next (ns' (last xs)) = hd (ys @ [e]) \<and> pn_prev (ns' (last xs)) = pn_prev (ns (last xs))"
    and nxt: "ys \<noteq> [] \<Longrightarrow> pn_prev (ns' (hd ys)) = last (p # xs) \<and> pn_next (ns' (hd ys)) = pn_next (ns (hd ys))"
    and rest: "\<And>x. x \<in> set (butlast xs) \<union> set (tl ys) \<Longrightarrow>
      pn_next (ns' x) = pn_next (ns x) \<and> pn_prev (ns' x) = pn_prev (ns x)"
  shows "dlseg ns' p (hd (xs @ ys @ [e])) (xs @ ys) e"
proof -
  have sx: "dlseg ns p h xs i" and sy: "dlseg ns i (pn_next (ns i)) ys e"
    using assms(1) by (auto simp: dlseg_append)
  have "dlseg ns' (last (p # xs)) (hd (ys @ [e])) ys e"
  proof (cases ys)
    case (Cons y zs)
    have "dlseg ns' y (pn_next (ns y)) zs e = dlseg ns y (pn_next (ns y)) zs e"
      using rest Cons by (intro dlseg_cong) auto
    thus ?thesis using sy nxt Cons by auto
  qed simp
  moreover have "dlseg ns' p (hd (xs @ ys @ [e])) xs (hd (ys @ [e]))"
  proof (cases xs rule: rev_cases)
    case (snoc us u)
    have "dlseg ns' p h us u = dlseg ns p h us u"
      using rest snoc by (intro dlseg_cong) auto
    moreover have "h = hd (xs @ ys @ [e])" using sx snoc by (cases us) (auto simp: dlseg_append)
    ultimately show ?thesis using sx prev snoc by (auto simp: dlseg_append)
  qed simp
  ultimately show ?thesis unfolding dlseg_append by blast
qed

section \<open>The list invariant\<close>

definition linv :: "page_state \<Rightarrow> (nat \<Rightarrow> u32 list) \<Rightarrow> bool" where
  "linv s F \<longleftrightarrow>
     ps_N s < 2 ^ 32 \<and> 2 ^ ps_MAX_ORDER s \<le> ps_N s \<and> ps_N s < 2 ^ Suc (ps_MAX_ORDER s) \<and>
     (\<forall>k \<le> ps_MAX_ORDER s. dlseg (ps_nodes s) NULL_IDX (ps_free_lists s k) (F k) NULL_IDX) \<and>
     (\<forall>k. distinct (F k)) \<and> (\<forall>k > ps_MAX_ORDER s. F k = []) \<and>
     (\<forall>k. \<forall>i \<in> set (F k). unat i < ps_N s \<and> get_order (ps_nodes s i) = k \<and> get_free (ps_nodes s i)) \<and>
     (\<forall>i. unat i < ps_N s \<and> get_free (ps_nodes s i) \<longrightarrow> i \<in> set (F (get_order (ps_nodes s i)))) \<and>
     (\<forall>i. unat i < ps_N s \<and> \<not> get_free (ps_nodes s i) \<longrightarrow>
        pn_next (ps_nodes s i) = NULL_IDX \<and> pn_prev (ps_nodes s i) = NULL_IDX) \<and>
     (\<forall>i. unat i < ps_N s \<longrightarrow> 2 ^ get_order (ps_nodes s i) dvd unat i)"

definition keeps :: "u32 set \<Rightarrow> page_state \<Rightarrow> page_state \<Rightarrow> bool" where
  "keeps X s t \<longleftrightarrow> ps_N t = ps_N s \<and> ps_MAX_ORDER t = ps_MAX_ORDER s \<and>
     (\<forall>j. pn_page (ps_nodes t j) = pn_page (ps_nodes s j)) \<and>
     (\<forall>j. j \<notin> X \<longrightarrow> get_order (ps_nodes t j) = get_order (ps_nodes s j))"

lemma keeps_trans: "keeps X s t \<Longrightarrow> keeps Y t u \<Longrightarrow> keeps (X \<union> Y) s u"
  by (simp add: keeps_def)

lemma keeps_mono: "keeps X s t \<Longrightarrow> X \<subseteq> Y \<Longrightarrow> keeps Y s t"
  by (auto simp: keeps_def)

lemma keeps_refl [simp]: "keeps X s s"
  by (simp add: keeps_def)

lemma NULL_IDX_less: "unat i < n \<Longrightarrow> n < 2 ^ 32 \<Longrightarrow> i \<noteq> NULL_IDX"
  by (auto simp: NULL_IDX_def unsigned_minus_1_eq_mask mask_eq_exp_minus_1)

lemma linvD:
  assumes "linv s F"
  shows "ps_N s < 2 ^ 32" and "2 ^ ps_MAX_ORDER s \<le> ps_N s"
    and "k \<le> ps_MAX_ORDER s \<Longrightarrow> dlseg (ps_nodes s) NULL_IDX (ps_free_lists s k) (F k) NULL_IDX"
    and "distinct (F k)" and "k > ps_MAX_ORDER s \<Longrightarrow> F k = []"
    and "i \<in> set (F k) \<Longrightarrow> unat i < ps_N s \<and> get_order (ps_nodes s i) = k \<and> get_free (ps_nodes s i)"
    and "unat i < ps_N s \<Longrightarrow> get_free (ps_nodes s i) \<Longrightarrow> i \<in> set (F (get_order (ps_nodes s i)))"
    and "unat i < ps_N s \<Longrightarrow> \<not> get_free (ps_nodes s i) \<Longrightarrow>
        pn_next (ps_nodes s i) = NULL_IDX \<and> pn_prev (ps_nodes s i) = NULL_IDX"
    and "unat i < ps_N s \<Longrightarrow> 2 ^ get_order (ps_nodes s i) dvd unat i"
    and "ps_N s < 2 ^ Suc (ps_MAX_ORDER s)"
  using assms unfolding linv_def by - (elim conjE, (assumption | blast | simp))+

lemma linvI [inv_intros]:
  assumes "ps_N s < 2 ^ 32" and "2 ^ ps_MAX_ORDER s \<le> ps_N s" and "ps_N s < 2 ^ Suc (ps_MAX_ORDER s)"
    and "\<And>k. k \<le> ps_MAX_ORDER s \<Longrightarrow> dlseg (ps_nodes s) NULL_IDX (ps_free_lists s k) (F k) NULL_IDX"
    and "\<And>k. distinct (F k)" and "\<And>k. k > ps_MAX_ORDER s \<Longrightarrow> F k = []"
    and "\<And>i k. i \<in> set (F k) \<Longrightarrow>
      unat i < ps_N s \<and> get_order (ps_nodes s i) = k \<and> get_free (ps_nodes s i)"
    and "\<And>i. unat i < ps_N s \<Longrightarrow> get_free (ps_nodes s i) \<Longrightarrow> i \<in> set (F (get_order (ps_nodes s i)))"
    and "\<And>i. unat i < ps_N s \<Longrightarrow> \<not> get_free (ps_nodes s i) \<Longrightarrow>
        pn_next (ps_nodes s i) = NULL_IDX \<and> pn_prev (ps_nodes s i) = NULL_IDX"
    and "\<And>i. unat i < ps_N s \<Longrightarrow> 2 ^ get_order (ps_nodes s i) dvd unat i"
  shows "linv s F"
  using assms unfolding linv_def by simp

lemma linv_MAX_ORDER: "linv s F \<Longrightarrow> ps_MAX_ORDER s < 32"
proof -
  assume "linv s F"
  hence "(2 :: nat) ^ ps_MAX_ORDER s < 2 ^ 32" using linvD(1,2) [of s F] by linarith
  thus ?thesis by (rule power_less_imp_less_exp [rotated]) simp
qed

lemma linv_mem_le: "linv s F \<Longrightarrow> i \<in> set (F k) \<Longrightarrow> k \<le> ps_MAX_ORDER s"
  using linvD(5) [of s F k] by (cases "k \<le> ps_MAX_ORDER s") auto

lemma linv_free_iff:
  "linv s F \<Longrightarrow> unat i < ps_N s \<Longrightarrow> get_free (ps_nodes s i) \<longleftrightarrow> (\<exists>k. i \<in> set (F k))"
  using linvD(6,7) by blast

lemma linv_head:
  "linv s F \<Longrightarrow> k \<le> ps_MAX_ORDER s \<Longrightarrow>
   ps_free_lists s k = (case F k of [] \<Rightarrow> NULL_IDX | i # _ \<Rightarrow> i)"
  using linvD(3) [of s F k] by (cases "F k") auto

section \<open>The primitives\<close>

lemma set_order_ok:
  assumes "linv s F" and "unat i < ps_N s" and "\<not> get_free (ps_nodes s i)"
    and "k < 128" and "2 ^ k dvd unat i"
  shows "\<exists>t. upd_node i (set_order k) s = Inr t \<and> linv t F \<and> keeps {i} s t \<and>
    get_order (ps_nodes t i) = k \<and> \<not> get_free (ps_nodes t i)"
proof -
  let ?t = "s\<lparr>ps_nodes := (ps_nodes s)(i := set_order k (ps_nodes s i))\<rparr>"
  have notin: "i \<notin> set (F j)" for j using assms(1-3) linv_free_iff by blast
  have "linv ?t F"
    using assms notin unfolding linv_def by auto
  moreover have "keeps {i} s ?t" by (simp add: keeps_def)
  ultimately show ?thesis using assms by (auto simp: upd_node_def)
qed

lemma set_page_ok:
  assumes "linv s F" and "unat i < ps_N s"
  shows "\<exists>t. upd_node i (\<lambda>n. n\<lparr>pn_page := d\<rparr>) s = Inr t \<and> linv t F \<and>
    ps_nodes t = (ps_nodes s)(i := (ps_nodes s i)\<lparr>pn_page := d\<rparr>) \<and> ps_N t = ps_N s \<and>
    ps_MAX_ORDER t = ps_MAX_ORDER s"
proof -
  let ?t = "s\<lparr>ps_nodes := (ps_nodes s)(i := (ps_nodes s i)\<lparr>pn_page := d\<rparr>)\<rparr>"
  have "dlseg (ps_nodes ?t) p h xs e = dlseg (ps_nodes s) p h xs e" for p h xs e
    by (rule dlseg_cong) auto
  hence "linv ?t F" using assms unfolding linv_def by simp
  thus ?thesis using assms by (auto simp: upd_node_def)
qed

text \<open>A step that relinks nodes without touching their orders.\<close>

lemma linv_relink:
  assumes inv: "linv s F" and sz: "ps_N t = ps_N s" "ps_MAX_ORDER t = ps_MAX_ORDER s"
    and ord: "\<And>x. get_order (ps_nodes t x) = get_order (ps_nodes s x)"
    and F': "\<And>j. distinct (F' j)" "\<And>j. j > ps_MAX_ORDER s \<Longrightarrow> F' j = []"
    and dl: "\<And>j. j \<le> ps_MAX_ORDER s \<Longrightarrow> dlseg (ps_nodes t) NULL_IDX (ps_free_lists t j) (F' j) NULL_IDX"
    and mem: "\<And>x j. x \<in> set (F' j) \<Longrightarrow> unat x < ps_N s \<and> get_order (ps_nodes s x) = j"
    and fre: "\<And>x. unat x < ps_N s \<Longrightarrow>
      get_free (ps_nodes t x) \<longleftrightarrow> x \<in> set (F' (get_order (ps_nodes s x)))"
    and lnk: "\<And>x. unat x < ps_N s \<Longrightarrow> \<not> get_free (ps_nodes t x) \<Longrightarrow>
      pn_next (ps_nodes t x) = NULL_IDX \<and> pn_prev (ps_nodes t x) = NULL_IDX"
  shows "linv t F'"
proof (rule linvI)
  fix x j assume "x \<in> set (F' j)"
  thus "unat x < ps_N t \<and> get_order (ps_nodes t x) = j \<and> get_free (ps_nodes t x)"
    using mem [of x j] fre [of x] by (simp add: sz ord)
qed (use linvD(1,2,9,10) [OF inv] F' dl fre lnk in \<open>simp_all add: sz ord\<close>)

lemma push_to_list_ok:
  assumes inv: "linv s F" and i: "unat i < ps_N s" "\<not> get_free (ps_nodes s i)"
    and k: "get_order (ps_nodes s i) = k" "k \<le> ps_MAX_ORDER s"
  shows "\<exists>t. push_to_list i s = Inr t \<and> linv t (F(k := i # F k)) \<and> keeps {} s t"
proof -
  note D = linvD [OF inv]
  define h where "h = ps_free_lists s k"
  have notin: "i \<notin> set (F j)" for j using inv i linv_free_iff by blast
  have hF: "h \<noteq> NULL_IDX \<Longrightarrow> h \<in> set (F k)"
    using linv_head [OF inv k(2)] by (auto simp: h_def split: list.splits)
  have hN: "h \<noteq> NULL_IDX \<Longrightarrow> unat h < ps_N s \<and> h \<noteq> i" using hF D(6) [of h k] notin [of k] by auto
  let ?n1 = "(ps_nodes s)(i := (ps_nodes s i)\<lparr>pn_prev := NULL_IDX, pn_next := h\<rparr>)"
  let ?n2 = "if h \<noteq> NULL_IDX then ?n1(h := (?n1 h)\<lparr>pn_prev := i\<rparr>) else ?n1"
  define ns where "ns = ?n2(i := set_free True (?n2 i))"
  define t where "t = s\<lparr>ps_nodes := ns, ps_free_lists := (ps_free_lists s)(k := i)\<rparr>"
  have run: "push_to_list i s = Inr t"
    using i k hN unfolding push_to_list_def t_def ns_def
    by (auto simp: get_node_def get_head_def upd_node_def set_head_def Let_def h_def)
  have nsi: "pn_prev (ns i) = NULL_IDX" "pn_next (ns i) = h" and
    nsh: "h \<noteq> NULL_IDX \<Longrightarrow> pn_prev (ns h) = i \<and> pn_next (ns h) = pn_next (ps_nodes s h)"
    using hN by (auto simp: ns_def)
  have nso: "x \<noteq> i \<Longrightarrow> x \<noteq> h \<Longrightarrow> ns x = ps_nodes s x" for x by (simp add: ns_def)
  have ord: "get_order (ns x) = get_order (ps_nodes s x)" "pn_page (ns x) = pn_page (ps_nodes s x)"
    and fre: "get_free (ns x) \<longleftrightarrow> x = i \<or> get_free (ps_nodes s x)" for x
    by (auto simp: ns_def)
  have dl: "dlseg ns NULL_IDX (if j = k then i else ps_free_lists s j) ((F(k := i # F k)) j) NULL_IDX"
    if "j \<le> ps_MAX_ORDER s" for j
  proof (cases "j = k")
    case True
    have "dlseg ns NULL_IDX i (i # F k) NULL_IDX"
      using D(3) [OF k(2)] notin NULL_IDX_less [OF i(1) D(1)] D(4) nsi nsh nso
      by (intro dlseg_push [where ns = "ps_nodes s" and h = h]) (auto simp: h_def)
    with True show ?thesis by simp
  next
    case False
    have "x \<noteq> i \<and> x \<noteq> h" if "x \<in> set (F j)" for x
      using that notin [of j] hF D(6) [of x j] D(6) [of h k] False NULL_IDX_less [OF _ D(1), of x]
      by (cases "h = NULL_IDX") auto
    hence "dlseg ns NULL_IDX (ps_free_lists s j) (F j) NULL_IDX =
        dlseg (ps_nodes s) NULL_IDX (ps_free_lists s j) (F j) NULL_IDX"
      by (intro dlseg_cong) (simp add: nso)
    with False that D(3) show ?thesis by simp
  qed
  have "linv t (F(k := i # F k))"
  proof (rule linv_relink [OF inv])
    fix x assume x: "unat x < ps_N s" "\<not> get_free (ps_nodes t x)"
    hence "x \<noteq> i" "x \<noteq> h"
      using fre hF D(6) [of h k] NULL_IDX_less [OF x(1) D(1)] by (auto simp: t_def)
    thus "pn_next (ps_nodes t x) = NULL_IDX \<and> pn_prev (ps_nodes t x) = NULL_IDX"
      using D(8) [OF x(1)] x(2) fre by (simp add: t_def nso)
  next
    fix x :: u32 assume "unat x < ps_N s"
    thus "get_free (ps_nodes t x) \<longleftrightarrow> x \<in> set ((F(k := i # F k)) (get_order (ps_nodes s x)))"
      using D(6,7) [of x] k by (auto simp: t_def fre)
  next
    fix x j assume "x \<in> set ((F(k := i # F k)) j)"
    thus "unat x < ps_N s \<and> get_order (ps_nodes s x) = j"
      using D(6) [of x j] i k by (auto split: if_splits)
  next
    fix j show "distinct ((F(k := i # F k)) j)" using D(4) notin by simp
  next
    fix j assume "j > ps_MAX_ORDER s"
    thus "(F(k := i # F k)) j = []" using D(5) [of j] k by simp
  qed (use dl in \<open>simp_all add: t_def ord\<close>)
  moreover have "keeps {} s t" using ord by (simp add: keeps_def t_def)
  ultimately show ?thesis using run by blast
qed

text \<open>The node array after node \<open>i\<close> with the neighbours \<open>p\<close> and \<open>q\<close> has been unlinked.\<close>

definition unlinked :: "u32 \<Rightarrow> u32 \<Rightarrow> u32 \<Rightarrow> (u32 \<Rightarrow> page_node) \<Rightarrow> u32 \<Rightarrow> page_node" where
  "unlinked p q i ns =
    (let n1 = if p \<noteq> NULL_IDX then ns(p := (ns p)\<lparr>pn_next := q\<rparr>) else ns;
         n2 = if q \<noteq> NULL_IDX then n1(q := (n1 q)\<lparr>pn_prev := p\<rparr>) else n1
     in n2(i := set_free False ((n2 i)\<lparr>pn_next := NULL_IDX, pn_prev := NULL_IDX\<rparr>)))"

lemma unlinked_data [simp]:
  "get_order (unlinked p q i ns x) = get_order (ns x)" "pn_page (unlinked p q i ns x) = pn_page (ns x)"
  "get_free (unlinked p q i ns x) \<longleftrightarrow> x \<noteq> i \<and> get_free (ns x)"
  by (auto simp: unlinked_def Let_def)

lemma unlinked_links:
  "x \<noteq> i \<Longrightarrow> pn_next (unlinked p q i ns x) = (if x = p \<and> p \<noteq> NULL_IDX then q else pn_next (ns x))"
  "x \<noteq> i \<Longrightarrow> pn_prev (unlinked p q i ns x) = (if x = q \<and> q \<noteq> NULL_IDX then p else pn_prev (ns x))"
  "pn_next (unlinked p q i ns i) = NULL_IDX" "pn_prev (unlinked p q i ns i) = NULL_IDX"
  by (auto simp: unlinked_def Let_def)

lemma remove_from_list_run:
  assumes "unat i < ps_N s" and "get_order (ps_nodes s i) = k" and "k \<le> ps_MAX_ORDER s"
    and "pn_prev (ps_nodes s i) = p" and "pn_next (ps_nodes s i) = q"
    and "p \<noteq> NULL_IDX \<Longrightarrow> unat p < ps_N s \<and> p \<noteq> i" and "q \<noteq> NULL_IDX \<Longrightarrow> unat q < ps_N s \<and> q \<noteq> i"
  shows "remove_from_list i s = Inr (s\<lparr>ps_nodes := unlinked p q i (ps_nodes s),
    ps_free_lists := (if p = NULL_IDX then (ps_free_lists s)(k := q) else ps_free_lists s)\<rparr>)"
  using assms unfolding remove_from_list_def unlinked_def
  by (auto simp: get_node_def upd_node_def set_head_def Let_def)

lemma neighbour_facts:
  assumes "distinct (xs @ i # ys)" and "NULL_IDX \<notin> set (xs @ i # ys)"
  defines "p \<equiv> last (NULL_IDX # xs)" and "q \<equiv> hd (ys @ [NULL_IDX])"
  shows "p = NULL_IDX \<longleftrightarrow> xs = []" and "xs \<noteq> [] \<Longrightarrow> p = last xs \<and> p \<in> set xs" and "p \<noteq> i"
    and "q = NULL_IDX \<longleftrightarrow> ys = []" and "ys \<noteq> [] \<Longrightarrow> q = hd ys \<and> q \<in> set ys" and "q \<noteq> i"
    and "p = q \<Longrightarrow> p = NULL_IDX"
    and "x \<in> set (butlast xs) \<union> set (tl ys) \<Longrightarrow> x \<noteq> i \<and> x \<noteq> p \<and> x \<noteq> q"
  using assms(1,2) unfolding p_def q_def
  by (cases xs rule: rev_cases; cases ys; auto)+

lemma unlinked_dlseg:
  assumes "dlseg ns NULL_IDX h (xs @ i # ys) NULL_IDX" and "distinct (xs @ i # ys)"
    and "NULL_IDX \<notin> set (xs @ i # ys)"
  defines "p \<equiv> last (NULL_IDX # xs)" and "q \<equiv> hd (ys @ [NULL_IDX])"
  shows "dlseg (unlinked p q i ns) NULL_IDX (if xs = [] then q else h) (xs @ ys) NULL_IDX"
proof -
  note nf = neighbour_facts [OF assms(2,3), folded p_def q_def]
  have "dlseg (unlinked p q i ns) NULL_IDX (hd (xs @ ys @ [NULL_IDX])) (xs @ ys) NULL_IDX"
  proof (rule dlseg_unlink [OF assms(1)])
    assume "xs \<noteq> []"
    thus "pn_next (unlinked p q i ns (last xs)) = hd (ys @ [NULL_IDX]) \<and>
        pn_prev (unlinked p q i ns (last xs)) = pn_prev (ns (last xs))"
      using nf(1-3,7) unlinked_links(1,2) [of p i p q ns] by (auto simp: q_def)
  next
    assume "ys \<noteq> []"
    thus "pn_prev (unlinked p q i ns (hd ys)) = last (NULL_IDX # xs) \<and>
        pn_next (unlinked p q i ns (hd ys)) = pn_next (ns (hd ys))"
      using nf(4-7) unlinked_links(1,2) [of q i p q ns] by (auto simp: p_def)
  next
    fix x assume "x \<in> set (butlast xs) \<union> set (tl ys)"
    thus "pn_next (unlinked p q i ns x) = pn_next (ns x) \<and> pn_prev (unlinked p q i ns x) = pn_prev (ns x)"
      using nf(8) [of x] by (simp add: unlinked_links)
  qed
  moreover have "h = hd (xs @ [i])" using dlseg_neighbours(3) [OF assms(1)] .
  ultimately show ?thesis by (cases xs) (simp_all add: q_def)
qed

lemma unlinked_other:
  "x \<noteq> i \<Longrightarrow> x \<noteq> p \<or> p = NULL_IDX \<Longrightarrow> x \<noteq> q \<or> q = NULL_IDX \<Longrightarrow>
   pn_next (unlinked p q i ns x) = pn_next (ns x) \<and> pn_prev (unlinked p q i ns x) = pn_prev (ns x)"
  by (auto simp: unlinked_links)

lemma remove_from_list_ok:
  assumes inv: "linv s F" and i: "i \<in> set (F k)"
  shows "\<exists>t. remove_from_list i s = Inr t \<and> linv t (F(k := remove1 i (F k))) \<and> keeps {} s t \<and>
    \<not> get_free (ps_nodes t i)"
proof -
  note D = linvD [OF inv]
  obtain xs ys where F: "F k = xs @ i # ys" using split_list [OF i] by blast
  have k: "k \<le> ps_MAX_ORDER s" using linv_mem_le [OF inv i] .
  have iN: "unat i < ps_N s" "get_order (ps_nodes s i) = k" using D(6) [OF i] by auto
  define p q where "p = last (NULL_IDX # xs)" and "q = hd (ys @ [NULL_IDX])"
  have seg: "dlseg (ps_nodes s) NULL_IDX (ps_free_lists s k) (xs @ i # ys) NULL_IDX"
    and dist: "distinct (xs @ i # ys)" using D(3) [OF k] D(4) [of k] F by simp_all
  have inN: "x \<noteq> NULL_IDX" "unat x < ps_N s" if "x \<in> set (F k)" for x
    using D(6) [OF that] NULL_IDX_less D(1) by blast+
  have nn: "NULL_IDX \<notin> set (xs @ i # ys)" using inN(1) F by auto
  note nf = neighbour_facts [OF dist nn, folded p_def q_def]
  have pq: "p = NULL_IDX \<or> p \<in> set (F k)" "q = NULL_IDX \<or> q \<in> set (F k)"
    using nf(1,2,4,5) F by (cases "xs = []"; cases "ys = []"; simp)+
  let ?ns = "unlinked p q i (ps_nodes s)" and ?F = "F(k := remove1 i (F k))"
  define t where "t = s\<lparr>ps_nodes := ?ns,
    ps_free_lists := (if p = NULL_IDX then (ps_free_lists s)(k := q) else ps_free_lists s)\<rparr>"
  have run: "remove_from_list i s = Inr t"
    unfolding t_def
  proof (rule remove_from_list_run [OF iN k dlseg_neighbours(1,2) [OF seg, folded p_def q_def]])
    show "p \<noteq> NULL_IDX \<Longrightarrow> unat p < ps_N s \<and> p \<noteq> i" using pq(1) inN(2) [of p] nf(3) by simp
    show "q \<noteq> NULL_IDX \<Longrightarrow> unat q < ps_N s \<and> q \<noteq> i" using pq(2) inN(2) [of q] nf(6) by simp
  qed
  have Fk: "remove1 i (F k) = xs @ ys" using F dist by (simp add: remove1_append)
  have dl: "dlseg ?ns NULL_IDX (ps_free_lists t j) (?F j) NULL_IDX" if j: "j \<le> ps_MAX_ORDER s" for j
  proof (cases "j = k")
    case True
    then show ?thesis using unlinked_dlseg [OF seg dist nn, folded p_def q_def] nf(1) Fk
      by (simp add: t_def split: if_splits)
  next
    case False
    have "x \<notin> set (F k)" if "x \<in> set (F j)" for x using D(6) [OF that] D(6) [of x k] False by auto
    hence "dlseg ?ns NULL_IDX (ps_free_lists s j) (F j) NULL_IDX =
        dlseg (ps_nodes s) NULL_IDX (ps_free_lists s j) (F j) NULL_IDX"
      using pq i by (intro dlseg_cong unlinked_other) blast+
    with False D(3) [OF j] show ?thesis by (auto simp: t_def)
  qed
  have "linv t ?F"
  proof (rule linv_relink [OF inv])
    fix x :: u32 assume x: "unat x < ps_N s" "\<not> get_free (ps_nodes t x)"
    show "pn_next (ps_nodes t x) = NULL_IDX \<and> pn_prev (ps_nodes t x) = NULL_IDX"
    proof (cases "x = i")
      case False
      hence f: "\<not> get_free (ps_nodes s x)" using x(2) by (simp add: t_def)
      hence "x \<notin> set (F k)" using D(6) [of x k] by blast
      hence "pn_next (?ns x) = pn_next (ps_nodes s x) \<and> pn_prev (?ns x) = pn_prev (ps_nodes s x)"
        using False pq by (intro unlinked_other) auto
      thus ?thesis using D(8) [OF x(1) f] by (simp add: t_def)
    qed (simp add: t_def unlinked_links)
  next
    fix x :: u32 assume x: "unat x < ps_N s"
    hence "get_free (ps_nodes s x) \<longleftrightarrow> x \<in> set (F (get_order (ps_nodes s x)))" using D(6,7) by blast
    moreover have "i \<notin> set (remove1 i (F k))" using D(4) [of k] by simp
    ultimately show "get_free (ps_nodes t x) \<longleftrightarrow> x \<in> set (?F (get_order (ps_nodes s x)))"
      using iN by (cases "x = i") (simp_all add: t_def)
  next
    fix x j assume "x \<in> set (?F j)"
    hence "x \<in> set (F j)" using set_remove1_subset [of i "F k"] by (auto split: if_splits)
    thus "unat x < ps_N s \<and> get_order (ps_nodes s x) = j" using D(6) by blast
  next
    fix j assume "j > ps_MAX_ORDER s"
    thus "?F j = []" using D(5) [of j] k by simp
  next
    fix j show "distinct (?F j)" using D(4) by (simp add: distinct_remove1)
  qed (use dl in \<open>simp_all add: t_def\<close>)
  moreover have "keeps {} s t" by (simp add: keeps_def t_def)
  ultimately show ?thesis using run by (auto simp: t_def)
qed

end
