(* ===== verification/Page_Tiling.thy ===== *)
theory Page_Tiling
  imports Page_Lists
begin

text \<open>
  Blocks of pages and tilings of the page range by aligned blocks: the abstract state of the
  buddy allocator.  A block is a page index with an order; a tiling is a set of disjoint,
  aligned blocks that covers the pages \<open>0 ..< N\<close>.  Splitting a block and merging two buddies
  keep a tiling.
\<close>

type_synonym block = "u32 \<times> nat"

definition blk :: "block \<Rightarrow> nat set" where
  "blk b = {unat (fst b) ..< unat (fst b) + 2 ^ snd b}"

definition free_blocks :: "(nat \<Rightarrow> u32 list) \<Rightarrow> block set" where
  "free_blocks F = {(i, k). i \<in> set (F k)}"

definition wf_block :: "nat \<Rightarrow> block \<Rightarrow> bool" where
  "wf_block n b \<longleftrightarrow> 2 ^ snd b dvd unat (fst b) \<and> unat (fst b) + 2 ^ snd b \<le> n"

definition disjoint_blocks :: "block set \<Rightarrow> bool" where
  "disjoint_blocks B \<longleftrightarrow> (\<forall>b \<in> B. \<forall>c \<in> B. b \<noteq> c \<longrightarrow> blk b \<inter> blk c = {})"

definition tiling :: "nat \<Rightarrow> block set \<Rightarrow> bool" where
  "tiling n B \<longleftrightarrow> (\<forall>b \<in> B. wf_block n b) \<and> disjoint_blocks B \<and> (\<Union>b \<in> B. blk b) = {..<n}"

lemma blk_start [simp]: "unat i \<in> blk (i, k)"
  by (simp add: blk_def)

lemma blk_nonempty [simp]: "blk b \<noteq> {}"
  by (cases b) (use blk_start in blast)

lemma free_blocks_iff [simp]: "(i, k) \<in> free_blocks F \<longleftrightarrow> i \<in> set (F k)"
  by (simp add: free_blocks_def)

lemma free_blocks_push: "free_blocks (F(k := i # F k)) = insert (i, k) (free_blocks F)"
  by (auto simp: free_blocks_def)

lemma free_blocks_remove:
  "distinct (F k) \<Longrightarrow> free_blocks (F(k := remove1 i (F k))) = free_blocks F - {(i, k)}"
  by (auto simp: free_blocks_def split: if_splits)

text \<open>Replacing a part of a tiling by blocks that cover the same pages.\<close>

lemma tiling_replace:
  assumes t: "tiling n (X \<union> B)" and "X \<inter> B = {}" and u: "(\<Union>b \<in> Y. blk b) = (\<Union>b \<in> X. blk b)"
    and d: "disjoint_blocks Y" and w: "\<forall>b \<in> Y. wf_block n b"
  shows "tiling n (Y \<union> B)" and "Y \<inter> B = {}"
proof -
  have dXB: "disjoint_blocks (X \<union> B)" using t by (simp add: tiling_def)
  have XB: "blk x \<inter> blk b = {}" if "x \<in> X" "b \<in> B" for x b
  proof -
    have "x \<noteq> b" using that assms(2) by auto
    thus ?thesis using dXB that by (simp add: disjoint_blocks_def)
  qed
  have YB: "blk y \<inter> blk b = {}" if y: "y \<in> Y" and b: "b \<in> B" for y b
  proof -
    have "blk y \<subseteq> (\<Union>x \<in> X. blk x)" using u y by auto
    thus ?thesis using XB [OF _ b] by fast
  qed
  show "Y \<inter> B = {}"
  proof (rule equals0I)
    fix y assume "y \<in> Y \<inter> B"
    hence "blk y \<inter> blk y = {}" using YB [of y y] by simp
    thus False by simp
  qed
  have "disjoint_blocks (Y \<union> B)"
    unfolding disjoint_blocks_def
  proof (intro ballI impI)
    fix b c assume bc: "b \<in> Y \<union> B" "c \<in> Y \<union> B" "b \<noteq> c"
    hence "b \<in> Y \<Longrightarrow> c \<in> Y \<Longrightarrow> blk b \<inter> blk c = {}" "b \<in> B \<Longrightarrow> c \<in> B \<Longrightarrow> blk b \<inter> blk c = {}"
      using d dXB by (simp_all add: disjoint_blocks_def)
    thus "blk b \<inter> blk c = {}" using bc YB [of b c] YB [of c b] by (auto simp: Int_commute)
  qed
  moreover have "(\<Union>b \<in> Y \<union> B. blk b) = {..<n}" using t u by (simp add: tiling_def UN_Un)
  ultimately show "tiling n (Y \<union> B)" using t w by (auto simp: tiling_def)
qed

section \<open>Buddies\<close>

lemma buddy_of_involution [simp]: "buddy_of (buddy_of i k) k = i"
  by (simp add: buddy_of_def xor.assoc)

lemma unat_buddy_of:
  assumes "k < 32" and "2 ^ k dvd unat i"
  shows "unat (buddy_of i k) = (if even (unat i div 2 ^ k) then unat i + 2 ^ k else unat i - 2 ^ k)"
  using unat_xor_exp [of k i] assms by (simp add: buddy_of_def push_bit_one_exp)

lemma buddy_left:
  assumes "k < 32" and "2 ^ Suc k dvd unat i"
  shows "unat (buddy_of i k) = unat i + 2 ^ k"
proof -
  obtain q where "unat i = 2 ^ k * (2 * q)" using assms(2) by (auto simp: mult_ac)
  thus ?thesis using unat_buddy_of [OF assms(1), of i] by simp
qed

lemma buddy_cases:
  assumes "k < 32" and "2 ^ k dvd unat i"
  defines "b \<equiv> buddy_of i k"
  defines "l \<equiv> (if i < b then i else b)"
  shows "2 ^ Suc k dvd unat l" and "blk (l, Suc k) = blk (i, k) \<union> blk (b, k)"
    and "blk (i, k) \<inter> blk (b, k) = {}" and "b \<noteq> i" and "2 ^ k dvd unat b"
    and "{l, buddy_of l k} = {i, b}"
proof -
  obtain q where q: "unat i = 2 ^ k * q" using assms(2) by blast
  have ub: "unat b = (if even q then unat i + 2 ^ k else unat i - 2 ^ k)"
    using unat_buddy_of [OF assms(1,2)] q by (simp add: b_def)
  have ul: "unat l = (if even q then unat i else unat i - 2 ^ k)"
    using ub q by (cases q) (auto simp: l_def word_less_nat_alt)
  show "2 ^ Suc k dvd unat l"
    using ul q by (cases "even q") (auto elim!: evenE oddE simp: algebra_simps)
  have g: "odd q \<Longrightarrow> 2 ^ k \<le> unat i" using q by (cases q) auto
  show "blk (l, Suc k) = blk (i, k) \<union> blk (b, k)" and "blk (i, k) \<inter> blk (b, k) = {}"
    using ub ul g by (auto simp: blk_def)
  have "unat b \<noteq> unat i"
  proof (cases "even q")
    case False
    have "0 < (2 :: nat) ^ k" by simp
    moreover have "unat b = unat i - 2 ^ k" "2 ^ k \<le> unat i" using False ub g by simp_all
    ultimately show ?thesis by linarith
  qed (simp add: ub)
  thus "b \<noteq> i" by auto
  show "2 ^ k dvd unat b" using ub q by (auto simp: dvd_diff_nat)
  show "{l, buddy_of l k} = {i, b}" by (auto simp: l_def b_def)
qed

lemma tiling_split:
  assumes "tiling n (insert (i, Suc k) B)" and "(i, Suc k) \<notin> B" and "k < 32"
  shows "tiling n (insert (i, k) (insert (buddy_of i k, k) B))"
    and "(i, k) \<notin> insert (buddy_of i k, k) B" and "(buddy_of i k, k) \<notin> B"
proof -
  let ?b = "buddy_of i k"
  have w: "wf_block n (i, Suc k)" using assms(1) by (auto simp: tiling_def)
  hence dv: "2 ^ Suc k dvd unat i" by (simp add: wf_block_def)
  have dk: "2 ^ k dvd unat i" by (rule power_le_dvd [OF dv]) simp
  note ub = buddy_left [OF assms(3) dv]
  have b: "blk (i, Suc k) = blk (i, k) \<union> blk (?b, k)" "blk (i, k) \<inter> blk (?b, k) = {}"
    using ub by (auto simp: blk_def)
  have "disjoint_blocks {(i, k), (?b, k)}" using b(2) by (auto simp: disjoint_blocks_def)
  moreover have "\<forall>c \<in> {(i, k), (?b, k)}. wf_block n c"
    using w ub dk by (auto simp: wf_block_def)
  moreover have "(\<Union>c \<in> {(i, k), (?b, k)}. blk c) = (\<Union>c \<in> {(i, Suc k)}. blk c)" using b(1) by simp
  moreover have "?b \<noteq> i" using ub by (auto simp: word_unat_eq_iff)
  ultimately show "tiling n (insert (i, k) (insert (?b, k) B))"
    and "(i, k) \<notin> insert (?b, k) B" and "(?b, k) \<notin> B"
    using tiling_replace [of n "{(i, Suc k)}" B "{(i, k), (?b, k)}"] assms(1,2) by auto
qed

lemma tiling_merge:
  assumes "tiling n (insert (i, k) (insert (buddy_of i k, k) B))"
    and "(i, k) \<notin> B" and "(buddy_of i k, k) \<notin> B" and "k < 32"
  defines "l \<equiv> (if i < buddy_of i k then i else buddy_of i k)"
  shows "tiling n (insert (l, Suc k) B)" and "(l, Suc k) \<notin> B"
proof -
  let ?b = "buddy_of i k"
  have w: "wf_block n (i, k)" "wf_block n (?b, k)" using assms(1) by (auto simp: tiling_def)
  hence "2 ^ k dvd unat i" by (simp add: wf_block_def)
  note bc = buddy_cases [OF assms(4) this, folded l_def]
  have "blk (l, Suc k) \<subseteq> {..<n}" using assms(1) bc(2) by (auto simp: tiling_def)
  moreover have "unat l + (2 ^ Suc k - 1) \<in> blk (l, Suc k)"
    unfolding blk_def fst_conv snd_conv atLeastLessThan_iff
    using zero_less_power [of "2 :: nat" "Suc k"] by linarith
  ultimately have "unat l + (2 ^ Suc k - 1) < n" by blast
  moreover have "0 < (2 :: nat) ^ Suc k" by simp
  ultimately have "wf_block n (l, Suc k)" using bc(1) unfolding wf_block_def fst_conv snd_conv by linarith
  thus "tiling n (insert (l, Suc k) B)" and "(l, Suc k) \<notin> B"
    using tiling_replace [of n "{(i, k), (?b, k)}" B "{(l, Suc k)}"] assms(1-3) bc(2)
    by (auto simp: disjoint_blocks_def)
qed

lemma tiling_overlap:
  "tiling n B \<Longrightarrow> b \<in> B \<Longrightarrow> c \<in> B \<Longrightarrow> x \<in> blk b \<Longrightarrow> x \<in> blk c \<Longrightarrow> b = c"
  by (auto simp: tiling_def disjoint_blocks_def)

lemma tiling_wf: "tiling n B \<Longrightarrow> (i, k) \<in> B \<Longrightarrow> 2 ^ k dvd unat i \<and> unat i + 2 ^ k \<le> n"
  by (auto simp: tiling_def wf_block_def)

lemma tiling_order_less: "tiling n B \<Longrightarrow> (i, k) \<in> B \<Longrightarrow> n < 2 ^ m \<Longrightarrow> k < m"
proof -
  assume "tiling n B" "(i, k) \<in> B" "n < 2 ^ m"
  hence "(2 :: nat) ^ k < 2 ^ m" using tiling_wf [of n B i k] by linarith
  thus ?thesis by (rule power_less_imp_less_exp [rotated]) simp
qed

end
