(* ===== verification/Page_Correct.thy ===== *)
theory Page_Correct
  imports Page_Tiling
begin

text \<open>
  Correctness of the buddy allocator.  The abstract state is the set \<open>A\<close> of allocated blocks;
  \<open>pinv s F A\<close> says that the free lists \<open>F\<close> and \<open>A\<close> together tile the pages of \<open>s\<close>.
  \<open>page_malloc\<close> adds a fresh block to \<open>A\<close>, \<open>page_free\<close> removes one and coalesces, \<open>reserve\<close>
  adds a given range, and \<open>page_allocator_init\<close> starts with no allocated block.
\<close>

section \<open>Invariants\<close>

definition orders_ok :: "page_state \<Rightarrow> block set \<Rightarrow> bool" where
  "orders_ok s A \<longleftrightarrow> (\<forall>(i, k) \<in> A. get_order (ps_nodes s i) = k)"

definition pinv :: "page_state \<Rightarrow> (nat \<Rightarrow> u32 list) \<Rightarrow> block set \<Rightarrow> bool" where
  "pinv s F A \<longleftrightarrow> linv s F \<and> tiling (ps_N s) (free_blocks F \<union> A) \<and> free_blocks F \<inter> A = {} \<and>
     orders_ok s A"

text \<open>A state in the middle of an operation: the block \<open>(i, k)\<close> belongs to nobody.\<close>

definition hole :: "page_state \<Rightarrow> (nat \<Rightarrow> u32 list) \<Rightarrow> block set \<Rightarrow> u32 \<Rightarrow> nat \<Rightarrow> bool" where
  "hole s F A i k \<longleftrightarrow> linv s F \<and> tiling (ps_N s) (insert (i, k) (free_blocks F \<union> A)) \<and>
     (i, k) \<notin> free_blocks F \<union> A \<and> free_blocks F \<inter> A = {}"

definition no_buddies :: "nat \<Rightarrow> (nat \<Rightarrow> u32 list) \<Rightarrow> bool" where
  "no_buddies m F \<longleftrightarrow> (\<forall>k < m. \<forall>i \<in> set (F k). buddy_of i k \<notin> set (F k))"

definition interior :: "u32 \<Rightarrow> nat \<Rightarrow> u32 set" where
  "interior i k = {j. unat i < unat j \<and> unat j < unat i + 2 ^ k}"

lemma orders_ok_keeps:
  assumes "orders_ok s A" and "keeps X s t" and "\<And>j q. (j, q) \<in> A \<Longrightarrow> j \<notin> X"
  shows "orders_ok t A"
  using assms unfolding orders_ok_def keeps_def by fastforce

lemma hole_not_free:
  assumes "hole s F A i k" and "unat j \<in> blk (i, k)"
  shows "\<not> get_free (ps_nodes s j)" and "unat j < ps_N s" and "j \<notin> set (F q)" and "(j, q) \<notin> A"
proof -
  have t: "tiling (ps_N s) (insert (i, k) (free_blocks F \<union> A))" and inv: "linv s F"
    and n: "(i, k) \<notin> free_blocks F \<union> A"
    using assms(1) by (auto simp: hole_def)
  have no: "(j, r) \<notin> free_blocks F \<union> A" for r
  proof
    assume m: "(j, r) \<in> free_blocks F \<union> A"
    have "(j, r) = (i, k)" using tiling_overlap [OF t _ _ blk_start assms(2)] m by blast
    thus False using m n by simp
  qed
  thus "j \<notin> set (F q)" "(j, q) \<notin> A" by auto
  show jN: "unat j < ps_N s" using assms(2) tiling_wf [OF t, of i k] by (auto simp: blk_def)
  show "\<not> get_free (ps_nodes s j)" using linv_free_iff [OF inv jN] no by auto
qed

lemma hole_keeps_orders:
  "hole s F A i k \<Longrightarrow> orders_ok s A \<Longrightarrow> keeps (interior i k) s t \<Longrightarrow> orders_ok t A"
proof (erule orders_ok_keeps, assumption)
  fix j q assume "hole s F A i k" "(j, q) \<in> A"
  hence "unat j \<notin> blk (i, k)" using hole_not_free(4) by blast
  thus "j \<notin> interior i k" by (auto simp: interior_def blk_def)
qed

lemma pinv_take:
  assumes "pinv s F A" and "i \<in> set (F k)"
  shows "\<exists>t. remove_from_list i s = Inr t \<and> hole t (F(k := remove1 i (F k))) A i k \<and>
    keeps {} s t \<and> orders_ok t A"
proof -
  have inv: "linv s F" and t: "tiling (ps_N s) (free_blocks F \<union> A)" and d: "free_blocks F \<inter> A = {}"
    and ord: "orders_ok s A" using assms(1) by (auto simp: pinv_def)
  obtain u where u: "remove_from_list i s = Inr u" "linv u (F(k := remove1 i (F k)))" "keeps {} s u"
    using remove_from_list_ok [OF inv assms(2)] by blast
  have fb: "free_blocks (F(k := remove1 i (F k))) = free_blocks F - {(i, k)}"
    using linvD(4) [OF inv] by (rule free_blocks_remove)
  have "insert (i, k) (free_blocks F - {(i, k)} \<union> A) = free_blocks F \<union> A" using assms(2) by auto
  moreover have "(i, k) \<notin> A" using d assms(2) free_blocks_iff by blast
  ultimately have "hole u (F(k := remove1 i (F k))) A i k"
    unfolding hole_def fb using u t d by (auto simp: keeps_def)
  moreover have "orders_ok u A" using orders_ok_keeps [OF ord u(3)] by simp
  ultimately show ?thesis using u by blast
qed

lemma no_buddies_mono: "no_buddies m F \<Longrightarrow> (\<And>k. set (F' k) \<subseteq> set (F k)) \<Longrightarrow> no_buddies m F'"
  unfolding no_buddies_def by (meson subset_iff)

lemma no_buddies_remove: "no_buddies m F \<Longrightarrow> no_buddies m (F(k := remove1 i (F k)))"
  by (erule no_buddies_mono) (simp add: set_remove1_subset)

lemma hole_fill:
  assumes "hole s F A i k" and "orders_ok s A" and "get_order (ps_nodes s i) = k"
  shows "pinv s F (insert (i, k) A)"
  using assms by (auto simp: hole_def pinv_def orders_ok_def)

text \<open>Giving a block that belongs to nobody back to its free list.\<close>

lemma hole_push:
  assumes h: "hole s F A i k" and k: "get_order (ps_nodes s i) = k"
  shows "\<exists>t. push_to_list i s = Inr t \<and> linv t (F(k := i # F k)) \<and> keeps {} s t \<and>
    tiling (ps_N t) (free_blocks (F(k := i # F k)) \<union> A) \<and> free_blocks (F(k := i # F k)) \<inter> A = {}"
proof -
  have inv: "linv s F" and t: "tiling (ps_N s) (insert (i, k) (free_blocks F \<union> A))"
    using h by (auto simp: hole_def)
  have "k < Suc (ps_MAX_ORDER s)" using tiling_order_less [OF t _ linvD(10) [OF inv]] by blast
  then obtain u where u: "push_to_list i s = Inr u" "linv u (F(k := i # F k))" "keeps {} s u"
    using push_to_list_ok [OF inv hole_not_free(2,1) [OF h blk_start] k] by auto
  have "tiling (ps_N u) (insert (i, k) (free_blocks F) \<union> A)" using t u(3) by (simp add: keeps_def)
  moreover have "insert (i, k) (free_blocks F) \<inter> A = {}" using h by (auto simp: hole_def)
  ultimately show ?thesis using u unfolding free_blocks_push by blast
qed

text \<open>One halving of a hole, in either direction: the half that is not kept becomes free.\<close>

lemma hole_halve:
  assumes h: "hole s F A i (Suc k)" and jb: "{j, b} = {i, buddy_of i k}" "j \<noteq> b"
  shows "\<exists>t u. upd_node b (set_order k) s = Inr t \<and> push_to_list b t = Inr u \<and>
    hole u (F(k := b # F k)) A j k \<and> keeps {b} s u \<and>
    (no_buddies (ps_MAX_ORDER s) F \<longrightarrow> no_buddies (ps_MAX_ORDER s) (F(k := b # F k)))"
proof -
  let ?b = "buddy_of i k"
  have inv: "linv s F" and t: "tiling (ps_N s) (insert (i, Suc k) (free_blocks F \<union> A))"
    and n: "(i, Suc k) \<notin> free_blocks F \<union> A" and d: "free_blocks F \<inter> A = {}"
    using h by (auto simp: hole_def)
  have "Suc k < 32" using tiling_order_less [OF t _ linvD(1) [OF inv]] by blast
  hence k: "k < 32" by simp
  note ts = tiling_split [OF t n k]
  have dv: "2 ^ Suc k dvd unat i" using tiling_wf [OF t, of i "Suc k"] by blast
  note ub = buddy_left [OF k dv]
  have in_hole: "unat i \<in> blk (i, Suc k)" "unat ?b \<in> blk (i, Suc k)"
    using ub by (auto simp: blk_def)
  have bi: "unat b \<in> blk (i, Suc k)" "unat j \<in> blk (i, Suc k)" using jb in_hole by (auto simp: doubleton_eq_iff)
  note bn = hole_not_free [OF h bi(1)]
  have wb: "2 ^ k dvd unat b" using tiling_wf [OF ts(1)] jb by (auto simp: doubleton_eq_iff)
  obtain u where u: "upd_node b (set_order k) s = Inr u" "linv u F" "keeps {b} s u"
    "get_order (ps_nodes u b) = k" "\<not> get_free (ps_nodes u b)"
    using set_order_ok [OF inv bn(2,1) _ wb] k by auto
  have two: "insert (i, k) (insert (?b, k) (free_blocks F \<union> A)) =
      insert (b, k) (free_blocks F \<union> insert (j, k) A)"
    using jb by (auto simp: doubleton_eq_iff)
  have nin: "(j, k) \<notin> free_blocks F \<union> A" "(b, k) \<notin> free_blocks F \<union> insert (j, k) A"
    using hole_not_free(3,4) [OF h bi(1)] hole_not_free(3,4) [OF h bi(2)] jb(2) by auto
  have "hole u F (insert (j, k) A) b k"
    unfolding hole_def using u(2,3) ts(1) nin d two by (auto simp: keeps_def)
  then obtain v where v: "push_to_list b u = Inr v" "linv v (F(k := b # F k))" "keeps {} u v"
    "tiling (ps_N v) (free_blocks (F(k := b # F k)) \<union> insert (j, k) A)"
    "free_blocks (F(k := b # F k)) \<inter> insert (j, k) A = {}"
    using hole_push [OF _ u(4)] by blast
  have "hole v (F(k := b # F k)) A j k"
    unfolding hole_def using v(2,4,5) nin(1) by auto
  moreover have "keeps {b} s v" using keeps_trans [OF u(3) v(3)] by simp
  moreover have "no_buddies (ps_MAX_ORDER s) (F(k := b # F k))" if "no_buddies (ps_MAX_ORDER s) F"
  proof -
    have bb: "buddy_of b k = j" "buddy_of j k = b" using jb by (auto simp: doubleton_eq_iff)
    have "j \<notin> set (F k)" using hole_not_free(3) [OF h bi(2)] .
    thus ?thesis
      using that bb jb(2) unfolding no_buddies_def
      by (auto split: if_splits)
  qed
  ultimately show ?thesis using u(1) v(1) by blast
qed

section \<open>Allocation\<close>

lemma split_loop_ok:
  assumes "hole s F A i k" and "t \<le> k"
  shows "\<exists>s' F'. split_loop i k t s = Inr s' \<and> hole s' F' A i t \<and> keeps (interior i k) s s' \<and>
    (no_buddies (ps_MAX_ORDER s) F \<longrightarrow> no_buddies (ps_MAX_ORDER s) F')"
  using assms
proof (induction k arbitrary: s F)
  case 0
  then show ?case by auto
next
  case (Suc k)
  show ?case
  proof (cases "t = Suc k")
    case True
    then show ?thesis using Suc.prems by auto
  next
    case False
    let ?b = "buddy_of i k"
    have h: "linv s F" "tiling (ps_N s) (insert (i, Suc k) (free_blocks F \<union> A))"
      using Suc.prems(1) by (auto simp: hole_def)
    have "Suc k < 32" using tiling_order_less [OF h(2) _ linvD(1) [OF h(1)]] by blast
    hence k: "k < 32" by simp
    have dv: "2 ^ Suc k dvd unat i" using tiling_wf [OF h(2), of i "Suc k"] by blast
    note ub = buddy_left [OF k dv]
    hence ne: "i \<noteq> ?b" by (auto simp: word_unat_eq_iff)
    obtain u v where u: "upd_node ?b (set_order k) s = Inr u" "push_to_list ?b u = Inr v"
      "hole v (F(k := ?b # F k)) A i k" "keeps {?b} s v"
      and nb: "no_buddies (ps_MAX_ORDER s) F \<longrightarrow> no_buddies (ps_MAX_ORDER s) (F(k := ?b # F k))"
      using hole_halve [OF Suc.prems(1) _ ne] by blast
    have "t \<le> k" using Suc.prems(2) False by simp
    then obtain s' F' where s': "split_loop i k t v = Inr s'" "hole s' F' A i t"
      "keeps (interior i k) v s'"
      "no_buddies (ps_MAX_ORDER v) (F(k := ?b # F k)) \<longrightarrow> no_buddies (ps_MAX_ORDER v) F'"
      using Suc.IH [OF u(3)] by blast
    have "{?b} \<union> interior i k \<subseteq> interior i (Suc k)" using ub by (auto simp: interior_def)
    hence "keeps (interior i (Suc k)) s s'" using keeps_trans [OF u(4) s'(3)] keeps_mono by blast
    moreover have "split_loop i (Suc k) t s = Inr s'" using Suc.prems(2) False u s' by simp
    moreover have "ps_MAX_ORDER v = ps_MAX_ORDER s" using u(4) by (simp add: keeps_def)
    ultimately show ?thesis using s' nb by auto
  qed
qed

lemma split_to_order_and_pop_ok:
  assumes p: "pinv s F A" and i: "i \<in> set (F k)" and t: "t < k"
  shows "\<exists>s' F'. split_to_order_and_pop i t s = Inr s' \<and> pinv s' F' (insert (i, t) A) \<and>
    (i, t) \<notin> A \<and> keeps (insert i (interior i k)) s s' \<and>
    (no_buddies (ps_MAX_ORDER s) F \<longrightarrow> no_buddies (ps_MAX_ORDER s) F')"
proof -
  have inv: "linv s F" using p by (simp add: pinv_def)
  have iN: "unat i < ps_N s" "get_order (ps_nodes s i) = k" using linvD(6) [OF inv i] by auto
  let ?F1 = "F(k := remove1 i (F k))"
  obtain u where u: "remove_from_list i s = Inr u" "hole u ?F1 A i k" "keeps {} s u" "orders_ok u A"
    using pinv_take [OF p i] by blast
  have al: "2 ^ k dvd unat i" using linvD(9) [OF inv iN(1)] iN(2) by simp
  hence alt: "2 ^ t dvd unat i" using t by (auto elim: power_le_dvd)
  have k: "k < 32" using linv_mem_le [OF inv i] linv_MAX_ORDER [OF inv] by simp
  note nf = hole_not_free [OF u(2) blk_start]
  have invu: "linv u ?F1" using u(2) by (simp add: hole_def)
  obtain v where v: "upd_node i (set_order t) u = Inr v" "linv v ?F1" "keeps {i} u v"
    "get_order (ps_nodes v i) = t"
    using set_order_ok [OF invu nf(2,1) _ alt] t k by auto
  have hv: "hole v ?F1 A i k" using u(2) v(2,3) by (simp add: hole_def keeps_def)
  have ov: "orders_ok v A"
    using orders_ok_keeps [OF u(4) v(3)] nf(4) by blast
  obtain s' F' where s': "split_loop i k t v = Inr s'" "hole s' F' A i t" "keeps (interior i k) v s'"
    "no_buddies (ps_MAX_ORDER v) ?F1 \<longrightarrow> no_buddies (ps_MAX_ORDER v) F'"
    using split_loop_ok [OF hv] t by (meson less_imp_le)
  have os: "orders_ok s' A" using hole_keeps_orders [OF hv ov s'(3)] .
  have "get_order (ps_nodes s' i) = t" using s'(3) v(4) by (simp add: keeps_def interior_def)
  hence "pinv s' F' (insert (i, t) A)" using hole_fill [OF s'(2) os] by simp
  moreover have "split_to_order_and_pop i t s = Inr s'"
    using iN t u(1) v(1) s'(1) by (simp add: split_to_order_and_pop_def get_node_def)
  moreover have "keeps (insert i (interior i k)) s s'"
    using keeps_trans [OF u(3) keeps_trans [OF v(3) s'(3)]] by simp
  moreover have "ps_MAX_ORDER v = ps_MAX_ORDER s" using u(3) v(3) by (simp add: keeps_def)
  ultimately show ?thesis
    using s' no_buddies_remove [of "ps_MAX_ORDER s" F k i] by (auto simp: hole_def)
qed

text \<open>The order from which a request is served: the smallest sufficient one with a free block.\<close>

definition serves :: "(nat \<Rightarrow> u32 list) \<Rightarrow> nat \<Rightarrow> nat \<Rightarrow> bool" where
  "serves F ord k \<longleftrightarrow> ord \<le> k \<and> F k \<noteq> [] \<and> (\<forall>j. ord \<le> j \<and> j < k \<longrightarrow> F j = [])"

lemma serves_exists: "(\<exists>k \<ge> ord. F k \<noteq> []) \<Longrightarrow> \<exists>k. serves F ord k"
proof -
  assume "\<exists>k \<ge> ord. F k \<noteq> []"
  hence ex: "\<exists>k. ord \<le> k \<and> F k \<noteq> []" by blast
  have "serves F ord (LEAST k. ord \<le> k \<and> F k \<noteq> [])"
    unfolding serves_def using LeastI_ex [OF ex] not_less_Least by blast
  thus ?thesis ..
qed

lemma malloc_search_skip:
  assumes "linv s F" and "\<forall>j \<in> set js. F j = [] \<and> j \<le> ps_MAX_ORDER s"
  shows "malloc_search ord p (js @ ks) s = malloc_search ord p ks s"
  using assms by (induction js) (auto simp: get_head_def linv_head)

lemma malloc_search_hit:
  assumes "linv s F" and "serves F ord k" and "ord < k" and "k \<le> ps_MAX_ORDER s"
  shows "malloc_search ord p [ord ..< Suc (ps_MAX_ORDER s)] s =
    rbind (split_to_order_and_pop (hd (F k)) ord s) (\<lambda>s.
    rbind (upd_node (hd (F k)) (\<lambda>n. n\<lparr>pn_page := p\<rparr>) s) (\<lambda>s.
    Inr (s, ucast (hd (F k)) * PAGE_SIZE)))"
proof -
  have l: "[ord ..< Suc (ps_MAX_ORDER s)] = [ord ..< k] @ k # [Suc k ..< Suc (ps_MAX_ORDER s)]"
    using assms(3,4) upt_add_eq_append [of ord k "Suc (ps_MAX_ORDER s) - k"]
    by (simp add: upt_conv_Cons del: upt_Suc)
  have "hd (F k) \<in> set (F k)" using assms(2) by (simp add: serves_def)
  hence "hd (F k) \<noteq> NULL_IDX" using linvD(1,6) [OF assms(1)] NULL_IDX_less by blast
  moreover have "ps_free_lists s k = hd (F k)"
    using linv_head [OF assms(1,4)] assms(2) by (simp add: serves_def split: list.splits)
  ultimately show ?thesis
    unfolding l using assms by (subst malloc_search_skip [OF assms(1)]) (auto simp: serves_def get_head_def)
qed

lemma pinv_set_page:
  assumes "pinv s F A" and "unat i < ps_N s"
  shows "\<exists>t. upd_node i (\<lambda>n. n\<lparr>pn_page := d\<rparr>) s = Inr t \<and> pinv t F A \<and>
    ps_nodes t = (ps_nodes s)(i := (ps_nodes s i)\<lparr>pn_page := d\<rparr>) \<and> ps_N t = ps_N s \<and>
    ps_MAX_ORDER t = ps_MAX_ORDER s"
proof -
  obtain t where t: "upd_node i (\<lambda>n. n\<lparr>pn_page := d\<rparr>) s = Inr t" "linv t F"
    "ps_nodes t = (ps_nodes s)(i := (ps_nodes s i)\<lparr>pn_page := d\<rparr>)" "ps_N t = ps_N s"
    "ps_MAX_ORDER t = ps_MAX_ORDER s"
    using set_page_ok assms unfolding pinv_def by blast
  moreover have "orders_ok t A" using assms(1) t(3) by (auto simp: pinv_def orders_ok_def)
  ultimately show ?thesis using assms(1) by (auto simp: pinv_def)
qed

lemma page_malloc_take:
  assumes p: "pinv s F A" and o: "ord \<le> ps_MAX_ORDER s" and sv: "serves F ord k"
  defines "i \<equiv> hd (F k)"
  shows "\<exists>u F'. page_malloc ord d s = rbind (upd_node i (\<lambda>n. n\<lparr>pn_page := d\<rparr>) u) (\<lambda>s.
      Inr (s, ucast i * PAGE_SIZE)) \<and> pinv u F' (insert (i, ord) A) \<and> (i, ord) \<notin> A \<and>
    keeps (insert i (interior i k)) s u \<and>
    (no_buddies (ps_MAX_ORDER s) F \<longrightarrow> no_buddies (ps_MAX_ORDER s) F')"
proof -
  have inv: "linv s F" using p by (simp add: pinv_def)
  have i: "i \<in> set (F k)" and ok: "ord \<le> k" using sv by (auto simp: serves_def i_def)
  have kM: "k \<le> ps_MAX_ORDER s" using linv_mem_le [OF inv i] .
  have head: "ps_free_lists s ord = (if F ord = [] then NULL_IDX else hd (F ord))"
    using linv_head [OF inv o] by (cases "F ord") auto
  show ?thesis
  proof (cases "ord = k")
    case True
    obtain u where u: "remove_from_list i s = Inr u" "hole u (F(k := remove1 i (F k))) A i k"
      "keeps {} s u" "orders_ok u A"
      using pinv_take [OF p i] by blast
    have "F ord \<noteq> []" "i \<noteq> NULL_IDX"
      using sv True NULL_IDX_less linvD(1,6) [OF inv] i by (auto simp: serves_def)
    hence "page_malloc ord d s = rbind (upd_node i (\<lambda>n. n\<lparr>pn_page := d\<rparr>) u) (\<lambda>s. Inr (s, ucast i * PAGE_SIZE))"
      using u(1) o head True by (simp add: page_malloc_def get_head_def i_def)
    moreover have "get_order (ps_nodes u i) = k" using linvD(6) [OF inv i] u(3) by (simp add: keeps_def)
    ultimately show ?thesis
      using hole_fill [OF u(2,4)] True u keeps_mono [OF u(3)] no_buddies_remove hole_not_free(4) [OF u(2) blk_start]
      by blast
  next
    case False
    hence lt: "ord < k" using ok by simp
    have "F ord = []" using sv lt by (simp add: serves_def)
    hence "page_malloc ord d s = malloc_search ord d [ord ..< Suc (ps_MAX_ORDER s)] s"
      using o head by (simp add: page_malloc_def get_head_def)
    also have "\<dots> = rbind (split_to_order_and_pop i ord s) (\<lambda>s.
        rbind (upd_node i (\<lambda>n. n\<lparr>pn_page := d\<rparr>) s) (\<lambda>s. Inr (s, ucast i * PAGE_SIZE)))"
      unfolding i_def by (rule malloc_search_hit [OF inv sv lt kM])
    finally show ?thesis
      using split_to_order_and_pop_ok [OF p i lt] by fastforce
  qed
qed

lemma page_malloc_ok:
  assumes p: "pinv s F A" and o: "ord \<le> ps_MAX_ORDER s" and sv: "serves F ord k"
  defines "i \<equiv> hd (F k)"
  shows "\<exists>s' F'. page_malloc ord d s = Inr (s', ucast i * PAGE_SIZE) \<and>
    pinv s' F' (insert (i, ord) A) \<and> (i, ord) \<notin> A \<and> pn_page (ps_nodes s' i) = d \<and>
    (\<forall>j. j \<noteq> i \<longrightarrow> pn_page (ps_nodes s' j) = pn_page (ps_nodes s j)) \<and>
    ps_N s' = ps_N s \<and> ps_MAX_ORDER s' = ps_MAX_ORDER s \<and>
    (no_buddies (ps_MAX_ORDER s) F \<longrightarrow> no_buddies (ps_MAX_ORDER s) F')"
proof -
  obtain u F' where u: "page_malloc ord d s = rbind (upd_node i (\<lambda>n. n\<lparr>pn_page := d\<rparr>) u) (\<lambda>s.
      Inr (s, ucast i * PAGE_SIZE))" "pinv u F' (insert (i, ord) A)" "(i, ord) \<notin> A"
    "keeps (insert i (interior i k)) s u"
    "no_buddies (ps_MAX_ORDER s) F \<longrightarrow> no_buddies (ps_MAX_ORDER s) F'"
    using page_malloc_take [OF p o sv, of d] unfolding i_def by blast
  have inv: "linv s F" using p by (simp add: pinv_def)
  have "i \<in> set (F k)" using sv by (simp add: serves_def i_def)
  hence "unat i < ps_N u" using linvD(6) [OF inv] u(4) by (simp add: keeps_def)
  then obtain t where t: "upd_node i (\<lambda>n. n\<lparr>pn_page := d\<rparr>) u = Inr t" "pinv t F' (insert (i, ord) A)"
    "ps_nodes t = (ps_nodes u)(i := (ps_nodes u i)\<lparr>pn_page := d\<rparr>)" "ps_N t = ps_N u"
    "ps_MAX_ORDER t = ps_MAX_ORDER u"
    using pinv_set_page [OF u(2)] by blast
  show ?thesis using u t by (auto simp: keeps_def)
qed

lemma page_malloc_exhausted:
  assumes inv: "linv s F" and o: "ord \<le> ps_MAX_ORDER s" and e: "\<forall>k \<ge> ord. F k = []"
  shows "page_malloc ord d s =
    Inl (Panic ''page_malloc: no free pages for the requested or bigger order'')"
proof -
  have "malloc_search ord d ([ord ..< Suc (ps_MAX_ORDER s)] @ []) s = malloc_search ord d [] s"
    by (rule malloc_search_skip [OF inv]) (use e in auto)
  thus ?thesis using linv_head [OF inv o] e o by (simp add: page_malloc_def get_head_def del: upt_Suc)
qed

lemma tiling_fresh:
  assumes "tiling n (free_blocks F \<union> insert b A)" and "b \<notin> A" and "c \<in> A"
  shows "blk b \<inter> blk c = {}"
proof -
  have "b \<noteq> c" using assms by auto
  thus ?thesis using assms by (auto simp: tiling_def disjoint_blocks_def)
qed

text \<open>Property C1: on a well-formed allocator \<open>page_malloc\<close> succeeds exactly if a free block of the
  requested or a bigger order exists; it then hands out an aligned block of the requested order
  that is disjoint from every allocated block, records the page data in it, changes no other
  page's data, and leaves a well-formed allocator; otherwise it panics.\<close>
theorem page_malloc_spec:
  assumes "pinv s F A" and "ord \<le> ps_MAX_ORDER s"
  shows "if \<exists>k \<ge> ord. F k \<noteq> []
    then \<exists>i s' F'. page_malloc ord d s = Inr (s', ucast i * PAGE_SIZE) \<and>
      pinv s' F' (insert (i, ord) A) \<and> (\<forall>c \<in> A. blk (i, ord) \<inter> blk c = {}) \<and>
      2 ^ ord dvd unat i \<and> unat i + 2 ^ ord \<le> ps_N s \<and> pn_page (ps_nodes s' i) = d \<and>
      (\<forall>j. j \<noteq> i \<longrightarrow> pn_page (ps_nodes s' j) = pn_page (ps_nodes s j))
    else page_malloc ord d s =
      Inl (Panic ''page_malloc: no free pages for the requested or bigger order'')"
proof (cases "\<exists>k \<ge> ord. F k \<noteq> []")
  case True
  then obtain k where "serves F ord k" using serves_exists by blast
  from page_malloc_ok [OF assms this, of d] obtain s' F' where
    m: "page_malloc ord d s = Inr (s', ucast (hd (F k)) * PAGE_SIZE)"
    "pinv s' F' (insert (hd (F k), ord) A)" "(hd (F k), ord) \<notin> A" "pn_page (ps_nodes s' (hd (F k))) = d"
    "\<forall>j. j \<noteq> hd (F k) \<longrightarrow> pn_page (ps_nodes s' j) = pn_page (ps_nodes s j)" "ps_N s' = ps_N s"
    by blast
  have t: "tiling (ps_N s) (free_blocks F' \<union> insert (hd (F k), ord) A)"
    using m(2,6) by (simp add: pinv_def)
  show ?thesis
    unfolding if_P [OF True]
    by (intro exI [of _ "hd (F k)"] exI [of _ s'] exI [of _ F'])
      (use m tiling_fresh [OF t m(3)] tiling_wf [OF t, of "hd (F k)" ord] in auto)
next
  case False
  then show ?thesis
    using page_malloc_exhausted [OF _ assms(2), of F d] assms(1) by (auto simp: pinv_def)
qed

section \<open>Release\<close>

text \<open>Every block whose buddy lies outside of the page array keeps an allocated block inside.\<close>

definition rooted :: "page_state \<Rightarrow> block set \<Rightarrow> bool" where
  "rooted s A \<longleftrightarrow> (\<forall>i k. k < ps_MAX_ORDER s \<and> 2 ^ k dvd unat i \<and> unat i + 2 ^ k \<le> ps_N s \<and>
     ps_N s \<le> unat (buddy_of i k) \<longrightarrow> (\<exists>c \<in> A. blk c \<subseteq> blk (i, k)))"

text \<open>The only pair of free buddies is the one that contains block \<open>(i, k)\<close>.\<close>

definition only_buddies :: "nat \<Rightarrow> (nat \<Rightarrow> u32 list) \<Rightarrow> u32 \<Rightarrow> nat \<Rightarrow> bool" where
  "only_buddies m F i k \<longleftrightarrow> (\<forall>q < m. \<forall>j \<in> set (F q). buddy_of j q \<in> set (F q) \<longrightarrow>
     q = k \<and> (j = i \<or> buddy_of j q = i))"

lemma only_buddies_done:
  "only_buddies m F i k \<Longrightarrow> k = m \<or> buddy_of i k \<notin> set (F k) \<Longrightarrow> no_buddies m F"
  unfolding only_buddies_def no_buddies_def by (metis buddy_of_involution less_irrefl)

lemma only_buddies_push:
  "no_buddies m F \<Longrightarrow> only_buddies m (F(k := i # F k)) i k"
  unfolding only_buddies_def no_buddies_def by auto

lemma no_buddies_removed_pair:
  assumes "only_buddies m F i k" and "\<And>q. set (F' q) \<subseteq> set (F q)" and "i \<notin> set (F' k)"
  shows "no_buddies m F'"
  using assms unfolding only_buddies_def no_buddies_def by (metis subsetD)

lemma disjoint_free: "free_blocks F \<inter> A = {} \<Longrightarrow> i \<in> set (F k) \<Longrightarrow> (i, k) \<notin> A"
  by (auto simp: free_blocks_def)

lemma merge_once:
  assumes p: "pinv s F A" and i: "i \<in> set (F k)" and b: "buddy_of i k \<in> set (F k)" and k: "k < 32"
  defines "b \<equiv> buddy_of i k"
  defines "l \<equiv> (if i < b then i else b)"
  shows "\<exists>s1 s2 s3 s4 F'. remove_from_list i s = Inr s1 \<and> remove_from_list b s1 = Inr s2 \<and>
    upd_node l (set_order (k + 1)) s2 = Inr s3 \<and> push_to_list l s3 = Inr s4 \<and>
    pinv s4 F' A \<and> l \<in> set (F' (Suc k)) \<and> keeps UNIV s s4 \<and> (\<forall>q. q \<noteq> k \<longrightarrow> set (F q) \<subseteq> set (F' q)) \<and>
    (only_buddies (ps_MAX_ORDER s) F i k \<longrightarrow> only_buddies (ps_MAX_ORDER s) F' l (Suc k))"
proof -
  have inv: "linv s F" and tl: "tiling (ps_N s) (free_blocks F \<union> A)" and dj: "free_blocks F \<inter> A = {}"
    using p by (auto simp: pinv_def)
  have al: "2 ^ k dvd unat i" using tiling_wf [OF tl, of i k] i by simp
  note bc = buddy_cases [OF k al, folded b_def, folded l_def]
  let ?F1 = "F(k := remove1 i (F k))"
  obtain s1 where s1: "remove_from_list i s = Inr s1" "hole s1 ?F1 A i k" "keeps {} s s1" "orders_ok s1 A"
    using pinv_take [OF p i] by blast
  have inv1: "linv s1 ?F1" using s1(2) by (simp add: hole_def)
  have b1: "b \<in> set (?F1 k)" using b bc(4) linvD(4) [OF inv, of k] by (simp add: b_def)
  let ?F2 = "?F1(k := remove1 b (?F1 k))"
  obtain s2 where s2: "remove_from_list b s1 = Inr s2" "linv s2 ?F2" "keeps {} s1 s2"
    using remove_from_list_ok [OF inv1 b1] by blast
  have fb2: "free_blocks ?F2 = free_blocks F - {(i, k), (b, k)}"
    using free_blocks_remove [of ?F1 k b] free_blocks_remove [of F k i] linvD(4) [OF inv1] linvD(4) [OF inv]
    by auto
  have eq: "free_blocks F \<union> A = insert (i, k) (insert (b, k) (free_blocks ?F2 \<union> A))"
    unfolding fb2 using i b by (auto simp: b_def)
  have nin: "(i, k) \<notin> free_blocks ?F2 \<union> A" "(b, k) \<notin> free_blocks ?F2 \<union> A"
    unfolding fb2 using disjoint_free [OF dj i] disjoint_free [OF dj b] by (simp_all add: b_def)
  have dj2: "free_blocks ?F2 \<inter> A = {}" unfolding fb2 using dj by blast
  have N2: "ps_N s2 = ps_N s" using s1(3) s2(3) by (simp add: keeps_def)
  note tm = tiling_merge [OF tl [unfolded eq b_def] nin [unfolded b_def] k, folded b_def, folded l_def]
  have h2: "hole s2 ?F2 A l (Suc k)"
    unfolding hole_def N2 using s2(2) tm dj2 by simp
  note nl = hole_not_free [OF h2 blk_start]
  obtain s3 where s3: "upd_node l (set_order (k + 1)) s2 = Inr s3" "linv s3 ?F2" "keeps {l} s2 s3"
    "get_order (ps_nodes s3 l) = k + 1"
    using set_order_ok [OF s2(2) nl(2,1), of "k + 1"] k bc(1) by auto
  have h3: "hole s3 ?F2 A l (Suc k)" using h2 s3(2,3) by (simp add: hole_def keeps_def)
  have o3: "orders_ok s3 A"
    using orders_ok_keeps [OF orders_ok_keeps [OF s1(4) s2(3)] s3(3)] nl(4) by blast
  let ?F' = "?F2(Suc k := l # ?F2 (Suc k))"
  obtain s4 where s4: "push_to_list l s3 = Inr s4" "linv s4 ?F'" "keeps {} s3 s4"
    "tiling (ps_N s4) (free_blocks ?F' \<union> A)" "free_blocks ?F' \<inter> A = {}"
    using hole_push [OF h3] s3(4) by auto
  have "pinv s4 ?F' A" using s4 orders_ok_keeps [OF o3 s4(3)] by (simp add: pinv_def)
  moreover have "l \<in> set (?F' (Suc k))" "\<forall>q. q \<noteq> k \<longrightarrow> set (F q) \<subseteq> set (?F' q)" by auto
  moreover have "keeps UNIV s s4"
    using keeps_trans [OF s1(3) keeps_trans [OF s2(3) keeps_trans [OF s3(3) s4(3)]]] keeps_mono by blast
  moreover have "only_buddies (ps_MAX_ORDER s) ?F' l (Suc k)" if "only_buddies (ps_MAX_ORDER s) F i k"
  proof (rule only_buddies_push, rule no_buddies_removed_pair [OF that])
    show "set (?F2 q) \<subseteq> set (F q)" for q
      using set_remove1_subset [of b "?F1 k"] set_remove1_subset [of i "F k"] by auto
    show "i \<notin> set (?F2 k)" using nin(1) by simp
  qed
  ultimately show ?thesis using s1(1) s2(1) s3(1) s4(1) by blast
qed

lemma merge_loop_cases:
  assumes "pinv s F A" and "i \<in> set (F k)" and "ps_MAX_ORDER s - k < fuel"
    and "only_buddies (ps_MAX_ORDER s) F i k"
  shows "(\<exists>s' F'. merge_loop fuel i s = Inr s' \<and> pinv s' F' A \<and> keeps UNIV s s' \<and>
      no_buddies (ps_MAX_ORDER s) F') \<or> merge_loop fuel i s = Inl Fault \<and> \<not> rooted s A"
  using assms
proof (induction fuel arbitrary: s F i k)
  case (Suc fuel)
  let ?b = "buddy_of i k"
  have inv: "linv s F" and tl: "tiling (ps_N s) (free_blocks F \<union> A)" and dj: "free_blocks F \<inter> A = {}"
    using Suc.prems(1) by (auto simp: pinv_def)
  have iN: "unat i < ps_N s" "get_order (ps_nodes s i) = k" using linvD(6) [OF inv Suc.prems(2)] by auto
  have kM: "k \<le> ps_MAX_ORDER s" "k < 32"
    using linv_mem_le [OF inv Suc.prems(2)] linv_MAX_ORDER [OF inv] by auto
  consider "k = ps_MAX_ORDER s" | "k < ps_MAX_ORDER s" "\<not> unat ?b < ps_N s"
    | "k < ps_MAX_ORDER s" "unat ?b < ps_N s" "?b \<in> set (F k)"
    | "k < ps_MAX_ORDER s" "unat ?b < ps_N s" "?b \<notin> set (F k)"
    using kM(1) by linarith
  thus ?case
  proof cases
    case 1
    hence "merge_loop (Suc fuel) i s = Inr s" using iN by (simp add: get_node_def)
    thus ?thesis using Suc.prems(1,4) 1 only_buddies_done keeps_refl by blast
  next
    case 2
    have wi: "2 ^ k dvd unat i \<and> unat i + 2 ^ k \<le> ps_N s" using tiling_wf [OF tl, of i k] Suc.prems(2) by simp
    have "\<not> (\<exists>c \<in> A. blk c \<subseteq> blk (i, k))"
    proof
      assume "\<exists>c \<in> A. blk c \<subseteq> blk (i, k)"
      then obtain c where c: "c \<in> A" "blk c \<subseteq> blk (i, k)" by blast
      hence "c \<noteq> (i, k)" using disjoint_free [OF dj Suc.prems(2)] by auto
      hence "blk c \<inter> blk (i, k) = {}"
        using tl c(1) Suc.prems(2) by (auto simp: tiling_def disjoint_blocks_def)
      thus False using c(2) blk_nonempty [of c] by blast
    qed
    hence "\<not> rooted s A" using wi 2 unfolding rooted_def by (metis not_less)
    moreover have "merge_loop (Suc fuel) i s = Inl Fault" using iN 2 by (simp add: get_node_def Let_def)
    ultimately show ?thesis by blast
  next
    case 3
    let ?l = "if i < ?b then i else ?b"
    obtain s1 s2 s3 s4 F' where s: "remove_from_list i s = Inr s1" "remove_from_list ?b s1 = Inr s2"
      "upd_node ?l (set_order (k + 1)) s2 = Inr s3" "push_to_list ?l s3 = Inr s4" "pinv s4 F' A"
      "?l \<in> set (F' (Suc k))" "keeps UNIV s s4" "only_buddies (ps_MAX_ORDER s) F' ?l (Suc k)"
      using merge_once [OF Suc.prems(1,2) 3(3) kM(2)] Suc.prems(4) by blast
    have sz: "ps_MAX_ORDER s4 = ps_MAX_ORDER s" "ps_N s4 = ps_N s" using s(7) by (auto simp: keeps_def)
    have "(\<exists>s' F''. merge_loop fuel ?l s4 = Inr s' \<and> pinv s' F'' A \<and> keeps UNIV s4 s' \<and>
        no_buddies (ps_MAX_ORDER s4) F'') \<or> merge_loop fuel ?l s4 = Inl Fault \<and> \<not> rooted s4 A"
      using Suc.prems(3) 3(1) s(8) sz by (intro Suc.IH [OF s(5,6)]) auto
    moreover have "rooted s4 A = rooted s A" using sz by (simp add: rooted_def)
    moreover have "get_free (ps_nodes s ?b)" "get_order (ps_nodes s ?b) = k"
      using linvD(6) [OF inv 3(3)] by auto
    hence "merge_loop (Suc fuel) i s = merge_loop fuel ?l s4"
      using iN 3 s(1-4) by (simp add: get_node_def Let_def)
    ultimately show ?thesis using s(7) sz(1) keeps_trans [of UNIV s s4 UNIV] by auto
  next
    case 4
    hence "\<not> get_free (ps_nodes s ?b) \<or> get_order (ps_nodes s ?b) \<noteq> k" using linvD(7) [OF inv 4(2)] by auto
    hence "merge_loop (Suc fuel) i s = Inr s" using iN 4 by (simp add: get_node_def Let_def)
    thus ?thesis using Suc.prems(1,4) 4 only_buddies_done keeps_refl by blast
  qed
qed simp

lemma free_list_scan_ok:
  "dlseg (ps_nodes s) p j (x # xs) NULL_IDX \<Longrightarrow> \<forall>y \<in> set (x # xs). unat y < ps_N s \<Longrightarrow>
   length xs < fuel \<Longrightarrow> free_list_scan fuel s i j = Inr (i \<in> set (x # xs))"
proof (induction fuel arbitrary: p j x xs)
  case (Suc fuel)
  show ?case
  proof (cases xs)
    case Nil
    then show ?thesis using Suc.prems by (auto simp: get_node_def)
  next
    case (Cons y ys)
    hence "free_list_scan fuel s i (pn_next (ps_nodes s j)) = Inr (i \<in> set (y # ys))"
      using Suc.prems by (intro Suc.IH) auto
    then show ?thesis using Suc.prems Cons by (auto simp: get_node_def)
  qed
qed simp

lemma free_list_length: "linv s F \<Longrightarrow> length (F k) \<le> ps_N s"
proof -
  assume inv: "linv s F"
  have "inj_on unat (set (F k))" by (rule inj_onI) (simp add: word_unat_eq_iff)
  hence "card (unat ` set (F k)) = length (F k)"
    using linvD(4) [OF inv, of k] by (simp add: card_image distinct_card)
  moreover have "unat ` set (F k) \<subseteq> {..<ps_N s}" using linvD(6) [OF inv] by auto
  ultimately show ?thesis using card_mono [of "{..<ps_N s}" "unat ` set (F k)"] by simp
qed

lemma is_in_order_free_list_ok:
  assumes inv: "linv s F" and k: "k \<le> ps_MAX_ORDER s"
  shows "is_in_order_free_list s i k = Inr (i \<in> set (F k))"
proof (cases "F k")
  case Nil
  then show ?thesis using linv_head [OF inv k] k by (simp add: is_in_order_free_list_def get_head_def)
next
  case (Cons x xs)
  have d: "dlseg (ps_nodes s) NULL_IDX (ps_free_lists s k) (x # xs) NULL_IDX"
    using linvD(3) [OF inv k] Cons by simp
  have "free_list_scan (ps_N s) s i (ps_free_lists s k) = Inr (i \<in> set (x # xs))"
    using free_list_length [OF inv, of k] linvD(6) [OF inv, of _ k] Cons
    by (intro free_list_scan_ok [OF d]) auto
  moreover have "ps_free_lists s k \<noteq> NULL_IDX" using d by simp
  ultimately show ?thesis using Cons k by (simp add: is_in_order_free_list_def get_head_def)
qed

lemma parent_mask: "parent_at_order i t = i AND NOT (mask t)"
  by (simp add: parent_at_order_def push_bit_one_exp exp_minus_one_mask)

lemma parent_parent: "t \<le> u \<Longrightarrow> parent_at_order (parent_at_order i t) u = parent_at_order i u"
  unfolding parent_mask by (rule bit_word_eqI) (auto simp: bit_simps)

lemma unat_parent: "unat (parent_at_order i t) = unat i - unat i mod 2 ^ t"
  unfolding parent_mask by (rule unat_and_not_mask)

lemma parent_blk: "unat i \<in> blk (parent_at_order i t, t)"
proof -
  have "unat i mod 2 ^ t < 2 ^ t" by simp
  moreover have "unat i mod 2 ^ t \<le> unat i" by simp
  ultimately show ?thesis unfolding blk_def fst_conv snd_conv unat_parent atLeastLessThan_iff by linarith
qed

lemma parent_of_blk:
  assumes "2 ^ k dvd unat j" and "unat i \<in> blk (j, k)"
  shows "parent_at_order i k = j"
proof -
  obtain q where q: "unat j = 2 ^ k * q" using assms(1) by blast
  obtain r where r: "unat i = unat j + r" "r < 2 ^ k"
    using assms(2) unfolding blk_def by (auto dest!: le_Suc_ex)
  have "unat i mod 2 ^ k = r" using q r by simp
  thus ?thesis unfolding word_unat_eq_iff unat_parent using r by simp
qed

lemma inner_loop_ok:
  assumes "linv s F" and "sorted ts" and "\<forall>t \<in> set ts. t \<le> ps_MAX_ORDER s"
  shows "inner_loop s i ts = Inr (\<exists>t \<in> set ts. parent_at_order i t \<in> set (F t))"
  using assms(2,3)
proof (induction ts arbitrary: i)
  case (Cons t ts)
  have "inner_loop s (parent_at_order i t) ts =
      Inr (\<exists>u \<in> set ts. parent_at_order (parent_at_order i t) u \<in> set (F u))"
    using Cons by auto
  also have "(\<exists>u \<in> set ts. parent_at_order (parent_at_order i t) u \<in> set (F u)) \<longleftrightarrow>
      (\<exists>u \<in> set ts. parent_at_order i u \<in> set (F u))"
    using Cons.prems(1) by (auto simp: parent_parent)
  finally show ?case using is_in_order_free_list_ok [OF assms(1)] Cons.prems(2) by (simp add: Let_def)
qed simp

lemma is_inner_idx_ok:
  assumes "linv s F" and "unat i < ps_N s"
  shows "is_inner_idx s i = Inr (\<exists>t. get_order (ps_nodes s i) < t \<and> t \<le> ps_MAX_ORDER s \<and>
    parent_at_order i t \<in> set (F t))"
proof -
  have "inner_loop s i [Suc (get_order (ps_nodes s i)) ..< Suc (ps_MAX_ORDER s)] =
      Inr (\<exists>t \<in> set [Suc (get_order (ps_nodes s i)) ..< Suc (ps_MAX_ORDER s)].
        parent_at_order i t \<in> set (F t))"
    by (rule inner_loop_ok [OF assms(1)]) (auto simp del: upt_Suc)
  moreover have "(\<exists>t \<in> set [Suc a ..< Suc m]. P t) \<longleftrightarrow> (\<exists>t. a < t \<and> t \<le> m \<and> P t)" for a m P
    by (auto simp: Suc_le_eq less_Suc_eq_le simp del: upt_Suc)
  ultimately show ?thesis using assms(2) by (simp add: is_inner_idx_def get_node_def del: upt_Suc)
qed

text \<open>\<open>is_inner_idx\<close> recognises exactly the pages strictly inside of a free block.\<close>

lemma is_inner_idx_pinv:
  assumes p: "pinv s F A" and i: "unat i < ps_N s"
  shows "is_inner_idx s i = Inr (\<exists>j k. j \<in> set (F k) \<and> j \<noteq> i \<and> unat i \<in> blk (j, k))"
proof -
  have inv: "linv s F" and tl: "tiling (ps_N s) (free_blocks F \<union> A)" using p by (auto simp: pinv_def)
  let ?o = "get_order (ps_nodes s i)"
  have "(\<exists>t. ?o < t \<and> t \<le> ps_MAX_ORDER s \<and> parent_at_order i t \<in> set (F t)) \<longleftrightarrow>
      (\<exists>j k. j \<in> set (F k) \<and> j \<noteq> i \<and> unat i \<in> blk (j, k))" (is "?L \<longleftrightarrow> ?R")
  proof
    assume ?L
    then obtain t where t: "?o < t" "parent_at_order i t \<in> set (F t)" by blast
    have "parent_at_order i t \<noteq> i" using t linvD(6) [OF inv t(2)] by auto
    thus ?R using t parent_blk by blast
  next
    assume ?R
    then obtain j k where j: "j \<in> set (F k)" "j \<noteq> i" "unat i \<in> blk (j, k)" by blast
    have al: "2 ^ k dvd unat j" using tiling_wf [OF tl, of j k] j(1) by simp
    hence pj: "parent_at_order i k = j" using j(3) by (rule parent_of_blk)
    have "?o < k"
    proof (rule ccontr)
      assume "\<not> ?o < k"
      hence "(2 :: nat) ^ k dvd 2 ^ ?o" by (simp add: le_imp_power_dvd)
      hence "2 ^ k dvd unat i" using linvD(9) [OF inv i] dvd_trans by blast
      hence "unat (parent_at_order i k) = unat i" by (simp add: unat_parent)
      thus False using pj j(2) by (simp add: word_unat_eq_iff)
    qed
    thus ?L using pj j(1) linv_mem_le [OF inv j(1)] by blast
  qed
  thus ?thesis using is_inner_idx_ok [OF inv i] by simp
qed

lemma page_idx_page: "page_idx (ucast i * PAGE_SIZE) = i"
proof -
  have i: "unat i < 2 ^ 32" using unsigned_less [of i] by simp
  hence "unat (ucast i * PAGE_SIZE :: u64) = unat i * 4096"
    by (simp add: PAGE_SIZE_def unat_word_ariths unsigned_ucast_eq take_bit_nat_eq_self)
  hence "unat ((ucast i * PAGE_SIZE :: u64) div PAGE_SIZE) = unat i"
    by (simp add: unat_div PAGE_SIZE_def)
  thus ?thesis using i
    by (simp add: page_idx_def word_unat_eq_iff unsigned_ucast_eq take_bit_nat_eq_self)
qed

text \<open>On a power-of-two number of pages no block lacks its buddy.\<close>

lemma rooted_pow2:
  assumes "ps_N s = 2 ^ ps_MAX_ORDER s"
  shows "rooted s A"
proof -
  have "unat (buddy_of i k) < ps_N s"
    if "k < ps_MAX_ORDER s" "unat i + 2 ^ k \<le> ps_N s" for i k
  proof -
    have "unat i < 2 ^ ps_MAX_ORDER s"
      using that(2) assms zero_less_power [of "2 :: nat" k] by linarith
    hence "take_bit (ps_MAX_ORDER s) i = i"
      by (simp add: word_unat_eq_iff unsigned_take_bit_eq take_bit_nat_eq_self)
    moreover have "take_bit (ps_MAX_ORDER s) (2 ^ k :: u32) = 2 ^ k"
      using that(1) by (intro bit_word_eqI) (auto simp: bit_simps)
    ultimately have "take_bit (ps_MAX_ORDER s) (buddy_of i k) = buddy_of i k"
      by (simp add: buddy_of_def push_bit_one_exp take_bit_xor)
    hence "take_bit (ps_MAX_ORDER s) (unat (buddy_of i k)) = unat (buddy_of i k)"
      by (metis unsigned_take_bit_eq)
    thus ?thesis by (simp add: take_bit_nat_eq_self_iff assms)
  qed
  thus ?thesis unfolding rooted_def by (meson not_less)
qed

lemma page_free_start:
  assumes p: "pinv s F A" and ik: "(i, k) \<in> A" and np: "\<not> pd_permanent (pn_page (ps_nodes s i))"
  shows "\<exists>t. page_free (ucast i * PAGE_SIZE) s = try_merge i t \<and>
    pinv t (F(k := i # F k)) (A - {(i, k)}) \<and> keeps {} s t"
proof -
  have inv: "linv s F" and tl: "tiling (ps_N s) (free_blocks F \<union> A)" and dj: "free_blocks F \<inter> A = {}"
    and ord: "orders_ok s A" using p by (auto simp: pinv_def)
  let ?A = "A - {(i, k)}"
  have eq: "insert (i, k) (free_blocks F \<union> ?A) = free_blocks F \<union> A" using ik by blast
  have h: "hole s F ?A i k" unfolding hole_def eq using inv tl dj ik by blast
  have o: "get_order (ps_nodes s i) = k" and oA: "orders_ok s ?A"
    using ord ik by (auto simp: orders_ok_def)
  note nf = hole_not_free [OF h blk_start]
  have "\<not> (\<exists>j q. j \<in> set (F q) \<and> j \<noteq> i \<and> unat i \<in> blk (j, q))"
    using tiling_overlap [OF tl _ _ _ blk_start [of i k]] ik by fastforce
  hence inner: "is_inner_idx s i = Inr False" using is_inner_idx_pinv [OF p nf(2)] by simp
  obtain t where t: "push_to_list i s = Inr t" "linv t (F(k := i # F k))" "keeps {} s t"
    "tiling (ps_N t) (free_blocks (F(k := i # F k)) \<union> ?A)" "free_blocks (F(k := i # F k)) \<inter> ?A = {}"
    using hole_push [OF h o] by blast
  have "page_free (ucast i * PAGE_SIZE) s = try_merge i t"
    using np nf inner t(1) by (simp add: page_free_def page_idx_page get_node_def)
  thus ?thesis using t orders_ok_keeps [OF oA t(3)] by (auto simp: pinv_def)
qed

lemma page_free_cases:
  assumes "pinv s F A" and "(i, k) \<in> A" and "\<not> pd_permanent (pn_page (ps_nodes s i))"
    and "no_buddies (ps_MAX_ORDER s) F"
  shows "(\<exists>s' F'. page_free (ucast i * PAGE_SIZE) s = Inr s' \<and> pinv s' F' (A - {(i, k)}) \<and>
      no_buddies (ps_MAX_ORDER s) F' \<and> keeps UNIV s s') \<or>
    page_free (ucast i * PAGE_SIZE) s = Inl Fault \<and> \<not> rooted s (A - {(i, k)})"
proof -
  let ?A = "A - {(i, k)}" and ?F = "F(k := i # F k)"
  obtain t where t: "page_free (ucast i * PAGE_SIZE) s = try_merge i t" "pinv t ?F ?A" "keeps {} s t"
    using page_free_start [OF assms(1-3)] by blast
  have sz: "ps_MAX_ORDER t = ps_MAX_ORDER s" "ps_N t = ps_N s" using t(3) by (auto simp: keeps_def)
  have "only_buddies (ps_MAX_ORDER t) ?F i k" using only_buddies_push [OF assms(4)] sz by simp
  hence "(\<exists>s' F'. merge_loop (Suc (ps_MAX_ORDER t)) i t = Inr s' \<and> pinv s' F' ?A \<and>
      keeps UNIV t s' \<and> no_buddies (ps_MAX_ORDER t) F') \<or>
      merge_loop (Suc (ps_MAX_ORDER t)) i t = Inl Fault \<and> \<not> rooted t ?A"
    by (intro merge_loop_cases [OF t(2)]) simp_all
  moreover have "rooted t ?A = rooted s ?A" using sz by (simp add: rooted_def)
  ultimately show ?thesis
    using t(1) sz(1) keeps_trans [OF t(3), of UNIV] by (auto simp: try_merge_def)
qed

text \<open>Property C2: releasing an allocated, non-permanent block succeeds (the merge loop ends within
  its bound and stays inside of the page array as long as every block without a buddy in range
  keeps another allocation); the block leaves the allocated set, no page data changes, and the
  allocator is again fully coalesced.\<close>
theorem page_free_spec:
  assumes "pinv s F A" and "(i, k) \<in> A" and "\<not> pd_permanent (pn_page (ps_nodes s i))"
    and "rooted s (A - {(i, k)})" and "no_buddies (ps_MAX_ORDER s) F"
  shows "\<exists>s' F'. page_free (ucast i * PAGE_SIZE) s = Inr s' \<and> pinv s' F' (A - {(i, k)}) \<and>
    no_buddies (ps_MAX_ORDER s) F' \<and> (\<forall>j. pn_page (ps_nodes s' j) = pn_page (ps_nodes s j))"
  using page_free_cases [OF assms(1-3,5)] assms(4) by (auto simp: keeps_def)

text \<open>Property C5: \<open>page_free\<close> rejects, by a panic and without touching the state, a permanent
  block, a page that starts a free block, and every page strictly inside of a free block.\<close>
theorem page_free_rejects:
  assumes "pinv s F A" and "unat i < ps_N s"
  shows "(pd_permanent (pn_page (ps_nodes s i)) \<longrightarrow> page_free (ucast i * PAGE_SIZE) s =
      Inl (Panic ''page_free: cannot free a permanent region'')) \<and>
    (\<not> pd_permanent (pn_page (ps_nodes s i)) \<and> i \<in> set (F k) \<longrightarrow>
      page_free (ucast i * PAGE_SIZE) s = Inl (Panic ''page_free: double free'')) \<and>
    (\<not> pd_permanent (pn_page (ps_nodes s i)) \<and> j \<in> set (F k) \<and> j \<noteq> i \<and> unat i \<in> blk (j, k) \<longrightarrow>
      page_free (ucast i * PAGE_SIZE) s = Inl (Panic ''page_free: invalid pa provided''))"
proof (intro conjI impI)
  have inv: "linv s F" and tl: "tiling (ps_N s) (free_blocks F \<union> A)"
    using assms(1) by (auto simp: pinv_def)
  note run = page_free_def page_idx_page get_node_def
  show "pd_permanent (pn_page (ps_nodes s i)) \<Longrightarrow> page_free (ucast i * PAGE_SIZE) s =
      Inl (Panic ''page_free: cannot free a permanent region'')"
    using assms(2) by (simp add: run)
  show "\<not> pd_permanent (pn_page (ps_nodes s i)) \<and> i \<in> set (F k) \<Longrightarrow>
      page_free (ucast i * PAGE_SIZE) s = Inl (Panic ''page_free: double free'')"
    using assms(2) linvD(6) [OF inv, of i k] by (simp add: run)
  assume a: "\<not> pd_permanent (pn_page (ps_nodes s i)) \<and> j \<in> set (F k) \<and> j \<noteq> i \<and> unat i \<in> blk (j, k)"
  have "i \<notin> set (F q)" for q
  proof
    assume "i \<in> set (F q)"
    hence "(i, q) = (j, k)" using tiling_overlap [OF tl _ _ blk_start [of i q], of "(j, k)"] a by simp
    thus False using a by simp
  qed
  hence "\<not> get_free (ps_nodes s i)" using linv_free_iff [OF inv assms(2)] by simp
  moreover have "is_inner_idx s i = Inr True" using is_inner_idx_pinv [OF assms] a by auto
  ultimately show "page_free (ucast i * PAGE_SIZE) s = Inl (Panic ''page_free: invalid pa provided'')"
    using a assms(2) by (simp add: run)
qed

section \<open>Reservation of given ranges\<close>
lemma parent_aligned: "2 ^ t dvd unat (parent_at_order i t)"
  unfolding unat_parent by (metis dvd_minus_mod)

text \<open>The search finds the one free block that holds the page, if there is one.\<close>

lemma reserve_find_ok:
  assumes p: "pinv s F A" and i: "unat i < ps_N s"
  shows "reserve_find i ks s =
    (if \<exists>k \<in> set ks. parent_at_order i k \<in> set (F k)
     then Inr (THE b. b \<in> free_blocks F \<and> unat i \<in> blk b)
     else Inl (Panic ''double reservation''))"
proof -
  have inv: "linv s F" and tl: "tiling (ps_N s) (free_blocks F \<union> A)" using p by (auto simp: pinv_def)
  have the: "(THE b. b \<in> free_blocks F \<and> unat i \<in> blk b) = (parent_at_order i k, k)"
    if "parent_at_order i k \<in> set (F k)" for k
  proof (rule the_equality)
    fix b assume "b \<in> free_blocks F \<and> unat i \<in> blk b"
    thus "b = (parent_at_order i k, k)"
      using tiling_overlap [OF tl, of b "(parent_at_order i k, k)" "unat i"] that parent_blk [of i k] by simp
  qed (use that parent_blk in simp)
  show ?thesis
  proof (induction ks)
    case (Cons q ks)
    let ?p = "parent_at_order i q"
    have pN: "unat ?p < ps_N s" using i unat_parent [of i q] by linarith
    have "get_free (ps_nodes s ?p) \<and> get_order (ps_nodes s ?p) = q \<longleftrightarrow> ?p \<in> set (F q)"
      using linvD(7) [OF inv pN] linvD(6) [OF inv, of ?p q] by auto
    thus ?case using Cons the [of q] pN by (cases "?p \<in> set (F q)") (auto simp: get_node_def Let_def)
  qed simp
qed

lemma reserve_split_ok:
  assumes "hole s F A cur k" and "ord \<le> k" and "2 ^ ord dvd unat i" and "unat i \<in> blk (cur, k)"
  shows "\<exists>s' F'. reserve_split i ord cur k s = Inr (s', i) \<and> hole s' F' A i ord \<and>
    keeps (insert cur (interior cur k)) s s' \<and>
    (no_buddies (ps_MAX_ORDER s) F \<longrightarrow> no_buddies (ps_MAX_ORDER s) F')"
  using assms
proof (induction k arbitrary: s F cur)
  case 0
  hence "cur = i" by (simp add: blk_def word_unat_eq_iff)
  then show ?case using 0 by auto
next
  case (Suc k)
  have h: "linv s F" "tiling (ps_N s) (insert (cur, Suc k) (free_blocks F \<union> A))"
    using Suc.prems(1) by (auto simp: hole_def)
  have al: "2 ^ Suc k dvd unat cur" using tiling_wf [OF h(2), of cur "Suc k"] by blast
  show ?case
  proof (cases "ord = Suc k")
    case True
    have "unat cur = unat i"
      using parent_of_blk [OF al Suc.prems(4)] Suc.prems(3) True unat_parent [of i "Suc k"]
      by (simp add: mod_eq_0_iff_dvd)
    hence "cur = i" by (simp add: word_unat_eq_iff)
    then show ?thesis using Suc.prems True by auto
  next
    case False
    have k: "k < 32" using tiling_order_less [OF h(2) _ linvD(1) [OF h(1)]] by fastforce
    let ?r = "cur + push_bit k 1"
    have ub: "unat (buddy_of cur k) = unat cur + 2 ^ k" by (rule buddy_left [OF k al])
    hence "unat cur + 2 ^ k < 2 ^ 32"
      using unsigned_less [of "buddy_of cur k", where 'a = nat] by simp
    hence "unat ?r = unat cur + 2 ^ k" using k by (simp add: push_bit_one_exp unat_word_ariths unat_exp)
    hence r: "?r = buddy_of cur k" using ub by (simp add: word_unat_eq_iff)
    have ne: "cur \<noteq> ?r" using ub r by (auto simp: word_unat_eq_iff)
    define j b where "j = (if i < ?r then cur else ?r)" and "b = (if i < ?r then ?r else cur)"
    have jb: "{j, b} = {cur, buddy_of cur k}" "j \<noteq> b" using r ne by (auto simp: j_def b_def)
    obtain u v where u: "upd_node b (set_order k) s = Inr u" "push_to_list b u = Inr v"
      "hole v (F(k := b # F k)) A j k" "keeps {b} s v"
      "no_buddies (ps_MAX_ORDER s) F \<longrightarrow> no_buddies (ps_MAX_ORDER s) (F(k := b # F k))"
      using hole_halve [OF Suc.prems(1) jb] by blast
    have ij: "unat i \<in> blk (j, k)"
      using Suc.prems(4) ub r by (auto simp: j_def blk_def word_less_nat_alt)
    have ok: "ord \<le> k" using Suc.prems(2) False by simp
    obtain s' F' where s': "reserve_split i ord j k v = Inr (s', i)" "hole s' F' A i ord"
      "keeps (insert j (interior j k)) v s'"
      "no_buddies (ps_MAX_ORDER v) (F(k := b # F k)) \<longrightarrow> no_buddies (ps_MAX_ORDER v) F'"
      using Suc.IH [OF u(3) ok Suc.prems(3) ij] by blast
    have run: "reserve_split i ord cur (Suc k) s = Inr (s', i)"
      using u(1,2) s'(1) ok by (auto simp: j_def b_def Let_def)
    have "{b} \<union> insert j (interior j k) \<subseteq> insert cur (interior cur (Suc k))"
      using ub r by (auto simp: j_def b_def interior_def)
    hence "keeps (insert cur (interior cur (Suc k))) s s'"
      using keeps_mono [OF keeps_trans [OF u(4) s'(3)]] by blast
    moreover have "ps_MAX_ORDER v = ps_MAX_ORDER s" using u(4) by (simp add: keeps_def)
    ultimately show ?thesis
      unfolding run using s'(2,4) u(5) by (intro exI [of _ s'] exI [of _ F']) simp
  qed
qed

lemma aligned_mask_zero: "2 ^ ord dvd unat i \<Longrightarrow> (i AND (push_bit ord 1 - 1)) = (0 :: u32)"
  unfolding push_bit_one_exp exp_minus_one_mask word_unat_eq_iff unat_and_mask
  by (simp add: mod_eq_0_iff_dvd)

lemma reserve_ok:
  assumes p: "pinv s F A" and al: "2 ^ ord dvd unat i" and j: "j \<in> set (F k)" and ok: "ord \<le> k"
    and ij: "unat i \<in> blk (j, k)"
  shows "\<exists>s' F'. reserve i ord s = Inr s' \<and> pinv s' F' (insert (i, ord) A) \<and> (i, ord) \<notin> A \<and>
    keeps UNIV s s' \<and> (no_buddies (ps_MAX_ORDER s) F \<longrightarrow> no_buddies (ps_MAX_ORDER s) F')"
proof -
  have inv: "linv s F" and tl: "tiling (ps_N s) (free_blocks F \<union> A)" using p by (auto simp: pinv_def)
  have wj: "2 ^ k dvd unat j" "unat j + 2 ^ k \<le> ps_N s" using tiling_wf [OF tl, of j k] j by auto
  have iN: "unat i < ps_N s" using ij wj(2) by (simp add: blk_def)
  have pk: "parent_at_order i k = j" using parent_of_blk [OF wj(1) ij] .
  have kM: "k \<le> ps_MAX_ORDER s" "k < 32" using linv_mem_le [OF inv j] linv_MAX_ORDER [OF inv] by auto
  have "(THE b. b \<in> free_blocks F \<and> unat i \<in> blk b) = (j, k)"
  proof (rule the_equality)
    show "(j, k) \<in> free_blocks F \<and> unat i \<in> blk (j, k)" using j ij by simp
    fix b assume "b \<in> free_blocks F \<and> unat i \<in> blk b"
    thus "b = (j, k)" using tiling_overlap [OF tl, of b "(j, k)" "unat i"] j ij by simp
  qed
  moreover have "\<exists>k \<in> set [ord ..< Suc (ps_MAX_ORDER s)]. parent_at_order i k \<in> set (F k)"
    using pk j ok kM(1) by (intro bexI [of _ k]) (auto simp del: upt_Suc)
  ultimately have f: "reserve_find i [ord ..< Suc (ps_MAX_ORDER s)] s = Inr (j, k)"
    using reserve_find_ok [OF p iN] by (simp del: upt_Suc)
  obtain u where u: "remove_from_list j s = Inr u" "hole u (F(k := remove1 j (F k))) A j k"
    "keeps {} s u" "orders_ok u A" using pinv_take [OF p j] by blast
  obtain v F' where v: "reserve_split i ord j k u = Inr (v, i)" "hole v F' A i ord"
    "keeps (insert j (interior j k)) u v"
    "no_buddies (ps_MAX_ORDER u) (F(k := remove1 j (F k))) \<longrightarrow> no_buddies (ps_MAX_ORDER u) F'"
    using reserve_split_ok [OF u(2) ok al ij] by blast
  have ov: "orders_ok v A"
  proof (rule orders_ok_keeps [OF u(4) v(3)])
    fix x q assume "(x, q) \<in> A"
    hence "unat x \<notin> blk (j, k)" using hole_not_free(4) [OF u(2)] by blast
    thus "x \<notin> insert j (interior j k)" by (auto simp: interior_def blk_def)
  qed
  note nf = hole_not_free [OF v(2) blk_start]
  have invv: "linv v F'" using v(2) by (simp add: hole_def)
  obtain w where w: "upd_node i (set_order ord) v = Inr w" "linv w F'" "keeps {i} v w"
    "get_order (ps_nodes w i) = ord"
    using set_order_ok [OF invv nf(2,1) _ al] ok kM(2) by auto
  have "hole w F' A i ord" using v(2) w(2,3) by (simp add: hole_def keeps_def)
  moreover have "orders_ok w A" using orders_ok_keeps [OF ov w(3)] nf(4) by blast
  ultimately have "pinv w F' (insert (i, ord) A)" using hole_fill w(4) by blast
  moreover have "reserve i ord s = Inr w"
    using f u(1) v(1) w(1) aligned_mask_zero [OF al] by (simp add: reserve_def del: upt_Suc)
  moreover have "keeps UNIV s w"
    by (rule keeps_mono [OF keeps_trans [OF u(3) keeps_trans [OF v(3) w(3)]]]) simp
  moreover have "ps_MAX_ORDER u = ps_MAX_ORDER s" using u(3) by (simp add: keeps_def)
  ultimately show ?thesis
    using v(4) no_buddies_remove [of "ps_MAX_ORDER s" F k j] nf(4)
    by (intro exI [of _ w] exI [of _ F']) simp
qed

text \<open>Property C6: \<open>reserve\<close> carves exactly the requested aligned range out of the free block that
  holds it, and panics if no free block of at least that order does.\<close>
theorem reserve_spec:
  assumes "pinv s F A" and "2 ^ ord dvd unat i" and "unat i < ps_N s"
  shows "if \<exists>j k. j \<in> set (F k) \<and> ord \<le> k \<and> unat i \<in> blk (j, k)
    then \<exists>s' F'. reserve i ord s = Inr s' \<and> pinv s' F' (insert (i, ord) A) \<and> (i, ord) \<notin> A \<and>
      (\<forall>j. pn_page (ps_nodes s' j) = pn_page (ps_nodes s j))
    else reserve i ord s = Inl (Panic ''double reservation'')"
proof (cases "\<exists>j k. j \<in> set (F k) \<and> ord \<le> k \<and> unat i \<in> blk (j, k)")
  case True
  then obtain j k where jk: "j \<in> set (F k)" "ord \<le> k" "unat i \<in> blk (j, k)" by blast
  obtain s' F' where "reserve i ord s = Inr s'" "pinv s' F' (insert (i, ord) A)" "(i, ord) \<notin> A"
    "keeps UNIV s s'" using reserve_ok [OF assms(1,2) jk] by blast
  then show ?thesis
    unfolding if_P [OF True] by (intro exI [of _ s'] exI [of _ F']) (simp add: keeps_def)
next
  case False
  have "\<not> (\<exists>k \<in> set [ord ..< Suc (ps_MAX_ORDER s)]. parent_at_order i k \<in> set (F k))"
  proof
    assume "\<exists>k \<in> set [ord ..< Suc (ps_MAX_ORDER s)]. parent_at_order i k \<in> set (F k)"
    then obtain k where "ord \<le> k" "parent_at_order i k \<in> set (F k)" by (auto simp del: upt_Suc)
    thus False using False parent_blk [of i k] by blast
  qed
  thus ?thesis
    unfolding if_not_P [OF False] using reserve_find_ok [OF assms(1,3)] aligned_mask_zero [OF assms(2)]
    by (simp add: reserve_def del: upt_Suc)
qed

section \<open>Initialisation\<close>

definition empty_state :: "nat \<Rightarrow> nat \<Rightarrow> page_state" where
  "empty_state n m = \<lparr>ps_N = n, ps_MAX_ORDER = m, ps_nodes = (\<lambda>_. empty_node),
     ps_free_lists = (\<lambda>_. NULL_IDX)\<rparr>"

lemma empty_node_data [simp]: "get_order empty_node = 0" "\<not> get_free empty_node"
  "pn_next empty_node = NULL_IDX" "pn_prev empty_node = NULL_IDX"
  by (simp_all add: empty_node_def get_order_def get_free_def)

lemma empty_state_linv:
  "n < 2 ^ 32 \<Longrightarrow> 2 ^ m \<le> n \<Longrightarrow> n < 2 ^ Suc m \<Longrightarrow> linv (empty_state n m) (\<lambda>_. [])"
  by (rule linvI) (simp_all add: empty_state_def)

lemma tiling_extend:
  assumes "tiling n B" and "unat i = n" and "2 ^ k dvd n"
  shows "tiling (n + 2 ^ k) (insert (i, k) B)" and "(i, q) \<notin> B"
proof -
  have d: "blk (i, k) \<inter> blk b = {}" if "b \<in> B" for b
  proof -
    have "blk b \<subseteq> {..<n}" using assms(1) that by (auto simp: tiling_def)
    moreover have "blk (i, k) \<inter> {..<n} = {}" using assms(2) by (auto simp: blk_def)
    ultimately show ?thesis by blast
  qed
  have "(\<Union>b \<in> insert (i, k) B. blk b) = {..<n + 2 ^ k}"
    using assms(1,2) by (auto simp: tiling_def blk_def)
  moreover have "disjoint_blocks (insert (i, k) B)"
    using assms(1) d unfolding tiling_def disjoint_blocks_def by (auto simp: Int_commute)
  moreover have "\<forall>b \<in> insert (i, k) B. wf_block (n + 2 ^ k) b"
    using assms by (auto simp: tiling_def wf_block_def intro: trans_le_add1)
  ultimately show "tiling (n + 2 ^ k) (insert (i, k) B)" by (simp add: tiling_def)
  show "(i, q) \<notin> B"
  proof
    assume "(i, q) \<in> B"
    hence "unat i \<in> (\<Union>b \<in> B. blk b)" using blk_start by blast
    also have "(\<Union>b \<in> B. blk b) = {..<n}" using assms(1) by (simp add: tiling_def)
    finally show False using assms(2) by simp
  qed
qed

lemma init_blocks_ok:
  assumes "linv s F" and "tiling (unat i) (free_blocks F)" and "unat i + unat r = ps_N s"
    and "unat r < 2 ^ m" and "2 ^ m dvd unat i" and "\<forall>q < m. F q = []"
    and "no_buddies (ps_MAX_ORDER s) F"
  shows "\<exists>s' F'. init_blocks i r s = Inr s' \<and> pinv s' F' {} \<and> keeps UNIV s s' \<and>
    no_buddies (ps_MAX_ORDER s) F'"
  using assms
proof (induction i r s arbitrary: F m rule: init_blocks.induct)
  case (1 i r s)
  show ?case
  proof (cases "r = 0")
    case True
    hence "init_blocks i r s = Inr s" by (subst init_blocks.simps) simp
    then show ?thesis
      using "1.prems" True by (intro exI [of _ s] exI [of _ F]) (simp add: pinv_def orders_ok_def)
  next
    case False
    define k where "k = unat (log2_floor_u64 r)"
    note lb = log2_floor_u64_bounds [OF False, folded k_def]
    have k: "word_of_nat k = log2_floor_u64 r" by (simp add: k_def)
    note um = unat_minus_log2_floor [OF False, of k, unfolded k, folded k_def, OF order_refl]
    have "(2 :: nat) ^ k < 2 ^ m" using lb(1) "1.prems"(4) by linarith
    hence km: "k < m" by (rule power_less_imp_less_exp [rotated]) simp
    have ki: "2 ^ k dvd unat i" using km by (intro power_le_dvd [OF "1.prems"(5)]) simp
    have iN: "unat i + 2 ^ k \<le> ps_N s" using "1.prems"(3) lb(1) by linarith
    have N: "ps_N s < 2 ^ 32" using linvD(1) [OF "1.prems"(1)] .
    let ?i = "ucast i :: u32"
    have ui: "unat ?i = unat i"
      using iN N zero_less_power [of "2 :: nat" k] by (simp add: unsigned_ucast_eq take_bit_nat_eq_self)
    have "(2 :: nat) ^ k < 2 ^ Suc (ps_MAX_ORDER s)" using iN linvD(10) [OF "1.prems"(1)] by linarith
    hence kM: "k \<le> ps_MAX_ORDER s" by (simp add: power_less_imp_less_exp less_Suc_eq_le del: power_Suc)
    have k32: "k < 32" using kM linv_MAX_ORDER [OF "1.prems"(1)] by simp
    note te = tiling_extend [OF "1.prems"(2) ui ki]
    have iN': "unat ?i < ps_N s" using ui iN zero_less_power [of "2 :: nat" k] by linarith
    have nf: "\<not> get_free (ps_nodes s ?i)" using linv_free_iff [OF "1.prems"(1) iN'] te(2) by auto
    obtain u where u: "upd_node ?i (set_order k) s = Inr u" "linv u F" "keeps {?i} s u"
      "get_order (ps_nodes u ?i) = k" "\<not> get_free (ps_nodes u ?i)"
      using set_order_ok [OF "1.prems"(1) iN' nf, of k] ki ui k32 by auto
    let ?F = "F(k := ?i # F k)"
    have "unat ?i < ps_N u" "k \<le> ps_MAX_ORDER u" using iN' kM u(3) by (simp_all add: keeps_def)
    then obtain v where v: "push_to_list ?i u = Inr v" "linv v ?F" "keeps {} u v"
      using push_to_list_ok [OF u(2) _ u(5,4)] by blast
    have sz: "ps_N v = ps_N s" "ps_MAX_ORDER v = ps_MAX_ORDER s" using u(3) v(3) by (simp_all add: keeps_def)
    let ?i' = "i + power_of2 (log2_floor_u64 r)" and ?r' = "r - power_of2 (log2_floor_u64 r)"
    have i': "unat ?i' = unat i + 2 ^ k"
      using iN N um(3) by (simp add: unat_word_ariths)
    have nb: "no_buddies (ps_MAX_ORDER v) ?F"
      using "1.prems"(6,7) km sz(2) buddy_cases(4) [OF k32, of ?i] ki ui
      unfolding no_buddies_def by auto
    have "\<exists>s' F'. init_blocks ?i' ?r' v = Inr s' \<and> pinv s' F' {} \<and> keeps UNIV v s' \<and>
        no_buddies (ps_MAX_ORDER v) F'"
    proof (rule "1.IH" [OF False refl u(1) [unfolded k_def] v(1,2), of k])
      show "tiling (unat ?i') (free_blocks ?F)" unfolding i' free_blocks_push using te(1) .
      show "unat ?i' + unat ?r' = ps_N v" unfolding i' um(1) sz using "1.prems"(3) um(2) by linarith
      show "unat ?r' < 2 ^ k" unfolding um(1) using lb(2) um(2) by simp
      show "2 ^ k dvd unat ?i'" unfolding i' using ki by simp
      show "\<forall>q < k. ?F q = []" using "1.prems"(6) km by auto
      show "no_buddies (ps_MAX_ORDER v) ?F" by (rule nb)
    qed
    then obtain s' F' where s': "init_blocks ?i' ?r' v = Inr s'" "pinv s' F' {}" "keeps UNIV v s'"
      "no_buddies (ps_MAX_ORDER v) F'" by blast
    have "init_blocks i r s = Inr s'"
      using False u(1) v(1) s'(1) by (subst init_blocks.simps) (simp add: Let_def k_def)
    moreover have "keeps UNIV s s'"
      by (rule keeps_mono [OF keeps_trans [OF u(3) keeps_trans [OF v(3) s'(3)]]]) simp
    ultimately show ?thesis using s'(2,4) sz by auto
  qed
qed

text \<open>The memory that \<open>page_allocator_init\<close> asks for: the list heads and the node array.\<close>

definition page_allocator_bytes :: "mm_info \<Rightarrow> u64" where
  "page_allocator_bytes m =
     align_up (align_up (8 * log2_floor_u64 (mm_page_count m)) PAGE_NODE_ALIGN +
       PAGE_NODE_SIZE * mm_page_count m) PAGE_SIZE"

lemma word_mod_eq_0: "x mod y = 0 \<longleftrightarrow> unat y dvd unat x" for x y :: "'a::len word"
  by (simp add: word_unat_eq_iff unat_mod mod_eq_0_iff_dvd)

lemma page_allocator_init_ok:
  assumes ek: "early_kalloc m (page_allocator_bytes m) (lit ''page allocator'') True False ek = Inr (ek', pv)"
    and va: "8 dvd unat (pv_va pv)" and N: "0 < mm_page_count m" "mm_page_count m < 2 ^ 32"
  shows "\<exists>s F. page_allocator_init lit m ek = Inr (ek', s) \<and> pinv s F {} \<and>
    no_buddies (ps_MAX_ORDER s) F \<and> ps_N s = unat (mm_page_count m) \<and>
    (\<forall>j. pn_page (ps_nodes s j) = pn_page empty_node)"
proof -
  let ?n = "mm_page_count m"
  define M where "M = unat (log2_floor_u64 ?n)"
  have n0: "?n \<noteq> 0" and n32: "unat ?n < 2 ^ 32" using N by (auto simp: word_less_nat_alt)
  note lb = log2_floor_u64_bounds [OF n0, folded M_def]
  let ?fl = "align_up (8 * log2_floor_u64 ?n) PAGE_NODE_ALIGN"
  have u8: "unat (8 * log2_floor_u64 ?n) = 8 * M" using lb(3) by (simp add: unat_word_ariths M_def)
  have "unat ?fl = 8 * M"
    using unat_align_up [of 3 "8 * log2_floor_u64 ?n"] u8 lb(3) by (simp add: PAGE_NODE_ALIGN_def)
  hence fl: "8 dvd unat (pv_va pv + ?fl)"
    using va by (simp add: unat_word_ariths dvd_mod)
  have a1: "pv_va pv mod 4 = 0" and a2: "(pv_va pv + ?fl) mod PAGE_NODE_ALIGN = 0"
    unfolding word_mod_eq_0 using fl dvd_trans [of 4 8 "unat (pv_va pv)"] va by (simp_all add: PAGE_NODE_ALIGN_def)
  have inv: "linv (empty_state (unat ?n) M) (\<lambda>_. [])" using n32 lb by (intro empty_state_linv) simp_all
  have t0: "tiling (unat (0 :: u64)) (free_blocks (\<lambda>_. []))"
    by (simp add: tiling_def disjoint_blocks_def free_blocks_def)
  have "\<exists>s F. init_blocks 0 ?n (empty_state (unat ?n) M) = Inr s \<and> pinv s F {} \<and>
      keeps UNIV (empty_state (unat ?n) M) s \<and> no_buddies (ps_MAX_ORDER (empty_state (unat ?n) M)) F"
    using lb(2) by (intro init_blocks_ok [OF inv t0, where m = "Suc M"])
      (simp_all add: empty_state_def no_buddies_def)
  then obtain s F where s: "init_blocks 0 ?n (empty_state (unat ?n) M) = Inr s" "pinv s F {}"
    "keeps UNIV (empty_state (unat ?n) M) s" "no_buddies M F"
    by (auto simp: empty_state_def)
  have "page_allocator_init lit m ek = Inr (ek', s)"
    using ek a1 a2 s(1)
    by (simp add: page_allocator_init_def page_allocator_bytes_def Let_def empty_state_def M_def)
  thus ?thesis using s by (auto simp: keeps_def empty_state_def)
qed

lemma kpa_to_kva_aligned: "n \<le> 47 \<Longrightarrow> 2 ^ n dvd unat pa \<Longrightarrow> 2 ^ n dvd unat (kpa_to_kva pa)"
proof -
  assume n: "n \<le> 47" and d: "2 ^ n dvd unat pa"
  have "unat (pa AND mask n) = 0" using d by (simp add: unat_and_mask mod_eq_0_iff_dvd)
  hence "pa AND mask n = 0" by (simp add: unat_eq_zero)
  moreover have "kpa_to_kva pa AND mask n = pa AND mask n"
    using n unfolding kpa_to_kva_def KERNEL_BASE_mask by (intro bit_word_eqI) (auto simp: bit_simps)
  ultimately have "unat (kpa_to_kva pa AND mask n) = 0" by simp
  thus ?thesis by (simp add: unat_and_mask mod_eq_0_iff_dvd)
qed

lemma page_allocator_bytes_bounds:
  assumes "0 < mm_page_count m" and "mm_page_count m < 2 ^ 32"
  shows "0 < page_allocator_bytes m" and "unat (page_allocator_bytes m) + 4096 \<le> 2 ^ 64"
proof -
  let ?n = "mm_page_count m"
  define M where "M = unat (log2_floor_u64 ?n)"
  have n0: "?n \<noteq> 0" and n: "0 < unat ?n" "unat ?n < 2 ^ 32" using assms by (auto simp: word_less_nat_alt)
  note lb = log2_floor_u64_bounds [OF n0, folded M_def]
  have u8: "unat (8 * log2_floor_u64 ?n) = 8 * M" using lb(3) by (simp add: unat_word_ariths M_def)
  have fl: "unat (align_up (8 * log2_floor_u64 ?n) PAGE_NODE_ALIGN) = 8 * M"
    using unat_align_up [of 3 "8 * log2_floor_u64 ?n"] u8 lb(3) by (simp add: PAGE_NODE_ALIGN_def)
  let ?x = "align_up (8 * log2_floor_u64 ?n) PAGE_NODE_ALIGN + PAGE_NODE_SIZE * ?n"
  have x: "unat ?x = 8 * M + 32 * unat ?n"
    using fl n lb(3) by (simp add: unat_word_ariths PAGE_NODE_SIZE_def)
  have "unat (align_up ?x (2 ^ 12)) = (unat ?x + 2 ^ 12 - 1) div 2 ^ 12 * 2 ^ 12"
    using x n(2) lb(3) by (intro unat_align_up) simp_all
  hence b: "unat (page_allocator_bytes m) = (unat ?x + 4095) div 4096 * 4096"
    by (simp add: page_allocator_bytes_def PAGE_SIZE_def)
  have "unat (page_allocator_bytes m) \<le> unat ?x + 4095" unfolding b by simp
  thus "unat (page_allocator_bytes m) + 4096 \<le> 2 ^ 64" using x n(2) lb(3) by simp
  have "0 < unat (page_allocator_bytes m)" unfolding b using x n(1) by (simp add: div_greater_zero_iff)
  thus "0 < page_allocator_bytes m" by (simp add: word_less_nat_alt)
qed

text \<open>Property C7: if the boot allocator can supply the arrays, \<open>page_allocator_init\<close> succeeds and
  leaves every page free, fully coalesced, with empty page data, and the boot allocator's region
  list well-formed.\<close>
theorem page_allocator_init_spec:
  assumes "early_kalloc m (page_allocator_bytes m) (lit ''page allocator'') True False ek = Inr (ek', pv)"
    and "ek_inv ek b" and "0 < mm_page_count m" and "mm_page_count m < 2 ^ 32"
  shows "\<exists>s F. page_allocator_init lit m ek = Inr (ek', s) \<and> ek_inv ek' b \<and> pinv s F {} \<and>
    no_buddies (ps_MAX_ORDER s) F \<and> ps_N s = unat (mm_page_count m) \<and>
    (\<forall>j. pn_page (ps_nodes s j) = pn_page empty_node)"
proof -
  note ek = early_kalloc_correct [OF assms(1,2) page_allocator_bytes_bounds [OF assms(3,4)]]
  have "2 ^ 12 dvd unat (pv_va pv)" using ek kpa_to_kva_aligned [of 12 "pv_pa pv"] by simp
  hence "8 dvd unat (pv_va pv)" using dvd_trans [of 8 "2 ^ 12" "unat (pv_va pv)"] by simp
  from page_allocator_init_ok [where lit = lit, OF assms(1) this assms(3,4)] ek show ?thesis by auto
qed

section \<open>A small allocator\<close>

text \<open>Four pages: all free in one block, or all allocated in one block.\<close>

definition page_sample :: page_state where
  "page_sample = (empty_state 4 2)\<lparr>ps_nodes := (\<lambda>_. empty_node)(0 := empty_node\<lparr>pn_data := 0x102\<rparr>),
     ps_free_lists := (\<lambda>_. NULL_IDX)(2 := 0)\<rparr>"

definition page_sample_full :: page_state where
  "page_sample_full = (empty_state 4 2)\<lparr>ps_nodes := (\<lambda>_. empty_node)(0 := empty_node\<lparr>pn_data := 2\<rparr>)\<rparr>"

lemma sample_node [simp]:
  "get_order (empty_node\<lparr>pn_data := 0x102\<rparr>) = 2" "get_free (empty_node\<lparr>pn_data := 0x102\<rparr>)"
  "get_order (empty_node\<lparr>pn_data := 2\<rparr>) = 2" "\<not> get_free (empty_node\<lparr>pn_data := 2\<rparr>)"
  by (simp_all add: get_order_def get_free_def UNSHIFTED_MASK_def ORDER_SHIFT_def ORDER_BITS_def
      FREE_SHIFT_def FREE_BITS_def)

lemma page_sample_pinv: "pinv page_sample ((\<lambda>_. [])(2 := [0])) {}"
proof -
  have "linv page_sample ((\<lambda>_. [])(2 := [0]))"
    by (rule linvI) (auto simp: page_sample_def empty_state_def NULL_IDX_less [of 0 4] split: if_splits)
  moreover have "free_blocks ((\<lambda>_. [])(2 := [0])) = {(0, 2)}" by (auto simp: free_blocks_def split: if_splits)
  moreover have "tiling 4 {(0, 2)}" by (auto simp: tiling_def disjoint_blocks_def wf_block_def blk_def)
  ultimately show ?thesis by (simp add: pinv_def orders_ok_def page_sample_def empty_state_def)
qed

lemma page_sample_full_pinv: "pinv page_sample_full (\<lambda>_. []) {(0, 2)}"
proof -
  have "linv page_sample_full (\<lambda>_. [])"
    by (rule linvI) (auto simp: page_sample_full_def empty_state_def split: if_splits)
  moreover have "free_blocks (\<lambda>_. []) = {}" by (auto simp: free_blocks_def)
  moreover have "tiling 4 {(0, 2)}" by (auto simp: tiling_def disjoint_blocks_def wf_block_def blk_def)
  ultimately show ?thesis by (simp add: pinv_def orders_ok_def page_sample_full_def empty_state_def)
qed

lemma sample_fields [simp]:
  "ps_N page_sample = 4" "ps_MAX_ORDER page_sample = 2"
  "ps_N page_sample_full = 4" "ps_MAX_ORDER page_sample_full = 2"
  "\<not> pd_permanent (pn_page (ps_nodes page_sample i))"
  "\<not> pd_permanent (pn_page (ps_nodes page_sample_full i))"
  by (simp_all add: page_sample_def page_sample_full_def empty_state_def empty_node_def)

theorem page_malloc_spec_witness:
  "\<exists>i s' F'. page_malloc 0 (mm_page_data_new 0 False False) page_sample = Inr (s', ucast i * PAGE_SIZE) \<and>
     pinv s' F' {(i, 0)} \<and> unat i < 4"
proof -
  have "\<exists>k \<ge> 0 :: nat. ((\<lambda>_. [])(2 := [0 :: u32])) k \<noteq> []" by (intro exI [of _ 2]) simp
  from page_malloc_spec [OF page_sample_pinv, of 0 "mm_page_data_new 0 False False", unfolded if_P [OF this]]
  show ?thesis by (fastforce simp: Suc_le_eq)
qed

theorem page_free_spec_witness:
  "\<exists>s' F'. page_free 0 page_sample_full = Inr s' \<and> pinv s' F' {} \<and> no_buddies 2 F'"
proof -
  have "rooted page_sample_full ({(0, 2)} - {(0, 2)})" by (rule rooted_pow2) simp
  moreover have "no_buddies (ps_MAX_ORDER page_sample_full) (\<lambda>_. [])" by (simp add: no_buddies_def)
  ultimately show ?thesis
    using page_free_spec [OF page_sample_full_pinv, of 0 2] by auto
qed

theorem page_free_rejects_witness:
  "page_free 0x1000 page_sample = Inl (Panic ''page_free: invalid pa provided'')"
proof -
  have "unat (1 :: u32) \<in> blk (0, 2)" by (simp add: blk_def)
  thus ?thesis
    using page_free_rejects [OF page_sample_pinv, of 1 2 0] by (simp add: PAGE_SIZE_def)
qed

theorem reserve_spec_witness:
  "\<exists>s' F'. reserve 1 0 page_sample = Inr s' \<and> pinv s' F' {(1, 0)}"
proof -
  have "\<exists>j k. j \<in> set (((\<lambda>_. [])(2 := [0 :: u32])) k) \<and> 0 \<le> k \<and> unat (1 :: u32) \<in> blk (j, k)"
    by (intro exI [of _ 0] exI [of _ 2]) (simp add: blk_def)
  from reserve_spec [OF page_sample_pinv, of 0 1, unfolded if_P [OF this]]
  show ?thesis by auto
qed

theorem page_allocator_init_spec_witness:
  "\<exists>ek' s F. page_allocator_init (\<lambda>_. 0) ((board_info 0)\<lparr>mm_page_count := 4\<rparr>) ek_sample = Inr (ek', s) \<and>
     pinv s F {} \<and> ps_N s = 4"
proof -
  let ?m = "(board_info 0)\<lparr>mm_page_count := 4\<rparr>"
  have "is_ok (early_kalloc ?m (page_allocator_bytes ?m) ((\<lambda>_. 0) ''page allocator'') True False ek_sample)"
    by (simp add: ek_eval page_allocator_bytes_def align_up_def log2_floor_u64_def clz_def
        bit_length.simps PAGE_NODE_ALIGN_def PAGE_NODE_SIZE_def Let_def)
  then obtain ek' pv where
    "early_kalloc ?m (page_allocator_bytes ?m) ((\<lambda>_. 0) ''page allocator'') True False ek_sample = Inr (ek', pv)"
    by (auto simp: is_ok_iff)
  from page_allocator_init_spec [where lit = "\<lambda>_. 0", OF this ek_sample_inv] show ?thesis
    by (auto simp: word_less_nat_alt)
qed

section \<open>Defects\<close>

lemma buddy_above: "k < m \<Longrightarrow> buddy_of i k AND NOT (mask m) = i AND NOT (mask m)"
  unfolding buddy_of_def by (rule bit_word_eqI) (auto simp: bit_simps)

lemma aligned_below: "2 ^ k dvd unat (i :: u32) \<Longrightarrow> i AND NOT (mask k) = i"
  by (simp add: word_unat_eq_iff unat_and_not_mask)

lemma merge_loop_past:
  assumes "pinv s F A" and "i \<in> set (F k)" and "k \<le> m" and "m < ps_MAX_ORDER s" and "m - k < fuel"
    and "\<And>q. k \<le> q \<Longrightarrow> q < m \<Longrightarrow> buddy_of (i AND NOT (mask q)) q \<in> set (F q)"
    and "ps_N s \<le> unat (buddy_of (i AND NOT (mask m)) m)"
  shows "merge_loop fuel i s = Inl Fault"
  using assms
proof (induction fuel arbitrary: s F i k)
  case (Suc fuel)
  let ?b = "buddy_of i k"
  have inv: "linv s F" and tl: "tiling (ps_N s) (free_blocks F \<union> A)" using Suc.prems(1) by (auto simp: pinv_def)
  have iN: "unat i < ps_N s" "get_order (ps_nodes s i) = k" using linvD(6) [OF inv Suc.prems(2)] by auto
  have k32: "k < 32" using linv_mem_le [OF inv Suc.prems(2)] linv_MAX_ORDER [OF inv] by auto
  have al: "i AND NOT (mask k) = i" using tiling_wf [OF tl, of i k] Suc.prems(2) by (simp add: aligned_below)
  show ?case
  proof (cases "k = m")
    case True
    thus ?thesis using iN Suc.prems(4,7) al by (simp add: get_node_def Let_def)
  next
    case False
    hence km: "k < m" using Suc.prems(3) by simp
    have b: "?b \<in> set (F k)" using Suc.prems(6) [OF order_refl km] unfolding al .
    have bN: "unat ?b < ps_N s" "get_free (ps_nodes s ?b)" "get_order (ps_nodes s ?b) = k" using linvD(6) [OF inv b] by auto
    let ?l = "if i < ?b then i else ?b"
    obtain s1 s2 s3 s4 F' where s: "remove_from_list i s = Inr s1" "remove_from_list ?b s1 = Inr s2"
      "upd_node ?l (set_order (k + 1)) s2 = Inr s3" "push_to_list ?l s3 = Inr s4" "pinv s4 F' A"
      "?l \<in> set (F' (Suc k))" "keeps UNIV s s4" "\<forall>q. q \<noteq> k \<longrightarrow> set (F q) \<subseteq> set (F' q)"
      using merge_once [OF Suc.prems(1,2) b k32] by blast
    have up: "?l AND NOT (mask q) = i AND NOT (mask q)" if "k < q" for q using buddy_above [OF that, of i] by simp
    have "merge_loop fuel ?l s4 = Inl Fault"
    proof (rule Suc.IH [OF s(5,6)])
      show "buddy_of (?l AND NOT (mask q)) q \<in> set (F' q)" if "Suc k \<le> q" "q < m" for q
      proof -
        have "set (F q) \<subseteq> set (F' q)" using s(8) that(1) by simp
        thus ?thesis using Suc.prems(6) [of q] that up [of q] by auto
      qed
      show "ps_N s4 \<le> unat (buddy_of (?l AND NOT (mask m)) m)" using Suc.prems(7) up [OF km] s(7) by (simp add: keeps_def)
    qed (use km Suc.prems(4,5) s(7) in \<open>auto simp: keeps_def\<close>)
    moreover have "k \<noteq> ps_MAX_ORDER s" using km Suc.prems(4) by simp
    ultimately show ?thesis using iN bN s(1-4) by (simp add: get_node_def Let_def)
  qed
qed simp

text \<open>Property C12: a merge that reaches a block whose buddy lies past the end of the page array reads outside of it.  The
  block of order \<open>q\<close> around page \<open>i\<close> starts at \<open>i\<close> without its \<open>q\<close> low bits; if the buddies of the blocks
  of the orders from that of the released block up to \<open>m\<close> are free, and the block of order \<open>m\<close> has no buddy in the array,
  \<open>page_free\<close> merges up to it and then faults.  On the board, with \<open>5 \<cdot> 2\<^sup>18\<close> pages, it is the block
  \<open>(2\<^sup>20, 18)\<close>.\<close>
theorem page_free_out_of_range:
  assumes "pinv s F A" and "(i, k) \<in> A" and "\<not> pd_permanent (pn_page (ps_nodes s i))"
    and "k \<le> m" and "m < ps_MAX_ORDER s"
    and "\<And>q. k \<le> q \<Longrightarrow> q < m \<Longrightarrow> buddy_of (i AND NOT (mask q)) q \<in> set (F q)"
    and "ps_N s \<le> unat (buddy_of (i AND NOT (mask m)) m)"
  shows "page_free (ucast i * PAGE_SIZE) s = Inl Fault"
proof -
  obtain t where t: "page_free (ucast i * PAGE_SIZE) s = try_merge i t"
    "pinv t (F(k := i # F k)) (A - {(i, k)})" "keeps {} s t"
    using page_free_start [OF assms(1-3)] by blast
  have "merge_loop (Suc (ps_MAX_ORDER t)) i t = Inl Fault"
  proof (rule merge_loop_past [OF t(2) _ assms(4)])
    show "buddy_of (i AND NOT (mask q)) q \<in> set ((F(k := i # F k)) q)" if "k \<le> q" "q < m" for q
      using assms(6) [OF that] by auto
  qed (use assms(5,7) t(3) in \<open>auto simp: keeps_def\<close>)
  thus ?thesis using t(1) by (simp add: try_merge_def)
qed

text \<open>Six pages: an allocated block of four, an allocated page and a free one.\<close>

definition page_sample_six :: page_state where
  "page_sample_six = (empty_state 6 2)\<lparr>ps_nodes :=
     (\<lambda>_. empty_node)(0 := empty_node\<lparr>pn_data := 2\<rparr>, 5 := empty_node\<lparr>pn_data := 0x100\<rparr>),
     ps_free_lists := (\<lambda>_. NULL_IDX)(0 := 5)\<rparr>"

lemma sample_node_single [simp]:
  "get_order (empty_node\<lparr>pn_data := 0x100\<rparr>) = 0" "get_free (empty_node\<lparr>pn_data := 0x100\<rparr>)"
  by (simp_all add: get_order_def get_free_def UNSHIFTED_MASK_def ORDER_SHIFT_def ORDER_BITS_def
      FREE_SHIFT_def FREE_BITS_def)

lemma page_sample_six_pinv: "pinv page_sample_six ((\<lambda>_. [])(0 := [5])) {(0, 2), (4, 0)}"
proof -
  have "linv page_sample_six ((\<lambda>_. [])(0 := [5]))"
    by (rule linvI) (auto simp: page_sample_six_def empty_state_def NULL_IDX_less [of 5 6] split: if_splits)
  moreover have "free_blocks ((\<lambda>_. [])(0 := [5])) = {(5, 0)}" by (auto simp: free_blocks_def split: if_splits)
  moreover have "tiling 6 {(0, 2), (4, 0), (5, 0)}"
    by (auto simp: tiling_def disjoint_blocks_def wf_block_def blk_def)
  ultimately show ?thesis by (simp add: pinv_def orders_ok_def page_sample_six_def empty_state_def)
qed

theorem page_free_out_of_range_witness: "page_free 0x4000 page_sample_six = Inl Fault"
proof -
  have "page_free (ucast (4 :: u32) * PAGE_SIZE) page_sample_six = Inl Fault"
  proof (rule page_free_out_of_range [OF page_sample_six_pinv, where k = 0 and m = 1])
    show "buddy_of (4 AND NOT (mask q)) q \<in> set (((\<lambda>_. [])(0 := [5])) q)" if "q < 1" for q
      using that by (simp add: buddy_of_def)
  qed (simp_all add: page_sample_six_def empty_state_def empty_node_def buddy_of_def)
  thus ?thesis by (simp add: PAGE_SIZE_def)
qed

text \<open>Releasing a page in the middle of an allocated block is not rejected, and the
  page is then handed out a second time although the block around it is still allocated.\<close>
theorem page_free_inner_allocated:
  "rbind (page_free 0x1000 page_sample_full) (\<lambda>s.
   rbind (page_malloc 0 (mm_page_data_new 0 False False) s) (\<lambda>(s, pa). Inr pa)) = Inr 0x1000"
  by code_simp

text \<open>\<open>page_allocator_get_data\<close> looks up the node whose index is the block's order, so
  after an allocation of order 0 and one of order 1 it denies the data of the second block.\<close>
theorem page_get_data_wrong_index:
  "rbind (page_malloc 0 (mm_page_data_new 0 False False) page_sample) (\<lambda>(s, pa0).
   rbind (page_malloc 1 (mm_page_data_new 0 False False) s) (\<lambda>(s, pa1).
   rbind (page_allocator_get_data pa1 s) (\<lambda>r. Inr (pa1, r)))) = Inr (0x2000, None)"
  by code_simp

end
