(* ===== verification/Alloc_Iface.thy ===== *)
theory Alloc_Iface
  imports Kprelude
begin

text \<open>
  What the kernel's memory clients rely on in an allocator: a request yields an object that
  is disjoint from every live one, a release gives a live object back.  The contract is the
  locale \<open>allocator\<close>; inside of it, the clients' side is proved once: over any history of
  requests and releases, the live objects never overlap.
\<close>

datatype ('q, 'b) event = Alloc 'q | Release 'b

text \<open>A client that only releases what it holds.\<close>

fun run_events ::
  "('q \<Rightarrow> 's \<Rightarrow> ('s \<times> 'b) res) \<Rightarrow> ('b \<Rightarrow> 's \<Rightarrow> 's res) \<Rightarrow> ('q, 'b) event list \<Rightarrow>
   's \<times> 'b list \<Rightarrow> ('s \<times> 'b list) res" where
  "run_events alloc release [] st = Inr st"
| "run_events alloc release (Alloc q # es) (s, live) =
     rbind (alloc q s) (\<lambda>(s, b). run_events alloc release es (s, b # live))"
| "run_events alloc release (Release b # es) (s, live) =
     (if b \<in> set live
      then rbind (release b s) (\<lambda>s. run_events alloc release es (s, remove1 b live))
      else Inl (Panic ''client released an object it does not hold''))"

definition spans_disjoint :: "('b \<Rightarrow> nat set) \<Rightarrow> 'b list \<Rightarrow> bool" where
  "spans_disjoint span live \<longleftrightarrow> distinct live \<and>
     (\<forall>b \<in> set live. \<forall>c \<in> set live. b \<noteq> c \<longrightarrow> span b \<inter> span c = {})"

locale allocator =
  fixes repr :: "'s \<Rightarrow> 'b set \<Rightarrow> bool"
    and span :: "'b \<Rightarrow> nat set"
    and alloc :: "'q \<Rightarrow> 's \<Rightarrow> ('s \<times> 'b) res"
    and release :: "'b \<Rightarrow> 's \<Rightarrow> 's res"
  assumes alloc_repr: "repr s A \<Longrightarrow> alloc q s = Inr (s', b) \<Longrightarrow> repr s' (insert b A)"
    and alloc_fresh: "repr s A \<Longrightarrow> alloc q s = Inr (s', b) \<Longrightarrow> c \<in> A \<Longrightarrow> span b \<inter> span c = {}"
    and alloc_nonempty: "repr s A \<Longrightarrow> alloc q s = Inr (s', b) \<Longrightarrow> span b \<noteq> {}"
    and release_repr: "repr s A \<Longrightarrow> b \<in> A \<Longrightarrow> release b s = Inr s' \<Longrightarrow> repr s' (A - {b})"
begin

lemma alloc_new: "repr s A \<Longrightarrow> alloc q s = Inr (s', b) \<Longrightarrow> b \<notin> A"
  using alloc_fresh [of s A q s' b b] alloc_nonempty [of s A q s' b] by auto

lemma run_events_safe:
  assumes "run_events alloc release es (s, live) = Inr (s', live')"
    and "repr s (set live)" and "spans_disjoint span live"
  shows "repr s' (set live')" and "spans_disjoint span live'"
proof -
  have "repr s' (set live') \<and> spans_disjoint span live'"
    using assms
  proof (induction es arbitrary: s live)
    case (Cons e es)
    show ?case
    proof (cases e)
      case (Alloc q)
      then obtain t b where t: "alloc q s = Inr (t, b)"
        "run_events alloc release es (t, b # live) = Inr (s', live')"
        using Cons.prems(1) by (auto simp: rbind_eq_Inr)
      have "b \<notin> set live" using alloc_new [OF Cons.prems(2) t(1)] .
      hence "spans_disjoint span (b # live)"
        using Cons.prems(3) alloc_fresh [OF Cons.prems(2) t(1)] by (auto simp: spans_disjoint_def)
      thus ?thesis using Cons.IH [OF t(2)] alloc_repr [OF Cons.prems(2) t(1)] by simp
    next
      case (Release b)
      then obtain t where t: "b \<in> set live" "release b s = Inr t"
        "run_events alloc release es (t, remove1 b live) = Inr (s', live')"
        using Cons.prems(1) by (auto simp: rbind_eq_Inr split: if_splits)
      have d: "distinct live" using Cons.prems(3) by (simp add: spans_disjoint_def)
      hence "spans_disjoint span (remove1 b live)"
        using Cons.prems(3) by (auto simp: spans_disjoint_def)
      moreover have "repr t (set (remove1 b live))"
        using release_repr [OF Cons.prems(2) t(1,2)] d by simp
      ultimately show ?thesis using Cons.IH [OF t(3)] by blast
    qed
  qed simp
  thus "repr s' (set live')" and "spans_disjoint span live'" by auto
qed

end

end
