(* ===== verification/Page_Regions.thy ===== *)
theory Page_Regions
  imports Page_Correct Alloc_Iface
begin

text \<open>
  Consequences of coalescing: a coalesced allocator has a free block for every aligned free
  range, so allocation only fails when no such range is left, and the boot-time hand-over of
  the reserved regions (\<open>page_allocator_update_memregs\<close>) goes through and allocates exactly
  the pages of those regions.
\<close>

definition free_pages :: "(nat \<Rightarrow> u32 list) \<Rightarrow> nat set" where
  "free_pages F = (\<Union>b \<in> free_blocks F. blk b)"

lemma free_page_block: "p \<in> free_pages F \<Longrightarrow> \<exists>j k. j \<in> set (F k) \<and> p \<in> blk (j, k)"
  by (auto simp: free_pages_def free_blocks_def)

text \<open>In a coalesced allocator an aligned free range lies inside of a single free block.\<close>

lemma coalesced_block:
  assumes p: "pinv s F A" and nb: "no_buddies (ps_MAX_ORDER s) F"
    and "2 ^ ord dvd unat i" and "blk (i, ord) \<subseteq> free_pages F"
  shows "\<exists>j k. j \<in> set (F k) \<and> ord \<le> k \<and> unat i \<in> blk (j, k)"
  using assms(3,4)
proof (induction ord arbitrary: i)
  case 0
  hence "unat i \<in> free_pages F" using blk_start by blast
  thus ?case using free_page_block by blast
next
  case (Suc ord)
  have inv: "linv s F" and tl: "tiling (ps_N s) (free_blocks F \<union> A)" using p by (auto simp: pinv_def)
  have dk: "2 ^ ord dvd unat i" by (rule power_le_dvd [OF Suc.prems(1)]) simp
  have "unat i + (2 ^ Suc ord - 1) \<in> blk (i, Suc ord)"
    unfolding blk_def fst_conv snd_conv atLeastLessThan_iff
    using zero_less_power [of "2 :: nat" "Suc ord"] by linarith
  hence "unat i + (2 ^ Suc ord - 1) \<in> free_pages F" using Suc.prems(2) by blast
  hence "unat i + (2 ^ Suc ord - 1) < ps_N s"
    using tl unfolding free_pages_def tiling_def by blast
  hence iN: "unat i + 2 ^ Suc ord \<le> ps_N s" using zero_less_power [of "2 :: nat" "Suc ord"] by linarith
  hence "(2 :: nat) ^ Suc ord < 2 ^ Suc (ps_MAX_ORDER s)" using linvD(10) [OF inv] by linarith
  hence om: "ord < ps_MAX_ORDER s" by (simp add: power_less_imp_less_exp del: power_Suc)
  hence o32: "ord < 32" using linv_MAX_ORDER [OF inv] by simp
  let ?b = "buddy_of i ord"
  note ub = buddy_left [OF o32 Suc.prems(1)]
  have sub: "blk (i, ord) \<subseteq> free_pages F" "blk (?b, ord) \<subseteq> free_pages F"
    using Suc.prems(2) ub by (auto simp: blk_def)
  have db: "2 ^ ord dvd unat ?b" using ub dk by simp
  have whole: "Suc ord \<le> k \<or> k = ord \<and> j = x"
    if "j \<in> set (F k)" "ord \<le> k" "unat x \<in> blk (j, k)" "2 ^ ord dvd unat x" for j k x
  proof (cases "k = ord")
    case True
    have "2 ^ k dvd unat j" using tiling_wf [OF tl, of j k] that(1) by simp
    hence "parent_at_order x k = j" using that(3) by (rule parent_of_blk)
    moreover have "unat (parent_at_order x k) = unat x"
      using that(4) True by (simp add: unat_parent mod_eq_0_iff_dvd)
    ultimately show ?thesis using True by (simp add: word_unat_eq_iff)
  qed (use that(2) in simp)
  obtain j k where j: "j \<in> set (F k)" "ord \<le> k" "unat i \<in> blk (j, k)" using Suc.IH [OF dk sub(1)] by blast
  obtain j' k' where j': "j' \<in> set (F k')" "ord \<le> k'" "unat ?b \<in> blk (j', k')"
    using Suc.IH [OF db sub(2)] by blast
  consider "Suc ord \<le> k" | "k = ord" "j = i" "Suc ord \<le> k'" | "k = ord" "j = i" "k' = ord" "j' = ?b"
    using whole [OF j dk] whole [OF j' db] by blast
  thus ?case
  proof cases
    case 2
    have dj': "2 ^ k' dvd unat j'" using tiling_wf [OF tl, of j' k'] j'(1) by simp
    have "unat ?b \<in> blk (i, Suc ord)" using ub by (simp add: blk_def)
    hence "parent_at_order ?b (Suc ord) = i" by (rule parent_of_blk [OF Suc.prems(1)])
    hence "parent_at_order i k' = parent_at_order ?b k'" using parent_parent [OF 2(3), of ?b] by simp
    also have "\<dots> = j'" using dj' j'(3) by (rule parent_of_blk)
    finally have "unat i \<in> blk (j', k')" using parent_blk [of i k'] by simp
    thus ?thesis using 2 j'(1) by blast
  next
    case 3
    thus ?thesis using nb om j(1) j'(1) unfolding no_buddies_def by blast
  qed (use j in blast)
qed

text \<open>Property C4: a coalesced allocator never refuses an order for which an aligned range of free
  pages exists: there is no external fragmentation beyond alignment.\<close>
theorem page_malloc_complete:
  assumes "pinv s F A" and "no_buddies (ps_MAX_ORDER s) F"
    and "2 ^ ord dvd unat i" and "blk (i, ord) \<subseteq> free_pages F"
  shows "\<exists>s' pa. page_malloc ord d s = Inr (s', pa)"
proof -
  obtain j k where jk: "j \<in> set (F k)" "ord \<le> k" using coalesced_block [OF assms] by blast
  hence "\<exists>k \<ge> ord. F k \<noteq> []" by fastforce
  then obtain q where "serves F ord q" using serves_exists by blast
  moreover have "linv s F" using assms(1) by (simp add: pinv_def)
  hence "ord \<le> ps_MAX_ORDER s" using jk linv_mem_le [of s F j k] by simp
  ultimately show ?thesis using page_malloc_ok [OF assms(1), of ord q d] by blast
qed

theorem page_malloc_complete_witness:
  "\<exists>s' pa. page_malloc 1 (mm_page_data_new 0 False False) page_sample = Inr (s', pa)"
proof -
  have "blk (2, 1) \<subseteq> free_pages ((\<lambda>_. [])(2 := [0]))"
    by (auto simp: free_pages_def free_blocks_def blk_def)
  moreover have "no_buddies (ps_MAX_ORDER page_sample) ((\<lambda>_. [])(2 := [0]))"
    by (simp add: no_buddies_def)
  ultimately show ?thesis using page_malloc_complete [OF page_sample_pinv, of 1 2] by simp
qed

section \<open>Boot-time hand-over of reserved regions\<close>
lemma align_order_aligned:
  "ord < 32 \<Longrightarrow> 2 ^ align_order j ord dvd unat j"
proof (induction ord)
  case (Suc ord)
  have "(ucast (push_bit (Suc ord) 1 - 1 :: u32) :: u64) = mask (Suc ord)"
    unfolding push_bit_one_exp exp_minus_one_mask
    using Suc.prems by (intro bit_word_eqI) (auto simp: bit_simps)
  moreover have "(j AND mask (Suc ord)) = 0 \<longleftrightarrow> 2 ^ Suc ord dvd unat j"
    unfolding word_unat_eq_iff unat_and_mask by (simp add: mod_eq_0_iff_dvd)
  ultimately show ?case using Suc by simp
qed simp

lemma free_pages_eq:
  assumes "pinv s F A"
  shows "free_pages F = {..<ps_N s} - (\<Union>b \<in> A. blk b)"
proof -
  have tl: "tiling (ps_N s) (free_blocks F \<union> A)" and dj: "free_blocks F \<inter> A = {}"
    using assms by (auto simp: pinv_def)
  have "free_pages F \<union> (\<Union>b \<in> A. blk b) = {..<ps_N s}"
    using tl by (simp add: tiling_def free_pages_def UN_Un)
  moreover have "free_pages F \<inter> (\<Union>b \<in> A. blk b) = {}"
    using tiling_overlap [OF tl] dj unfolding free_pages_def by blast
  ultimately show ?thesis by blast
qed

lemma memreg_blocks_ok:
  assumes "pinv s F A" and "no_buddies (ps_MAX_ORDER s) F" and "\<not> em_free e"
    and "{unat j ..< unat j + unat r} \<subseteq> free_pages F"
  shows "\<exists>s' F' A'. memreg_blocks e j r s = Inr s' \<and> pinv s' F' A' \<and> no_buddies (ps_MAX_ORDER s') F' \<and>
    A \<subseteq> A' \<and> ps_N s' = ps_N s \<and> free_pages F' = free_pages F - {unat j ..< unat j + unat r}"
  using assms
proof (induction e j r s arbitrary: F A rule: memreg_blocks.induct)
  case (1 e j r s)
  show ?case
  proof (cases "r = 0")
    case True
    hence "memreg_blocks e j r s = Inr s" by (subst memreg_blocks.simps) simp
    then show ?thesis using "1.prems" True by auto
  next
    case False
    hence r: "0 < r" by (simp add: word_gt_0)
    define l where "l = unat (log2_floor_u64 r)"
    define k where "k = align_order j l"
    have kl: "k \<le> l" by (simp add: k_def align_order_le)
    note um = unat_minus_log2_floor [OF False, folded l_def, OF kl]
    have inv: "linv s F" using "1.prems"(1) by (simp add: pinv_def)
    have N: "ps_N s < 2 ^ 32" using linvD(1) [OF inv] .
    have "unat j + (unat r - 1) \<in> {unat j ..< unat j + unat r}" using False by (simp add: unat_gt_0)
    hence "unat j + (unat r - 1) \<in> {..<ps_N s}" using "1.prems"(4) free_pages_eq [OF "1.prems"(1)] by blast
    hence jr: "unat j + unat r \<le> ps_N s" by auto
    have "(2 :: nat) ^ l < 2 ^ 32" using log2_floor_u64_bounds(1) [OF False, folded l_def] jr N by linarith
    hence l32: "l < 32" by (rule power_less_imp_less_exp [rotated]) simp
    have uj: "unat (ucast j :: u32) = unat j"
      using jr N False by (simp add: unsigned_ucast_eq take_bit_nat_eq_self)
    have al: "2 ^ k dvd unat (ucast j :: u32)" unfolding uj k_def by (rule align_order_aligned [OF l32])
    have sub: "blk (ucast j, k) \<subseteq> free_pages F" using "1.prems"(4) um(2) uj by (auto simp: blk_def)
    obtain x q where xq: "x \<in> set (F q)" "k \<le> q" "unat (ucast j :: u32) \<in> blk (x, q)"
      using coalesced_block [OF "1.prems"(1,2) al sub] by blast
    obtain t G where t: "reserve (ucast j) k s = Inr t" "pinv t G (insert (ucast j, k) A)"
      "keeps UNIV s t" "no_buddies (ps_MAX_ORDER s) G"
      using reserve_ok [OF "1.prems"(1) al xq] "1.prems"(2) by blast
    let ?d = "\<lparr>pd_tag = em_tag e, pd_device_mem = em_device_memory e, pd_permanent = em_permanent e,
        pd_cache_size = 0\<rparr>"
    have "0 < unat r" using False by (simp add: unat_gt_0)
    hence "unat (ucast j :: u32) < ps_N t" using uj jr t(3) unfolding keeps_def by linarith
    then obtain u where u: "upd_node (ucast j) (\<lambda>n. n\<lparr>pn_page := ?d\<rparr>) t = Inr u"
      "pinv u G (insert (ucast j, k) A)" "ps_N u = ps_N t" "ps_MAX_ORDER u = ps_MAX_ORDER t"
      using pinv_set_page [OF t(2)] by blast
    let ?j = "j + power_of2 (word_of_nat k)" and ?r = "r - power_of2 (word_of_nat k)"
    have uj': "unat ?j = unat j + 2 ^ k"
      using jr N um(2,3) by (simp add: unat_word_ariths)
    have fp: "free_pages G = free_pages F - blk (ucast j, k)"
      using free_pages_eq [OF "1.prems"(1)] free_pages_eq [OF u(2)] u(3) t(3)
      by (auto simp: keeps_def)
    have "{unat ?j ..< unat ?j + unat ?r} \<subseteq> free_pages G"
      unfolding uj' um(1) fp using "1.prems"(4) um(2) uj by (auto simp: blk_def)
    moreover have "no_buddies (ps_MAX_ORDER u) G" using t(3,4) u(4) by (simp add: keeps_def)
    ultimately obtain s' F' A' where s': "memreg_blocks e ?j ?r u = Inr s'" "pinv s' F' A'"
      "no_buddies (ps_MAX_ORDER s') F'" "insert (ucast j, k) A \<subseteq> A'" "ps_N s' = ps_N u"
      "free_pages F' = free_pages G - {unat ?j ..< unat ?j + unat ?r}"
      using "1.IH" [OF r "1.prems"(3) k_def [unfolded l_def] t(1) u(1,2)] "1.prems"(3) by blast
    have run: "memreg_blocks e j r s = Inr s'"
      using r "1.prems"(3) t(1) u(1) s'(1) by (subst memreg_blocks.simps) (simp add: Let_def k_def l_def)
    have "free_pages F' = free_pages F - {unat j ..< unat j + unat r}"
      unfolding s'(6) fp uj' um(1) using um(2) uj by (auto simp: blk_def)
    thus ?thesis
      using run s'(2-5) u(3) t(3)
      by (intro exI [of _ s'] exI [of _ F'] exI [of _ A']) (auto simp: keeps_def)
  qed
qed

definition region_pages :: "early_memreg \<Rightarrow> nat set" where
  "region_pages e = (if em_free e then {}
     else {unat (em_addr e div PAGE_SIZE) ..< unat (em_addr e div PAGE_SIZE) + unat (em_pages e)})"

fun disjoint_regions :: "early_memreg list \<Rightarrow> bool" where
  "disjoint_regions [] = True"
| "disjoint_regions (e # es) =
    ((\<forall>d \<in> set es. region_pages e \<inter> region_pages d = {}) \<and> disjoint_regions es)"

lemma memreg_blocks_free: "em_free e \<Longrightarrow> memreg_blocks e j r s = Inr s"
  by (subst memreg_blocks.simps) simp

lemma memreg_region_ok:
  assumes "pinv s F A" and "no_buddies (ps_MAX_ORDER s) F" and "region_pages e \<subseteq> free_pages F"
  shows "\<exists>s' F' A'. memreg_blocks e (em_addr e div PAGE_SIZE) (em_pages e) s = Inr s' \<and> pinv s' F' A' \<and>
    no_buddies (ps_MAX_ORDER s') F' \<and> A \<subseteq> A' \<and> ps_N s' = ps_N s \<and>
    free_pages F' = free_pages F - region_pages e"
proof (cases "em_free e")
  case True
  then show ?thesis
    using assms memreg_blocks_free by (intro exI [of _ s] exI [of _ F] exI [of _ A]) (simp add: region_pages_def)
next
  case False
  then show ?thesis
    using memreg_blocks_ok [OF assms(1,2) False] assms(3) by (simp add: region_pages_def)
qed

text \<open>Property C8: Handing the early regions over succeeds whenever the reserved ones are disjoint and
  free; afterwards exactly their pages have left the free pages, and earlier allocations stay.\<close>
theorem page_allocator_update_memregs_spec:
  assumes "pinv s F A" and "no_buddies (ps_MAX_ORDER s) F" and "disjoint_regions mregs"
    and "(\<Union>e \<in> set mregs. region_pages e) \<subseteq> free_pages F"
  shows "\<exists>s' F' A'. page_allocator_update_memregs mregs s = Inr s' \<and> pinv s' F' A' \<and>
    no_buddies (ps_MAX_ORDER s') F' \<and> A \<subseteq> A' \<and>
    free_pages F' = free_pages F - (\<Union>e \<in> set mregs. region_pages e)"
  unfolding page_allocator_update_memregs_def
  using assms
proof (induction mregs arbitrary: s F A)
  case Nil
  then show ?case by (intro exI [of _ s] exI [of _ F] exI [of _ A]) simp
next
  case (Cons e es)
  have "region_pages e \<subseteq> free_pages F" using Cons.prems(4) by simp
  from memreg_region_ok [OF Cons.prems(1,2) this] obtain t G B where
    t: "memreg_blocks e (em_addr e div PAGE_SIZE) (em_pages e) s = Inr t" "pinv t G B"
    "no_buddies (ps_MAX_ORDER t) G" "A \<subseteq> B" "free_pages G = free_pages F - region_pages e" by blast
  have "(\<Union>d \<in> set es. region_pages d) \<subseteq> free_pages G"
    using Cons.prems(3,4) unfolding t(5) by auto
  moreover have "disjoint_regions es" using Cons.prems(3) by simp
  ultimately obtain s' F' A' where
    "rfold (\<lambda>e. memreg_blocks e (em_addr e div PAGE_SIZE) (em_pages e)) es t = Inr s'" "pinv s' F' A'"
    "no_buddies (ps_MAX_ORDER s') F'" "B \<subseteq> A'"
    "free_pages F' = free_pages G - (\<Union>d \<in> set es. region_pages d)"
    using Cons.IH [OF t(2,3)] by blast
  thus ?case using t by (intro exI [of _ s'] exI [of _ F'] exI [of _ A']) auto
qed

theorem page_allocator_update_memregs_spec_witness:
  "\<exists>s' F' A'. page_allocator_update_memregs
      [\<lparr>em_addr = 0x1000, em_pages = 2, em_free = False, em_tag = 0, em_permanent = True,
        em_device_memory = False\<rparr>] page_sample = Inr s' \<and> pinv s' F' A' \<and> free_pages F' = {0, 3}"
proof -
  let ?e = "\<lparr>em_addr = 0x1000, em_pages = 2, em_free = False, em_tag = 0, em_permanent = True,
        em_device_memory = False\<rparr> :: early_memreg"
  have f: "free_pages ((\<lambda>_. [])(2 := [0])) = {0, 1, 2, 3}"
    by (auto simp: free_pages_def free_blocks_def blk_def)
  have r: "region_pages ?e = {1, 2}" by (auto simp: region_pages_def PAGE_SIZE_def)
  have "no_buddies (ps_MAX_ORDER page_sample) ((\<lambda>_. [])(2 := [0]))" by (simp add: no_buddies_def)
  from page_allocator_update_memregs_spec [OF page_sample_pinv this, of "[?e]"]
  obtain s' F' A' where "page_allocator_update_memregs [?e] page_sample = Inr s'" "pinv s' F' A'"
    "free_pages F' = {0, 1, 2, 3} - {1, 2}"
    unfolding f by (auto simp: r)
  moreover have "{0, 1, 2, 3} - {1, 2} = {0, 3 :: nat}" by auto
  ultimately show ?thesis by metis
qed

section \<open>The page allocator as an allocator\<close>

text \<open>Requests name an order and the page data, objects are blocks.\<close>

definition page_repr :: "page_state \<Rightarrow> block set \<Rightarrow> bool" where
  "page_repr s A \<longleftrightarrow> (\<exists>F. pinv s F A \<and> no_buddies (ps_MAX_ORDER s) F)"

definition page_alloc :: "nat \<times> mm_page_data \<Rightarrow> page_state \<Rightarrow> (page_state \<times> block) res" where
  "page_alloc q s = rbind (page_malloc (fst q) (snd q) s) (\<lambda>(s, pa). Inr (s, (page_idx pa, fst q)))"

definition page_release :: "block \<Rightarrow> page_state \<Rightarrow> page_state res" where
  "page_release b s = page_free (ucast (fst b) * PAGE_SIZE) s"

lemma page_alloc_ok:
  assumes "pinv s F A" and "no_buddies (ps_MAX_ORDER s) F" and "page_alloc q s = Inr (s', b)"
  shows "page_repr s' (insert b A) \<and> (\<forall>c \<in> A. blk b \<inter> blk c = {}) \<and> ps_N s' = ps_N s
    \<and> page_malloc (fst q) (snd q) s = Inr (s', ucast (fst b) * PAGE_SIZE)"
proof -
  have inv: "linv s F" using assms(1) by (simp add: pinv_def)
  obtain pa where pa: "page_malloc (fst q) (snd q) s = Inr (s', pa)" "b = (page_idx pa, fst q)"
    using assms(3) by (auto simp: page_alloc_def rbind_eq_Inr)
  have o: "fst q \<le> ps_MAX_ORDER s"
    using pa(1) by (auto simp: page_malloc_def get_head_def rbind_eq_Inr split: if_splits)
  have "\<exists>k \<ge> fst q. F k \<noteq> []"
    using pa(1) page_malloc_exhausted [OF inv o, of "snd q"] by auto
  then obtain k where sv: "serves F (fst q) k" using serves_exists by blast
  obtain F' where m: "pa = ucast (hd (F k)) * PAGE_SIZE" "pinv s' F' (insert (hd (F k), fst q) A)"
    "(hd (F k), fst q) \<notin> A" "ps_N s' = ps_N s" "ps_MAX_ORDER s' = ps_MAX_ORDER s"
    "no_buddies (ps_MAX_ORDER s) F'"
    using page_malloc_ok [OF assms(1) o sv, of "snd q"] pa(1) assms(2) by auto
  have b: "b = (hd (F k), fst q)" using pa(2) m(1) by (simp add: page_idx_page)
  have "tiling (ps_N s') (free_blocks F' \<union> insert b A)" using m(2) b by (simp add: pinv_def)
  hence "\<forall>c \<in> A. blk b \<inter> blk c = {}" using tiling_fresh m(3) b by blast
  moreover have "page_repr s' (insert b A)" unfolding page_repr_def using m b by auto
  ultimately show ?thesis using m(1,4) pa(1) b by simp
qed

lemma page_release_ok:
  assumes "page_repr s A" "b \<in> A" "page_release b s = Inr s'"
  shows "page_repr s' (A - {b}) \<and> ps_N s' = ps_N s"
proof -
  obtain F i k where f: "pinv s F A" "no_buddies (ps_MAX_ORDER s) F" "(i, k) \<in> A" "b = (i, k)"
    "page_free (ucast i * PAGE_SIZE) s = Inr s'"
    using assms by (cases b) (auto simp: page_repr_def page_release_def)
  have "unat i + 2 ^ k \<le> ps_N s"
    using f(1,3) tiling_wf [of "ps_N s" "free_blocks F \<union> A" i k] by (simp add: pinv_def)
  moreover have "0 < (2 :: nat) ^ k" by simp
  ultimately have "unat i < ps_N s" by linarith
  hence "\<not> pd_permanent (pn_page (ps_nodes s i))"
    using f(5) by (auto simp: page_free_def page_idx_page get_node_def)
  from page_free_cases [OF f(1,3) this f(2)] f(4,5) show ?thesis
    by (auto simp: page_repr_def keeps_def)
qed

interpretation page: allocator page_repr blk page_alloc page_release
proof unfold_locales
  fix s A b s' assume "page_repr s A" "b \<in> A" "page_release b s = Inr s'"
  thus "page_repr s' (A - {b})" using page_release_ok by blast
qed (auto simp: page_repr_def dest: page_alloc_ok)

text \<open>Property C3: whatever sequence of \<open>page_malloc\<close> and \<open>page_free\<close> calls a client issues that only
  releases blocks it holds, starting from an allocator with nothing allocated, the blocks it holds
  at any moment are pairwise disjoint and are exactly the allocated ones.\<close>
theorem page_history_safe:
  assumes "pinv s F {}" and "no_buddies (ps_MAX_ORDER s) F"
    and "run_events page_alloc page_release es (s, []) = Inr (s', live)"
  shows "spans_disjoint blk live \<and> (\<exists>F'. pinv s' F' (set live) \<and> no_buddies (ps_MAX_ORDER s') F')"
proof -
  have "page_repr s (set [])" using assms(1,2) by (auto simp: page_repr_def)
  moreover have "spans_disjoint blk []" by (simp add: spans_disjoint_def)
  ultimately show ?thesis
    using page.run_events_safe [OF assms(3)] unfolding page_repr_def by blast
qed

theorem page_history_safe_witness:
  "\<exists>s' live. run_events page_alloc page_release
      [Alloc (0, mm_page_data_new 0 False False), Alloc (1, mm_page_data_new 0 False False),
       Release (0, 0)] (page_sample, []) = Inr (s', live) \<and> spans_disjoint blk live"
proof -
  let ?r = "run_events page_alloc page_release
      [Alloc (0, mm_page_data_new 0 False False), Alloc (1, mm_page_data_new 0 False False),
       Release (0, 0)] (page_sample, [])"
  have "is_ok ?r" by code_simp
  then obtain s' live where r: "?r = Inr (s', live)" by (auto simp: is_ok_iff)
  have "no_buddies (ps_MAX_ORDER page_sample) ((\<lambda>_. [])(2 := [0]))" by (simp add: no_buddies_def)
  from page_history_safe [OF page_sample_pinv this r] r show ?thesis by blast
qed

end
