(* ===== verification/Mmu_Desc.thy ===== *)
theory Mmu_Desc
  imports Kmath
begin

text \<open>
  Translation-table descriptors of the MMU driver (\<open>src/arm/mmu/mmu_dc.h\<close>,
  \<open>src/arm/mmu/mmu_types.h\<close>, the page configuration of \<open>include/arm/mmu.h\<close> and
  \<open>cfg_from_dc\<close> of \<open>src/arm/mmu/mmu_tbl_ctrl.h\<close>).  A descriptor is the 64-bit word the
  hardware reads.  The bits of every setter and getter are computed, and from them the
  round trip of \<open>bd_build\<close>: the page configuration and the output address that go into a
  descriptor are read back unchanged.
\<close>

section \<open>Types\<close>

datatype mmu_granularity = MMU_GRANULARITY_4KB | MMU_GRANULARITY_16KB | MMU_GRANULARITY_64KB

definition gran_bytes :: "mmu_granularity \<Rightarrow> u64" where
  "gran_bytes g = (case g of MMU_GRANULARITY_4KB \<Rightarrow> 4 * 1024
                           | MMU_GRANULARITY_16KB \<Rightarrow> 16 * 1024
                           | MMU_GRANULARITY_64KB \<Rightarrow> 64 * 1024)"

type_synonym mmu_hw_dc = u64
type_synonym mmu_tbl_level = nat

datatype mmu_descriptor_type = MMU_DESCRIPTOR_BLOCK | MMU_DESCRIPTOR_TABLE | MMU_DESCRIPTOR_PAGE

definition max_level :: "mmu_granularity \<Rightarrow> mmu_tbl_level" where
  "max_level g = (if g = MMU_GRANULARITY_64KB then 2 else 3)"

datatype mmu_access_permission =
    MMU_AP_EL0_NONE_EL1_RW
  | MMU_AP_EL0_RW_EL1_RW
  | MMU_AP_EL0_NONE_EL1_RO
  | MMU_AP_EL0_RO_EL1_RO

text \<open>The codes of the C enumeration, and the cast of a 2-bit code back into it.\<close>

definition ap_code :: "mmu_access_permission \<Rightarrow> u64" where
  "ap_code p = (case p of MMU_AP_EL0_NONE_EL1_RW \<Rightarrow> 0 | MMU_AP_EL0_RW_EL1_RW \<Rightarrow> 1
                        | MMU_AP_EL0_NONE_EL1_RO \<Rightarrow> 2 | MMU_AP_EL0_RO_EL1_RO \<Rightarrow> 3)"

definition ap_of_code :: "u64 \<Rightarrow> mmu_access_permission" where
  "ap_of_code c = (if c = 0 then MMU_AP_EL0_NONE_EL1_RW else if c = 1 then MMU_AP_EL0_RW_EL1_RW
                   else if c = 2 then MMU_AP_EL0_NONE_EL1_RO else MMU_AP_EL0_RO_EL1_RO)"

record mmu_pg_cfg =
  attr_index :: u8
  ap :: mmu_access_permission
  shareability :: u8
  non_secure :: bool
  access_flag :: bool
  pxn :: bool
  uxn :: bool
  sw :: u8

definition mmu_pg_cfg_new ::
  "u8 \<Rightarrow> mmu_access_permission \<Rightarrow> u8 \<Rightarrow> bool \<Rightarrow> bool \<Rightarrow> bool \<Rightarrow> bool \<Rightarrow> u8 \<Rightarrow> mmu_pg_cfg" where
  "mmu_pg_cfg_new attr_index' ap' shareability' non_secure' access_flag' pxn' uxn' sw' =
     \<lparr>attr_index = attr_index', ap = ap', shareability = shareability', non_secure = non_secure',
      access_flag = access_flag', pxn = pxn', uxn = uxn', sw = sw'\<rparr>"

section \<open>Fields\<close>

definition MMU_DC_BITS :: "nat \<Rightarrow> u64" where
  "MMU_DC_BITS w = push_bit w 1 - 1"

definition MMU_DC_FIELD_MASK :: "nat \<Rightarrow> nat \<Rightarrow> u64" where
  "MMU_DC_FIELD_MASK s w = push_bit s (MMU_DC_BITS w)"

definition mmu_granularity_shift :: "mmu_granularity \<Rightarrow> nat" where
  "mmu_granularity_shift g = (case g of MMU_GRANULARITY_4KB \<Rightarrow> 12 | MMU_GRANULARITY_16KB \<Rightarrow> 14
                                      | MMU_GRANULARITY_64KB \<Rightarrow> 16)"

definition output_address_bit_n :: "mmu_granularity \<Rightarrow> nat" where
  "output_address_bit_n g = (let shift = mmu_granularity_shift g; pa_bit_n = 48 - shift in pa_bit_n)"

definition output_address_mask :: "mmu_granularity \<Rightarrow> u64" where
  "output_address_mask g =
     (let shift = mmu_granularity_shift g; pa_bit_n = 48 - shift
      in push_bit shift (push_bit pa_bit_n 1 - 1))"

definition MMU_DC_OUTPUT_ADDR_MASK :: u64 where
  "MMU_DC_OUTPUT_ADDR_MASK = 0x0000FFFFFFFFF000"

section \<open>Getters\<close>

definition dc_get_valid :: "mmu_hw_dc \<Rightarrow> bool" where
  "dc_get_valid dc \<longleftrightarrow> drop_bit 0 dc AND MMU_DC_BITS 1 \<noteq> 0"

definition dc_get_type ::
  "mmu_hw_dc \<Rightarrow> mmu_granularity \<Rightarrow> mmu_tbl_level \<Rightarrow> mmu_descriptor_type res" where
  "dc_get_type dc g l =
     (let type_bit = drop_bit 1 dc AND MMU_DC_BITS 1
      in if l = max_level g
         then rassert (type_bit = 1) (Panic ''descriptor_get_type: only page descriptors are valid'')
                (Inr MMU_DESCRIPTOR_PAGE)
         else Inr (if type_bit = 0 then MMU_DESCRIPTOR_BLOCK else MMU_DESCRIPTOR_TABLE))"

definition dc_get_attr_index :: "mmu_hw_dc \<Rightarrow> u8" where
  "dc_get_attr_index dc = ucast (drop_bit 2 dc AND MMU_DC_BITS 3)"

definition dc_get_non_secure :: "mmu_hw_dc \<Rightarrow> bool" where
  "dc_get_non_secure dc \<longleftrightarrow> drop_bit 5 dc AND MMU_DC_BITS 1 \<noteq> 0"

definition dc_get_access_permissions :: "mmu_hw_dc \<Rightarrow> mmu_access_permission" where
  "dc_get_access_permissions dc = ap_of_code (drop_bit 6 dc AND MMU_DC_BITS 2)"

definition dc_get_shareability :: "mmu_hw_dc \<Rightarrow> u8" where
  "dc_get_shareability dc = ucast (drop_bit 8 dc AND MMU_DC_BITS 2)"

definition dc_get_access_flag :: "mmu_hw_dc \<Rightarrow> bool" where
  "dc_get_access_flag dc \<longleftrightarrow> drop_bit 10 dc AND MMU_DC_BITS 1 \<noteq> 0"

definition dc_get_output_address :: "mmu_hw_dc \<Rightarrow> mmu_granularity \<Rightarrow> u64" where
  "dc_get_output_address dc g = dc AND output_address_mask g"

definition dc_get_privileged_execute_never :: "mmu_hw_dc \<Rightarrow> bool" where
  "dc_get_privileged_execute_never dc \<longleftrightarrow> drop_bit 53 dc AND MMU_DC_BITS 1 \<noteq> 0"

definition dc_get_unprivileged_execute_never :: "mmu_hw_dc \<Rightarrow> bool" where
  "dc_get_unprivileged_execute_never dc \<longleftrightarrow> drop_bit 54 dc AND MMU_DC_BITS 1 \<noteq> 0"

definition dc_get_software_defined :: "mmu_hw_dc \<Rightarrow> u8" where
  "dc_get_software_defined dc = ucast (drop_bit 55 dc AND MMU_DC_BITS 4)"

section \<open>Setters\<close>

definition dc_set_valid :: "mmu_hw_dc \<Rightarrow> bool \<Rightarrow> mmu_hw_dc" where
  "dc_set_valid dc valid = (dc AND NOT (MMU_DC_FIELD_MASK 0 1)) OR push_bit 0 (of_bool valid)"

definition dc_set_type :: "mmu_hw_dc \<Rightarrow> mmu_descriptor_type \<Rightarrow> mmu_hw_dc" where
  "dc_set_type dc type =
     (let type_bit = (if type = MMU_DESCRIPTOR_BLOCK then 0 else 1)
      in (dc AND NOT (MMU_DC_FIELD_MASK 1 1)) OR push_bit 1 type_bit)"

definition dc_set_attr_index :: "mmu_hw_dc \<Rightarrow> u8 \<Rightarrow> mmu_hw_dc" where
  "dc_set_attr_index dc i =
     (dc AND NOT (MMU_DC_FIELD_MASK 2 3)) OR push_bit 2 (ucast i AND MMU_DC_BITS 3)"

definition dc_set_non_secure :: "mmu_hw_dc \<Rightarrow> bool \<Rightarrow> mmu_hw_dc" where
  "dc_set_non_secure dc ns = (dc AND NOT (MMU_DC_FIELD_MASK 5 1)) OR push_bit 5 (of_bool ns)"

definition dc_set_access_permissions :: "mmu_hw_dc \<Rightarrow> mmu_access_permission \<Rightarrow> mmu_hw_dc" where
  "dc_set_access_permissions dc p =
     (dc AND NOT (MMU_DC_FIELD_MASK 6 2)) OR push_bit 6 (ap_code p)"

definition dc_set_shareability :: "mmu_hw_dc \<Rightarrow> u8 \<Rightarrow> mmu_hw_dc" where
  "dc_set_shareability dc sh =
     (dc AND NOT (MMU_DC_FIELD_MASK 8 2)) OR push_bit 8 (ucast sh AND MMU_DC_BITS 2)"

definition dc_set_access_flag :: "mmu_hw_dc \<Rightarrow> bool \<Rightarrow> mmu_hw_dc" where
  "dc_set_access_flag dc af = (dc AND NOT (MMU_DC_FIELD_MASK 10 1)) OR push_bit 10 (of_bool af)"

definition dc_set_output_address :: "mmu_hw_dc \<Rightarrow> u64 \<Rightarrow> mmu_hw_dc" where
  "dc_set_output_address dc pa =
     (dc AND NOT MMU_DC_OUTPUT_ADDR_MASK) OR (pa AND MMU_DC_OUTPUT_ADDR_MASK)"

definition dc_set_privileged_execute_never :: "mmu_hw_dc \<Rightarrow> bool \<Rightarrow> mmu_hw_dc" where
  "dc_set_privileged_execute_never dc x =
     (dc AND NOT (MMU_DC_FIELD_MASK 53 1)) OR push_bit 53 (of_bool x)"

definition dc_set_unprivileged_execute_never :: "mmu_hw_dc \<Rightarrow> bool \<Rightarrow> mmu_hw_dc" where
  "dc_set_unprivileged_execute_never dc x =
     (dc AND NOT (MMU_DC_FIELD_MASK 54 1)) OR push_bit 54 (of_bool x)"

definition dc_set_software_defined :: "mmu_hw_dc \<Rightarrow> u8 \<Rightarrow> mmu_hw_dc" where
  "dc_set_software_defined dc x =
     (dc AND NOT (MMU_DC_FIELD_MASK 55 4)) OR push_bit 55 (ucast x AND MMU_DC_BITS 4)"

section \<open>Builders\<close>

text \<open>\<open>td_build\<close> takes the physical-map offset of the mapping, the only field it reads.\<close>

definition td_build :: "u64 \<Rightarrow> u64 \<Rightarrow> mmu_hw_dc" where
  "td_build physmap_offset next =
     (let tbl_pa = next - physmap_offset
      in dc_set_valid (dc_set_output_address (dc_set_type 0 MMU_DESCRIPTOR_TABLE) tbl_pa) True)"

definition bd_build :: "mmu_pg_cfg \<Rightarrow> u64 \<Rightarrow> mmu_granularity \<Rightarrow> mmu_tbl_level \<Rightarrow> mmu_hw_dc" where
  "bd_build cfg output_address g l =
     (let dc = dc_set_valid 0 True;
          dc = dc_set_type dc (if l = max_level g then MMU_DESCRIPTOR_PAGE else MMU_DESCRIPTOR_BLOCK);
          dc = dc_set_attr_index dc (attr_index cfg);
          dc = dc_set_non_secure dc (non_secure cfg);
          dc = dc_set_access_permissions dc (ap cfg);
          dc = dc_set_shareability dc (shareability cfg);
          dc = dc_set_access_flag dc (access_flag cfg);
          dc = dc_set_output_address dc output_address;
          dc = dc_set_privileged_execute_never dc (pxn cfg);
          dc = dc_set_unprivileged_execute_never dc (uxn cfg);
          dc = dc_set_software_defined dc (sw cfg)
      in dc)"

definition cfg_from_dc :: "mmu_hw_dc \<Rightarrow> mmu_pg_cfg" where
  "cfg_from_dc dc =
     \<lparr>attr_index = dc_get_attr_index dc,
      ap = dc_get_access_permissions dc,
      shareability = dc_get_shareability dc,
      non_secure = dc_get_non_secure dc,
      access_flag = dc_get_access_flag dc,
      pxn = dc_get_privileged_execute_never dc,
      uxn = dc_get_unprivileged_execute_never dc,
      sw = dc_get_software_defined dc\<rparr>"

text \<open>What fits into the descriptor's fields.\<close>

definition cfg_fits :: "mmu_pg_cfg \<Rightarrow> bool" where
  "cfg_fits cfg \<longleftrightarrow> attr_index cfg < 8 \<and> shareability cfg < 4 \<and> sw cfg < 16"

definition pa_fits :: "mmu_granularity \<Rightarrow> u64 \<Rightarrow> bool" where
  "pa_fits g pa \<longleftrightarrow> pa AND output_address_mask g = pa"

section \<open>The bits of a descriptor\<close>

lemma MMU_DC_BITS_mask: "MMU_DC_BITS w = mask w"
  by (simp add: MMU_DC_BITS_def push_bit_one_exp exp_minus_one_mask)

lemma output_address_mask_eq:
  "output_address_mask g = push_bit (mmu_granularity_shift g) (mask (48 - mmu_granularity_shift g))"
  by (simp add: output_address_mask_def Let_def push_bit_one_exp exp_minus_one_mask)

lemma granularity_shift_bounds: "12 \<le> mmu_granularity_shift g" "mmu_granularity_shift g \<le> 16"
  by (cases g; simp add: mmu_granularity_shift_def)+

lemma OUTPUT_ADDR_MASK_eq: "MMU_DC_OUTPUT_ADDR_MASK = push_bit 12 (mask 36)"
  by (simp add: MMU_DC_OUTPUT_ADDR_MASK_def mask_eq_exp_minus_1 push_bit_eq_mult)

lemma bit_output_address_mask:
  "bit (output_address_mask g) n \<longleftrightarrow> mmu_granularity_shift g \<le> n \<and> n < 48"
  using granularity_shift_bounds [of g] by (auto simp: output_address_mask_eq bit_simps)

lemma bit_OUTPUT_ADDR_MASK: "bit MMU_DC_OUTPUT_ADDR_MASK n \<longleftrightarrow> 12 \<le> n \<and> n < 48"
  by (auto simp: OUTPUT_ADDR_MASK_eq bit_simps)

named_theorems dc_bits \<open>bits of descriptors\<close>

lemma ap_code_bits: "ap_code p = ap_code p AND mask 2"
  by (cases p; simp add: ap_code_def mask_eq_exp_minus_1)

lemma bit_ap_code: "bit (ap_code p) n \<Longrightarrow> n < 2"
  by (subst (asm) ap_code_bits) (simp add: bit_simps)

lemma bit_put_field:
  fixes x :: u64
  assumes "s + w \<le> 64" and "\<And>k. bit x k \<Longrightarrow> k < w"
  shows "bit ((dc AND NOT (MMU_DC_FIELD_MASK s w)) OR push_bit s x) n =
    (if s \<le> n \<and> n < s + w then bit x (n - s) else bit dc n)"
proof -
  have "n < 64" if "bit dc n" using bit_imp_le_length [OF that] by simp
  thus ?thesis
    using assms(1) assms(2) [of "n - s"]
    by (auto simp: MMU_DC_FIELD_MASK_def MMU_DC_BITS_mask bit_simps)
qed

lemma bit_dc_set [dc_bits]:
  "bit (dc_set_valid dc b) n = (if n = 0 then b else bit dc n)"
  "bit (dc_set_type dc ty) n = (if n = 1 then ty \<noteq> MMU_DESCRIPTOR_BLOCK else bit dc n)"
  "bit (dc_set_non_secure dc b) n = (if n = 5 then b else bit dc n)"
  "bit (dc_set_access_flag dc b) n = (if n = 10 then b else bit dc n)"
  "bit (dc_set_privileged_execute_never dc b) n = (if n = 53 then b else bit dc n)"
  "bit (dc_set_unprivileged_execute_never dc b) n = (if n = 54 then b else bit dc n)"
  unfolding dc_set_valid_def dc_set_type_def dc_set_non_secure_def dc_set_access_flag_def
    dc_set_privileged_execute_never_def dc_set_unprivileged_execute_never_def Let_def
  by (subst bit_put_field; auto simp: bit_simps split: if_splits)+

lemma bit_dc_set_wide [dc_bits]:
  "bit (dc_set_attr_index dc i) n = (if 2 \<le> n \<and> n < 5 then bit i (n - 2) else bit dc n)"
  "bit (dc_set_access_permissions dc p) n =
     (if 6 \<le> n \<and> n < 8 then bit (ap_code p) (n - 6) else bit dc n)"
  "bit (dc_set_shareability dc i) n = (if 8 \<le> n \<and> n < 10 then bit i (n - 8) else bit dc n)"
  "bit (dc_set_software_defined dc i) n = (if 55 \<le> n \<and> n < 59 then bit i (n - 55) else bit dc n)"
  unfolding dc_set_attr_index_def dc_set_access_permissions_def dc_set_shareability_def
    dc_set_software_defined_def
  by (subst bit_put_field; auto simp: bit_simps MMU_DC_BITS_mask dest: bit_ap_code)+

lemma bit_dc_set_output_address [dc_bits]:
  "bit (dc_set_output_address dc pa) n = (if 12 \<le> n \<and> n < 48 then bit pa n else bit dc n)"
proof -
  have "n < 64" if "bit dc n" using bit_imp_le_length [OF that] by simp
  thus ?thesis by (auto simp: dc_set_output_address_def bit_simps bit_OUTPUT_ADDR_MASK)
qed

lemma flag_iff: "drop_bit s dc AND MMU_DC_BITS 1 \<noteq> 0 \<longleftrightarrow> bit dc s" for dc :: u64
  by (simp add: MMU_DC_BITS_def bit_iff_odd_drop_bit and_one_eq odd_iff_mod_2_eq_one)

lemma dc_get_flags:
  "dc_get_valid dc = bit dc 0" "dc_get_non_secure dc = bit dc 5" "dc_get_access_flag dc = bit dc 10"
  "dc_get_privileged_execute_never dc = bit dc 53"
  "dc_get_unprivileged_execute_never dc = bit dc 54"
  unfolding dc_get_valid_def dc_get_non_secure_def dc_get_access_flag_def
    dc_get_privileged_execute_never_def dc_get_unprivileged_execute_never_def
  by (rule flag_iff)+

lemma dc_get_type_eq:
  "dc_get_type dc g l =
     (if l = max_level g
      then if bit dc 1 then Inr MMU_DESCRIPTOR_PAGE
           else Inl (Panic ''descriptor_get_type: only page descriptors are valid'')
      else Inr (if bit dc 1 then MMU_DESCRIPTOR_TABLE else MMU_DESCRIPTOR_BLOCK))"
proof -
  have "drop_bit 1 dc AND MMU_DC_BITS 1 = of_bool (bit dc 1)"
    by (simp add: MMU_DC_BITS_def bit_iff_odd_drop_bit and_one_eq mod_2_eq_odd)
  thus ?thesis by (simp add: dc_get_type_def Let_def)
qed

lemma bit_get_wide:
  "bit (dc_get_attr_index dc) n \<longleftrightarrow> n < 3 \<and> bit dc (n + 2)"
  "bit (dc_get_shareability dc) n \<longleftrightarrow> n < 2 \<and> bit dc (n + 8)"
  "bit (dc_get_software_defined dc) n \<longleftrightarrow> n < 4 \<and> bit dc (n + 55)"
  by (auto simp: dc_get_attr_index_def dc_get_shareability_def dc_get_software_defined_def
      MMU_DC_BITS_mask bit_simps add.commute)

lemma bit_get_output_address:
  "bit (dc_get_output_address dc g) n \<longleftrightarrow> mmu_granularity_shift g \<le> n \<and> n < 48 \<and> bit dc n"
  by (auto simp: dc_get_output_address_def bit_simps bit_output_address_mask)

lemma ap_of_code_ap_code: "ap_of_code (ap_code p) = p"
  by (cases p) (simp_all add: ap_of_code_def ap_code_def)

section \<open>Round trips\<close>

lemma bit_small_byte:
  fixes x :: u8
  assumes "x < 2 ^ k" and "bit x n"
  shows "n < k"
proof (cases "k < 8")
  case True
  hence "unat x < 2 ^ k" using assms(1) by (simp add: word_less_nat_alt unat_exp)
  hence "take_bit k (unat x) = unat x" by (simp add: take_bit_nat_eq_self)
  hence "bit (take_bit k (unat x)) n" using assms(2) by (simp add: bit_unsigned_iff)
  thus ?thesis by (simp add: bit_take_bit_iff)
next
  case False
  with bit_imp_le_length [OF assms(2)] show ?thesis by simp
qed

lemma bd_build_bits:
  "bit (bd_build cfg pa g l) n =
    (if n = 0 then True else if n = 1 then l = max_level g
     else if 2 \<le> n \<and> n < 5 then bit (attr_index cfg) (n - 2)
     else if n = 5 then non_secure cfg else if 6 \<le> n \<and> n < 8 then bit (ap_code (ap cfg)) (n - 6)
     else if 8 \<le> n \<and> n < 10 then bit (shareability cfg) (n - 8) else if n = 10 then access_flag cfg
     else if 12 \<le> n \<and> n < 48 then bit pa n else if n = 53 then pxn cfg else if n = 54 then uxn cfg
     else if 55 \<le> n \<and> n < 59 then bit (sw cfg) (n - 55) else False)"
  by (auto simp: bd_build_def Let_def dc_bits)

lemma cfg_from_bd_build:
  assumes "cfg_fits cfg"
  shows "cfg_from_dc (bd_build cfg pa g l) = cfg"
proof -
  have s: "n < 3" if "bit (attr_index cfg) n" for n
    using assms bit_small_byte [of "attr_index cfg" 3 n] that by (simp add: cfg_fits_def)
  have t: "n < 2" if "bit (shareability cfg) n" for n
    using assms bit_small_byte [of "shareability cfg" 2 n] that by (simp add: cfg_fits_def)
  have u: "n < 4" if "bit (sw cfg) n" for n
    using assms bit_small_byte [of "sw cfg" 4 n] that by (simp add: cfg_fits_def)
  have p: "drop_bit 6 (bd_build cfg pa g l) AND MMU_DC_BITS 2 = ap_code (ap cfg)"
    by (intro bit_word_eqI)
      (auto simp: bit_simps MMU_DC_BITS_mask bd_build_bits dest: bit_ap_code)
  have "dc_get_attr_index (bd_build cfg pa g l) = attr_index cfg"
    by (intro bit_word_eqI) (auto simp: bit_get_wide bd_build_bits dest: s)
  moreover have "dc_get_shareability (bd_build cfg pa g l) = shareability cfg"
    by (intro bit_word_eqI) (auto simp: bit_get_wide bd_build_bits dest: t)
  moreover have "dc_get_software_defined (bd_build cfg pa g l) = sw cfg"
    by (intro bit_word_eqI) (auto simp: bit_get_wide bd_build_bits dest: u)
  ultimately show ?thesis
    by (simp add: cfg_from_dc_def dc_get_flags bd_build_bits dc_get_access_permissions_def p
        ap_of_code_ap_code)
qed

lemma pa_fitsD: "pa_fits g pa \<Longrightarrow> bit pa n \<Longrightarrow> mmu_granularity_shift g \<le> n \<and> n < 48"
  unfolding pa_fits_def by (metis bit_and_iff bit_output_address_mask)

lemma output_bd_build:
  assumes "pa_fits g pa"
  shows "dc_get_output_address (bd_build cfg pa g l) g = pa"
  using granularity_shift_bounds [of g]
  by (intro bit_word_eqI) (auto simp: bit_get_output_address bd_build_bits dest: pa_fitsD [OF assms])

lemma td_build_bits:
  "bit (td_build off t) n = (if n = 0 \<or> n = 1 then True else 12 \<le> n \<and> n < 48 \<and> bit (t - off) n)"
  by (auto simp: td_build_def Let_def dc_bits)

lemma output_td_build:
  assumes "pa_fits g (t - off)"
  shows "dc_get_output_address (td_build off t) g = t - off"
  using granularity_shift_bounds [of g]
  by (intro bit_word_eqI) (auto simp: bit_get_output_address td_build_bits dest: pa_fitsD [OF assms])

lemma cfg_from_dc_fits: "cfg_fits (cfg_from_dc dc)"
proof -
  have "unat (x AND mask k :: u64) < 2 ^ k" for x k by (simp add: unat_and_mask)
  hence "unat (x AND mask k :: u64) < 2 ^ k \<and> unat (x AND mask k :: u64) mod 256 \<le> unat (x AND mask k)"
    for x k by auto
  hence "unat (x AND mask k :: u64) mod 256 < 2 ^ k" for x k
    by (meson le_less_trans)
  from this [of _ 3] this [of _ 2] this [of _ 4] show ?thesis
    by (simp add: cfg_fits_def cfg_from_dc_def dc_get_attr_index_def dc_get_shareability_def
        dc_get_software_defined_def MMU_DC_BITS_mask word_less_nat_alt unsigned_ucast_eq
        take_bit_eq_mod)
qed

text \<open>Property C17: a block or page descriptor carries what \<open>bd_build\<close> was given. It is valid, it is
  a page descriptor exactly at the last level, the output address read back is the one that was
  put in, and so is the page configuration, provided that the address fits the descriptor's
  address bits and the multi-bit attributes fit their fields.\<close>
theorem bd_build_roundtrip:
  assumes "cfg_fits cfg" and "pa_fits g pa"
  shows "dc_get_valid (bd_build cfg pa g l) \<and>
    dc_get_type (bd_build cfg pa g l) g l =
      Inr (if l = max_level g then MMU_DESCRIPTOR_PAGE else MMU_DESCRIPTOR_BLOCK) \<and>
    dc_get_output_address (bd_build cfg pa g l) g = pa \<and>
    cfg_from_dc (bd_build cfg pa g l) = cfg"
  using assms
  by (simp add: dc_get_flags dc_get_type_eq bd_build_bits output_bd_build cfg_from_bd_build)

definition device_cfg :: mmu_pg_cfg where
  "device_cfg = mmu_pg_cfg_new 1 MMU_AP_EL0_NONE_EL1_RW 0 True True True True 0"

theorem bd_build_roundtrip_witness:
  "dc_get_valid (bd_build device_cfg 0x30860000 MMU_GRANULARITY_4KB 3) \<and>
   dc_get_output_address (bd_build device_cfg 0x30860000 MMU_GRANULARITY_4KB 3) MMU_GRANULARITY_4KB
     = 0x30860000 \<and>
   cfg_from_dc (bd_build device_cfg 0x30860000 MMU_GRANULARITY_4KB 3) = device_cfg"
proof -
  have a: "cfg_fits device_cfg" by code_simp
  have b: "pa_fits MMU_GRANULARITY_4KB 0x30860000" by code_simp
  show ?thesis using bd_build_roundtrip [OF a b] by simp
qed

end
