(* ===== verification/Mmu_Table.thy ===== *)
theory Mmu_Table
  imports Mmu_Desc
begin

text \<open>
  Translation tables and the operations on them: \<open>src/arm/mmu/mmu_tbl_ctrl.h\<close>, the mapping
  object of \<open>include/arm/mmu.h\<close> and \<open>mmu_map\<close>, \<open>mmu_unmap\<close>, \<open>mmu_walk_page\<close> of
  \<open>src/arm/mmu/mmu.c\<close>.

  The tables live in a store: the virtual address of a table leads to its descriptors, and an
  address that is not in the store is not a live table, so that reading it is a \<^const>\<open>Fault\<close>.
  The mapping's allocator is the pair of function pointers of the source; it works on a state of
  its own, the type parameter.  \<open>include/arm/mmu.h\<close> requires the allocator to hand out zeroed
  memory, which is what the store holds for a fresh table.  The barrier and TLB instructions of
  \<open>MMU_APPLY_CHANGES\<close> have no effect on the tables and are left out.
\<close>

section \<open>State\<close>

datatype mmu_tbl_rng = MMU_LO | MMU_HI

record 'a mmu_mapping =
  rng :: mmu_tbl_rng
  gran :: mmu_granularity
  va_addr_bits :: u64
  physmap_offset :: u64
  tbl_ptr :: u64
  allocator_fn :: "u64 \<Rightarrow> 'a \<Rightarrow> ('a \<times> u64) res"
  allocator_free_fn :: "u64 \<Rightarrow> 'a \<Rightarrow> 'a res"

record mmu_op_info =
  iters :: u64
  alocated_tbls :: u64
  freed_tbls :: u64

definition mmu_op_info_new :: mmu_op_info where
  "mmu_op_info_new = \<lparr>iters = 0, alocated_tbls = 0, freed_tbls = 0\<rparr>"

record 'a mmu_state =
  tbls :: "u64 \<Rightarrow> (nat \<Rightarrow> mmu_hw_dc) option"
  alst :: 'a
  op_info :: "mmu_op_info option"

definition upd_info :: "(mmu_op_info \<Rightarrow> mmu_op_info) \<Rightarrow> 'a mmu_state \<Rightarrow> 'a mmu_state" where
  "upd_info f st = st\<lparr>op_info := map_option f (op_info st)\<rparr>"

definition mmu_tbl_get_dc :: "'a mmu_state \<Rightarrow> u64 \<Rightarrow> u64 \<Rightarrow> mmu_hw_dc res" where
  "mmu_tbl_get_dc st tbl i = (case tbls st tbl of None \<Rightarrow> Inl Fault | Some dcs \<Rightarrow> Inr (dcs (unat i)))"

definition tbl_set_dc :: "u64 \<Rightarrow> u64 \<Rightarrow> mmu_hw_dc \<Rightarrow> 'a mmu_state \<Rightarrow> 'a mmu_state res" where
  "tbl_set_dc tbl i dc st =
     (case tbls st tbl of None \<Rightarrow> Inl Fault
      | Some dcs \<Rightarrow> Inr (st\<lparr>tbls := (tbls st)(tbl \<mapsto> dcs(unat i := dc))\<rparr>))"

section \<open>Table geometry\<close>

definition page_bits :: "mmu_granularity \<Rightarrow> nat" where
  "page_bits g = unat (log2_floor_u64 (gran_bytes g))"

definition level_shift :: "mmu_granularity \<Rightarrow> mmu_tbl_level \<Rightarrow> nat" where
  "level_shift g l = (let index_bits = page_bits g - 3 in page_bits g + index_bits * (max_level g - l))"

definition tbl_entries :: "mmu_granularity \<Rightarrow> u64" where
  "tbl_entries g = gran_bytes g div 8"

definition table_index :: "u64 \<Rightarrow> mmu_granularity \<Rightarrow> mmu_tbl_level \<Rightarrow> u64" where
  "table_index va g l =
     (let index_bits = page_bits g - 3; msk = push_bit index_bits 1 - 1
      in drop_bit (level_shift g l) va AND msk)"

definition dc_cover_bytes :: "mmu_granularity \<Rightarrow> mmu_tbl_level \<Rightarrow> u64 res" where
  "dc_cover_bytes g l =
     (let index_bits = page_bits g - 3
      in rassert (l \<le> max_level g) (Panic ''dc_cover_bytes'')
           (Inr (push_bit (page_bits g + index_bits * (max_level g - l)) 1)))"

definition tbl_from_td :: "'a mmu_mapping \<Rightarrow> mmu_hw_dc \<Rightarrow> mmu_tbl_level \<Rightarrow> u64 res" where
  "tbl_from_td m dc l =
     rbind (dc_get_type dc (gran m) l) (\<lambda>ty.
     rassert (ty = MMU_DESCRIPTOR_TABLE) (Panic ''tbl_from_td'')
       (Inr (dc_get_output_address dc (gran m) + physmap_offset m)))"

section \<open>Allocation and release of tables\<close>

definition tbl_init_null :: "u64 \<Rightarrow> mmu_granularity \<Rightarrow> 'a mmu_state \<Rightarrow> 'a mmu_state res" where
  "tbl_init_null tbl g st =
     (case tbls st tbl of None \<Rightarrow> Inl Fault
      | Some dcs \<Rightarrow> Inr (st\<lparr>tbls := (tbls st)(tbl \<mapsto>
          (\<lambda>i. if i < unat (tbl_entries g) then 0 else dcs i))\<rparr>))"

definition alloc_tbl :: "'a mmu_mapping \<Rightarrow> bool \<Rightarrow> 'a mmu_state \<Rightarrow> ('a mmu_state \<times> u64) res" where
  "alloc_tbl m init_null st =
     (let st = upd_info (\<lambda>i. i\<lparr>alocated_tbls := alocated_tbls i + 1\<rparr>) st in
      rbind (allocator_fn m (8 * tbl_entries (gran m)) (alst st)) (\<lambda>(a, tbl).
      let st = st\<lparr>alst := a, tbls := (tbls st)(tbl \<mapsto> (\<lambda>_. 0))\<rparr> in
      rassert (tbl mod gran_bytes (gran m) = 0) (Panic ''alloc_tbl'')
        (rbind (if init_null then tbl_init_null tbl (gran m) st else Inr st) (\<lambda>st. Inr (st, tbl)))))"

text \<open>The loop over the new table's entries writes each of them once.\<close>

definition split_block ::
  "'a mmu_mapping \<Rightarrow> u64 \<Rightarrow> u64 \<Rightarrow> mmu_tbl_level \<Rightarrow> 'a mmu_state \<Rightarrow> ('a mmu_state \<times> u64) res" where
  "split_block m parent index l st =
     (let g = gran m in
      rbind (mmu_tbl_get_dc st parent index) (\<lambda>old.
      rbind (alloc_tbl m False st) (\<lambda>(st, new_tbl).
      rbind (if dc_get_valid old then
               let cfg = cfg_from_dc old; pa = dc_get_output_address old g in
               rbind (dc_cover_bytes g (l + 1)) (\<lambda>new_l_bytes.
               rbind (dc_cover_bytes g l) (\<lambda>bytes.
               rassert (pa mod bytes = 0) (Panic ''split_block'')
                 (Inr (st\<lparr>tbls := (tbls st)(new_tbl \<mapsto> (\<lambda>i.
                    if i < unat (tbl_entries g)
                    then bd_build cfg (pa + word_of_nat i * new_l_bytes) g (l + 1) else 0))\<rparr>))))
             else tbl_init_null new_tbl g st) (\<lambda>st.
      rbind (tbl_set_dc parent index (td_build (physmap_offset m) new_tbl) st) (\<lambda>st.
      Inr (st, new_tbl))))))"

definition tbl_is_null :: "u64 \<Rightarrow> mmu_granularity \<Rightarrow> 'a mmu_state \<Rightarrow> bool res" where
  "tbl_is_null tbl g st =
     (case tbls st tbl of None \<Rightarrow> Inl Fault
      | Some dcs \<Rightarrow> Inr (list_all (\<lambda>i. \<not> dc_get_valid (dcs i)) [0..<unat (tbl_entries g)]))"

text \<open>The recursion of \<open>free_tbl\<close> goes one level down per call; its depth is bounded by the
  number of levels, and \<^const>\<open>Diverge\<close> stands for a deeper one.\<close>

fun free_tbl_rec ::
  "nat \<Rightarrow> 'a mmu_mapping \<Rightarrow> u64 \<Rightarrow> mmu_tbl_level \<Rightarrow> 'a mmu_state \<Rightarrow> 'a mmu_state res" where
  "free_tbl_rec 0 m tbl l st = Inl Diverge"
| "free_tbl_rec (Suc n) m tbl l st =
     rbind (rfold (\<lambda>i st.
         rbind (mmu_tbl_get_dc st tbl (word_of_nat i)) (\<lambda>dc.
         if \<not> dc_get_valid dc then Inr st
         else rbind (dc_get_type dc (gran m) l) (\<lambda>ty.
              if ty = MMU_DESCRIPTOR_TABLE
              then rbind (tbl_from_td m dc (l + 1)) (\<lambda>t. free_tbl_rec n m t (l + 1) st)
              else Inr st)))
       [0..<unat (tbl_entries (gran m))] st) (\<lambda>st.
     rbind (allocator_free_fn m tbl (alst st)) (\<lambda>a.
     Inr (upd_info (\<lambda>i. i\<lparr>freed_tbls := freed_tbls i + 1\<rparr>)
            (st\<lparr>alst := a, tbls := (tbls st)(tbl := None)\<rparr>))))"

definition free_tbl ::
  "'a mmu_mapping \<Rightarrow> u64 \<Rightarrow> mmu_tbl_level \<Rightarrow> 'a mmu_state \<Rightarrow> 'a mmu_state res" where
  "free_tbl m tbl l st = free_tbl_rec (Suc (max_level (gran m))) m tbl l st"

definition mmu_mapping_new ::
  "mmu_tbl_rng \<Rightarrow> mmu_granularity \<Rightarrow> u64 \<Rightarrow> u64 \<Rightarrow> (u64 \<Rightarrow> 'a \<Rightarrow> ('a \<times> u64) res) \<Rightarrow>
   (u64 \<Rightarrow> 'a \<Rightarrow> 'a res) \<Rightarrow> 'a mmu_state \<Rightarrow> ('a mmu_state \<times> 'a mmu_mapping) res" where
  "mmu_mapping_new r g bits offset allocator' allocator_free' st =
     rbind (allocator' (gran_bytes g) (alst st)) (\<lambda>(a, tbl).
     Inr (st\<lparr>alst := a, tbls := (tbls st)(tbl \<mapsto> (\<lambda>_. 0))\<rparr>,
          \<lparr>rng = r, gran = g, va_addr_bits = bits, physmap_offset = offset, tbl_ptr = tbl,
           allocator_fn = allocator', allocator_free_fn = allocator_free'\<rparr>))"

section \<open>Mapping\<close>

definition canonical :: "u64 \<Rightarrow> u64 \<Rightarrow> bool" where
  "canonical va_bits va =
     (let sign_bit = va_bits - 1;
          canon_mask = NOT (push_bit (unat va_bits) 1 - 1);
          sign = drop_bit (unat sign_bit) va AND 1;
          upper = va AND canon_mask
      in if sign \<noteq> 0 then upper = canon_mask else upper = 0)"

definition is_in_range :: "'a mmu_mapping \<Rightarrow> u64 \<Rightarrow> u64 \<Rightarrow> bool" where
  "is_in_range m va sz =
     (if sz = 0 then False
      else let va_bits = va_addr_bits m; sign_mask = push_bit (unat (va_bits - 1)) 1 in
        if \<not> canonical va_bits va then False
        else let end_va = va + sz - 1 in
          if end_va < va then False
          else if \<not> canonical va_bits end_va then False
          else let is_hi = (va AND sign_mask \<noteq> 0); end_hi = (end_va AND sign_mask \<noteq> 0) in
            if is_hi \<noteq> end_hi then False
            else if rng m = MMU_LO then \<not> is_hi
            else if rng m = MMU_HI then is_hi
            else False)"

fun target_lvl_loop ::
  "nat \<Rightarrow> mmu_tbl_level \<Rightarrow> u64 \<Rightarrow> u64 \<Rightarrow> mmu_granularity \<Rightarrow> u64 \<Rightarrow> u64 \<Rightarrow> (mmu_tbl_level \<times> u64) res" where
  "target_lvl_loop 0 l c sz g va pa = Inr (l, c)"
| "target_lvl_loop (Suc n) l c sz g va pa =
     rbind (dc_cover_bytes g l) (\<lambda>c.
     if sz \<ge> c \<and> va mod c = 0 \<and> pa mod c = 0 then Inr (l, c)
     else target_lvl_loop n (l + 1) c sz g va pa)"

definition get_target_lvl ::
  "u64 \<Rightarrow> mmu_granularity \<Rightarrow> u64 \<Rightarrow> u64 \<Rightarrow> (mmu_tbl_level \<times> u64) res" where
  "get_target_lvl sz g va pa = target_lvl_loop (max_level g) 1 0 sz g va pa"

text \<open>One round of the inner loop of \<open>mmu_map\<close>: a missing table is allocated, a block is split; the
  result is the table of the next level.\<close>

definition map_step ::
  "'a mmu_mapping \<Rightarrow> u64 \<Rightarrow> mmu_tbl_level \<Rightarrow> u64 \<Rightarrow> 'a mmu_state \<Rightarrow> ('a mmu_state \<times> u64) res" where
  "map_step m va l tbl st =
     (let g = gran m; st = upd_info (\<lambda>i. i\<lparr>iters := iters i + 1\<rparr>) st; i = table_index va g l in
      rbind (mmu_tbl_get_dc st tbl i) (\<lambda>descriptor.
      if \<not> dc_get_valid descriptor then
        rbind (alloc_tbl m True st) (\<lambda>(st, next).
        rbind (tbl_set_dc tbl i (td_build (physmap_offset m) next) st) (\<lambda>st. Inr (st, next)))
      else
        rbind (dc_get_type descriptor g l) (\<lambda>ty.
        case ty of
          MMU_DESCRIPTOR_BLOCK \<Rightarrow> split_block m tbl i l st
        | MMU_DESCRIPTOR_TABLE \<Rightarrow> rbind (tbl_from_td m descriptor l) (\<lambda>t. Inr (st, t))
        | MMU_DESCRIPTOR_PAGE \<Rightarrow> Inl (Panic ''mmu_map: err''))))"

text \<open>The inner loop from level \<open>l\<close> through \<open>n\<close> levels.\<close>

fun map_descend ::
  "'a mmu_mapping \<Rightarrow> u64 \<Rightarrow> nat \<Rightarrow> mmu_tbl_level \<Rightarrow> u64 \<Rightarrow> 'a mmu_state \<Rightarrow> ('a mmu_state \<times> u64) res" where
  "map_descend m va 0 l tbl st = Inr (st, tbl)"
| "map_descend m va (Suc n) l tbl st =
     rbind (map_step m va l tbl st) (\<lambda>(st, next). map_descend m va n (l + 1) next st)"

definition free_old ::
  "'a mmu_mapping \<Rightarrow> mmu_hw_dc \<Rightarrow> mmu_tbl_level \<Rightarrow> 'a mmu_state \<Rightarrow> 'a mmu_state res" where
  "free_old m old l st =
     rbind (dc_get_type old (gran m) l) (\<lambda>ty.
     if ty = MMU_DESCRIPTOR_TABLE
     then rbind (tbl_from_td m old l) (\<lambda>t. free_tbl m t l st)
     else Inr st)"

text \<open>One round of the outer loop of \<open>mmu_map\<close> at a given target level.\<close>

definition map_one ::
  "'a mmu_mapping \<Rightarrow> u64 \<Rightarrow> u64 \<Rightarrow> mmu_pg_cfg \<Rightarrow> mmu_tbl_level \<Rightarrow> 'a mmu_state \<Rightarrow> 'a mmu_state res" where
  "map_one m va pa cfg target_lvl st =
     (let g = gran m in
      rbind (map_descend m va target_lvl 0 (tbl_ptr m) st) (\<lambda>(st, tbl).
      let i = table_index va g target_lvl in
      rbind (mmu_tbl_get_dc st tbl i) (\<lambda>old.
      rbind (tbl_set_dc tbl i (bd_build cfg pa g target_lvl) st) (\<lambda>st.
      if dc_get_valid old then free_old m old target_lvl st else Inr st))))"

lemma log2_floor_exp:
  assumes "k < 64"
  shows "unat (log2_floor_u64 (2 ^ k)) = k"
proof -
  have "(2 :: u64) ^ k \<noteq> 0" using unat_exp [where 'a = 64, of k] assms by (auto simp: word_unat_eq_iff)
  from log2_floor_u64_bounds [OF this] assms
  have "(2 :: nat) ^ unat (log2_floor_u64 (2 ^ k)) \<le> 2 ^ k"
    "(2 :: nat) ^ k < 2 ^ Suc (unat (log2_floor_u64 (2 ^ k)))"
    by (simp_all add: unat_exp)
  thus ?thesis by (simp add: power_strict_increasing_iff power_increasing_iff del: power_Suc)
qed

lemma gran_bytes_shift: "gran_bytes g = 2 ^ mmu_granularity_shift g"
  by (cases g) (simp_all add: gran_bytes_def mmu_granularity_shift_def)

lemma page_bits_eq: "page_bits g = mmu_granularity_shift g"
  using granularity_shift_bounds [of g]
  by (simp add: page_bits_def gran_bytes_shift log2_floor_exp)

declare page_bits_eq [code]

lemma gran_bytes_exp: "gran_bytes g = 2 ^ page_bits g"
  by (simp add: gran_bytes_shift page_bits_eq)

lemma level_shift_eq: "level_shift g l = page_bits g + (page_bits g - 3) * (max_level g - l)"
  by (simp add: level_shift_def)

lemma level_shift_0: "level_shift g 0 \<le> 47"
  by (cases g) (simp_all add: level_shift_eq page_bits_eq mmu_granularity_shift_def max_level_def)

lemma level_shift_less: "level_shift g l < 64"
proof -
  have "level_shift g l \<le> level_shift g 0" by (simp add: level_shift_eq)
  thus ?thesis using level_shift_0 [of g] by linarith
qed

lemma level_shift_max: "level_shift g (max_level g) = page_bits g"
  by (simp add: level_shift_eq)

lemma dc_cover_bytes_eq: "l \<le> max_level g \<Longrightarrow> dc_cover_bytes g l = Inr (2 ^ level_shift g l)"
  by (simp add: dc_cover_bytes_def level_shift_eq Let_def push_bit_one_exp)

lemma mod_exp_eq_0: "k < 64 \<Longrightarrow> x mod 2 ^ k = 0 \<longleftrightarrow> 2 ^ k dvd unat x" for x :: u64
  by (simp add: word_unat_eq_iff unat_mod unat_exp dvd_eq_mod_eq_0)

lemma mod_gran: "x mod gran_bytes g = 0 \<longleftrightarrow> 2 ^ page_bits g dvd unat x"
  using mod_exp_eq_0 [of "page_bits g" x] level_shift_less [of g "max_level g"]
  by (simp add: gran_bytes_exp level_shift_max)

lemma mod_cover: "x mod 2 ^ level_shift g l = 0 \<longleftrightarrow> 2 ^ level_shift g l dvd unat x" for x :: u64
  by (rule mod_exp_eq_0 [OF level_shift_less])

lemma target_lvl_loop_ok:
  assumes "gran_bytes g \<le> sz" and "2 ^ page_bits g dvd unat va" and "2 ^ page_bits g dvd unat pa"
    and "l + n = Suc (max_level g)" and "0 < n"
  shows "\<exists>t. target_lvl_loop n l c sz g va pa = Inr (t, 2 ^ level_shift g t) \<and>
    l \<le> t \<and> t \<le> max_level g \<and> 2 ^ level_shift g t \<le> sz \<and>
    2 ^ level_shift g t dvd unat va \<and> 2 ^ level_shift g t dvd unat pa"
  using assms(4,5)
proof (induction n arbitrary: l c)
  case (Suc n)
  hence l: "l \<le> max_level g" by simp
  let ?c = "2 ^ level_shift g l :: u64"
  let ?hit = "?c \<le> sz \<and> 2 ^ level_shift g l dvd unat va \<and> 2 ^ level_shift g l dvd unat pa"
  have step: "target_lvl_loop (Suc n) l c sz g va pa =
    (if ?hit then Inr (l, ?c) else target_lvl_loop n (l + 1) ?c sz g va pa)"
    by (simp add: dc_cover_bytes_eq [OF l] mod_cover)
  show ?case
  proof (cases ?hit)
    case True
    thus ?thesis unfolding step if_P [OF True] using l by (intro exI [of _ l]) simp
  next
    case False
    hence "l \<noteq> max_level g" using assms(1-3) by (auto simp: level_shift_max gran_bytes_exp)
    hence "0 < n" using Suc.prems by simp
    from Suc.IH [of "l + 1" ?c, OF _ this] Suc.prems(1) obtain t where
      "target_lvl_loop n (l + 1) ?c sz g va pa = Inr (t, 2 ^ level_shift g t) \<and>
       l + 1 \<le> t \<and> t \<le> max_level g \<and> 2 ^ level_shift g t \<le> sz \<and>
       2 ^ level_shift g t dvd unat va \<and> 2 ^ level_shift g t dvd unat pa" by auto
    thus ?thesis unfolding step if_not_P [OF False] by (intro exI [of _ t]) simp
  qed
qed simp

lemma gran_le:
  assumes "sz \<noteq> 0" and "2 ^ page_bits g dvd unat sz"
  shows "gran_bytes g \<le> sz"
proof -
  have "2 ^ page_bits g \<le> unat sz" using assms by (intro dvd_imp_le) (auto simp: unat_gt_0)
  thus ?thesis
    using level_shift_less [of g "max_level g"]
    by (simp add: gran_bytes_exp word_le_nat_alt unat_exp level_shift_max)
qed

lemma get_target_lvl_ok:
  assumes "sz \<noteq> 0" and "sz mod gran_bytes g = 0" and "va mod gran_bytes g = 0"
    and "pa mod gran_bytes g = 0"
  obtains t where "get_target_lvl sz g va pa = Inr (t, 2 ^ level_shift g t)"
    and "1 \<le> t" and "t \<le> max_level g" and "2 ^ level_shift g t \<le> sz"
    and "2 ^ level_shift g t dvd unat va" and "2 ^ level_shift g t dvd unat pa"
proof -
  have "0 < max_level g" by (simp add: max_level_def)
  thus ?thesis
    using target_lvl_loop_ok [OF gran_le [OF assms(1)], of g va pa 1 "max_level g" 0] assms(2-4) that
    unfolding get_target_lvl_def mod_gran by auto
qed

lemma sub_cover_less:
  assumes "2 ^ k \<le> sz" and "k < 64"
  shows "unat (sz - 2 ^ k) < unat (sz :: u64)"
proof -
  have "unat (sz - 2 ^ k) = unat sz - unat (2 ^ k :: u64)"
    using assms(1) by (simp add: unat_sub word_le_nat_alt)
  moreover have "0 < unat (2 ^ k :: u64)" using assms(2) by (simp add: unat_exp)
  moreover have "unat (2 ^ k :: u64) \<le> unat sz" using assms(1) by (simp add: word_le_nat_alt)
  ultimately show ?thesis by linarith
qed

function map_loop ::
  "'a mmu_mapping \<Rightarrow> mmu_pg_cfg \<Rightarrow> u64 \<Rightarrow> u64 \<Rightarrow> u64 \<Rightarrow> 'a mmu_state \<Rightarrow> 'a mmu_state res" where
  "map_loop m cfg va pa sz st =
     (if sz = 0 then Inr st
      else let g = gran m in
        rassert (sz mod gran_bytes g = 0 \<and> va mod gran_bytes g = 0 \<and> pa mod gran_bytes g = 0)
            (Panic ''mmu_map'')
          (rbind (get_target_lvl sz g va pa) (\<lambda>(target_lvl, cover).
           rbind (map_one m va pa cfg target_lvl st) (\<lambda>st.
           map_loop m cfg (va + cover) (pa + cover) (sz - cover) st))))"
  by pat_completeness auto
termination
proof (relation "measure (\<lambda>(m, cfg, va, pa, sz, st). unat sz)", goal_cases)
  case (2 m cfg va pa sz st g x t c s)
  obtain t' where "get_target_lvl sz (gran m) va pa = Inr (t', 2 ^ level_shift (gran m) t')"
    "2 ^ level_shift (gran m) t' \<le> sz"
    using get_target_lvl_ok [of sz "gran m" va pa] 2 by auto
  thus ?case using 2 sub_cover_less [OF _ level_shift_less] by auto
qed simp

declare map_loop.simps [simp del]

datatype mmu_map_result = MMU_MAP_OK | MMU_MAP_NULL_MAPPING | MMU_MAP_MAP_NOT_IN_RANGE

text \<open>A null mapping is dereferenced (\<open>m->g_\<close>) before the test for it.\<close>

definition mmu_map ::
  "'a mmu_mapping option \<Rightarrow> u64 \<Rightarrow> u64 \<Rightarrow> u64 \<Rightarrow> mmu_pg_cfg \<Rightarrow> 'a mmu_state \<Rightarrow>
   ('a mmu_state \<times> mmu_map_result) res" where
  "mmu_map mp va pa sz cfg st =
     (case mp of None \<Rightarrow> Inl Fault
      | Some m \<Rightarrow>
          if sz = 0 then Inr (st, MMU_MAP_OK)
          else if \<not> is_in_range m va sz then Inr (st, MMU_MAP_MAP_NOT_IN_RANGE)
          else rbind (map_loop m cfg va pa sz st) (\<lambda>st. Inr (st, MMU_MAP_OK)))"

section \<open>Unmapping\<close>

datatype mmu_unmap_result = MMU_UNMAP_ERR | MMU_UNMAP_OK

text \<open>The descent of \<open>mmu_unmap\<close>: the level it stopped at, and whether it stopped at an invalid
  descriptor.\<close>

fun unmap_descend ::
  "'a mmu_mapping \<Rightarrow> u64 \<Rightarrow> nat \<Rightarrow> mmu_tbl_level \<Rightarrow> u64 \<Rightarrow> 'a mmu_state \<Rightarrow>
   ('a mmu_state \<times> u64 \<times> mmu_tbl_level \<times> bool) res" where
  "unmap_descend m va 0 l tbl st = Inr (st, tbl, l, False)"
| "unmap_descend m va (Suc n) l tbl st =
     (let g = gran m; st = upd_info (\<lambda>i. i\<lparr>iters := iters i + 1\<rparr>) st; i = table_index va g l in
      rbind (mmu_tbl_get_dc st tbl i) (\<lambda>dc.
      if \<not> dc_get_valid dc then Inr (st, tbl, l, True)
      else
        rbind (dc_get_type dc g l) (\<lambda>ty.
        rbind (case ty of
                 MMU_DESCRIPTOR_BLOCK \<Rightarrow> split_block m tbl i l st
               | MMU_DESCRIPTOR_TABLE \<Rightarrow> rbind (tbl_from_td m dc l) (\<lambda>t. Inr (st, t))
               | MMU_DESCRIPTOR_PAGE \<Rightarrow> Inl (Panic ''mmu_map: err'')) (\<lambda>(st, next).
        unmap_descend m va n (l + 1) next st))))"

text \<open>One round of the outer loop: the number of bytes it is done with.  The type of the old
  descriptor is read before its validity.\<close>

definition unmap_one ::
  "'a mmu_mapping \<Rightarrow> u64 \<Rightarrow> u64 \<Rightarrow> mmu_tbl_level \<Rightarrow> u64 \<Rightarrow> 'a mmu_state \<Rightarrow>
   ('a mmu_state \<times> u64) res" where
  "unmap_one m va sz target_lvl cover st =
     (let g = gran m in
      rbind (unmap_descend m va target_lvl 0 (tbl_ptr m) st) (\<lambda>(st, tbl, l, already_unmapped).
      if already_unmapped then rbind (dc_cover_bytes g l) (\<lambda>c. Inr (st, min sz c))
      else let i = table_index va g target_lvl in
        rbind (mmu_tbl_get_dc st tbl i) (\<lambda>old.
        rbind (tbl_set_dc tbl i 0 st) (\<lambda>st.
        rbind (dc_get_type old g target_lvl) (\<lambda>ty.
        rbind (if ty = MMU_DESCRIPTOR_TABLE \<and> dc_get_valid old
               then rbind (tbl_from_td m old target_lvl) (\<lambda>t. free_tbl m t target_lvl st)
               else Inr st) (\<lambda>st.
        Inr (st, cover)))))))"

lemma unmap_one_progress:
  assumes "unmap_one m va sz t cover st = Inr (st', c)" and "sz \<noteq> 0" and "cover \<noteq> 0"
    and "cover \<le> sz"
  shows "c \<noteq> 0 \<and> c \<le> sz"
proof -
  have *: "min sz x \<noteq> 0 \<and> min sz x \<le> sz" if "dc_cover_bytes g l = Inr x" for g l x
  proof -
    have "x = 2 ^ level_shift g l" using that
      by (simp add: dc_cover_bytes_def level_shift_eq Let_def push_bit_one_exp rassert_eq_Inr)
    moreover have "(2 :: u64) ^ level_shift g l \<noteq> 0"
      by (simp add: word_unat_eq_iff unat_exp level_shift_less)
    ultimately show ?thesis using assms(2) by (auto simp: min_def)
  qed
  show ?thesis using assms(1,3,4)
    by (auto simp: unmap_one_def Let_def rbind_eq_Inr * split: if_splits)
qed

function unmap_loop ::
  "'a mmu_mapping \<Rightarrow> u64 \<Rightarrow> u64 \<Rightarrow> 'a mmu_state \<Rightarrow> ('a mmu_state \<times> mmu_unmap_result) res" where
  "unmap_loop m va sz st =
     (if sz = 0 then Inr (st, MMU_UNMAP_OK)
      else let g = gran m in
        if sz mod gran_bytes g \<noteq> 0 \<or> va mod gran_bytes g \<noteq> 0 then Inr (st, MMU_UNMAP_ERR)
        else rbind (get_target_lvl sz g va 0) (\<lambda>(target_lvl, cover).
             rbind (unmap_one m va sz target_lvl cover st) (\<lambda>(st, cover).
             unmap_loop m (va + cover) (sz - cover) st)))"
  by pat_completeness auto
termination
proof (relation "measure (\<lambda>(m, va, sz, st). unat sz)", goal_cases)
  case (2 m va sz st g x t c y s d)
  obtain t' where t': "get_target_lvl sz (gran m) va 0 = Inr (t', 2 ^ level_shift (gran m) t')"
    "2 ^ level_shift (gran m) t' \<le> sz"
    using get_target_lvl_ok [of sz "gran m" va 0] 2 by auto
  hence "c = 2 ^ level_shift (gran m) t'" using 2 by auto
  moreover have "(2 :: u64) ^ level_shift (gran m) t' \<noteq> 0"
    by (simp add: word_unat_eq_iff unat_exp level_shift_less)
  ultimately have "d \<noteq> 0 \<and> d \<le> sz"
    using 2 t' unmap_one_progress [of m va sz t c st s d] by auto
  hence "unat (sz - d) = unat sz - unat d" "0 < unat d" "unat d \<le> unat sz"
    by (auto simp: unat_sub word_le_nat_alt unat_gt_0)
  thus ?case using 2 by simp
qed simp

declare unmap_loop.simps [simp del]

definition mmu_unmap ::
  "'a mmu_mapping option \<Rightarrow> u64 \<Rightarrow> u64 \<Rightarrow> 'a mmu_state \<Rightarrow> ('a mmu_state \<times> mmu_unmap_result) res" where
  "mmu_unmap mp va sz st =
     (case mp of None \<Rightarrow> Inl Fault
      | Some m \<Rightarrow> if sz = 0 then Inr (st, MMU_UNMAP_OK) else unmap_loop m va sz st)"

section \<open>Walking\<close>

datatype walk_result_e = MMU_WALK_NULL_MAPPING | MMU_WALK_PAGE_UNMAPPED | MMU_WALK_PAGE_MAPPED

record mmu_walk_result =
  walk_result :: walk_result_e
  walk_cfg :: mmu_pg_cfg
  walk_pa :: u64

text \<open>The loop of \<open>mmu_walk_page\<close> with \<open>n\<close> levels left; the fields of the result object that the
  code does not assign keep the caller's values.\<close>

fun walk_loop ::
  "nat \<Rightarrow> 'a mmu_mapping \<Rightarrow> u64 \<Rightarrow> mmu_tbl_level \<Rightarrow> u64 \<Rightarrow> 'a mmu_state \<Rightarrow> mmu_walk_result \<Rightarrow>
   mmu_walk_result res" where
  "walk_loop 0 m va l tbl st r =
     Inl (Panic ''mmu_walk: walked all levels without finding a block descriptor'')"
| "walk_loop (Suc n) m va l tbl st r =
     (let g = gran m in
      rbind (mmu_tbl_get_dc st tbl (table_index va g l)) (\<lambda>dc.
      if \<not> dc_get_valid dc then Inr (r\<lparr>walk_result := MMU_WALK_PAGE_UNMAPPED\<rparr>)
      else rbind (dc_get_type dc g l) (\<lambda>ty.
        if ty = MMU_DESCRIPTOR_TABLE
        then rbind (tbl_from_td m dc l) (\<lambda>t. walk_loop n m va (l + 1) t st r)
        else rbind (dc_cover_bytes g l) (\<lambda>block_size.
             let block_offset = va AND (block_size - 1) in
             Inr (r\<lparr>walk_result := MMU_WALK_PAGE_MAPPED, walk_cfg := cfg_from_dc dc,
                    walk_pa := dc_get_output_address dc g + block_offset\<rparr>)))))"

definition mmu_walk_page ::
  "'a mmu_mapping option \<Rightarrow> u64 \<Rightarrow> 'a mmu_state \<Rightarrow> mmu_walk_result \<Rightarrow> mmu_walk_result res" where
  "mmu_walk_page mp va st r =
     (case mp of None \<Rightarrow> Inr (r\<lparr>walk_result := MMU_WALK_NULL_MAPPING\<rparr>)
      | Some m \<Rightarrow> walk_loop (Suc (max_level (gran m))) m va 0 (tbl_ptr m) st r)"

section \<open>Deletion\<close>

definition NULL_MAPPING_TBL :: u64 where
  "NULL_MAPPING_TBL = NOT 0"

definition mmu_mapping_is_valid :: "'a mmu_mapping \<Rightarrow> bool" where
  "mmu_mapping_is_valid m \<longleftrightarrow> tbl_ptr m \<noteq> NULL_MAPPING_TBL"

text \<open>\<open>MMU_NULL_MAPPING\<close> zeroes every other field; its function pointers are null, so that a call
  through them is a fault, and its granularity, 0 in the code, is not one of the enumeration.\<close>

definition MMU_NULL_MAPPING :: "'a mmu_mapping" where
  "MMU_NULL_MAPPING =
     \<lparr>rng = MMU_LO, gran = MMU_GRANULARITY_4KB, va_addr_bits = 0, physmap_offset = 0,
      tbl_ptr = NULL_MAPPING_TBL, allocator_fn = (\<lambda>_ _. Inl Fault),
      allocator_free_fn = (\<lambda>_ _. Inl Fault)\<rparr>"

definition mmu_delete_mapping ::
  "'a mmu_mapping \<Rightarrow> 'a mmu_state \<Rightarrow> ('a mmu_state \<times> 'a mmu_mapping) res" where
  "mmu_delete_mapping m st =
     rbind (free_tbl m (tbl_ptr m) 0 (st\<lparr>op_info := None\<rparr>)) (\<lambda>st'.
     Inr (st'\<lparr>op_info := op_info st\<rparr>, MMU_NULL_MAPPING))"

end
