(* ===== verification/Mmu_Walk.thy ===== *)
theory Mmu_Walk
  imports Mmu_Table Alloc_Iface
begin

text \<open>
  The invariant of a table tree and the meaning of \<open>mmu_walk_page\<close> on it.  A ghost map gives
  every table of a mapping its level; a table descriptor leads to a table of the next level, and
  no table is entered through two descriptors.  On such a tree the walk never fails, and the
  effect of a single table update on every walk is determined: linking a fresh table, writing a
  leaf, dropping a subtree.
\<close>

section \<open>Tables as maps\<close>

definition desc :: "(u64 \<Rightarrow> (nat \<Rightarrow> mmu_hw_dc) option) \<Rightarrow> u64 \<Rightarrow> nat \<Rightarrow> mmu_hw_dc" where
  "desc T t i = (case T t of None \<Rightarrow> 0 | Some f \<Rightarrow> f i)"

definition idx :: "'a mmu_mapping \<Rightarrow> u64 \<Rightarrow> mmu_tbl_level \<Rightarrow> nat" where
  "idx m va l = unat (table_index va (gran m) l)"

definition nents :: "'a mmu_mapping \<Rightarrow> nat" where
  "nents m = unat (tbl_entries (gran m))"

abbreviation (input) maxl :: "'a mmu_mapping \<Rightarrow> nat" where
  "maxl m \<equiv> max_level (gran m)"

definition is_tbl :: "'a mmu_mapping \<Rightarrow> nat \<Rightarrow> mmu_hw_dc \<Rightarrow> bool" where
  "is_tbl m l dc \<longleftrightarrow> dc_get_valid dc \<and> l < maxl m \<and> bit dc 1"

definition child :: "'a mmu_mapping \<Rightarrow> mmu_hw_dc \<Rightarrow> u64" where
  "child m dc = dc_get_output_address dc (gran m) + physmap_offset m"

text \<open>A descriptor that ends the walk: at the last level it must be a page descriptor, above it a
  block whose output address is aligned to its size.\<close>

definition leaf_ok :: "'a mmu_mapping \<Rightarrow> nat \<Rightarrow> mmu_hw_dc \<Rightarrow> bool" where
  "leaf_ok m l dc \<longleftrightarrow> dc_get_valid dc \<longrightarrow>
     (if l = maxl m then bit dc 1
      else bit dc 1 \<or> 2 ^ level_shift (gran m) l dvd unat (dc_get_output_address dc (gran m)))"

definition edge ::
  "'a mmu_mapping \<Rightarrow> (u64 \<Rightarrow> (nat \<Rightarrow> mmu_hw_dc) option) \<Rightarrow> (u64 \<Rightarrow> nat option) \<Rightarrow>
   u64 \<Rightarrow> nat \<Rightarrow> u64 \<Rightarrow> bool" where
  "edge m T lv t i c \<longleftrightarrow>
     (\<exists>l. lv t = Some l \<and> i < nents m \<and> is_tbl m l (desc T t i) \<and> child m (desc T t i) = c)"

definition tables_ok ::
  "'a mmu_mapping \<Rightarrow> (u64 \<Rightarrow> (nat \<Rightarrow> mmu_hw_dc) option) \<Rightarrow> (u64 \<Rightarrow> nat option) \<Rightarrow> bool" where
  "tables_ok m T lv \<longleftrightarrow>
     lv (tbl_ptr m) = Some 0 \<and>
     (\<forall>t l. lv t = Some l \<longrightarrow> l \<le> maxl m \<and> T t \<noteq> None) \<and>
     (\<forall>t l i c. lv t = Some l \<longrightarrow> edge m T lv t i c \<longrightarrow> lv c = Some (Suc l)) \<and>
     (\<forall>t i c t' i'. edge m T lv t i c \<longrightarrow> edge m T lv t' i' c \<longrightarrow> t = t' \<and> i = i') \<and>
     (\<forall>t l i. lv t = Some l \<longrightarrow> i < nents m \<longrightarrow> leaf_ok m l (desc T t i))"

lemma tables_okD:
  assumes "tables_ok m T lv"
  shows "lv (tbl_ptr m) = Some 0"
    and "lv t = Some l \<Longrightarrow> l \<le> maxl m"
    and "lv t = Some l \<Longrightarrow> T t \<noteq> None"
    and "lv t = Some l \<Longrightarrow> edge m T lv t i c \<Longrightarrow> lv c = Some (Suc l)"
    and "edge m T lv t i c \<Longrightarrow> edge m T lv t' i' c \<Longrightarrow> t = t' \<and> i = i'"
    and "lv t = Some l \<Longrightarrow> i < nents m \<Longrightarrow> leaf_ok m l (desc T t i)"
proof -
  note a = assms [unfolded tables_ok_def]
  show "lv (tbl_ptr m) = Some 0" using a by (rule conjunct1)
  note a = a [THEN conjunct2]
  show "lv t = Some l \<Longrightarrow> l \<le> maxl m" "lv t = Some l \<Longrightarrow> T t \<noteq> None"
    using a [THEN conjunct1, rule_format, of t l] by auto
  note a = a [THEN conjunct2]
  show "lv t = Some l \<Longrightarrow> edge m T lv t i c \<Longrightarrow> lv c = Some (Suc l)"
    by (rule a [THEN conjunct1, rule_format])
  note a = a [THEN conjunct2]
  show "edge m T lv t i c \<Longrightarrow> edge m T lv t' i' c \<Longrightarrow> t = t' \<and> i = i'"
    by (rule a [THEN conjunct1, rule_format])
  show "lv t = Some l \<Longrightarrow> i < nents m \<Longrightarrow> leaf_ok m l (desc T t i)"
    by (rule a [THEN conjunct2, rule_format])
qed

lemma tables_okI:
  assumes "lv (tbl_ptr m) = Some 0"
    and "\<And>t l. lv t = Some l \<Longrightarrow> l \<le> maxl m \<and> T t \<noteq> None"
    and "\<And>t l i c. lv t = Some l \<Longrightarrow> edge m T lv t i c \<Longrightarrow> lv c = Some (Suc l)"
    and "\<And>t i c t' i'. edge m T lv t i c \<Longrightarrow> edge m T lv t' i' c \<Longrightarrow> t = t' \<and> i = i'"
    and "\<And>t l i. lv t = Some l \<Longrightarrow> i < nents m \<Longrightarrow> leaf_ok m l (desc T t i)"
  shows "tables_ok m T lv"
  unfolding tables_ok_def by (intro conjI allI impI) (use assms in \<open>simp_all\<close>)

section \<open>Geometry\<close>

lemma nents_eq: "nents m = 2 ^ (page_bits (gran m) - 3)"
  by (cases "gran m")
    (simp_all add: nents_def tbl_entries_def gran_bytes_def page_bits_eq mmu_granularity_shift_def)

lemma unat_drop_bit_div: "unat (drop_bit k x :: u64) = unat x div 2 ^ k"
proof -
  have "take_bit 64 (unat x) = unat x"
    using unsigned_less [of x, where 'a = nat] by (intro take_bit_nat_eq_self) simp
  thus ?thesis unfolding unsigned_drop_bit_eq by (simp add: drop_bit_eq_div)
qed

lemma idx_eq:
  "idx m va l = unat va div 2 ^ level_shift (gran m) l mod 2 ^ (page_bits (gran m) - 3)"
  unfolding idx_def table_index_def Let_def push_bit_one_exp exp_minus_one_mask unat_and_mask
    unat_drop_bit_div ..

lemma idx_less: "idx m va l < nents m"
  by (simp add: idx_eq nents_eq)

lemma level_shift_Suc:
  "l < max_level g \<Longrightarrow> level_shift g l = level_shift g (Suc l) + (page_bits g - 3)"
proof -
  assume "l < max_level g"
  hence "max_level g - l = Suc (max_level g - Suc l)" by simp
  thus ?thesis unfolding level_shift_eq by simp
qed

lemma cover_Suc:
  "l < max_level g \<Longrightarrow> 2 ^ level_shift g l = 2 ^ level_shift g (Suc l) * (2 :: nat) ^ (page_bits g - 3)"
  by (simp add: level_shift_Suc power_add)

section \<open>The walk\<close>

definition leaf_result ::
  "'a mmu_mapping \<Rightarrow> nat \<Rightarrow> mmu_hw_dc \<Rightarrow> u64 \<Rightarrow> mmu_walk_result \<Rightarrow> mmu_walk_result" where
  "leaf_result m l dc va r =
     (if dc_get_valid dc
      then r\<lparr>walk_result := MMU_WALK_PAGE_MAPPED, walk_cfg := cfg_from_dc dc,
             walk_pa := dc_get_output_address dc (gran m) + (va AND (2 ^ level_shift (gran m) l - 1))\<rparr>
      else r\<lparr>walk_result := MMU_WALK_PAGE_UNMAPPED\<rparr>)"

text \<open>The walk from a table on, as a function of the tables alone.\<close>

definition walk_from ::
  "'a mmu_mapping \<Rightarrow> (u64 \<Rightarrow> (nat \<Rightarrow> mmu_hw_dc) option) \<Rightarrow> u64 \<Rightarrow> nat \<Rightarrow> u64 \<Rightarrow>
   mmu_walk_result \<Rightarrow> mmu_walk_result res" where
  "walk_from m T va l t r =
     walk_loop (Suc (maxl m) - l) m va l t \<lparr>tbls = T, alst = undefined, op_info = None\<rparr> r"

lemma walk_loop_tbls:
  "tbls st = tbls st' \<Longrightarrow> walk_loop n m va l t st r = walk_loop n m va l t st' r"
  by (induction n arbitrary: l t) (simp_all add: mmu_tbl_get_dc_def Let_def cong: if_cong)

lemma mmu_walk_page_eq: "mmu_walk_page (Some m) va st r = walk_from m (tbls st) va 0 (tbl_ptr m) r"
  by (simp add: mmu_walk_page_def walk_from_def del: walk_loop.simps) (rule walk_loop_tbls, simp)

lemma walk_step:
  fixes va :: u64
  assumes ok: "tables_ok m T lv" and l: "lv t = Some l"
  defines "dc \<equiv> desc T t (idx m va l)"
  shows "walk_from m T va l t r =
    (if is_tbl m l dc then walk_from m T va (Suc l) (child m dc) r else Inr (leaf_result m l dc va r))"
proof -
  note ml = tables_okD(2) [OF ok l]
  obtain f where f: "T t = Some f" using tables_okD(3) [OF ok l] by auto
  have lf: "leaf_ok m l dc" unfolding dc_def by (rule tables_okD(6) [OF ok l idx_less])
  have dc: "dc = f (unat (table_index va (gran m) l))" by (simp add: dc_def desc_def f idx_def)
  have n: "Suc (maxl m) - l = Suc (maxl m - l)" using ml by simp
  have "walk_from m T va l t r =
    (if \<not> dc_get_valid dc then Inr (r\<lparr>walk_result := MMU_WALK_PAGE_UNMAPPED\<rparr>)
     else rbind (dc_get_type dc (gran m) l) (\<lambda>ty.
       if ty = MMU_DESCRIPTOR_TABLE
       then rbind (tbl_from_td m dc l) (\<lambda>t. walk_from m T va (Suc l) t r)
       else rbind (dc_cover_bytes (gran m) l) (\<lambda>block_size.
         Inr (leaf_result m l dc va r))))"
    unfolding dc walk_from_def n using ml
    by (simp add: mmu_tbl_get_dc_def f dc_cover_bytes_eq leaf_result_def Let_def cong: if_cong)
  thus ?thesis
    using ml lf
    by (auto simp: is_tbl_def leaf_ok_def dc_get_type_eq tbl_from_td_def dc_cover_bytes_eq
        leaf_result_def child_def)
qed

lemma walk_total: "tables_ok m T lv \<Longrightarrow> lv t = Some l \<Longrightarrow> \<exists>r'. walk_from m T va l t r = Inr r'"
proof (induction "maxl m - l" arbitrary: t l rule: less_induct)
  case less
  let ?dc = "desc T t (idx m va l)"
  show ?case
  proof (cases "is_tbl m l ?dc")
    case True
    hence "edge m T lv t (idx m va l) (child m ?dc)"
      using less.prems by (auto simp: edge_def idx_less)
    hence "lv (child m ?dc) = Some (Suc l)" by (rule tables_okD(4) [OF less.prems])
    from less.hyps [OF _ less.prems(1) this] True show ?thesis
      by (auto simp: walk_step [OF less.prems] is_tbl_def)
  qed (simp add: walk_step [OF less.prems])
qed

section \<open>Effect of an update on the walks\<close>

lemma walk_frame:
  assumes ok: "tables_ok m T lv" and ok': "tables_ok m T' lv'"
    and same: "\<And>t' k. lv t' = Some k \<Longrightarrow> lv' t' = Some k"
    and other: "\<And>t' k j. lv t' = Some k \<Longrightarrow> t' \<noteq> t \<or> j \<noteq> i \<Longrightarrow> desc T' t' j = desc T t' j"
    and l: "lv t = Some l"
    and here: "\<And>va. idx m va l = i \<Longrightarrow> walk_from m T' va l t r = walk_from m T va l t r"
  shows "lv t0 = Some l0 \<Longrightarrow> walk_from m T' va l0 t0 r = walk_from m T va l0 t0 r"
proof (induction "maxl m - l0" arbitrary: t0 l0 rule: less_induct)
  case less
  show ?case
  proof (cases "t0 = t \<and> idx m va l0 = i")
    case True
    thus ?thesis using here [of va] l less.prems by auto
  next
    case False
    let ?dc = "desc T t0 (idx m va l0)"
    have dc: "desc T' t0 (idx m va l0) = ?dc" using other [OF less.prems] False by auto
    have "lv (child m ?dc) = Some (Suc l0)" if "is_tbl m l0 ?dc"
      using tables_okD(4) [OF ok less.prems, of "idx m va l0" "child m ?dc"] that less.prems
      by (auto simp: edge_def idx_less)
    thus ?thesis
      using less.hyps [of "Suc l0" "child m ?dc"]
      by (auto simp: walk_step [OF ok less.prems] walk_step [OF ok' same [OF less.prems]] dc is_tbl_def)
  qed
qed

text \<open>The table that the walk of an address reaches after \<open>n\<close> table descriptors.\<close>

fun reach ::
  "'a mmu_mapping \<Rightarrow> (u64 \<Rightarrow> (nat \<Rightarrow> mmu_hw_dc) option) \<Rightarrow> u64 \<Rightarrow> nat \<Rightarrow> u64 \<Rightarrow> nat \<Rightarrow> u64 option" where
  "reach m T va l t 0 = Some t"
| "reach m T va l t (Suc n) =
     (let dc = desc T t (idx m va l)
      in if is_tbl m l dc then reach m T va (Suc l) (child m dc) n else None)"

lemma walk_write:
  assumes ok: "tables_ok m T lv" and ok': "tables_ok m T' lv"
    and other: "\<And>t' k j. lv t' = Some k \<Longrightarrow> t' \<noteq> t \<or> j \<noteq> i \<Longrightarrow> desc T' t' j = desc T t' j"
    and l: "lv t = Some l" and leaf: "\<not> is_tbl m l (desc T' t i)"
  shows "lv t0 = Some l0 \<Longrightarrow> walk_from m T' va l0 t0 r =
    (if l0 \<le> l \<and> reach m T va l0 t0 (l - l0) = Some t \<and> idx m va l = i
     then Inr (leaf_result m l (desc T' t i) va r) else walk_from m T va l0 t0 r)"
proof (induction "maxl m - l0" arbitrary: t0 l0 rule: less_induct)
  case less
  let ?i = "idx m va l0"
  show ?case
  proof (cases "t0 = t")
    case t: True
    hence l0: "l0 = l" using l less.prems by simp
    show ?thesis
    proof (cases "?i = i")
      case True
      thus ?thesis using leaf by (simp add: t l0 walk_step [OF ok' l])
    next
      case False
      let ?dc = "desc T t ?i"
      have dc: "desc T' t ?i = ?dc" using other [OF l] False by auto
      have c: "lv (child m ?dc) = Some (Suc l)" if "is_tbl m l ?dc"
        using tables_okD(4) [OF ok l, of ?i "child m ?dc"] that l l0 by (auto simp: edge_def idx_less)
      show ?thesis
        using less.hyps [of "Suc l" "child m ?dc"] c False dc
        by (auto simp: t l0 walk_step [OF ok l] walk_step [OF ok' l] is_tbl_def)
    qed
  next
    case False
    let ?dc = "desc T t0 ?i"
    have dc: "desc T' t0 ?i = ?dc" using other [OF less.prems] False by auto
    have c: "lv (child m ?dc) = Some (Suc l0)" if "is_tbl m l0 ?dc"
      using tables_okD(4) [OF ok less.prems, of ?i "child m ?dc"] that less.prems
      by (auto simp: edge_def idx_less)
    have r: "reach m T va l0 t0 (l - l0) = Some t \<and> l0 \<le> l \<longleftrightarrow>
      l0 < l \<and> is_tbl m l0 ?dc \<and> reach m T va (Suc l0) (child m ?dc) (l - Suc l0) = Some t"
    proof (cases "l0 < l")
      case True
      hence "l - l0 = Suc (l - Suc l0)" by simp
      thus ?thesis using True by (simp add: Let_def)
    qed (use False in auto)
    show ?thesis
    proof (cases "is_tbl m l0 ?dc")
      case True
      hence "maxl m - Suc l0 < maxl m - l0" by (simp add: is_tbl_def diff_less_mono2)
      from less.hyps [OF this c [OF True]] True r show ?thesis
        by (auto simp: walk_step [OF ok less.prems] walk_step [OF ok' less.prems] dc Suc_le_eq)
    next
      case False
      thus ?thesis
        using r by (auto simp: walk_step [OF ok less.prems] walk_step [OF ok' less.prems] dc)
    qed
  qed
qed

section \<open>Updates that keep the invariant\<close>

lemma desc_upd: "desc (T(t \<mapsto> f)) t' j = (if t' = t then f j else desc T t' j)"
  by (simp add: desc_def)

lemma desc_Some: "T t = Some f \<Longrightarrow> desc T t j = f j"
  by (simp add: desc_def)

lemma link_ok:
  assumes ok: "tables_ok m T lv" and l: "lv t = Some l" and lm: "l < maxl m"
    and T: "T t = Some ft" and c: "lv c = None" and i: "i < nents m"
    and td: "is_tbl m l td" "child m td = c"
    and f: "\<And>j. j < nents m \<Longrightarrow> \<not> is_tbl m (Suc l) (f j) \<and> leaf_ok m (Suc l) (f j)"
  defines "T' \<equiv> T(c \<mapsto> f, t \<mapsto> ft(i := td))" and "lv' \<equiv> lv(c \<mapsto> Suc l)"
  shows "tables_ok m T' lv'"
proof (rule tables_okI)
  have ct: "c \<noteq> t" using c l by auto
  have e: "edge m T' lv' t' j c' \<longleftrightarrow>
    t' = t \<and> j = i \<and> c' = c \<or> edge m T lv t' j c' \<and> (t', j) \<noteq> (t, i)" for t' j c'
    using ct l td i f [of j]
    by (auto simp: edge_def T'_def lv'_def desc_upd desc_Some [of T t ft, OF T] c split: if_splits)
  have ec: "c' \<noteq> c" if "edge m T lv t' j c'" for t' j c'
    using that tables_okD(4) [OF ok _ that] c by (auto simp: edge_def)
  have et: "t' \<noteq> c" if "edge m T lv t' j c'" for t' j c'
    using that c by (auto simp: edge_def)
  show "lv' (tbl_ptr m) = Some 0" using tables_okD(1) [OF ok] c by (auto simp: lv'_def)
  show "k \<le> maxl m \<and> T' t' \<noteq> None" if "lv' t' = Some k" for t' k
    using that lm tables_okD(2,3) [OF ok, of t' k] by (auto simp: lv'_def T'_def split: if_splits)
  show "lv' c' = Some (Suc k)" if "lv' t' = Some k" "edge m T' lv' t' j c'" for t' k j c'
    using that(1) that(2) [unfolded e] l ct tables_okD(4) [OF ok, of t' k j c'] ec [of t' j c']
      et [of t' j c']
    by (auto simp: lv'_def split: if_splits)
  show "t1 = t2 \<and> j1 = j2" if "edge m T' lv' t1 j1 c'" "edge m T' lv' t2 j2 c'" for t1 j1 c' t2 j2
    using that ec [of t1 j1 c'] ec [of t2 j2 c'] tables_okD(5) [OF ok, of t1 j1 c' t2 j2]
    by (auto simp: e)
  show "leaf_ok m k (desc T' t' j)" if "lv' t' = Some k" "j < nents m" for t' k j
    using that l ct td(1) f [of j] tables_okD(6) [OF ok, of t' k j]
    by (auto simp: lv'_def T'_def desc_upd desc_Some [of T t ft, OF T] leaf_ok_def is_tbl_def split: if_splits)
qed

lemma write_ok:
  fixes i :: nat
  assumes ok: "tables_ok m T lv" and l: "lv t = Some l" and T: "T t = Some ft"
    and dc: "\<not> is_tbl m l dc" "leaf_ok m l dc"
  defines "T' \<equiv> T(t \<mapsto> ft(i := dc))"
  shows "tables_ok m T' lv"
proof (rule tables_okI)
  have e: "edge m T' lv t' j c' \<longleftrightarrow> edge m T lv t' j c' \<and> (t', j) \<noteq> (t, i)" for t' j c'
    using l dc by (auto simp: edge_def T'_def desc_upd desc_Some [of T t ft, OF T] split: if_splits)
  show "lv (tbl_ptr m) = Some 0" by (rule tables_okD(1) [OF ok])
  show "k \<le> maxl m \<and> T' t' \<noteq> None" if "lv t' = Some k" for t' k
    using tables_okD(2,3) [OF ok that] by (auto simp: T'_def)
  show "lv c' = Some (Suc k)" if "lv t' = Some k" "edge m T' lv t' j c'" for t' k j c'
    using that tables_okD(4) [OF ok, of t' k j c'] by (auto simp: e)
  show "t1 = t2 \<and> j1 = j2" if "edge m T' lv t1 j1 c'" "edge m T' lv t2 j2 c'" for t1 j1 c' t2 j2
    using that tables_okD(5) [OF ok, of t1 j1 c' t2 j2] by (auto simp: e)
  show "leaf_ok m k (desc T' t' j)" if "lv t' = Some k" "j < nents m" for t' k j
    using that l dc(2) tables_okD(6) [OF ok, of t' k j]
    by (auto simp: T'_def desc_upd desc_Some [of T t ft, OF T])
qed

lemma drop_ok:
  assumes ok: "tables_ok m T lv" and root: "tbl_ptr m \<notin> R"
    and keep: "\<And>t'. t' \<notin> R \<Longrightarrow> T' t' = T t'"
    and out: "\<And>t' j c'. edge m T lv t' j c' \<Longrightarrow> t' \<notin> R \<Longrightarrow> c' \<notin> R"
  defines "lv' \<equiv> lv |` (- R)"
  shows "tables_ok m T' lv'"
proof (rule tables_okI)
  have d: "desc T' t' j = desc T t' j" if "t' \<notin> R" for t' j
    by (simp add: desc_def keep [OF that])
  have e: "edge m T' lv' t' j c' \<longleftrightarrow> edge m T lv t' j c' \<and> t' \<notin> R" for t' j c'
    by (auto simp: edge_def lv'_def restrict_map_def d)
  show "lv' (tbl_ptr m) = Some 0" using root tables_okD(1) [OF ok] by (simp add: lv'_def)
  show "k \<le> maxl m \<and> T' t' \<noteq> None" if "lv' t' = Some k" for t' k
    using that tables_okD(2,3) [OF ok, of t' k]
    by (auto simp: lv'_def restrict_map_def keep split: if_splits)
  show "lv' c' = Some (Suc k)" if "lv' t' = Some k" "edge m T' lv' t' j c'" for t' k j c'
    using that(1) that(2) [unfolded e] tables_okD(4) [OF ok, of t' k j c'] out [of t' j c']
    by (auto simp: lv'_def restrict_map_def split: if_splits)
  show "t1 = t2 \<and> j1 = j2" if "edge m T' lv' t1 j1 c'" "edge m T' lv' t2 j2 c'" for t1 j1 c' t2 j2
    using that tables_okD(5) [OF ok, of t1 j1 c' t2 j2] by (auto simp: e)
  show "leaf_ok m k (desc T' t' j)" if "lv' t' = Some k" "j < nents m" for t' k j
    using that tables_okD(6) [OF ok, of t' k j]
    by (auto simp: lv'_def restrict_map_def d split: if_splits)
qed

lemma walk_drop:
  assumes ok: "tables_ok m T lv" and root: "tbl_ptr m \<notin> R"
    and keep: "\<And>t'. t' \<notin> R \<Longrightarrow> T' t' = T t'"
    and out: "\<And>t' j c'. edge m T lv t' j c' \<Longrightarrow> t' \<notin> R \<Longrightarrow> c' \<notin> R"
  shows "lv t = Some l \<Longrightarrow> t \<notin> R \<Longrightarrow> walk_from m T' va l t r = walk_from m T va l t r"
proof (induction "maxl m - l" arbitrary: t l rule: less_induct)
  case less
  let ?dc = "desc T t (idx m va l)"
  have l': "(lv |` (- R)) t = Some l" using less.prems by simp
  have dc: "desc T' t (idx m va l) = ?dc" by (simp add: desc_def keep [OF less.prems(2)])
  have e: "edge m T lv t (idx m va l) (child m ?dc)" if "is_tbl m l ?dc"
    using that less.prems by (auto simp: edge_def idx_less)
  show ?case
  proof (cases "is_tbl m l ?dc")
    case True
    hence "maxl m - Suc l < maxl m - l" by (simp add: is_tbl_def diff_less_mono2)
    from less.hyps [OF this tables_okD(4) [OF ok less.prems(1) e] out [OF e less.prems(2)]] True
    show ?thesis
      by (simp add: walk_step [OF ok less.prems(1)] walk_step [OF drop_ok [OF ok root keep out] l'] dc)
  next
    case False
    thus ?thesis
      by (simp add: walk_step [OF ok less.prems(1)] walk_step [OF drop_ok [OF ok root keep out] l'] dc)
  qed
qed

section \<open>Paths\<close>

lemma reach_snoc:
  "reach m T va l t (Suc n) =
    (case reach m T va l t n of None \<Rightarrow> None
     | Some t' \<Rightarrow> let dc = desc T t' (idx m va (l + n))
         in if is_tbl m (l + n) dc then Some (child m dc) else None)"
proof (induction n arbitrary: l t)
  case (Suc n)
  let ?dc = "desc T t (idx m va l)"
  show ?case
  proof (cases "is_tbl m l ?dc")
    case True
    hence "reach m T va l t (Suc k) = reach m T va (Suc l) (child m ?dc) k" for k
      by (simp add: Let_def)
    thus ?thesis using Suc.IH [of "Suc l" "child m ?dc"] by (simp only: add_Suc_shift)
  next
    case False
    hence "reach m T va l t (Suc k) = None" for k by (simp add: Let_def)
    thus ?thesis by (simp only: option.case)
  qed
qed (simp add: Let_def)

lemma reach_level:
  "tables_ok m T lv \<Longrightarrow> lv t = Some l \<Longrightarrow> reach m T va l t n = Some t' \<Longrightarrow> lv t' = Some (l + n)"
proof (induction n arbitrary: l t)
  case (Suc n)
  let ?c = "child m (desc T t (idx m va l))"
  from Suc.prems(2,3) have e: "edge m T lv t (idx m va l) ?c" "reach m T va (Suc l) ?c n = Some t'"
    by (auto simp: Let_def edge_def idx_less split: if_splits)
  from Suc.IH [OF Suc.prems(1) tables_okD(4) [OF Suc.prems(1,2) e(1)] e(2)] show ?case by simp
qed simp

lemma reach_edge:
  assumes "tables_ok m T lv" and "lv t = Some l" and "reach m T va l t (Suc n) = Some c"
  obtains p where "reach m T va l t n = Some p" and "edge m T lv p (idx m va (l + n)) c"
  using assms reach_level [OF assms(1,2), of va n]
  by (auto simp: reach_snoc Let_def edge_def idx_less simp del: reach.simps
      split: option.splits if_splits)

lemma reach_iff:
  assumes ok: "tables_ok m T lv" and r: "lv t0 = Some l0" and va: "reach m T va l0 t0 n = Some t"
  shows "reach m T v l0 t0 n = Some t \<longleftrightarrow> (\<forall>k<n. idx m v (l0 + k) = idx m va (l0 + k))"
  using va
proof (induction n arbitrary: t)
  case (Suc n)
  obtain p where p: "reach m T va l0 t0 n = Some p" "edge m T lv p (idx m va (l0 + n)) t"
    using reach_edge [OF ok r Suc.prems] .
  have lp: "lv p = Some (l0 + n)" by (rule reach_level [OF ok r p(1)])
  show ?case
  proof
    assume "reach m T v l0 t0 (Suc n) = Some t"
    then obtain q where q: "reach m T v l0 t0 n = Some q" "edge m T lv q (idx m v (l0 + n)) t"
      using reach_edge [OF ok r] by metis
    from tables_okD(5) [OF ok q(2) p(2)] q(1) Suc.IH [OF p(1)]
    show "\<forall>k<Suc n. idx m v (l0 + k) = idx m va (l0 + k)" by (auto simp: less_Suc_eq)
  next
    assume a: "\<forall>k<Suc n. idx m v (l0 + k) = idx m va (l0 + k)"
    hence "reach m T v l0 t0 n = Some p" using Suc.IH [OF p(1)] by simp
    thus "reach m T v l0 t0 (Suc n) = Some t"
      using p(2) a lp by (auto simp: reach_snoc Let_def edge_def simp del: reach.simps)
  qed
qed simp

section \<open>Addresses that share a path\<close>

lemma div_cover_Suc:
  assumes "l < maxl m"
  shows "unat v div 2 ^ level_shift (gran m) (Suc l) =
    unat v div 2 ^ level_shift (gran m) l * nents m + idx m v (Suc l)"
proof -
  have "unat v div 2 ^ level_shift (gran m) l = unat v div 2 ^ level_shift (gran m) (Suc l) div nents m"
    unfolding cover_Suc [OF assms] nents_eq by (rule div_mult2_eq)
  thus ?thesis by (simp only: idx_eq nents_eq div_mult_mod_eq)
qed

lemma path_eq_iff:
  assumes "l \<le> maxl m" and "unat v div 2 ^ level_shift (gran m) 0 div nents m =
      unat w div 2 ^ level_shift (gran m) 0 div nents m"
  shows "(\<forall>k\<le>l. idx m v k = idx m w k) \<longleftrightarrow>
    unat v div 2 ^ level_shift (gran m) l = unat w div 2 ^ level_shift (gran m) l"
  using assms(1)
proof (induction l)
  case 0
  have "unat x div 2 ^ level_shift (gran m) 0 =
    unat x div 2 ^ level_shift (gran m) 0 div nents m * nents m + idx m x 0" for x
    by (simp only: idx_eq nents_eq div_mult_mod_eq)
  from this [of v] this [of w] assms(2) show ?case
    using div_mult_mod_eq by (auto simp: idx_eq nents_eq)
next
  case (Suc l)
  have "a * nents m + idx m v (Suc l) = b * nents m + idx m w (Suc l) \<longleftrightarrow>
    a = b \<and> idx m v (Suc l) = idx m w (Suc l)" for a b
    using idx_less [of m v "Suc l"] idx_less [of m w "Suc l"]
    by (metis add_right_cancel div_mult_self3 div_less add.commute add.left_neutral nat_mult_eq_cancel_disj
        less_nat_zero_code add_left_cancel)
  thus ?case
    using Suc by (auto simp: le_Suc_eq div_cover_Suc Suc_le_eq)
qed

lemma same_cover_iff:
  fixes v w :: nat
  assumes "2 ^ k dvd w"
  shows "v div 2 ^ k = w div 2 ^ k \<longleftrightarrow> w \<le> v \<and> v < w + 2 ^ k"
proof -
  obtain q where q: "w = 2 ^ k * q" using assms by blast
  hence "w div 2 ^ k = q" by simp
  moreover have "v div 2 ^ k = q \<longleftrightarrow> 2 ^ k * q \<le> v \<and> v < 2 ^ k * (q + 1)"
    by (metis div_nat_eqI dividend_less_times_div mult.commute times_div_less_eq_dividend
        Suc_eq_plus1 mult_Suc_right zero_less_numeral zero_less_power add.commute)
  ultimately show ?thesis by (simp add: q add.commute)
qed

end
