(* ===== verification/Mmu_Range.thy ===== *)
theory Mmu_Range
  imports Mmu_Walk
begin

text \<open>
  The address range of a mapping.  \<open>is_in_range\<close> of \<open>src/arm/mmu/mmu.c\<close> tests bits of the two
  ends of a range; here it is read as a statement about the whole range: it does not wrap, and
  every address of it lies in the half of the address space that the mapping translates.
\<close>

definition va_half :: "'a mmu_mapping \<Rightarrow> u64 \<Rightarrow> bool" where
  "va_half m v \<longleftrightarrow>
     (let k = unat (va_addr_bits m) - 1
      in unat v div 2 ^ k = (if rng m = MMU_LO then 0 else 2 ^ (64 - k) - 1))"

definition va_bits_ok :: "'a mmu_mapping \<Rightarrow> bool" where
  "va_bits_ok m \<longleftrightarrow> 1 \<le> unat (va_addr_bits m) \<and>
     unat (va_addr_bits m) \<le> level_shift (gran m) 0 + (page_bits (gran m) - 3)"

lemma va_bits_less: "va_bits_ok m \<Longrightarrow> unat (va_addr_bits m) < 64"
  by (cases "gran m")
    (auto simp: va_bits_ok_def level_shift_eq page_bits_eq mmu_granularity_shift_def max_level_def)

lemma unat_sub_one: "1 \<le> unat (b :: u64) \<Longrightarrow> unat (b - 1) = unat b - 1"
  by (rule unat_minus_one) auto

lemma unat_mask_64: "n \<le> 64 \<Longrightarrow> unat (mask n :: u64) = 2 ^ n - 1"
  by (subst mask_eq_exp_minus_1 [symmetric], rule bit_eqI) (auto simp: bit_unsigned_iff bit_mask_iff)

lemma high_bits_zero: "(\<forall>n\<ge>k. \<not> bit v n) \<longleftrightarrow> unat v div 2 ^ k = 0" for v :: u64
proof -
  have "(\<forall>n\<ge>k. \<not> bit v n) \<longleftrightarrow> drop_bit k v = 0"
  proof
    assume "\<forall>n\<ge>k. \<not> bit v n"
    thus "drop_bit k v = 0" by (intro bit_word_eqI) (auto simp: bit_simps)
  next
    assume a: "drop_bit k v = 0"
    have "bit v n = bit (drop_bit k v) (n - k)" if "k \<le> n" for n
      using that by (simp add: bit_drop_bit_eq)
    thus "\<forall>n\<ge>k. \<not> bit v n" by (simp add: a)
  qed
  also have "\<dots> \<longleftrightarrow> unat v div 2 ^ k = 0"
    unfolding word_unat_eq_iff unat_drop_bit_div by simp
  finally show ?thesis .
qed

lemma high_bits_one:
  fixes v :: u64
  assumes "k < 64"
  shows "(\<forall>n. k \<le> n \<and> n < 64 \<longrightarrow> bit v n) \<longleftrightarrow> unat v div 2 ^ k = 2 ^ (64 - k) - 1"
proof -
  have "(\<forall>n. k \<le> n \<and> n < 64 \<longrightarrow> bit v n) \<longleftrightarrow> drop_bit k v = mask (64 - k)"
  proof
    assume a: "\<forall>n. k \<le> n \<and> n < 64 \<longrightarrow> bit v n"
    show "drop_bit k v = mask (64 - k)"
    proof (rule bit_word_eqI)
      fix n assume "n < LENGTH(64)"
      thus "bit (drop_bit k v) n = bit (mask (64 - k) :: u64) n"
        using a [rule_format, of "k + n"] bit_imp_le_length [of v "k + n"]
        by (auto simp: bit_simps)
    qed
  next
    assume a: "drop_bit k v = mask (64 - k)"
    have "bit v n = bit (drop_bit k v) (n - k)" if "k \<le> n" for n
      using that by (simp add: bit_drop_bit_eq)
    thus "\<forall>n. k \<le> n \<and> n < 64 \<longrightarrow> bit v n" by (auto simp: a bit_simps)
  qed
  also have "\<dots> \<longleftrightarrow> unat v div 2 ^ k = 2 ^ (64 - k) - 1"
  proof -
    have "unat (mask (64 - k) :: u64) = 2 ^ (64 - k) - 1"
      by (simp add: unat_mask_64)
    thus ?thesis unfolding word_unat_eq_iff unat_drop_bit_div by simp
  qed
  finally show ?thesis .
qed

lemma canonical_iff:
  assumes "1 \<le> unat b" and "unat b < 64"
  shows "canonical b v \<longleftrightarrow>
    (if bit v (unat b - 1) then unat v div 2 ^ (unat b - 1) = 2 ^ (64 - (unat b - 1)) - 1
     else unat v div 2 ^ (unat b - 1) = 0)"
proof -
  let ?k = "unat b - 1"
  have k: "unat (b - 1) = ?k" by (rule unat_sub_one [OF assms(1)])
  have m: "push_bit (unat b) 1 - 1 = (mask (unat b) :: u64)"
    by (simp add: push_bit_one_exp exp_minus_one_mask)
  have s: "drop_bit ?k v AND 1 \<noteq> 0 \<longleftrightarrow> bit v ?k"
    by (simp add: and_one_eq bit_iff_odd_drop_bit odd_iff_mod_2_eq_one)
  have z: "v AND NOT (mask (unat b)) = 0 \<longleftrightarrow> (\<forall>n\<ge>unat b. \<not> bit v n)"
    using bit_imp_le_length [of v] by (subst bit_eq_iff) (auto simp: bit_simps not_less)
  have u: "v AND NOT (mask (unat b)) = NOT (mask (unat b)) \<longleftrightarrow> (\<forall>n. unat b \<le> n \<and> n < 64 \<longrightarrow> bit v n)"
    by (subst bit_eq_iff) (auto simp: bit_simps)
  have split: "n \<ge> ?k \<longleftrightarrow> n = ?k \<or> n \<ge> unat b" for n using assms(1) by auto
  show ?thesis
  proof (cases "bit v ?k")
    case True
    have "canonical b v \<longleftrightarrow> (\<forall>n. unat b \<le> n \<and> n < 64 \<longrightarrow> bit v n)"
      unfolding canonical_def Let_def k m if_P [OF True [folded s]] by (rule u)
    also have "\<dots> \<longleftrightarrow> (\<forall>n. ?k \<le> n \<and> n < 64 \<longrightarrow> bit v n)" using True split by metis
    finally show ?thesis using True assms by (simp add: high_bits_one)
  next
    case False
    have "canonical b v \<longleftrightarrow> (\<forall>n\<ge>unat b. \<not> bit v n)"
      unfolding canonical_def Let_def k m if_not_P [OF False [folded s]]
      by (rule z)
    also have "\<dots> \<longleftrightarrow> (\<forall>n\<ge>?k. \<not> bit v n)" using False split by metis
    finally show ?thesis using False by (simp add: high_bits_zero)
  qed
qed

lemma va_half_iff:
  assumes "va_bits_ok m"
  defines "k \<equiv> unat (va_addr_bits m) - 1"
  shows "va_half m v \<longleftrightarrow> canonical (va_addr_bits m) v \<and> bit v k = (rng m = MMU_HI)"
proof -
  have b: "1 \<le> unat (va_addr_bits m)" "unat (va_addr_bits m) < 64"
    using assms(1) va_bits_less by (auto simp: va_bits_ok_def)
  have k: "k < 64" using b by (simp add: k_def)
  have "(2 :: nat) ^ 1 \<le> 2 ^ (64 - k)" using k by (intro power_increasing) auto
  hence ne: "(2 :: nat) ^ (64 - k) - 1 \<noteq> 0" by simp
  have hi: "bit v k" if "unat v div 2 ^ k = 2 ^ (64 - k) - 1"
    using that high_bits_one [OF k, of v] k by auto
  have lo: "\<not> bit v k" if "unat v div 2 ^ k = 0" using that high_bits_zero [of k v] by auto
  show ?thesis
    unfolding va_half_def Let_def canonical_iff [OF b] k_def [symmetric]
    using hi lo ne by (cases "rng m") auto
qed

lemma unat_range_end:
  fixes va sz :: u64
  assumes "sz \<noteq> 0" and "unat va + unat sz \<le> 2 ^ 64"
  shows "unat (va + sz - 1) = unat va + unat sz - 1"
proof -
  have s: "1 \<le> unat sz" using assms by (simp add: unat_gt_0 Suc_le_eq)
  have u: "unat (sz - 1) = unat sz - 1" by (rule unat_minus_one [OF assms(1)])
  have "unat (va + (sz - 1)) = unat va + unat (sz - 1)"
    using assms(2) s u by (subst unat_add_lem [symmetric]) simp
  thus ?thesis using s u by (simp add: add_diff_eq)
qed

lemma no_wrap_iff:
  fixes va sz :: u64
  assumes "sz \<noteq> 0"
  shows "\<not> va + sz - 1 < va \<longleftrightarrow> unat va + unat sz \<le> 2 ^ 64"
proof (cases "unat va + unat sz \<le> 2 ^ 64")
  case True
  thus ?thesis using unat_range_end [OF assms True] assms unat_gt_0 [of sz]
    by (simp add: word_less_nat_alt)
next
  case False
  have u: "unat (sz - 1) = unat sz - 1" by (rule unat_minus_one [OF assms])
  have "unat (va + (sz - 1)) = unat va + (unat sz - 1) - 2 ^ 64"
    using unat_plus_if' [of va "sz - 1"] u False unat_gt_0 [of sz] assms by (simp split: if_splits)
  moreover have "unat sz < 2 ^ 64" using unsigned_less [of sz, where 'a = nat] by simp
  ultimately have "unat (va + sz - 1) < unat va" using False by (simp add: add_diff_eq)
  thus ?thesis using False by (simp add: word_less_nat_alt)
qed

lemma is_in_range_iff:
  assumes "va_bits_ok m"
  shows "is_in_range m va sz \<longleftrightarrow>
    sz \<noteq> 0 \<and> unat va + unat sz \<le> 2 ^ 64 \<and> va_half m va \<and> va_half m (va + sz - 1)"
proof -
  let ?k = "unat (va_addr_bits m) - 1"
  have k: "unat (va_addr_bits m - 1) = ?k" "?k < 64"
    using assms va_bits_less [OF assms] by (auto simp: va_bits_ok_def unat_sub_one)
  have s: "v AND push_bit ?k 1 \<noteq> 0 \<longleftrightarrow> bit v ?k" for v :: u64
    using k(2) by (simp add: push_bit_one_exp and_exp_eq_0)
  show ?thesis
  proof (cases "sz = 0")
    case False
    show ?thesis
      unfolding is_in_range_def Let_def k(1) s va_half_iff [OF assms] no_wrap_iff [OF False, symmetric]
      using False by (cases "rng m") auto
  qed (simp add: is_in_range_def)
qed

text \<open>Every address of a range in the mapping's half is in that half.\<close>

lemma va_half_between:
  assumes "va_half m a" and "va_half m b" and "a \<le> v" and "v \<le> b"
  shows "va_half m v"
proof -
  let ?k = "unat (va_addr_bits m) - 1"
  have "unat a div 2 ^ ?k \<le> unat v div 2 ^ ?k" "unat v div 2 ^ ?k \<le> unat b div 2 ^ ?k"
    using assms(3,4) by (simp_all add: word_le_nat_alt div_le_mono)
  moreover have "unat a div 2 ^ ?k = unat b div 2 ^ ?k"
    using assms(1,2) by (simp add: va_half_def Let_def)
  ultimately have "unat v div 2 ^ ?k = unat a div 2 ^ ?k" by simp
  thus ?thesis using assms(1) by (simp add: va_half_def Let_def)
qed

lemma in_rangeD:
  assumes "va_bits_ok m" and "is_in_range m va sz" and "unat va \<le> unat v"
    and "unat v < unat va + unat sz"
  shows "va_half m v"
proof -
  have a: "sz \<noteq> 0" "unat va + unat sz \<le> 2 ^ 64" "va_half m va" "va_half m (va + sz - 1)"
    using assms(2) is_in_range_iff [OF assms(1)] by auto
  have "v \<le> va + sz - 1"
    using assms(4) unat_range_end [OF a(1,2)] unat_gt_0 [of sz] by (simp add: word_le_nat_alt)
  thus ?thesis using va_half_between [OF a(3,4), of v] assms(3) by (simp add: word_le_nat_alt)
qed

lemma half_prefix:
  assumes "va_bits_ok m" and "va_half m v" and "va_half m w"
  shows "unat v div 2 ^ level_shift (gran m) 0 div nents m =
    unat w div 2 ^ level_shift (gran m) 0 div nents m"
proof -
  let ?k = "unat (va_addr_bits m) - 1" and ?n = "level_shift (gran m) 0 + (page_bits (gran m) - 3)"
  have "?k \<le> ?n" using assms(1) unfolding va_bits_ok_def by linarith
  hence "unat x div 2 ^ ?n = unat x div 2 ^ ?k div 2 ^ (?n - ?k)" for x :: u64
    by (simp flip: div_mult2_eq power_add)
  moreover have "unat v div 2 ^ ?k = unat w div 2 ^ ?k"
    using assms(2,3) by (simp add: va_half_def Let_def)
  ultimately have "unat v div 2 ^ ?n = unat w div 2 ^ ?n" by simp
  thus ?thesis by (simp add: nents_eq power_add div_mult2_eq)
qed

text \<open>Property C18: \<open>is_in_range\<close> accepts a range exactly when it is not empty, does not wrap around
  the address space and every single address in it lies in the half of the address space (all upper
  bits clear for the low mapping, all set for the high one) that the mapping translates.\<close>
theorem is_in_range_spec:
  assumes "va_bits_ok m"
  shows "is_in_range m va sz \<longleftrightarrow>
    sz \<noteq> 0 \<and> unat va + unat sz \<le> 2 ^ 64 \<and>
    (\<forall>v. unat va \<le> unat v \<and> unat v < unat va + unat sz \<longrightarrow> va_half m v)"
proof
  assume a: "is_in_range m va sz"
  thus "sz \<noteq> 0 \<and> unat va + unat sz \<le> 2 ^ 64 \<and>
    (\<forall>v. unat va \<le> unat v \<and> unat v < unat va + unat sz \<longrightarrow> va_half m v)"
    using is_in_range_iff [OF assms, of va sz] in_rangeD [OF assms a] by auto
next
  assume a: "sz \<noteq> 0 \<and> unat va + unat sz \<le> 2 ^ 64 \<and>
    (\<forall>v. unat va \<le> unat v \<and> unat v < unat va + unat sz \<longrightarrow> va_half m v)"
  hence "unat (va + sz - 1) = unat va + unat sz - 1" by (intro unat_range_end) auto
  thus "is_in_range m va sz"
    using a unat_gt_0 [of sz] is_in_range_iff [OF assms, of va sz] by auto
qed

definition kernel_hi_mapping :: "unit mmu_mapping" where
  "kernel_hi_mapping =
     \<lparr>rng = MMU_HI, gran = MMU_GRANULARITY_4KB, va_addr_bits = 48,
      physmap_offset = 0xFFFF800000000000, tbl_ptr = 0xFFFF800040000000,
      allocator_fn = (\<lambda>_ _. Inl Fault), allocator_free_fn = (\<lambda>_ _. Inl Fault)\<rparr>"

lemma kernel_hi_bits_ok: "va_bits_ok kernel_hi_mapping"
  by (simp add: va_bits_ok_def kernel_hi_mapping_def level_shift_eq page_bits_eq
      mmu_granularity_shift_def max_level_def)

theorem is_in_range_spec_witness:
  "va_bits_ok kernel_hi_mapping \<and> is_in_range kernel_hi_mapping 0xFFFF800040000000 0x200000 \<and>
   va_half kernel_hi_mapping 0xFFFF8000401FFFFF \<and>
   \<not> is_in_range kernel_hi_mapping 0x7FFFFFFFF000 0x2000"
proof -
  have r: "is_in_range kernel_hi_mapping 0xFFFF800040000000 0x200000" by code_simp
  have n: "\<not> is_in_range kernel_hi_mapping 0x7FFFFFFFF000 0x2000" by code_simp
  from r is_in_range_spec [OF kernel_hi_bits_ok, of "0xFFFF800040000000" "0x200000"]
  have "\<forall>v. unat (0xFFFF800040000000 :: u64) \<le> unat v \<and>
    unat v < unat (0xFFFF800040000000 :: u64) + unat (0x200000 :: u64) \<longrightarrow> va_half kernel_hi_mapping v"
    by blast
  from this [rule_format, of "0xFFFF8000401FFFFF"] kernel_hi_bits_ok r n show ?thesis by simp
qed

end
