(* ===== verification/Mmu_Map.thy ===== *)
theory Mmu_Map
  imports Mmu_Range
begin

text \<open>
  Correctness of \<open>mmu_map\<close>.  What the table code relies on is the interface \<open>table_alloc\<close>: an
  allocator in the sense of \<open>allocator\<close> whose tables are aligned to the granule and whose physical
  addresses fit a table descriptor.  On top of it, a successful \<open>mmu_map\<close> changes the translation
  of exactly the requested range, and nothing but the allocator can make it fail on a range that
  is not mapped yet.
\<close>

locale table_alloc =
  allocator repr span "allocator_fn m" "allocator_free_fn m"
  for repr :: "'s \<Rightarrow> u64 set \<Rightarrow> bool" and span :: "u64 \<Rightarrow> nat set" and m :: "'s mmu_mapping" +
  assumes alloc_fits: "repr s A \<Longrightarrow> allocator_fn m (gran_bytes (gran m)) s = Inr (s', t) \<Longrightarrow>
    pa_fits (gran m) (t - physmap_offset m) \<and> t mod gran_bytes (gran m) = 0"

definition mmu_inv ::
  "('s \<Rightarrow> u64 set \<Rightarrow> bool) \<Rightarrow> 's mmu_mapping \<Rightarrow> 's mmu_state \<Rightarrow> (u64 \<Rightarrow> nat option) \<Rightarrow> bool" where
  "mmu_inv repr m st lv \<longleftrightarrow> tables_ok m (tbls st) lv \<and> (\<exists>A. repr (alst st) A \<and> dom (tbls st) \<subseteq> A)"

text \<open>A step that may add tables to the tree but keeps every translation, every table descriptor and
  every table that does not belong to the mapping.\<close>

definition grows ::
  "'s mmu_mapping \<Rightarrow> 's mmu_state \<Rightarrow> (u64 \<Rightarrow> nat option) \<Rightarrow> 's mmu_state \<Rightarrow> (u64 \<Rightarrow> nat option) \<Rightarrow> bool" where
  "grows m st lv st' lv' \<longleftrightarrow>
     (\<forall>t k. lv t = Some k \<longrightarrow> lv' t = Some k) \<and>
     (\<forall>t i c. edge m (tbls st) lv t i c \<longrightarrow> edge m (tbls st') lv' t i c) \<and>
     (\<forall>v t k r. lv t = Some k \<longrightarrow>
        walk_from m (tbls st') v k t r = walk_from m (tbls st) v k t r) \<and>
     (\<forall>t. lv t = None \<longrightarrow> tbls st t \<noteq> None \<longrightarrow> tbls st' t = tbls st t \<and> lv' t = None)"

lemma growsI:
  assumes "\<And>t k. lv t = Some k \<Longrightarrow> lv' t = Some k"
    and "\<And>t i c. edge m (tbls st) lv t i c \<Longrightarrow> edge m (tbls st') lv' t i c"
    and "\<And>v t k r. lv t = Some k \<Longrightarrow> walk_from m (tbls st') v k t r = walk_from m (tbls st) v k t r"
    and "\<And>t. lv t = None \<Longrightarrow> tbls st t \<noteq> None \<Longrightarrow> tbls st' t = tbls st t \<and> lv' t = None"
  shows "grows m st lv st' lv'"
  unfolding grows_def using assms by blast

lemma growsD:
  assumes "grows m st lv st' lv'"
  shows "lv t = Some k \<Longrightarrow> lv' t = Some k"
    and "edge m (tbls st) lv t i c \<Longrightarrow> edge m (tbls st') lv' t i c"
    and "lv t = Some k \<Longrightarrow> walk_from m (tbls st') v k t r = walk_from m (tbls st) v k t r"
    and "lv t = None \<Longrightarrow> tbls st t \<noteq> None \<Longrightarrow> tbls st' t = tbls st t \<and> lv' t = None"
  using assms unfolding grows_def by blast+

lemma grows_trans:
  assumes "grows m st lv st' lv'" and "grows m st' lv' st'' lv''"
  shows "grows m st lv st'' lv''"
proof (rule growsI)
  show "lv'' t = Some k" if "lv t = Some k" for t k
    by (rule growsD(1) [OF assms(2) growsD(1) [OF assms(1) that]])
  show "edge m (tbls st'') lv'' t i c" if "edge m (tbls st) lv t i c" for t i c
    by (rule growsD(2) [OF assms(2) growsD(2) [OF assms(1) that]])
  show "walk_from m (tbls st'') v k t r = walk_from m (tbls st) v k t r" if "lv t = Some k" for v t k r
    using growsD(3) [OF assms(1) that] growsD(3) [OF assms(2) growsD(1) [OF assms(1) that]] by simp
  show "tbls st'' t = tbls st t \<and> lv'' t = None" if "lv t = None" "tbls st t \<noteq> None" for t
    using growsD(4) [OF assms(1) that] that growsD(4) [OF assms(2), of t] by auto
qed

lemma grows_same: "tbls st' = tbls st \<Longrightarrow> grows m st lv st' lv"
  by (rule growsI) simp_all

lemma reach_grows:
  assumes "grows m st lv st' lv'"
  shows "lv t = Some l \<Longrightarrow> tables_ok m (tbls st) lv \<Longrightarrow> reach m (tbls st) va l t n = Some t' \<Longrightarrow>
    reach m (tbls st') va l t n = Some t'"
proof (induction n arbitrary: l t)
  case (Suc n)
  let ?c = "child m (desc (tbls st) t (idx m va l))"
  from Suc.prems have e: "edge m (tbls st) lv t (idx m va l) ?c"
    and r: "reach m (tbls st) va (Suc l) ?c n = Some t'"
    by (auto simp: Let_def edge_def idx_less split: if_splits)
  have "edge m (tbls st') lv' t (idx m va l) ?c" "lv' t = Some l"
    using growsD(1,2) [OF assms] e Suc.prems(1) by auto
  moreover have "reach m (tbls st') va (Suc l) ?c n = Some t'"
    by (rule Suc.IH [OF tables_okD(4) [OF Suc.prems(2,1) e] Suc.prems(2) r])
  ultimately show ?case by (auto simp: Let_def edge_def)
qed simp

lemma upd_info_simps [simp]: "tbls (upd_info f st) = tbls st" "alst (upd_info f st) = alst st"
  by (simp_all add: upd_info_def)

lemma td_build_child:
  assumes "l < maxl m" and "pa_fits (gran m) (c - physmap_offset m)"
  shows "is_tbl m l (td_build (physmap_offset m) c)" and "child m (td_build (physmap_offset m) c) = c"
  using assms by (simp_all add: is_tbl_def child_def dc_get_flags td_build_bits output_td_build)

lemma entry_bytes: "8 * tbl_entries g = gran_bytes g"
  by (cases g) (simp_all add: tbl_entries_def gran_bytes_def)

section \<open>Splitting a block\<close>

lemma pa_fits_iff:
  "pa_fits g pa \<longleftrightarrow> unat pa < 2 ^ 48 \<and> 2 ^ page_bits g dvd unat pa"
proof -
  have s: "page_bits g = mmu_granularity_shift g" "12 \<le> page_bits g" "page_bits g \<le> 16"
    using granularity_shift_bounds [of g] by (simp_all add: page_bits_eq)
  have "pa_fits g pa \<longleftrightarrow> (\<forall>n. bit pa n \<longrightarrow> page_bits g \<le> n \<and> n < 48)"
    unfolding pa_fits_def s(1)
    using bit_imp_le_length [of pa]
    by (subst bit_eq_iff) (auto simp: bit_simps bit_output_address_mask)
  also have "\<dots> \<longleftrightarrow> (\<forall>n\<ge>48. \<not> bit pa n) \<and> (\<forall>n<page_bits g. \<not> bit pa n)"
    by (auto simp: not_le not_less)
  also have "(\<forall>n\<ge>48. \<not> bit pa n) \<longleftrightarrow> unat pa < 2 ^ 48"
    unfolding high_bits_zero by (simp add: div_eq_0_iff)
  also have "(\<forall>n<page_bits g. \<not> bit pa n) \<longleftrightarrow> take_bit (page_bits g) (unat pa) = 0"
  proof
    assume "\<forall>n<page_bits g. \<not> bit pa n"
    thus "take_bit (page_bits g) (unat pa) = 0"
      by (intro bit_eqI) (auto simp: bit_take_bit_iff bit_unsigned_iff)
  next
    assume a: "take_bit (page_bits g) (unat pa) = 0"
    have "bit (take_bit (page_bits g) (unat pa)) n = bit pa n" if "n < page_bits g" for n
      using that by (auto simp: bit_take_bit_iff bit_unsigned_iff dest: bit_imp_le_length)
    thus "\<forall>n<page_bits g. \<not> bit pa n" by (simp add: a)
  qed
  also have "\<dots> \<longleftrightarrow> 2 ^ page_bits g dvd unat pa"
    by (simp add: take_bit_eq_mod dvd_eq_mod_eq_0)
  finally show ?thesis .
qed

lemma output_fits: "pa_fits g (dc_get_output_address dc g)"
  by (simp add: pa_fits_def dc_get_output_address_def and.assoc)

lemma dvd_room: "a dvd x \<Longrightarrow> a dvd y \<Longrightarrow> x < y \<Longrightarrow> x + a \<le> y" for a x y :: nat
proof -
  assume "a dvd x" "a dvd y" and less: "x < y"
  then obtain p q where "x = a * p" "y = a * q" by (auto elim!: dvdE)
  moreover from this less have "p + 1 \<le> q" by simp
  hence "a * (p + 1) \<le> a * q" by (rule mult_le_mono2)
  ultimately show ?thesis by simp
qed

lemma level_shift_48: "level_shift g l \<le> 48"
proof -
  have "(page_bits g - 3) * (max_level g - l) \<le> (page_bits g - 3) * max_level g" by simp
  thus ?thesis using level_shift_0 [of g] unfolding level_shift_eq minus_nat.diff_0 by linarith
qed

text \<open>The pieces of a block: aligned to the next level's size, within the descriptor's address bits.\<close>

lemma split_piece:
  assumes "l < max_level g" and "pa_fits g pa" and "2 ^ level_shift g l dvd unat pa"
    and "i < 2 ^ (page_bits g - 3)"
  defines "p \<equiv> pa + word_of_nat i * 2 ^ level_shift g (Suc l)"
  shows "unat p = unat pa + i * 2 ^ level_shift g (Suc l)" and "pa_fits g p"
    and "2 ^ level_shift g (Suc l) dvd unat p"
proof -
  have p48: "unat pa < 2 ^ 48" using assms(2) by (simp add: pa_fits_iff)
  let ?c = "2 ^ level_shift g l :: nat" and ?d = "2 ^ level_shift g (Suc l) :: nat"
  have c: "?c = ?d * 2 ^ (page_bits g - 3)" by (rule cover_Suc [OF assms(1)])
  have i: "i * ?d < ?c" unfolding c using assms(4) by (simp add: mult.commute)
  have "?c dvd 2 ^ 48" by (rule le_imp_power_dvd [OF level_shift_48])
  hence le: "unat pa + ?c \<le> 2 ^ 48" using dvd_room [OF assms(3) _ p48] by blast
  have "unat (word_of_nat i * 2 ^ level_shift g (Suc l) :: u64) = i * ?d"
  proof -
    have "i * ?d < 2 ^ 64" using i le by simp
    moreover have "i < 2 ^ 64" using \<open>i * ?d < 2 ^ 64\<close>
      by (metis le_less_trans mult.right_neutral mult_le_mono2 one_le_numeral one_le_power)
    ultimately show ?thesis
      using level_shift_less [of g "Suc l"]
      by (simp add: unat_word_ariths(2) unat_exp unat_of_nat)
  qed
  moreover have "unat pa + i * ?d < 2 ^ 64" using i le by simp
  ultimately show u: "unat p = unat pa + i * ?d"
    unfolding p_def by (simp add: unat_word_ariths(1))
  show d: "2 ^ level_shift g (Suc l) dvd unat p"
  proof -
    have "?d dvd ?c" unfolding c by simp
    hence "?d dvd unat pa" using assms(3) by (rule dvd_trans)
    thus ?thesis by (simp add: u)
  qed
  have "(2 :: nat) ^ page_bits g dvd ?d" by (intro le_imp_power_dvd) (simp add: level_shift_eq)
  hence "2 ^ page_bits g dvd unat p" using d by (rule dvd_trans)
  thus "pa_fits g p" using i le by (simp add: pa_fits_iff u)
qed

text \<open>The walk through the pieces yields what the block yielded.\<close>

lemma split_leaf:
  fixes va :: u64
  assumes l: "l < max_level (gran m)" and v: "dc_get_valid dc"
    and a: "2 ^ level_shift (gran m) l dvd unat (dc_get_output_address dc (gran m))"
  defines "i \<equiv> idx m va (Suc l)"
  shows "leaf_result m (Suc l)
      (bd_build (cfg_from_dc dc) (dc_get_output_address dc (gran m) +
         word_of_nat i * 2 ^ level_shift (gran m) (Suc l)) (gran m) (Suc l)) va r =
    leaf_result m l dc va r"
proof -
  let ?g = "gran m" and ?pa = "dc_get_output_address dc (gran m)"
  let ?d = "level_shift (gran m) (Suc l)" and ?c = "level_shift (gran m) l"
  let ?p = "?pa + word_of_nat i * 2 ^ ?d"
  have i: "i < 2 ^ (page_bits ?g - 3)" unfolding i_def idx_eq by simp
  note p = split_piece [OF l output_fits a i]
  have mod: "unat (va AND (2 ^ k - 1)) = unat va mod 2 ^ k" for k
    unfolding exp_minus_one_mask by (rule unat_and_mask)
  have "unat va mod 2 ^ ?c = 2 ^ ?d * i + unat va mod 2 ^ ?d"
    unfolding cover_Suc [OF l] i_def idx_eq by (rule mod_mult2_eq)
  hence m: "unat (va AND (2 ^ ?c - 1)) = i * 2 ^ ?d + unat (va AND (2 ^ ?d - 1))"
    unfolding mod by (simp add: mult.commute)
  have "unat (?p + (va AND (2 ^ ?d - 1))) = (unat ?p + unat (va AND (2 ^ ?d - 1))) mod 2 ^ 64"
    by (simp add: unat_word_ariths(1))
  also have "\<dots> = unat (?pa + (va AND (2 ^ ?c - 1)))"
    unfolding p(1) by (simp add: unat_word_ariths(1) m add.assoc)
  finally have "?p + (va AND (2 ^ ?d - 1)) = ?pa + (va AND (2 ^ ?c - 1))"
    by (simp add: word_unat_eq_iff)
  thus ?thesis
    using v by (simp add: leaf_result_def dc_get_flags bd_build_bits output_bd_build [OF p(2)]
        cfg_from_bd_build [OF cfg_from_dc_fits])
qed

lemma bd_leaf:
  assumes "l \<le> max_level (gran m)" and "pa_fits (gran m) pa" and "2 ^ level_shift (gran m) l dvd unat pa"
  shows "\<not> is_tbl m l (bd_build cfg pa (gran m) l)" and "leaf_ok m l (bd_build cfg pa (gran m) l)"
  using assms by (simp_all add: is_tbl_def leaf_ok_def dc_get_flags bd_build_bits output_bd_build)

section \<open>One level of the descent\<close>

context table_alloc
begin

lemma alloc_tbl_ok:
  assumes "mmu_inv repr m st lv" and "alloc_tbl m b st = Inr (st', c)"
  shows "tbls st' = (tbls st)(c \<mapsto> (\<lambda>_. 0))" and "tbls st c = None"
    and "pa_fits (gran m) (c - physmap_offset m)"
    and "\<exists>A. repr (alst st') A \<and> dom (tbls st') \<subseteq> A"
proof -
  obtain A where A: "repr (alst st) A" "dom (tbls st) \<subseteq> A" using assms(1) by (auto simp: mmu_inv_def)
  obtain a where a: "allocator_fn m (gran_bytes (gran m)) (alst st) = Inr (a, c)"
    and st': "tbls st' = (tbls st)(c \<mapsto> (\<lambda>_. 0))" "alst st' = a"
    using assms(2)
    by (auto simp: alloc_tbl_def Let_def rbind_eq_Inr rassert_eq_Inr entry_bytes tbl_init_null_def
        split: if_splits)
  show "tbls st' = (tbls st)(c \<mapsto> (\<lambda>_. 0))" by (rule st'(1))
  have "c \<notin> A" by (rule alloc_new [OF A(1) a])
  thus "tbls st c = None" using A(2) by auto
  show "pa_fits (gran m) (c - physmap_offset m)" using alloc_fits [OF A(1) a] by simp
  have "repr (alst st') (insert c A)" unfolding st'(2) by (rule alloc_repr [OF A(1) a])
  thus "\<exists>A. repr (alst st') A \<and> dom (tbls st') \<subseteq> A" using A(2) st'(1) by (auto intro!: exI)
qed

lemma link_step:
  assumes inv: "tables_ok m (tbls st) lv" and l: "lv t = Some l" "l < maxl m"
    and ft: "tbls st t = Some ft" and c: "tbls st c = None"
    and fits: "pa_fits (gran m) (c - physmap_offset m)" and i: "i < nents m"
    and st': "tbls st' = (tbls st)(c \<mapsto> f, t \<mapsto> ft(i := td_build (physmap_offset m) c))"
    and f: "\<And>j. j < nents m \<Longrightarrow> \<not> is_tbl m (Suc l) (f j) \<and> leaf_ok m (Suc l) (f j)"
    and old: "\<not> is_tbl m l (ft i)"
    and res: "\<And>va r. idx m va l = i \<Longrightarrow>
      leaf_result m (Suc l) (f (idx m va (Suc l))) va r = leaf_result m l (ft i) va r"
  defines "lv' \<equiv> lv(c \<mapsto> Suc l)"
  shows "tables_ok m (tbls st') lv'" and "grows m st lv st' lv'"
    and "edge m (tbls st') lv' t i c" and "lv' c = Some (Suc l)"
proof -
  let ?td = "td_build (physmap_offset m) c"
  note td = td_build_child [OF l(2) fits]
  have lc: "lv c = None" using tables_okD(3) [OF inv, of c] c by (cases "lv c") auto
  have ct: "c \<noteq> t" using lc l by auto
  show ok': "tables_ok m (tbls st') lv'"
    unfolding st' lv'_def by (rule link_ok [OF inv l ft lc i td f])
  have d: "desc (tbls st') t' j = (if t' = t then if j = i then ?td else ft j
      else if t' = c then f j else desc (tbls st) t' j)" for t' j
    by (simp add: st' desc_upd)
  have dt: "desc (tbls st) t j = ft j" for j by (simp add: desc_def ft)
  show c': "lv' c = Some (Suc l)" by (simp add: lv'_def)
  have t': "lv' t = Some l" using l ct by (simp add: lv'_def)
  show "edge m (tbls st') lv' t i c" using t' i td by (auto simp: edge_def d)
  have same: "lv' t' = Some k" if "lv t' = Some k" for t' k using that lc by (auto simp: lv'_def)
  show "grows m st lv st' lv'"
  proof (rule growsI)
    show "lv' t' = Some k" if "lv t' = Some k" for t' k by (rule same [OF that])
    show "edge m (tbls st') lv' t' j c'" if "edge m (tbls st) lv t' j c'" for t' j c'
      using that old l(1) same lc by (auto simp: edge_def d dt)
    show "walk_from m (tbls st') v k t' r = walk_from m (tbls st) v k t' r"
      if "lv t' = Some k" for v t' k r
    proof (rule walk_frame [OF inv ok' same _ l(1) _ that])
      show "desc (tbls st') t' j = desc (tbls st) t' j" if "lv t' = Some k" "t' \<noteq> t \<or> j \<noteq> i" for t' k j
        using that lc by (auto simp: d dt)
      show "walk_from m (tbls st') va l t r = walk_from m (tbls st) va l t r"
        if "idx m va l = i" for va
        using that td old ct f [OF idx_less] res [OF that]
        by (simp add: walk_step [OF ok' t'] walk_step [OF inv l(1)] walk_step [OF ok' c'] d dt)
    qed
    show "tbls st' t' = tbls st t' \<and> lv' t' = None" if "lv t' = None" "tbls st t' \<noteq> None" for t'
      using that c l by (auto simp: st' lv'_def)
  qed
qed

lemma split_block_ok:
  assumes inv: "mmu_inv repr m st lv" and l: "lv t = Some l" "l < maxl m" and i: "unat i < nents m"
    and dc: "dc_get_valid (desc (tbls st) t (unat i))" "\<not> is_tbl m l (desc (tbls st) t (unat i))"
    and run: "split_block m t i l st = Inr (st', c)"
  shows "\<exists>lv'. mmu_inv repr m st' lv' \<and> grows m st lv st' lv' \<and>
    edge m (tbls st') lv' t (unat i) c \<and> lv' c = Some (Suc l)"
proof -
  have ok: "tables_ok m (tbls st) lv" using inv by (simp add: mmu_inv_def)
  obtain ft where ft: "tbls st t = Some ft" using tables_okD(3) [OF ok l(1)] by auto
  let ?dc = "ft (unat i)" and ?g = "gran m"
  let ?pa = "dc_get_output_address ?dc ?g"
  have dc': "dc_get_valid ?dc" "\<not> is_tbl m l ?dc" using dc by (simp_all add: desc_def ft)
  have al: "2 ^ level_shift ?g l dvd unat ?pa"
    using tables_okD(6) [OF ok l(1) i] dc' l(2) by (auto simp: desc_def ft leaf_ok_def is_tbl_def)
  define f where "f = (\<lambda>j. if j < nents m then bd_build (cfg_from_dc ?dc)
    (?pa + word_of_nat j * 2 ^ level_shift ?g (Suc l)) ?g (Suc l) else 0)"
  obtain st1 where a: "alloc_tbl m False st = Inr (st1, c)"
    and st': "tbls st' = (tbls st1)(c \<mapsto> f, t \<mapsto> ft(unat i := td_build (physmap_offset m) c))"
      "alst st' = alst st1"
  proof -
    obtain st1 c1 where a: "alloc_tbl m False st = Inr (st1, c1)"
      using run by (auto simp: split_block_def Let_def rbind_eq_Inr mmu_tbl_get_dc_def ft)
    note al1 = alloc_tbl_ok [OF inv a]
    have "c1 \<noteq> t" using al1(2) ft by auto
    hence "c = c1 \<and> tbls st' = (tbls st1)(c1 \<mapsto> f, t \<mapsto> ft(unat i := td_build (physmap_offset m) c1)) \<and>
      alst st' = alst st1"
      using run l(2) dc'(1)
      by (auto simp: split_block_def Let_def rbind_eq_Inr rassert_eq_Inr mmu_tbl_get_dc_def ft a
          dc_cover_bytes_eq tbl_set_dc_def al1(1) f_def nents_def cong: if_cong)
    thus ?thesis using that a by blast
  qed
  note al1 = alloc_tbl_ok [OF inv a]
  have st'': "tbls st' = (tbls st)(c \<mapsto> f, t \<mapsto> ft(unat i := td_build (physmap_offset m) c))"
    by (simp add: st' al1(1))
  have leaf: "\<not> is_tbl m (Suc l) (f j) \<and> leaf_ok m (Suc l) (f j)" if "j < nents m" for j
    using that bd_leaf [of "Suc l" m] split_piece(2,3) [OF l(2) output_fits al] l(2)
    by (simp add: f_def nents_eq Suc_le_eq)
  have res: "leaf_result m (Suc l) (f (idx m va (Suc l))) va r = leaf_result m l ?dc va r" for va r
    using split_leaf [OF l(2) dc'(1) al] idx_less [of m va "Suc l"] by (simp add: f_def)
  note k = link_step [OF ok l ft al1(2,3) i st'' leaf dc'(2) res]
  have "\<exists>A. repr (alst st') A \<and> dom (tbls st') \<subseteq> A"
    using al1(4) ft unfolding st'(2) st'(1) al1(1) by (auto intro: exI)
  hence "mmu_inv repr m st' (lv(c \<mapsto> Suc l))" using k(1) by (simp add: mmu_inv_def)
  thus ?thesis using k by blast
qed

lemma fresh_table_ok:
  assumes inv: "mmu_inv repr m st lv" and l: "lv t = Some l" "l < maxl m" and i: "unat i < nents m"
    and dc: "\<not> dc_get_valid (desc (tbls st) t (unat i))"
    and a: "alloc_tbl m True st = Inr (st1, c)"
    and w: "tbl_set_dc t i (td_build (physmap_offset m) c) st1 = Inr st'"
  shows "\<exists>lv'. mmu_inv repr m st' lv' \<and> grows m st lv st' lv' \<and>
    edge m (tbls st') lv' t (unat i) c \<and> lv' c = Some (Suc l)"
proof -
  have ok: "tables_ok m (tbls st) lv" using inv by (simp add: mmu_inv_def)
  obtain ft where ft: "tbls st t = Some ft" using tables_okD(3) [OF ok l(1)] by auto
  note al1 = alloc_tbl_ok [OF inv a]
  have ct: "c \<noteq> t" using al1(2) ft by auto
  have st': "tbls st' = (tbls st)(c \<mapsto> (\<lambda>_. 0), t \<mapsto> ft(unat i := td_build (physmap_offset m) c))"
    "alst st' = alst st1"
    using w ct by (auto simp: tbl_set_dc_def al1(1) ft)
  have inv0: "\<not> dc_get_valid (ft (unat i))" using dc by (simp add: desc_def ft)
  hence old: "\<not> is_tbl m l (ft (unat i))" by (simp add: is_tbl_def)
  have leaf: "\<not> is_tbl m (Suc l) 0 \<and> leaf_ok m (Suc l) 0"
    by (simp add: is_tbl_def leaf_ok_def dc_get_flags)
  have res: "leaf_result m (Suc l) 0 va r = leaf_result m l (ft (unat i)) va r" for va r
    using inv0 by (simp add: leaf_result_def dc_get_flags)
  note k = link_step [OF ok l ft al1(2,3) i st'(1) leaf old res]
  have "\<exists>A. repr (alst st') A \<and> dom (tbls st') \<subseteq> A"
    using al1(4) ft unfolding st'(2) st'(1) al1(1) by (auto intro: exI)
  hence "mmu_inv repr m st' (lv(c \<mapsto> Suc l))" using k(1) by (simp add: mmu_inv_def)
  thus ?thesis using k by blast
qed

lemma mmu_inv_info: "mmu_inv repr m (upd_info h st) lv = mmu_inv repr m st lv"
  by (simp add: mmu_inv_def)

lemma grows_info: "grows m st lv (upd_info h st) lv"
  by (rule grows_same) simp

lemma map_step_ok:
  assumes inv: "mmu_inv repr m st lv" and l: "lv t = Some l" "l < maxl m"
    and run: "map_step m va l t st = Inr (st', c)"
  shows "\<exists>lv'. mmu_inv repr m st' lv' \<and> grows m st lv st' lv' \<and>
    edge m (tbls st') lv' t (idx m va l) c \<and> lv' c = Some (Suc l)"
proof -
  let ?i = "table_index va (gran m) l"
  define s where "s = upd_info (\<lambda>i. i\<lparr>iters := iters i + 1\<rparr>) st"
  have inv: "mmu_inv repr m s lv" and gs: "grows m st lv s lv"
    using assms(1) by (simp_all add: s_def mmu_inv_info grows_info)
  hence ok: "tables_ok m (tbls s) lv" by (simp add: mmu_inv_def)
  have i: "unat ?i < nents m" using idx_less [of m va l] by (simp add: idx_def)
  obtain ft where ft: "tbls s t = Some ft" using tables_okD(3) [OF ok l(1)] by auto
  let ?dc = "desc (tbls s) t (unat ?i)"
  have get: "mmu_tbl_get_dc s t ?i = Inr ?dc" by (simp add: mmu_tbl_get_dc_def desc_def ft)
  note run = run [unfolded map_step_def Let_def, folded s_def, unfolded get rbind.simps]
  have "\<exists>lv'. mmu_inv repr m st' lv' \<and> grows m s lv st' lv' \<and>
    edge m (tbls st') lv' t (unat ?i) c \<and> lv' c = Some (Suc l)"
  proof (cases "dc_get_valid ?dc")
    case False
    thus ?thesis
      using run fresh_table_ok [OF inv l i False] by (auto simp: rbind_eq_Inr)
  next
    case True
    show ?thesis
    proof (cases "is_tbl m l ?dc")
      case t: True
      hence "st' = s" "c = child m ?dc"
        using run l(2) by (auto simp: is_tbl_def dc_get_type_eq tbl_from_td_def child_def)
      moreover have "edge m (tbls s) lv t (unat ?i) (child m ?dc)"
        using t l i by (auto simp: edge_def)
      ultimately show ?thesis
        using inv tables_okD(4) [OF ok l(1)] by (auto intro!: exI [of _ lv] grows_same)
    next
      case False
      hence "split_block m t ?i l s = Inr (st', c)"
        using run l(2) True by (auto simp: is_tbl_def dc_get_type_eq)
      from split_block_ok [OF inv l i True False this] show ?thesis .
    qed
  qed
  thus ?thesis using grows_trans [OF gs] by (auto simp: idx_def)
qed

lemma map_descend_ok:
  assumes "mmu_inv repr m st lv" and "lv t = Some l" and "l + n \<le> maxl m"
    and "map_descend m va n l t st = Inr (st', t')"
  shows "\<exists>lv'. mmu_inv repr m st' lv' \<and> grows m st lv st' lv' \<and>
    reach m (tbls st') va l t n = Some t' \<and> lv' t' = Some (l + n)"
  using assms
proof (induction n arbitrary: l t st lv)
  case 0
  thus ?case by (auto intro!: exI [of _ lv] grows_same)
next
  case (Suc n)
  obtain s1 c where step: "map_step m va l t st = Inr (s1, c)"
    and rest: "map_descend m va n (l + 1) c s1 = Inr (st', t')"
    using Suc.prems(4) by (auto simp: rbind_eq_Inr)
  have l: "l < maxl m" "Suc l + n \<le> maxl m" using Suc.prems(3) by simp_all
  obtain lv1 where lv1: "mmu_inv repr m s1 lv1" "grows m st lv s1 lv1"
    "edge m (tbls s1) lv1 t (idx m va l) c" "lv1 c = Some (Suc l)"
    using map_step_ok [OF Suc.prems(1,2) l(1) step] by blast
  from Suc.IH [OF lv1(1,4) l(2)] rest obtain lv' where lv': "mmu_inv repr m st' lv'"
    "grows m s1 lv1 st' lv'" "reach m (tbls st') va (Suc l) c n = Some t'" "lv' t' = Some (Suc l + n)"
    by auto
  have "edge m (tbls st') lv' t (idx m va l) c" by (rule growsD(2) [OF lv'(2) lv1(3)])
  moreover have "lv' t = Some l" using growsD(1) [OF lv'(2)] growsD(1) [OF lv1(2) Suc.prems(2)] by blast
  ultimately have "reach m (tbls st') va l t (Suc n) = Some t'"
    using lv'(3) by (auto simp: edge_def Let_def)
  thus ?case
    using lv'(1,4) grows_trans [OF lv1(2) lv'(2)] by auto
qed

end

section \<open>Dropping a subtree\<close>

text \<open>A state in which some of the original tables have been released already.\<close>

definition shrunk ::
  "('s \<Rightarrow> u64 set \<Rightarrow> bool) \<Rightarrow> (u64 \<Rightarrow> (nat \<Rightarrow> mmu_hw_dc) option) \<Rightarrow> 's mmu_state \<Rightarrow> bool" where
  "shrunk repr T0 s \<longleftrightarrow> (\<exists>D. tbls s = T0 |` (- D)) \<and> (\<exists>A. repr (alst s) A \<and> dom (tbls s) \<subseteq> A)"

text \<open>A set of tables from a level on, each of which hangs off one of \<open>P\<close>.\<close>

definition hangs ::
  "'s mmu_mapping \<Rightarrow> (u64 \<Rightarrow> (nat \<Rightarrow> mmu_hw_dc) option) \<Rightarrow> (u64 \<Rightarrow> nat option) \<Rightarrow> nat \<Rightarrow>
   u64 set \<Rightarrow> u64 set \<Rightarrow> bool" where
  "hangs m T0 lv l P R \<longleftrightarrow> (\<forall>x\<in>R. (\<exists>k\<ge>l. lv x = Some k) \<and> (\<exists>p\<in>P. \<exists>j. edge m T0 lv p j x))"

lemma hangs_mono: "hangs m T0 lv l P R \<Longrightarrow> P \<subseteq> P' \<Longrightarrow> l' \<le> l \<Longrightarrow> hangs m T0 lv l' P' R"
  unfolding hangs_def by (meson order_trans subsetD)

lemma hangs_Un: "hangs m T0 lv l P (R \<union> R') \<longleftrightarrow> hangs m T0 lv l P R \<and> hangs m T0 lv l P R'"
  unfolding hangs_def by blast

lemma shrunk_drop:
  "shrunk repr T0 s \<Longrightarrow> tbls s' = tbls s |` (- R) \<Longrightarrow> repr (alst s') A \<Longrightarrow> dom (tbls s') \<subseteq> A \<Longrightarrow>
   shrunk repr T0 s'"
  unfolding shrunk_def by (metis Compl_Un restrict_restrict)

lemma restrict_UNIV: "f |` UNIV = f"
  by (simp add: restrict_map_def)

lemma unat_entry: "i < nents m \<Longrightarrow> unat (word_of_nat i :: u64) = i"
proof -
  assume i: "i < nents m"
  have "nents m \<le> 2 ^ 13" unfolding nents_eq
    using granularity_shift_bounds [of "gran m"] by (intro power_increasing) (auto simp: page_bits_eq)
  thus ?thesis using i by (simp add: unat_of_nat)
qed

context table_alloc
begin

lemma free_entries_ok:
  assumes body: "\<And>i s s'. i < nents m \<Longrightarrow> body i s = Inr s' \<Longrightarrow> shrunk repr T0 s \<Longrightarrow>
      \<exists>R. tbls s' = tbls s |` (- R) \<and> shrunk repr T0 s' \<and> hangs m T0 lv l (insert t R) R"
  shows "rfold body xs s = Inr s' \<Longrightarrow> set xs \<subseteq> {..<nents m} \<Longrightarrow> shrunk repr T0 s \<Longrightarrow>
      \<exists>R. tbls s' = tbls s |` (- R) \<and> shrunk repr T0 s' \<and> hangs m T0 lv l (insert t R) R"
proof (induction xs arbitrary: s)
  case Nil
  thus ?case by (intro exI [of _ "{}"]) (simp add: restrict_UNIV hangs_def)
next
  case (Cons i xs)
  then obtain s1 where s1: "body i s = Inr s1" "rfold body xs s1 = Inr s'" by (auto simp: rbind_eq_Inr)
  have "i < nents m" "set xs \<subseteq> {..<nents m}" using Cons.prems(2) by auto
  obtain R1 where R1: "tbls s1 = tbls s |` (- R1)" "shrunk repr T0 s1" "hangs m T0 lv l (insert t R1) R1"
    using body [OF \<open>i < nents m\<close> s1(1) Cons.prems(3)] by blast
  obtain R2 where R2: "tbls s' = tbls s1 |` (- R2)" "shrunk repr T0 s'" "hangs m T0 lv l (insert t R2) R2"
    using Cons.IH [OF s1(2) \<open>set xs \<subseteq> _\<close> R1(2)] by blast
  have "hangs m T0 lv l (insert t (R1 \<union> R2)) (R1 \<union> R2)"
    unfolding hangs_Un by (intro conjI hangs_mono [OF R1(3)] hangs_mono [OF R2(3)]) auto
  moreover have "tbls s' = tbls s |` (- (R1 \<union> R2))" by (simp add: R1(1) R2(1))
  ultimately show ?case using R2(2) by blast
qed

lemma free_tbl_rec_ok:
  assumes ok: "tables_ok m T0 lv"
  shows "free_tbl_rec n m t l st = Inr st' \<Longrightarrow> lv t = Some (Suc l) \<Longrightarrow> shrunk repr T0 st \<Longrightarrow>
    \<exists>R. tbls st' = tbls st |` (- insert t R) \<and> shrunk repr T0 st' \<and>
      hangs m T0 lv (Suc (Suc l)) (insert t R) R"
proof (induction n arbitrary: t l st st')
  case (Suc n)
  let ?body = "\<lambda>i st. rbind (mmu_tbl_get_dc st t (word_of_nat i)) (\<lambda>dc.
         if \<not> dc_get_valid dc then Inr st
         else rbind (dc_get_type dc (gran m) l) (\<lambda>ty.
              if ty = MMU_DESCRIPTOR_TABLE
              then rbind (tbl_from_td m dc (l + 1)) (\<lambda>t. free_tbl_rec n m t (l + 1) st)
              else Inr st))"
  obtain s1 a where s1: "rfold ?body [0..<nents m] st = Inr s1"
    and a: "allocator_free_fn m t (alst s1) = Inr a"
    and st': "tbls st' = (tbls s1)(t := None)" "alst st' = a"
    using Suc.prems(1) by (auto simp: rbind_eq_Inr nents_def)
  have lm: "Suc l \<le> maxl m" by (rule tables_okD(2) [OF ok Suc.prems(2)])
  have step: "\<exists>R. tbls s' = tbls s |` (- R) \<and> shrunk repr T0 s' \<and>
      hangs m T0 lv (Suc (Suc l)) (insert t R) R"
    if i: "i < nents m" and b: "?body i s = Inr s'" and I: "shrunk repr T0 s" for i s s'
  proof (cases "s' = s")
    case True
    thus ?thesis using I by (intro exI [of _ "{}"]) (simp add: restrict_UNIV hangs_def)
  next
    case False
    obtain f where f: "tbls s t = Some f" using b by (auto simp: mmu_tbl_get_dc_def split: option.splits)
    hence d: "desc T0 t i = f i"
      using I by (auto simp: shrunk_def desc_def restrict_map_def split: if_splits)
    have v: "dc_get_valid (f i)"
      and r: "rbind (tbl_from_td m (f i) (l + 1)) (\<lambda>t. free_tbl_rec n m t (l + 1) s) = Inr s'"
      using b False by (auto simp: mmu_tbl_get_dc_def f unat_entry [OF i] rbind_eq_Inr split: if_splits)
    let ?c = "child m (f i)"
    have tb: "is_tbl m (Suc l) (f i)" and fr: "free_tbl_rec n m ?c (Suc l) s = Inr s'"
      using r v lm by (auto simp: tbl_from_td_def rbind_eq_Inr rassert_eq_Inr dc_get_type_eq
          is_tbl_def child_def split: if_splits)
    have e: "edge m T0 lv t i ?c" using tb i d Suc.prems(2) by (auto simp: edge_def)
    note lc = tables_okD(4) [OF ok Suc.prems(2) e]
    obtain R where R: "tbls s' = tbls s |` (- insert ?c R)" "shrunk repr T0 s'"
      "hangs m T0 lv (Suc (Suc (Suc l))) (insert ?c R) R"
      using Suc.IH [OF fr lc I] by blast
    have "hangs m T0 lv (Suc (Suc l)) (insert t (insert ?c R)) (insert ?c R)"
      using hangs_mono [OF R(3), of "insert t (insert ?c R)" "Suc (Suc l)"] e lc
      by (auto simp: hangs_def)
    thus ?thesis using R(1,2) by blast
  qed
  have "\<exists>R. tbls s1 = tbls st |` (- R) \<and> shrunk repr T0 s1 \<and> hangs m T0 lv (Suc (Suc l)) (insert t R) R"
    by (rule free_entries_ok [of ?body, OF _ s1 _ Suc.prems(3)]) (use step in blast, auto)
  then obtain R where R: "tbls s1 = tbls st |` (- R)" "shrunk repr T0 s1"
    "hangs m T0 lv (Suc (Suc l)) (insert t R) R" by blast
  obtain A where A: "repr (alst s1) A" "dom (tbls s1) \<subseteq> A" using R(2) by (auto simp: shrunk_def)
  have "[0..<nents m] = 0 # [1..<nents m]" by (simp add: nents_eq upt_rec)
  hence "tbls st t \<noteq> None"
    using s1 by (auto simp: rbind_eq_Inr mmu_tbl_get_dc_def split: option.splits)
  moreover have "t \<notin> R" using R(3) Suc.prems(2) by (auto simp: hangs_def)
  ultimately have tA: "t \<in> A" using A(2) R(1) by (auto simp: restrict_map_def)
  have "tbls st' = tbls st |` (- insert t R)"
    by (auto simp: st'(1) R(1) restrict_map_def fun_eq_iff)
  moreover have "tbls st' = tbls s1 |` (- {t})"
    by (auto simp: st'(1) restrict_map_def fun_eq_iff)
  moreover have "repr (alst st') (A - {t})" unfolding st'(2) by (rule release_repr [OF A(1) tA a])
  moreover have "dom (tbls st') \<subseteq> A - {t}" using A(2) by (auto simp: st'(1) split: if_splits)
  ultimately show ?case using R(3) shrunk_drop [OF R(2)] by blast
qed simp

end

section \<open>Writing a leaf\<close>

text \<open>The effect of a step on the translation, and that the tables of other mappings are kept.\<close>

definition remaps ::
  "'s mmu_mapping \<Rightarrow> 's mmu_state \<Rightarrow> (u64 \<Rightarrow> nat option) \<Rightarrow> 's mmu_state \<Rightarrow> (u64 \<Rightarrow> nat option) \<Rightarrow>
   (u64 \<Rightarrow> bool) \<Rightarrow> (u64 \<Rightarrow> mmu_walk_result \<Rightarrow> mmu_walk_result) \<Rightarrow> bool" where
  "remaps m st lv st' lv' P f \<longleftrightarrow>
     (\<forall>v r. walk_from m (tbls st') v 0 (tbl_ptr m) r =
        (if P v then Inr (f v r) else walk_from m (tbls st) v 0 (tbl_ptr m) r)) \<and>
     (\<forall>t. lv t = None \<longrightarrow> tbls st t \<noteq> None \<longrightarrow> tbls st' t = tbls st t \<and> lv' t = None)"

lemma remapsI:
  assumes "\<And>v r. walk_from m (tbls st') v 0 (tbl_ptr m) r =
        (if P v then Inr (f v r) else walk_from m (tbls st) v 0 (tbl_ptr m) r)"
    and "\<And>t. lv t = None \<Longrightarrow> tbls st t \<noteq> None \<Longrightarrow> tbls st' t = tbls st t \<and> lv' t = None"
  shows "remaps m st lv st' lv' P f"
  unfolding remaps_def using assms by blast

lemma remapsD:
  assumes "remaps m st lv st' lv' P f"
  shows "walk_from m (tbls st') v 0 (tbl_ptr m) r =
        (if P v then Inr (f v r) else walk_from m (tbls st) v 0 (tbl_ptr m) r)"
    and "lv t = None \<Longrightarrow> tbls st t \<noteq> None \<Longrightarrow> tbls st' t = tbls st t \<and> lv' t = None"
  using assms unfolding remaps_def by blast+

lemma remaps_grows:
  assumes "grows m st lv st1 lv1" and "remaps m st1 lv1 st' lv' P f" and "lv (tbl_ptr m) = Some 0"
  shows "remaps m st lv st' lv' P f"
proof (rule remapsI)
  show "walk_from m (tbls st') v 0 (tbl_ptr m) r =
        (if P v then Inr (f v r) else walk_from m (tbls st) v 0 (tbl_ptr m) r)" for v r
    using remapsD(1) [OF assms(2)] growsD(3) [OF assms(1,3)] by simp
  show "tbls st' t = tbls st t \<and> lv' t = None" if "lv t = None" "tbls st t \<noteq> None" for t
    using growsD(4) [OF assms(1) that] that remapsD(2) [OF assms(2), of t] by auto
qed

lemma remaps_write:
  assumes ok: "tables_ok m (tbls st) lv" and t: "lv t = Some l" "tbls st t = Some ft"
    and r: "reach m (tbls st) va 0 (tbl_ptr m) l = Some t"
    and dc: "\<not> is_tbl m l dc" "leaf_ok m l dc"
    and st': "tbls st' = (tbls st)(t \<mapsto> ft(idx m va l := dc))"
  shows "tables_ok m (tbls st') lv"
    and "remaps m st lv st' lv (\<lambda>v. \<forall>k\<le>l. idx m v k = idx m va k) (leaf_result m l dc)"
proof -
  show ok': "tables_ok m (tbls st') lv" unfolding st' by (rule write_ok [OF ok t dc])
  show "remaps m st lv st' lv (\<lambda>v. \<forall>k\<le>l. idx m v k = idx m va k) (leaf_result m l dc)"
  proof (rule remapsI)
    note root = tables_okD(1) [OF ok]
    have d: "desc (tbls st') t' j = desc (tbls st) t' j"
      if "lv t' = Some k" "t' \<noteq> t \<or> j \<noteq> idx m va l" for t' k j
      using that by (auto simp: st' desc_def t(2))
    have dt: "desc (tbls st') t (idx m va l) = dc" by (simp add: st' desc_def)
    show "walk_from m (tbls st') v 0 (tbl_ptr m) r =
        (if \<forall>k\<le>l. idx m v k = idx m va k then Inr (leaf_result m l dc v r)
         else walk_from m (tbls st) v 0 (tbl_ptr m) r)" for v r
      using walk_write [OF ok ok' d t(1) dc(1) [folded dt] root, where va = v and r = r]
        reach_iff [OF ok root r, of v]
      by (auto simp: dt le_less)
    show "tbls st' t' = tbls st t' \<and> lv t' = None" if "lv t' = None" "tbls st t' \<noteq> None" for t'
      using that t(1) by (auto simp: st')
  qed
qed

context table_alloc
begin

lemma drop_child_ok:
  assumes ok: "tables_ok m (tbls st) lv" and t: "lv t = Some l" "tbls st t = Some ft"
    and i: "i < nents m" and old: "is_tbl m l (ft i)"
    and dc: "\<not> is_tbl m l dc" "leaf_ok m l dc"
    and st1: "tbls st1 = (tbls st)(t \<mapsto> ft(i := dc))"
    and A: "repr (alst st1) A" "dom (tbls st1) \<subseteq> A"
    and free: "free_tbl m (child m (ft i)) l st1 = Inr st'"
  shows "\<exists>lv'. mmu_inv repr m st' lv' \<and> remaps m st1 lv st' lv' (\<lambda>_. False) f"
proof -
  let ?c = "child m (ft i)"
  have e: "edge m (tbls st) lv t i ?c" using t i old by (auto simp: edge_def desc_def)
  note lc = tables_okD(4) [OF ok t(1) e]
  have ok1: "tables_ok m (tbls st1) lv" unfolding st1 by (rule write_ok [OF ok t dc])
  have "tbls st1 = tbls st1 |` (- {})" by (simp add: restrict_UNIV)
  hence sh: "shrunk repr (tbls st1) st1" using A unfolding shrunk_def by blast
  obtain R where R: "tbls st' = tbls st1 |` (- insert ?c R)" "shrunk repr (tbls st1) st'"
    "hangs m (tbls st1) lv (Suc (Suc l)) (insert ?c R) R"
    using free_tbl_rec_ok [OF ok1 free [unfolded free_tbl_def] lc sh] by blast
  have noc: "\<not> edge m (tbls st1) lv t' j ?c" for t' j
  proof
    assume e1: "edge m (tbls st1) lv t' j ?c"
    hence ne: "(t', j) \<noteq> (t, i)" using dc t(1) by (auto simp: edge_def st1 desc_def)
    hence "edge m (tbls st) lv t' j ?c"
      using e1 by (auto simp: edge_def st1 desc_def t(2) split: if_splits)
    from tables_okD(5) [OF ok this e] ne show False by simp
  qed
  have lev: "\<exists>k. lv x = Some (Suc k)" if "x \<in> insert ?c R" for x
    using that lc R(3) by (auto simp: hangs_def) (metis Suc_le_D)
  have root: "tbl_ptr m \<notin> insert ?c R" using lev tables_okD(1) [OF ok] by fastforce
  have keep: "tbls st' x = tbls st1 x" if "x \<notin> insert ?c R" for x
    using that by (simp add: R(1) restrict_map_def)
  have out: "c' \<notin> insert ?c R" if "edge m (tbls st1) lv t' j c'" "t' \<notin> insert ?c R" for t' j c'
    using that noc R(3) tables_okD(5) [OF ok1 that(1)] unfolding hangs_def by fastforce
  let ?lv = "lv |` (- insert ?c R)"
  have "mmu_inv repr m st' ?lv"
    using drop_ok [OF ok1 root keep out] R(2) by (simp add: mmu_inv_def shrunk_def)
  moreover have "remaps m st1 lv st' ?lv (\<lambda>_. False) f"
  proof (rule remapsI)
    show "walk_from m (tbls st') v 0 (tbl_ptr m) r =
        (if False then Inr (f v r) else walk_from m (tbls st1) v 0 (tbl_ptr m) r)" for v r
      using walk_drop [OF ok1 root keep out tables_okD(1) [OF ok] root] by simp
    show "tbls st' x = tbls st1 x \<and> ?lv x = None" if "lv x = None" "tbls st1 x \<noteq> None" for x
      using that lev [of x] keep [of x] by (cases "x \<in> insert ?c R") (auto simp: restrict_map_def)
  qed
  ultimately show ?thesis by blast
qed

lemma overwrite_ok:
  assumes inv: "mmu_inv repr m st lv" and t: "lv t = Some l" "tbls st t = Some ft"
    and r: "reach m (tbls st) va 0 (tbl_ptr m) l = Some t"
    and dc: "\<not> is_tbl m l dc" "leaf_ok m l dc"
    and st1: "tbls st1 = (tbls st)(t \<mapsto> ft(idx m va l := dc))" "alst st1 = alst st"
    and free: "if is_tbl m l (ft (idx m va l)) then free_tbl m (child m (ft (idx m va l))) l st1 = Inr st'
      else st' = st1"
  shows "\<exists>lv'. mmu_inv repr m st' lv' \<and>
    remaps m st lv st' lv' (\<lambda>v. \<forall>k\<le>l. idx m v k = idx m va k) (leaf_result m l dc)"
proof -
  have ok: "tables_ok m (tbls st) lv" using inv by (simp add: mmu_inv_def)
  obtain A where A: "repr (alst st1) A" "dom (tbls st1) \<subseteq> A"
    using inv t(2) by (auto simp: mmu_inv_def st1)
  note w = remaps_write [OF ok t r dc st1(1)]
  show ?thesis
  proof (cases "is_tbl m l (ft (idx m va l))")
    case True
    obtain lv' where lv': "mmu_inv repr m st' lv'" "remaps m st1 lv st' lv' (\<lambda>_. False) (\<lambda>_ r. r)"
      using drop_child_ok [OF ok t idx_less True dc st1(1) A] free True by auto
    have "remaps m st lv st' lv' (\<lambda>v. \<forall>k\<le>l. idx m v k = idx m va k) (leaf_result m l dc)"
    proof (rule remapsI)
      show "walk_from m (tbls st') v 0 (tbl_ptr m) r =
        (if \<forall>k\<le>l. idx m v k = idx m va k then Inr (leaf_result m l dc v r)
         else walk_from m (tbls st) v 0 (tbl_ptr m) r)" for v r
        using remapsD(1) [OF lv'(2)] remapsD(1) [OF w(2)] by simp
      show "tbls st' x = tbls st x \<and> lv' x = None" if "lv x = None" "tbls st x \<noteq> None" for x
        using remapsD(2) [OF w(2) that] remapsD(2) [OF lv'(2) that(1)] that(2) by simp
    qed
    thus ?thesis using lv'(1) by blast
  next
    case False
    thus ?thesis using w A free by (auto simp: mmu_inv_def)
  qed
qed

lemma map_one_ok:
  assumes inv: "mmu_inv repr m st lv" and l: "l \<le> maxl m"
    and pa: "pa_fits (gran m) pa" "2 ^ level_shift (gran m) l dvd unat pa"
    and run: "map_one m va pa cfg l st = Inr st'"
  shows "\<exists>lv'. mmu_inv repr m st' lv' \<and>
    remaps m st lv st' lv' (\<lambda>v. \<forall>k\<le>l. idx m v k = idx m va k)
      (leaf_result m l (bd_build cfg pa (gran m) l))"
proof -
  have root: "lv (tbl_ptr m) = Some 0" using inv tables_okD(1) by (auto simp: mmu_inv_def)
  obtain s1 t where d: "map_descend m va l 0 (tbl_ptr m) st = Inr (s1, t)"
    using run by (auto simp: map_one_def Let_def rbind_eq_Inr)
  obtain lv1 where lv1: "mmu_inv repr m s1 lv1" "grows m st lv s1 lv1"
    "reach m (tbls s1) va 0 (tbl_ptr m) l = Some t" "lv1 t = Some l"
    using map_descend_ok [OF inv root _ d] l by auto
  obtain ft where ft: "tbls s1 t = Some ft"
    using lv1(1,4) tables_okD(3) [of m "tbls s1" lv1 t l] by (auto simp: mmu_inv_def)
  let ?i = "table_index va (gran m) l" and ?dc = "bd_build cfg pa (gran m) l"
  let ?s2 = "s1\<lparr>tbls := (tbls s1)(t \<mapsto> ft(unat ?i := ?dc))\<rparr>"
  have "if is_tbl m l (ft (idx m va l)) then free_tbl m (child m (ft (idx m va l))) l ?s2 = Inr st'
      else st' = ?s2"
    using run l tables_okD(6) [of m "tbls s1" lv1 t l "idx m va l"] lv1(1,4) idx_less [of m va l]
    by (auto simp: map_one_def Let_def d mmu_tbl_get_dc_def ft tbl_set_dc_def free_old_def is_tbl_def
        dc_get_type_eq tbl_from_td_def child_def idx_def mmu_inv_def leaf_ok_def split: if_splits)
  from overwrite_ok [OF lv1(1,4) ft lv1(3) bd_leaf [OF l pa] _ _ this]
  obtain lv' where "mmu_inv repr m st' lv'"
    "remaps m s1 lv1 st' lv' (\<lambda>v. \<forall>k\<le>l. idx m v k = idx m va k) (leaf_result m l ?dc)"
    by (auto simp: idx_def)
  thus ?thesis using remaps_grows [OF lv1(2) _ root] by blast
qed

end

section \<open>The mapping loop\<close>

text \<open>The effect of a step on the translation of the addresses that the mapping is for.\<close>

definition remaps_range ::
  "'s mmu_mapping \<Rightarrow> 's mmu_state \<Rightarrow> (u64 \<Rightarrow> nat option) \<Rightarrow> 's mmu_state \<Rightarrow> (u64 \<Rightarrow> nat option) \<Rightarrow>
   nat \<Rightarrow> nat \<Rightarrow> (u64 \<Rightarrow> mmu_walk_result \<Rightarrow> mmu_walk_result) \<Rightarrow> bool" where
  "remaps_range m st lv st' lv' a n f \<longleftrightarrow>
     (\<forall>v r. va_half m v \<longrightarrow> walk_from m (tbls st') v 0 (tbl_ptr m) r =
        (if a \<le> unat v \<and> unat v < a + n then Inr (f v r)
         else walk_from m (tbls st) v 0 (tbl_ptr m) r)) \<and>
     (\<forall>t. lv t = None \<longrightarrow> tbls st t \<noteq> None \<longrightarrow> tbls st' t = tbls st t \<and> lv' t = None)"

lemma remaps_range_refl: "remaps_range m st lv st lv a 0 f"
  by (auto simp: remaps_range_def)

lemma remaps_range_trans:
  assumes "remaps_range m st lv s1 lv1 a n f" and "remaps_range m s1 lv1 st' lv' b k f"
    and "k = 0 \<or> b = a + n"
  shows "remaps_range m st lv st' lv' a (n + k) f"
  using assms unfolding remaps_range_def by (auto split: if_splits)

lemma remaps_range_cong:
  assumes "remaps_range m st lv st' lv' a n f"
    and "\<And>v r. a \<le> unat v \<Longrightarrow> unat v < a + n \<Longrightarrow> f v r = h v r"
  shows "remaps_range m st lv st' lv' a n h"
  using assms unfolding remaps_range_def by auto

lemma remaps_range_cover:
  assumes "remaps m st lv st' lv' (\<lambda>v. \<forall>k\<le>l. idx m v k = idx m va k) f"
    and "va_bits_ok m" and "va_half m va" and "l \<le> maxl m" and "2 ^ level_shift (gran m) l dvd unat va"
  shows "remaps_range m st lv st' lv' (unat va) (2 ^ level_shift (gran m) l) f"
  using remapsD [OF assms(1)] path_eq_iff [OF assms(4) half_prefix [OF assms(2) _ assms(3)]]
    same_cover_iff [OF assms(5)]
  unfolding remaps_range_def by auto

definition mapped_to :: "mmu_pg_cfg \<Rightarrow> u64 \<Rightarrow> u64 \<Rightarrow> u64 \<Rightarrow> mmu_walk_result \<Rightarrow> mmu_walk_result" where
  "mapped_to cfg pa va v r =
     r\<lparr>walk_result := MMU_WALK_PAGE_MAPPED, walk_cfg := cfg, walk_pa := pa + (v - va)\<rparr>"

lemma offset_in_cover:
  fixes v va :: u64
  assumes "2 ^ k dvd unat va" and "unat va \<le> unat v" and "unat v < unat va + 2 ^ k" and "k < 64"
  shows "v AND (2 ^ k - 1) = v - va"
proof -
  have "unat v div 2 ^ k = unat va div 2 ^ k" using same_cover_iff [OF assms(1)] assms(2,3) by simp
  hence "unat v mod 2 ^ k = unat v - unat va"
    using assms(1) by (metis dvd_mult_div_cancel minus_mult_div_eq_mod)
  hence "unat (v AND (2 ^ k - 1)) = unat (v - va)"
    using assms(2) by (simp add: exp_minus_one_mask unat_and_mask unat_sub word_le_nat_alt)
  thus ?thesis by (simp add: word_unat_eq_iff)
qed

lemma leaf_result_bd:
  assumes "cfg_fits cfg" and "pa_fits (gran m) pa" and "2 ^ level_shift (gran m) l dvd unat va"
    and "unat va \<le> unat v" and "unat v < unat va + 2 ^ level_shift (gran m) l"
  shows "leaf_result m l (bd_build cfg pa (gran m) l) v r = mapped_to cfg pa va v r"
  using assms(1,2) offset_in_cover [OF assms(3-5) level_shift_less]
  by (simp add: leaf_result_def mapped_to_def dc_get_flags bd_build_bits output_bd_build
      cfg_from_bd_build)

context table_alloc
begin

lemma map_round_ok:
  assumes "mmu_inv repr m st lv" and "va_bits_ok m" and "va_half m va" and "cfg_fits cfg"
    and "l \<le> maxl m" and "pa_fits (gran m) pa"
    and "2 ^ level_shift (gran m) l dvd unat va" and "2 ^ level_shift (gran m) l dvd unat pa"
    and "map_one m va pa cfg l st = Inr st'"
  shows "\<exists>lv'. mmu_inv repr m st' lv' \<and>
    remaps_range m st lv st' lv' (unat va) (2 ^ level_shift (gran m) l) (mapped_to cfg pa va)"
proof -
  obtain lv' where lv': "mmu_inv repr m st' lv'"
    "remaps m st lv st' lv' (\<lambda>v. \<forall>k\<le>l. idx m v k = idx m va k)
      (leaf_result m l (bd_build cfg pa (gran m) l))"
    using map_one_ok [OF assms(1,5,6,8,9)] by blast
  from remaps_range_cong [OF remaps_range_cover [OF lv'(2) assms(2,3,5,7)]
      leaf_result_bd [OF assms(4,6,7)]] lv'(1) show ?thesis by blast
qed

lemma map_loop_ok:
  assumes "mmu_inv repr m st lv" and "map_loop m cfg va pa sz st = Inr st'"
    and "va_bits_ok m" and "cfg_fits cfg"
    and "\<And>v. unat va \<le> unat v \<Longrightarrow> unat v < unat va + unat sz \<Longrightarrow> va_half m v"
    and "unat va + unat sz \<le> 2 ^ 64" and "unat pa + unat sz \<le> 2 ^ 48"
  shows "\<exists>lv'. mmu_inv repr m st' lv' \<and>
    remaps_range m st lv st' lv' (unat va) (unat sz) (mapped_to cfg pa va)"
  using assms(1,2,5-7)
proof (induction "unat sz" arbitrary: va pa sz st lv rule: less_induct)
  case less
  show ?case
  proof (cases "sz = 0")
    case True
    thus ?thesis
      using less.prems(1,2) by (auto simp: map_loop.simps intro!: exI [of _ lv] remaps_range_refl)
  next
    case False
    let ?g = "gran m"
    have al: "sz mod gran_bytes ?g = 0" "va mod gran_bytes ?g = 0" "pa mod gran_bytes ?g = 0"
      using less.prems(2) False
      by (subst (asm) map_loop.simps, simp add: Let_def rassert_eq_Inr)+
    obtain l where l: "get_target_lvl sz ?g va pa = Inr (l, 2 ^ level_shift ?g l)" "l \<le> max_level ?g"
      "2 ^ level_shift ?g l \<le> sz" "2 ^ level_shift ?g l dvd unat va" "2 ^ level_shift ?g l dvd unat pa"
      using get_target_lvl_ok [OF False al] by blast
    let ?c = "2 ^ level_shift ?g l :: u64"
    obtain s1 where s1: "map_one m va pa cfg l st = Inr s1"
      and rest: "map_loop m cfg (va + ?c) (pa + ?c) (sz - ?c) s1 = Inr st'"
      using less.prems(2) False al
      by (subst (asm) map_loop.simps) (auto simp: Let_def l(1) rbind_eq_Inr rassert_eq_Inr)
    have c: "unat ?c = 2 ^ level_shift ?g l" by (simp add: unat_exp level_shift_less)
    have cs: "unat (sz - ?c) = unat sz - unat ?c" "unat ?c \<le> unat sz" "0 < unat ?c"
      using l(3) c by (simp_all add: unat_sub word_le_nat_alt)
    have "pa_fits ?g pa"
      using less.prems(5) al(3) False unat_gt_0 [of sz] by (simp add: pa_fits_iff mod_gran)
    moreover have "va_half m va" using less.prems(3) [of va] False unat_gt_0 [of sz] by simp
    ultimately obtain lv1 where lv1: "mmu_inv repr m s1 lv1"
      "remaps_range m st lv s1 lv1 (unat va) (unat ?c) (mapped_to cfg pa va)"
      using map_round_ok [OF less.prems(1) assms(3) _ assms(4) l(2) _ l(4,5) s1] c by auto
    have nw: "unat (va + ?c) = unat va + unat ?c" "unat (pa + ?c) = unat pa + unat ?c"
      if "sz - ?c \<noteq> 0"
      using that less.prems(4,5) cs unat_gt_0 [of "sz - ?c"] by (auto simp: unat_word_ariths(1))
    have mt: "mapped_to cfg (pa + ?c) (va + ?c) = mapped_to cfg pa va"
      by (simp add: mapped_to_def fun_eq_iff)
    show ?thesis
    proof (cases "sz - ?c = 0")
      case True
      hence "sz = ?c" by simp
      moreover from True rest have "st' = s1" by (simp add: map_loop.simps)
      ultimately show ?thesis using lv1 by blast
    next
      case False
      note n = nw [OF False]
      have "\<exists>lv'. mmu_inv repr m st' lv' \<and>
        remaps_range m s1 lv1 st' lv' (unat (va + ?c)) (unat (sz - ?c)) (mapped_to cfg pa va)"
        using less.hyps [OF _ lv1(1) rest] cs n less.prems(3-5) mt by auto
      then obtain lv' where lv': "mmu_inv repr m st' lv'"
        "remaps_range m s1 lv1 st' lv' (unat (va + ?c)) (unat (sz - ?c)) (mapped_to cfg pa va)" by blast
      from remaps_range_trans [OF lv1(2) lv'(2)] n cs lv'(1) show ?thesis by auto
    qed
  qed
qed

end

end
