(* ===== verification/Mmu_Progress.thy ===== *)
theory Mmu_Progress
  imports Mmu_Map
begin

text \<open>
  \<open>mmu_map\<close> returns: on a range that is aligned, in the mapping's half and not mapped yet, none of
  the assertions and panics of the table code is reached.  What can still fail is the allocator,
  and the error is then the allocator's.
\<close>

definition alloc_err :: "'s mmu_mapping \<Rightarrow> kerror \<Rightarrow> bool" where
  "alloc_err m e \<longleftrightarrow> (\<exists>s. allocator_fn m (gran_bytes (gran m)) s = Inl e) \<or>
     (\<exists>t s. allocator_free_fn m t s = Inl e)"

text \<open>The tables of the subtree under a table.\<close>

definition under ::
  "'s mmu_mapping \<Rightarrow> (u64 \<Rightarrow> (nat \<Rightarrow> mmu_hw_dc) option) \<Rightarrow> (u64 \<Rightarrow> nat option) \<Rightarrow> u64 \<Rightarrow> u64 \<Rightarrow> bool" where
  "under m T lv = (\<lambda>a b. \<exists>j. edge m T lv a j b)\<^sup>*\<^sup>*"

lemma under_refl: "under m T lv t t"
  by (simp add: under_def)

lemma under_step: "under m T lv t p \<Longrightarrow> edge m T lv p j x \<Longrightarrow> under m T lv t x"
  unfolding under_def by (blast intro: rtranclp.rtrancl_into_rtrancl)

lemma under_first: "edge m T lv t j c \<Longrightarrow> under m T lv c x \<Longrightarrow> under m T lv t x"
  unfolding under_def by (blast intro: converse_rtranclp_into_rtranclp)

lemma under_level:
  assumes "tables_ok m T lv" and "lv t = Some l" and "under m T lv t x"
  shows "\<exists>k. lv x = Some (l + k)"
  using assms(3) unfolding under_def
proof (induction rule: rtranclp_induct)
  case base
  show ?case using assms(2) by (intro exI [of _ 0]) simp
next
  case (step p x)
  then obtain k j where "lv p = Some (l + k)" "edge m T lv p j x" by blast
  thus ?case using tables_okD(4) [OF assms(1)] by (intro exI [of _ "Suc k"]) simp
qed

lemma under_same_level:
  assumes ok: "tables_ok m T lv" and l: "lv c = Some l" "lv d = Some l"
    and "under m T lv c x" and "under m T lv d x"
  shows "c = d"
  using assms(4,5) unfolding under_def
proof (induction rule: rtranclp_induct)
  case base
  from base show ?case
  proof (cases rule: rtranclp.cases)
    case (rtrancl_into_rtrancl p)
    then obtain j where e: "edge m T lv p j c" and "under m T lv d p" by (auto simp: under_def)
    from under_level [OF ok l(2) this(2)] obtain k where "lv p = Some (l + k)" by blast
    from tables_okD(4) [OF ok this e] l(1) show ?thesis by simp
  qed simp
next
  case (step p x)
  then obtain j where e: "edge m T lv p j x" by blast
  obtain k where k: "lv p = Some (l + k)" using under_level [OF ok l(1)] step(1) by (auto simp: under_def)
  from step(4) show ?case
  proof (cases rule: rtranclp.cases)
    case rtrancl_refl
    with tables_okD(4) [OF ok k e] l(2) show ?thesis by simp
  next
    case (rtrancl_into_rtrancl q)
    then obtain j' where "edge m T lv q j' x" by blast
    from tables_okD(5) [OF ok this e] rtrancl_into_rtrancl step(3) show ?thesis by simp
  qed
qed

lemma hangs_under:
  assumes ok: "tables_ok m T lv" and h: "hangs m T lv l (insert c R) R"
  shows "lv x = Some k \<Longrightarrow> x \<in> R \<Longrightarrow> under m T lv c x"
proof (induction k arbitrary: x)
  case 0
  then obtain p j where e: "edge m T lv p j x" using h by (auto simp: hangs_def)
  then obtain kp where "lv p = Some kp" by (auto simp: edge_def)
  from tables_okD(4) [OF ok this e] 0 show ?case by simp
next
  case (Suc k)
  then obtain p j where e: "edge m T lv p j x" "p \<in> insert c R" using h by (auto simp: hangs_def)
  then obtain kp where p: "lv p = Some kp" by (auto simp: edge_def)
  from tables_okD(4) [OF ok p e(1)] Suc.prems(1) have "kp = k" by simp
  hence "under m T lv c p" using Suc.IH [of p] p e(2) under_refl by auto
  from under_step [OF this e(1)] show ?case .
qed

section \<open>Releasing a subtree without leaves\<close>

definition leafless ::
  "'s mmu_mapping \<Rightarrow> (u64 \<Rightarrow> (nat \<Rightarrow> mmu_hw_dc) option) \<Rightarrow> (u64 \<Rightarrow> nat option) \<Rightarrow> u64 \<Rightarrow> bool" where
  "leafless m T lv t \<longleftrightarrow> (\<forall>x k j. under m T lv t x \<longrightarrow> lv x = Some k \<longrightarrow> j < nents m \<longrightarrow>
     dc_get_valid (desc T x j) \<longrightarrow> is_tbl m k (desc T x j))"

definition intact ::
  "'s mmu_mapping \<Rightarrow> (u64 \<Rightarrow> (nat \<Rightarrow> mmu_hw_dc) option) \<Rightarrow> (u64 \<Rightarrow> nat option) \<Rightarrow> 's mmu_state \<Rightarrow> u64 \<Rightarrow> bool" where
  "intact m T lv s t \<longleftrightarrow> (\<forall>x. under m T lv t x \<longrightarrow> tbls s x = T x)"

context table_alloc
begin

lemma free_keeps_intact:
  assumes ok: "tables_ok m T0 lv" and c: "lv c = Some (Suc l)" and d: "lv d = Some (Suc l)" "c \<noteq> d"
    and run: "free_tbl_rec n m c l s = Inr s'" "shrunk repr T0 s" and i: "intact m T0 lv s d"
  shows "intact m T0 lv s' d"
  unfolding intact_def
proof (intro allI impI)
  fix x assume x: "under m T0 lv d x"
  obtain R where R: "tbls s' = tbls s |` (- insert c R)" "hangs m T0 lv (Suc (Suc l)) (insert c R) R"
    using free_tbl_rec_ok [OF ok run(1) c run(2)] by blast
  have "\<not> under m T0 lv c x" using under_same_level [OF ok c d(1) _ x] d(2) by blast
  hence "x \<notin> insert c R"
    using under_refl [of m T0 lv c] hangs_under [OF ok R(2), of x] under_level [OF ok d(1) x] by auto
  thus "tbls s' x = T0 x" using i x by (simp add: R(1) intact_def)
qed

text \<open>The loop over the entries of a table, the recursive calls of which behave.\<close>

lemma free_entries_progress:
  assumes ok: "tables_ok m T0 lv" and t: "lv t = Some (Suc l)" and ll: "leafless m T0 lv t"
    and body: "\<And>i s. i < nents m \<Longrightarrow> tbls s t = Some f \<Longrightarrow> body i s =
      (if dc_get_valid (f i) then free_tbl_rec n m (child m (f i)) (Suc l) s else Inr s)"
    and tb: "\<And>i. i < nents m \<Longrightarrow> dc_get_valid (f i) \<Longrightarrow> edge m T0 lv t i (child m (f i))"
    and rec: "\<And>c s. free_tbl_rec n m c (Suc l) s = Inl e \<Longrightarrow> lv c = Some (Suc (Suc l)) \<Longrightarrow>
      shrunk repr T0 s \<Longrightarrow> intact m T0 lv s c \<Longrightarrow> leafless m T0 lv c \<Longrightarrow> alloc_err m e"
  shows "rfold body xs s = Inl e \<Longrightarrow> set xs \<subseteq> {..<nents m} \<Longrightarrow> distinct xs \<Longrightarrow>
    shrunk repr T0 s \<Longrightarrow> tbls s t = Some f \<Longrightarrow>
    (\<And>i. i \<in> set xs \<Longrightarrow> dc_get_valid (f i) \<Longrightarrow> intact m T0 lv s (child m (f i))) \<Longrightarrow> alloc_err m e"
proof (induction xs arbitrary: s)
  case (Cons i xs)
  have i: "i < nents m" using Cons.prems(2) by simp
  note b = body [OF i Cons.prems(5)]
  let ?c = "child m (f i)"
  show ?case
  proof (cases "dc_get_valid (f i)")
    case False
    thus ?thesis using Cons.IH [of s] Cons.prems b by simp
  next
    case True
    note ed = tb [OF i True]
    note lc = tables_okD(4) [OF ok t ed]
    have lc': "leafless m T0 lv ?c" using ll under_first [OF ed] by (auto simp: leafless_def)
    show ?thesis
    proof (cases "free_tbl_rec n m ?c (Suc l) s")
      case (Inl e')
      hence "free_tbl_rec n m ?c (Suc l) s = Inl e" using Cons.prems(1) b True by simp
      from rec [OF this lc Cons.prems(4) Cons.prems(6) lc'] True show ?thesis by simp
    next
      case (Inr s1)
      obtain R where R: "tbls s1 = tbls s |` (- insert ?c R)" "shrunk repr T0 s1"
        "hangs m T0 lv (Suc (Suc (Suc l))) (insert ?c R) R"
        using free_tbl_rec_ok [OF ok Inr lc Cons.prems(4)] by blast
      have "t \<notin> insert ?c R" using R(3) lc t by (auto simp: hangs_def)
      hence t': "tbls s1 t = Some f" using Cons.prems(5) by (simp add: R(1))
      have "intact m T0 lv s1 (child m (f j))" if j: "j \<in> set xs" "dc_get_valid (f j)" for j
      proof -
        have "j < nents m" "j \<noteq> i" using j Cons.prems(2,3) by auto
        note ej = tb [OF \<open>j < nents m\<close> j(2)]
        have "?c \<noteq> child m (f j)" using tables_okD(5) [OF ok ed, of t j] ej \<open>j \<noteq> i\<close> by metis
        thus ?thesis
          using free_keeps_intact [OF ok lc tables_okD(4) [OF ok t ej] _ Inr Cons.prems(4)]
            Cons.prems(6) [of j] j by simp
      qed
      thus ?thesis using Cons.IH [of s1] R(2) t' Cons.prems(1-3) b True Inr by simp
    qed
  qed
qed simp

lemma free_tbl_rec_progress:
  assumes ok: "tables_ok m T0 lv"
  shows "free_tbl_rec n m t l st = Inl e \<Longrightarrow> lv t = Some (Suc l) \<Longrightarrow> maxl m - l \<le> n \<Longrightarrow>
    shrunk repr T0 st \<Longrightarrow> intact m T0 lv st t \<Longrightarrow> leafless m T0 lv t \<Longrightarrow> alloc_err m e"
proof (induction n arbitrary: t l st)
  case 0
  thus ?case using tables_okD(2) [OF ok 0(2)] by simp
next
  case (Suc n)
  let ?body = "\<lambda>i st. rbind (mmu_tbl_get_dc st t (word_of_nat i)) (\<lambda>dc.
         if \<not> dc_get_valid dc then Inr st
         else rbind (dc_get_type dc (gran m) l) (\<lambda>ty.
              if ty = MMU_DESCRIPTOR_TABLE
              then rbind (tbl_from_td m dc (l + 1)) (\<lambda>t. free_tbl_rec n m t (l + 1) st)
              else Inr st))"
  have lm: "Suc l \<le> maxl m" by (rule tables_okD(2) [OF ok Suc.prems(2)])
  obtain f where f: "T0 t = Some f" using tables_okD(3) [OF ok Suc.prems(2)] by auto
  have d: "desc T0 t i = f i" for i by (simp add: desc_def f)
  have ist: "is_tbl m (Suc l) (f i)" if "i < nents m" "dc_get_valid (f i)" for i
    using Suc.prems(2,6) that under_refl [of m T0 lv t] d unfolding leafless_def by metis
  have tb: "edge m T0 lv t i (child m (f i))" if "i < nents m" "dc_get_valid (f i)" for i
    using ist [OF that] that Suc.prems(2) by (auto simp: edge_def d)
  have body: "?body i s =
      (if dc_get_valid (f i) then free_tbl_rec n m (child m (f i)) (Suc l) s else Inr s)"
    if "i < nents m" "tbls s t = Some f" for i s
    using that lm ist [OF that(1)]
    by (auto simp: mmu_tbl_get_dc_def unat_entry is_tbl_def dc_get_type_eq tbl_from_td_def child_def)
  have it: "tbls st t = Some f" using Suc.prems(5) under_refl [of m T0 lv t] f by (auto simp: intact_def)
  have ic: "intact m T0 lv st (child m (f i))" if "i < nents m" "dc_get_valid (f i)" for i
    using Suc.prems(5) under_first [OF tb [OF that]] by (auto simp: intact_def)
  have rec: "alloc_err m e" if "free_tbl_rec n m c (Suc l) s = Inl e" "lv c = Some (Suc (Suc l))"
    "shrunk repr T0 s" "intact m T0 lv s c" "leafless m T0 lv c" for c s
    using Suc.IH [OF that(1,2) _ that(3-5)] Suc.prems(3) by simp
  have "rfold ?body [0..<nents m] st = Inl e \<or> (\<exists>s. allocator_free_fn m t s = Inl e)"
    using Suc.prems(1) by (auto simp: rbind_eq_Inl nents_def)
  thus ?case
  proof
    assume run: "rfold ?body [0..<nents m] st = Inl e"
    show ?thesis
    proof (rule free_entries_progress [OF ok Suc.prems(2,6), where body = ?body and f = f and n = n])
      show "?body i s =
        (if dc_get_valid (f i) then free_tbl_rec n m (child m (f i)) (Suc l) s else Inr s)"
        if "i < nents m" "tbls s t = Some f" for i s by (rule body [OF that])
    qed (use run tb rec Suc.prems(4) it ic in \<open>auto\<close>)
  qed (auto simp: alloc_err_def)
qed

lemma alloc_tbl_progress:
  assumes "mmu_inv repr m st lv" and "alloc_tbl m b st = Inl e"
  shows "alloc_err m e"
proof (cases "allocator_fn m (gran_bytes (gran m)) (alst st)")
  case (Inl e')
  thus ?thesis using assms(2) by (auto simp: alloc_tbl_def Let_def entry_bytes alloc_err_def)
next
  case (Inr p)
  obtain a c where p: "p = (a, c)" by (cases p)
  obtain A where "repr (alst st) A" using assms(1) by (auto simp: mmu_inv_def)
  from alloc_fits [OF this Inr [unfolded p]] assms(2) Inr p show ?thesis
    by (cases b) (simp_all add: alloc_tbl_def Let_def entry_bytes tbl_init_null_def)
qed

lemma split_block_progress:
  assumes inv: "mmu_inv repr m st lv" and l: "lv t = Some l" "l < maxl m" and i: "unat i < nents m"
    and dc: "dc_get_valid (desc (tbls st) t (unat i))" "\<not> is_tbl m l (desc (tbls st) t (unat i))"
    and run: "split_block m t i l st = Inl e"
  shows "alloc_err m e"
proof -
  have ok: "tables_ok m (tbls st) lv" using inv by (simp add: mmu_inv_def)
  obtain ft where ft: "tbls st t = Some ft" using tables_okD(3) [OF ok l(1)] by auto
  have al: "dc_get_output_address (ft (unat i)) (gran m) mod 2 ^ level_shift (gran m) l = 0"
    using tables_okD(6) [OF ok l(1) i] dc l(2)
    by (auto simp: desc_def ft leaf_ok_def is_tbl_def mod_cover)
  show ?thesis
  proof (cases "alloc_tbl m False st")
    case (Inl e')
    thus ?thesis
      using run alloc_tbl_progress [OF inv Inl]
      by (auto simp: split_block_def Let_def mmu_tbl_get_dc_def ft)
  next
    case (Inr p)
    obtain s1 c where p: "p = (s1, c)" by (cases p)
    note a = alloc_tbl_ok(1,2) [OF inv Inr [unfolded p]]
    have "c \<noteq> t" using a(2) ft by auto
    hence False
      using run dc(1) l(2) al
      by (simp add: split_block_def Let_def mmu_tbl_get_dc_def ft desc_def Inr p dc_cover_bytes_eq
          tbl_set_dc_def a(1))
    thus ?thesis ..
  qed
qed

lemma map_step_progress:
  assumes inv: "mmu_inv repr m st lv" and l: "lv t = Some l" "l < maxl m"
    and run: "map_step m va l t st = Inl e"
  shows "alloc_err m e"
proof -
  let ?i = "table_index va (gran m) l"
  define s where "s = upd_info (\<lambda>i. i\<lparr>iters := iters i + 1\<rparr>) st"
  have inv: "mmu_inv repr m s lv" using assms(1) by (simp add: s_def mmu_inv_info)
  hence ok: "tables_ok m (tbls s) lv" by (simp add: mmu_inv_def)
  have i: "unat ?i < nents m" using idx_less [of m va l] by (simp add: idx_def)
  obtain ft where ft: "tbls s t = Some ft" using tables_okD(3) [OF ok l(1)] by auto
  let ?dc = "desc (tbls s) t (unat ?i)"
  have get: "mmu_tbl_get_dc s t ?i = Inr ?dc" by (simp add: mmu_tbl_get_dc_def desc_def ft)
  note run = run [unfolded map_step_def Let_def, folded s_def, unfolded get rbind.simps]
  show ?thesis
  proof (cases "dc_get_valid ?dc")
    case False
    show ?thesis
    proof (cases "alloc_tbl m True s")
      case (Inl e')
      thus ?thesis using run False alloc_tbl_progress [OF inv Inl] by simp
    next
      case (Inr p)
      obtain s1 c where p: "p = (s1, c)" by (cases p)
      note a = alloc_tbl_ok(1) [OF inv Inr [unfolded p]]
      show ?thesis using run False by (auto simp: Inr p tbl_set_dc_def a ft split: if_splits)
    qed
  next
    case True
    show ?thesis
    proof (cases "is_tbl m l ?dc")
      case t: True
      hence False using run l(2) by (simp add: is_tbl_def dc_get_type_eq tbl_from_td_def)
      thus ?thesis ..
    next
      case False
      hence "split_block m t ?i l s = Inl e"
        using run l(2) True by (auto simp: is_tbl_def dc_get_type_eq)
      from split_block_progress [OF inv l i True False this] show ?thesis .
    qed
  qed
qed

lemma map_descend_progress:
  assumes "mmu_inv repr m st lv" and "lv t = Some l" and "l + n \<le> maxl m"
    and "map_descend m va n l t st = Inl e"
  shows "alloc_err m e"
  using assms
proof (induction n arbitrary: l t st lv)
  case (Suc n)
  have l: "l < maxl m" "Suc l + n \<le> maxl m" using Suc.prems(3) by simp_all
  show ?case
  proof (cases "map_step m va l t st")
    case (Inl e')
    thus ?thesis using Suc.prems(4) map_step_progress [OF Suc.prems(1,2) l(1) Inl] by simp
  next
    case (Inr p)
    obtain s1 c where p: "p = (s1, c)" by (cases p)
    obtain lv1 where "mmu_inv repr m s1 lv1" "lv1 c = Some (Suc l)"
      using map_step_ok [OF Suc.prems(1,2) l(1) Inr [unfolded p]] by blast
    from Suc.IH [OF this l(2)] Suc.prems(4) Inr p show ?thesis by simp
  qed
qed simp

end

section \<open>Unmapped ranges have no leaves\<close>

lemma idx_same_block:
  assumes "unat v div 2 ^ level_shift (gran m) l = unat w div 2 ^ level_shift (gran m) l" and "k \<le> l"
  shows "idx m v k = idx m w k"
proof -
  have "level_shift (gran m) l \<le> level_shift (gran m) k" using assms(2) by (simp add: level_shift_eq diff_le_mono2)
  then obtain d where d: "level_shift (gran m) k = level_shift (gran m) l + d" by (metis le_Suc_ex)
  show ?thesis unfolding idx_eq d power_add div_mult2_eq assms(1) ..
qed

lemma walk_reach:
  "tables_ok m T lv \<Longrightarrow> lv t = Some l \<Longrightarrow> reach m T v l t n = Some t' \<Longrightarrow>
   walk_from m T v l t r = walk_from m T v (l + n) t' r"
proof (induction n arbitrary: l t)
  case (Suc n)
  let ?c = "child m (desc T t (idx m v l))"
  have e: "edge m T lv t (idx m v l) ?c" "reach m T v (Suc l) ?c n = Some t'"
    "is_tbl m l (desc T t (idx m v l))"
    using Suc.prems(2,3) by (auto simp: Let_def edge_def idx_less split: if_splits)
  from Suc.IH [OF Suc.prems(1) tables_okD(4) [OF Suc.prems(1,2) e(1)] e(2)] e(3) show ?case
    by (simp add: walk_step [OF Suc.prems(1,2)])
qed simp

text \<open>In the block of \<open>v\<close> at level \<open>k\<close>, the address with index \<open>j\<close> at the level below.\<close>

lemma child_address:
  assumes k: "k < maxl m" and d: "2 ^ level_shift (gran m) k dvd unat v" and j: "j < nents m"
  defines "v' \<equiv> v + word_of_nat j * 2 ^ level_shift (gran m) (Suc k)"
  shows "unat v' = unat v + j * 2 ^ level_shift (gran m) (Suc k)"
    and "idx m v' (Suc k) = j" and "\<And>i. i \<le> k \<Longrightarrow> idx m v' i = idx m v i"
    and "2 ^ level_shift (gran m) (Suc k) dvd unat v'"
    and "unat v \<le> unat v'" and "unat v' < unat v + 2 ^ level_shift (gran m) k"
proof -
  let ?s = "2 ^ level_shift (gran m) (Suc k) :: nat" and ?b = "2 ^ level_shift (gran m) k :: nat"
  have b: "?b = ?s * nents m" unfolding nents_eq by (rule cover_Suc [OF k])
  have js: "j * ?s < ?b" unfolding b using j by (simp add: mult.commute)
  have "?b dvd 2 ^ 64" using level_shift_48 [of "gran m" k] by (intro le_imp_power_dvd) simp
  moreover have "unat v < 2 ^ 64" using unsigned_less [of v, where 'a = nat] by simp
  ultimately have room: "unat v + ?b \<le> 2 ^ 64" using dvd_room [OF d] by blast
  have "j * ?s < 2 ^ 64" using js room by simp
  hence "unat (word_of_nat j * 2 ^ level_shift (gran m) (Suc k) :: u64) = j * ?s"
    by (simp add: unat_word_ariths(2) unat_entry [OF j] unat_exp level_shift_less)
  thus u: "unat v' = unat v + j * ?s"
    unfolding v'_def using js room by (simp add: unat_word_ariths(1))
  show "unat v \<le> unat v'" "unat v' < unat v + ?b" using js by (simp_all add: u)
  have "?s dvd unat v" using d b by (metis dvd_mult_left)
  thus "?s dvd unat v'" by (simp add: u)
  obtain q where q: "unat v = ?b * q" using d by blast
  have "unat v' = ?s * (nents m * q + j)" by (simp add: u q b algebra_simps)
  hence "unat v' div ?s = nents m * q + j" by simp
  thus "idx m v' (Suc k) = j" using j unfolding idx_eq by (simp add: nents_eq)
  have "unat v' div ?b = unat v div ?b" using js by (simp add: u q)
  thus "idx m v' i = idx m v i" if "i \<le> k" for i using idx_same_block that by blast
qed

lemma path_to:
  assumes ok: "tables_ok m T lv" and t: "reach m T va 0 (tbl_ptr m) l = Some t"
    and e: "edge m T lv t (idx m va l) c" and d: "2 ^ level_shift (gran m) l dvd unat va"
    and x: "under m T lv c x"
  shows "\<exists>k v. lv x = Some (Suc k) \<and> unat va \<le> unat v \<and> unat v < unat va + 2 ^ level_shift (gran m) l \<and>
    level_shift (gran m) k \<le> level_shift (gran m) l \<and>
    2 ^ level_shift (gran m) k dvd unat v \<and> reach m T v 0 (tbl_ptr m) (Suc k) = Some x"
  using x unfolding under_def
proof (induction rule: rtranclp_induct)
  case base
  note root = tables_okD(1) [OF ok]
  have lt: "lv t = Some l" using reach_level [OF ok root t] by simp
  have "reach m T va 0 (tbl_ptr m) (Suc l) = Some c"
    using t e lt by (auto simp: reach_snoc edge_def Let_def simp del: reach.simps)
  thus ?case using tables_okD(4) [OF ok lt e] d by (intro exI [of _ l] exI [of _ va]) simp
next
  case (step p x)
  note root = tables_okD(1) [OF ok]
  obtain j where j: "edge m T lv p j x" using step(2) by blast
  obtain k v where v: "lv p = Some (Suc k)" "unat va \<le> unat v"
    "unat v < unat va + 2 ^ level_shift (gran m) l" "level_shift (gran m) k \<le> level_shift (gran m) l"
    "2 ^ level_shift (gran m) k dvd unat v" "reach m T v 0 (tbl_ptr m) (Suc k) = Some p"
    using step(3) by blast
  have jn: "j < nents m" and km: "k < maxl m"
    using j tables_okD(2) [OF ok v(1)] by (auto simp: edge_def)
  note ca = child_address [OF km v(5) jn]
  let ?v = "v + word_of_nat j * 2 ^ level_shift (gran m) (Suc k)"
  have "2 ^ level_shift (gran m) k dvd unat va + 2 ^ level_shift (gran m) l"
    using d v(4) by (meson dvd_add dvd_trans le_imp_power_dvd)
  from dvd_room [OF v(5) this v(3)] ca(5,6) v(2)
  have "unat va \<le> unat ?v" "unat ?v < unat va + 2 ^ level_shift (gran m) l" by linarith+
  moreover have "reach m T ?v 0 (tbl_ptr m) (Suc k) = Some p"
    using reach_iff [OF ok root v(6), of ?v] ca(3) by (simp add: less_Suc_eq_le)
  hence "reach m T ?v 0 (tbl_ptr m) (Suc (Suc k)) = Some x"
    using j v(1) ca(2) by (subst reach_snoc) (auto simp: edge_def Let_def simp del: reach.simps)
  moreover have "level_shift (gran m) (Suc k) \<le> level_shift (gran m) l"
    using level_shift_Suc [OF km] v(4) by simp
  ultimately show ?case
    using tables_okD(4) [OF ok v(1) j] ca(4) by (intro exI [of _ "Suc k"] exI [of _ ?v]) simp
qed

definition unmapped :: "'s mmu_mapping \<Rightarrow> (u64 \<Rightarrow> (nat \<Rightarrow> mmu_hw_dc) option) \<Rightarrow> u64 \<Rightarrow> bool" where
  "unmapped m T v \<longleftrightarrow>
     (\<forall>r. walk_from m T v 0 (tbl_ptr m) r = Inr (r\<lparr>walk_result := MMU_WALK_PAGE_UNMAPPED\<rparr>))"

lemma unmapped_leafless:
  assumes ok: "tables_ok m T lv" and t: "reach m T va 0 (tbl_ptr m) l = Some t"
    and e: "edge m T lv t (idx m va l) c" and d: "2 ^ level_shift (gran m) l dvd unat va"
    and un: "\<And>v. unat va \<le> unat v \<Longrightarrow> unat v < unat va + 2 ^ level_shift (gran m) l \<Longrightarrow> unmapped m T v"
  shows "leafless m T lv c"
  unfolding leafless_def
proof (intro allI impI, rule ccontr)
  fix x k' j assume x: "under m T lv c x" "lv x = Some k'" and j: "j < nents m"
    and dc: "dc_get_valid (desc T x j)" "\<not> is_tbl m k' (desc T x j)"
  obtain k v where v: "lv x = Some (Suc k)" "unat va \<le> unat v"
    "unat v < unat va + 2 ^ level_shift (gran m) l" "level_shift (gran m) k \<le> level_shift (gran m) l"
    "2 ^ level_shift (gran m) k dvd unat v" "reach m T v 0 (tbl_ptr m) (Suc k) = Some x"
    using path_to [OF ok t e d x(1)] by blast
  have k: "k' = Suc k" using x(2) v(1) by simp
  have km: "k < maxl m" using tables_okD(2) [OF ok v(1)] by simp
  note ca = child_address [OF km v(5) j] and root = tables_okD(1) [OF ok]
  let ?v = "v + word_of_nat j * 2 ^ level_shift (gran m) (Suc k)"
  have "2 ^ level_shift (gran m) k dvd unat va + 2 ^ level_shift (gran m) l"
    using d v(4) by (meson dvd_add dvd_trans le_imp_power_dvd)
  from dvd_room [OF v(5) this v(3)] ca(5,6) v(2)
  have "unmapped m T ?v" by (intro un) linarith+
  moreover have "reach m T ?v 0 (tbl_ptr m) (Suc k) = Some x"
    using reach_iff [OF ok root v(6), of ?v] ca(3) by (simp add: less_Suc_eq_le)
  from walk_reach [OF ok root this] have "walk_from m T ?v 0 (tbl_ptr m) r =
    Inr (leaf_result m (Suc k) (desc T x j) ?v r)" for r
    using dc(2) k ca(2) by (simp add: walk_step [OF ok v(1)])
  ultimately have "leaf_result m (Suc k) (desc T x j) ?v r = r\<lparr>walk_result := MMU_WALK_PAGE_UNMAPPED\<rparr>" for r
    by (simp add: unmapped_def)
  from arg_cong [OF this, of walk_result] dc(1) show False by (simp add: leaf_result_def)
qed

section \<open>The mapping loop\<close>

context table_alloc
begin

lemma free_after_write_progress:
  assumes inv: "mmu_inv repr m s lv" and t: "lv t = Some l" "tbls s t = Some ft"
    and dc: "\<not> is_tbl m l dc" "leaf_ok m l dc" and c: "lv c = Some (Suc l)"
    and ll: "leafless m (tbls s) lv c" and ut: "\<And>x. under m (tbls s) lv c x \<Longrightarrow> x \<noteq> t"
    and run: "free_tbl m c l (s\<lparr>tbls := (tbls s)(t \<mapsto> ft(i := dc))\<rparr>) = Inl e"
  shows "alloc_err m e"
proof -
  let ?s = "s\<lparr>tbls := (tbls s)(t \<mapsto> ft(i := dc))\<rparr>"
  have ok: "tables_ok m (tbls s) lv" using inv by (simp add: mmu_inv_def)
  have ok': "tables_ok m (tbls ?s) lv" using write_ok [OF ok t dc] by simp
  have e: "edge m (tbls s) lv p j x" if "edge m (tbls ?s) lv p j x" for p j x
    using that t dc by (auto simp: edge_def desc_def split: if_splits)
  have u: "under m (tbls s) lv c x" if "under m (tbls ?s) lv c x" for x
    using that unfolding under_def
  proof (induction rule: rtranclp_induct)
    case (step y z)
    then obtain j where "edge m (tbls s) lv y j z" using e by blast
    with step.IH show ?case by (intro rtranclp.rtrancl_into_rtrancl [of _ c y z]) blast+
  qed simp
  have "desc (tbls ?s) x j = desc (tbls s) x j" if "under m (tbls ?s) lv c x" for x j
    using ut [OF u [OF that]] by (simp add: desc_def)
  hence "leafless m (tbls ?s) lv c" using ll u unfolding leafless_def by metis
  moreover obtain A where "repr (alst ?s) A" "dom (tbls ?s) \<subseteq> A" using inv t(2) by (auto simp: mmu_inv_def)
  hence "shrunk repr (tbls ?s) ?s"
    unfolding shrunk_def by (metis boolean_algebra.compl_zero restrict_UNIV)
  ultimately show ?thesis
    using free_tbl_rec_progress [OF ok' run [unfolded free_tbl_def] c] by (simp add: intact_def)
qed

lemma map_one_progress:
  assumes inv: "mmu_inv repr m st lv" and l: "l \<le> maxl m"
    and pa: "pa_fits (gran m) pa" "2 ^ level_shift (gran m) l dvd unat pa"
    and va: "2 ^ level_shift (gran m) l dvd unat va"
    and un: "\<And>v. unat va \<le> unat v \<Longrightarrow> unat v < unat va + 2 ^ level_shift (gran m) l \<Longrightarrow>
      unmapped m (tbls st) v"
    and run: "map_one m va pa cfg l st = Inl e"
  shows "alloc_err m e"
proof (cases "map_descend m va l 0 (tbl_ptr m) st")
  have root: "lv (tbl_ptr m) = Some 0" using inv tables_okD(1) by (auto simp: mmu_inv_def)
  {
    case (Inl e')
    thus ?thesis
      using run map_descend_progress [OF inv root _ Inl] l by (simp add: map_one_def Let_def)
  next
    case (Inr p)
    obtain s1 t where p: "p = (s1, t)" by (cases p)
    obtain lv1 where lv1: "mmu_inv repr m s1 lv1" "grows m st lv s1 lv1"
      "reach m (tbls s1) va 0 (tbl_ptr m) l = Some t" "lv1 t = Some l"
      using map_descend_ok [OF inv root _ Inr [unfolded p]] l by auto
    have ok: "tables_ok m (tbls s1) lv1" using lv1(1) by (simp add: mmu_inv_def)
    obtain ft where ft: "tbls s1 t = Some ft" using tables_okD(3) [OF ok lv1(4)] by auto
    let ?i = "table_index va (gran m) l" and ?dc = "bd_build cfg pa (gran m) l"
    let ?s2 = "s1\<lparr>tbls := (tbls s1)(t \<mapsto> ft(unat ?i := ?dc))\<rparr>"
    let ?old = "ft (idx m va l)"
    have isb: "is_tbl m l ?old" and fr: "free_tbl m (child m ?old) l ?s2 = Inl e"
      using run l Inr p tables_okD(6) [OF ok lv1(4) idx_less [of m va l]]
      by (auto simp: map_one_def Let_def mmu_tbl_get_dc_def ft tbl_set_dc_def free_old_def is_tbl_def
          dc_get_type_eq tbl_from_td_def child_def idx_def leaf_ok_def desc_def split: if_splits)
    have e: "edge m (tbls s1) lv1 t (idx m va l) (child m ?old)"
      using isb lv1(4) idx_less by (auto simp: edge_def desc_def ft)
    have "unmapped m (tbls s1) v" if "unat va \<le> unat v" "unat v < unat va + 2 ^ level_shift (gran m) l" for v
      using un [OF that] growsD(3) [OF lv1(2) root] by (simp add: unmapped_def)
    from unmapped_leafless [OF ok lv1(3) e va this]
    have ll: "leafless m (tbls s1) lv1 (child m ?old)" .
    note lc = tables_okD(4) [OF ok lv1(4) e]
    have ut: "x \<noteq> t" if "under m (tbls s1) lv1 (child m ?old) x" for x
      using under_level [OF ok lc that] lv1(4) by auto
    show ?thesis
      using free_after_write_progress [OF lv1(1,4) ft bd_leaf [OF l pa] lc ll ut] fr
      by (simp add: idx_def)
  }
qed

lemma map_loop_progress:
  assumes "mmu_inv repr m st lv" and "map_loop m cfg va pa sz st = Inl e"
    and "va_bits_ok m" and "cfg_fits cfg"
    and "\<And>v. unat va \<le> unat v \<Longrightarrow> unat v < unat va + unat sz \<Longrightarrow> va_half m v \<and> unmapped m (tbls st) v"
    and "unat va + unat sz \<le> 2 ^ 64" and "unat pa + unat sz \<le> 2 ^ 48"
    and "sz mod gran_bytes (gran m) = 0" and "va mod gran_bytes (gran m) = 0"
    and "pa mod gran_bytes (gran m) = 0"
  shows "alloc_err m e"
  using assms(1,2,5-10)
proof (induction "unat sz" arbitrary: va pa sz st lv rule: less_induct)
  case less
  let ?g = "gran m"
  have nz: "sz \<noteq> 0" using less.prems(2) by (auto simp: map_loop.simps)
  obtain l where l: "get_target_lvl sz ?g va pa = Inr (l, 2 ^ level_shift ?g l)" "l \<le> max_level ?g"
    "2 ^ level_shift ?g l \<le> sz" "2 ^ level_shift ?g l dvd unat va" "2 ^ level_shift ?g l dvd unat pa"
    using get_target_lvl_ok [OF nz less.prems(6-8)] by blast
  let ?c = "2 ^ level_shift ?g l :: u64"
  have run: "rbind (map_one m va pa cfg l st) (\<lambda>s. map_loop m cfg (va + ?c) (pa + ?c) (sz - ?c) s) = Inl e"
    using less.prems(2,6-8) nz by (simp add: map_loop.simps [of m cfg va pa sz] Let_def l(1))
  have c: "unat ?c = 2 ^ level_shift ?g l" by (simp add: unat_exp level_shift_less)
  have cs: "unat (sz - ?c) = unat sz - unat ?c" "unat ?c \<le> unat sz" "0 < unat ?c"
    using l(3) c by (simp_all add: unat_sub word_le_nat_alt)
  have pf: "pa_fits ?g pa"
    using less.prems(5,8) nz unat_gt_0 [of sz] by (simp add: pa_fits_iff mod_gran)
  have vh: "va_half m va" using less.prems(3) [of va] nz unat_gt_0 [of sz] by simp
  have un: "unmapped m (tbls st) v" if "unat va \<le> unat v" "unat v < unat va + 2 ^ level_shift ?g l" for v
    using less.prems(3) [of v] that cs(2) c by simp
  show ?case
  proof (cases "map_one m va pa cfg l st")
    case (Inl e')
    thus ?thesis
      using run map_one_progress [OF less.prems(1) l(2) pf l(5,4) un Inl] by simp
  next
    case (Inr s1)
    hence rest: "map_loop m cfg (va + ?c) (pa + ?c) (sz - ?c) s1 = Inl e" using run by simp
    obtain lv1 where lv1: "mmu_inv repr m s1 lv1"
      "remaps_range m st lv s1 lv1 (unat va) (unat ?c) (mapped_to cfg pa va)"
      using map_round_ok [OF less.prems(1) assms(3) vh assms(4) l(2) pf l(4,5) Inr] c by auto
    have "sz - ?c \<noteq> 0" using rest by (auto simp: map_loop.simps)
    hence n: "unat (va + ?c) = unat va + unat ?c" "unat (pa + ?c) = unat pa + unat ?c"
      using less.prems(4,5) cs unat_gt_0 [of "sz - ?c"] by (auto simp: unat_word_ariths(1))
    have g: "2 ^ page_bits ?g dvd unat ?c" unfolding c
      by (intro le_imp_power_dvd) (simp add: level_shift_eq)
    have "va_half m v \<and> unmapped m (tbls s1) v"
      if "unat (va + ?c) \<le> unat v" "unat v < unat (va + ?c) + unat (sz - ?c)" for v
      using less.prems(3) [of v] that n cs lv1(2) by (auto simp: remaps_range_def unmapped_def)
    thus ?thesis
      using less.hyps [OF _ lv1(1) rest] less.prems(4-8) n cs g by (auto simp: mod_gran dvd_diff_nat)
  qed
qed

end

end
