(* ===== verification/Mmu_Unmap.thy ===== *)
theory Mmu_Unmap
  imports Mmu_Progress
begin

text \<open>
  Correctness of \<open>mmu_unmap\<close> on a range all of which is mapped: when it reports success, exactly
  that range has become unmapped.
\<close>

definition mapped :: "'s mmu_mapping \<Rightarrow> (u64 \<Rightarrow> (nat \<Rightarrow> mmu_hw_dc) option) \<Rightarrow> u64 \<Rightarrow> bool" where
  "mapped m T v \<longleftrightarrow>
     (\<forall>r. \<exists>r'. walk_from m T v 0 (tbl_ptr m) r = Inr r' \<and> walk_result r' = MMU_WALK_PAGE_MAPPED)"

definition unmapped_res :: "u64 \<Rightarrow> mmu_walk_result \<Rightarrow> mmu_walk_result" where
  "unmapped_res v r = r\<lparr>walk_result := MMU_WALK_PAGE_UNMAPPED\<rparr>"

context table_alloc
begin

lemma unmap_descend_ok:
  assumes "mmu_inv repr m st lv" and "lv t = Some l" and "l + n \<le> maxl m"
    and "unmap_descend m va n l t st = Inr (st', t', l', skip)"
    and "\<And>r. \<exists>r'. walk_from m (tbls st) va l t r = Inr r' \<and> walk_result r' = MMU_WALK_PAGE_MAPPED"
  shows "\<not> skip \<and> (\<exists>lv'. mmu_inv repr m st' lv' \<and> grows m st lv st' lv' \<and>
    reach m (tbls st') va l t n = Some t' \<and> lv' t' = Some (l + n))"
  using assms
proof (induction n arbitrary: l t st lv)
  case 0
  thus ?case by (auto intro!: exI [of _ lv] grows_same)
next
  case (Suc n)
  let ?i = "table_index va (gran m) l"
  define s where "s = upd_info (\<lambda>i. i\<lparr>iters := iters i + 1\<rparr>) st"
  have inv: "mmu_inv repr m s lv" and gs: "grows m st lv s lv"
    using Suc.prems(1) by (simp_all add: s_def mmu_inv_info grows_info)
  hence ok: "tables_ok m (tbls s) lv" by (simp add: mmu_inv_def)
  have l: "lv t = Some l" "l < maxl m" "Suc l + n \<le> maxl m" using Suc.prems(2,3) by simp_all
  have i: "unat ?i < nents m" using idx_less [of m va l] by (simp add: idx_def)
  obtain ft where ft: "tbls s t = Some ft" using tables_okD(3) [OF ok l(1)] by auto
  let ?dc = "desc (tbls s) t (unat ?i)"
  have get: "mmu_tbl_get_dc s t ?i = Inr ?dc" by (simp add: mmu_tbl_get_dc_def desc_def ft)
  note run = Suc.prems(4) [unfolded unmap_descend.simps Let_def, folded s_def, unfolded get rbind.simps]
  have v: "dc_get_valid ?dc"
  proof (rule ccontr)
    assume "\<not> dc_get_valid ?dc"
    hence "walk_from m (tbls s) va l t undefined = Inr (undefined\<lparr>walk_result := MMU_WALK_PAGE_UNMAPPED\<rparr>)"
      by (simp add: walk_step [OF ok l(1)] idx_def leaf_result_def is_tbl_def)
    with Suc.prems(5) [of undefined] show False by (auto simp: s_def)
  qed
  obtain s1 c where rest: "unmap_descend m va n (l + 1) c s1 = Inr (st', t', l', skip)"
    and step: "\<exists>lv'. mmu_inv repr m s1 lv' \<and> grows m s lv s1 lv' \<and>
      edge m (tbls s1) lv' t (unat ?i) c \<and> lv' c = Some (Suc l)"
  proof (cases "is_tbl m l ?dc")
    case True
    hence "unmap_descend m va n (l + 1) (child m ?dc) s = Inr (st', t', l', skip)"
      using run v l(2) by (auto simp: is_tbl_def dc_get_type_eq tbl_from_td_def child_def)
    moreover have "edge m (tbls s) lv t (unat ?i) (child m ?dc)"
      using True l i by (auto simp: edge_def)
    ultimately show ?thesis
      using that inv tables_okD(4) [OF ok l(1)] grows_same [of s s m lv] by blast
  next
    case False
    then obtain s1 c where sb: "split_block m t ?i l s = Inr (s1, c)"
      "unmap_descend m va n (l + 1) c s1 = Inr (st', t', l', skip)"
      using run v l(2) by (auto simp: is_tbl_def dc_get_type_eq rbind_eq_Inr)
    from that [OF sb(2) split_block_ok [OF inv l(1,2) i v False sb(1)]] show ?thesis .
  qed
  obtain lv1 where lv1: "mmu_inv repr m s1 lv1" "grows m s lv s1 lv1"
    "edge m (tbls s1) lv1 t (idx m va l) c" "lv1 c = Some (Suc l)" using step by (auto simp: idx_def)
  have ok1: "tables_ok m (tbls s1) lv1" using lv1(1) by (simp add: mmu_inv_def)
  have t1: "lv1 t = Some l" by (rule growsD(1) [OF lv1(2) l(1)])
  have "walk_from m (tbls s1) va (Suc l) c r = walk_from m (tbls st) va l t r" for r
    using growsD(3) [OF lv1(2) l(1), of va r] lv1(3) t1
    by (auto simp: s_def walk_step [OF ok1 t1] edge_def)
  hence m1: "\<exists>r'. walk_from m (tbls s1) va (Suc l) c r = Inr r' \<and> walk_result r' = MMU_WALK_PAGE_MAPPED" for r
    using Suc.prems(5) by simp
  from Suc.IH [OF lv1(1,4) l(3) _ m1] rest obtain lv' where lv': "\<not> skip" "mmu_inv repr m st' lv'"
    "grows m s1 lv1 st' lv'" "reach m (tbls st') va (Suc l) c n = Some t'" "lv' t' = Some (Suc l + n)"
    by auto
  have "edge m (tbls st') lv' t (idx m va l) c" by (rule growsD(2) [OF lv'(3) lv1(3)])
  moreover have "lv' t = Some l" using growsD(1) [OF lv'(3) t1] .
  ultimately have "reach m (tbls st') va l t (Suc n) = Some t'"
    using lv'(4) by (auto simp: edge_def Let_def)
  thus ?case
    using lv'(1,2,5) grows_trans [OF gs grows_trans [OF lv1(2) lv'(3)]] by auto
qed

lemma unmap_one_ok:
  assumes inv: "mmu_inv repr m st lv" and l: "l \<le> maxl m" and mp: "mapped m (tbls st) va"
    and run: "unmap_one m va sz l cover st = Inr (st', c)"
  shows "c = cover \<and> (\<exists>lv'. mmu_inv repr m st' lv' \<and>
    remaps m st lv st' lv' (\<lambda>v. \<forall>k\<le>l. idx m v k = idx m va k) unmapped_res)"
proof -
  have root: "lv (tbl_ptr m) = Some 0" using inv tables_okD(1) by (auto simp: mmu_inv_def)
  obtain s1 t l' skip where d: "unmap_descend m va l 0 (tbl_ptr m) st = Inr (s1, t, l', skip)"
    using run by (auto simp: unmap_one_def Let_def rbind_eq_Inr)
  have "\<not> skip \<and> (\<exists>lv1. mmu_inv repr m s1 lv1 \<and> grows m st lv s1 lv1 \<and>
    reach m (tbls s1) va 0 (tbl_ptr m) l = Some t \<and> lv1 t = Some l)"
    using unmap_descend_ok [OF inv root _ d] l mp by (simp add: mapped_def)
  then obtain lv1 where lv1: "\<not> skip" "mmu_inv repr m s1 lv1" "grows m st lv s1 lv1"
    "reach m (tbls s1) va 0 (tbl_ptr m) l = Some t" "lv1 t = Some l" by blast
  obtain ft where ft: "tbls s1 t = Some ft"
    using lv1(2,5) tables_okD(3) [of m "tbls s1" lv1 t l] by (auto simp: mmu_inv_def)
  let ?i = "table_index va (gran m) l"
  let ?s2 = "s1\<lparr>tbls := (tbls s1)(t \<mapsto> ft(unat ?i := 0))\<rparr>"
  have c: "c = cover" and fr: "if is_tbl m l (ft (idx m va l))
      then free_tbl m (child m (ft (idx m va l))) l ?s2 = Inr st' else st' = ?s2"
    using run l lv1(1)
    by (auto simp: unmap_one_def Let_def d mmu_tbl_get_dc_def ft tbl_set_dc_def is_tbl_def rbind_eq_Inr
        dc_get_type_eq tbl_from_td_def child_def idx_def split: if_splits)
  have "\<not> is_tbl m l 0" "leaf_ok m l 0" by (simp_all add: is_tbl_def leaf_ok_def dc_get_flags)
  from overwrite_ok [OF lv1(2,5) ft lv1(4) this _ _ fr]
  obtain lv' where lv': "mmu_inv repr m st' lv'"
    "remaps m s1 lv1 st' lv' (\<lambda>v. \<forall>k\<le>l. idx m v k = idx m va k) (leaf_result m l 0)"
    by (auto simp: idx_def)
  have "leaf_result m l 0 = unmapped_res"
    by (simp add: fun_eq_iff leaf_result_def unmapped_res_def dc_get_flags)
  thus ?thesis using c lv' remaps_grows [OF lv1(3) _ root] by auto
qed

lemma unmap_loop_ok:
  assumes "mmu_inv repr m st lv" and "unmap_loop m va sz st = Inr (st', MMU_UNMAP_OK)"
    and "va_bits_ok m"
    and "\<And>v. unat va \<le> unat v \<Longrightarrow> unat v < unat va + unat sz \<Longrightarrow> va_half m v \<and> mapped m (tbls st) v"
    and "unat va + unat sz \<le> 2 ^ 64"
  shows "\<exists>lv'. mmu_inv repr m st' lv' \<and> remaps_range m st lv st' lv' (unat va) (unat sz) unmapped_res"
  using assms(1,2,4,5)
proof (induction "unat sz" arbitrary: va sz st lv rule: less_induct)
  case less
  show ?case
  proof (cases "sz = 0")
    case True
    thus ?thesis
      using less.prems(1,2) by (auto simp: unmap_loop.simps intro!: exI [of _ lv] remaps_range_refl)
  next
    case False
    let ?g = "gran m"
    have al: "sz mod gran_bytes ?g = 0" "va mod gran_bytes ?g = 0"
      using less.prems(2) False by (auto simp: unmap_loop.simps [of m va sz] Let_def split: if_splits)
    have z: "(0 :: u64) mod gran_bytes ?g = 0" by simp
    obtain l where l: "get_target_lvl sz ?g va 0 = Inr (l, 2 ^ level_shift ?g l)" "l \<le> max_level ?g"
      "2 ^ level_shift ?g l \<le> sz" "2 ^ level_shift ?g l dvd unat va"
      using get_target_lvl_ok [OF False al z] by blast
    let ?c = "2 ^ level_shift ?g l :: u64"
    obtain s1 c where s1: "unmap_one m va sz l ?c st = Inr (s1, c)"
      and rest: "unmap_loop m (va + c) (sz - c) s1 = Inr (st', MMU_UNMAP_OK)"
      using less.prems(2) False al
      by (auto simp: unmap_loop.simps [of m va sz] Let_def l(1) rbind_eq_Inr)
    have h: "va_half m va" "mapped m (tbls st) va"
      using less.prems(3) [of va] False unat_gt_0 [of sz] by simp_all
    obtain lv1 where cc: "c = ?c" and lv1: "mmu_inv repr m s1 lv1"
      "remaps m st lv s1 lv1 (\<lambda>v. \<forall>k\<le>l. idx m v k = idx m va k) unmapped_res"
      using unmap_one_ok [OF less.prems(1) l(2) h(2) s1] by blast
    have c: "unat ?c = 2 ^ level_shift ?g l" by (simp add: unat_exp level_shift_less)
    have cs: "unat (sz - ?c) = unat sz - unat ?c" "unat ?c \<le> unat sz" "0 < unat ?c"
      using l(3) c by (simp_all add: unat_sub word_le_nat_alt)
    have r1: "remaps_range m st lv s1 lv1 (unat va) (unat ?c) unmapped_res"
      unfolding c by (rule remaps_range_cover [OF lv1(2) assms(3) h(1) l(2,4)])
    show ?thesis
    proof (cases "sz - ?c = 0")
      case True
      hence "sz = ?c" by simp
      moreover from True rest cc have "st' = s1" by (simp add: unmap_loop.simps)
      ultimately show ?thesis using lv1(1) r1 by blast
    next
      case False
      have n: "unat (va + ?c) = unat va + unat ?c"
        using False less.prems(4) cs unat_gt_0 [of "sz - ?c"] by (auto simp: unat_word_ariths(1))
      have "va_half m v \<and> mapped m (tbls s1) v"
        if "unat (va + ?c) \<le> unat v" "unat v < unat (va + ?c) + unat (sz - ?c)" for v
        using less.prems(3) [of v] that n cs r1 by (auto simp: remaps_range_def mapped_def)
      hence "\<exists>lv'. mmu_inv repr m st' lv' \<and>
        remaps_range m s1 lv1 st' lv' (unat (va + ?c)) (unat (sz - ?c)) unmapped_res"
        using less.hyps [OF _ lv1(1) rest [unfolded cc]] cs n less.prems(4) by auto
      then obtain lv' where lv': "mmu_inv repr m st' lv'"
        "remaps_range m s1 lv1 st' lv' (unat (va + ?c)) (unat (sz - ?c)) unmapped_res" by blast
      from remaps_range_trans [OF r1 lv'(2)] n cs lv'(1) show ?thesis by auto
    qed
  qed
qed

end

end
