(* ===== verification/Mmu_Spec.thy ===== *)
theory Mmu_Spec
  imports Mmu_Unmap Early_Kalloc
begin

text \<open>
  The specifications of \<open>mmu_mapping_new\<close>, \<open>mmu_map\<close>, \<open>mmu_unmap\<close> and \<open>mmu_walk_page\<close>, and the
  allocator the first mappings use: \<open>im_alloc\<close> and \<open>im_free\<close> of
  \<open>src/kernel/mm/init/identity_mapping.c\<close>, which take their tables from the early allocator.  It is
  shown to meet the interface the table code relies on.
\<close>

section \<open>The allocator of the identity mapping\<close>

text \<open>\<open>tag\<close> is the address of the literal \<open>"mmu table"\<close>.  The release build panics in \<open>im_free\<close> after
  printing the address.\<close>

definition im_alloc :: "mm_info \<Rightarrow> u64 \<Rightarrow> u64 \<Rightarrow> early_state \<Rightarrow> (early_state \<times> u64) res" where
  "im_alloc info tag bytes s =
     rbind (early_kalloc info bytes tag False False s) (\<lambda>(s, pv). Inr (s, pv_pa pv))"

definition im_free :: "u64 \<Rightarrow> early_state \<Rightarrow> early_state res" where
  "im_free addr s =
     Inl (Panic ''The early identity mapping allocations should not free any tables'')"

definition im_mapping :: "mm_info \<Rightarrow> u64 \<Rightarrow> mmu_tbl_rng \<Rightarrow> u64 \<Rightarrow> early_state mmu_mapping" where
  "im_mapping info tag r t =
     \<lparr>rng = r, gran = MMU_GRANULARITY_4KB, va_addr_bits = 48, physmap_offset = 0, tbl_ptr = t,
      allocator_fn = im_alloc info tag, allocator_free_fn = im_free\<rparr>"

definition boot_map :: "early_state mmu_mapping" where
  "boot_map = im_mapping (board_info 0) 0 MMU_LO 0x40000000"

definition tbl_span :: "u64 \<Rightarrow> nat set" where
  "tbl_span a = {unat a ..< unat a + 4096}"

definition im_repr :: "nat \<Rightarrow> early_state \<Rightarrow> u64 set \<Rightarrow> bool" where
  "im_repr b s A \<longleftrightarrow> ek_inv s b \<and> (\<forall>a\<in>A. \<forall>y\<in>tbl_span a. \<not> free_at (ek_list s) y)"

lemma im_alloc_ok:
  assumes "ek_inv s b" and "im_alloc info tag bytes s = Inr (s', a)"
  shows "ek_inv s' b" and "4096 dvd unat a"
    and "\<And>y. y \<in> tbl_span a \<Longrightarrow> free_at (ek_list s) y \<and> \<not> free_at (ek_list s') y"
    and "\<And>y. free_at (ek_list s') y \<Longrightarrow> free_at (ek_list s) y"
proof -
  obtain pv where k: "early_kalloc info bytes tag False False s = Inr (s', pv)" and a: "a = pv_pa pv"
    using assms(2) by (auto simp: im_alloc_def rbind_eq_Inr)
  obtain n where n: "n < 64" "bytes div PAGE_SIZE = 2 ^ n"
    using k is_pow2_D [of "bytes div PAGE_SIZE"] by (auto simp: early_kalloc_def rassert_eq_Inr)
  hence q: "unat bytes div 4096 = 2 ^ n"
    using unat_div_distrib [of bytes PAGE_SIZE] by (simp add: PAGE_SIZE_def unat_exp)
  have "unat bytes < 2 ^ 64" using unsigned_less [of bytes, where 'a = nat] by simp
  hence "unat bytes div 4096 < 2 ^ 52" by (simp add: div_less_iff_less_mult)
  hence "n < 52" unfolding q by (rule power_less_imp_less_exp [rotated]) simp
  hence "(2 :: nat) ^ n \<le> 2 ^ 51" by (intro power_increasing) simp_all
  hence hi: "unat bytes + 4096 \<le> 2 ^ 64"
    using q div_mult_mod_eq [of "unat bytes" 4096] mod_less_divisor [of 4096 "unat bytes"] by simp
  have lo: "4096 \<le> unat bytes" using q by (metis div_less not_le power_not_zero zero_neq_numeral)
  hence b0: "0 < bytes" by (simp add: word_less_nat_alt)
  have "1 * 4096 \<le> (unat bytes + 4095) div 4096 * 4096" using lo by (intro mult_le_mono1) simp
  hence sub: "tbl_span a \<subseteq> {unat (pv_pa pv) ..< unat (pv_pa pv) + (unat bytes + 4095) div 4096 * 4096}"
    by (auto simp: tbl_span_def a)
  note c = early_kalloc_correct [OF k assms(1) b0 hi]
  show "ek_inv s' b" "4096 dvd unat a" using c by (simp_all add: a)
  show "free_at (ek_list s) y \<and> \<not> free_at (ek_list s') y" if "y \<in> tbl_span a" for y
    using c that sub by blast
  show "free_at (ek_list s) y" if "free_at (ek_list s') y" for y using c that by blast
qed

interpretation im: allocator "im_repr b" tbl_span "im_alloc info tag" im_free for b info tag
proof
  fix s A q s' a assume r: "im_repr b s A" and k: "im_alloc info tag q s = Inr (s', a)"
  note e = im_alloc_ok [OF _ k, of b]
  show "im_repr b s' (insert a A)" using r e by (auto simp: im_repr_def)
  show "tbl_span a \<noteq> {}" by (simp add: tbl_span_def)
  show "tbl_span a \<inter> tbl_span c = {}" if "c \<in> A" for c using that r e by (auto simp: im_repr_def)
qed (simp add: im_free_def)

lemma im_alloc_low:
  assumes "ek_inv s b" and "im_alloc info tag bytes s = Inr (s', a)"
  shows "unat a < 2 ^ 47"
proof -
  have "free_at (ek_list s) (unat a)"
    using im_alloc_ok(3) [OF assms, of "unat a"] by (simp add: tbl_span_def)
  thus ?thesis using assms(1) tiles_free_bounds [of 0 "ek_list s" b "unat a"] by (auto simp: ek_inv_def)
qed

interpretation im_table: table_alloc "im_repr b" tbl_span "im_mapping info tag r t" for b info tag r t
proof -
  have al: "allocator_fn (im_mapping info tag r t) = im_alloc info tag"
    "allocator_free_fn (im_mapping info tag r t) = im_free" for info tag r t
    by (simp_all add: im_mapping_def)
  show "table_alloc (im_repr b) tbl_span (im_mapping info tag r t)"
    unfolding table_alloc_def table_alloc_axioms_def al
  proof (intro conjI allI impI im.allocator_axioms)
    fix s A s' a
    assume "im_repr b s A"
      and k: "im_alloc info tag (gran_bytes (gran (im_mapping info tag r t))) s = Inr (s', a)"
    hence i: "ek_inv s b" by (simp add: im_repr_def)
    have d: "4096 dvd unat a" and "unat a < 2 ^ 47"
      using im_alloc_ok(2) [OF i k] im_alloc_low [OF i k] .
    thus "pa_fits (gran (im_mapping info tag r t)) (a - physmap_offset (im_mapping info tag r t))"
      by (simp add: im_mapping_def pa_fits_iff page_bits_eq mmu_granularity_shift_def)
    have "a mod gran_bytes MMU_GRANULARITY_4KB = 0"
      using d unfolding mod_gran by (simp add: page_bits_eq mmu_granularity_shift_def)
    thus "a mod gran_bytes (gran (im_mapping info tag r t)) = 0" by (simp add: im_mapping_def)
  qed
qed

section \<open>A new mapping\<close>

lemma new_mapping_ok:
  assumes "allocator repr span alloc release" and "repr (alst st) A" and "dom (tbls st) \<subseteq> A"
    and "mmu_mapping_new r g bits off alloc release st = Inr (st', m)"
  shows "mmu_inv repr m st' [tbl_ptr m \<mapsto> 0]" and "tbls st (tbl_ptr m) = None"
    and "tbls st' = (tbls st)(tbl_ptr m \<mapsto> (\<lambda>_. 0))"
    and "\<And>v. unmapped m (tbls st') v"
proof -
  let ?lv = "[tbl_ptr m \<mapsto> 0 :: nat]"
  obtain a where k: "alloc (gran_bytes g) (alst st) = Inr (a, tbl_ptr m)"
    and st': "tbls st' = (tbls st)(tbl_ptr m \<mapsto> (\<lambda>_. 0))" "alst st' = a"
    using assms(4) by (auto simp: mmu_mapping_new_def rbind_eq_Inr)
  show "tbls st' = (tbls st)(tbl_ptr m \<mapsto> (\<lambda>_. 0))" by (rule st'(1))
  have "tbl_ptr m \<notin> A" by (rule allocator.alloc_new [OF assms(1,2) k])
  thus "tbls st (tbl_ptr m) = None" using assms(3) by auto
  have d: "desc (tbls st') (tbl_ptr m) j = 0" for j by (simp add: st'(1) desc_def)
  have n: "\<not> is_tbl m l 0" "leaf_ok m l 0" for l by (simp_all add: is_tbl_def leaf_ok_def dc_get_flags)
  have ok: "tables_ok m (tbls st') ?lv"
    by (rule tables_okI) (auto simp: edge_def d n split: if_splits, simp add: st'(1))
  have "repr (alst st') (insert (tbl_ptr m) A)"
    unfolding st'(2) by (rule allocator.alloc_repr [OF assms(1,2) k])
  moreover have "dom (tbls st') \<subseteq> insert (tbl_ptr m) A" using assms(3) by (auto simp: st'(1))
  ultimately show "mmu_inv repr m st' ?lv" using ok unfolding mmu_inv_def by blast
  have root: "?lv (tbl_ptr m) = Some 0" by simp
  show "unmapped m (tbls st') v" for v
    by (simp add: unmapped_def walk_step [OF ok root] d n leaf_result_def dc_get_flags)
qed

text \<open>A mapping made by \<open>mmu_mapping_new\<close> has a well-formed table tree of one table, and
  every address is unmapped in it; no table that existed before is touched.\<close>
theorem mmu_mapping_new_spec:
  assumes "allocator repr span alloc release" and "repr (alst st) A" and "dom (tbls st) \<subseteq> A"
    and "mmu_mapping_new r g bits off alloc release st = Inr (st', m)"
  shows "mmu_inv repr m st' [tbl_ptr m \<mapsto> 0] \<and>
    (\<forall>v w. mmu_walk_page (Some m) v st' w = Inr (w\<lparr>walk_result := MMU_WALK_PAGE_UNMAPPED\<rparr>)) \<and>
    (\<forall>t. tbls st t \<noteq> None \<longrightarrow> tbls st' t = tbls st t)"
  using new_mapping_ok [OF assms] by (auto simp: unmapped_def mmu_walk_page_eq)

definition im_state0 :: "early_state mmu_state" where
  "im_state0 = \<lparr>tbls = Map.empty, alst = ek_sample, op_info = None\<rparr>"

definition im_boot :: "(early_state mmu_state \<times> early_state mmu_mapping) res" where
  "im_boot = mmu_mapping_new MMU_LO MMU_GRANULARITY_4KB 48 0 (im_alloc (board_info 0) 0) im_free im_state0"

lemma im_state0_repr: "im_repr 0x140000000 (alst im_state0) {}"
  by (simp add: im_repr_def im_state0_def ek_sample_inv)

lemma im_boot_eq:
  obtains st where "im_boot = Inr (st, boot_map)"
    and "st = \<lparr>tbls = [0x40000000 \<mapsto> (\<lambda>_. 0)], alst = alst st, op_info = None\<rparr>"
proof -
  have "ok_and (im_alloc (board_info 0) 0 4096 ek_sample) (\<lambda>(s, a). a = 0x40000000)"
    by code_simp
  then obtain s where s: "im_alloc (board_info 0) 0 4096 ek_sample = Inr (s, 0x40000000)"
    by (auto simp: ok_and_iff)
  show ?thesis
    by (rule that [of "\<lparr>tbls = [0x40000000 \<mapsto> (\<lambda>_. 0)], alst = s, op_info = None\<rparr>"])
      (simp_all add: im_boot_def mmu_mapping_new_def im_state0_def gran_bytes_def s im_mapping_def boot_map_def)
qed

theorem mmu_mapping_new_spec_witness:
  "\<exists>st m. im_boot = Inr (st, m) \<and>
     (\<forall>v w. mmu_walk_page (Some m) v st w = Inr (w\<lparr>walk_result := MMU_WALK_PAGE_UNMAPPED\<rparr>))"
proof -
  obtain st where b: "im_boot = Inr (st, boot_map)"
    by (rule im_boot_eq)
  have "dom (tbls im_state0) \<subseteq> {}" by (simp add: im_state0_def)
  from mmu_mapping_new_spec [OF im.allocator_axioms im_state0_repr this b [unfolded im_boot_def]] b
  show ?thesis by blast
qed

text \<open>The configurations of \<open>early_identity_mapping\<close> and a mapping of one GiB of DDR.\<close>

definition MEM_CFG :: mmu_pg_cfg where
  "MEM_CFG = mmu_pg_cfg_new 0 MMU_AP_EL0_NONE_EL1_RW 3 True True False True 0"

definition DEVICE_CFG :: mmu_pg_cfg where
  "DEVICE_CFG = mmu_pg_cfg_new 1 MMU_AP_EL0_NONE_EL1_RW 0 True True True True 0"

lemma cfgs_fit: "cfg_fits MEM_CFG" "cfg_fits DEVICE_CFG"
  by (simp_all add: cfg_fits_def MEM_CFG_def DEVICE_CFG_def mmu_pg_cfg_new_def)

lemma boot_map_alloc: "table_alloc (im_repr b) tbl_span boot_map"
  unfolding boot_map_def by (rule im_table.table_alloc_axioms)

lemma boot_map_half: "va_half boot_map v \<longleftrightarrow> unat v < 2 ^ 47"
  by (simp add: va_half_def boot_map_def im_mapping_def div_eq_0_iff)

lemma im_bits_ok: "va_bits_ok (im_mapping info tag r t)"
  by (simp add: va_bits_ok_def im_mapping_def level_shift_eq page_bits_eq mmu_granularity_shift_def
      max_level_def)

lemmas boot_map_bits_ok = im_bits_ok [of "board_info 0" 0 MMU_LO "0x40000000", folded boot_map_def]

lemma im_boot_map_ok:
  obtains st st' where "im_boot = Inr (st, boot_map)"
    and "mmu_map (Some (boot_map)) 0x40000000 0x40000000
      0x40000000 MEM_CFG st = Inr (st', MMU_MAP_OK)"
proof -
  have c: "ok_and im_boot (\<lambda>(st, m).
      ok_and (mmu_map (Some m) 0x40000000 0x40000000 0x40000000 MEM_CFG st) (\<lambda>(st', r). r = MMU_MAP_OK))"
    by code_simp
  obtain st where b: "im_boot = Inr (st, boot_map)"
    by (rule im_boot_eq)
  from c [unfolded b] that [OF b] show ?thesis by (auto simp: ok_and_iff)
qed

lemma im_boot_inv:
  assumes "im_boot = Inr (st, m)"
  shows "mmu_inv (im_repr 0x140000000) m st [tbl_ptr m \<mapsto> 0]" and "\<And>v. unmapped m (tbls st) v"
proof -
  have "dom (tbls im_state0) \<subseteq> {}" by (simp add: im_state0_def)
  note n = new_mapping_ok [OF im.allocator_axioms im_state0_repr this assms [unfolded im_boot_def]]
  show "mmu_inv (im_repr 0x140000000) m st [tbl_ptr m \<mapsto> 0]" "\<And>v. unmapped m (tbls st) v"
    using n(1,4) by simp_all
qed

section \<open>The specification of \<open>mmu_map\<close>\<close>

lemma mmu_map_remaps:
  assumes "table_alloc repr span m" and "mmu_inv repr m st lv" and "va_bits_ok m" and "cfg_fits cfg"
    and "unat pa + unat sz \<le> 2 ^ 48" and "mmu_map (Some m) va pa sz cfg st = Inr (st', MMU_MAP_OK)"
  shows "\<exists>lv'. mmu_inv repr m st' lv' \<and>
    remaps_range m st lv st' lv' (unat va) (unat sz) (mapped_to cfg pa va)"
proof (cases "sz = 0")
  case True
  hence "st' = st" using assms(6) by (simp add: mmu_map_def)
  thus ?thesis using assms(2) True remaps_range_refl [of m st lv] by auto
next
  case False
  hence r: "is_in_range m va sz" and run: "map_loop m cfg va pa sz st = Inr st'"
    using assms(6) by (auto simp: mmu_map_def rbind_eq_Inr split: if_splits)
  from r have "unat va + unat sz \<le> 2 ^ 64" by (simp add: is_in_range_iff [OF assms(3)])
  from table_alloc.map_loop_ok [OF assms(1,2) run assms(3,4) in_rangeD [OF assms(3) r] this assms(5)]
  show ?thesis .
qed

text \<open>Property C14: when \<open>mmu_map\<close> reports success, walking any address of the mapping's half of the
  address space gives, for an address of the requested range, the physical address at the same
  offset from \<open>pa\<close> with the requested configuration, and for every other address exactly what it
  gave before. The table tree stays well formed, and tables that belong to other mappings are
  unchanged. The mapping's allocator is only assumed to hand out disjoint, aligned tables.\<close>
theorem mmu_map_spec:
  assumes "table_alloc repr span m" and "mmu_inv repr m st lv" and "va_bits_ok m" and "cfg_fits cfg"
    and "unat pa + unat sz \<le> 2 ^ 48" and "mmu_map (Some m) va pa sz cfg st = Inr (st', MMU_MAP_OK)"
  shows "\<exists>lv'. mmu_inv repr m st' lv' \<and>
    (\<forall>v r. va_half m v \<longrightarrow> mmu_walk_page (Some m) v st' r =
      (if unat va \<le> unat v \<and> unat v < unat va + unat sz
       then Inr (r\<lparr>walk_result := MMU_WALK_PAGE_MAPPED, walk_cfg := cfg, walk_pa := pa + (v - va)\<rparr>)
       else mmu_walk_page (Some m) v st r)) \<and>
    (\<forall>t. lv t = None \<longrightarrow> tbls st t \<noteq> None \<longrightarrow> tbls st' t = tbls st t \<and> lv' t = None)"
  using mmu_map_remaps [OF assms] unfolding mmu_walk_page_eq remaps_range_def mapped_to_def by blast

theorem mmu_map_spec_witness:
  "\<exists>st m st'. im_boot = Inr (st, m) \<and>
     mmu_map (Some m) 0x40000000 0x40000000 0x40000000 MEM_CFG st = Inr (st', MMU_MAP_OK) \<and>
     (\<forall>r. mmu_walk_page (Some m) 0x40123456 st' r =
        Inr (r\<lparr>walk_result := MMU_WALK_PAGE_MAPPED, walk_cfg := MEM_CFG, walk_pa := 0x40123456\<rparr>))"
proof -
  obtain st st' where b: "im_boot = Inr (st, boot_map)"
    and r: "mmu_map (Some boot_map) 0x40000000 0x40000000 0x40000000 MEM_CFG st = Inr (st', MMU_MAP_OK)"
    by (rule im_boot_map_ok)
  have "unat (0x40000000 :: u64) + unat (0x40000000 :: u64) \<le> 2 ^ 48" by simp
  from mmu_map_spec [OF boot_map_alloc im_boot_inv(1) [OF b] boot_map_bits_ok cfgs_fit(1) this r]
  have "\<forall>v w. va_half boot_map v \<longrightarrow> mmu_walk_page (Some boot_map) v st' w =
      (if unat (0x40000000 :: u64) \<le> unat v \<and> unat v < unat (0x40000000 :: u64) + unat (0x40000000 :: u64)
       then Inr (w\<lparr>walk_result := MMU_WALK_PAGE_MAPPED, walk_cfg := MEM_CFG,
              walk_pa := 0x40000000 + (v - 0x40000000)\<rparr>)
       else mmu_walk_page (Some boot_map) v st w)" by blast
  moreover have "va_half boot_map 0x40123456" by (simp add: boot_map_half)
  ultimately have "mmu_walk_page (Some boot_map) 0x40123456 st' w =
      Inr (w\<lparr>walk_result := MMU_WALK_PAGE_MAPPED, walk_cfg := MEM_CFG, walk_pa := 0x40123456\<rparr>)" for w
    by simp
  thus ?thesis using b r by blast
qed

text \<open>Property C16: \<open>mmu_map\<close> of a page-aligned range that lies in the mapping's half and is not mapped
  yet succeeds, whatever the tables look like, unless the mapping's own allocator fails: no
  assertion and no panic of the table code can be reached, and every loop ends.\<close>
theorem mmu_map_succeeds:
  assumes "table_alloc repr span m" and "mmu_inv repr m st lv" and "va_bits_ok m" and "cfg_fits cfg"
    and "unat pa + unat sz \<le> 2 ^ 48" and "is_in_range m va sz"
    and "sz mod gran_bytes (gran m) = 0" and "va mod gran_bytes (gran m) = 0"
    and "pa mod gran_bytes (gran m) = 0"
    and "\<forall>v r. unat va \<le> unat v \<and> unat v < unat va + unat sz \<longrightarrow>
      mmu_walk_page (Some m) v st r = Inr (r\<lparr>walk_result := MMU_WALK_PAGE_UNMAPPED\<rparr>)"
  shows "(\<exists>st'. mmu_map (Some m) va pa sz cfg st = Inr (st', MMU_MAP_OK)) \<or>
    (\<exists>e. mmu_map (Some m) va pa sz cfg st = Inl e \<and> alloc_err m e)"
proof -
  have sz: "sz \<noteq> 0" "unat va + unat sz \<le> 2 ^ 64"
    using assms(6) by (simp_all add: is_in_range_iff [OF assms(3)])
  have un: "va_half m v \<and> unmapped m (tbls st) v"
    if "unat va \<le> unat v" "unat v < unat va + unat sz" for v
    using in_rangeD [OF assms(3,6) that] assms(10) that by (simp add: unmapped_def mmu_walk_page_eq)
  show ?thesis
  proof (cases "map_loop m cfg va pa sz st")
    case (Inl e)
    from table_alloc.map_loop_progress [OF assms(1,2) Inl assms(3,4) un sz(2) assms(5,7-9)] Inl
    show ?thesis using sz(1) assms(6) by (simp add: mmu_map_def)
  qed (use sz(1) assms(6) in \<open>simp add: mmu_map_def\<close>)
qed

theorem mmu_map_succeeds_witness:
  "\<exists>st m. im_boot = Inr (st, m) \<and>
     ((\<exists>st'. mmu_map (Some m) 0x40000000 0x40000000 0x200000 MEM_CFG st = Inr (st', MMU_MAP_OK)) \<or>
      (\<exists>e. mmu_map (Some m) 0x40000000 0x40000000 0x200000 MEM_CFG st = Inl e \<and> alloc_err m e))"
proof -
  obtain st where b: "im_boot = Inr (st, boot_map)"
    by (rule im_boot_eq)
  have g: "gran_bytes (gran boot_map) = 0x1000" by (simp add: boot_map_def im_mapping_def gran_bytes_def)
  have "is_in_range boot_map 0x40000000 0x200000"
    unfolding is_in_range_iff [OF boot_map_bits_ok] by (simp add: boot_map_half)
  from mmu_map_succeeds [OF boot_map_alloc im_boot_inv(1) [OF b] boot_map_bits_ok cfgs_fit(1) _ this,
      of "0x40000000"] im_boot_inv(2) [OF b] g
  have "(\<exists>st'. mmu_map (Some boot_map) 0x40000000 0x40000000 0x200000 MEM_CFG st = Inr (st', MMU_MAP_OK)) \<or>
    (\<exists>e. mmu_map (Some boot_map) 0x40000000 0x40000000 0x200000 MEM_CFG st = Inl e \<and> alloc_err boot_map e)"
    by (simp add: mmu_walk_page_eq unmapped_def)
  thus ?thesis using b by blast
qed

text \<open>On a well-formed table tree \<open>mmu_walk_page\<close> always returns a result, for every
  address: it neither reads outside of the tables nor reaches one of its panics.\<close>
theorem mmu_walk_page_total:
  assumes "mmu_inv repr m st lv"
  shows "\<exists>r'. mmu_walk_page (Some m) va st r = Inr r'"
  using assms walk_total tables_okD(1) unfolding mmu_walk_page_eq mmu_inv_def by blast

theorem mmu_walk_page_total_witness:
  "\<exists>st m. im_boot = Inr (st, m) \<and> (\<exists>r'. mmu_walk_page (Some m) 0xDEADBEEF st
     \<lparr>walk_result = MMU_WALK_PAGE_MAPPED, walk_cfg = MEM_CFG, walk_pa = 0\<rparr> = Inr r')"
proof -
  obtain st where b: "im_boot = Inr (st, boot_map)"
    by (rule im_boot_eq)
  show ?thesis using mmu_walk_page_total [OF im_boot_inv(1) [OF b]] b by blast
qed

section \<open>The specification of \<open>mmu_unmap\<close>\<close>

lemma mmu_unmap_remaps:
  assumes "table_alloc repr span m" and "mmu_inv repr m st lv" and "va_bits_ok m"
    and "is_in_range m va sz"
    and "\<forall>v r. unat va \<le> unat v \<and> unat v < unat va + unat sz \<longrightarrow>
      (\<exists>r'. mmu_walk_page (Some m) v st r = Inr r' \<and> walk_result r' = MMU_WALK_PAGE_MAPPED)"
    and "mmu_unmap (Some m) va sz st = Inr (st', MMU_UNMAP_OK)"
  shows "\<exists>lv'. mmu_inv repr m st' lv' \<and> remaps_range m st lv st' lv' (unat va) (unat sz) unmapped_res"
proof -
  have sz: "sz \<noteq> 0" "unat va + unat sz \<le> 2 ^ 64"
    using assms(4) by (simp_all add: is_in_range_iff [OF assms(3)])
  have run: "unmap_loop m va sz st = Inr (st', MMU_UNMAP_OK)"
    using assms(6) sz(1) by (simp add: mmu_unmap_def)
  have mp: "va_half m v \<and> mapped m (tbls st) v"
    if "unat va \<le> unat v" "unat v < unat va + unat sz" for v
    using in_rangeD [OF assms(3,4) that] assms(5) that by (simp add: mapped_def mmu_walk_page_eq)
  from table_alloc.unmap_loop_ok [OF assms(1,2) run assms(3) mp sz(2)] show ?thesis .
qed

text \<open>Property C15: when every address of a range in the mapping's half is mapped and \<open>mmu_unmap\<close> of that
  range reports success, then exactly the range has become unmapped: an address in it no longer
  translates, and every other address translates as before, also where a block had to be split.\<close>
theorem mmu_unmap_spec:
  assumes "table_alloc repr span m" and "mmu_inv repr m st lv" and "va_bits_ok m"
    and "is_in_range m va sz"
    and "\<forall>v r. unat va \<le> unat v \<and> unat v < unat va + unat sz \<longrightarrow>
      (\<exists>r'. mmu_walk_page (Some m) v st r = Inr r' \<and> walk_result r' = MMU_WALK_PAGE_MAPPED)"
    and "mmu_unmap (Some m) va sz st = Inr (st', MMU_UNMAP_OK)"
  shows "\<exists>lv'. mmu_inv repr m st' lv' \<and>
    (\<forall>v r. va_half m v \<longrightarrow> mmu_walk_page (Some m) v st' r =
      (if unat va \<le> unat v \<and> unat v < unat va + unat sz
       then Inr (r\<lparr>walk_result := MMU_WALK_PAGE_UNMAPPED\<rparr>)
       else mmu_walk_page (Some m) v st r)) \<and>
    (\<forall>t. lv t = None \<longrightarrow> tbls st t \<noteq> None \<longrightarrow> tbls st' t = tbls st t \<and> lv' t = None)"
  using mmu_unmap_remaps [OF assms] unfolding mmu_walk_page_eq remaps_range_def unmapped_res_def by blast

theorem mmu_unmap_spec_witness:
  "\<exists>st m st1 st2. im_boot = Inr (st, m) \<and>
     mmu_map (Some m) 0x40000000 0x40000000 0x40000000 MEM_CFG st = Inr (st1, MMU_MAP_OK) \<and>
     mmu_unmap (Some m) 0x56000000 0x200000 st1 = Inr (st2, MMU_UNMAP_OK) \<and>
     (\<forall>r. mmu_walk_page (Some m) 0x56123000 st2 r = Inr (r\<lparr>walk_result := MMU_WALK_PAGE_UNMAPPED\<rparr>))"
proof -
  have c: "ok_and im_boot (\<lambda>(st, m).
      ok_and (mmu_map (Some m) 0x40000000 0x40000000 0x40000000 MEM_CFG st) (\<lambda>(st1, r).
        r = MMU_MAP_OK \<and> ok_and (mmu_unmap (Some m) 0x56000000 0x200000 st1) (\<lambda>(_, r). r = MMU_UNMAP_OK)))"
    by code_simp
  obtain st where b: "im_boot = Inr (st, boot_map)" by (rule im_boot_eq)
  obtain st1 st2 where
    r1: "mmu_map (Some boot_map) 0x40000000 0x40000000 0x40000000 MEM_CFG st = Inr (st1, MMU_MAP_OK)"
    and r2: "mmu_unmap (Some boot_map) 0x56000000 0x200000 st1 = Inr (st2, MMU_UNMAP_OK)"
    using c [unfolded b] by (auto simp: ok_and_iff)
  have "map_loop boot_map MEM_CFG 0x40000000 0x40000000 0x40000000 st = Inr st1"
    using r1 by (auto simp: mmu_map_def rbind_eq_Inr split: if_splits)
  then obtain lv1 where i1: "mmu_inv (im_repr 0x140000000) boot_map st1 lv1"
    and w1: "remaps_range boot_map st [tbl_ptr boot_map \<mapsto> 0] st1 lv1 0x40000000 0x40000000
      (mapped_to MEM_CFG 0x40000000 0x40000000)"
    using table_alloc.map_loop_ok [OF boot_map_alloc im_boot_inv(1) [OF b] _ boot_map_bits_ok cfgs_fit(1),
        of "0x40000000" "0x40000000" "0x40000000" st1]
    by (auto simp: boot_map_half)
  have "is_in_range boot_map 0x56000000 0x200000"
    unfolding is_in_range_iff [OF boot_map_bits_ok] by (simp add: boot_map_half)
  moreover have "\<forall>v r. unat (0x56000000 :: u64) \<le> unat v \<and>
      unat v < unat (0x56000000 :: u64) + unat (0x200000 :: u64) \<longrightarrow>
      (\<exists>r'. mmu_walk_page (Some boot_map) v st1 r = Inr r' \<and> walk_result r' = MMU_WALK_PAGE_MAPPED)"
    using w1 by (auto simp: remaps_range_def boot_map_half mmu_walk_page_eq mapped_to_def)
  ultimately have "\<forall>v r. va_half boot_map v \<longrightarrow> mmu_walk_page (Some boot_map) v st2 r =
      (if unat (0x56000000 :: u64) \<le> unat v \<and> unat v < unat (0x56000000 :: u64) + unat (0x200000 :: u64)
       then Inr (r\<lparr>walk_result := MMU_WALK_PAGE_UNMAPPED\<rparr>)
       else mmu_walk_page (Some boot_map) v st1 r)"
    using mmu_unmap_spec [OF boot_map_alloc i1 boot_map_bits_ok _ _ r2] by blast
  hence "mmu_walk_page (Some boot_map) 0x56123000 st2 r = Inr (r\<lparr>walk_result := MMU_WALK_PAGE_UNMAPPED\<rparr>)" for r
    by (simp add: boot_map_half)
  thus ?thesis using b r1 r2 by blast
qed

section \<open>Where the table code departs from its purpose\<close>

definition walk0 :: mmu_walk_result where
  "walk0 = \<lparr>walk_result = MMU_WALK_NULL_MAPPING, walk_cfg = MEM_CFG, walk_pa = 0\<rparr>"

definition boot_page :: "(early_state mmu_state \<times> early_state mmu_mapping) res" where
  "boot_page =
     rbind im_boot (\<lambda>(st, m).
     rbind (mmu_map (Some m) 0x40000000 0x40000000 0x1000 MEM_CFG st) (\<lambda>(st, _). Inr (st, m)))"

text \<open>An example: \<open>mmu_unmap\<close> can report success and leave a page of the range mapped. When it meets an
  invalid descriptor it skips the descriptor's whole size from the current address on, which need
  not be aligned to that size: with the page at 1 GiB mapped and the GiB below it empty, unmapping
  the two pages around 1 GiB skips both of them.\<close>
lemma mmu_unmap_skips_mapped:
  "\<exists>st m st' r. boot_page = Inr (st, m) \<and>
     mmu_unmap (Some m) 0x3FFFF000 0x2000 st = Inr (st', MMU_UNMAP_OK) \<and>
     mmu_walk_page (Some m) 0x40000000 st' walk0 = Inr r \<and> walk_result r = MMU_WALK_PAGE_MAPPED"
proof -
  have "ok_and boot_page (\<lambda>(st, m). ok_and (mmu_unmap (Some m) 0x3FFFF000 0x2000 st) (\<lambda>(st', u).
      u = MMU_UNMAP_OK \<and>
      ok_and (mmu_walk_page (Some m) 0x40000000 st' walk0) (\<lambda>r. walk_result r = MMU_WALK_PAGE_MAPPED)))"
    by code_simp
  thus ?thesis by (auto simp: ok_and_iff)
qed

text \<open>Another example: replacing or removing a table of pages with a valid entry panics. Once a single 4 KiB page is mapped,
  mapping a 2 MiB block over it, unmapping the 2 MiB around it, unmapping the unmapped page next to
  it and deleting the mapping all end in an assertion failure: \<open>free_tbl\<close> reads the descriptors of
  the table it frees at the level of the table above, and \<open>mmu_unmap\<close> reads the type of a descriptor
  before its validity.\<close>
lemma mmu_page_table_panics:
  "\<exists>st m. boot_page = Inr (st, m) \<and>
     mmu_map (Some m) 0x40000000 0x40000000 0x200000 MEM_CFG st = Inl (Panic ''tbl_from_td'') \<and>
     mmu_unmap (Some m) 0x40000000 0x200000 st = Inl (Panic ''tbl_from_td'') \<and>
     mmu_unmap (Some m) 0x40001000 0x1000 st =
       Inl (Panic ''descriptor_get_type: only page descriptors are valid'') \<and>
     mmu_delete_mapping m st = Inl (Panic ''tbl_from_td'')"
proof -
  have "ok_and boot_page (\<lambda>(st, m).
     is_err (mmu_map (Some m) 0x40000000 0x40000000 0x200000 MEM_CFG st) (Panic ''tbl_from_td'') \<and>
     is_err (mmu_unmap (Some m) 0x40000000 0x200000 st) (Panic ''tbl_from_td'') \<and>
     is_err (mmu_unmap (Some m) 0x40001000 0x1000 st)
       (Panic ''descriptor_get_type: only page descriptors are valid'') \<and>
     is_err (mmu_delete_mapping m st) (Panic ''tbl_from_td''))"
    by code_simp
  thus ?thesis by (auto simp: ok_and_iff is_err_iff)
qed

end
