(* ===== verification/Mmu_Core.thy ===== *)
theory Mmu_Core
  imports Mmu_Table
begin

text \<open>
  The per-core MMU handle and its registers: \<open>src/arm/mmu/mmu_core.c\<close>, the accessors of
  \<open>include/arm/mmu.h\<close> and the affinity helpers of \<open>include/arm/cpu.h\<close>.  The system registers the
  code reads and writes are a record; the mapping objects that a handle points to are a store
  \<open>mp\<close> from addresses to mappings, in which the null pointer is the address 0.
\<close>

section \<open>State\<close>

record sysregs =
  SCTLR_EL1 :: u64
  TTBR0_EL1 :: u64
  TTBR1_EL1 :: u64
  TCR_EL1 :: u64
  MAIR_EL1 :: u64
  ID_AA64MMFR0_EL1 :: u64
  MPIDR_EL1 :: u64

record mmu_core_handle =
  lo_mapping :: u64
  hi_mapping :: u64
  mpidr_aff :: u32
  flags :: u64

type_synonym 'a mapping_store = "u64 \<Rightarrow> 'a mmu_mapping"

section \<open>Core affinity\<close>

record arm_cpu_affinity =
  aff3 :: u8
  aff2 :: u8
  aff1 :: u8
  aff0 :: u8

definition arm_cpu_affinity_as_u32 :: "arm_cpu_affinity \<Rightarrow> u32" where
  "arm_cpu_affinity_as_u32 aff =
     push_bit 24 (ucast (aff3 aff)) OR push_bit 16 (ucast (aff2 aff)) OR
     push_bit 8 (ucast (aff1 aff)) OR push_bit 0 (ucast (aff0 aff))"

definition arm_u32_as_cpu_affinity :: "u32 \<Rightarrow> arm_cpu_affinity" where
  "arm_u32_as_cpu_affinity aff =
     \<lparr>aff3 = ucast (drop_bit 24 aff AND 0xFF), aff2 = ucast (drop_bit 16 aff AND 0xFF),
      aff1 = ucast (drop_bit 8 aff AND 0xFF), aff0 = ucast (drop_bit 0 aff AND 0xFF)\<rparr>"

definition arm_get_cpu_affinity :: "sysregs \<Rightarrow> arm_cpu_affinity" where
  "arm_get_cpu_affinity regs =
     (let mpidr = MPIDR_EL1 regs in
      \<lparr>aff3 = ucast (drop_bit 32 mpidr AND 0xFF), aff2 = ucast (drop_bit 16 mpidr AND 0xFF),
       aff1 = ucast (drop_bit 8 mpidr AND 0xFF), aff0 = ucast (drop_bit 0 mpidr AND 0xFF)\<rparr>)"

definition arm_get_cpu_affinity_as_u32 :: "sysregs \<Rightarrow> u32" where
  "arm_get_cpu_affinity_as_u32 regs = arm_cpu_affinity_as_u32 (arm_get_cpu_affinity regs)"

definition eq_caller_coreid :: "sysregs \<Rightarrow> mmu_core_handle \<Rightarrow> bool" where
  "eq_caller_coreid regs ch \<longleftrightarrow> mpidr_aff ch = arm_get_cpu_affinity_as_u32 regs"

definition set_coreid :: "sysregs \<Rightarrow> mmu_core_handle \<Rightarrow> mmu_core_handle \<times> bool" where
  "set_coreid regs ch = (ch\<lparr>mpidr_aff := arm_get_cpu_affinity_as_u32 regs\<rparr>, True)"

definition mmu_on :: "u64 \<Rightarrow> bool" where
  "mmu_on sctlr \<longleftrightarrow> sctlr AND 1 \<noteq> 0"

definition mmu_is_active :: "sysregs \<Rightarrow> bool" where
  "mmu_is_active regs \<longleftrightarrow> SCTLR_EL1 regs AND 1 \<noteq> 0"

section \<open>Getters of the handle\<close>

definition COREH_VA_BITS_MASK :: u64 where
  "COREH_VA_BITS_MASK = push_bit 6 1 - 1"

definition COREH_GRANULARITY_MASK :: u64 where
  "COREH_GRANULARITY_MASK = push_bit 2 1 - 1"

definition COREH_BIT_MASK :: "nat \<Rightarrow> u64" where
  "COREH_BIT_MASK s = push_bit s 1"

definition mmu_core_get_d_cache :: "mmu_core_handle \<Rightarrow> bool" where
  "mmu_core_get_d_cache ch \<longleftrightarrow> drop_bit 0 (flags ch) AND 1 \<noteq> 0"

definition mmu_core_get_i_cache :: "mmu_core_handle \<Rightarrow> bool" where
  "mmu_core_get_i_cache ch \<longleftrightarrow> drop_bit 1 (flags ch) AND 1 \<noteq> 0"

definition mmu_core_get_align_trap :: "mmu_core_handle \<Rightarrow> bool" where
  "mmu_core_get_align_trap ch \<longleftrightarrow> drop_bit 2 (flags ch) AND 1 \<noteq> 0"

definition mmu_core_get_lo_enabled :: "mmu_core_handle \<Rightarrow> bool" where
  "mmu_core_get_lo_enabled ch \<longleftrightarrow> drop_bit 3 (flags ch) AND 1 \<noteq> 0"

definition mmu_core_get_hi_enabled :: "mmu_core_handle \<Rightarrow> bool" where
  "mmu_core_get_hi_enabled ch \<longleftrightarrow> drop_bit 4 (flags ch) AND 1 \<noteq> 0"

definition mmu_core_get_lo_va_bits :: "mmu_core_handle \<Rightarrow> u8" where
  "mmu_core_get_lo_va_bits ch = ucast (drop_bit 5 (flags ch) AND COREH_VA_BITS_MASK)"

definition mmu_core_get_hi_va_bits :: "mmu_core_handle \<Rightarrow> u8" where
  "mmu_core_get_hi_va_bits ch = ucast (drop_bit 11 (flags ch) AND COREH_VA_BITS_MASK)"

definition lo_tg :: "mmu_core_handle \<Rightarrow> u64" where
  "lo_tg ch = drop_bit 17 (flags ch) AND COREH_GRANULARITY_MASK"

definition hi_tg :: "mmu_core_handle \<Rightarrow> u64" where
  "hi_tg ch = drop_bit 19 (flags ch) AND COREH_GRANULARITY_MASK"

definition mmu_core_get_lo_granularity :: "mmu_core_handle \<Rightarrow> mmu_granularity res" where
  "mmu_core_get_lo_granularity ch =
     (let tg0 = lo_tg ch in
      if tg0 = 0 then Inr MMU_GRANULARITY_4KB
      else if tg0 = 2 then Inr MMU_GRANULARITY_16KB
      else if tg0 = 1 then Inr MMU_GRANULARITY_64KB
      else Inl (Panic ''''))"

definition mmu_core_get_hi_granularity :: "mmu_core_handle \<Rightarrow> mmu_granularity res" where
  "mmu_core_get_hi_granularity ch =
     (let tg1 = hi_tg ch in
      if tg1 = 2 then Inr MMU_GRANULARITY_4KB
      else if tg1 = 1 then Inr MMU_GRANULARITY_16KB
      else if tg1 = 3 then Inr MMU_GRANULARITY_64KB
      else Inl (Panic ''''))"

section \<open>Setters of the handle\<close>

text \<open>Every setter but that of the mapping refuses to work while the MMU is on.\<close>

definition mmu_core_set_d_cache :: "sysregs \<Rightarrow> mmu_core_handle \<Rightarrow> bool \<Rightarrow> mmu_core_handle \<times> bool" where
  "mmu_core_set_d_cache regs ch v =
     (if mmu_on (SCTLR_EL1 regs) then (ch, False)
      else (ch\<lparr>flags := (flags ch AND NOT (COREH_BIT_MASK 0)) OR push_bit 0 (of_bool v)\<rparr>, True))"

definition mmu_core_set_i_cache :: "sysregs \<Rightarrow> mmu_core_handle \<Rightarrow> bool \<Rightarrow> mmu_core_handle \<times> bool" where
  "mmu_core_set_i_cache regs ch v =
     (if mmu_on (SCTLR_EL1 regs) then (ch, False)
      else (ch\<lparr>flags := (flags ch AND NOT (COREH_BIT_MASK 1)) OR push_bit 1 (of_bool v)\<rparr>, True))"

definition mmu_core_set_align_trap :: "sysregs \<Rightarrow> mmu_core_handle \<Rightarrow> bool \<Rightarrow> mmu_core_handle \<times> bool" where
  "mmu_core_set_align_trap regs ch v =
     (if mmu_on (SCTLR_EL1 regs) then (ch, False)
      else (ch\<lparr>flags := (flags ch AND NOT (COREH_BIT_MASK 2)) OR push_bit 2 (of_bool v)\<rparr>, True))"

definition mmu_core_set_lo_enabled :: "sysregs \<Rightarrow> mmu_core_handle \<Rightarrow> bool \<Rightarrow> mmu_core_handle \<times> bool" where
  "mmu_core_set_lo_enabled regs ch v =
     (if mmu_on (SCTLR_EL1 regs) then (ch, False)
      else (ch\<lparr>flags := (flags ch AND NOT (COREH_BIT_MASK 3)) OR push_bit 3 (of_bool v)\<rparr>, True))"

definition mmu_core_set_hi_enabled :: "sysregs \<Rightarrow> mmu_core_handle \<Rightarrow> bool \<Rightarrow> mmu_core_handle \<times> bool" where
  "mmu_core_set_hi_enabled regs ch v =
     (if mmu_on (SCTLR_EL1 regs) then (ch, False)
      else (ch\<lparr>flags := (flags ch AND NOT (COREH_BIT_MASK 4)) OR push_bit 4 (of_bool v)\<rparr>, True))"

definition mmu_core_set_lo_va_bits :: "sysregs \<Rightarrow> mmu_core_handle \<Rightarrow> u8 \<Rightarrow> mmu_core_handle \<times> bool" where
  "mmu_core_set_lo_va_bits regs ch bits =
     (if mmu_on (SCTLR_EL1 regs) then (ch, False)
      else if bits \<ge> push_bit 6 1 then (ch, False)
      else (ch\<lparr>flags := (flags ch AND NOT (push_bit 5 COREH_VA_BITS_MASK)) OR push_bit 5 (ucast bits)\<rparr>, True))"

definition mmu_core_set_hi_va_bits :: "sysregs \<Rightarrow> mmu_core_handle \<Rightarrow> u8 \<Rightarrow> mmu_core_handle \<times> bool" where
  "mmu_core_set_hi_va_bits regs ch bits =
     (if mmu_on (SCTLR_EL1 regs) then (ch, False)
      else if bits \<ge> push_bit 6 1 then (ch, False)
      else (ch\<lparr>flags := (flags ch AND NOT (push_bit 11 COREH_VA_BITS_MASK)) OR push_bit 11 (ucast bits)\<rparr>, True))"

definition mmu_core_set_lo_granularity ::
  "sysregs \<Rightarrow> mmu_core_handle \<Rightarrow> mmu_granularity \<Rightarrow> mmu_core_handle \<times> bool" where
  "mmu_core_set_lo_granularity regs ch g =
     (if mmu_on (SCTLR_EL1 regs) then (ch, False)
      else let val = (case g of MMU_GRANULARITY_4KB \<Rightarrow> 0 | MMU_GRANULARITY_16KB \<Rightarrow> 2
                              | MMU_GRANULARITY_64KB \<Rightarrow> 1)
        in (ch\<lparr>flags := (flags ch AND NOT (push_bit 17 COREH_GRANULARITY_MASK)) OR push_bit 17 val\<rparr>, True))"

definition mmu_core_set_hi_granularity ::
  "sysregs \<Rightarrow> mmu_core_handle \<Rightarrow> mmu_granularity \<Rightarrow> mmu_core_handle \<times> bool" where
  "mmu_core_set_hi_granularity regs ch g =
     (if mmu_on (SCTLR_EL1 regs) then (ch, False)
      else let val = (case g of MMU_GRANULARITY_4KB \<Rightarrow> 2 | MMU_GRANULARITY_16KB \<Rightarrow> 1
                              | MMU_GRANULARITY_64KB \<Rightarrow> 3)
        in (ch\<lparr>flags := (flags ch AND NOT (push_bit 19 COREH_GRANULARITY_MASK)) OR push_bit 19 val\<rparr>, True))"

definition mmu_core_set_mapping ::
  "'a mapping_store \<Rightarrow> sysregs \<Rightarrow> mmu_core_handle \<Rightarrow> u64 \<Rightarrow> (sysregs \<times> mmu_core_handle \<times> bool) res" where
  "mmu_core_set_mapping mp regs ch t =
     (if t = 0 then Inl Fault
      else if (if rng (mp t) = MMU_LO then lo_mapping ch else hi_mapping ch) = t
      then Inr (regs, ch, True)
      else if \<not> mmu_mapping_is_valid (mp t) then Inr (regs, ch, False)
      else if mmu_on (SCTLR_EL1 regs) then
        (case rng (mp t) of
           MMU_LO \<Rightarrow>
             let ch = ch\<lparr>lo_mapping := t\<rparr> in
             Inr (regs\<lparr>TTBR0_EL1 := tbl_ptr (mp (lo_mapping ch)) - physmap_offset (mp (lo_mapping ch))\<rparr>, ch, True)
         | MMU_HI \<Rightarrow>
             let ch = ch\<lparr>hi_mapping := t\<rparr> in
             Inr (regs\<lparr>TTBR1_EL1 := tbl_ptr (mp (hi_mapping ch)) - physmap_offset (mp (hi_mapping ch))\<rparr>, ch, True))
      else Inr (regs, if rng (mp t) = MMU_LO then ch\<lparr>lo_mapping := t\<rparr> else ch\<lparr>hi_mapping := t\<rparr>, True))"

text \<open>\<open>MMU_CORE_ASSERT_SET\<close>: run a setter, stop with false when it refuses.\<close>

definition core_set ::
  "(mmu_core_handle \<Rightarrow> mmu_core_handle \<times> bool) \<Rightarrow> mmu_core_handle \<Rightarrow>
   (mmu_core_handle \<Rightarrow> mmu_core_handle \<times> bool) \<Rightarrow> mmu_core_handle \<times> bool" where
  "core_set f ch k = (let (ch, ok) = f ch in if \<not> ok then (ch, False) else k ch)"

definition mmu_core_handle_new ::
  "'a mapping_store \<Rightarrow> sysregs \<Rightarrow> mmu_core_handle \<Rightarrow> u64 \<Rightarrow> u64 \<Rightarrow> bool \<Rightarrow> bool \<Rightarrow> bool \<Rightarrow> bool \<Rightarrow> bool \<Rightarrow>
   (sysregs \<times> mmu_core_handle \<times> bool) res" where
  "mmu_core_handle_new mp regs ch lo hi hi_enable lo_enable d_cache i_cache align_trap =
     rassert (lo \<noteq> 0 \<and> hi \<noteq> 0) (Panic ''mmu_core_handle_new'')
       (if rng (mp lo) \<noteq> MMU_LO then Inr (regs, ch, False)
        else if rng (mp hi) \<noteq> MMU_HI then Inr (regs, ch, False)
        else if \<not> mmu_mapping_is_valid (mp lo) \<and> lo_enable then Inr (regs, ch, False)
        else if \<not> mmu_mapping_is_valid (mp hi) \<and> hi_enable then Inr (regs, ch, False)
        else
          rbind (mmu_core_set_mapping mp regs ch lo) (\<lambda>(regs, ch, ok).
          if \<not> ok then Inr (regs, ch, False) else
          rbind (mmu_core_set_mapping mp regs ch hi) (\<lambda>(regs, ch, ok).
          if \<not> ok then Inr (regs, ch, False) else
          let (ch, ok) =
            core_set (\<lambda>ch. mmu_core_set_d_cache regs ch d_cache) ch (\<lambda>ch.
            core_set (\<lambda>ch. mmu_core_set_i_cache regs ch i_cache) ch (\<lambda>ch.
            core_set (\<lambda>ch. mmu_core_set_align_trap regs ch align_trap) ch (\<lambda>ch.
            core_set (\<lambda>ch. mmu_core_set_lo_enabled regs ch lo_enable) ch (\<lambda>ch.
            core_set (\<lambda>ch. mmu_core_set_hi_enabled regs ch hi_enable) ch (\<lambda>ch.
            core_set (\<lambda>ch. mmu_core_set_lo_va_bits regs ch (ucast (va_addr_bits (mp lo)))) ch (\<lambda>ch.
            core_set (\<lambda>ch. mmu_core_set_hi_va_bits regs ch (ucast (va_addr_bits (mp hi)))) ch (\<lambda>ch.
            core_set (\<lambda>ch. mmu_core_set_lo_granularity regs ch (gran (mp lo))) ch (\<lambda>ch.
            core_set (\<lambda>ch. mmu_core_set_hi_granularity regs ch (gran (mp hi))) ch (\<lambda>ch.
            core_set (\<lambda>ch. set_coreid regs ch) ch (\<lambda>ch. (ch, True)))))))))))
          in Inr (regs, ch, ok))))"

section \<open>Activation\<close>

datatype mmu_activate_result =
    MMU_ACTIVATE_OK
  | MMU_ACTIVATE_NOT_THE_SAME_CORE
  | MMU_ACTIVATE_LO_NOT_ENABLED
  | MMU_ACTIVATE_IS_ALREADY_ACTIVE
  | MMU_ACTIVATE_LO_MAPPING_NOT_VALID
  | MMU_ACTIVATE_INVALID_LO_BITS
  | MMU_ACTIVATE_INVALID_HI_BITS
  | MMU_ACTIVATE_INVALID_LO_AND_HI_BITS

datatype mmu_deactivate_result =
    MMU_DEACTIVATE_OK
  | MMU_DEACTIVATE_NOT_THE_SAME_CORE
  | MMU_DEACTIVATE_IS_ALREADY_DEACTIVATED
  | MMU_DEACTIVATE_PC_IS_IN_HI_RNG

definition activate_tcr :: "mmu_core_handle \<Rightarrow> u64 \<Rightarrow> u64" where
  "activate_tcr ch ips =
     push_bit 0 (64 - ucast (mmu_core_get_lo_va_bits ch))
     OR push_bit 16 (64 - ucast (mmu_core_get_hi_va_bits ch))
     OR push_bit 7 (of_bool (\<not> mmu_core_get_lo_enabled ch))
     OR push_bit 23 (of_bool (\<not> mmu_core_get_hi_enabled ch))
     OR push_bit 14 (lo_tg ch) OR push_bit 30 (hi_tg ch)
     OR push_bit 12 3 OR push_bit 10 1 OR push_bit 8 1
     OR push_bit 28 3 OR push_bit 26 1 OR push_bit 24 1
     OR push_bit 32 (ips AND 7)"

definition activate_sctlr :: "mmu_core_handle \<Rightarrow> u64 \<Rightarrow> u64" where
  "activate_sctlr ch sctlr =
     (sctlr AND NOT (push_bit 1 1) AND NOT (push_bit 2 1) AND NOT (push_bit 12 1))
     OR push_bit 12 (of_bool (mmu_core_get_i_cache ch))
     OR push_bit 2 (of_bool (mmu_core_get_d_cache ch))
     OR push_bit 1 (of_bool (mmu_core_get_align_trap ch))
     OR push_bit 0 1"

text \<open>A null handle makes the core wait forever; \<open>ch\<close> is the handle behind a pointer that is not
  null.  The physical address ranges of the switch are those up to 48 bits.\<close>

definition mmu_core_activate ::
  "'a mapping_store \<Rightarrow> mmu_core_handle \<Rightarrow> sysregs \<Rightarrow> (sysregs \<times> mmu_activate_result) res" where
  "mmu_core_activate mp ch regs =
     (if \<not> eq_caller_coreid regs ch then Inr (regs, MMU_ACTIVATE_NOT_THE_SAME_CORE)
      else if \<not> mmu_core_get_lo_enabled ch then Inr (regs, MMU_ACTIVATE_LO_NOT_ENABLED)
      else if lo_mapping ch = 0 \<or> \<not> mmu_mapping_is_valid (mp (lo_mapping ch))
      then Inr (regs, MMU_ACTIVATE_LO_MAPPING_NOT_VALID)
      else let sctlr = SCTLR_EL1 regs in
        if sctlr AND 1 = 1 then Inr (regs, MMU_ACTIVATE_IS_ALREADY_ACTIVE)
        else
          let lo_va_bits = mmu_core_get_lo_va_bits ch;
              hi_va_bits = mmu_core_get_hi_va_bits ch;
              valid_lo_bits = (lo_va_bits \<ge> 39 \<and> lo_va_bits \<le> 48);
              valid_hi_bits = (hi_va_bits \<ge> 39 \<and> hi_va_bits \<le> 48) in
          if \<not> valid_lo_bits \<and> \<not> valid_hi_bits then Inr (regs, MMU_ACTIVATE_INVALID_LO_AND_HI_BITS)
          else if \<not> valid_lo_bits then Inr (regs, MMU_ACTIVATE_INVALID_LO_BITS)
          else if \<not> valid_hi_bits then Inr (regs, MMU_ACTIVATE_INVALID_HI_BITS)
          else
            let mair = push_bit 0 0xFF OR push_bit 8 0x04;
                regs = regs\<lparr>TTBR0_EL1 := tbl_ptr (mp (lo_mapping ch)) - physmap_offset (mp (lo_mapping ch))\<rparr>;
                regs = (if mmu_core_get_hi_enabled ch
                        then regs\<lparr>TTBR1_EL1 := tbl_ptr (mp (hi_mapping ch)) - physmap_offset (mp (hi_mapping ch))\<rparr>
                        else regs);
                pa_range = ID_AA64MMFR0_EL1 regs AND 0xF in
            rassert (pa_range \<le> 5) (Panic ''Unsupported PA range'')
              (let ips = pa_range;
                   regs = regs\<lparr>MAIR_EL1 := mair\<rparr>;
                   regs = regs\<lparr>TCR_EL1 := activate_tcr ch ips\<rparr>
               in Inr (regs\<lparr>SCTLR_EL1 := activate_sctlr ch sctlr\<rparr>, MMU_ACTIVATE_OK)))"

text \<open>\<open>pc\<close> is the page of the instruction that reads it.\<close>

definition mmu_core_deactivate ::
  "u64 \<Rightarrow> mmu_core_handle \<Rightarrow> sysregs \<Rightarrow> sysregs \<times> mmu_deactivate_result" where
  "mmu_core_deactivate pc ch regs =
     (let sctlr = SCTLR_EL1 regs in
      if \<not> eq_caller_coreid regs ch then (regs, MMU_DEACTIVATE_NOT_THE_SAME_CORE)
      else if sctlr AND 1 = 0 then (regs, MMU_DEACTIVATE_IS_ALREADY_DEACTIVATED)
      else if pc AND push_bit 63 1 \<noteq> 0 then (regs, MMU_DEACTIVATE_PC_IS_IN_HI_RNG)
      else (regs\<lparr>SCTLR_EL1 := sctlr AND NOT 1\<rparr>, MMU_DEACTIVATE_OK))"

section \<open>The bits of the flags word\<close>

lemma coreh_masks:
  "COREH_VA_BITS_MASK = MMU_DC_BITS 6" "COREH_GRANULARITY_MASK = MMU_DC_BITS 2"
  "push_bit s COREH_VA_BITS_MASK = MMU_DC_FIELD_MASK s 6"
  "push_bit s COREH_GRANULARITY_MASK = MMU_DC_FIELD_MASK s 2"
  "COREH_BIT_MASK s = MMU_DC_FIELD_MASK s 1"
  by (simp_all add: COREH_VA_BITS_MASK_def COREH_GRANULARITY_MASK_def COREH_BIT_MASK_def
      MMU_DC_BITS_def MMU_DC_FIELD_MASK_def)

definition lo_tg_code :: "mmu_granularity \<Rightarrow> u64" where
  "lo_tg_code g = (case g of MMU_GRANULARITY_4KB \<Rightarrow> 0 | MMU_GRANULARITY_16KB \<Rightarrow> 2 | MMU_GRANULARITY_64KB \<Rightarrow> 1)"

definition hi_tg_code :: "mmu_granularity \<Rightarrow> u64" where
  "hi_tg_code g = (case g of MMU_GRANULARITY_4KB \<Rightarrow> 2 | MMU_GRANULARITY_16KB \<Rightarrow> 1 | MMU_GRANULARITY_64KB \<Rightarrow> 3)"

lemma flag_small_bits: "x AND mask k = x \<Longrightarrow> bit x n \<Longrightarrow> n < k" for x :: u64
  by (metis bit_and_iff bit_mask_iff)

lemma tg_code_masked: "lo_tg_code g AND mask 2 = lo_tg_code g" "hi_tg_code g AND mask 2 = hi_tg_code g"
  by (cases g; simp add: lo_tg_code_def hi_tg_code_def mask_eq_exp_minus_1)+

lemmas tg_code_bits = flag_small_bits [OF tg_code_masked(1)] flag_small_bits [OF tg_code_masked(2)]

lemma byte_bits:
  fixes b :: u8
  assumes "\<not> push_bit 6 1 \<le> b" and "bit (ucast b :: u64) n"
  shows "n < 6"
proof -
  have "b < 2 ^ 6" using assms(1) by (simp add: push_bit_eq_mult not_le)
  moreover have "bit b n" using assms(2) by (simp add: bit_simps)
  ultimately show ?thesis by (rule bit_small_byte)
qed

definition put_field :: "nat \<Rightarrow> nat \<Rightarrow> u64 \<Rightarrow> u64 \<Rightarrow> u64" where
  "put_field s w x f = (f AND NOT (MMU_DC_FIELD_MASK s w)) OR push_bit s x"

text \<open>The flags word after all of the setters.\<close>

definition core_flags :: "u64 \<Rightarrow> bool \<Rightarrow> bool \<Rightarrow> bool \<Rightarrow> bool \<Rightarrow> bool \<Rightarrow> u8 \<Rightarrow> u8 \<Rightarrow>
  mmu_granularity \<Rightarrow> mmu_granularity \<Rightarrow> u64" where
  "core_flags f d i a lo hi lb hb lg hg =
     put_field 19 2 (hi_tg_code hg) (put_field 17 2 (lo_tg_code lg)
    (put_field 11 6 (ucast hb) (put_field 5 6 (ucast lb)
    (put_field 4 1 (of_bool hi) (put_field 3 1 (of_bool lo) (put_field 2 1 (of_bool a)
    (put_field 1 1 (of_bool i) (put_field 0 1 (of_bool d) f))))))))"

lemma bit_put_flag:
  "s < 64 \<Longrightarrow> bit (put_field s 1 (of_bool b) f) n = (if n = s then b else bit f n)"
  unfolding put_field_def by (subst bit_put_field) (auto simp: bit_simps split: if_splits)

lemma bit_put_wide:
  "s + w \<le> 64 \<Longrightarrow> (\<And>k. bit x k \<Longrightarrow> k < w) \<Longrightarrow>
   bit (put_field s w x f) n = (if s \<le> n \<and> n < s + w then bit x (n - s) else bit f n)"
  unfolding put_field_def by (rule bit_put_field)

lemma bit_ucast_byte: "bit (ucast x :: u64) k = bit x k" for x :: u8
  using bit_imp_le_length [of x k] by (auto simp: bit_simps)

lemma bit_core_flags:
  assumes "\<not> push_bit 6 1 \<le> lb" and "\<not> push_bit 6 1 \<le> hb"
  shows "bit (core_flags f d i a lo hi lb hb lg hg) n =
    (if 19 \<le> n \<and> n < 21 then bit (hi_tg_code hg) (n - 19)
     else if 17 \<le> n \<and> n < 19 then bit (lo_tg_code lg) (n - 17)
     else if 11 \<le> n \<and> n < 17 then bit hb (n - 11)
     else if 5 \<le> n \<and> n < 11 then bit lb (n - 5)
     else if n = 4 then hi else if n = 3 then lo else if n = 2 then a else if n = 1 then i
     else if n = 0 then d else bit f n)"
  unfolding core_flags_def
  by (subst bit_put_wide, simp, erule tg_code_bits, subst bit_put_wide, simp, erule tg_code_bits,
      subst bit_put_wide, simp, erule byte_bits [OF assms(2)],
      subst bit_put_wide, simp, erule byte_bits [OF assms(1)])
    (simp only: bit_put_flag bit_ucast_byte; simp)

lemma flag_get: "drop_bit s f AND 1 \<noteq> 0 \<longleftrightarrow> bit f s" for f :: u64
  by (simp add: bit_iff_odd_drop_bit and_one_eq odd_iff_mod_2_eq_one)

lemma core_flags_get:
  assumes "\<not> push_bit 6 1 \<le> lb" and "\<not> push_bit 6 1 \<le> hb"
    and f: "flags ch = core_flags f d i a lo hi lb hb lg hg"
  shows "mmu_core_get_d_cache ch = d" "mmu_core_get_i_cache ch = i" "mmu_core_get_align_trap ch = a"
    "mmu_core_get_lo_enabled ch = lo" "mmu_core_get_hi_enabled ch = hi"
    "mmu_core_get_lo_va_bits ch = lb" "mmu_core_get_hi_va_bits ch = hb"
    "lo_tg ch = lo_tg_code lg" "hi_tg ch = hi_tg_code hg"
    "mmu_core_get_lo_granularity ch = Inr lg" "mmu_core_get_hi_granularity ch = Inr hg"
proof -
  note b = bit_core_flags [OF assms(1,2)]
  show "mmu_core_get_d_cache ch = d" "mmu_core_get_i_cache ch = i" "mmu_core_get_align_trap ch = a"
    "mmu_core_get_lo_enabled ch = lo" "mmu_core_get_hi_enabled ch = hi"
    by (simp_all only: mmu_core_get_d_cache_def mmu_core_get_i_cache_def mmu_core_get_align_trap_def
        mmu_core_get_lo_enabled_def mmu_core_get_hi_enabled_def flag_get f b) simp_all
  have u: "bit x k \<Longrightarrow> k < 6" if "\<not> push_bit 6 1 \<le> x" for x :: u8 and k
    using byte_bits [OF that, of k] by (auto simp: bit_simps dest: bit_imp_le_length)
  show "mmu_core_get_lo_va_bits ch = lb"
    unfolding mmu_core_get_lo_va_bits_def f coreh_masks MMU_DC_BITS_mask
    by (intro bit_word_eqI) (auto simp: bit_simps b dest: u [OF assms(1)])
  show "mmu_core_get_hi_va_bits ch = hb"
    unfolding mmu_core_get_hi_va_bits_def f coreh_masks MMU_DC_BITS_mask
    by (intro bit_word_eqI) (auto simp: bit_simps b dest: u [OF assms(2)])
  show l: "lo_tg ch = lo_tg_code lg"
    unfolding lo_tg_def f coreh_masks MMU_DC_BITS_mask
    by (intro bit_word_eqI) (auto simp: bit_simps b dest: tg_code_bits)
  show h: "hi_tg ch = hi_tg_code hg"
    unfolding hi_tg_def f coreh_masks MMU_DC_BITS_mask
    by (intro bit_word_eqI) (auto simp: bit_simps b dest: tg_code_bits)
  show "mmu_core_get_lo_granularity ch = Inr lg" "mmu_core_get_hi_granularity ch = Inr hg"
    unfolding mmu_core_get_lo_granularity_def mmu_core_get_hi_granularity_def l h Let_def
    by ((cases lg; simp add: lo_tg_code_def), (cases hg; simp add: hi_tg_code_def))
qed

section \<open>Building a handle\<close>

lemma set_mapping_off:
  assumes "t \<noteq> 0" and "mmu_mapping_is_valid (mp t)" and "\<not> mmu_on (SCTLR_EL1 regs)"
  shows "mmu_core_set_mapping mp regs ch t =
    Inr (regs, if rng (mp t) = MMU_LO then ch\<lparr>lo_mapping := t\<rparr> else ch\<lparr>hi_mapping := t\<rparr>, True)"
  using assms by (auto simp: mmu_core_set_mapping_def)

lemma setters_off:
  assumes "\<not> mmu_on (SCTLR_EL1 regs)"
  shows "mmu_core_set_d_cache regs ch v = (ch\<lparr>flags := put_field 0 1 (of_bool v) (flags ch)\<rparr>, True)"
    "mmu_core_set_i_cache regs ch v = (ch\<lparr>flags := put_field 1 1 (of_bool v) (flags ch)\<rparr>, True)"
    "mmu_core_set_align_trap regs ch v = (ch\<lparr>flags := put_field 2 1 (of_bool v) (flags ch)\<rparr>, True)"
    "mmu_core_set_lo_enabled regs ch v = (ch\<lparr>flags := put_field 3 1 (of_bool v) (flags ch)\<rparr>, True)"
    "mmu_core_set_hi_enabled regs ch v = (ch\<lparr>flags := put_field 4 1 (of_bool v) (flags ch)\<rparr>, True)"
    "\<not> push_bit 6 1 \<le> b \<Longrightarrow>
     mmu_core_set_lo_va_bits regs ch b = (ch\<lparr>flags := put_field 5 6 (ucast b) (flags ch)\<rparr>, True)"
    "\<not> push_bit 6 1 \<le> b \<Longrightarrow>
     mmu_core_set_hi_va_bits regs ch b = (ch\<lparr>flags := put_field 11 6 (ucast b) (flags ch)\<rparr>, True)"
    "mmu_core_set_lo_granularity regs ch g = (ch\<lparr>flags := put_field 17 2 (lo_tg_code g) (flags ch)\<rparr>, True)"
    "mmu_core_set_hi_granularity regs ch g = (ch\<lparr>flags := put_field 19 2 (hi_tg_code g) (flags ch)\<rparr>, True)"
  unfolding mmu_core_set_d_cache_def mmu_core_set_i_cache_def mmu_core_set_align_trap_def
    mmu_core_set_lo_enabled_def mmu_core_set_hi_enabled_def mmu_core_set_lo_va_bits_def
    mmu_core_set_hi_va_bits_def mmu_core_set_lo_granularity_def mmu_core_set_hi_granularity_def
    if_not_P [OF assms] Let_def coreh_masks(3-5) put_field_def lo_tg_code_def hi_tg_code_def
  by (simp_all only: if_False if_True refl)

lemma va_bits_byte: "b < 64 \<Longrightarrow> \<not> push_bit 6 1 \<le> (ucast b :: u8)" for b :: u64
proof -
  assume "b < 64"
  hence "unat b < 64" by (simp add: word_less_nat_alt)
  hence "unat (ucast b :: u8) < 64" by (simp add: unsigned_ucast_eq take_bit_eq_mod)
  thus ?thesis by (simp add: word_le_nat_alt push_bit_eq_mult)
qed

lemma handle_new_eq:
  assumes "lo \<noteq> 0" and "hi \<noteq> 0" and "rng (mp lo) = MMU_LO" and "rng (mp hi) = MMU_HI"
    and "mmu_mapping_is_valid (mp lo)" and "mmu_mapping_is_valid (mp hi)"
    and "va_addr_bits (mp lo) < 64" and "va_addr_bits (mp hi) < 64" and "\<not> mmu_on (SCTLR_EL1 regs)"
  shows "mmu_core_handle_new mp regs ch lo hi hi_en lo_en d i a =
    Inr (regs, ch\<lparr>lo_mapping := lo, hi_mapping := hi, mpidr_aff := arm_get_cpu_affinity_as_u32 regs,
      flags := core_flags (flags ch) d i a lo_en hi_en (ucast (va_addr_bits (mp lo)))
        (ucast (va_addr_bits (mp hi))) (gran (mp lo)) (gran (mp hi))\<rparr>, True)"
  using assms(1-6)
  by (simp add: mmu_core_handle_new_def set_mapping_off [OF _ _ assms(9)] core_set_def set_coreid_def
      setters_off(1-5,8,9) [OF assms(9)] setters_off(6,7) [OF assms(9) va_bits_byte [OF assms(7)]]
      setters_off(6,7) [OF assms(9) va_bits_byte [OF assms(8)]] core_flags_def del: One_nat_def)

text \<open>With the MMU off and two valid mappings of the right halves, \<open>mmu_core_handle_new\<close>
  succeeds, touches no register, and every getter of the handle returns what was asked for: the
  mappings, the cache and alignment settings, the enabled halves, and the address width and
  granularity of each mapping. No field of the packed flags word disturbs another.\<close>
theorem mmu_core_handle_new_spec:
  assumes "lo \<noteq> 0" and "hi \<noteq> 0" and "rng (mp lo) = MMU_LO" and "rng (mp hi) = MMU_HI"
    and "mmu_mapping_is_valid (mp lo)" and "mmu_mapping_is_valid (mp hi)"
    and "va_addr_bits (mp lo) < 64" and "va_addr_bits (mp hi) < 64" and "\<not> mmu_on (SCTLR_EL1 regs)"
  shows "\<exists>ch'. mmu_core_handle_new mp regs ch lo hi hi_en lo_en d i a = Inr (regs, ch', True) \<and>
    lo_mapping ch' = lo \<and> hi_mapping ch' = hi \<and> eq_caller_coreid regs ch' \<and>
    mmu_core_get_d_cache ch' = d \<and> mmu_core_get_i_cache ch' = i \<and> mmu_core_get_align_trap ch' = a \<and>
    mmu_core_get_lo_enabled ch' = lo_en \<and> mmu_core_get_hi_enabled ch' = hi_en \<and>
    mmu_core_get_lo_va_bits ch' = ucast (va_addr_bits (mp lo)) \<and>
    mmu_core_get_hi_va_bits ch' = ucast (va_addr_bits (mp hi)) \<and>
    mmu_core_get_lo_granularity ch' = Inr (gran (mp lo)) \<and>
    mmu_core_get_hi_granularity ch' = Inr (gran (mp hi))"
proof -
  let ?ch = "ch\<lparr>lo_mapping := lo, hi_mapping := hi, mpidr_aff := arm_get_cpu_affinity_as_u32 regs,
      flags := core_flags (flags ch) d i a lo_en hi_en (ucast (va_addr_bits (mp lo)))
        (ucast (va_addr_bits (mp hi))) (gran (mp lo)) (gran (mp hi))\<rparr>"
  have f: "flags ?ch = core_flags (flags ch) d i a lo_en hi_en (ucast (va_addr_bits (mp lo)))
        (ucast (va_addr_bits (mp hi))) (gran (mp lo)) (gran (mp hi))" by simp
  show ?thesis
    using core_flags_get [OF va_bits_byte [OF assms(7)] va_bits_byte [OF assms(8)] f]
    by (intro exI [of _ ?ch] conjI handle_new_eq [OF assms]) (simp_all add: eq_caller_coreid_def)
qed

definition sample_mappings :: "unit mapping_store" where
  "sample_mappings a =
     \<lparr>rng = (if a = 0x1000 then MMU_LO else MMU_HI), gran = MMU_GRANULARITY_4KB, va_addr_bits = 48,
      physmap_offset = 0, tbl_ptr = a + 0x10000, allocator_fn = (\<lambda>_ _. Inl Fault),
      allocator_free_fn = (\<lambda>_ _. Inl Fault)\<rparr>"

definition reset_regs :: sysregs where
  "reset_regs = \<lparr>SCTLR_EL1 = 0x30D00800, TTBR0_EL1 = 0, TTBR1_EL1 = 0, TCR_EL1 = 0, MAIR_EL1 = 0,
     ID_AA64MMFR0_EL1 = 0x1122, MPIDR_EL1 = 0x80000001\<rparr>"

definition zero_handle :: mmu_core_handle where
  "zero_handle = \<lparr>lo_mapping = 0, hi_mapping = 0, mpidr_aff = 0, flags = 0\<rparr>"

theorem mmu_core_handle_new_spec_witness:
  "\<exists>ch'. mmu_core_handle_new sample_mappings reset_regs zero_handle 0x1000 0x2000 True True True True False
       = Inr (reset_regs, ch', True) \<and>
     mmu_core_get_lo_va_bits ch' = 48 \<and> mmu_core_get_hi_granularity ch' = Inr MMU_GRANULARITY_4KB \<and>
     mmu_core_get_hi_enabled ch' \<and> \<not> mmu_core_get_align_trap ch'"
  using mmu_core_handle_new_spec [of "0x1000" "0x2000" sample_mappings reset_regs zero_handle
      True True True True False]
  by (auto simp: sample_mappings_def mmu_mapping_is_valid_def NULL_MAPPING_TBL_def reset_regs_def
      mmu_on_def)

section \<open>Activating the MMU\<close>

definition field :: "u64 \<Rightarrow> nat \<Rightarrow> nat \<Rightarrow> u64" where
  "field x s w = drop_bit s x AND mask w"

lemma bit_less_exp: "unat x < 2 ^ k \<Longrightarrow> bit x n \<Longrightarrow> n < k" for x :: "'a::len word"
proof -
  assume "unat x < 2 ^ k" "bit x n"
  hence "bit (take_bit k (unat x)) n" by (simp add: take_bit_nat_eq_self bit_unsigned_iff)
  thus ?thesis by (simp add: bit_take_bit_iff)
qed

lemma tsz_bits:
  fixes b :: u8
  assumes "39 \<le> b" and "b \<le> 48" and "bit (64 - ucast b :: u64) n"
  shows "n < 6"
proof -
  have b: "39 \<le> unat b" "unat b \<le> 48" using assms(1,2) by (simp_all add: word_le_nat_alt)
  have u: "unat (ucast b :: u64) = unat b"
    using unsigned_less [of b, where 'a = nat] by (simp add: unsigned_ucast_eq take_bit_nat_eq_self)
  have "unat (64 - ucast b :: u64) = 64 - unat b"
    using b u by (subst unat_sub) (simp_all add: word_le_nat_alt)
  hence "unat (64 - ucast b :: u64) < 2 ^ 6" using b by simp
  thus ?thesis using bit_less_exp assms(3) by blast
qed

lemma tg_bits: "bit (lo_tg ch) n \<Longrightarrow> n < 2" "bit (hi_tg ch) n \<Longrightarrow> n < 2"
  by (simp_all add: lo_tg_def hi_tg_def coreh_masks MMU_DC_BITS_mask bit_simps)

lemma bit_push_small:
  "bit (push_bit s (1 :: u64)) n \<longleftrightarrow> n < 64 \<and> n = s"
  "bit (push_bit s (3 :: u64)) n \<longleftrightarrow> n < 64 \<and> (n = s \<or> n = Suc s)"
  "bit (push_bit s (of_bool b :: u64)) n \<longleftrightarrow> n < 64 \<and> n = s \<and> b"
  "bit (push_bit s x) n \<longleftrightarrow> n < 64 \<and> s \<le> n \<and> bit x (n - s)"
  for x :: u64
proof -
  have 3: "bit (3 :: u64) k \<longleftrightarrow> k = 0 \<or> k = 1" for k
  proof -
    have 3: "(3 :: u64) = mask 2" by (simp add: mask_eq_exp_minus_1)
    show ?thesis unfolding 3 bit_mask_iff by auto
  qed
  show "bit (push_bit s (1 :: u64)) n \<longleftrightarrow> n < 64 \<and> n = s"
    "bit (push_bit s (3 :: u64)) n \<longleftrightarrow> n < 64 \<and> (n = s \<or> n = Suc s)"
    "bit (push_bit s (of_bool b :: u64)) n \<longleftrightarrow> n < 64 \<and> n = s \<and> b"
    "bit (push_bit s x) n \<longleftrightarrow> n < 64 \<and> s \<le> n \<and> bit x (n - s)"
    unfolding bit_push_bit_iff 3 by (auto simp: bit_simps)
qed

lemma bit_tcr:
  "bit (activate_tcr ch ips) n \<longleftrightarrow> n < 64 \<and>
    (bit (64 - ucast (mmu_core_get_lo_va_bits ch) :: u64) n \<or>
     16 \<le> n \<and> bit (64 - ucast (mmu_core_get_hi_va_bits ch) :: u64) (n - 16) \<or>
     n = 7 \<and> \<not> mmu_core_get_lo_enabled ch \<or> n = 23 \<and> \<not> mmu_core_get_hi_enabled ch \<or>
     14 \<le> n \<and> bit (lo_tg ch) (n - 14) \<or> 30 \<le> n \<and> bit (hi_tg ch) (n - 30) \<or>
     n = 12 \<or> n = 13 \<or> n = 10 \<or> n = 8 \<or> n = 28 \<or> n = 29 \<or> n = 26 \<or> n = 24 \<or>
     32 \<le> n \<and> bit (ips AND 7) (n - 32))"
  unfolding activate_tcr_def bit_or_iff bit_push_small(1-3)
  unfolding bit_push_small(4)
  by auto

lemma bit_field: "bit (field x s w) n \<longleftrightarrow> n < w \<and> bit x (s + n)"
  using bit_imp_le_length [of x "s + n"] by (auto simp: field_def bit_simps)

lemma activate_tcr_fields:
  assumes "39 \<le> mmu_core_get_lo_va_bits ch" "mmu_core_get_lo_va_bits ch \<le> 48"
    and "39 \<le> mmu_core_get_hi_va_bits ch" "mmu_core_get_hi_va_bits ch \<le> 48" and "ips \<le> 5"
  shows "field (activate_tcr ch ips) 0 6 = 64 - ucast (mmu_core_get_lo_va_bits ch)"
    and "field (activate_tcr ch ips) 16 6 = 64 - ucast (mmu_core_get_hi_va_bits ch)"
    and "bit (activate_tcr ch ips) 7 = (\<not> mmu_core_get_lo_enabled ch)"
    and "bit (activate_tcr ch ips) 23 = (\<not> mmu_core_get_hi_enabled ch)"
    and "field (activate_tcr ch ips) 14 2 = lo_tg ch"
    and "field (activate_tcr ch ips) 30 2 = hi_tg ch"
    and "field (activate_tcr ch ips) 32 3 = ips"
proof -
  note lo = tsz_bits [OF assms(1,2)] and hi = tsz_bits [OF assms(3,4)]
  have ips: "ips AND 7 = ips" and ib: "bit ips n \<Longrightarrow> n < 3" for n
  proof -
    have u: "unat ips < 2 ^ 3" using assms(5) by (simp add: word_le_nat_alt)
    thus "bit ips n \<Longrightarrow> n < 3" using bit_less_exp by blast
    have "unat (ips AND mask 3) = unat ips" using u unfolding unat_and_mask by simp
    thus "ips AND 7 = ips" by (simp add: word_unat_eq_iff mask_eq_exp_minus_1)
  qed
  note b = bit_field bit_tcr ips
  note d = lo hi tg_bits ib
  show "field (activate_tcr ch ips) 0 6 = 64 - ucast (mmu_core_get_lo_va_bits ch)"
    by (intro bit_word_eqI) (auto simp: b dest: d)
  show "field (activate_tcr ch ips) 16 6 = 64 - ucast (mmu_core_get_hi_va_bits ch)"
    by (intro bit_word_eqI) (auto simp: b dest: d)
  show "bit (activate_tcr ch ips) 7 = (\<not> mmu_core_get_lo_enabled ch)"
    "bit (activate_tcr ch ips) 23 = (\<not> mmu_core_get_hi_enabled ch)"
    by (auto simp: b dest: d)
  show "field (activate_tcr ch ips) 14 2 = lo_tg ch"
    by (intro bit_word_eqI) (auto simp: b dest: d)
  show "field (activate_tcr ch ips) 30 2 = hi_tg ch"
    by (intro bit_word_eqI) (auto simp: b dest: d)
  show "field (activate_tcr ch ips) 32 3 = ips"
    by (intro bit_word_eqI) (auto simp: b dest: d)
qed

lemma bit_sctlr:
  "bit (activate_sctlr ch x) n \<longleftrightarrow> n < 64 \<and>
    (if n = 0 then True else if n = 1 then mmu_core_get_align_trap ch
     else if n = 2 then mmu_core_get_d_cache ch
     else if n = 12 then mmu_core_get_i_cache ch else bit x n)"
  unfolding activate_sctlr_def bit_or_iff bit_and_iff bit_not_iff bit_push_small(1-3)
  using bit_imp_le_length [of x n] by auto

lemma is_active_bit: "mmu_is_active r \<longleftrightarrow> bit (SCTLR_EL1 r) 0"
  using flag_get [of 0 "SCTLR_EL1 r"] by (simp add: mmu_is_active_def)

lemma activateD:
  assumes "mmu_core_activate mp ch regs = Inr (regs', MMU_ACTIVATE_OK)"
  shows "39 \<le> mmu_core_get_lo_va_bits ch" "mmu_core_get_lo_va_bits ch \<le> 48"
    "39 \<le> mmu_core_get_hi_va_bits ch" "mmu_core_get_hi_va_bits ch \<le> 48"
    "ID_AA64MMFR0_EL1 regs AND 0xF \<le> 5" "mmu_core_get_lo_enabled ch" "\<not> SCTLR_EL1 regs AND 1 = 1"
    "SCTLR_EL1 regs' = activate_sctlr ch (SCTLR_EL1 regs)"
    "TCR_EL1 regs' = activate_tcr ch (ID_AA64MMFR0_EL1 regs AND 0xF)"
    "TTBR0_EL1 regs' = tbl_ptr (mp (lo_mapping ch)) - physmap_offset (mp (lo_mapping ch))"
    "mmu_core_get_hi_enabled ch \<longrightarrow>
      TTBR1_EL1 regs' = tbl_ptr (mp (hi_mapping ch)) - physmap_offset (mp (hi_mapping ch))"
  using assms by (auto simp: mmu_core_activate_def Let_def rassert_eq_Inr split: if_splits)

text \<open>Property C19: when \<open>mmu_core_activate\<close> reports success, the registers hold what the handle
  describes. The MMU is on with the requested caches and alignment trap and every other control bit
  is kept; the translation base is the physical address of the low mapping's table, and of the high
  one's if that half is enabled; the size fields of the translation control register are 64 minus
  the address widths, its granule fields those of the handle, its walks are disabled exactly for a
  half that is not enabled, and its physical size is the one the core reports.\<close>
theorem mmu_core_activate_spec:
  assumes "mmu_core_activate mp ch regs = Inr (regs', MMU_ACTIVATE_OK)"
  shows "mmu_is_active regs' \<and> \<not> mmu_is_active regs \<and>
    (\<forall>n<64. bit (SCTLR_EL1 regs') n =
      (if n = 0 then True else if n = 1 then mmu_core_get_align_trap ch
       else if n = 2 then mmu_core_get_d_cache ch else if n = 12 then mmu_core_get_i_cache ch
       else bit (SCTLR_EL1 regs) n)) \<and>
    TTBR0_EL1 regs' = tbl_ptr (mp (lo_mapping ch)) - physmap_offset (mp (lo_mapping ch)) \<and>
    (mmu_core_get_hi_enabled ch \<longrightarrow>
      TTBR1_EL1 regs' = tbl_ptr (mp (hi_mapping ch)) - physmap_offset (mp (hi_mapping ch))) \<and>
    field (TCR_EL1 regs') 0 6 = 64 - ucast (mmu_core_get_lo_va_bits ch) \<and>
    field (TCR_EL1 regs') 16 6 = 64 - ucast (mmu_core_get_hi_va_bits ch) \<and>
    \<not> bit (TCR_EL1 regs') 7 \<and> bit (TCR_EL1 regs') 23 = (\<not> mmu_core_get_hi_enabled ch) \<and>
    field (TCR_EL1 regs') 14 2 = lo_tg ch \<and> field (TCR_EL1 regs') 30 2 = hi_tg ch \<and>
    field (TCR_EL1 regs') 32 3 = ID_AA64MMFR0_EL1 regs AND 0xF"
proof -
  note a = activateD [OF assms]
  have "\<not> bit (SCTLR_EL1 regs) 0" using a(7) by (auto simp: and_one_eq bit_0 mod_2_eq_odd)
  with a(6,8-11) is_active_bit activate_tcr_fields [OF a(1-5)] show ?thesis by (simp add: bit_sctlr)
qed

theorem mmu_core_activate_spec_witness:
  "\<exists>ch regs'. mmu_core_handle_new sample_mappings reset_regs zero_handle 0x1000 0x2000 True True True True False
       = Inr (reset_regs, ch, True) \<and>
     mmu_core_activate sample_mappings ch reset_regs = Inr (regs', MMU_ACTIVATE_OK) \<and>
     mmu_is_active regs' \<and> TTBR0_EL1 regs' = 0x11000 \<and> field (TCR_EL1 regs') 32 3 = 2"
proof -
  have "ok_and (mmu_core_handle_new sample_mappings reset_regs zero_handle 0x1000 0x2000 True True True
      True False) (\<lambda>(r, ch, ok). ok \<and> r = reset_regs \<and> lo_mapping ch = 0x1000 \<and>
      ok_and (mmu_core_activate sample_mappings ch reset_regs) (\<lambda>(_, a). a = MMU_ACTIVATE_OK))"
    by code_simp
  then obtain ch regs' where
    h: "mmu_core_handle_new sample_mappings reset_regs zero_handle 0x1000 0x2000 True True True True False
       = Inr (reset_regs, ch, True)" "lo_mapping ch = 0x1000"
    and a: "mmu_core_activate sample_mappings ch reset_regs = Inr (regs', MMU_ACTIVATE_OK)"
    by (auto simp: ok_and_iff)
  from mmu_core_activate_spec [OF a] h(2)
  have "mmu_is_active regs'" "TTBR0_EL1 regs' = 0x11000" "field (TCR_EL1 regs') 32 3 = 2"
    by (simp_all add: sample_mappings_def reset_regs_def)
  thus ?thesis using h(1) a by blast
qed

text \<open>The packing of a core's affinity into a 32-bit word and its unpacking are inverse to
  each other, in both directions.\<close>
theorem affinity_roundtrip:
  "arm_u32_as_cpu_affinity (arm_cpu_affinity_as_u32 aff) = aff \<and>
   arm_cpu_affinity_as_u32 (arm_u32_as_cpu_affinity x) = x"
proof
  have ff: "(0xFF :: u32) = mask 8" by (simp add: mask_eq_exp_minus_1)
  have f: "bit (arm_cpu_affinity_as_u32 a) n =
    (if n < 8 then bit (aff0 a) n else if n < 16 then bit (aff1 a) (n - 8)
     else if n < 24 then bit (aff2 a) (n - 16) else bit (aff3 a) (n - 24))" for a n
    using bit_imp_le_length [of "aff0 a" n] bit_imp_le_length [of "aff1 a" "n - 8"]
      bit_imp_le_length [of "aff2 a" "n - 16"] bit_imp_le_length [of "aff3 a" "n - 24"]
    unfolding arm_cpu_affinity_as_u32_def by (auto simp: bit_simps)
  have b: "(ucast (drop_bit s (arm_cpu_affinity_as_u32 aff) AND 0xFF) :: u8) = y"
    if "\<And>n. n < 8 \<Longrightarrow> bit (arm_cpu_affinity_as_u32 aff) (s + n) = bit y n" for s y
    unfolding ff using that by (intro bit_word_eqI) (auto simp: bit_simps)
  show "arm_u32_as_cpu_affinity (arm_cpu_affinity_as_u32 aff) = aff"
    unfolding arm_u32_as_cpu_affinity_def
    by (subst b [of 24 "aff3 aff"], simp add: f, subst b [of 16 "aff2 aff"], simp add: f,
        subst b [of 8 "aff1 aff"], simp add: f, subst b [of 0 "aff0 aff"], simp add: f, simp)
  show "arm_cpu_affinity_as_u32 (arm_u32_as_cpu_affinity x) = x"
    by (intro bit_word_eqI) (auto simp: f arm_u32_as_cpu_affinity_def ff bit_simps)
qed

end
