(* ===== verification/Boot_Map.thy ===== *)
theory Boot_Map
  imports Mmu_Spec Mmu_Core
begin

text \<open>
  The first address space: \<open>early_identity_mapping\<close> of \<open>src/kernel/mm/init/identity_mapping.c\<close>.  Two
  mappings take their tables from the early allocator, the low one maps the regions of the memory
  map to themselves, the high one to the kernel half; the reserved regions are unmapped from both;
  then the core's handle is built and the MMU is switched on.  What is shown about the pair of
  mappings rests on the specifications of the table code: an operation on one of them leaves the
  tables of the other alone.
\<close>

section \<open>The model\<close>

type_synonym boot_state = "early_state mmu_state"
type_synonym boot_mapping = "early_state mmu_mapping"

definition map_region :: "boot_mapping \<Rightarrow> boot_mapping \<Rightarrow> mem_region \<Rightarrow> boot_state \<Rightarrow> boot_state res" where
  "map_region lo hi r st =
     (case mr_type r of
        MEM_REGION_RESERVED \<Rightarrow> Inr st
      | _ \<Rightarrow>
          let cfg = (if mr_type r = MEM_REGION_DDR then MEM_CFG else DEVICE_CFG) in
          rbind (mmu_map (Some lo) (as_kpa (mr_start r)) (as_kpa (mr_start r)) (mr_size r) cfg st) (\<lambda>(st, mres).
          rassert (mres = MMU_MAP_OK) (Panic ''early_identity_mapping'')
            (rbind (mmu_map (Some hi) (as_kva (mr_start r)) (as_kpa (mr_start r)) (mr_size r) cfg st) (\<lambda>(st, mres).
             rassert (mres = MMU_MAP_OK) (Panic ''early_identity_mapping'') (Inr st)))))"

definition unmap_region :: "boot_mapping \<Rightarrow> boot_mapping \<Rightarrow> mem_region \<Rightarrow> boot_state \<Rightarrow> boot_state res" where
  "unmap_region lo hi r st =
     (if mr_type r \<noteq> MEM_REGION_RESERVED then Inr st
      else
        rbind (mmu_unmap (Some lo) (as_kpa (mr_start r)) (mr_size r) st) (\<lambda>(st, ures).
        rassert (ures = MMU_UNMAP_OK) (Panic ''early_identity_mapping'')
          (rbind (mmu_unmap (Some hi) (as_kva (mr_start r)) (mr_size r) st) (\<lambda>(st, ures).
           rassert (ures = MMU_UNMAP_OK) (Panic ''early_identity_mapping'') (Inr st)))))"

definition identity_tables ::
  "mm_info \<Rightarrow> u64 \<Rightarrow> mem_region list \<Rightarrow> boot_state \<Rightarrow> (boot_state \<times> boot_mapping \<times> boot_mapping) res" where
  "identity_tables info tag regions st =
     rbind (mmu_mapping_new MMU_LO MMU_GRANULARITY_4KB 48 0 (im_alloc info tag) im_free st) (\<lambda>(st, lo).
     rbind (mmu_mapping_new MMU_HI MMU_GRANULARITY_4KB 48 0 (im_alloc info tag) im_free st) (\<lambda>(st, hi).
     rbind (rfold (map_region lo hi) regions st) (\<lambda>st.
     rbind (rfold (unmap_region lo hi) regions st) (\<lambda>st.
     Inr (st, lo, hi)))))"

text \<open>\<open>lo_obj\<close> and \<open>hi_obj\<close> are the addresses of the two mapping objects.\<close>

definition early_identity_mapping ::
  "mm_info \<Rightarrow> u64 \<Rightarrow> u64 \<Rightarrow> u64 \<Rightarrow> mem_region list \<Rightarrow> mmu_core_handle \<Rightarrow> sysregs \<Rightarrow> boot_state \<Rightarrow>
   (boot_state \<times> boot_mapping \<times> boot_mapping \<times> mmu_core_handle \<times> sysregs) res" where
  "early_identity_mapping info tag lo_obj hi_obj regions ch regs st =
     rbind (identity_tables info tag regions st) (\<lambda>(st, lo, hi).
     let mp = (\<lambda>a. if a = lo_obj then lo else hi) in
     rbind (mmu_core_handle_new mp regs ch lo_obj hi_obj True True True True False) (\<lambda>(regs, ch, result).
     rassert result (Panic ''early_identity_mapping'')
       (rbind (mmu_core_activate mp ch regs) (\<lambda>(regs, cres).
        rassert (cres = MMU_ACTIVATE_OK) (Panic ''early_identity_mapping'')
          (Inr (st, lo, hi, ch, regs))))))"

section \<open>Two mappings over one store\<close>

lemma tables_ok_other:
  assumes ok: "tables_ok m T lv" and same: "\<And>t k. lv t = Some k \<Longrightarrow> T' t = T t"
  shows "tables_ok m T' lv" and "lv t = Some l \<Longrightarrow> walk_from m T' v l t r = walk_from m T v l t r"
proof -
  have d: "desc T' t j = desc T t j" if "lv t = Some k" for t j k
    using same [OF that] by (simp add: desc_def)
  have e: "edge m T' lv t j c = edge m T lv t j c" for t j c
    by (cases "lv t") (auto simp: edge_def d)
  show ok': "tables_ok m T' lv"
  proof (rule tables_okI)
    show "lv (tbl_ptr m) = Some 0" by (rule tables_okD(1) [OF ok])
    show "l \<le> max_level (gran m) \<and> T' t \<noteq> None" if "lv t = Some l" for t l
      using tables_okD(2,3) [OF ok that] same [OF that] by simp
    show "lv c = Some (Suc l)" if "lv t = Some l" "edge m T' lv t i c" for t l i c
      using tables_okD(4) [OF ok that(1)] that(2) e by blast
    show "t = t' \<and> i = i'" if "edge m T' lv t i c" "edge m T' lv t' i' c" for t i c t' i'
      using tables_okD(5) [OF ok] that e by blast
    show "leaf_ok m l (desc T' t i)" if "lv t = Some l" "i < nents m" for t l i
      using tables_okD(6) [OF ok that] d [OF that(1)] by simp
  qed
  show "lv t = Some l \<Longrightarrow> walk_from m T' v l t r = walk_from m T v l t r"
  proof (induction "maxl m - l" arbitrary: t l rule: less_induct)
    case less
    let ?dc = "desc T t (idx m v l)"
    show ?case
    proof (cases "is_tbl m l ?dc")
      case True
      hence "edge m T lv t (idx m v l) (child m ?dc)" using less.prems by (auto simp: edge_def idx_less)
      from less.hyps [OF _ tables_okD(4) [OF ok less.prems this]] True show ?thesis
        by (simp add: walk_step [OF ok less.prems] walk_step [OF ok' less.prems] d [OF less.prems]
            is_tbl_def diff_less_mono2)
    next
      case False
      thus ?thesis
        by (simp add: walk_step [OF ok less.prems] walk_step [OF ok' less.prems] d [OF less.prems])
    qed
  qed
qed

definition pair_inv ::
  "nat \<Rightarrow> boot_mapping \<Rightarrow> boot_mapping \<Rightarrow> boot_state \<Rightarrow> (u64 \<Rightarrow> nat option) \<Rightarrow> (u64 \<Rightarrow> nat option) \<Rightarrow> bool" where
  "pair_inv b lo hi st lvl lvh \<longleftrightarrow>
     mmu_inv (im_repr b) lo st lvl \<and> mmu_inv (im_repr b) hi st lvh \<and> dom lvl \<inter> dom lvh = {}"

lemma pair_sym: "pair_inv b lo hi st lvl lvh = pair_inv b hi lo st lvh lvl"
  by (auto simp: pair_inv_def)

text \<open>A step on the first mapping that keeps the tables of others.\<close>

lemma pair_step:
  assumes p: "pair_inv b m n st lv lw" and i: "mmu_inv (im_repr b) m st' lv'"
    and f: "\<And>t. lv t = None \<Longrightarrow> tbls st t \<noteq> None \<Longrightarrow> tbls st' t = tbls st t \<and> lv' t = None"
  shows "pair_inv b m n st' lv' lw"
    and "walk_from n (tbls st') v 0 (tbl_ptr n) r = walk_from n (tbls st) v 0 (tbl_ptr n) r"
proof -
  have n: "tables_ok n (tbls st) lw" and d: "dom lv \<inter> dom lw = {}"
    using p by (auto simp: pair_inv_def mmu_inv_def)
  have k: "tbls st' t = tbls st t \<and> lv' t = None" if "lw t = Some k" for t k
  proof -
    have "lv t = None" using d that by (cases "lv t") (auto simp: disjoint_iff)
    thus ?thesis using f [of t] tables_okD(3) [OF n that] by blast
  qed
  have s: "tbls st' t = tbls st t" if "lw t = Some k" for t k using k [OF that] by simp
  have "dom lv' \<inter> dom lw = {}" using k by (fastforce simp: dom_def)
  moreover have "mmu_inv (im_repr b) n st' lw"
    using i tables_ok_other(1) [OF n s] by (simp add: mmu_inv_def)
  ultimately show "pair_inv b m n st' lv' lw" using i by (simp add: pair_inv_def)
  show "walk_from n (tbls st') v 0 (tbl_ptr n) r = walk_from n (tbls st) v 0 (tbl_ptr n) r"
    by (rule tables_ok_other(2) [OF n s tables_okD(1) [OF n]])
qed

section \<open>The pair of mappings as one translation\<close>

lemma im_half:
  "va_half (im_mapping info tag MMU_LO t) v \<longleftrightarrow> unat v < 2 ^ 47"
  "va_half (im_mapping info tag MMU_HI t) v \<longleftrightarrow> unat v div 2 ^ 47 = 2 ^ 17 - 1"
  by (simp_all add: va_half_def im_mapping_def div_eq_0_iff)

lemma kernel_half:
  assumes "unat x < 2 ^ 47"
  shows "as_kpa x = x" and "unat (as_kva x) = unat KERNEL_BASE + unat x" and "as_kva x = x + KERNEL_BASE"
proof -
  have k: "unat KERNEL_BASE = 0xFFFF800000000000" by (simp add: KERNEL_BASE_def KERNEL_ADDR_BITS_def)
  have n: "\<not> is_kva x" using assms k by (simp add: is_kva_def word_le_nat_alt)
  thus "as_kpa x = x" by (simp add: as_kpa_def)
  have b: "\<not> bit x i" if "47 \<le> i" for i
    using assms that high_bits_zero [of 47 x] by (simp add: div_eq_0_iff)
  have "x AND KERNEL_BASE = 0" unfolding KERNEL_BASE_mask and_not_mask_eq_0 using b by blast
  thus "as_kva x = x + KERNEL_BASE"
    using n by (simp add: as_kva_def kpa_to_kva_def disjunctive_add_eq_or)
  moreover have "unat x + unat KERNEL_BASE < 2 ^ 64" using assms k by simp
  ultimately show "unat (as_kva x) = unat KERNEL_BASE + unat x"
    by (simp add: unat_word_ariths(1))
qed

lemmas kernel_low = kernel_half(1)

lemma hi_range:
  assumes "unat s + unat n \<le> 2 ^ 47" and "unat x < 2 ^ 47"
  shows "unat (as_kva s) \<le> unat (as_kva x) \<and> unat (as_kva x) < unat (as_kva s) + unat n \<longleftrightarrow>
    unat s \<le> unat x \<and> unat x < unat s + unat n"
proof (cases "unat n = 0")
  case False
  hence "unat s < 2 ^ 47" using assms(1) by simp
  thus ?thesis using kernel_half(2) assms(2) by simp
qed auto

type_synonym translation = "u64 \<Rightarrow> mmu_walk_result \<Rightarrow> mmu_walk_result"

definition boot_view ::
  "nat \<Rightarrow> boot_mapping \<Rightarrow> boot_mapping \<Rightarrow> boot_state \<Rightarrow> translation \<Rightarrow> bool" where
  "boot_view b lo hi st f \<longleftrightarrow>
     (\<exists>lvl lvh. pair_inv b lo hi st lvl lvh) \<and>
     (\<forall>x r. unat x < 2 ^ 47 \<longrightarrow>
        mmu_walk_page (Some lo) x st r = Inr (f x r) \<and> mmu_walk_page (Some hi) (as_kva x) st r = Inr (f x r))"

definition in_region :: "mem_region \<Rightarrow> u64 \<Rightarrow> bool" where
  "in_region q x \<longleftrightarrow> unat (mr_start q) \<le> unat x \<and> unat x < unat (mr_start q) + unat (mr_size q)"

definition region_cfg :: "mem_region \<Rightarrow> mmu_pg_cfg" where
  "region_cfg q = (if mr_type q = MEM_REGION_DDR then MEM_CFG else DEVICE_CFG)"

definition region_maps :: "mem_region \<Rightarrow> translation \<Rightarrow> translation" where
  "region_maps q f x r =
     (if mr_type q \<noteq> MEM_REGION_RESERVED \<and> in_region q x
      then r\<lparr>walk_result := MMU_WALK_PAGE_MAPPED, walk_cfg := region_cfg q, walk_pa := x\<rparr> else f x r)"

definition region_unmaps :: "mem_region \<Rightarrow> translation \<Rightarrow> translation" where
  "region_unmaps q f x r =
     (if mr_type q = MEM_REGION_RESERVED \<and> in_region q x
      then r\<lparr>walk_result := MMU_WALK_PAGE_UNMAPPED\<rparr> else f x r)"

text \<open>One operation on one of the two mappings: what it does to the mapping it is applied to, and
  nothing to the other.\<close>

lemma pair_map:
  assumes p: "pair_inv b (im_mapping info tag g t) n st lv lw" and c: "cfg_fits cfg"
    and "unat pa + unat sz \<le> 2 ^ 48"
    and run: "mmu_map (Some (im_mapping info tag g t)) va pa sz cfg st = Inr (st', MMU_MAP_OK)"
  shows "(\<exists>lv'. pair_inv b (im_mapping info tag g t) n st' lv' lw) \<and>
    (\<forall>v r. va_half (im_mapping info tag g t) v \<longrightarrow>
      mmu_walk_page (Some (im_mapping info tag g t)) v st' r =
      (if unat va \<le> unat v \<and> unat v < unat va + unat sz then Inr (mapped_to cfg pa va v r)
       else mmu_walk_page (Some (im_mapping info tag g t)) v st r)) \<and>
    (\<forall>v r. mmu_walk_page (Some n) v st' r = mmu_walk_page (Some n) v st r)"
proof -
  let ?m = "im_mapping info tag g t"
  have i: "mmu_inv (im_repr b) ?m st lv" using p by (simp add: pair_inv_def)
  obtain lv' where i': "mmu_inv (im_repr b) ?m st' lv'"
    and r: "remaps_range ?m st lv st' lv' (unat va) (unat sz) (mapped_to cfg pa va)"
    using mmu_map_remaps [OF im_table.table_alloc_axioms i im_bits_ok c assms(3) run] by blast
  have f: "tbls st' x = tbls st x \<and> lv' x = None" if "lv x = None" "tbls st x \<noteq> None" for x
    using r that by (simp add: remaps_range_def)
  show ?thesis using pair_step [OF p i' f] r by (auto simp: remaps_range_def mmu_walk_page_eq)
qed

lemma pair_unmap:
  assumes p: "pair_inv b (im_mapping info tag g t) n st lv lw"
    and range: "is_in_range (im_mapping info tag g t) va sz"
    and mp: "\<forall>v r. unat va \<le> unat v \<and> unat v < unat va + unat sz \<longrightarrow>
      (\<exists>r'. mmu_walk_page (Some (im_mapping info tag g t)) v st r = Inr r' \<and>
        walk_result r' = MMU_WALK_PAGE_MAPPED)"
    and run: "mmu_unmap (Some (im_mapping info tag g t)) va sz st = Inr (st', MMU_UNMAP_OK)"
  shows "(\<exists>lv'. pair_inv b (im_mapping info tag g t) n st' lv' lw) \<and>
    (\<forall>v r. va_half (im_mapping info tag g t) v \<longrightarrow>
      mmu_walk_page (Some (im_mapping info tag g t)) v st' r =
      (if unat va \<le> unat v \<and> unat v < unat va + unat sz then Inr (unmapped_res v r)
       else mmu_walk_page (Some (im_mapping info tag g t)) v st r)) \<and>
    (\<forall>v r. mmu_walk_page (Some n) v st' r = mmu_walk_page (Some n) v st r)"
proof -
  let ?m = "im_mapping info tag g t"
  have i: "mmu_inv (im_repr b) ?m st lv" using p by (simp add: pair_inv_def)
  obtain lv' where i': "mmu_inv (im_repr b) ?m st' lv'"
    and r: "remaps_range ?m st lv st' lv' (unat va) (unat sz) unmapped_res"
    using mmu_unmap_remaps [OF im_table.table_alloc_axioms i im_bits_ok range mp run] by blast
  have f: "tbls st' x = tbls st x \<and> lv' x = None" if "lv x = None" "tbls st x \<noteq> None" for x
    using r that by (simp add: remaps_range_def)
  show ?thesis using pair_step [OF p i' f] r by (auto simp: remaps_range_def mmu_walk_page_eq)
qed

text \<open>The steps of the two passes.\<close>

lemma map_region_view:
  assumes v: "boot_view b (im_mapping info tag MMU_LO t) (im_mapping info tag MMU_HI u) st f"
    and q: "unat (mr_start q) + unat (mr_size q) \<le> 2 ^ 47" "mr_size q \<noteq> 0"
    and run: "map_region (im_mapping info tag MMU_LO t) (im_mapping info tag MMU_HI u) q st = Inr st'"
  shows "boot_view b (im_mapping info tag MMU_LO t) (im_mapping info tag MMU_HI u) st' (region_maps q f)"
proof (cases "mr_type q = MEM_REGION_RESERVED")
  case True
  hence "st' = st" "region_maps q f = f" using run by (auto simp: map_region_def region_maps_def fun_eq_iff)
  thus ?thesis using v by simp
next
  case False
  let ?lo = "im_mapping info tag MMU_LO t" and ?hi = "im_mapping info tag MMU_HI u"
  have s: "unat (mr_start q) < 2 ^ 47" using q by (simp add: unat_eq_zero [symmetric])
  obtain s1 where
    r1: "mmu_map (Some ?lo) (mr_start q) (mr_start q) (mr_size q) (region_cfg q) st = Inr (s1, MMU_MAP_OK)"
    and r2: "mmu_map (Some ?hi) (as_kva (mr_start q)) (mr_start q) (mr_size q) (region_cfg q) s1 =
      Inr (st', MMU_MAP_OK)"
    using run False
    by (cases "mr_type q")
      (auto simp: map_region_def rbind_eq_Inr rassert_eq_Inr kernel_low [OF s] region_cfg_def Let_def)
  have c: "cfg_fits (region_cfg q)" using cfgs_fit by (simp add: region_cfg_def)
  have pa: "unat (mr_start q) + unat (mr_size q) \<le> 2 ^ 48" using q by simp
  obtain lvl lvh where p: "pair_inv b ?lo ?hi st lvl lvh" using v by (auto simp: boot_view_def)
  note m1 = pair_map [OF p c pa r1]
  then obtain lvl' where "pair_inv b ?hi ?lo s1 lvh lvl'" by (auto simp: pair_sym)
  note m2 = pair_map [OF this c pa r2]
  have "\<exists>a d. pair_inv b ?lo ?hi st' a d" using m2 by (auto simp: pair_sym)
  moreover have "mmu_walk_page (Some ?lo) x st' r = Inr (region_maps q f x r) \<and>
      mmu_walk_page (Some ?hi) (as_kva x) st' r = Inr (region_maps q f x r)" if x: "unat x < 2 ^ 47" for x r
  proof -
    have hi: "va_half ?hi (as_kva x)"
      using kernel_half(2) [OF x] x by (simp add: im_half KERNEL_BASE_def KERNEL_ADDR_BITS_def)
    have "as_kva x - as_kva (mr_start q) = x - mr_start q"
      using kernel_half(3) [OF x] kernel_half(3) [OF s] by simp
    hence "mapped_to (region_cfg q) (mr_start q) (as_kva (mr_start q)) (as_kva x) r =
        mapped_to (region_cfg q) (mr_start q) (mr_start q) x r" by (simp add: mapped_to_def)
    thus ?thesis
      using m1 m2 hi x v False hi_range [OF q(1) x]
      by (simp add: boot_view_def region_maps_def in_region_def im_half mapped_to_def)
  qed
  ultimately show ?thesis by (simp add: boot_view_def)
qed

lemma unmap_region_view:
  assumes v: "boot_view b (im_mapping info tag MMU_LO t) (im_mapping info tag MMU_HI u) st f"
    and q: "unat (mr_start q) + unat (mr_size q) \<le> 2 ^ 47" "mr_size q \<noteq> 0"
    and mp: "\<And>x r. mr_type q = MEM_REGION_RESERVED \<Longrightarrow> in_region q x \<Longrightarrow>
      walk_result (f x r) = MMU_WALK_PAGE_MAPPED"
    and run: "unmap_region (im_mapping info tag MMU_LO t) (im_mapping info tag MMU_HI u) q st = Inr st'"
  shows "boot_view b (im_mapping info tag MMU_LO t) (im_mapping info tag MMU_HI u) st' (region_unmaps q f)"
proof (cases "mr_type q = MEM_REGION_RESERVED")
  case False
  hence "st' = st" "region_unmaps q f = f" using run by (auto simp: unmap_region_def region_unmaps_def fun_eq_iff)
  thus ?thesis using v by simp
next
  case True
  let ?lo = "im_mapping info tag MMU_LO t" and ?hi = "im_mapping info tag MMU_HI u"
  have s: "unat (mr_start q) < 2 ^ 47" using q by (simp add: unat_eq_zero [symmetric])
  have k: "unat KERNEL_BASE = 0xFFFF800000000000" by (simp add: KERNEL_BASE_def KERNEL_ADDR_BITS_def)
  obtain s1 where
    r1: "mmu_unmap (Some ?lo) (mr_start q) (mr_size q) st = Inr (s1, MMU_UNMAP_OK)"
    and r2: "mmu_unmap (Some ?hi) (as_kva (mr_start q)) (mr_size q) s1 = Inr (st', MMU_UNMAP_OK)"
    using run True by (auto simp: unmap_region_def rbind_eq_Inr rassert_eq_Inr kernel_low [OF s])
  obtain lvl lvh where p: "pair_inv b ?lo ?hi st lvl lvh" using v by (auto simp: boot_view_def)
  have z: "0 < unat (mr_size q)" using q(2) by (simp add: unat_gt_0)
  have in1: "is_in_range ?lo (mr_start q) (mr_size q)"
    using q z s unat_range_end [of "mr_size q" "mr_start q"]
    by (simp add: is_in_range_iff [OF im_bits_ok] im_half)
  have in2: "is_in_range ?hi (as_kva (mr_start q)) (mr_size q)"
    using q z kernel_half(2) [OF s] k unat_range_end [of "mr_size q" "as_kva (mr_start q)"]
    by (simp add: is_in_range_iff [OF im_bits_ok] im_half div_nat_eqI)
  have lo: "\<forall>v r. unat (mr_start q) \<le> unat v \<and> unat v < unat (mr_start q) + unat (mr_size q) \<longrightarrow>
      (\<exists>r'. mmu_walk_page (Some ?lo) v st r = Inr r' \<and> walk_result r' = MMU_WALK_PAGE_MAPPED)"
    using mp [OF True] v q(1) by (auto simp: boot_view_def in_region_def)
  note m1 = pair_unmap [OF p in1 lo r1]
  then obtain lvl' where p1: "pair_inv b ?hi ?lo s1 lvh lvl'" by (auto simp: pair_sym)
  have "\<exists>r'. mmu_walk_page (Some ?hi) w s1 r = Inr r' \<and> walk_result r' = MMU_WALK_PAGE_MAPPED"
    if w: "unat (as_kva (mr_start q)) \<le> unat w" "unat w < unat (as_kva (mr_start q)) + unat (mr_size q)" for w r
  proof -
    have d: "unat (w - KERNEL_BASE) = unat w - unat KERNEL_BASE"
      using w(1) kernel_half(2) [OF s] by (intro unat_sub) (simp add: word_le_nat_alt)
    have x: "unat (w - KERNEL_BASE) < 2 ^ 47" "in_region q (w - KERNEL_BASE)"
      using w kernel_half(2) [OF s] q d by (auto simp: in_region_def)
    have "as_kva (w - KERNEL_BASE) = w" using kernel_half(3) [OF x(1)] by simp
    thus ?thesis using v mp [OF True x(2)] x(1) m1 unfolding boot_view_def by metis
  qed
  hence hi: "\<forall>v r. unat (as_kva (mr_start q)) \<le> unat v \<and>
      unat v < unat (as_kva (mr_start q)) + unat (mr_size q) \<longrightarrow>
      (\<exists>r'. mmu_walk_page (Some ?hi) v s1 r = Inr r' \<and> walk_result r' = MMU_WALK_PAGE_MAPPED)" by blast
  note m2 = pair_unmap [OF p1 in2 hi r2]
  have "\<exists>a d. pair_inv b ?lo ?hi st' a d" using m2 by (auto simp: pair_sym)
  moreover have "mmu_walk_page (Some ?lo) x st' r = Inr (region_unmaps q f x r) \<and>
      mmu_walk_page (Some ?hi) (as_kva x) st' r = Inr (region_unmaps q f x r)" if x: "unat x < 2 ^ 47" for x r
  proof -
    have "va_half ?hi (as_kva x)"
      using kernel_half(2) [OF x] x by (simp add: im_half KERNEL_BASE_def KERNEL_ADDR_BITS_def)
    thus ?thesis
      using m1 m2 x v True hi_range [OF q(1) x]
      by (simp add: boot_view_def region_unmaps_def in_region_def im_half unmapped_res_def)
  qed
  ultimately show ?thesis by (simp add: boot_view_def)
qed

section \<open>The two passes over the memory map\<close>

definition region_of :: "mem_region list \<Rightarrow> u64 \<Rightarrow> mem_region option" where
  "region_of regions x =
     find (\<lambda>q. mr_type q \<noteq> MEM_REGION_RESERVED \<and> in_region q x) (rev regions)"

definition is_reserved :: "mem_region list \<Rightarrow> u64 \<Rightarrow> bool" where
  "is_reserved regions x \<longleftrightarrow> (\<exists>q\<in>set regions. mr_type q = MEM_REGION_RESERVED \<and> in_region q x)"

definition boot_translation :: "mem_region list \<Rightarrow> translation" where
  "boot_translation regions x r =
     (case region_of regions x of
        Some q \<Rightarrow>
          if is_reserved regions x then r\<lparr>walk_result := MMU_WALK_PAGE_UNMAPPED\<rparr>
          else r\<lparr>walk_result := MMU_WALK_PAGE_MAPPED, walk_cfg := region_cfg q, walk_pa := x\<rparr>
      | None \<Rightarrow> r\<lparr>walk_result := MMU_WALK_PAGE_UNMAPPED\<rparr>)"

definition boot_regions_ok :: "mem_region list \<Rightarrow> bool" where
  "boot_regions_ok regions \<longleftrightarrow>
     (\<forall>q\<in>set regions. unat (mr_start q) + unat (mr_size q) \<le> 2 ^ 47 \<and> mr_size q \<noteq> 0) \<and>
     (\<forall>x. is_reserved regions x \<longrightarrow> region_of regions x \<noteq> None) \<and>
     sorted_wrt (\<lambda>p q. mr_type p = MEM_REGION_RESERVED \<and> mr_type q = MEM_REGION_RESERVED \<longrightarrow>
       (\<forall>x. \<not> (in_region p x \<and> in_region q x))) regions"

lemma fold_region_maps:
  "fold region_maps regions f x r =
     (case region_of regions x of
        Some q \<Rightarrow> r\<lparr>walk_result := MMU_WALK_PAGE_MAPPED, walk_cfg := region_cfg q, walk_pa := x\<rparr>
      | None \<Rightarrow> f x r)"
  by (induction regions rule: rev_induct) (auto simp: region_of_def region_maps_def)

lemma fold_region_unmaps:
  "fold region_unmaps regions f x r =
     (if is_reserved regions x then r\<lparr>walk_result := MMU_WALK_PAGE_UNMAPPED\<rparr> else f x r)"
  by (induction regions rule: rev_induct) (auto simp: is_reserved_def region_unmaps_def)

lemma map_pass:
  assumes "boot_view b (im_mapping info tag MMU_LO t) (im_mapping info tag MMU_HI u) st f"
    and "rfold (map_region (im_mapping info tag MMU_LO t) (im_mapping info tag MMU_HI u)) regions st = Inr st'"
    and "\<forall>q\<in>set regions. unat (mr_start q) + unat (mr_size q) \<le> 2 ^ 47 \<and> mr_size q \<noteq> 0"
  shows "boot_view b (im_mapping info tag MMU_LO t) (im_mapping info tag MMU_HI u) st'
    (fold region_maps regions f)"
  using assms
proof (induction regions arbitrary: st f)
  case (Cons q regions)
  then obtain s1 where
    "map_region (im_mapping info tag MMU_LO t) (im_mapping info tag MMU_HI u) q st = Inr s1"
    "rfold (map_region (im_mapping info tag MMU_LO t) (im_mapping info tag MMU_HI u)) regions s1 = Inr st'"
    by (auto simp: rbind_eq_Inr)
  with Cons.IH [OF map_region_view [OF Cons.prems(1)]] Cons.prems(3) show ?case by simp
qed simp

lemma unmap_pass:
  assumes "boot_view b (im_mapping info tag MMU_LO t) (im_mapping info tag MMU_HI u) st f"
    and "rfold (unmap_region (im_mapping info tag MMU_LO t) (im_mapping info tag MMU_HI u)) regions st = Inr st'"
    and "\<forall>q\<in>set regions. unat (mr_start q) + unat (mr_size q) \<le> 2 ^ 47 \<and> mr_size q \<noteq> 0"
    and "sorted_wrt (\<lambda>p q. mr_type p = MEM_REGION_RESERVED \<and> mr_type q = MEM_REGION_RESERVED \<longrightarrow>
       (\<forall>x. \<not> (in_region p x \<and> in_region q x))) regions"
    and "\<And>x r. is_reserved regions x \<Longrightarrow> walk_result (f x r) = MMU_WALK_PAGE_MAPPED"
  shows "boot_view b (im_mapping info tag MMU_LO t) (im_mapping info tag MMU_HI u) st'
    (fold region_unmaps regions f)"
  using assms
proof (induction regions arbitrary: st f)
  case (Cons q regions)
  obtain s1 where
    s1: "unmap_region (im_mapping info tag MMU_LO t) (im_mapping info tag MMU_HI u) q st = Inr s1"
    and r: "rfold (unmap_region (im_mapping info tag MMU_LO t) (im_mapping info tag MMU_HI u)) regions s1 =
      Inr st'"
    using Cons.prems(2) by (auto simp: rbind_eq_Inr)
  have "walk_result (f x r) = MMU_WALK_PAGE_MAPPED"
    if "mr_type q = MEM_REGION_RESERVED" "in_region q x" for x r
    using Cons.prems(5) that by (simp add: is_reserved_def)
  hence v: "boot_view b (im_mapping info tag MMU_LO t) (im_mapping info tag MMU_HI u) s1 (region_unmaps q f)"
    using unmap_region_view [OF Cons.prems(1) _ _ _ s1] Cons.prems(3) by simp
  have "walk_result (region_unmaps q f x r) = MMU_WALK_PAGE_MAPPED" if "is_reserved regions x" for x r
    using that Cons.prems(4,5) by (auto simp: is_reserved_def region_unmaps_def)
  thus ?case using Cons.IH [OF v r] Cons.prems(3,4) by simp
qed simp

definition nothing_mapped :: translation where
  "nothing_mapped x r = r\<lparr>walk_result := MMU_WALK_PAGE_UNMAPPED\<rparr>"

lemma im_new_eq:
  assumes "mmu_mapping_new g MMU_GRANULARITY_4KB 48 0 (im_alloc info tag) im_free s = Inr (s', m)"
  shows "m = im_mapping info tag g (tbl_ptr m)"
    and "im_alloc info tag (gran_bytes MMU_GRANULARITY_4KB) (alst s) = Inr (alst s', tbl_ptr m)"
  using assms by (auto simp: mmu_mapping_new_def im_mapping_def rbind_eq_Inr)

lemma new_pair_view:
  assumes inv: "ek_inv (alst st) b" and none: "tbls st = Map.empty"
    and n1: "mmu_mapping_new MMU_LO MMU_GRANULARITY_4KB 48 0 (im_alloc info tag) im_free st = Inr (s1, lo)"
    and n2: "mmu_mapping_new MMU_HI MMU_GRANULARITY_4KB 48 0 (im_alloc info tag) im_free s1 = Inr (s2, hi)"
  shows "boot_view b lo hi s2 nothing_mapped" and "unat (tbl_ptr lo) < 2 ^ 47" "unat (tbl_ptr hi) < 2 ^ 47"
proof -
  have i0: "im_repr b (alst st) {}" using inv by (simp add: im_repr_def)
  note c1 = new_mapping_ok [OF im.allocator_axioms i0 _ n1]
  have c1: "mmu_inv (im_repr b) lo s1 [tbl_ptr lo \<mapsto> 0]" "\<And>v. unmapped lo (tbls s1) v"
    using c1(1,4) none by simp_all
  then obtain A where A: "im_repr b (alst s1) A" "dom (tbls s1) \<subseteq> A" by (auto simp: mmu_inv_def)
  note c2 = new_mapping_ok [OF im.allocator_axioms A n2]
  show "unat (tbl_ptr lo) < 2 ^ 47" "unat (tbl_ptr hi) < 2 ^ 47"
    using im_alloc_low inv A(1) im_new_eq(2) [OF n1] im_new_eq(2) [OF n2] by (auto simp: im_repr_def)
  have ne: "tbl_ptr hi \<noteq> tbl_ptr lo" using c1(1) c2(2) tables_okD(1,3) by (fastforce simp: mmu_inv_def)
  have keep: "tbls s2 x = tbls s1 x" if "[tbl_ptr lo \<mapsto> 0 :: nat] x = Some k" for x k
    using that ne by (simp add: c2(3) split: if_splits)
  have T: "tables_ok lo (tbls s1) [tbl_ptr lo \<mapsto> 0]" using c1(1) by (simp add: mmu_inv_def)
  have "mmu_inv (im_repr b) lo s2 [tbl_ptr lo \<mapsto> 0]"
    using tables_ok_other(1) [OF T keep] c2(1) by (simp add: mmu_inv_def)
  hence "pair_inv b lo hi s2 [tbl_ptr lo \<mapsto> 0] [tbl_ptr hi \<mapsto> 0]" using c2(1) ne by (simp add: pair_inv_def)
  moreover have "unmapped lo (tbls s2) v" for v
    using c1(2) [of v] tables_ok_other(2) [OF T keep tables_okD(1) [OF T]] by (simp add: unmapped_def)
  ultimately show "boot_view b lo hi s2 nothing_mapped"
    using c2(4) unfolding boot_view_def by (auto simp: unmapped_def mmu_walk_page_eq nothing_mapped_def)
qed

lemma passes_eq_translation:
  "fold region_unmaps regions (fold region_maps regions nothing_mapped) = boot_translation regions"
  by (auto simp: fun_eq_iff fold_region_unmaps fold_region_maps boot_translation_def nothing_mapped_def
      split: option.split)

lemma identity_tables_view:
  assumes inv: "ek_inv (alst st) b" and none: "tbls st = Map.empty" and ok: "boot_regions_ok regions"
    and run: "identity_tables info tag regions st = Inr (st', lo, hi)"
  shows "boot_view b lo hi st' (boot_translation regions)"
    and "\<exists>t u. lo = im_mapping info tag MMU_LO t \<and> hi = im_mapping info tag MMU_HI u \<and>
      unat t < 2 ^ 47 \<and> unat u < 2 ^ 47"
proof -
  obtain s1 s2 s3 where
    n1: "mmu_mapping_new MMU_LO MMU_GRANULARITY_4KB 48 0 (im_alloc info tag) im_free st = Inr (s1, lo)"
    and n2: "mmu_mapping_new MMU_HI MMU_GRANULARITY_4KB 48 0 (im_alloc info tag) im_free s1 = Inr (s2, hi)"
    and p1: "rfold (map_region lo hi) regions s2 = Inr s3"
    and p2: "rfold (unmap_region lo hi) regions s3 = Inr st'"
    using run by (auto simp: identity_tables_def rbind_eq_Inr)
  note n = new_pair_view [OF inv none n1 n2]
  define t u where tu: "t = tbl_ptr lo" "u = tbl_ptr hi"
  have lo: "lo = im_mapping info tag MMU_LO t" and hi: "hi = im_mapping info tag MMU_HI u"
    using im_new_eq(1) [OF n1] im_new_eq(1) [OF n2] by (simp_all add: tu)
  thus "\<exists>t u. lo = im_mapping info tag MMU_LO t \<and> hi = im_mapping info tag MMU_HI u \<and>
      unat t < 2 ^ 47 \<and> unat u < 2 ^ 47" using n(2,3) by (auto simp: tu)
  have v: "boot_view b (im_mapping info tag MMU_LO t) (im_mapping info tag MMU_HI u) s3
      (fold region_maps regions nothing_mapped)"
    using map_pass [OF n(1) [unfolded lo hi] p1 [unfolded lo hi]] ok by (simp add: boot_regions_ok_def)
  have "boot_view b lo hi st' (fold region_unmaps regions (fold region_maps regions nothing_mapped))"
    unfolding lo hi
  proof (rule unmap_pass [OF v p2 [unfolded lo hi]])
    show "walk_result (fold region_maps regions nothing_mapped x r) = MMU_WALK_PAGE_MAPPED"
      if "is_reserved regions x" for x r
      using that ok by (auto simp: fold_region_maps boot_regions_ok_def split: option.split)
  qed (use ok in \<open>simp_all add: boot_regions_ok_def\<close>)
  thus "boot_view b lo hi st' (boot_translation regions)" unfolding passes_eq_translation .
qed

text \<open>The regions of the board meet the conditions, and what they give.\<close>

lemma in_region_eq: "in_region \<lparr>mr_tag = t, mr_start = a, mr_size = n, mr_type = ty\<rparr> x \<longleftrightarrow>
    unat a \<le> unat x \<and> unat x < unat a + unat n"
  by (simp add: in_region_def)

lemma board_regions_ok: "boot_regions_ok (MEM_REGIONS lit)"
  by (auto simp: boot_regions_ok_def MEM_REGIONS_def is_reserved_def region_of_def in_region_eq)

lemma board_translation:
  "boot_translation (MEM_REGIONS lit) x r =
     (if unat x < 0x40000000
      then r\<lparr>walk_result := MMU_WALK_PAGE_MAPPED, walk_cfg := DEVICE_CFG, walk_pa := x\<rparr>
      else if unat x < 0x140000000 \<and> \<not> (0x56000000 \<le> unat x \<and> unat x < 0x58000000)
      then r\<lparr>walk_result := MMU_WALK_PAGE_MAPPED, walk_cfg := MEM_CFG, walk_pa := x\<rparr>
      else r\<lparr>walk_result := MMU_WALK_PAGE_UNMAPPED\<rparr>)"
  by (simp add: boot_translation_def MEM_REGIONS_def is_reserved_def region_of_def in_region_eq region_cfg_def)

section \<open>The first address space\<close>

text \<open>Property C13: when \<open>early_identity_mapping\<close> returns, the MMU is on and its two base registers hold
  the tables of the low and of the high mapping, and those tables translate what the memory map
  says: a physical address below 2^47 and its alias in the kernel half both go to that address,
  with the attributes of the region that contains it, unless it lies in a reserved region or in
  none, when neither is mapped.\<close>
theorem early_identity_mapping_spec:
  assumes "ek_inv (alst st) b" and "tbls st = Map.empty" and "boot_regions_ok regions"
    and "lo_obj \<noteq> 0" and "hi_obj \<noteq> 0" and "lo_obj \<noteq> hi_obj" and "\<not> mmu_on (SCTLR_EL1 regs)"
    and run: "early_identity_mapping info tag lo_obj hi_obj regions ch regs st = Inr (st', lo, hi, ch', regs')"
  shows "mmu_is_active regs' \<and> TTBR0_EL1 regs' = tbl_ptr lo \<and> TTBR1_EL1 regs' = tbl_ptr hi \<and>
    (\<forall>x r. unat x < 2 ^ 47 \<longrightarrow>
       mmu_walk_page (Some lo) x st' r = Inr (boot_translation regions x r) \<and>
       mmu_walk_page (Some hi) (as_kva x) st' r = Inr (boot_translation regions x r))"
proof -
  let ?mp = "\<lambda>a. if a = lo_obj then lo else hi"
  obtain r1 where t: "identity_tables info tag regions st = Inr (st', lo, hi)"
    and h: "mmu_core_handle_new ?mp regs ch lo_obj hi_obj True True True True False = Inr (r1, ch', True)"
    and a: "mmu_core_activate ?mp ch' r1 = Inr (regs', MMU_ACTIVATE_OK)"
    using run by (auto simp: early_identity_mapping_def rbind_eq_Inr rassert_eq_Inr Let_def)
  note v = identity_tables_view [OF assms(1-3) t]
  obtain u w where lo: "lo = im_mapping info tag MMU_LO u" and hi: "hi = im_mapping info tag MMU_HI w"
    and low: "unat u < 2 ^ 47" "unat w < 2 ^ 47" using v(2) by blast
  have "x \<noteq> NULL_MAPPING_TBL" if "unat x < 2 ^ 47" for x
    using that by (auto simp: NULL_MAPPING_TBL_def unsigned_minus_1_eq_mask mask_eq_exp_minus_1)
  hence ok: "mmu_mapping_is_valid lo" "mmu_mapping_is_valid hi"
    using low by (simp_all add: mmu_mapping_is_valid_def lo hi im_mapping_def)
  have m: "rng lo = MMU_LO" "rng hi = MMU_HI" "va_addr_bits lo < 64" "va_addr_bits hi < 64"
    "physmap_offset lo = 0" "physmap_offset hi = 0" by (simp_all add: lo hi im_mapping_def)
  note e = handle_new_eq [of lo_obj hi_obj ?mp regs ch True True True True False]
  have c: "r1 = regs" "lo_mapping ch' = lo_obj" "hi_mapping ch' = hi_obj" "mmu_core_get_hi_enabled ch'"
    using h assms(4-7) m ok
      core_flags_get(5) [OF va_bits_byte [OF m(3)] va_bits_byte [OF m(4)], of ch']
    by (auto simp: e)
  have "mmu_is_active regs'" unfolding is_active_bit activateD(8) [OF a] by (simp add: bit_sctlr)
  thus ?thesis using activateD(10,11) [OF a] c m(5,6) assms(6) v(1) by (auto simp: boot_view_def)
qed

text \<open>A memory map of the board's shape: devices, two GiB of memory, the second one reserved.\<close>

definition small_regions :: "mem_region list" where
  "small_regions =
    [\<lparr>mr_tag = 0, mr_start = 0, mr_size = 0x40000000, mr_type = MEM_REGION_MMIO\<rparr>,
     \<lparr>mr_tag = 0, mr_start = 0x40000000, mr_size = 0x80000000, mr_type = MEM_REGION_DDR\<rparr>,
     \<lparr>mr_tag = 0, mr_start = 0x80000000, mr_size = 0x40000000, mr_type = MEM_REGION_RESERVED\<rparr>]"

lemma small_regions_ok: "boot_regions_ok small_regions"
  by (auto simp: boot_regions_ok_def small_regions_def is_reserved_def region_of_def in_region_eq)

theorem early_identity_mapping_spec_witness:
  "\<exists>st lo hi ch regs.
     early_identity_mapping (board_info 0) 0 0x1000 0x2000 small_regions zero_handle reset_regs im_state0 =
       Inr (st, lo, hi, ch, regs) \<and> mmu_is_active regs \<and> TTBR0_EL1 regs = tbl_ptr lo \<and>
     (\<forall>r. mmu_walk_page (Some hi) (as_kva 0x40123456) st r =
        Inr (r\<lparr>walk_result := MMU_WALK_PAGE_MAPPED, walk_cfg := MEM_CFG, walk_pa := 0x40123456\<rparr>)) \<and>
     (\<forall>r. mmu_walk_page (Some lo) 0x80000000 st r = Inr (r\<lparr>walk_result := MMU_WALK_PAGE_UNMAPPED\<rparr>))"
proof -
  let ?run = "early_identity_mapping (board_info 0) 0 0x1000 0x2000 small_regions zero_handle reset_regs im_state0"
  have "ok_and ?run (\<lambda>_. True)" by code_simp
  then obtain st lo hi ch regs where r: "?run = Inr (st, lo, hi, ch, regs)" by (auto simp: ok_and_iff)
  have i: "ek_inv (alst im_state0) 0x140000000" "tbls im_state0 = Map.empty"
    by (simp_all add: im_state0_def ek_sample_inv)
  have "\<not> mmu_on (SCTLR_EL1 reset_regs)" by (simp add: reset_regs_def mmu_on_def)
  note s = early_identity_mapping_spec [OF i small_regions_ok _ _ _ this r]
  have "boot_translation small_regions 0x40123456 w =
      w\<lparr>walk_result := MMU_WALK_PAGE_MAPPED, walk_cfg := MEM_CFG, walk_pa := 0x40123456\<rparr>"
    "boot_translation small_regions 0x80000000 w = w\<lparr>walk_result := MMU_WALK_PAGE_UNMAPPED\<rparr>" for w
    by (simp_all add: boot_translation_def small_regions_def is_reserved_def region_of_def in_region_eq
        region_cfg_def)
  thus ?thesis using s r by simp
qed

end
