(* ===== verification/Rb_Tree.thy ===== *)
theory Rb_Tree
  imports Kprelude
begin

text \<open>
  The red-black tree of \<open>src/lib/data_structures/rbtree.c\<close>, on a store of nodes.  A node holds the two
  child pointers and the word that packs the parent pointer with the colour; what follows the header
  (a key or the caller's data) is not touched by the tree, so that keys are read through a function
  of the node's address.  Address 0 is the null pointer and reading a node that is not in the store
  is a fault.

  Where the code has two branches that are each other's mirror image, the definition has the side as
  a parameter: \<open>LEFT\<close> gives the first branch and \<open>RIGHT\<close> the second one.  A loop is a partial function
  that is \<open>None\<close> when it does not end.
\<close>

datatype color = BLACK | RED

record rbtnode =
  rb_left :: u64
  rb_right :: u64
  packed :: u64

record rbtree =
  root :: u64
  cells :: "u64 \<Rightarrow> rbtnode option"

definition RBT_INIT :: "(u64 \<Rightarrow> rbtnode option) \<Rightarrow> rbtree" where
  "RBT_INIT h = \<lparr>root = 0, cells = h\<rparr>"

section \<open>Nodes\<close>

definition color_bit :: "color \<Rightarrow> u64" where
  "color_bit c = (case c of BLACK \<Rightarrow> 0 | RED \<Rightarrow> 1)"

definition get_color :: "rbtnode \<Rightarrow> color" where
  "get_color n = (if packed n AND 1 = 1 then RED else BLACK)"

definition get_parent :: "rbtnode \<Rightarrow> u64" where
  "get_parent n = (packed n AND NOT 1)"

definition is_black :: "rbtnode \<Rightarrow> bool" where
  "is_black n \<longleftrightarrow> packed n AND 1 = 0"

definition is_red :: "rbtnode \<Rightarrow> bool" where
  "is_red n \<longleftrightarrow> packed n AND 1 = 1"

definition set_color :: "color \<Rightarrow> rbtnode \<Rightarrow> rbtnode" where
  "set_color c n = n\<lparr>packed := (if color_bit c = 0 then packed n AND NOT 1 else packed n OR 1)\<rparr>"

definition set_parent :: "u64 \<Rightarrow> rbtnode \<Rightarrow> rbtnode" where
  "set_parent p n = n\<lparr>packed := (packed n AND 1) OR (p AND NOT 1)\<rparr>"

definition set_parent_color :: "u64 \<Rightarrow> color \<Rightarrow> rbtnode \<Rightarrow> rbtnode" where
  "set_parent_color p c n = n\<lparr>packed := (p AND NOT 1) OR color_bit c\<rparr>"

text \<open>The side of a child.\<close>

datatype side = LEFT | RIGHT

definition other :: "side \<Rightarrow> side" where
  "other s = (case s of LEFT \<Rightarrow> RIGHT | RIGHT \<Rightarrow> LEFT)"

definition child :: "side \<Rightarrow> rbtnode \<Rightarrow> u64" where
  "child s n = (case s of LEFT \<Rightarrow> rb_left n | RIGHT \<Rightarrow> rb_right n)"

definition set_child :: "side \<Rightarrow> u64 \<Rightarrow> rbtnode \<Rightarrow> rbtnode" where
  "set_child s v n = (case s of LEFT \<Rightarrow> n\<lparr>rb_left := v\<rparr> | RIGHT \<Rightarrow> n\<lparr>rb_right := v\<rparr>)"

text \<open>Reading and writing through a node pointer.\<close>

definition node_at :: "u64 \<Rightarrow> rbtree \<Rightarrow> rbtnode res" where
  "node_at p t = (case cells t p of None \<Rightarrow> Inl Fault | Some n \<Rightarrow> Inr n)"

definition upd_at :: "u64 \<Rightarrow> (rbtnode \<Rightarrow> rbtnode) \<Rightarrow> rbtree \<Rightarrow> rbtree res" where
  "upd_at p f t =
     (case cells t p of None \<Rightarrow> Inl Fault | Some n \<Rightarrow> Inr (t\<lparr>cells := (cells t)(p \<mapsto> f n)\<rparr>))"

definition upd_opt :: "u64 \<Rightarrow> (rbtnode \<Rightarrow> rbtnode) \<Rightarrow> rbtree \<Rightarrow> rbtree res" where
  "upd_opt p f t = (if p \<noteq> 0 then upd_at p f t else Inr t)"

text \<open>The link of the parent that points to \<open>old\<close>, or the root, is redirected to \<open>new\<close>.\<close>

definition relink :: "u64 \<Rightarrow> u64 \<Rightarrow> u64 \<Rightarrow> rbtree \<Rightarrow> rbtree res" where
  "relink parent old new t =
     (if parent \<noteq> 0 then
        rbind (node_at parent t) (\<lambda>p.
        if rb_left p = old then upd_at parent (set_child LEFT new) t
        else upd_at parent (set_child RIGHT new) t)
      else Inr (t\<lparr>root := new\<rparr>))"

definition rotate_set_parents :: "u64 \<Rightarrow> u64 \<Rightarrow> color \<Rightarrow> rbtree \<Rightarrow> rbtree res" where
  "rotate_set_parents old new c t =
     rbind (node_at old t) (\<lambda>o_node.
     let parent = get_parent o_node in
     rbind (upd_at new (set_parent (get_parent o_node)) t) (\<lambda>t.
     rbind (node_at old t) (\<lambda>o_node.
     rbind (upd_at new (set_color (get_color o_node)) t) (\<lambda>t.
     rbind (upd_at old (set_parent_color new c) t) (\<lambda>t.
     relink parent old new t)))))"

section \<open>Search\<close>

datatype 'a outcome = Stop 'a | Go u64

text \<open>The loops that walk down or up the tree all have this shape: \<open>step\<close> reads the node and says
  where to go on.\<close>

partial_function (option) walk :: "(rbtnode \<Rightarrow> u64 \<Rightarrow> 'a outcome) \<Rightarrow> 'a \<Rightarrow> rbtree \<Rightarrow> u64 \<Rightarrow> 'a res option" where
  "walk step none t p =
     (if p = 0 then Some (Inr none)
      else case cells t p of
        None \<Rightarrow> Some (Inl Fault)
      | Some n \<Rightarrow> (case step n p of Stop a \<Rightarrow> Some (Inr a) | Go q \<Rightarrow> walk step none t q))"

definition returns :: "'a res option \<Rightarrow> 'a res" where
  "returns r = (case r of None \<Rightarrow> Inl Diverge | Some x \<Rightarrow> x)"

definition find_step :: "bool \<Rightarrow> bool \<Rightarrow> rbtnode \<Rightarrow> u64 \<Rightarrow> u64 outcome" where
  "find_step eq lt n p = (if eq then Stop p else Go (if lt then rb_left n else rb_right n))"

definition rbt_find_u64 :: "(u64 \<Rightarrow> u64) \<Rightarrow> rbtree \<Rightarrow> u64 \<Rightarrow> u64 res" where
  "rbt_find_u64 key_unsigned t key =
     returns (walk (\<lambda>n p. find_step (key_unsigned p = key) (key < key_unsigned p) n p) 0 t (root t))"

definition rbt_find_i64 :: "(u64 \<Rightarrow> u64) \<Rightarrow> rbtree \<Rightarrow> u64 \<Rightarrow> u64 res" where
  "rbt_find_i64 key_signed t key =
     returns (walk (\<lambda>n p. find_step (key_signed p = key) (sint key < sint (key_signed p)) n p) 0 t (root t))"

type_synonym rbt_condition = "u64 \<Rightarrow> u64 \<Rightarrow> int"

definition RBT_LESS_THAN :: int where
  "RBT_LESS_THAN = 0"

definition RBT_GREATER_THAN :: int where
  "RBT_GREATER_THAN = 1"

definition RBT_EQUALS :: int where
  "RBT_EQUALS = 2"

definition RBT_FIND_OK :: int where
  "RBT_FIND_OK = 0"

definition RBT_FIND_NOT_FOUND :: int where
  "RBT_FIND_NOT_FOUND = 1"

text \<open>The result is the code that is returned and, if \<open>*node_out\<close> is written, what is written.\<close>

definition rbt_find :: "rbt_condition \<Rightarrow> u64 \<Rightarrow> rbtree \<Rightarrow> (int \<times> u64 option) res" where
  "rbt_find cond cmp_ctx t =
     returns (walk (\<lambda>n p.
       let cmp = cond cmp_ctx p in
       if cmp = RBT_EQUALS then Stop (RBT_FIND_OK, Some p)
       else if cmp = RBT_LESS_THAN then Go (rb_left n)
       else if cmp = RBT_GREATER_THAN then Go (rb_right n)
       else Stop (cmp, Some p)) (RBT_FIND_NOT_FOUND, None) t (root t))"

section \<open>Insertion\<close>

datatype bst_insert_res = COND_OK | COND_REBALANCE | COND_EQUALS

text \<open>The descent to the place of a new node; \<open>cmp\<close> compares the new node with the one at an address.
  \<open>None\<close> as a result means that an equal node was met.\<close>

partial_function (option) bst_descend :: "(u64 \<Rightarrow> int) \<Rightarrow> rbtree \<Rightarrow> u64 \<Rightarrow> u64 \<Rightarrow> u64 option res option" where
  "bst_descend cmp t parent cur =
     (if cur = 0 then Some (Inr (Some parent))
      else case cells t cur of
        None \<Rightarrow> Some (Inl Fault)
      | Some n \<Rightarrow>
          (if cmp cur = RBT_EQUALS then Some (Inr None)
           else bst_descend cmp t cur (if cmp cur = RBT_LESS_THAN then rb_left n else rb_right n)))"

definition bst_insert :: "(u64 \<Rightarrow> int) \<Rightarrow> u64 \<Rightarrow> rbtree \<Rightarrow> (rbtree \<times> bst_insert_res) res" where
  "bst_insert cmp node t =
     rbind (returns (bst_descend cmp t 0 (root t))) (\<lambda>place.
     case place of
       None \<Rightarrow> Inr (t, COND_EQUALS)
     | Some parent \<Rightarrow>
         rbind (upd_at node (\<lambda>n. n\<lparr>rb_left := 0\<rparr>) t) (\<lambda>t.
         rbind (upd_at node (\<lambda>n. n\<lparr>rb_right := 0\<rparr>) t) (\<lambda>t.
         rbind (upd_at node (set_parent_color parent RED) t) (\<lambda>t.
         if parent = 0 then
           rbind (upd_at node (set_color BLACK) (t\<lparr>root := node\<rparr>)) (\<lambda>t. Inr (t, COND_OK))
         else
           rbind (upd_at parent (set_child (if cmp parent = RBT_LESS_THAN then LEFT else RIGHT) node) t) (\<lambda>t.
           Inr (t, COND_REBALANCE))))))"

definition key_cmp :: "bool \<Rightarrow> bool \<Rightarrow> int" where
  "key_cmp eq lt = (if eq then RBT_EQUALS else if lt then RBT_LESS_THAN else RBT_GREATER_THAN)"

definition bst_insert_unsigned :: "(u64 \<Rightarrow> u64) \<Rightarrow> u64 \<Rightarrow> rbtree \<Rightarrow> (rbtree \<times> bst_insert_res) res" where
  "bst_insert_unsigned key_unsigned node t =
     bst_insert (\<lambda>x. key_cmp (key_unsigned node = key_unsigned x) (key_unsigned node < key_unsigned x)) node t"

definition bst_insert_signed :: "(u64 \<Rightarrow> u64) \<Rightarrow> u64 \<Rightarrow> rbtree \<Rightarrow> (rbtree \<times> bst_insert_res) res" where
  "bst_insert_signed key_signed node t =
     bst_insert (\<lambda>x. key_cmp (key_signed node = key_signed x) (sint (key_signed node) < sint (key_signed x))) node t"

definition bst_insert_conditional :: "rbt_condition \<Rightarrow> u64 \<Rightarrow> rbtree \<Rightarrow> (rbtree \<times> bst_insert_res) res" where
  "bst_insert_conditional cond node t = bst_insert (cond node) node t"

text \<open>One turn of the loop of \<open>insert_rebalance\<close> with a parent: it ends, or goes on with a new node and
  parent.  \<open>s\<close> is the side of the parent at the grandparent.\<close>

datatype turn = Done rbtree | Again u64 u64 rbtree

definition red_at :: "u64 \<Rightarrow> rbtree \<Rightarrow> bool res" where
  "red_at p t = (if p \<noteq> 0 then rbind (node_at p t) (\<lambda>n. Inr (is_red n)) else Inr False)"

definition insert_flip :: "u64 \<Rightarrow> u64 \<Rightarrow> u64 \<Rightarrow> rbtree \<Rightarrow> turn res" where
  "insert_flip tmp parent gparent t =
     rbind (upd_at tmp (set_parent_color gparent BLACK) t) (\<lambda>t.
     rbind (upd_at parent (set_parent_color gparent BLACK) t) (\<lambda>t.
     rbind (node_at gparent t) (\<lambda>g.
     rbind (upd_at gparent (set_parent_color (get_parent g) RED) t) (\<lambda>t.
     Inr (Again gparent (get_parent g) t)))))"

definition insert_inner :: "side \<Rightarrow> u64 \<Rightarrow> u64 \<Rightarrow> rbtree \<Rightarrow> (rbtree \<times> u64 \<times> u64) res" where
  "insert_inner s node parent t =
     rbind (node_at node t) (\<lambda>n.
     let tmp = child s n in
     rbind (upd_at parent (set_child (other s) tmp) t) (\<lambda>t.
     rbind (upd_at node (set_child s parent) t) (\<lambda>t.
     rbind (upd_opt tmp (set_parent_color parent BLACK) t) (\<lambda>t.
     rbind (upd_at parent (set_parent_color node RED) t) (\<lambda>t.
     rbind (node_at node t) (\<lambda>n.
     Inr (t, node, child (other s) n)))))))"

definition insert_rotate :: "side \<Rightarrow> u64 \<Rightarrow> rbtree \<times> u64 \<times> u64 \<Rightarrow> turn res" where
  "insert_rotate s gparent r =
     (let (t, parent, tmp) = r in
      rbind (upd_at gparent (set_child s tmp) t) (\<lambda>t.
      rbind (upd_at parent (set_child (other s) gparent) t) (\<lambda>t.
      rbind (upd_opt tmp (set_parent_color gparent BLACK) t) (\<lambda>t.
      rbind (rotate_set_parents gparent parent RED t) (\<lambda>t.
      Inr (Done t))))))"

definition insert_side :: "side \<Rightarrow> u64 \<Rightarrow> u64 \<Rightarrow> u64 \<Rightarrow> rbtree \<Rightarrow> turn res" where
  "insert_side s node parent gparent t =
     rbind (node_at gparent t) (\<lambda>g.
     let tmp = child (other s) g in
     rbind (red_at tmp t) (\<lambda>red_uncle.
     if red_uncle then insert_flip tmp parent gparent t
     else
       rbind (node_at parent t) (\<lambda>p.
       rbind
         (if node = child (other s) p then insert_inner s node parent t
          else Inr (t, parent, child (other s) p)) (insert_rotate s gparent))))"

definition insert_turn :: "u64 \<Rightarrow> u64 \<Rightarrow> rbtree \<Rightarrow> turn res" where
  "insert_turn node parent t =
     (if parent = 0 then rbind (upd_at node (set_parent_color 0 BLACK) t) (\<lambda>t. Inr (Done t))
      else
        rbind (node_at parent t) (\<lambda>p.
        if is_black p then Inr (Done t)
        else
          let gparent = get_parent p in
          rbind (node_at gparent t) (\<lambda>g.
          if parent \<noteq> rb_right g then insert_side LEFT node parent gparent t
          else insert_side RIGHT node parent gparent t)))"

partial_function (option) insert_loop :: "u64 \<Rightarrow> u64 \<Rightarrow> rbtree \<Rightarrow> rbtree res option" where
  "insert_loop node parent t =
     (case insert_turn node parent t of
        Inl e \<Rightarrow> Some (Inl e)
      | Inr r \<Rightarrow> (case r of Done t \<Rightarrow> Some (Inr t) | Again node parent t \<Rightarrow> insert_loop node parent t))"

definition insert_rebalance :: "u64 \<Rightarrow> rbtree \<Rightarrow> rbtree res" where
  "insert_rebalance node t =
     rbind (node_at node t) (\<lambda>n. returns (insert_loop node (get_parent n) t))"

definition RBT_INSERT_OK :: int where
  "RBT_INSERT_OK = 0"

definition RBT_INSERT_EXISTS :: int where
  "RBT_INSERT_EXISTS = RBT_EQUALS"

definition insert_result :: "u64 \<Rightarrow> rbtree \<times> bst_insert_res \<Rightarrow> (rbtree \<times> int) res" where
  "insert_result node r =
     (case snd r of
        COND_OK \<Rightarrow> Inr (fst r, RBT_INSERT_OK)
      | COND_REBALANCE \<Rightarrow> rbind (insert_rebalance node (fst r)) (\<lambda>t. Inr (t, RBT_INSERT_OK))
      | COND_EQUALS \<Rightarrow> Inr (fst r, RBT_INSERT_EXISTS))"

definition rbt_insert_i64 :: "(u64 \<Rightarrow> u64) \<Rightarrow> u64 \<Rightarrow> rbtree \<Rightarrow> (rbtree \<times> int) res" where
  "rbt_insert_i64 key_signed node t =
     rassert (node \<noteq> 0) (Panic ''invalid params!'')
       (rbind (bst_insert_signed key_signed node t) (insert_result node))"

definition rbt_insert_u64 :: "(u64 \<Rightarrow> u64) \<Rightarrow> u64 \<Rightarrow> rbtree \<Rightarrow> (rbtree \<times> int) res" where
  "rbt_insert_u64 key_unsigned node t =
     rassert (node \<noteq> 0) (Panic ''invalid params!'')
       (rbind (bst_insert_unsigned key_unsigned node t) (insert_result node))"

definition rbt_insert :: "rbt_condition \<Rightarrow> u64 \<Rightarrow> rbtree \<Rightarrow> (rbtree \<times> int) res" where
  "rbt_insert cond node t =
     rassert (node \<noteq> 0) (Panic ''invalid params!'')
       (rbind (bst_insert_conditional cond node t) (insert_result node))"

section \<open>Removal\<close>

definition null_or_black :: "u64 \<Rightarrow> rbtree \<Rightarrow> bool res" where
  "null_or_black p t = (if p = 0 then Inr True else rbind (node_at p t) (\<lambda>n. Inr (is_black n)))"

text \<open>\<open>erase_color\<close>: \<open>s\<close> is the side of the child that lacks a black node.  The last rotation:\<close>

definition erase_rotate :: "side \<Rightarrow> u64 \<Rightarrow> u64 \<Rightarrow> u64 \<Rightarrow> rbtree \<Rightarrow> turn res" where
  "erase_rotate s parent sibling tmp1 t =
     rbind (node_at sibling t) (\<lambda>sb.
     let tmp2 = child s sb in
     rbind (upd_at parent (set_child (other s) tmp2) t) (\<lambda>t.
     rbind (upd_at sibling (set_child s parent) t) (\<lambda>t.
     rbind (upd_at tmp1 (set_parent_color sibling BLACK) t) (\<lambda>t.
     rbind (upd_opt tmp2 (set_parent parent) t) (\<lambda>t.
     rbind (rotate_set_parents parent sibling BLACK t) (\<lambda>t.
     Inr (Done t)))))))"

definition erase_inner :: "side \<Rightarrow> u64 \<Rightarrow> u64 \<Rightarrow> u64 \<Rightarrow> rbtree \<Rightarrow> turn res" where
  "erase_inner s parent sibling tmp2 t =
     rbind (node_at tmp2 t) (\<lambda>n2.
     let tmp1 = child (other s) n2 in
     rbind (upd_at sibling (set_child s tmp1) t) (\<lambda>t.
     rbind (upd_at tmp2 (set_child (other s) sibling) t) (\<lambda>t.
     rbind (upd_at parent (set_child (other s) tmp2) t) (\<lambda>t.
     rbind (upd_opt tmp1 (set_parent_color sibling BLACK) t) (\<lambda>t.
     erase_rotate s parent tmp2 sibling t)))))"

definition erase_flip :: "u64 \<Rightarrow> u64 \<Rightarrow> rbtree \<Rightarrow> turn res" where
  "erase_flip parent sibling t =
     rbind (upd_at sibling (set_parent_color parent RED) t) (\<lambda>t.
     rbind (node_at parent t) (\<lambda>p.
     if is_red p then rbind (upd_at parent (set_color BLACK) t) (\<lambda>t. Inr (Done t))
     else if get_parent p \<noteq> 0 then Inr (Again parent (get_parent p) t)
     else Inr (Done t)))"

definition erase_black :: "side \<Rightarrow> u64 \<Rightarrow> u64 \<Rightarrow> rbtree \<Rightarrow> turn res" where
  "erase_black s parent sibling t =
     rbind (node_at sibling t) (\<lambda>sb.
     let tmp1 = child (other s) sb in
     rbind (null_or_black tmp1 t) (\<lambda>outer_black.
     if outer_black then
       let tmp2 = child s sb in
       rbind (null_or_black tmp2 t) (\<lambda>inner_black.
       if inner_black then erase_flip parent sibling t
       else erase_inner s parent sibling tmp2 t)
     else erase_rotate s parent sibling tmp1 t))"

definition erase_side :: "side \<Rightarrow> u64 \<Rightarrow> rbtree \<Rightarrow> turn res" where
  "erase_side s parent t =
     rbind (node_at parent t) (\<lambda>p.
     let sibling = child (other s) p in
     rbind (node_at sibling t) (\<lambda>sb.
     rbind
       (if is_red sb then
          let tmp1 = child s sb in
          rbind (upd_at parent (set_child (other s) tmp1) t) (\<lambda>t.
          rbind (upd_at sibling (set_child s parent) t) (\<lambda>t.
          rbind (upd_at tmp1 (set_parent_color parent BLACK) t) (\<lambda>t.
          rbind (rotate_set_parents parent sibling RED t) (\<lambda>t.
          Inr (t, tmp1)))))
        else Inr (t, sibling)) (\<lambda>(t, sibling).
     erase_black s parent sibling t)))"

definition erase_turn :: "u64 \<Rightarrow> u64 \<Rightarrow> rbtree \<Rightarrow> turn res" where
  "erase_turn node parent t =
     rbind (node_at parent t) (\<lambda>p.
     if node \<noteq> rb_right p then erase_side LEFT parent t else erase_side RIGHT parent t)"

partial_function (option) erase_loop :: "u64 \<Rightarrow> u64 \<Rightarrow> rbtree \<Rightarrow> rbtree res option" where
  "erase_loop node parent t =
     (case erase_turn node parent t of
        Inl e \<Rightarrow> Some (Inl e)
      | Inr r \<Rightarrow> (case r of Done t \<Rightarrow> Some (Inr t) | Again node parent t \<Rightarrow> erase_loop node parent t))"

definition erase_color :: "u64 \<Rightarrow> rbtree \<Rightarrow> rbtree res" where
  "erase_color parent t = returns (erase_loop 0 parent t)"

text \<open>The loop that looks for the successor of a node with two children; the result is the
  successor's parent and the successor.\<close>

partial_function (option) succ_loop :: "rbtree \<Rightarrow> u64 \<Rightarrow> u64 \<Rightarrow> (u64 \<times> u64) res option" where
  "succ_loop t successor tmp =
     (case cells t tmp of
        None \<Rightarrow> Some (Inl Fault)
      | Some n \<Rightarrow> (if rb_left n = 0 then Some (Inr (successor, tmp)) else succ_loop t tmp (rb_left n)))"

definition remove_leaf :: "rbtnode \<Rightarrow> u64 \<Rightarrow> rbtree \<Rightarrow> (rbtree \<times> u64) res" where
  "remove_leaf n node t =
     (let child = rb_right n; parent = get_parent n in
      rbind (relink parent node child t) (\<lambda>t.
      if child \<noteq> 0 then
        rbind (upd_at child (set_parent_color parent (get_color n)) t) (\<lambda>t. Inr (t, 0))
      else Inr (t, if is_black n then parent else 0)))"

definition remove_left :: "rbtnode \<Rightarrow> u64 \<Rightarrow> rbtree \<Rightarrow> (rbtree \<times> u64) res" where
  "remove_left n node t =
     (let tmp = rb_left n; parent = get_parent n in
      rbind (upd_at tmp (set_parent_color parent (get_color n)) t) (\<lambda>t.
      rbind (relink parent node tmp t) (\<lambda>t.
      Inr (t, 0))))"

text \<open>A node with two children: the successor is found and cut out of its place; the result is its
  former parent (or itself, if it is the right child), the successor and its right child.\<close>

definition take_successor :: "u64 \<Rightarrow> rbtree \<Rightarrow> (rbtree \<times> u64 \<times> u64 \<times> u64) res" where
  "take_successor ch t =
     rbind (node_at ch t) (\<lambda>cn.
     let tmp = rb_left cn in
     if tmp = 0 then Inr (t, ch, ch, rb_right cn)
     else
       rbind (returns (succ_loop t ch tmp)) (\<lambda>(parent, successor).
       rbind (node_at successor t) (\<lambda>sn.
       let child2 = rb_right sn in
       rbind (upd_at parent (set_child LEFT child2) t) (\<lambda>t.
       rbind (upd_at successor (set_child RIGHT ch) t) (\<lambda>t.
       rbind (upd_at ch (set_parent successor) t) (\<lambda>t.
       Inr (t, parent, successor, child2)))))))"

definition remove_two :: "rbtnode \<Rightarrow> u64 \<Rightarrow> rbtree \<Rightarrow> (rbtree \<times> u64) res" where
  "remove_two n node t =
     rbind (take_successor (rb_right n) t) (\<lambda>(t, parent, successor, child2).
     rbind (upd_at successor (set_child LEFT (rb_left n)) t) (\<lambda>t.
     rbind (upd_at (rb_left n) (set_parent successor) t) (\<lambda>t.
     let node_parent = get_parent n in
     rbind (relink node_parent node successor t) (\<lambda>t.
     rbind
       (if child2 \<noteq> 0 then
          rbind (upd_at child2 (set_parent_color parent BLACK) t) (\<lambda>t. Inr (t, 0))
        else
          rbind (node_at successor t) (\<lambda>sn. Inr (t, if is_black sn then parent else 0))) (\<lambda>(t, rebalance).
     rbind (upd_at successor (set_parent_color node_parent (get_color n)) t) (\<lambda>t.
     Inr (t, rebalance)))))))"

definition rbt_remove :: "u64 \<Rightarrow> rbtree \<Rightarrow> rbtree res" where
  "rbt_remove node t =
     rbind (node_at node t) (\<lambda>n.
     rbind
       (if rb_left n = 0 then remove_leaf n node t
        else if rb_right n = 0 then remove_left n node t
        else remove_two n node t) (\<lambda>(t, rebalance).
     if rebalance \<noteq> 0 then erase_color rebalance t else Inr t))"

section \<open>Traversal\<close>

definition rbt_leftmost :: "rbtree \<Rightarrow> u64 res" where
  "rbt_leftmost t =
     returns (walk (\<lambda>n p. if rb_left n \<noteq> 0 then Go (rb_left n) else Stop p) 0 t (root t))"

definition rbt_rightmost :: "rbtree \<Rightarrow> u64 res" where
  "rbt_rightmost t =
     returns (walk (\<lambda>n p. if rb_right n \<noteq> 0 then Go (rb_right n) else Stop p) 0 t (root t))"

text \<open>\<open>s\<close> is \<open>RIGHT\<close> for the successor and \<open>LEFT\<close> for the predecessor.\<close>

partial_function (option) climb :: "side \<Rightarrow> rbtree \<Rightarrow> u64 \<Rightarrow> u64 \<Rightarrow> u64 res option" where
  "climb s t node parent =
     (if parent = 0 then Some (Inr 0)
      else case cells t parent of
        None \<Rightarrow> Some (Inl Fault)
      | Some p \<Rightarrow> (if node = child s p then climb s t parent (get_parent p) else Some (Inr parent)))"

definition inorder_next :: "side \<Rightarrow> rbtree \<Rightarrow> u64 \<Rightarrow> u64 res" where
  "inorder_next s t node =
     rbind (node_at node t) (\<lambda>n.
     if child s n \<noteq> 0 then
       returns (walk (\<lambda>n p. if child (other s) n \<noteq> 0 then Go (child (other s) n) else Stop p) 0 t (child s n))
     else returns (climb s t node (get_parent n)))"

definition inorder_successor :: "rbtree \<Rightarrow> u64 \<Rightarrow> u64 res" where
  "inorder_successor = inorder_next RIGHT"

definition inorder_predecessor :: "rbtree \<Rightarrow> u64 \<Rightarrow> u64 res" where
  "inorder_predecessor = inorder_next LEFT"

text \<open>The visitor gets the node and the caller's context, which it may change, and says whether to go on;
  it does not change the tree.\<close>

partial_function (option) visit_loop ::
  "(rbtree \<Rightarrow> u64 \<Rightarrow> u64 res) \<Rightarrow> (u64 \<Rightarrow> 's \<Rightarrow> 's \<times> bool) \<Rightarrow> rbtree \<Rightarrow> u64 \<Rightarrow> 's \<Rightarrow> 's res option" where
  "visit_loop nxt visit t node ctx =
     (if node = 0 then Some (Inr ctx)
      else let r = visit node ctx in
        if \<not> snd r then Some (Inr (fst r))
        else case nxt t node of
          Inl e \<Rightarrow> Some (Inl e)
        | Inr node \<Rightarrow> visit_loop nxt visit t node (fst r))"

definition rbt_for_each :: "(u64 \<Rightarrow> 's \<Rightarrow> 's \<times> bool) \<Rightarrow> rbtree \<Rightarrow> 's \<Rightarrow> 's res" where
  "rbt_for_each visit t ctx =
     rbind (rbt_leftmost t) (\<lambda>node. returns (visit_loop inorder_successor visit t node ctx))"

definition rbt_for_each_rev :: "(u64 \<Rightarrow> 's \<Rightarrow> 's \<times> bool) \<Rightarrow> rbtree \<Rightarrow> 's \<Rightarrow> 's res" where
  "rbt_for_each_rev visit t ctx =
     rbind (rbt_rightmost t) (\<lambda>node. returns (visit_loop inorder_predecessor visit t node ctx))"

section \<open>Destruction\<close>

text \<open>\<open>free_fn\<close> changes the caller's context; the node it is given is gone from the store afterwards.\<close>

definition destroy_turn ::
  "(u64 \<Rightarrow> 's \<Rightarrow> 's res) \<Rightarrow> u64 \<Rightarrow> rbtree \<times> 's \<Rightarrow> (u64 \<times> rbtree \<times> 's) res" where
  "destroy_turn free_fn node r =
     (let t = fst r; ctx = snd r in
      rbind (node_at node t) (\<lambda>n.
      if rb_left n \<noteq> 0 then Inr (rb_left n, t, ctx)
      else if rb_right n \<noteq> 0 then Inr (rb_right n, t, ctx)
      else
        let parent = get_parent n in
        rbind
          (if parent \<noteq> 0 then
             rbind (node_at parent t) (\<lambda>p.
             if rb_left p = node then upd_at parent (set_child LEFT 0) t
             else upd_at parent (set_child RIGHT 0) t)
           else Inr t) (\<lambda>t.
        rbind (free_fn node ctx) (\<lambda>ctx.
        Inr (parent, t\<lparr>cells := (cells t)(node := None)\<rparr>, ctx)))))"

partial_function (option) destroy_loop ::
  "(u64 \<Rightarrow> 's \<Rightarrow> 's res) \<Rightarrow> u64 \<Rightarrow> rbtree \<times> 's \<Rightarrow> (rbtree \<times> 's) res option" where
  "destroy_loop free_fn node r =
     (if node = 0 then Some (Inr r)
      else case destroy_turn free_fn node r of
        Inl e \<Rightarrow> Some (Inl e)
      | Inr x \<Rightarrow> destroy_loop free_fn (fst x) (snd x))"

definition rbt_destroy :: "(u64 \<Rightarrow> 's \<Rightarrow> 's res) \<Rightarrow> rbtree \<Rightarrow> 's \<Rightarrow> (rbtree \<times> 's) res" where
  "rbt_destroy free_fn t ctx =
     (if root t = 0 then Inr (t, ctx)
      else
        rbind (returns (destroy_loop free_fn (root t) (t, ctx))) (\<lambda>(t, ctx).
        Inr (t\<lparr>root := 0\<rparr>, ctx)))"

end
