(* ===== verification/Rb_Repr.thy ===== *)
theory Rb_Repr
  imports Rb_Tree "HOL-Library.Multiset"
begin

text \<open>
  How a store of nodes represents a tree.  A node in the middle of a tree is reached through a
  context, the list of its ancestors with the subtrees that branch off, innermost first: the loops of
  the code that climb from a node to the root are recursions over it.
\<close>

section \<open>Trees and contexts\<close>

datatype rbt = Lf | Nd color rbt u64 rbt

primrec addr :: "rbt \<Rightarrow> u64" where
  "addr Lf = 0"
| "addr (Nd c l a r) = a"

primrec inord :: "rbt \<Rightarrow> u64 list" where
  "inord Lf = []"
| "inord (Nd c l a r) = inord l @ a # inord r"

primrec hue :: "rbt \<Rightarrow> color" where
  "hue Lf = BLACK"
| "hue (Nd c l a r) = c"

primrec paint :: "color \<Rightarrow> rbt \<Rightarrow> rbt" where
  "paint c Lf = Lf"
| "paint c (Nd d l a r) = Nd c l a r"

definition mk :: "side \<Rightarrow> color \<Rightarrow> u64 \<Rightarrow> rbt \<Rightarrow> rbt \<Rightarrow> rbt" where
  "mk s c a x y = (case s of LEFT \<Rightarrow> Nd c x a y | RIGHT \<Rightarrow> Nd c y a x)"

type_synonym frame = "side \<times> color \<times> u64 \<times> rbt"

fun plug :: "rbt \<Rightarrow> frame list \<Rightarrow> rbt" where
  "plug t [] = t"
| "plug t ((s, c, a, u) # cs) = plug (mk s c a t u) cs"

fun caddr :: "frame list \<Rightarrow> u64" where
  "caddr [] = 0"
| "caddr ((s, c, a, u) # cs) = a"

fun cnodes :: "frame list \<Rightarrow> u64 list" where
  "cnodes [] = []"
| "cnodes ((s, c, a, u) # cs) = a # inord u @ cnodes cs"

fun before :: "frame list \<Rightarrow> u64 list" where
  "before [] = []"
| "before ((s, c, a, u) # cs) = before cs @ (case s of LEFT \<Rightarrow> [] | RIGHT \<Rightarrow> inord u @ [a])"

fun after :: "frame list \<Rightarrow> u64 list" where
  "after [] = []"
| "after ((s, c, a, u) # cs) = (case s of LEFT \<Rightarrow> a # inord u | RIGHT \<Rightarrow> []) @ after cs"

lemma other_simps [simp]: "other LEFT = RIGHT" "other RIGHT = LEFT" "other (other s) = s"
  by (auto simp: other_def split: side.split)

lemma side_cases:
  fixes s s' :: side
  obtains "s' = s" | "s' = other s"
  by (cases s; cases s') auto

lemma other_neq [simp]: "other s \<noteq> s" "s \<noteq> other s"
  by (cases s; simp)+

lemma mk_simps [simp]:
  "addr (mk s c a x y) = a" "hue (mk s c a x y) = c" "mk s c a x y \<noteq> Lf"
  "paint d (mk s c a x y) = mk s d a x y" "mk (other s) c a x y = mk s c a y x"
  "set (inord (mk s c a x y)) = insert a (set (inord x) \<union> set (inord y))"
  by (cases s; auto simp: mk_def)+

lemma distinct_mk [simp]:
  "distinct (inord (mk s c a x y)) \<longleftrightarrow>
     a \<notin> set (inord x) \<and> a \<notin> set (inord y) \<and> distinct (inord x) \<and> distinct (inord y) \<and>
     set (inord x) \<inter> set (inord y) = {}"
  by (cases s) (auto simp: mk_def)

lemma mk_inject [simp]: "mk s c a x y = mk s c' a' x' y' \<longleftrightarrow> c = c' \<and> a = a' \<and> x = x' \<and> y = y'"
  by (cases s) (auto simp: mk_def)

lemma mk_exhaust:
  assumes "t \<noteq> Lf"
  obtains c a x y where "t = mk s c a x y"
  using assms by (cases t; cases s) (auto simp: mk_def)

lemma paint_simps [simp]:
  "addr (paint c t) = addr t" "inord (paint c t) = inord t" "paint c t = Lf \<longleftrightarrow> t = Lf"
  "hue (paint c t) = (if t = Lf then BLACK else c)"
  by (cases t; simp)+

lemma inord_plug: "inord (plug t cs) = before cs @ inord t @ after cs"
  by (induction t cs rule: plug.induct) (auto simp: mk_def split: side.split)

lemma mset_inord_mk [simp]:
  "mset (inord (mk s c a x y)) = {#a#} + mset (inord x) + mset (inord y)"
  by (cases s) (simp_all add: mk_def)

lemma mset_cnodes: "mset (cnodes cs) = mset (before cs) + mset (after cs)"
  by (induction cs rule: cnodes.induct) (auto split: side.split)

lemma set_cnodes: "set (cnodes cs) = set (before cs) \<union> set (after cs)"
  using arg_cong [OF mset_cnodes, of set_mset cs] by simp

lemma distinct_plug: "distinct (inord (plug t cs)) \<longleftrightarrow> distinct (inord t @ cnodes cs)"
  by (rule mset_eq_imp_distinct_iff) (simp add: inord_plug mset_cnodes)

lemma plug_append: "plug t (cs @ ds) = plug (plug t cs) ds"
  by (induction t cs rule: plug.induct) auto

section \<open>Packed words\<close>

definition pk :: "u64 \<Rightarrow> color \<Rightarrow> u64" where
  "pk p c = (p AND NOT 1) OR color_bit c"

definition ptr_ok :: "u64 \<Rightarrow> bool" where
  "ptr_ok a \<longleftrightarrow> a \<noteq> 0 \<and> \<not> bit a 0"

definition mknode :: "side \<Rightarrow> u64 \<Rightarrow> u64 \<Rightarrow> u64 \<Rightarrow> color \<Rightarrow> rbtnode" where
  "mknode s x y p c =
     (case s of LEFT \<Rightarrow> \<lparr>rb_left = x, rb_right = y, packed = pk p c\<rparr>
      | RIGHT \<Rightarrow> \<lparr>rb_left = y, rb_right = x, packed = pk p c\<rparr>)"

lemma bit_pk: "bit (pk p c) n \<longleftrightarrow> (if n = 0 then c = RED else bit p n)"
  by (cases c) (auto simp: pk_def color_bit_def bit_simps dest: bit_imp_le_length)

lemma word_and_1: "x AND 1 = (if bit x 0 then 1 else 0)" for x :: u64
  by (simp add: and_one_eq bit_0 mod_2_eq_odd)

lemma pk_simps:
  "pk p c AND 1 = color_bit c"
  "\<not> bit p 0 \<Longrightarrow> pk p c AND NOT 1 = p"
  "pk p c AND NOT 1 = pk p BLACK"
  "pk p c OR 1 = pk p RED"
  "(pk p c AND 1) OR (q AND NOT 1) = pk q c"
proof -
  show "pk p c AND 1 = color_bit c" by (cases c) (simp_all add: word_and_1 bit_pk color_bit_def)
  show "pk p c AND NOT 1 = p" if "\<not> bit p 0"
    using that by (intro bit_word_eqI) (auto simp: bit_simps bit_pk)
  show "pk p c AND NOT 1 = pk p BLACK" "pk p c OR 1 = pk p RED"
    by (rule bit_word_eqI, auto simp: bit_simps bit_pk)+
  show "(pk p c AND 1) OR (q AND NOT 1) = pk q c"
    unfolding word_and_1 by (rule bit_word_eqI) (auto simp: bit_simps bit_pk)
qed

lemma packed_simps:
  assumes "packed n = pk p c"
  shows "get_color n = c" "is_red n \<longleftrightarrow> c = RED" "is_black n \<longleftrightarrow> c = BLACK"
    "\<not> bit p 0 \<Longrightarrow> get_parent n = p" "set_parent q n = n\<lparr>packed := pk q c\<rparr>"
    "set_color d n = n\<lparr>packed := pk p d\<rparr>" "set_parent_color q d n = n\<lparr>packed := pk q d\<rparr>"
proof -
  show "get_color n = c" "is_red n \<longleftrightarrow> c = RED" "is_black n \<longleftrightarrow> c = BLACK"
    by (cases c; simp add: get_color_def is_red_def is_black_def assms pk_simps(1) color_bit_def)+
  show "\<not> bit p 0 \<Longrightarrow> get_parent n = p" unfolding get_parent_def assms by (rule pk_simps(2))
  show "set_parent q n = n\<lparr>packed := pk q c\<rparr>" by (simp only: set_parent_def assms pk_simps(5))
  show "set_color d n = n\<lparr>packed := pk p d\<rparr>"
    by (cases d) (simp_all only: set_color_def assms pk_simps(3,4) color_bit_def color.case if_True if_False
        simp_thms zero_neq_one one_neq_zero)
  show "set_parent_color q d n = n\<lparr>packed := pk q d\<rparr>" by (simp only: set_parent_color_def pk_def)
qed

lemma mknode_simps [simp]:
  "child s (mknode s x y p c) = x" "child (other s) (mknode s x y p c) = y"
  "rb_left (mknode LEFT x y p c) = x" "rb_right (mknode LEFT x y p c) = y"
  "packed (mknode s x y p c) = pk p c"
  "set_child s v (mknode s x y p c) = mknode s v y p c"
  "set_child (other s) v (mknode s x y p c) = mknode s x v p c"
  "mknode (other s) x y p c = mknode s y x p c"
  "(mknode s x y p c)\<lparr>packed := pk q d\<rparr> = mknode s x y q d"
  by (cases s; simp add: mknode_def child_def set_child_def)+

lemmas mknode_packed [simp] = packed_simps [OF mknode_simps(5), unfolded mknode_simps(9)]

section \<open>Representation\<close>

primrec holds :: "(u64 \<Rightarrow> rbtnode option) \<Rightarrow> u64 \<Rightarrow> rbt \<Rightarrow> bool" where
  "holds h p Lf \<longleftrightarrow> True"
| "holds h p (Nd c l a r) \<longleftrightarrow>
     ptr_ok a \<and> h a = Some (mknode LEFT (addr l) (addr r) p c) \<and> holds h a l \<and> holds h a r"

fun cholds :: "(u64 \<Rightarrow> rbtnode option) \<Rightarrow> u64 \<Rightarrow> u64 \<Rightarrow> frame list \<Rightarrow> bool" where
  "cholds h rt x [] \<longleftrightarrow> rt = x"
| "cholds h rt x ((s, c, a, u) # cs) \<longleftrightarrow>
     ptr_ok a \<and> h a = Some (mknode s x (addr u) (caddr cs) c) \<and> holds h a u \<and> cholds h rt a cs"

lemma mknode_RIGHT: "mknode RIGHT x y p c = mknode LEFT y x p c"
  using mknode_simps(8) [of LEFT] by simp

lemma holds_mk [simp]:
  "holds h p (mk s c a x y) \<longleftrightarrow>
     ptr_ok a \<and> h a = Some (mknode s (addr x) (addr y) p c) \<and> holds h a x \<and> holds h a y"
  by (cases s) (auto simp: mk_def mknode_RIGHT)

lemma holds_cong:
  "(\<And>a. a \<in> set (inord t) \<Longrightarrow> h' a = h a) \<Longrightarrow> holds h' p t = holds h p t"
  by (induction t arbitrary: p) auto

lemma cholds_cong:
  "(\<And>a. a \<in> set (cnodes cs) \<Longrightarrow> h' a = h a) \<Longrightarrow> cholds h' rt x cs = cholds h rt x cs"
  by (induction cs arbitrary: x rule: cnodes.induct) (auto simp: holds_cong [of _ h' h])

lemma holds_upd [simp]: "a \<notin> set (inord t) \<Longrightarrow> holds (h(a := v)) p t = holds h p t"
  by (rule holds_cong) auto

lemma cholds_upd [simp]: "a \<notin> set (cnodes cs) \<Longrightarrow> cholds (h(a := v)) rt x cs = cholds h rt x cs"
  by (rule cholds_cong) auto

lemma holds_nodes: "holds h p t \<Longrightarrow> a \<in> set (inord t) \<Longrightarrow> ptr_ok a \<and> h a \<noteq> None"
  by (induction t arbitrary: p) auto

lemma cholds_nodes: "cholds h rt x cs \<Longrightarrow> a \<in> set (cnodes cs) \<Longrightarrow> ptr_ok a \<and> h a \<noteq> None"
  by (induction cs arbitrary: x rule: cnodes.induct) (auto dest: holds_nodes)

lemma ptr_okD [simp]: "ptr_ok a \<Longrightarrow> a \<noteq> 0" "ptr_ok a \<Longrightarrow> \<not> bit a 0"
  by (auto simp: ptr_ok_def)

lemma caddr_even [simp]: "cholds h rt x cs \<Longrightarrow> \<not> bit (caddr cs) 0"
  by (cases cs rule: cnodes.cases) auto

lemma addr_0_iff: "holds h p t \<Longrightarrow> addr t = 0 \<longleftrightarrow> t = Lf"
  by (cases t) auto

lemma addr_mem: "t \<noteq> Lf \<Longrightarrow> addr t \<in> set (inord t)"
  by (cases t) auto

lemma caddr_0_iff: "cholds h rt x cs \<Longrightarrow> caddr cs = 0 \<longleftrightarrow> cs = []"
  by (cases cs rule: cnodes.cases) auto

lemma caddr_mem: "cs \<noteq> [] \<Longrightarrow> caddr cs \<in> set (cnodes cs)"
  by (cases cs rule: cnodes.cases) auto

text \<open>The parent pointer and the colour of the root of a subtree can be set, which paints it.\<close>

lemma holds_paint:
  assumes "holds h p t" and "t \<noteq> Lf" and "distinct (inord t)"
  shows "\<exists>n. h (addr t) = Some n \<and> holds (h(addr t \<mapsto> set_parent_color q c n)) q (paint c t)"
    and "\<exists>n. h (addr t) = Some n \<and> holds (h(addr t \<mapsto> set_parent q n)) q t"
  using assms by (cases t; auto)+

definition represents :: "rbtree \<Rightarrow> rbt \<Rightarrow> bool" where
  "represents t T \<longleftrightarrow> root t = addr T \<and> holds (cells t) 0 T \<and> distinct (inord T)"

definition focus :: "rbtree \<Rightarrow> rbt \<Rightarrow> frame list \<Rightarrow> bool" where
  "focus t T cs \<longleftrightarrow>
     holds (cells t) (caddr cs) T \<and> cholds (cells t) (root t) (addr T) cs \<and>
     distinct (inord T @ cnodes cs)"

lemma holds_plug:
  "root t = addr (plug T cs) \<and> holds (cells t) 0 (plug T cs) \<longleftrightarrow>
     holds (cells t) (caddr cs) T \<and> cholds (cells t) (root t) (addr T) cs"
  by (induction T cs rule: plug.induct) auto

lemma represents_plug: "represents t (plug T cs) \<longleftrightarrow> focus t T cs"
  unfolding represents_def focus_def distinct_plug [symmetric] using holds_plug [of t T cs] by blast

lemma focus_frame: "focus t T ((s, c, a, u) # cs) \<longleftrightarrow> focus t (mk s c a T u) cs"
  unfolding represents_plug [symmetric] by simp

lemma zipper:
  assumes "a \<in> set (inord T)"
  obtains c l r cs where "T = plug (Nd c l a r) cs"
  using assms
proof (induction T arbitrary: thesis)
  case (Nd c l b r)
  consider "b = a" | "a \<in> set (inord l)" | "a \<in> set (inord r)" using Nd.prems(2) by auto
  thus ?case
  proof cases
    case 1
    thus ?thesis using Nd.prems(1) [of c l r "[]"] by simp
  next
    case 2
    then obtain d x y ds where "l = plug (Nd d x a y) ds" using Nd.IH(1) by blast
    thus ?thesis using Nd.prems(1) [of d x y "ds @ [(LEFT, c, b, r)]"] by (simp add: plug_append mk_def)
  next
    case 3
    then obtain d x y ds where "r = plug (Nd d x a y) ds" using Nd.IH(2) by blast
    thus ?thesis using Nd.prems(1) [of d x y "ds @ [(RIGHT, c, b, l)]"] by (simp add: plug_append mk_def)
  qed
qed simp

section \<open>Redirecting a link\<close>

definition kept_off :: "u64 set \<Rightarrow> rbtree \<Rightarrow> rbtree \<Rightarrow> bool" where
  "kept_off A t t' \<longleftrightarrow> (\<forall>a. a \<notin> A \<longrightarrow> cells t' a = cells t a)"

lemma node_at_Some [simp]: "cells t p = Some n \<Longrightarrow> node_at p t = Inr n"
  by (simp add: node_at_def)

lemma upd_at_Some [simp]:
  "cells t p = Some n \<Longrightarrow> upd_at p f t = Inr (t\<lparr>cells := (cells t)(p \<mapsto> f n)\<rparr>)"
  by (simp add: upd_at_def)

lemma keptD: "kept_off A t t' \<Longrightarrow> a \<notin> A \<Longrightarrow> cells t' a = cells t a"
  by (simp add: kept_off_def)

lemma kept_trans: "kept_off A t t' \<Longrightarrow> kept_off B t' t'' \<Longrightarrow> kept_off (A \<union> B) t t''"
  by (simp add: kept_off_def)

lemma kept_mono: "kept_off A t t' \<Longrightarrow> A \<subseteq> B \<Longrightarrow> kept_off B t t'"
  by (auto simp: kept_off_def)

lemma holds_kept:
  "kept_off A t t' \<Longrightarrow> holds (cells t) p T \<Longrightarrow> set (inord T) \<inter> A = {} \<Longrightarrow> holds (cells t') p T"
  using holds_cong [of T "cells t'" "cells t" p] by (auto simp: kept_off_def)

lemma cholds_kept:
  "kept_off A t t' \<Longrightarrow> cholds (cells t) rt x cs \<Longrightarrow> set (cnodes cs) \<inter> A = {} \<Longrightarrow> cholds (cells t') rt x cs"
  using cholds_cong [of cs "cells t'" "cells t" rt x] by (auto simp: kept_off_def)

lemma upd_opt_paint:
  assumes "holds (cells t) q u" and "distinct (inord u)"
  shows "\<exists>t'. upd_opt (addr u) (set_parent_color p c) t = Inr t' \<and> holds (cells t') p (paint c u) \<and>
      kept_off (set (inord u)) t t' \<and> root t' = root t"
    and "\<exists>t'. upd_opt (addr u) (set_parent p) t = Inr t' \<and> holds (cells t') p u \<and>
      kept_off (set (inord u)) t t' \<and> root t' = root t"
  using assms by (cases u; auto simp: upd_opt_def kept_off_def)+

lemma relink_ok:
  assumes c: "cholds (cells t) (root t) x cs" and x: "x \<noteq> 0" "x \<notin> set (cnodes cs)"
    and d: "distinct (cnodes cs)"
  shows "\<exists>t'. relink (caddr cs) x y t = Inr t' \<and> cholds (cells t') (root t') y cs \<and>
    kept_off (set (cnodes cs)) t t'"
proof (cases cs rule: cnodes.cases)
  case 1
  thus ?thesis by (simp add: relink_def kept_off_def)
next
  case (2 s col a u ds)
  have n: "cells t a = Some (mknode s x (addr u) (caddr ds) col)" "a \<noteq> 0" "holds (cells t) a u"
    "cholds (cells t) (root t) a ds" "ptr_ok a"
    using c by (simp_all add: 2)
  have "addr u \<noteq> x" using x addr_mem [of u] by (cases "u = Lf") (auto simp: 2)
  hence "relink a x y t = upd_at a (set_child s y) t"
    using n(1,2) by (cases s) (simp_all add: relink_def mknode_RIGHT)
  hence r: "relink a x y t = Inr (t\<lparr>cells := (cells t)(a \<mapsto> mknode s y (addr u) (caddr ds) col)\<rparr>)"
    using n(1) by simp
  have "a \<notin> set (inord u)" "a \<notin> set (cnodes ds)" using d by (auto simp: 2)
  thus ?thesis using n by (simp add: r 2 kept_off_def)
qed

lemma rotate_ok:
  assumes c: "cholds (cells t) (root t) old cs" and ne: "old \<noteq> new" and old: "ptr_ok old"
    and o_node: "cells t old = Some (mknode s x y (caddr cs) c0)"
    and n_node: "cells t new = Some (mknode s' x' y' p' c')"
    and off: "old \<notin> set (cnodes cs)" "new \<notin> set (cnodes cs)" and d: "distinct (cnodes cs)"
  shows "\<exists>t'. rotate_set_parents old new c t = Inr t' \<and> cholds (cells t') (root t') new cs \<and>
    cells t' old = Some (mknode s x y new c) \<and> cells t' new = Some (mknode s' x' y' (caddr cs) c0) \<and>
    kept_off ({old, new} \<union> set (cnodes cs)) t t'"
proof -
  let ?t = "t\<lparr>cells := (cells t)(new \<mapsto> mknode s' x' y' (caddr cs) c0, old \<mapsto> mknode s x y new c)\<rparr>"
  have "cholds (cells ?t) (root ?t) old cs" using c off by simp
  from relink_ok [OF this _ off(1) d, of new] old
  obtain t' where r: "relink (caddr cs) old new ?t = Inr t'" "cholds (cells t') (root t') new cs"
    "kept_off (set (cnodes cs)) ?t t'" by auto
  have "rotate_set_parents old new c t = relink (caddr cs) old new ?t"
    using ne o_node n_node c by (simp add: rotate_set_parents_def Let_def fun_upd_twist)
  thus ?thesis using r off ne by (auto simp: kept_off_def)
qed

end
