(* ===== verification/Rb_Insert.thy ===== *)
theory Rb_Insert
  imports Rb_Repr
begin

text \<open>
  Insertion into the red-black tree: the loop of \<open>insert_rebalance\<close> on the store computes the function
  \<open>ins_fix\<close> on trees, which keeps the order of the nodes and restores the colour conditions.
\<close>

section \<open>Rebalancing on trees\<close>

fun ins_fix :: "rbt \<Rightarrow> frame list \<Rightarrow> rbt" where
  "ins_fix t [] = paint BLACK t"
| "ins_fix t [(s, c, a, u)] = plug t [(s, c, a, u)]"
| "ins_fix t ((s, c, p, u) # (s2, c2, g, w) # cs) =
     (if c = BLACK then plug t ((s, c, p, u) # (s2, c2, g, w) # cs)
      else if hue w = RED then ins_fix (mk s2 RED g (mk s BLACK p t u) (paint BLACK w)) cs
      else if s = s2 then plug (mk s2 c2 p t (mk s2 RED g (paint BLACK u) w)) cs
      else (case t of
          Lf \<Rightarrow> Lf
        | Nd _ l n r \<Rightarrow>
            (let x = (if s2 = LEFT then l else r); y = (if s2 = LEFT then r else l)
             in plug (mk s2 c2 n (mk s2 RED p u (paint BLACK x)) (mk s2 RED g (paint BLACK y) w)) cs)))"

lemma ins_fix_inner:
  "s \<noteq> s2 \<Longrightarrow> hue w \<noteq> RED \<Longrightarrow>
   ins_fix (mk s2 c n x y) ((s, RED, p, u) # (s2, c2, g, w) # cs) =
     plug (mk s2 c2 n (mk s2 RED p u (paint BLACK x)) (mk s2 RED g (paint BLACK y) w)) cs"
  by (cases s2) (simp_all add: mk_def)

lemma inord_ins_fix:
  assumes "t \<noteq> Lf"
  shows "inord (ins_fix t cs) = before cs @ inord t @ after cs"
  using assms
proof (induction t cs rule: ins_fix.induct)
  case (3 t s c p u s2 c2 g w cs)
  obtain d n x y where t: "t = mk s2 d n x y" using mk_exhaust [OF 3(2)] .
  show ?case
  proof (cases "c = BLACK \<or> hue w = RED \<or> s = s2")
    case True
    thus ?thesis using 3 by (cases s; cases s2) (auto simp: inord_plug mk_def)
  next
    case False
    hence "c = RED" "s = other s2" by (cases c; cases s; cases s2; auto)+
    thus ?thesis using False by (cases s2) (auto simp: t ins_fix_inner inord_plug mk_def)
  qed
qed (auto simp: inord_plug mk_def split: side.split)

section \<open>One turn of the loop\<close>

lemma focusD:
  assumes "focus t T ((s, c, a, u) # cs)"
  shows "cells t a = Some (mknode s (addr T) (addr u) (caddr cs) c)" and "ptr_ok a"
    and "holds (cells t) a T" and "holds (cells t) a u" and "cholds (cells t) (root t) a cs"
    and "distinct (inord T)" and "distinct (inord u)" and "distinct (cnodes cs)"
    and "a \<notin> set (inord T)" "a \<notin> set (inord u)" "a \<notin> set (cnodes cs)"
    and "set (inord T) \<inter> set (inord u) = {}" "set (inord T) \<inter> set (cnodes cs) = {}"
    "set (inord u) \<inter> set (cnodes cs) = {}"
  using assms by (auto simp: focus_def)

lemma red_at_ok: "holds (cells t) g w \<Longrightarrow> red_at (addr w) t = Inr (hue w = RED)"
  by (cases w) (auto simp: red_at_def)

lemma red_uncle_ok:
  assumes f: "focus t T ((s1, RED, p, u) # (s, c2, g, w) # cs)" and w: "hue w = RED"
  shows "\<exists>t'. insert_side s (addr T) p g t = Inr (Again g (caddr cs) t') \<and>
    focus t' (mk s RED g (mk s1 BLACK p T u) (paint BLACK w)) cs \<and>
    kept_off (set (inord w) \<union> {p, g}) t t'"
proof -
  have "w \<noteq> Lf" using w by auto
  then obtain x y a where w: "w = mk s RED a x y" using w mk_exhaust [of w s] by (metis mk_simps(2))
  note g = f [unfolded focus_frame [of _ _ s1]]
  note a = focusD [OF f] and b = focusD [OF g]
  have r: "red_at a t = Inr True" using red_at_ok [OF b(4)] by (simp add: w)
  show ?thesis using a b by (auto simp: insert_side_def insert_flip_def w r focus_def kept_off_def)
qed

text \<open>The final rotation at the grandparent, shared by the two cases.\<close>

lemma insert_rotate_ok:
  assumes g: "cells t g = Some (mknode s z (addr w) (caddr cs) c2)"
    and p: "cells t p = Some (mknode s (addr x) (addr y) q c)"
    and h: "holds (cells t) p x" "holds (cells t) p y" "holds (cells t) g w"
    and c: "cholds (cells t) (root t) g cs" and ok: "ptr_ok p" "ptr_ok g"
    and d: "distinct (p # g # inord x @ inord y @ inord w @ cnodes cs)"
  shows "\<exists>t'. insert_rotate s g (t, p, addr y) = Inr (Done t') \<and>
     focus t' (mk s c2 p x (mk s RED g (paint BLACK y) w)) cs \<and>
     kept_off (insert p (insert g (set (inord y) \<union> set (cnodes cs)))) t t'"
proof -
  let ?t1 = "t\<lparr>cells := (cells t)(g \<mapsto> mknode s (addr y) (addr w) (caddr cs) c2,
      p \<mapsto> mknode s (addr x) g q c)\<rparr>"
  have "holds (cells ?t1) p y" using h d by auto
  then obtain t2 where t2: "upd_opt (addr y) (set_parent_color g BLACK) ?t1 = Inr t2"
    "holds (cells t2) g (paint BLACK y)" "kept_off (set (inord y)) ?t1 t2" "root t2 = root t"
    using upd_opt_paint(1) [of ?t1 p y g BLACK] d by auto
  have g2: "cells t2 g = Some (mknode s (addr y) (addr w) (caddr cs) c2)"
    and p2: "cells t2 p = Some (mknode s (addr x) g q c)"
    using keptD [OF t2(3)] d by auto
  have "cholds (cells ?t1) (root t2) g cs" using c t2(4) d by auto
  from cholds_kept [OF t2(3) this] d have c2: "cholds (cells t2) (root t2) g cs" by auto
  obtain t3 where t3: "rotate_set_parents g p RED t2 = Inr t3" "cholds (cells t3) (root t3) p cs"
    "cells t3 g = Some (mknode s (addr y) (addr w) p RED)"
    "cells t3 p = Some (mknode s (addr x) g (caddr cs) c2)"
    "kept_off ({g, p} \<union> set (cnodes cs)) t2 t3"
    using rotate_ok [OF c2 _ ok(2) g2 p2, of RED] d by auto
  have k: "holds (cells t3) a T" if "holds (cells t) a T"
      "set (inord T) \<inter> insert p (insert g (set (inord y) \<union> set (cnodes cs))) = {}" for a T
    using that holds_kept [OF t3(5), of a T] holds_kept [OF t2(3), of a T] by auto
  have y3: "holds (cells t3) g (paint BLACK y)" by (rule holds_kept [OF t3(5) t2(2)]) (use d in auto)
  have "focus t3 (mk s c2 p x (mk s RED g (paint BLACK y) w)) cs"
    using t3(2-4) ok y3 k [OF h(1)] k [OF h(3)] d by (auto simp: focus_def)
  moreover have "kept_off (insert p (insert g (set (inord y) \<union> set (cnodes cs)))) t t3"
    using t2(3) t3(5) by (auto simp: kept_off_def)
  moreover have "upd_at p (set_child (other s) g)
      (t\<lparr>cells := (cells t)(g \<mapsto> mknode s (addr y) (addr w) (caddr cs) c2)\<rparr>) = Inr ?t1"
    using p d by simp
  ultimately show ?thesis using g t2(1) t3(1) by (auto simp: insert_rotate_def)
qed

lemma insert_outer_ok:
  assumes f: "focus t T ((s, RED, p, u) # (s, c2, g, w) # cs)" and w: "hue w \<noteq> RED" and T: "T \<noteq> Lf"
  shows "\<exists>t'. insert_side s (addr T) p g t = Inr (Done t') \<and>
    focus t' (mk s c2 p T (mk s RED g (paint BLACK u) w)) cs \<and>
    kept_off (insert p (insert g (set (inord u) \<union> set (cnodes cs)))) t t'"
proof -
  note a = focusD [OF f] and b = focusD [OF f [unfolded focus_frame [of _ _ s RED]]]
  have "addr T \<noteq> addr u" using addr_mem [OF T] addr_mem [of u] a(3,12) T by (cases "u = Lf") (auto simp: addr_0_iff)
  moreover have "distinct (p # g # inord T @ inord u @ inord w @ cnodes cs)" using f by (auto simp: focus_def)
  note insert_rotate_ok [OF b(1) a(1,3,4) b(4,5) a(2) b(2) this]
  ultimately show ?thesis using a(1) b(1) red_at_ok [OF b(4)] w by (simp add: insert_side_def)
qed

lemma insert_inner_ok:
  assumes n: "cells t n = Some (mknode s (addr x) (addr y) p c)"
    and p: "cells t p = Some (mknode s (addr u) n q d)"
    and h: "holds (cells t) n x" "holds (cells t) n y" "holds (cells t) p u" and ok: "ptr_ok p" "ptr_ok n"
    and d: "distinct (n # p # inord x @ inord y @ inord u)"
  shows "\<exists>t'. insert_inner s n p t = Inr (t', n, addr y) \<and>
    cells t' n = Some (mknode s p (addr y) p c) \<and> holds (cells t') n (mk s RED p u (paint BLACK x)) \<and>
    holds (cells t') n y \<and> root t' = root t \<and> kept_off (insert n (insert p (set (inord x)))) t t'"
proof -
  let ?t1 = "t\<lparr>cells := (cells t)(p \<mapsto> mknode s (addr u) (addr x) q d, n \<mapsto> mknode s p (addr y) p c)\<rparr>"
  have "holds (cells ?t1) n x" using h d by auto
  then obtain t2 where t2: "upd_opt (addr x) (set_parent_color p BLACK) ?t1 = Inr t2"
    "holds (cells t2) p (paint BLACK x)" "kept_off (set (inord x)) ?t1 t2" "root t2 = root t"
    using upd_opt_paint(1) [of ?t1 n x p BLACK] d by auto
  have n2: "cells t2 n = Some (mknode s p (addr y) p c)"
    and p2: "cells t2 p = Some (mknode s (addr u) (addr x) q d)"
    using keptD [OF t2(3)] d by auto
  have "holds (cells t2) n y" "holds (cells t2) p u"
    by (rule holds_kept [OF t2(3)]; use h d in auto)+
  moreover have "insert_inner s n p t =
      Inr (t2\<lparr>cells := (cells t2)(p \<mapsto> mknode s (addr u) (addr x) n RED)\<rparr>, n, addr y)"
    using n p t2(1) n2 p2 d by (simp add: insert_inner_def)
  ultimately show ?thesis using n2 t2(2-4) ok d by (auto simp: kept_off_def)
qed

lemma insert_inner_case_ok:
  assumes f: "focus t (mk s c n x y) ((other s, RED, p, u) # (s, c2, g, w) # cs)" and w: "hue w \<noteq> RED"
  shows "\<exists>t'. insert_side s n p g t = Inr (Done t') \<and>
    focus t' (mk s c2 n (mk s RED p u (paint BLACK x)) (mk s RED g (paint BLACK y) w)) cs \<and>
    kept_off ({n, p, g} \<union> set (inord x) \<union> set (inord y) \<union> set (cnodes cs)) t t'"
proof -
  note a = focusD [OF f] and b = focusD [OF f [unfolded focus_frame [of _ _ "other s"]]]
  have d: "distinct (n # p # inord x @ inord y @ inord u)"
    "distinct (n # g # p # inord u @ inord x @ inord y @ inord w @ cnodes cs)"
    using f by (auto simp: focus_def)
  obtain t1 where t1: "insert_inner s n p t = Inr (t1, n, addr y)"
    "cells t1 n = Some (mknode s p (addr y) p c)" "holds (cells t1) n (mk s RED p u (paint BLACK x))"
    "holds (cells t1) n y" "root t1 = root t" "kept_off (insert n (insert p (set (inord x)))) t t1"
    using insert_inner_ok [of t n s x y p c u g RED, OF _ _ _ _ a(4,2) _ d(1)] a(1,3) by auto
  have g1: "cells t1 g = Some (mknode s p (addr w) (caddr cs) c2)" using keptD [OF t1(6), of g] b(1) d by auto
  have w1: "holds (cells t1) g w" by (rule holds_kept [OF t1(6) b(4)]) (use d in auto)
  have c1: "cholds (cells t1) (root t1) g cs"
    unfolding t1(5) by (rule cholds_kept [OF t1(6) b(5)]) (use d in auto)
  have n1: "cells t1 n = Some (mknode s (addr (mk s RED p u (paint BLACK x))) (addr y) p c)"
    using t1(2) by simp
  have "distinct (n # g # inord (mk s RED p u (paint BLACK x)) @ inord y @ inord w @ cnodes cs)"
    using d by auto
  from insert_rotate_ok [OF g1 n1 t1(3,4) w1 c1 _ b(2) this] a(3)
  obtain t2 where t2: "insert_rotate s g (t1, n, addr y) = Inr (Done t2)"
    "focus t2 (mk s c2 n (mk s RED p u (paint BLACK x)) (mk s RED g (paint BLACK y) w)) cs"
    "kept_off (insert n (insert g (set (inord y) \<union> set (cnodes cs)))) t1 t2" by auto
  have "insert_side s n p g t = Inr (Done t2)"
    using a(1) b(1) red_at_ok [OF b(4)] w t1(1) t2(1) by (simp add: insert_side_def)
  moreover have "kept_off ({n, p, g} \<union> set (inord x) \<union> set (inord y) \<union> set (cnodes cs)) t t2"
    by (rule kept_mono [OF kept_trans [OF t1(6) t2(3)]]) auto
  ultimately show ?thesis using t2(2) by blast
qed

section \<open>The loop\<close>

lemma insert_turn_side:
  assumes f: "focus t T ((s1, RED, p, u) # (s, c2, g, w) # cs)"
  shows "insert_turn (addr T) p t = insert_side s (addr T) p g t"
proof -
  note a = focusD [OF f] and b = focusD [OF f [unfolded focus_frame [of _ _ s1]]]
  have "p \<noteq> addr w" using b(12) addr_mem [of w] a(2) by (cases "w = Lf") auto
  thus ?thesis using a(1,2) b(1,2) by (cases s) (simp_all add: insert_turn_def mknode_RIGHT)
qed

definition black_top :: "frame list \<Rightarrow> bool" where
  "black_top cs \<longleftrightarrow> (cs \<noteq> [] \<longrightarrow> fst (snd (last cs)) = BLACK)"

lemma insert_turn_done:
  assumes f: "focus t T ((s1, RED, p, u) # (s, c2, g, w) # cs)" and w: "hue w \<noteq> RED" and T: "T \<noteq> Lf"
  shows "\<exists>t'. insert_turn (addr T) p t = Inr (Done t') \<and>
    represents t' (ins_fix T ((s1, RED, p, u) # (s, c2, g, w) # cs)) \<and>
    kept_off (set (inord T @ cnodes ((s1, RED, p, u) # (s, c2, g, w) # cs))) t t'"
proof (cases "s1 = s")
  case True
  from insert_outer_ok [OF f [unfolded True] w T] obtain t' where t': "insert_side s (addr T) p g t = Inr (Done t')"
    "focus t' (mk s c2 p T (mk s RED g (paint BLACK u) w)) cs"
    "kept_off (insert p (insert g (set (inord u) \<union> set (cnodes cs)))) t t'" by blast
  have "kept_off (set (inord T @ cnodes ((s1, RED, p, u) # (s, c2, g, w) # cs))) t t'"
    by (rule kept_mono [OF t'(3)]) auto
  thus ?thesis using t'(1,2) w True unfolding insert_turn_side [OF f] by (simp add: represents_plug)
next
  case False
  hence s1: "s1 = other s" by (cases s1; cases s) simp_all
  obtain c n x y where T: "T = mk s c n x y" using mk_exhaust [OF T] .
  from insert_inner_case_ok [OF f [unfolded s1 T] w] obtain t' where t': "insert_side s n p g t = Inr (Done t')"
    "focus t' (mk s c2 n (mk s RED p u (paint BLACK x)) (mk s RED g (paint BLACK y) w)) cs"
    "kept_off ({n, p, g} \<union> set (inord x) \<union> set (inord y) \<union> set (cnodes cs)) t t'" by blast
  have "kept_off (set (inord T @ cnodes ((s1, RED, p, u) # (s, c2, g, w) # cs))) t t'"
    by (rule kept_mono [OF t'(3)]) (auto simp: T)
  moreover have "ins_fix T ((s1, RED, p, u) # (s, c2, g, w) # cs) =
      plug (mk s c2 n (mk s RED p u (paint BLACK x)) (mk s RED g (paint BLACK y) w)) cs"
    unfolding T s1 by (rule ins_fix_inner) (use w in auto)
  ultimately show ?thesis using t'(1,2) T unfolding insert_turn_side [OF f] by (simp add: represents_plug)
qed

lemma insert_turn_top:
  assumes "focus t T []" and "T \<noteq> Lf"
  shows "\<exists>t'. insert_turn (addr T) 0 t = Inr (Done t') \<and> represents t' (paint BLACK T) \<and>
    kept_off (set (inord T)) t t'"
  using assms by (cases T) (auto simp: insert_turn_def focus_def represents_def kept_off_def)

lemma insert_loop_ok:
  assumes "focus t T cs" and "T \<noteq> Lf" and "black_top cs"
  shows "\<exists>t'. insert_loop (addr T) (caddr cs) t = Some (Inr t') \<and> represents t' (ins_fix T cs) \<and>
    kept_off (set (inord T @ cnodes cs)) t t'"
  using assms
proof (induction T cs arbitrary: t rule: ins_fix.induct)
  case (1 T)
  from insert_turn_top [OF 1(1,2)] obtain t' where "insert_turn (addr T) 0 t = Inr (Done t')"
    "represents t' (paint BLACK T)" "kept_off (set (inord T)) t t'" by blast
  thus ?case by (simp add: insert_loop.simps)
next
  case (2 T s c a u)
  hence "insert_turn (addr T) a t = Inr (Done t)"
    using focusD(1,2) [OF 2(1)] by (simp add: insert_turn_def black_top_def)
  thus ?case using 2(1) by (simp add: insert_loop.simps represents_plug [symmetric] kept_off_def)
next
  case (3 T s1 c p u s c2 g w cs)
  consider "c = BLACK" | "c = RED" "hue w = RED" | "c = RED" "hue w \<noteq> RED" by (cases c) auto
  thus ?case
  proof cases
    case 1
    hence "insert_turn (addr T) p t = Inr (Done t)"
      using focusD(1,2) [OF 3(2)] by (simp add: insert_turn_def)
    thus ?thesis using 3(2) 1 by (simp add: insert_loop.simps represents_plug [symmetric] kept_off_def)
  next
    case 2
    let ?T = "mk s RED g (mk s1 BLACK p T u) (paint BLACK w)"
    from red_uncle_ok [OF 3(2) [unfolded 2(1)] 2(2)] obtain t1
      where t1: "insert_side s (addr T) p g t = Inr (Again g (caddr cs) t1)" "focus t1 ?T cs"
        "kept_off (set (inord w) \<union> {p, g}) t t1" by blast
    have "black_top cs" using 3(4) by (auto simp: black_top_def)
    from 3(1) [OF _ 2(2) t1(2) _ this] 2 obtain t' where
      t': "insert_loop g (caddr cs) t1 = Some (Inr t')" "represents t' (ins_fix ?T cs)"
        "kept_off (set (inord ?T @ cnodes cs)) t1 t'" by auto
    have "kept_off (set (inord T @ cnodes ((s1, c, p, u) # (s, c2, g, w) # cs))) t t'"
      by (rule kept_mono [OF kept_trans [OF t1(3) t'(3)]]) auto
    moreover have "insert_turn (addr T) p t = Inr (Again g (caddr cs) t1)"
      using insert_turn_side [OF 3(2) [unfolded 2(1)]] t1(1) by simp
    ultimately show ?thesis using t'(1,2) 2 by (simp add: insert_loop.simps [of "addr T"])
  next
    case 3
    note d = insert_turn_done [OF \<open>focus t T _\<close> [unfolded 3(1)] 3(2) \<open>T \<noteq> Lf\<close>]
    thus ?thesis unfolding 3(1) by (auto simp: insert_loop.simps [of "addr T"])
  qed
qed

section \<open>Colour conditions\<close>

primrec bheight :: "rbt \<Rightarrow> nat" where
  "bheight Lf = 0"
| "bheight (Nd c l a r) = (if c = BLACK then Suc (bheight l) else bheight l)"

primrec invc :: "rbt \<Rightarrow> bool" where
  "invc Lf \<longleftrightarrow> True"
| "invc (Nd c l a r) \<longleftrightarrow> invc l \<and> invc r \<and> (c = RED \<longrightarrow> hue l = BLACK \<and> hue r = BLACK)"

primrec invh :: "rbt \<Rightarrow> bool" where
  "invh Lf \<longleftrightarrow> True"
| "invh (Nd c l a r) \<longleftrightarrow> invh l \<and> invh r \<and> bheight l = bheight r"

definition rb_ok :: "rbt \<Rightarrow> bool" where
  "rb_ok t \<longleftrightarrow> invc t \<and> invh t \<and> hue t = BLACK"

text \<open>A context that takes a subtree of a given colour and black height.\<close>

fun ctx_ok :: "color \<Rightarrow> nat \<Rightarrow> frame list \<Rightarrow> bool" where
  "ctx_ok k h [] \<longleftrightarrow> k = BLACK"
| "ctx_ok k h ((s, c, a, u) # cs) \<longleftrightarrow>
     invc u \<and> invh u \<and> bheight u = h \<and> (c = RED \<longrightarrow> k = BLACK \<and> hue u = BLACK) \<and>
     ctx_ok c (if c = BLACK then Suc h else h) cs"

lemma inv_mk [simp]:
  "invc (mk s c a x y) \<longleftrightarrow> invc x \<and> invc y \<and> (c = RED \<longrightarrow> hue x = BLACK \<and> hue y = BLACK)"
  "invh (mk s c a x y) \<longleftrightarrow> invh x \<and> invh y \<and> bheight x = bheight y"
  "bheight x = bheight y \<Longrightarrow> bheight (mk s c a x y) = (if c = BLACK then Suc (bheight x) else bheight x)"
  by (cases s; auto simp: mk_def)+

lemma paint_inv [simp]:
  "invh (paint c t) = invh t"
  "invc t \<Longrightarrow> invc (paint BLACK t)"
  by (cases t; simp)+

lemma paint_id: "hue t = BLACK \<Longrightarrow> paint BLACK t = t"
  by (cases t) auto

lemma bheight_paint_red: "hue t = RED \<Longrightarrow> bheight (paint BLACK t) = Suc (bheight t)"
  by (cases t) auto

lemma rb_ok_plug: "rb_ok (plug t cs) \<longleftrightarrow> invc t \<and> invh t \<and> ctx_ok (hue t) (bheight t) cs"
proof (induction t cs rule: plug.induct)
  case (2 t s c a u cs)
  show ?case unfolding plug.simps 2 by (cases "bheight t = bheight u") auto
qed (auto simp: rb_ok_def)

lemma hue_neq [simp]: "c \<noteq> RED \<longleftrightarrow> c = BLACK" "c \<noteq> BLACK \<longleftrightarrow> c = RED"
  by (cases c; simp)+

lemma ctx_ok_black: "ctx_ok RED h cs \<Longrightarrow> ctx_ok BLACK h cs"
  by (cases cs rule: cnodes.cases) auto

lemma ctx_ok_black_top: "ctx_ok k h cs \<Longrightarrow> black_top cs"
  by (induction k h cs rule: ctx_ok.induct) (auto simp: black_top_def)

lemma rb_ok_ins_fix:
  assumes "invc t" and "invh t" and "hue t = RED" and "ctx_ok BLACK (bheight t) cs"
  shows "rb_ok (ins_fix t cs)"
  using assms
proof (induction t cs rule: ins_fix.induct)
  case (1 t)
  thus ?case by (cases t) (auto simp: rb_ok_def)
next
  case (2 t s c a u)
  thus ?case by (auto simp: rb_ok_plug [of t "[(s, c, a, u)]", unfolded plug.simps] rb_ok_def)
next
  case (3 t s c p u s2 c2 g w cs)
  show ?case
  proof (cases "c = BLACK \<or> hue w = RED")
    case True
    thus ?thesis using 3
      by (auto simp: rb_ok_plug bheight_paint_red paint_id intro: ctx_ok_black)
  next
    case False
    obtain d n x y where t: "t = mk s2 d n x y" using mk_exhaust [of t] 3(4) by (metis hue.simps(1) color.distinct(1))
    show ?thesis
    proof (cases "s = s2")
      case True
      thus ?thesis using 3(2-5) False by (auto simp: rb_ok_plug paint_id)
    next
      case s: False
      have c: "c = RED" and w: "hue w \<noteq> RED" using False by auto
      show ?thesis using 3(2-5) False unfolding t c ins_fix_inner [OF s w] by (auto simp: rb_ok_plug paint_id)
    qed
  qed
qed

section \<open>The place of a new node\<close>

fun place :: "(u64 \<Rightarrow> int) \<Rightarrow> rbt \<Rightarrow> frame list \<Rightarrow> frame list option" where
  "place cmp Lf cs = Some cs"
| "place cmp (Nd c l a r) cs =
     (if cmp a = RBT_EQUALS then None
      else if cmp a = RBT_LESS_THAN then place cmp l ((LEFT, c, a, r) # cs)
      else place cmp r ((RIGHT, c, a, l) # cs))"

lemma bst_descend_ok:
  assumes "holds (cells t) (caddr cs) T"
  shows "bst_descend cmp t (caddr cs) (addr T) = Some (Inr (map_option caddr (place cmp T cs)))"
  using assms
proof (induction cmp T cs rule: place.induct)
  case (2 cmp c l a r cs)
  thus ?case by (simp add: bst_descend.simps [of cmp t "caddr cs" a])
qed (simp add: bst_descend.simps)

lemma place_plug: "place cmp T cs = Some ds \<Longrightarrow> plug Lf ds = plug T cs"
  by (induction cmp T cs rule: place.induct) (auto simp: mk_def split: if_splits)

lemma place_side:
  assumes "place cmp T cs = Some ((s, c, a, u) # ds)"
    and "\<forall>(s, c, a, u)\<in>set cs. s = (if cmp a = RBT_LESS_THAN then LEFT else RIGHT)"
  shows "s = (if cmp a = RBT_LESS_THAN then LEFT else RIGHT)"
  using assms by (induction cmp T cs rule: place.induct) (auto split: if_splits)

lemma place_order:
  assumes "inord T = ls @ rs" and "\<forall>a\<in>set ls. cmp a \<noteq> RBT_EQUALS \<and> cmp a \<noteq> RBT_LESS_THAN"
    and "\<forall>a\<in>set rs. cmp a = RBT_LESS_THAN"
  shows "\<exists>ds. place cmp T cs = Some ds \<and> before ds = before cs @ ls \<and> after ds = rs @ after cs"
  using assms
proof (induction T arbitrary: ls rs cs)
  case (Nd c l a r)
  have le: "RBT_LESS_THAN \<noteq> RBT_EQUALS" by (simp add: RBT_LESS_THAN_def RBT_EQUALS_def)
  show ?case
  proof (cases "cmp a = RBT_LESS_THAN")
    case True
    then obtain us where "rs = us @ a # inord r" "inord l = ls @ us"
      using Nd.prems by (auto simp: append_eq_append_conv2 append_eq_Cons_conv Cons_eq_append_conv)
    thus ?thesis using Nd.IH(1) [of ls us "(LEFT, c, a, r) # cs"] Nd.prems True le by auto
  next
    case False
    then obtain us where "ls = inord l @ a # us" "inord r = us @ rs"
      using Nd.prems by (auto simp: append_eq_append_conv2 append_eq_Cons_conv Cons_eq_append_conv)
    thus ?thesis using Nd.IH(2) [of us rs "(RIGHT, c, a, l) # cs"] Nd.prems False by auto
  qed
qed auto

lemma place_found:
  assumes "inord T = ls @ e # rs" and "cmp e = RBT_EQUALS"
    and "\<forall>a\<in>set ls. cmp a \<noteq> RBT_EQUALS \<and> cmp a \<noteq> RBT_LESS_THAN" and "\<forall>a\<in>set rs. cmp a = RBT_LESS_THAN"
  shows "place cmp T cs = None"
  using assms
proof (induction T arbitrary: ls rs cs)
  case (Nd c l a r)
  have le: "RBT_LESS_THAN \<noteq> RBT_EQUALS" by (simp add: RBT_LESS_THAN_def RBT_EQUALS_def)
  consider "a = e" | us where "rs = us @ a # inord r" "inord l = ls @ e # us"
    | us where "ls = inord l @ a # us" "inord r = us @ e # rs"
    using Nd.prems(1) by (auto simp: append_eq_append_conv2 append_eq_Cons_conv Cons_eq_append_conv)
  thus ?case
    by cases (use Nd.prems le Nd.IH(1) [of ls _ "(LEFT, c, a, r) # cs"]
        Nd.IH(2) [of _ rs "(RIGHT, c, a, l) # cs"] in auto)
qed simp

lemma bst_insert_ok:
  assumes r: "represents t T" and n: "ptr_ok n" "n \<notin> set (inord T)" "cells t n \<noteq> None"
    and p: "place cmp T [] = Some ds"
  shows "ds = [] \<Longrightarrow> \<exists>t'. bst_insert cmp n t = Inr (t', COND_OK) \<and> represents t' (Nd BLACK Lf n Lf) \<and>
      kept_off {n} t t'"
    and "ds \<noteq> [] \<Longrightarrow> \<exists>t'. bst_insert cmp n t = Inr (t', COND_REBALANCE) \<and> focus t' (Nd RED Lf n Lf) ds \<and>
      kept_off (insert n (set (inord T))) t t'"
proof -
  obtain m where m: "cells t n = Some m" using n(3) by auto
  have h: "holds (cells t) 0 T" and root: "root t = addr T" using r by (auto simp: represents_def)
  have d: "bst_descend cmp t 0 (root t) = Some (Inr (Some (caddr ds)))"
    using bst_descend_ok [of t "[]" T cmp] h p by (simp add: root)
  have f: "focus t Lf ds" using r unfolding represents_plug [symmetric] place_plug [OF p] by simp
  have nodes: "set (cnodes ds) = set (inord T)"
    using place_plug [OF p] inord_plug [of Lf ds] by (simp add: set_cnodes)
  have new: "set_parent_color q c (m\<lparr>rb_left := 0, rb_right := 0\<rparr>) = mknode LEFT 0 0 q c" for q c
    by (cases m) (simp add: set_parent_color_def mknode_def pk_def)
  show "\<exists>t'. bst_insert cmp n t = Inr (t', COND_OK) \<and> represents t' (Nd BLACK Lf n Lf) \<and> kept_off {n} t t'"
    if "ds = []"
    using that n m d by (simp add: bst_insert_def returns_def new represents_def kept_off_def)
  show "\<exists>t'. bst_insert cmp n t = Inr (t', COND_REBALANCE) \<and> focus t' (Nd RED Lf n Lf) ds \<and>
      kept_off (insert n (set (inord T))) t t'" if ne: "ds \<noteq> []"
  proof -
    obtain s c a u cs where ds: "ds = (s, c, a, u) # cs" using ne by (cases ds rule: cnodes.cases) auto
    have s: "s = (if cmp a = RBT_LESS_THAN then LEFT else RIGHT)" using place_side p by (auto simp: ds)
    note a = focusD [OF f [unfolded ds]]
    have "n \<noteq> a" "n \<notin> set (inord u)" "n \<notin> set (cnodes cs)" using n(2) nodes by (auto simp: ds)
    thus ?thesis using a n m d nodes
      by (simp add: bst_insert_def returns_def new ds focus_def kept_off_def flip: s) (auto simp: ds)
  qed
qed

section \<open>Insertion\<close>

text \<open>The nodes of a tree in order; the colour conditions hold.\<close>

definition rb_nodes :: "rbtree \<Rightarrow> u64 list \<Rightarrow> bool" where
  "rb_nodes t xs \<longleftrightarrow> (\<exists>T. represents t T \<and> rb_ok T \<and> inord T = xs)"

lemma insert_place_ok:
  assumes r: "represents t T" and ok: "rb_ok T" and n: "ptr_ok n" "n \<notin> set (inord T)" "cells t n \<noteq> None"
    and p: "place cmp T [] = Some ds"
  shows "\<exists>t'. rbind (bst_insert cmp n t) (insert_result n) = Inr (t', RBT_INSERT_OK) \<and>
    rb_nodes t' (before ds @ n # after ds) \<and> kept_off (insert n (set (inord T))) t t'"
proof (cases "ds = []")
  case True
  from bst_insert_ok(1) [OF r n p True] obtain t' where "bst_insert cmp n t = Inr (t', COND_OK)"
    "represents t' (Nd BLACK Lf n Lf)" "kept_off {n} t t'" by blast
  moreover have "rb_ok (Nd BLACK Lf n Lf)" by (simp add: rb_ok_def)
  ultimately show ?thesis using True kept_mono [of "{n}" t t']
    by (auto simp: insert_result_def rb_nodes_def intro!: exI [of _ "Nd BLACK Lf n Lf"])
next
  case False
  let ?N = "Nd RED Lf n Lf"
  from bst_insert_ok(2) [OF r n p False] obtain t1 where t1: "bst_insert cmp n t = Inr (t1, COND_REBALANCE)"
    "focus t1 ?N ds" "kept_off (insert n (set (inord T))) t t1" by blast
  have c: "ctx_ok BLACK 0 ds" using ok unfolding place_plug [OF p, simplified, symmetric] by (simp add: rb_ok_plug)
  from insert_loop_ok [OF t1(2) _ ctx_ok_black_top [OF c]] obtain t' where
    t': "insert_loop n (caddr ds) t1 = Some (Inr t')" "represents t' (ins_fix ?N ds)"
      "kept_off (insert n (set (cnodes ds))) t1 t'" by auto
  have "insert_rebalance n t1 = Inr t'"
    using t1(2) t'(1) by (auto simp: insert_rebalance_def focus_def returns_def)
  moreover have "rb_ok (ins_fix ?N ds)" using rb_ok_ins_fix [of ?N ds] c by simp
  moreover have "inord (ins_fix ?N ds) = before ds @ n # after ds" using inord_ins_fix [of ?N ds] by simp
  moreover have "set (cnodes ds) = set (inord T)"
    using place_plug [OF p] inord_plug [of Lf ds] by (simp add: set_cnodes)
  hence "kept_off (insert n (set (inord T))) t t'" using kept_trans [OF t1(3) t'(3)] by simp
  ultimately show ?thesis using t1(1) t'(2) by (auto simp: insert_result_def rb_nodes_def)
qed

lemma rbt_insert_ok:
  assumes "rb_nodes t (ls @ rs)" and "ptr_ok n" and "n \<notin> set (ls @ rs)" and "cells t n \<noteq> None"
    and "\<forall>a\<in>set ls. cmp a \<noteq> RBT_EQUALS \<and> cmp a \<noteq> RBT_LESS_THAN" and "\<forall>a\<in>set rs. cmp a = RBT_LESS_THAN"
  shows "\<exists>t'. rbind (bst_insert cmp n t) (insert_result n) = Inr (t', RBT_INSERT_OK) \<and>
    rb_nodes t' (ls @ n # rs) \<and> kept_off (insert n (set (ls @ rs))) t t'"
proof -
  obtain T where T: "represents t T" "rb_ok T" "inord T = ls @ rs" using assms(1) by (auto simp: rb_nodes_def)
  obtain ds where ds: "place cmp T [] = Some ds" "before ds = ls" "after ds = rs"
    using place_order [OF T(3) assms(5,6), of "[]"] by auto
  show ?thesis using insert_place_ok [OF T(1,2) assms(2) _ assms(4) ds(1)] assms(3) by (simp add: T(3) ds)
qed

lemma rbt_insert_exists:
  assumes "rb_nodes t (ls @ e # rs)" and "cmp e = RBT_EQUALS"
    and "\<forall>a\<in>set ls. cmp a \<noteq> RBT_EQUALS \<and> cmp a \<noteq> RBT_LESS_THAN" and "\<forall>a\<in>set rs. cmp a = RBT_LESS_THAN"
  shows "rbind (bst_insert cmp n t) (insert_result n) = Inr (t, RBT_INSERT_EXISTS)"
proof -
  obtain T where T: "represents t T" "inord T = ls @ e # rs" using assms(1) by (auto simp: rb_nodes_def)
  have "bst_descend cmp t 0 (root t) = Some (Inr None)"
    using bst_descend_ok [of t "[]" T cmp] place_found [OF T(2) assms(2-4), of "[]"] T(1)
    by (simp add: represents_def)
  thus ?thesis by (simp add: bst_insert_def returns_def insert_result_def)
qed

end
