(* ===== verification/Rb_Remove.thy ===== *)
theory Rb_Remove
  imports Rb_Insert
begin

text \<open>
  Removal from the red-black tree.  The loop of \<open>erase_color\<close> computes \<open>del_fix\<close>, which makes up for the
  black node that one subtree lacks.
\<close>

section \<open>Rebalancing on trees\<close>

definition near :: "side \<Rightarrow> rbt \<Rightarrow> rbt" where
  "near s u = (case u of Lf \<Rightarrow> Lf | Nd c l a r \<Rightarrow> (if s = LEFT then l else r))"

definition far :: "side \<Rightarrow> rbt \<Rightarrow> rbt" where
  "far s u = (case u of Lf \<Rightarrow> Lf | Nd c l a r \<Rightarrow> (if s = LEFT then r else l))"

lemma near_far_mk [simp]: "near s (mk s c a x y) = x" "far s (mk s c a x y) = y"
  by (cases s; simp add: near_def far_def mk_def)+

text \<open>With a black sibling \<open>u\<close>: the new subtree and whether it still lacks a black node.\<close>

definition erase_tree :: "side \<Rightarrow> color \<Rightarrow> u64 \<Rightarrow> rbt \<Rightarrow> rbt \<Rightarrow> rbt \<times> bool" where
  "erase_tree s c p t u =
     (if hue (far s u) = BLACK then
        if hue (near s u) = BLACK then (mk s BLACK p t (paint RED u), c = BLACK)
        else (let n = near s u in
          (mk s c (addr n) (mk s BLACK p t (near s n))
            (mk s BLACK (addr u) (paint BLACK (far s n)) (far s u)), False))
      else (mk s c (addr u) (mk s BLACK p t (near s u)) (paint BLACK (far s u)), False))"

fun del_fix :: "rbt \<Rightarrow> frame list \<Rightarrow> rbt" where
  "del_fix t [] = t"
| "del_fix t ((s, c, p, u) # cs) =
     (if hue u = RED
      then plug (fst (erase_tree s RED p t (paint BLACK (near s u)))) ((s, c, addr u, far s u) # cs)
      else if snd (erase_tree s c p t u) then del_fix (fst (erase_tree s c p t u)) cs
      else plug (fst (erase_tree s c p t u)) cs)"

section \<open>One turn of the loop\<close>

lemma erase_rotate_ok:
  assumes p: "cells t p = Some (mknode s (addr T) z (caddr cs) c)"
    and a: "cells t a = Some (mknode s (addr x) (addr y) qa ca)"
    and h: "holds (cells t) p T" "holds (cells t) a x" "holds (cells t) q y" "y \<noteq> Lf"
    and c: "cholds (cells t) (root t) p cs" and ok: "ptr_ok p" "ptr_ok a"
    and d: "distinct (p # a # inord T @ inord x @ inord y @ cnodes cs)"
  shows "\<exists>t'. erase_rotate s p a (addr y) t = Inr (Done t') \<and>
    focus t' (mk s c a (mk s BLACK p T x) (paint BLACK y)) cs \<and>
    kept_off ({p, a} \<union> set (inord x) \<union> set (inord y) \<union> set (cnodes cs)) t t'"
proof -
  let ?t1 = "t\<lparr>cells := (cells t)(p \<mapsto> mknode s (addr T) (addr x) (caddr cs) c,
      a \<mapsto> mknode s p (addr y) qa ca)\<rparr>"
  have y0: "addr y \<noteq> 0" using addr_0_iff [OF h(3)] h(4) by simp
  have "holds (cells ?t1) q y" using h d by auto
  then obtain t2 where t2: "upd_opt (addr y) (set_parent_color a BLACK) ?t1 = Inr t2"
    "holds (cells t2) a (paint BLACK y)" "kept_off (set (inord y)) ?t1 t2" "root t2 = root t"
    using upd_opt_paint(1) [of ?t1 q y a BLACK] d by auto
  have "holds (cells ?t1) a x" using h d by auto
  from holds_kept [OF t2(3) this] d have "holds (cells t2) a x" by auto
  then obtain t3 where t3: "upd_opt (addr x) (set_parent p) t2 = Inr t3" "holds (cells t3) p x"
    "kept_off (set (inord x)) t2 t3" "root t3 = root t"
    using upd_opt_paint(2) [of t2 a x p] d t2(4) by auto
  have p3: "cells t3 p = Some (mknode s (addr T) (addr x) (caddr cs) c)"
    and a3: "cells t3 a = Some (mknode s p (addr y) qa ca)"
    using keptD [OF t3(3)] keptD [OF t2(3)] d by auto
  have "cholds (cells ?t1) (root t3) p cs" using c t3(4) d by auto
  from cholds_kept [OF t3(3) cholds_kept [OF t2(3) this]] d
  have c3: "cholds (cells t3) (root t3) p cs" by auto
  obtain t4 where t4: "rotate_set_parents p a BLACK t3 = Inr t4" "cholds (cells t4) (root t4) a cs"
    "cells t4 p = Some (mknode s (addr T) (addr x) a BLACK)"
    "cells t4 a = Some (mknode s p (addr y) (caddr cs) c)" "kept_off ({p, a} \<union> set (cnodes cs)) t3 t4"
    using rotate_ok [OF c3 _ ok(1) p3 a3, of BLACK] d by auto
  have T4: "holds (cells t4) p T"
    by (rule holds_kept [OF t4(5) holds_kept [OF t3(3) holds_kept [OF t2(3)]]]) (use h d in auto)
  have x4: "holds (cells t4) p x" by (rule holds_kept [OF t4(5) t3(2)]) (use d in auto)
  have y4: "holds (cells t4) a (paint BLACK y)"
    by (rule holds_kept [OF t4(5) holds_kept [OF t3(3) t2(2)]]) (use d in auto)
  have "focus t4 (mk s c a (mk s BLACK p T x) (paint BLACK y)) cs"
    using t4(2-4) ok T4 x4 y4 d by (auto simp: focus_def)
  moreover have "kept_off ({p, a} \<union> set (inord x) \<union> set (inord y) \<union> set (cnodes cs)) t t4"
    using t2(3) t3(3) t4(5) by (auto simp: kept_off_def)
  moreover have "upd_at a (set_child s p) (t\<lparr>cells := (cells t)(p \<mapsto> mknode s (addr T) (addr x) (caddr cs) c)\<rparr>)
      = Inr ?t1" using a d by auto
  ultimately show ?thesis using p a t2(1) t3(1) t4(1) y0 by (auto simp: erase_rotate_def upd_opt_def)
qed

lemma null_or_black_ok: "holds (cells t) q u \<Longrightarrow> null_or_black (addr u) t = Inr (hue u = BLACK)"
  by (cases u) (auto simp: null_or_black_def)

lemma erase_inner_ok:
  assumes f: "focus t T ((s, c, p, mk s d a (mk s e n x y) w) # cs)"
  shows "\<exists>t'. erase_inner s p a n t = Inr (Done t') \<and>
    focus t' (mk s c n (mk s BLACK p T x) (mk s BLACK a (paint BLACK y) w)) cs \<and>
    kept_off ({p, a, n} \<union> set (inord x) \<union> set (inord y) \<union> set (inord w) \<union> set (cnodes cs)) t t'"
proof -
  note b = focusD [OF f]
  have u: "cells t a = Some (mknode s n (addr w) p d)" "cells t n = Some (mknode s (addr x) (addr y) a e)"
    "holds (cells t) n x" "holds (cells t) n y" "holds (cells t) a w" "ptr_ok a" "ptr_ok n"
    using b(4) by simp_all
  have dd: "distinct (p # a # n # inord T @ inord x @ inord y @ inord w @ cnodes cs)"
    using f by (auto simp: focus_def)
  let ?t1 = "t\<lparr>cells := (cells t)(a \<mapsto> mknode s (addr y) (addr w) p d, n \<mapsto> mknode s (addr x) a a e,
      p \<mapsto> mknode s (addr T) n (caddr cs) c)\<rparr>"
  have "holds (cells ?t1) n y" using u dd by auto
  then obtain t2 where t2: "upd_opt (addr y) (set_parent_color a BLACK) ?t1 = Inr t2"
    "holds (cells t2) a (paint BLACK y)" "kept_off (set (inord y)) ?t1 t2" "root t2 = root t"
    using upd_opt_paint(1) [of ?t1 n y a BLACK] dd by auto
  have n2: "cells t2 p = Some (mknode s (addr T) n (caddr cs) c)"
    "cells t2 n = Some (mknode s (addr x) (addr (mk s d a (paint BLACK y) w)) a e)"
    "cells t2 a = Some (mknode s (addr y) (addr w) p d)"
    using keptD [OF t2(3)] dd by auto
  have hold: "holds (cells t2) q S" if "holds (cells t) q S" "set (inord S) \<inter> insert p (insert a (insert n (set (inord y)))) = {}" for q S
    by (rule holds_kept [OF t2(3)]) (use that in auto)
  have "holds (cells t2) p T" "holds (cells t2) n x" "holds (cells t2) a w"
    by (rule hold; use b u dd in auto)+
  moreover have c2: "cholds (cells t2) (root t2) p cs"
    unfolding t2(4) by (rule cholds_kept [OF t2(3)]) (use b dd in auto)
  moreover have "distinct (p # n # inord T @ inord x @ inord (mk s d a (paint BLACK y) w) @ cnodes cs)"
    using dd by auto
  ultimately obtain t3 where t3: "erase_rotate s p n a t2 = Inr (Done t3)"
    "focus t3 (mk s c n (mk s BLACK p T x) (mk s BLACK a (paint BLACK y) w)) cs"
    "kept_off ({p, n} \<union> set (inord x) \<union> (insert a (set (inord y) \<union> set (inord w))) \<union> set (cnodes cs)) t2 t3"
    using erase_rotate_ok [OF n2(1,2), of p] n2(3) t2(2) u b(2) by auto
  have "erase_inner s p a n t = Inr (Done t3)"
    using u b(1) dd t2(1) t3(1) by (auto simp: erase_inner_def)
  moreover have "kept_off ({p, a, n} \<union> set (inord x) \<union> set (inord y) \<union> set (inord w) \<union> set (cnodes cs)) t t3"
    using t2(3) t3(3) by (auto simp: kept_off_def)
  ultimately show ?thesis using t3(2) by blast
qed

lemma erase_flip_ok:
  assumes f: "focus t T ((s, c, p, u) # cs)" and u: "u \<noteq> Lf"
  shows "\<exists>t'. erase_flip p (addr u) t =
      Inr (if c = BLACK \<and> cs \<noteq> [] then Again p (caddr cs) t' else Done t') \<and>
    focus t' (mk s BLACK p T (paint RED u)) cs \<and> kept_off (insert p (insert (addr u) {})) t t'"
proof -
  note b = focusD [OF f]
  obtain d a x y where u: "u = mk s d a x y" using mk_exhaust [OF u] .
  show ?thesis
    using b caddr_0_iff [OF b(5)]
    by (cases c) (auto simp: erase_flip_def u focus_def kept_off_def)
qed

lemma erase_black_ok:
  assumes f: "focus t T ((s, c, p, u) # cs)" and u: "u \<noteq> Lf" "hue u = BLACK"
  shows "\<exists>t'. erase_black s p (addr u) t =
      Inr (if snd (erase_tree s c p T u) \<and> cs \<noteq> [] then Again p (caddr cs) t' else Done t') \<and>
    focus t' (fst (erase_tree s c p T u)) cs \<and>
    kept_off (insert p (set (inord u) \<union> set (cnodes cs))) t t'"
proof -
  note b = focusD [OF f]
  obtain a x y where u': "u = mk s BLACK a x y" using mk_exhaust [OF u(1)] u(2) by (metis mk_simps(2))
  have a: "cells t a = Some (mknode s (addr x) (addr y) p BLACK)" "holds (cells t) a x" "holds (cells t) a y"
    "ptr_ok a" using b(4) by (simp_all add: u')
  consider "hue y = BLACK" "hue x = BLACK" | "hue y = BLACK" "hue x = RED" | "hue y = RED"
    by (cases "hue x"; cases "hue y") auto
  thus ?thesis
  proof cases
    case 1
    from erase_flip_ok [OF f u(1)] obtain t' where "erase_flip p a t =
        Inr (if c = BLACK \<and> cs \<noteq> [] then Again p (caddr cs) t' else Done t')"
      "focus t' (mk s BLACK p T (paint RED u)) cs" "kept_off {p, a} t t'" by (auto simp: u')
    thus ?thesis using 1 a null_or_black_ok [OF a(2)] null_or_black_ok [OF a(3)] kept_mono [of "{p, a}" t t']
      by (auto simp: erase_black_def u' erase_tree_def)
  next
    case 2
    hence "x \<noteq> Lf" by auto
    then obtain n v w where x: "x = mk s RED n v w" using 2(2) mk_exhaust [of x s] by (metis mk_simps(2))
    from erase_inner_ok [OF f [unfolded u' x]] obtain t' where "erase_inner s p a n t = Inr (Done t')"
      "focus t' (mk s c n (mk s BLACK p T v) (mk s BLACK a (paint BLACK w) y)) cs"
      "kept_off ({p, a, n} \<union> set (inord v) \<union> set (inord w) \<union> set (inord y) \<union> set (cnodes cs)) t t'" by blast
    moreover from this(3) have "kept_off (insert p (set (inord u) \<union> set (cnodes cs))) t t'"
      by (rule kept_mono) (auto simp: u' x)
    ultimately show ?thesis
      using 2 a(1) null_or_black_ok [OF a(2)] null_or_black_ok [OF a(3)]
      by (simp add: erase_black_def u' erase_tree_def x)
  next
    case 3
    hence "y \<noteq> Lf" by auto
    moreover have "distinct (p # a # inord T @ inord x @ inord y @ cnodes cs)" using f by (auto simp: focus_def u')
    moreover have "cells t p = Some (mknode s (addr T) a (caddr cs) c)" using b(1) by (simp add: u')
    ultimately obtain t' where "erase_rotate s p a (addr y) t = Inr (Done t')"
      "focus t' (mk s c a (mk s BLACK p T x) (paint BLACK y)) cs"
      "kept_off ({p, a} \<union> set (inord x) \<union> set (inord y) \<union> set (cnodes cs)) t t'"
      using erase_rotate_ok [OF _ a(1) b(3) a(2,3) _ b(5,2) a(4)] by blast
    moreover from this(3) have "kept_off (insert p (set (inord u) \<union> set (cnodes cs))) t t'"
      by (rule kept_mono) (auto simp: u')
    ultimately show ?thesis
      using 3 a(1) null_or_black_ok [OF a(3)] by (simp add: erase_black_def u' erase_tree_def)
  qed
qed

text \<open>A red sibling is rotated up first.\<close>

lemma erase_red_ok:
  assumes f: "focus t T ((s, c, p, mk s RED a x y) # cs)" and x: "x \<noteq> Lf"
  shows "\<exists>t'. erase_side s p t = erase_black s p (addr x) t' \<and>
    focus t' T ((s, RED, p, paint BLACK x) # (s, c, a, y) # cs) \<and>
    kept_off ({p, a} \<union> set (inord x) \<union> set (cnodes cs)) t t'"
proof -
  note b = focusD [OF f]
  have u: "cells t p = Some (mknode s (addr T) a (caddr cs) c)"
    "cells t a = Some (mknode s (addr x) (addr y) p RED)" "holds (cells t) a x" "holds (cells t) a y" "ptr_ok a"
    using b(1,4) by simp_all
  have d: "distinct (p # a # inord T @ inord x @ inord y @ cnodes cs)" using f by (auto simp: focus_def)
  let ?t1 = "t\<lparr>cells := (cells t)(p \<mapsto> mknode s (addr T) (addr x) (caddr cs) c,
      a \<mapsto> mknode s p (addr y) p RED)\<rparr>"
  have x0: "addr x \<noteq> 0" using addr_0_iff [OF u(3)] x by simp
  have "holds (cells ?t1) a x" using u d by auto
  then obtain t2 where t2: "upd_opt (addr x) (set_parent_color p BLACK) ?t1 = Inr t2"
    "holds (cells t2) p (paint BLACK x)" "kept_off (set (inord x)) ?t1 t2" "root t2 = root t"
    using upd_opt_paint(1) [of ?t1 a x p BLACK] d by auto
  have n2: "cells t2 p = Some (mknode s (addr T) (addr x) (caddr cs) c)"
    "cells t2 a = Some (mknode s p (addr y) p RED)" using keptD [OF t2(3)] d by auto
  have c2: "cholds (cells t2) (root t2) p cs"
    unfolding t2(4) by (rule cholds_kept [OF t2(3)]) (use b(5) d in auto)
  obtain t3 where t3: "rotate_set_parents p a RED t2 = Inr t3" "cholds (cells t3) (root t3) a cs"
    "cells t3 p = Some (mknode s (addr T) (addr x) a RED)" "cells t3 a = Some (mknode s p (addr y) (caddr cs) c)"
    "kept_off ({p, a} \<union> set (cnodes cs)) t2 t3"
    using rotate_ok [OF c2 _ b(2) n2, of RED] d by auto
  have "holds (cells t3) p T" "holds (cells t3) a y"
    by (rule holds_kept [OF t3(5) holds_kept [OF t2(3)]]; use b(3) u d in auto)+
  moreover have "holds (cells t3) p (paint BLACK x)" by (rule holds_kept [OF t3(5) t2(2)]) (use d in auto)
  ultimately have "focus t3 T ((s, RED, p, paint BLACK x) # (s, c, a, y) # cs)"
    using t3(2-4) b(2) u(5) d by (auto simp: focus_def)
  moreover have "kept_off ({p, a} \<union> set (inord x) \<union> set (cnodes cs)) t t3"
    using t2(3) t3(5) by (auto simp: kept_off_def)
  moreover have "erase_side s p t = erase_black s p (addr x) t3"
    using u d t2(1) t3(1) x0 by (auto simp: erase_side_def upd_opt_def)
  ultimately show ?thesis by blast
qed

section \<open>The loop\<close>

text \<open>The subtree at the focus lacks one black node.\<close>

definition lacking :: "rbt \<Rightarrow> frame list \<Rightarrow> bool" where
  "lacking T cs \<longleftrightarrow> invc T \<and> invh T \<and> hue T = BLACK \<and> ctx_ok BLACK (Suc (bheight T)) cs"

lemma bheight_pos: "hue u = BLACK \<Longrightarrow> 0 < bheight u \<Longrightarrow> \<exists>a x y. u = mk s BLACK a x y"
  by (cases "u = Lf") (auto, metis mk_exhaust mk_simps(2))

lemma lacking_sibling:
  assumes "lacking T ((s, c, p, u) # cs)"
  obtains (black) a x y where "u = mk s BLACK a x y"
  | (red) a b v w y where "u = mk s RED a (mk s BLACK b v w) y" and "c = BLACK"
proof (cases "hue u")
  case BLACK
  moreover have "0 < bheight u" using assms by (simp add: lacking_def)
  ultimately show ?thesis using bheight_pos [of u s] black by blast
next
  case RED
  hence "u \<noteq> Lf" by auto
  then obtain a x y where u: "u = mk s RED a x y" using RED mk_exhaust [of u s] by (metis mk_simps(2))
  hence "hue x = BLACK" "0 < bheight x" "c = BLACK" using assms by (auto simp: lacking_def)
  thus ?thesis using bheight_pos [of x s] red u by blast
qed

lemma erase_tree_cases:
  assumes "u = mk s BLACK a x y"
  obtains (flip) "hue x = BLACK" "hue y = BLACK"
      "erase_tree s c p T u = (mk s BLACK p T (mk s RED a x y), c = BLACK)"
  | (inner) n v w where "x = mk s RED n v w" "hue y = BLACK"
      "erase_tree s c p T u = (mk s c n (mk s BLACK p T v) (mk s BLACK a (paint BLACK w) y), False)"
  | (outer) b v w where "y = mk s RED b v w"
      "erase_tree s c p T u = (mk s c a (mk s BLACK p T x) (mk s BLACK b v w), False)"
proof (cases "hue y")
  case RED
  hence "y \<noteq> Lf" by auto
  then obtain b v w where "y = mk s RED b v w" using RED mk_exhaust [of y s] by (metis mk_simps(2))
  thus ?thesis using outer assms by (simp add: erase_tree_def)
next
  case y: BLACK
  show ?thesis
  proof (cases "hue x")
    case RED
    hence "x \<noteq> Lf" by auto
    then obtain b v w where "x = mk s RED b v w" using RED mk_exhaust [of x s] by (metis mk_simps(2))
    thus ?thesis using inner y assms by (simp add: erase_tree_def)
  qed (use flip y assms in \<open>simp add: erase_tree_def\<close>)
qed

lemma erase_tree_inv:
  assumes "invc T" "invh T" "hue T = BLACK" "invc u" "invh u" "u = mk s BLACK a x y"
    and "bheight u = Suc (bheight T)" and e: "erase_tree s c p T u = (T', e)"
  shows "invc T' \<and> invh T' \<and> (e \<longrightarrow> c = BLACK \<and> hue T' = BLACK \<and> bheight T' = Suc (bheight T)) \<and>
    (\<not> e \<longrightarrow> (hue T' = RED \<longrightarrow> c = RED) \<and>
      bheight T' = (if c = BLACK then Suc (Suc (bheight T)) else Suc (bheight T)))"
  using assms(6)
proof (cases rule: erase_tree_cases [where c = c and p = p and T = T])
  case flip
  thus ?thesis using assms by auto
next
  case (inner n v w)
  thus ?thesis using assms by (auto simp: paint_id)
next
  case (outer b v w)
  thus ?thesis using assms by auto
qed

lemma inord_erase_tree:
  assumes "u = mk s BLACK a x y"
  shows "inord (fst (erase_tree s c p T u)) = inord (mk s c p T u)"
  using assms
proof (cases rule: erase_tree_cases [where c = c and p = p and T = T])
  case flip
  thus ?thesis using assms by (cases s) (simp_all add: mk_def)
next
  case (inner n v w)
  thus ?thesis using assms by (cases s) (simp_all add: mk_def)
next
  case (outer b v w)
  thus ?thesis using assms by (cases s) (simp_all add: mk_def)
qed

lemma lacking_black:
  assumes l: "lacking T ((s, c, p, u) # cs)" and u: "u = mk s BLACK a x y"
    and e: "erase_tree s c p T u = (T', e)"
  shows "e \<Longrightarrow> lacking T' cs" and "\<not> e \<Longrightarrow> rb_ok (plug T' cs)"
proof -
  have i: "invc T" "invh T" "hue T = BLACK" "invc u" "invh u" "bheight u = Suc (bheight T)"
    "ctx_ok c (if c = BLACK then Suc (Suc (bheight T)) else Suc (bheight T)) cs"
    using l by (auto simp: lacking_def)
  note t = erase_tree_inv [OF i(1-5) u i(6) e]
  show "lacking T' cs" if e using t i(7) that by (auto simp: lacking_def)
  show "rb_ok (plug T' cs)" if "\<not> e"
    using t i(7) that unfolding rb_ok_plug by (cases c; cases "hue T'") (auto intro: ctx_ok_black)
qed

lemma erase_turn_side:
  assumes f: "focus t T ((s, c, p, u) # cs)" and u: "u \<noteq> Lf"
  shows "erase_turn (addr T) p t = erase_side s p t"
proof -
  note b = focusD [OF f]
  have "addr T \<noteq> addr u"
    using b(3,4,12) u addr_mem [OF u] addr_mem [of T] addr_0_iff [OF b(4)] by (cases "T = Lf") auto
  thus ?thesis using b(1) by (cases s) (simp_all add: erase_turn_def mknode_RIGHT)
qed

lemma red_sibling:
  assumes l: "lacking T ((s, BLACK, p, mk s RED a z y) # cs)" and z: "z = mk s BLACK b v w"
  shows "lacking T ((s, RED, p, z) # (s, BLACK, a, y) # cs)"
    and "\<not> snd (erase_tree s RED p T z)"
  using l by (auto simp: lacking_def z erase_tree_def)

lemma erase_loop_ok:
  assumes "focus t T cs" and "cs \<noteq> []" and "lacking T cs"
  shows "\<exists>t'. erase_loop (addr T) (caddr cs) t = Some (Inr t') \<and> represents t' (del_fix T cs) \<and>
    kept_off (set (inord T @ cnodes cs)) t t' \<and> rb_ok (del_fix T cs) \<and>
    inord (del_fix T cs) = before cs @ inord T @ after cs"
  using assms
proof (induction cs arbitrary: t T)
  case (Cons fr cs)
  obtain s c p u where fr: "fr = (s, c, p, u)" by (cases fr) auto
  note f = Cons.prems(1) [unfolded fr] and l = Cons.prems(3) [unfolded fr]
  from l show ?case
  proof (cases rule: lacking_sibling)
    case (black a x y)
    obtain T' e where e: "erase_tree s c p T u = (T', e)" by fastforce
    from erase_black_ok [OF f] obtain t1 where
      t1: "erase_black s p (addr u) t = Inr (if e \<and> cs \<noteq> [] then Again p (caddr cs) t1 else Done t1)"
        "focus t1 T' cs" "kept_off (insert p (set (inord u) \<union> set (cnodes cs))) t t1"
      using e black by auto
    have turn: "erase_turn (addr T) p t = Inr (if e \<and> cs \<noteq> [] then Again p (caddr cs) t1 else Done t1)"
      using erase_turn_side [OF f] t1(1) focusD(1,4) [OF f] black by (simp add: erase_side_def)
    have k: "kept_off (set (inord T @ cnodes (fr # cs))) t t1" by (rule kept_mono [OF t1(3)]) (auto simp: fr)
    have i: "inord T' = inord (mk s c p T u)" using inord_erase_tree [OF black, where c = c and p = p and T = T] e by simp
    show ?thesis
    proof (cases "e \<and> cs \<noteq> []")
      case True
      have p: "addr T' = p" using e True by (auto simp: erase_tree_def Let_def split: if_splits)
      from Cons.IH [OF t1(2) _ lacking_black(1) [OF l black e]] True obtain t2 where
        t2: "erase_loop p (caddr cs) t1 = Some (Inr t2)" "represents t2 (del_fix T' cs)"
          "kept_off (set (inord T' @ cnodes cs)) t1 t2" "rb_ok (del_fix T' cs)"
          "inord (del_fix T' cs) = before cs @ inord T' @ after cs" by (auto simp: p)
      have "kept_off (set (inord T @ cnodes (fr # cs))) t t2"
        by (rule kept_mono [OF kept_trans [OF k t2(3)]]) (auto simp: fr i)
      moreover have "del_fix T (fr # cs) = del_fix T' cs" using True e black by (simp add: fr)
      ultimately show ?thesis using t2 turn True i
        by (auto simp: erase_loop.simps [of "addr T"] fr mk_def split: side.split)
    next
      case False
      have "rb_ok (plug T' cs)"
      proof (cases e)
        case True
        thus ?thesis using False lacking_black(1) [OF l black e True] by (simp add: lacking_def rb_ok_def)
      qed (rule lacking_black(2) [OF l black e])
      moreover have "del_fix T (fr # cs) = plug T' cs" using False e black by (auto simp: fr)
      ultimately show ?thesis using t1(2) turn k i False
        by (auto simp: erase_loop.simps [of "addr T"] fr represents_plug inord_plug mk_def split: side.split)
    qed
  next
    case (red a b v w y)
    let ?z = "mk s BLACK b v w" and ?ds = "(s, BLACK, a, y) # cs"
    note r = red_sibling [OF l [unfolded red]]
    from erase_red_ok [OF f [unfolded red]] obtain t1 where
      t1: "erase_side s p t = erase_black s p b t1" "focus t1 T ((s, RED, p, ?z) # ?ds)"
        "kept_off ({p, a} \<union> set (inord ?z) \<union> set (cnodes cs)) t t1" by auto
    obtain T' e where e: "erase_tree s RED p T ?z = (T', e)" by fastforce
    hence ne: "\<not> e" using r(2) [OF refl] by simp
    from erase_black_ok [OF t1(2)] e ne obtain t2 where t2: "erase_black s p b t1 = Inr (Done t2)"
      "focus t2 T' ?ds" "kept_off (insert p (set (inord ?z) \<union> set (cnodes ?ds))) t1 t2" by auto
    have "kept_off (set (inord T @ cnodes (fr # cs))) t t2"
      by (rule kept_mono [OF kept_trans [OF t1(3) t2(3)]]) (auto simp: fr red)
    moreover have "erase_turn (addr T) p t = Inr (Done t2)"
      using erase_turn_side [OF f] t1(1) t2(1) red by simp
    moreover have "rb_ok (plug T' ?ds)" by (rule lacking_black(2) [OF r(1) [OF refl] refl e ne])
    moreover have "del_fix T (fr # cs) = plug T' ?ds" using e red by (simp add: fr)
    moreover have "inord T' = inord (mk s RED p T ?z)" using inord_erase_tree [of ?z s b v w RED p T] e by simp
    ultimately show ?thesis using t2(2)
      by (auto simp: erase_loop.simps [of "addr T"] fr represents_plug inord_plug red mk_def
          simp del: plug.simps split: side.split)
  qed
qed simp

section \<open>Cutting out a node\<close>

text \<open>A node \<open>m\<close> without a left child is replaced by its right child \<open>v\<close>.\<close>

lemma cut_inv:
  assumes i: "rb_ok (plug (Nd k Lf m v) cs)"
  shows "v \<noteq> Lf \<Longrightarrow> k = BLACK \<and> rb_ok (plug (paint BLACK v) cs)"
    and "v = Lf \<Longrightarrow> k = RED \<Longrightarrow> rb_ok (plug Lf cs)"
    and "v = Lf \<Longrightarrow> k = BLACK \<Longrightarrow> lacking Lf cs"
proof -
  have c: "invc v" "invh v" "bheight v = 0" "k = RED \<longrightarrow> hue v = BLACK"
    "ctx_ok k (if k = BLACK then 1 else 0) cs"
    using i by (auto simp: rb_ok_plug)
  show "k = BLACK \<and> rb_ok (plug (paint BLACK v) cs)" if "v \<noteq> Lf"
    using that c by (cases v) (auto simp: rb_ok_plug split: if_splits)
  show "rb_ok (plug Lf cs)" if "v = Lf" "k = RED" using that c ctx_ok_black by (auto simp: rb_ok_plug)
  show "lacking Lf cs" if "v = Lf" "k = BLACK" using that c by (simp add: lacking_def)
qed

text \<open>The rest of the removal, once the hole is in place: \<open>rebalance\<close> is where \<open>erase_color\<close> starts.\<close>

definition cut_done :: "rbtree \<Rightarrow> u64 \<Rightarrow> color \<Rightarrow> rbt \<Rightarrow> frame list \<Rightarrow> bool" where
  "cut_done t rebalance k v cs \<longleftrightarrow>
     focus t (if v = Lf then Lf else paint BLACK v) cs \<and>
     rebalance = (if v = Lf \<and> k = BLACK then caddr cs else 0)"

lemma cut_finish:
  assumes d: "cut_done t rb k v cs" and i: "rb_ok (plug (Nd k Lf m v) cs)"
  shows "\<exists>t'. (if rb \<noteq> 0 then erase_color rb t else Inr t) = Inr t' \<and>
    rb_nodes t' (before cs @ inord v @ after cs) \<and> kept_off (set (inord v @ cnodes cs)) t t'"
proof (cases "v = Lf \<and> k = BLACK \<and> cs \<noteq> []")
  case True
  have f: "focus t Lf cs" and rb: "rb = caddr cs" using d True by (simp_all add: cut_done_def)
  from erase_loop_ok [OF f _ cut_inv(3) [OF i]] True obtain t' where
    t': "erase_loop 0 (caddr cs) t = Some (Inr t')" "represents t' (del_fix Lf cs)"
      "kept_off (set (cnodes cs)) t t'" "rb_ok (del_fix Lf cs)" "inord (del_fix Lf cs) = before cs @ after cs"
    by auto
  have "rb \<noteq> 0" using f True caddr_0_iff by (auto simp: rb focus_def)
  moreover have "erase_color rb t = Inr t'" using t'(1) by (simp add: erase_color_def returns_def rb)
  ultimately show ?thesis using t'(2-5) True by (auto simp: rb_nodes_def)
next
  case False
  hence rb: "rb = 0" using d by (auto simp: cut_done_def)
  have ok: "rb_ok (plug (if v = Lf then Lf else paint BLACK v) cs)"
    using cut_inv [OF i] False by (cases k) (auto simp: rb_ok_def)
  have "represents t (plug (if v = Lf then Lf else paint BLACK v) cs)"
    using d by (simp add: cut_done_def represents_plug)
  hence "rb_nodes t (before cs @ inord v @ after cs)"
    using ok unfolding rb_nodes_def by (intro exI conjI) (auto simp: inord_plug)
  thus ?thesis using rb by (simp add: kept_off_def)
qed

lemma remove_leaf_ok:
  assumes f: "focus t (Nd k Lf n v) cs" and ok: "rb_ok (plug (Nd k Lf n v) cs)"
  shows "\<exists>t' rb. remove_leaf (mknode LEFT 0 (addr v) (caddr cs) k) n t = Inr (t', rb) \<and>
    cut_done t' rb k v cs \<and> kept_off (set (inord v) \<union> set (cnodes cs)) t t'"
proof -
  have a: "holds (cells t) n v" "cholds (cells t) (root t) n cs" "ptr_ok n" "n \<notin> set (cnodes cs)"
    "distinct (cnodes cs)" "distinct (inord v)" "set (inord v) \<inter> set (cnodes cs) = {}"
    using f by (auto simp: focus_def)
  obtain t1 where t1: "relink (caddr cs) n (addr v) t = Inr t1" "cholds (cells t1) (root t1) (addr v) cs"
    "kept_off (set (cnodes cs)) t t1"
    using relink_ok [OF a(2) _ a(4,5), of "addr v"] a(3) by auto
  have v1: "holds (cells t1) n v" by (rule holds_kept [OF t1(3) a(1)]) (use a in auto)
  show ?thesis
  proof (cases "v = Lf")
    case True
    thus ?thesis using t1 caddr_even [OF a(2)]
      by (auto simp: remove_leaf_def cut_done_def focus_def a kept_off_def)
  next
    case False
    from upd_opt_paint(1) [OF v1 a(6), of "caddr cs" k] obtain t2 where
      t2: "upd_opt (addr v) (set_parent_color (caddr cs) k) t1 = Inr t2"
        "holds (cells t2) (caddr cs) (paint k v)" "kept_off (set (inord v)) t1 t2" "root t2 = root t1" by blast
    have c2: "cholds (cells t2) (root t2) (addr v) cs"
      unfolding t2(4) by (rule cholds_kept [OF t2(3) t1(2)]) (use a in auto)
    have "addr v \<noteq> 0" using addr_0_iff [OF a(1)] False by simp
    moreover have "k = BLACK" using cut_inv(1) [OF ok False] by simp
    ultimately show ?thesis using t1 t2 c2 False caddr_even [OF a(2)] a
      by (auto simp: remove_leaf_def cut_done_def focus_def upd_opt_def kept_off_def)
  qed
qed

lemma remove_left_ok:
  assumes f: "focus t (Nd k v n Lf) cs" and ok: "rb_ok (plug (Nd k v n Lf) cs)" and v: "v \<noteq> Lf"
  shows "\<exists>t'. remove_left (mknode LEFT (addr v) 0 (caddr cs) k) n t = Inr (t', 0) \<and>
    rb_nodes t' (before cs @ inord v @ after cs) \<and> kept_off (set (inord v) \<union> set (cnodes cs)) t t'"
proof -
  have a: "holds (cells t) n v" "cholds (cells t) (root t) n cs" "ptr_ok n" "n \<notin> set (cnodes cs)"
    "distinct (cnodes cs)" "distinct (inord v)" "set (inord v) \<inter> set (cnodes cs) = {}"
    using f by (auto simp: focus_def)
  from upd_opt_paint(1) [OF a(1,6), of "caddr cs" k] obtain t1 where
    t1: "upd_opt (addr v) (set_parent_color (caddr cs) k) t = Inr t1"
      "holds (cells t1) (caddr cs) (paint k v)" "kept_off (set (inord v)) t t1" "root t1 = root t" by blast
  have "cholds (cells t1) (root t1) n cs"
    unfolding t1(4) by (rule cholds_kept [OF t1(3) a(2)]) (use a in auto)
  from relink_ok [OF this _ a(4,5), of "addr v"] a(3) obtain t2 where
    t2: "relink (caddr cs) n (addr v) t1 = Inr t2" "cholds (cells t2) (root t2) (addr v) cs"
      "kept_off (set (cnodes cs)) t1 t2" by auto
  have "holds (cells t2) (caddr cs) (paint k v)" by (rule holds_kept [OF t2(3) t1(2)]) (use a in auto)
  hence r: "represents t2 (plug (paint k v) cs)" using t2(2) a unfolding represents_plug by (simp add: focus_def)
  have "rb_ok (plug (paint k v) cs)"
    using ok v by (cases v) (auto simp: rb_ok_plug split: if_splits)
  hence "rb_nodes t2 (before cs @ inord v @ after cs)"
    using r unfolding rb_nodes_def by (intro exI conjI) (auto simp: inord_plug)
  moreover have "addr v \<noteq> 0" using addr_0_iff [OF a(1)] v by simp
  ultimately show ?thesis using t1(1,3) t2(1,3) caddr_even [OF a(2)]
    by (auto simp: remove_left_def upd_opt_def kept_off_def)
qed

section \<open>Replacing a node by its successor\<close>

fun min_split :: "rbt \<Rightarrow> frame list \<Rightarrow> color \<times> u64 \<times> rbt \<times> frame list" where
  "min_split Lf cs = (BLACK, 0, Lf, cs)"
| "min_split (Nd c l a r) cs = (if l = Lf then (c, a, r, cs) else min_split l ((LEFT, c, a, r) # cs))"

lemma min_split_plug:
  "min_split S cs = (k, m, v, ds) \<Longrightarrow> S \<noteq> Lf \<Longrightarrow> plug (Nd k Lf m v) ds = plug S cs"
  by (induction S cs rule: min_split.induct) (auto simp: mk_def split: if_splits)

lemma min_split_left:
  "min_split S cs = (k, m, v, ds) \<Longrightarrow> \<forall>(s, c, a, u)\<in>set cs. s = LEFT \<Longrightarrow> \<forall>(s, c, a, u)\<in>set ds. s = LEFT"
  by (induction S cs rule: min_split.induct) (auto split: if_splits)

lemma succ_loop_ok:
  assumes "holds (cells t) (caddr cs) S" and "S \<noteq> Lf" and "min_split S cs = (k, m, v, ds)"
  shows "succ_loop t (caddr cs) (addr S) = Some (Inr (caddr ds, m))"
  using assms
proof (induction S cs rule: min_split.induct)
  case (2 c l a r cs)
  have n: "cells t a = Some (mknode LEFT (addr l) (addr r) (caddr cs) c)" "holds (cells t) a l"
    using 2(2) by simp_all
  show ?case
  proof (cases "l = Lf")
    case True
    thus ?thesis using 2(4) n by (simp add: succ_loop.simps)
  next
    case False
    hence "succ_loop t a (addr l) = Some (Inr (caddr ds, m))" using 2(1) [of] 2(4) n by simp
    thus ?thesis using False n addr_0_iff [OF n(2)] by (simp add: succ_loop.simps [of _ "caddr cs"])
  qed
qed simp

text \<open>The path \<open>ds\<close> from the hole at \<open>x\<close> to the top of a subtree below the node \<open>p\<close>.\<close>

fun path :: "(u64 \<Rightarrow> rbtnode option) \<Rightarrow> u64 \<Rightarrow> frame list \<Rightarrow> u64 \<Rightarrow> bool" where
  "path h x [] p \<longleftrightarrow> True"
| "path h x ((s, c, a, u) # ds) p \<longleftrightarrow>
     ptr_ok a \<and> h a = Some (mknode s x (addr u) (if ds = [] then p else caddr ds) c) \<and> holds h a u \<and>
     path h a ds p"

fun top :: "u64 \<Rightarrow> frame list \<Rightarrow> u64" where
  "top x [] = x"
| "top x ((s, c, a, u) # ds) = top a ds"

lemma caddr_append: "caddr (ds @ es) = (if ds = [] then caddr es else caddr ds)"
  by (cases ds rule: cnodes.cases) auto

lemma cnodes_append [simp]: "cnodes (ds @ es) = cnodes ds @ cnodes es"
  by (induction ds rule: cnodes.induct) auto

lemma before_after_append [simp]: "before (ds @ es) = before es @ before ds" "after (ds @ es) = after ds @ after es"
  by (induction ds rule: before.induct) auto

lemma cholds_append: "cholds h rt x (ds @ es) \<longleftrightarrow> path h x ds (caddr es) \<and> cholds h rt (top x ds) es"
  by (induction ds arbitrary: x rule: cnodes.induct) (auto simp: caddr_append)

lemma top_mem: "ds \<noteq> [] \<Longrightarrow> top x ds \<in> set (cnodes ds)"
  by (induction ds arbitrary: x rule: cnodes.induct) (auto, metis top.simps(1))

lemma top_indep: "ds \<noteq> [] \<Longrightarrow> top x ds = top y ds"
  by (cases ds rule: cnodes.cases) auto

lemma path_upd [simp]: "a \<notin> set (cnodes ds) \<Longrightarrow> path (h(a := v)) x ds p = path h x ds p"
  by (induction ds arbitrary: x rule: cnodes.induct) auto

lemma path_kept: "kept_off A t t' \<Longrightarrow> set (cnodes ds) \<inter> A = {} \<Longrightarrow> path (cells t) x ds p \<Longrightarrow> path (cells t') x ds p"
  by (induction ds arbitrary: x rule: cnodes.induct) (auto simp: kept_off_def intro: holds_kept)

lemma path_bottom:
  assumes "path h x ds p" and "ds \<noteq> []" and "\<forall>(s, c, a, u)\<in>set ds. s = LEFT" and "distinct (cnodes ds)"
  shows "\<exists>n. h (caddr ds) = Some n \<and> path (h(caddr ds \<mapsto> set_child LEFT y n)) y ds p"
  using assms by (cases ds rule: cnodes.cases) auto

lemma path_top:
  assumes "path h x ds p" and "ds \<noteq> []" and "distinct (cnodes ds)"
  shows "\<exists>n. h (top x ds) = Some n \<and> path (h(top x ds \<mapsto> set_parent q n)) x ds q"
  using assms
proof (induction ds arbitrary: x rule: cnodes.induct)
  case (2 s c a u ds)
  show ?case
  proof (cases "ds = []")
    case True
    thus ?thesis using 2(2,4) by (intro exI [of _ "mknode s x (addr u) p c"]) (simp del: fun_upd_apply add: fun_upd_same)
  next
    case False
    hence t: "top a ds \<in> set (cnodes ds)" by (rule top_mem)
    have "path h a ds p" "distinct (cnodes ds)" using 2(2,4) by simp_all
    from 2(1) [OF this(1) False this(2)] obtain n where
      n: "h (top a ds) = Some n" "path (h(top a ds \<mapsto> set_parent q n)) a ds q" by blast
    have "top a ds \<noteq> a" "top a ds \<notin> set (inord u)" using t 2(4) by auto
    thus ?thesis using n 2(2) False
      by (intro exI [of _ n]) (simp del: fun_upd_apply add: fun_upd_other not_sym)
  qed
qed simp

lemma holds_plug_path:
  "holds h p (plug S ds) \<longleftrightarrow> holds h (if ds = [] then p else caddr ds) S \<and> path h (addr S) ds p"
  by (induction S ds rule: plug.induct) auto

lemma addr_plug: "addr (plug S ds) = top (addr S) ds"
  by (induction S ds rule: plug.induct) auto

lemma take_successor_ok:
  assumes h: "holds (cells t) n r" and r: "r \<noteq> Lf" and sp: "min_split r [] = (k, m, v, ds)"
    and d: "distinct (inord r)"
  shows "\<exists>t' q. take_successor (addr r) t = Inr (t', (if ds = [] then m else caddr ds), m, addr v) \<and>
    cells t' m = Some (mknode LEFT 0 (top (addr v) ds) q k) \<and> path (cells t') (addr v) ds m \<and>
    holds (cells t') m v \<and> root t' = root t \<and> kept_off (insert m (set (cnodes ds))) t t'"
proof -
  let ?M = "Nd k Lf m v"
  have pl: "plug ?M ds = r" using min_split_plug [OF sp r] by simp
  have m: "cells t m = Some (mknode LEFT 0 (addr v) (if ds = [] then n else caddr ds) k)"
    "holds (cells t) m v" "path (cells t) m ds n" and top: "addr r = top m ds"
    using h unfolding pl [symmetric] holds_plug_path addr_plug by simp_all
  have dd: "distinct (m # inord v @ cnodes ds)" using d unfolding pl [symmetric] distinct_plug by simp
  show ?thesis
  proof (cases "ds = []")
    case True
    thus ?thesis using m top by (auto simp: take_successor_def kept_off_def)
  next
    case False
    have left: "\<forall>(s, c, a, u)\<in>set ds. s = LEFT" using min_split_left [OF sp] by simp
    obtain c l a w where rN: "r = Nd c l a w" using r by (cases r) auto
    have a: "cells t a = Some (mknode LEFT (addr l) (addr w) n c)" "holds (cells t) a l" "a = top m ds"
      using h top by (simp_all add: rN)
    have l: "l \<noteq> Lf" using sp False by (auto simp: rN)
    hence "succ_loop t a (addr l) = Some (Inr (caddr ds, m))"
      using succ_loop_ok [of t "[(LEFT, c, a, w)]" l] a sp by (simp add: rN)
    moreover have "addr l \<noteq> 0" using addr_0_iff [OF a(2)] l by simp
    ultimately have run: "take_successor (addr r) t =
        rbind (upd_at (caddr ds) (set_child LEFT (addr v)) t) (\<lambda>t.
        rbind (upd_at m (set_child RIGHT a) t) (\<lambda>t.
        rbind (upd_at a (set_parent m) t) (\<lambda>t. Inr (t, caddr ds, m, addr v))))"
      using a(1) m(1) by (simp add: take_successor_def rN returns_def Let_def)
    obtain b where b: "cells t (caddr ds) = Some b"
      "path ((cells t)(caddr ds \<mapsto> set_child LEFT (addr v) b)) (addr v) ds n"
      using path_bottom [OF m(3) False left, of "addr v"] dd by auto
    let ?t1 = "t\<lparr>cells := (cells t)(caddr ds \<mapsto> set_child LEFT (addr v) b)\<rparr>"
    let ?t2 = "?t1\<lparr>cells := (cells ?t1)(m \<mapsto> mknode LEFT 0 a (caddr ds) k)\<rparr>"
    have mem: "caddr ds \<in> set (cnodes ds)" "top (addr v) ds \<in> set (cnodes ds)" "a = top (addr v) ds"
      using caddr_mem top_mem a(3) top_indep [of ds m "addr v"] False by auto
    have "path (cells ?t2) (addr v) ds n" using b(2) dd by simp
    from path_top [OF this False, of m] dd mem(3) obtain e where
      e: "cells ?t2 a = Some e" "path ((cells ?t2)(a \<mapsto> set_parent m e)) (addr v) ds m" by auto
    let ?t3 = "?t2\<lparr>cells := (cells ?t2)(a \<mapsto> set_parent m e)\<rparr>"
    have ne: "caddr ds \<noteq> m" "a \<noteq> m" "caddr ds \<notin> set (inord v)" "a \<notin> set (inord v)" using mem dd by auto
    have "upd_at m (set_child RIGHT a) ?t1 = Inr ?t2"
      using m(1) ne False mknode_simps(7) [of LEFT] by simp
    hence "take_successor (addr r) t = Inr (?t3, caddr ds, m, addr v)"
      unfolding run using b(1) upd_at_Some [OF e(1), of "set_parent m"] by simp
    moreover have "cells ?t3 m = Some (mknode LEFT 0 (top (addr v) ds) (caddr ds) k)"
      using ne(2) by (simp add: mem(3) [symmetric])
    moreover have "holds (cells ?t3) m v" using m(2) ne dd by simp
    moreover have "kept_off (insert m (set (cnodes ds))) t ?t3" using mem by (auto simp: kept_off_def)
    ultimately show ?thesis using e(2) False by auto
  qed
qed

lemma min_split_focus:
  assumes f: "focus t (Nd c l n r) cs" and r: "r \<noteq> Lf" and sp: "min_split r [] = (k, m, v, ds)"
  shows "plug (Nd c l n r) cs = plug (Nd k Lf m v) (ds @ (RIGHT, c, n, l) # cs)"
    and "distinct (n # m # inord v @ cnodes ds @ inord l @ cnodes cs)"
    and "set (inord r) = insert m (set (inord v) \<union> set (cnodes ds))"
proof -
  have pl: "plug (Nd k Lf m v) ds = r" using min_split_plug [OF sp r] by simp
  thus p: "plug (Nd c l n r) cs = plug (Nd k Lf m v) (ds @ (RIGHT, c, n, l) # cs)"
    by (simp add: plug_append mk_def)
  have "focus t (Nd k Lf m v) (ds @ (RIGHT, c, n, l) # cs)"
    using f unfolding represents_plug [symmetric] p .
  thus "distinct (n # m # inord v @ cnodes ds @ inord l @ cnodes cs)" by (auto simp: focus_def)
  show "set (inord r) = insert m (set (inord v) \<union> set (cnodes ds))"
    unfolding pl [symmetric] inord_plug by (auto simp: set_cnodes)
qed

lemma remove_two_ok:
  assumes f: "focus t (Nd c l n r) cs" and l: "l \<noteq> Lf" and r: "r \<noteq> Lf" and sp: "min_split r [] = (k, m, v, ds)"
  shows "\<exists>t' rb. remove_two (mknode LEFT (addr l) (addr r) (caddr cs) c) n t = Inr (t', rb) \<and>
    cut_done t' rb k v (ds @ (RIGHT, c, m, l) # cs) \<and>
    kept_off (set (inord l) \<union> set (inord r) \<union> set (cnodes cs)) t t'"
proof -
  have a: "holds (cells t) n l" "holds (cells t) n r" "cholds (cells t) (root t) n cs" "ptr_ok n"
    "distinct (inord r)" "distinct (inord l)" "distinct (cnodes cs)"
    using f by (auto simp: focus_def)
  note d = min_split_focus(2) [OF f r sp] and rr = min_split_focus(3) [OF f r sp]
  obtain t1 q where t1: "take_successor (addr r) t = Inr (t1, (if ds = [] then m else caddr ds), m, addr v)"
    "cells t1 m = Some (mknode LEFT 0 (top (addr v) ds) q k)" "path (cells t1) (addr v) ds m"
    "holds (cells t1) m v" "root t1 = root t" "kept_off (insert m (set (cnodes ds))) t t1"
    using take_successor_ok [OF a(2) r sp a(5)] by blast
  let ?q = "if ds = [] then m else caddr ds" and ?x = "top (addr v) ds"
  have m: "ptr_ok m" using holds_nodes [OF a(2), of m] rr by simp
  have l0: "addr l \<noteq> 0" using addr_0_iff [OF a(1)] l by simp
  let ?t2 = "t1\<lparr>cells := (cells t1)(m \<mapsto> mknode LEFT (addr l) ?x q k)\<rparr>"
  have l2: "holds (cells ?t2) n l" using holds_kept [OF t1(6) a(1)] d by auto
  from upd_opt_paint(2) [OF l2 a(6), of m] obtain t3 where
    t3: "upd_opt (addr l) (set_parent m) ?t2 = Inr t3" "holds (cells t3) m l"
      "kept_off (set (inord l)) ?t2 t3" "root t3 = root t" by (auto simp: t1(5))
  have "cholds (cells t3) (root t3) n cs"
    unfolding t3(4) using cholds_kept [OF t3(3), of "root t" n cs] cholds_kept [OF t1(6) a(3)] d by auto
  from relink_ok [OF this, of m] a(4,7) d obtain t4 where
    t4: "relink (caddr cs) n m t3 = Inr t4" "cholds (cells t4) (root t4) m cs" "kept_off (set (cnodes cs)) t3 t4"
    by auto
  have m4: "cells t4 m = Some (mknode LEFT (addr l) ?x q k)" using keptD [OF t4(3)] keptD [OF t3(3)] d by auto
  have l4: "holds (cells t4) m l" by (rule holds_kept [OF t4(3) t3(2)]) (use d in auto)
  have p4: "path (cells t4) (addr v) ds m"
    by (rule path_kept [OF t4(3) _ path_kept [OF t3(3)]]) (use t1(3) d in auto)
  have v4: "holds (cells t4) m v"
    by (rule holds_kept [OF t4(3) holds_kept [OF t3(3)]]) (use t1(4) d in auto)
  obtain t5 where t5: "(if addr v \<noteq> 0 then rbind (upd_at (addr v) (set_parent_color ?q BLACK) t4) (\<lambda>t. Inr (t, 0))
      else rbind (node_at m t4) (\<lambda>sn. Inr (t4, if is_black sn then ?q else 0))) =
      Inr (t5, if v = Lf \<and> k = BLACK then ?q else 0)"
    "holds (cells t5) ?q (if v = Lf then Lf else paint BLACK v)" "kept_off (set (inord v)) t4 t5" "root t5 = root t4"
  proof (cases "v = Lf")
    case True
    thus ?thesis using that [of t4] m4 by (simp add: kept_off_def)
  next
    case False
    thus ?thesis using that upd_opt_paint(1) [OF v4, of ?q BLACK] addr_0_iff [OF v4] d by (auto simp: upd_opt_def)
  qed
  let ?t6 = "t5\<lparr>cells := (cells t5)(m \<mapsto> mknode LEFT (addr l) ?x (caddr cs) c)\<rparr>"
  have m5: "cells t5 m = Some (mknode LEFT (addr l) ?x q k)" using keptD [OF t5(3), of m] m4 d by auto
  have l5: "holds (cells t5) m l" by (rule holds_kept [OF t5(3) l4]) (use d in auto)
  have p5: "path (cells t5) (addr v) ds m" by (rule path_kept [OF t5(3) _ p4]) (use d in auto)
  have c5: "cholds (cells t5) (root t5) m cs" unfolding t5(4) by (rule cholds_kept [OF t5(3) t4(2)]) (use d in auto)
  have run: "remove_two (mknode LEFT (addr l) (addr r) (caddr cs) c) n t =
      Inr (?t6, if v = Lf \<and> k = BLACK then ?q else 0)"
    using t1(1,2) t3(1) t4(1) t5(1) m5 l0 caddr_even [OF a(3)] by (simp add: remove_two_def upd_opt_def)
  have es: "caddr (ds @ (RIGHT, c, m, l) # cs) = ?q" by (simp add: caddr_append)
  have "holds (cells ?t6) ?q (if v = Lf then Lf else paint BLACK v)" using t5(2) d by auto
  moreover have "cholds (cells ?t6) (root ?t6) (addr v) (ds @ (RIGHT, c, m, l) # cs)"
    using m l5 p5 c5 d by (auto simp: cholds_append mknode_RIGHT)
  ultimately have "cut_done ?t6 (if v = Lf \<and> k = BLACK then ?q else 0) k v (ds @ (RIGHT, c, m, l) # cs)"
    using d by (auto simp: cut_done_def focus_def es)
  moreover have "kept_off (set (inord l) \<union> set (inord r) \<union> set (cnodes cs)) t ?t6"
    using t1(6) t3(3) t4(3) t5(3) by (auto simp: kept_off_def rr)
  ultimately show ?thesis using run by blast
qed

section \<open>Removal\<close>

lemma ctx_ok_rename: "ctx_ok k h (ds @ (s, c, n, l) # cs) = ctx_ok k h (ds @ (s, c, m, l) # cs)"
  by (induction k h ds rule: ctx_ok.induct) auto

lemma remove_two_done:
  assumes f: "focus t (Nd c l n r) cs" and ok: "rb_ok (plug (Nd c l n r) cs)" and lr: "l \<noteq> Lf" "r \<noteq> Lf"
  shows "\<exists>t'. rbt_remove n t = Inr t' \<and> rb_nodes t' (before cs @ inord l @ inord r @ after cs) \<and>
    kept_off (set (inord l @ inord r @ cnodes cs)) t t'"
proof -
  obtain k m v ds where sp: "min_split r [] = (k, m, v, ds)" using prod_cases4 by blast
  let ?es = "ds @ (RIGHT, c, m, l) # cs"
  obtain t1 rb where t1: "remove_two (mknode LEFT (addr l) (addr r) (caddr cs) c) n t = Inr (t1, rb)"
    "cut_done t1 rb k v ?es" "kept_off (set (inord l) \<union> set (inord r) \<union> set (cnodes cs)) t t1"
    using remove_two_ok [OF f lr sp] by blast
  have "rb_ok (plug (Nd k Lf m v) ?es)"
    using ok unfolding min_split_focus(1) [OF f lr(2) sp] rb_ok_plug ctx_ok_rename [of _ _ ds RIGHT c n l cs m] .
  from cut_finish [OF t1(2) this] obtain t2 where
    t2: "(if rb \<noteq> 0 then erase_color rb t1 else Inr t1) = Inr t2" "rb_nodes t2 (before ?es @ inord v @ after ?es)"
      "kept_off (set (inord v @ cnodes ?es)) t1 t2" by blast
  have rr: "plug (Nd k Lf m v) ds = r" using min_split_plug [OF sp lr(2)] by simp
  have "before ds = []"
  proof -
    have "\<forall>(s, c, a, u)\<in>set ds. s = LEFT" using min_split_left [OF sp] by simp
    thus ?thesis by (induction ds rule: before.induct) auto
  qed
  hence "inord r = m # inord v @ after ds" using inord_plug [of "Nd k Lf m v" ds] rr by simp
  hence eq: "before ?es @ inord v @ after ?es = before cs @ inord l @ inord r @ after cs"
    using \<open>before ds = []\<close> by simp
  have n: "cells t n = Some (mknode LEFT (addr l) (addr r) (caddr cs) c)" "addr l \<noteq> 0" "addr r \<noteq> 0"
    using f lr addr_0_iff by (fastforce simp: focus_def)+
  moreover have "rbt_remove n t = Inr t2" using n t1(1) t2(1) by (simp add: rbt_remove_def)
  moreover have "kept_off (set (inord l @ inord r @ cnodes cs)) t t2"
    by (rule kept_mono [OF kept_trans [OF t1(3) t2(3)]]) (auto simp: min_split_focus(3) [OF f lr(2) sp])
  ultimately show ?thesis using t2(2) [unfolded eq] by blast
qed

lemma rbt_remove_ok:
  assumes "rb_nodes t (ls @ n # rs)"
  shows "\<exists>t'. rbt_remove n t = Inr t' \<and> rb_nodes t' (ls @ rs) \<and> kept_off (set (ls @ rs)) t t'"
proof -
  obtain T where T: "represents t T" "rb_ok T" "inord T = ls @ n # rs" using assms by (auto simp: rb_nodes_def)
  hence "n \<in> set (inord T)" by simp
  then obtain c l r cs where pl: "T = plug (Nd c l n r) cs" by (rule zipper)
  have f: "focus t (Nd c l n r) cs" and ok: "rb_ok (plug (Nd c l n r) cs)"
    using T(1,2) by (simp_all add: pl represents_plug)
  have n: "cells t n = Some (mknode LEFT (addr l) (addr r) (caddr cs) c)"
    "addr l = 0 \<longleftrightarrow> l = Lf" "addr r = 0 \<longleftrightarrow> r = Lf"
    using f addr_0_iff by (auto simp: focus_def)
  have "n \<notin> set ls" "n \<notin> set rs" using T(1,3) by (auto simp: represents_def)
  moreover have "ls @ n # rs = (before cs @ inord l) @ n # inord r @ after cs"
    using T(3) by (simp add: pl inord_plug)
  ultimately have lr: "ls = before cs @ inord l" "rs = inord r @ after cs"
    using append_Cons_eq_iff [of n ls rs] by blast+
  have "\<exists>t'. rbt_remove n t = Inr t' \<and> rb_nodes t' (before cs @ inord l @ inord r @ after cs) \<and>
      kept_off (set (inord l @ inord r @ cnodes cs)) t t'"
  proof (cases "l = Lf")
    case True
    obtain t1 rb where t1: "remove_leaf (mknode LEFT 0 (addr r) (caddr cs) c) n t = Inr (t1, rb)"
      "cut_done t1 rb c r cs" "kept_off (set (inord r) \<union> set (cnodes cs)) t t1"
      using remove_leaf_ok [OF f [unfolded True] ok [unfolded True]] by blast
    from cut_finish [OF t1(2) ok [unfolded True]] obtain t2 where
      t2: "(if rb \<noteq> 0 then erase_color rb t1 else Inr t1) = Inr t2" "rb_nodes t2 (before cs @ inord r @ after cs)"
        "kept_off (set (inord r @ cnodes cs)) t1 t2" by blast
    have "rbt_remove n t = Inr t2" using n t1(1) t2(1) True by (simp add: rbt_remove_def)
    thus ?thesis using t2(2) kept_trans [OF t1(3) t2(3)] True by simp
  next
    case l: False
    show ?thesis
    proof (cases "r = Lf")
      case True
      from remove_left_ok [OF f [unfolded True] ok [unfolded True] l] obtain t1 where
        "remove_left (mknode LEFT (addr l) 0 (caddr cs) c) n t = Inr (t1, 0)"
        "rb_nodes t1 (before cs @ inord l @ after cs)" "kept_off (set (inord l) \<union> set (cnodes cs)) t t1" by blast
      thus ?thesis using n l True by (simp add: rbt_remove_def)
    qed (rule remove_two_done [OF f ok l])
  qed
  moreover have "set (inord l @ inord r @ cnodes cs) = set (ls @ rs)"
    unfolding lr by (auto simp: set_cnodes)
  ultimately show ?thesis unfolding lr by simp
qed

end
