(* ===== verification/Rb_Spec.thy ===== *)
theory Rb_Spec
  imports Rb_Remove
begin

text \<open>
  What the red-black tree promises its callers: it is an ordered list of nodes.  Searching, the two
  traversals and the destruction are read on that list, and the interface is put into a locale that
  the users of the tree rely on.
\<close>

section \<open>Searching\<close>

lemma codes_neq: "RBT_LESS_THAN \<noteq> RBT_EQUALS" "RBT_GREATER_THAN \<noteq> RBT_EQUALS" "RBT_GREATER_THAN \<noteq> RBT_LESS_THAN"
  by (simp_all add: RBT_LESS_THAN_def RBT_EQUALS_def RBT_GREATER_THAN_def)

text \<open>The walks that stop at an equal node; \<open>dir\<close> is the result of the comparison.\<close>

definition steers :: "(rbtnode \<Rightarrow> u64 \<Rightarrow> 'a outcome) \<Rightarrow> (u64 \<Rightarrow> 'a) \<Rightarrow> (u64 \<Rightarrow> int) \<Rightarrow> bool" where
  "steers step found cmp \<longleftrightarrow>
     (\<forall>n p. (cmp p = RBT_EQUALS \<longrightarrow> step n p = Stop (found p)) \<and>
            (cmp p = RBT_LESS_THAN \<longrightarrow> step n p = Go (rb_left n)) \<and>
            (cmp p = RBT_GREATER_THAN \<longrightarrow> step n p = Go (rb_right n)))"

lemma walk_found:
  assumes "steers step found cmp" and "holds (cells t) q T" and "inord T = ls @ e # rs"
    and "cmp e = RBT_EQUALS" and "\<forall>a\<in>set ls. cmp a = RBT_GREATER_THAN" and "\<forall>a\<in>set rs. cmp a = RBT_LESS_THAN"
  shows "walk step none t (addr T) = Some (Inr (found e))"
  using assms(2-)
proof (induction T arbitrary: q ls rs)
  case (Nd c l a r)
  note st = assms(1) [unfolded steers_def, rule_format]
  consider "a = e" | us where "rs = us @ a # inord r" "inord l = ls @ e # us"
    | us where "ls = inord l @ a # us" "inord r = us @ e # rs"
    using Nd.prems(2) by (auto simp: append_eq_append_conv2 append_eq_Cons_conv Cons_eq_append_conv)
  thus ?case
  proof cases
    case 1
    thus ?thesis using Nd.prems st by (simp add: walk.simps)
  next
    case (2 us)
    thus ?thesis using Nd.IH(1) [of a ls us] Nd.prems st by (simp add: walk.simps [of step none t a])
  next
    case (3 us)
    thus ?thesis using Nd.IH(2) [of a us rs] Nd.prems st by (simp add: walk.simps [of step none t a])
  qed
qed simp

lemma walk_missing:
  assumes "steers step found cmp" and "holds (cells t) q T" and "inord T = ls @ rs"
    and "\<forall>a\<in>set ls. cmp a = RBT_GREATER_THAN" and "\<forall>a\<in>set rs. cmp a = RBT_LESS_THAN"
  shows "walk step none t (addr T) = Some (Inr none)"
  using assms(2-)
proof (induction T arbitrary: q ls rs)
  case (Nd c l a r)
  note st = assms(1) [unfolded steers_def, rule_format]
  consider us where "rs = us @ a # inord r" "inord l = ls @ us" | us where "ls = inord l @ a # us" "inord r = us @ rs"
    using Nd.prems(2) by (auto simp: append_eq_append_conv2 append_eq_Cons_conv Cons_eq_append_conv)
  thus ?case
  proof cases
    case (1 us)
    thus ?thesis using Nd.IH(1) [of a ls us] Nd.prems st by (simp add: walk.simps [of step none t a])
  next
    case (2 us)
    thus ?thesis using Nd.IH(2) [of a us rs] Nd.prems st by (simp add: walk.simps [of step none t a])
  qed
qed (simp add: walk.simps)

lemma steers_find:
  "steers (\<lambda>n p. let cmp = cond ctx p in
       if cmp = RBT_EQUALS then Stop (RBT_FIND_OK, Some p)
       else if cmp = RBT_LESS_THAN then Go (rb_left n)
       else if cmp = RBT_GREATER_THAN then Go (rb_right n)
       else Stop (cmp, Some p)) (\<lambda>p. (RBT_FIND_OK, Some p)) (cond ctx)"
  by (simp add: steers_def codes_neq Let_def)

lemma steers_u64:
  "steers (\<lambda>n p. find_step (key p = k) (k < key p) n p) (\<lambda>p. p) (\<lambda>p. key_cmp (k = key p) (k < key p))"
  by (auto simp: steers_def codes_neq codes_neq [symmetric] key_cmp_def find_step_def)

lemma rbt_find_ok:
  assumes "rb_nodes t (ls @ e # rs)" and "cond ctx e = RBT_EQUALS"
    and "\<forall>a\<in>set ls. cond ctx a = RBT_GREATER_THAN" and "\<forall>a\<in>set rs. cond ctx a = RBT_LESS_THAN"
  shows "rbt_find cond ctx t = Inr (RBT_FIND_OK, Some e)"
proof -
  obtain T where root: "root t = addr T" and T: "holds (cells t) 0 T" "inord T = ls @ e # rs"
    using assms(1) by (auto simp: rb_nodes_def represents_def)
  note w = walk_found [OF steers_find [of cond ctx] T assms(2-)]
  show ?thesis by (simp only: rbt_find_def returns_def root w option.case)
qed

lemma rbt_find_missing:
  assumes "rb_nodes t (ls @ rs)" and "\<forall>a\<in>set ls. cond ctx a = RBT_GREATER_THAN"
    and "\<forall>a\<in>set rs. cond ctx a = RBT_LESS_THAN"
  shows "rbt_find cond ctx t = Inr (RBT_FIND_NOT_FOUND, None)"
proof -
  obtain T where root: "root t = addr T" and T: "holds (cells t) 0 T" "inord T = ls @ rs"
    using assms(1) by (auto simp: rb_nodes_def represents_def)
  note w = walk_missing [OF steers_find [of cond ctx] T assms(2-)]
  show ?thesis by (simp only: rbt_find_def returns_def root w option.case)
qed

section \<open>Traversal\<close>

definition ends :: "side \<Rightarrow> u64 list \<Rightarrow> u64" where
  "ends s xs = (if xs = [] then 0 else case s of LEFT \<Rightarrow> hd xs | RIGHT \<Rightarrow> last xs)"

lemma ends_simps [simp]:
  "ends s [] = 0" "ends LEFT (x # xs) = x" "ends RIGHT (xs @ [x]) = x"
  "xs \<noteq> [] \<Longrightarrow> ends LEFT (xs @ ys) = ends LEFT xs" "ys \<noteq> [] \<Longrightarrow> ends RIGHT (xs @ ys) = ends RIGHT ys"
  "ys \<noteq> [] \<Longrightarrow> ends RIGHT (x # ys) = ends RIGHT ys" "ends RIGHT [x] = x"
  by (simp_all add: ends_def)

lemma inord_empty: "inord T = [] \<longleftrightarrow> T = Lf"
  by (cases T) simp_all

lemma walk_end:
  assumes "holds (cells t) q T"
  shows "walk (\<lambda>n p. if child s n \<noteq> 0 then Go (child s n) else Stop p) 0 t (addr T) = Some (Inr (ends s (inord T)))"
  using assms
proof (induction T arbitrary: q)
  case (Nd c l a r)
  have n: "child LEFT (mknode LEFT x y p c) = x" "child RIGHT (mknode LEFT x y p c) = y" for x y p c
    using mknode_simps(1,2) [of LEFT] by simp_all
  show ?case
    using Nd addr_0_iff [of "cells t" a]
    by (cases s) (auto simp: walk.simps [of _ 0 t a] n inord_empty)
qed (simp add: walk.simps)

lemma climb_ok:
  assumes "path (cells t) x cs 0" and "x \<noteq> 0" and "distinct (x # cnodes cs)"
  shows "climb s t x (caddr cs) = Some (Inr (ends (other s) (case s of RIGHT \<Rightarrow> after cs | LEFT \<Rightarrow> before cs)))"
  using assms
proof (induction cs arbitrary: x rule: cnodes.induct)
  case (2 s' c a u cs)
  have n: "cells t a = Some (mknode s' x (addr u) (caddr cs) c)" "ptr_ok a" "path (cells t) a cs 0"
    "holds (cells t) a u"
    using 2(2) by (simp_all split: if_splits)
  have ev: "\<not> bit (caddr cs) 0" using n(3) by (cases cs rule: cnodes.cases) auto
  have "x \<noteq> addr u" using addr_mem [of u] 2(3,4) by (cases "u = Lf") auto
  show ?case
  proof (cases s s' rule: side_cases)
    case 1
    hence "climb s t x a = climb s t a (caddr cs)" using n ev by (simp add: climb.simps [of s' t x a])
    thus ?thesis using 2(1) [OF n(3)] n(2) 2(4) 1 by (cases s) auto
  next
    case 2
    hence "s = other s'" by simp
    hence "climb s t x a = Some (Inr a)" using n(1,2) \<open>x \<noteq> addr u\<close> by (simp add: climb.simps [of _ t x a])
    thus ?thesis using \<open>s = other s'\<close> by (cases s') auto
  qed
qed (simp add: climb.simps split: side.split)

lemma inorder_next_ok:
  assumes "rb_nodes t (ls @ n # rs)"
  shows "inorder_next s t n = Inr (ends (other s) (case s of RIGHT \<Rightarrow> rs | LEFT \<Rightarrow> ls))"
proof -
  obtain T where T: "represents t T" "inord T = ls @ n # rs" using assms by (auto simp: rb_nodes_def)
  obtain c l r cs where z: "T = plug (Nd c l n r) cs" using zipper [of n T] T(2) by (metis in_set_conv_decomp)
  have f: "focus t (Nd c l n r) cs" using T(1) by (simp add: z represents_plug)
  have lists: "ls = before cs @ inord l" "rs = inord r @ after cs"
    using T(2) f append_Cons_eq_iff [of n "before cs @ inord l" "inord r @ after cs" ls rs]
    by (auto simp: z inord_plug focus_def set_cnodes)
  have n: "cells t n = Some (mknode LEFT (addr l) (addr r) (caddr cs) c)" "holds (cells t) n l" "holds (cells t) n r"
    "\<not> bit (caddr cs) 0" "n \<noteq> 0" "path (cells t) n cs 0" "distinct (n # cnodes cs)"
    using f cholds_append [of "cells t" "root t" n cs "[]"] by (auto simp: focus_def)
  have ch: "child LEFT (mknode LEFT x y p c) = x" "child RIGHT (mknode LEFT x y p c) = y" for x y p
    using mknode_simps(1,2) [of LEFT] by simp_all
  note up = climb_ok [OF n(6,5,7)]
  show ?thesis
    using walk_end [OF n(2), of "other LEFT"] walk_end [OF n(3), of "other RIGHT"] addr_0_iff [OF n(2)] addr_0_iff [OF n(3)]
      up [of LEFT] up [of RIGHT] n(1,4)
    by (cases s) (auto simp: inorder_next_def ch returns_def lists inord_empty)
qed

text \<open>What a traversal does with the list of the nodes it is still to visit.\<close>

fun visit_list :: "(u64 \<Rightarrow> 's \<Rightarrow> 's \<times> bool) \<Rightarrow> u64 list \<Rightarrow> 's \<Rightarrow> 's" where
  "visit_list visit [] ctx = ctx"
| "visit_list visit (x # xs) ctx =
     (case visit x ctx of (ctx, go_on) \<Rightarrow> if go_on then visit_list visit xs ctx else ctx)"

lemma rb_nodes_nonnull: "rb_nodes t xs \<Longrightarrow> a \<in> set xs \<Longrightarrow> ptr_ok a \<and> cells t a \<noteq> None"
  by (auto simp: rb_nodes_def represents_def dest: holds_nodes)

lemma visit_forward:
  "rb_nodes t (ls @ rs) \<Longrightarrow> visit_loop inorder_successor visit t (ends LEFT rs) ctx = Some (Inr (visit_list visit rs ctx))"
proof (induction rs arbitrary: ls ctx)
  case (Cons n rs)
  have "n \<noteq> 0" using rb_nodes_nonnull [OF Cons.prems, of n] by auto
  thus ?case
    using Cons.IH [of "ls @ [n]" "fst (visit n ctx)"] Cons.prems inorder_next_ok [OF Cons.prems, of RIGHT]
    by (simp add: visit_loop.simps [of _ _ t n] inorder_successor_def Let_def split: prod.splits)
qed (simp add: visit_loop.simps)

lemma visit_backward:
  "rb_nodes t (ls @ rs) \<Longrightarrow>
     visit_loop inorder_predecessor visit t (ends RIGHT ls) ctx = Some (Inr (visit_list visit (rev ls) ctx))"
proof (induction ls arbitrary: rs ctx rule: rev_induct)
  case (snoc n ls)
  have n: "rb_nodes t (ls @ n # rs)" using snoc.prems by simp
  hence "n \<noteq> 0" using rb_nodes_nonnull [OF n, of n] by auto
  thus ?case
    using snoc.IH [of "n # rs" "fst (visit n ctx)"] n inorder_next_ok [OF n, of LEFT]
    by (simp add: visit_loop.simps [of _ _ t n] inorder_predecessor_def Let_def split: prod.splits)
qed (simp add: visit_loop.simps)

lemma child_sides: "child LEFT = rb_left" "child RIGHT = rb_right"
  by (simp_all add: child_def fun_eq_iff)

lemma rbt_for_each_ok: "rb_nodes t xs \<Longrightarrow> rbt_for_each visit t ctx = Inr (visit_list visit xs ctx)"
  using visit_forward [of t "[]" xs visit ctx] walk_end [of t 0 _ LEFT, unfolded child_sides]
  by (auto simp: rbt_for_each_def rbt_leftmost_def rb_nodes_def represents_def returns_def)

lemma rbt_for_each_rev_ok: "rb_nodes t xs \<Longrightarrow> rbt_for_each_rev visit t ctx = Inr (visit_list visit (rev xs) ctx)"
  using visit_backward [of t xs "[]" visit ctx] walk_end [of t 0 _ RIGHT, unfolded child_sides]
  by (auto simp: rbt_for_each_rev_def rbt_rightmost_def rb_nodes_def represents_def returns_def)

section \<open>Destruction\<close>

primrec postord :: "rbt \<Rightarrow> u64 list" where
  "postord Lf = []"
| "postord (Nd c l a r) = postord l @ postord r @ [a]"

lemma mset_postord: "mset (postord T) = mset (inord T)"
  by (induction T) auto

text \<open>The loop frees the subtree it is at and goes on at the parent, whose link is null.\<close>

definition freed :: "u64 set \<Rightarrow> rbtree \<Rightarrow> frame list \<Rightarrow> rbtree \<Rightarrow> bool" where
  "freed A t cs t' \<longleftrightarrow>
     path (cells t') 0 cs 0 \<and> (\<forall>a\<in>A. cells t' a = None) \<and> root t' = root t \<and>
     kept_off (A \<union> set (cnodes cs)) t t'"

definition hangs :: "rbtree \<Rightarrow> rbt \<Rightarrow> frame list \<Rightarrow> bool" where
  "hangs t T cs \<longleftrightarrow> holds (cells t) (caddr cs) T \<and> path (cells t) (addr T) cs 0 \<and> distinct (inord T @ cnodes cs)"

lemma hangs_frame: "hangs t T ((s, c, a, u) # cs) \<longleftrightarrow> hangs t (mk s c a T u) cs"
proof -
  have "caddr cs = (if cs = [] then 0 else caddr cs)" by (cases cs) auto
  thus ?thesis by (auto simp: hangs_def)
qed

lemma destroy_leaf:
  assumes "hangs t (Nd c Lf a Lf) cs"
  shows "\<exists>t'. freed {a} t cs t' \<and>
    (\<forall>ctx. destroy_turn free a (t, ctx) = rbind (free a ctx) (\<lambda>ctx. Inr (caddr cs, t', ctx)))"
proof (cases cs rule: cnodes.cases)
  case 1
  hence "freed {a} t cs (t\<lparr>cells := (cells t)(a := None)\<rparr>)" by (simp add: freed_def kept_off_def)
  thus ?thesis using assms 1
    by (intro exI [of _ "t\<lparr>cells := (cells t)(a := None)\<rparr>"]) (auto simp: destroy_turn_def hangs_def)
next
  case (2 s d b u ds)
  have b: "cells t b = Some (mknode s a (addr u) (caddr ds) d)" "ptr_ok b" "a \<noteq> b" "a \<notin> set (inord u)"
    "cells t a = Some (mknode LEFT 0 0 b c)" "\<not> bit b 0" "b \<notin> set (inord u)" "b \<notin> set (cnodes ds)" "a \<notin> set (cnodes ds)"
    "holds (cells t) b u" "path (cells t) b ds 0"
    using assms 2 by (auto simp: hangs_def split: if_splits)
  have "a \<noteq> addr u" using addr_mem [of u] b(4) assms by (cases "u = Lf") (auto simp: hangs_def)
  let ?t = "t\<lparr>cells := (cells t)(b \<mapsto> mknode s 0 (addr u) (caddr ds) d, a := None)\<rparr>"
  have "(if rb_left (mknode s a (addr u) (caddr ds) d) = a then upd_at b (set_child LEFT 0) t
      else upd_at b (set_child RIGHT 0) t) = Inr (t\<lparr>cells := (cells t)(b \<mapsto> mknode s 0 (addr u) (caddr ds) d)\<rparr>)"
    using b(1) \<open>a \<noteq> addr u\<close> by (cases s) (auto simp: mknode_def set_child_def)
  hence "destroy_turn free a (t, ctx) = rbind (free a ctx) (\<lambda>ctx. Inr (caddr cs, ?t, ctx))" for ctx
    using b 2 by (simp add: destroy_turn_def)
  moreover have "freed {a} t cs ?t"
    using b 2 by (auto simp: freed_def kept_off_def fun_upd_twist [of b a])
  ultimately show ?thesis by blast
qed

lemma rbind_case: "rbind r f = (case r of Inl e \<Rightarrow> Inl e | Inr x \<Rightarrow> f x)"
  by (cases r) simp_all

definition razes ::
  "(u64 \<Rightarrow> 's \<Rightarrow> 's res) \<Rightarrow> rbtree \<Rightarrow> u64 \<Rightarrow> u64 list \<Rightarrow> rbtree \<Rightarrow> u64 \<Rightarrow> bool" where
  "razes free t a xs t' b \<longleftrightarrow>
     (\<forall>ctx. destroy_loop free a (t, ctx) =
        (case rfold free xs ctx of Inl e \<Rightarrow> Some (Inl e) | Inr ctx \<Rightarrow> destroy_loop free b (t', ctx)))"

lemma razes_refl: "razes free t a [] t a"
  by (simp add: razes_def)

lemma razes_trans: "razes free t a xs t1 b \<Longrightarrow> razes free t1 b ys t2 c \<Longrightarrow> razes free t a (xs @ ys) t2 c"
  by (auto simp: razes_def rfold_append split: sum.split)

lemma razes_down:
  assumes "hangs t (Nd c l a r) cs" and "l = Lf \<Longrightarrow> r \<noteq> Lf"
  shows "razes free t a [] t (if l = Lf then addr r else addr l)"
proof -
  have n: "a \<noteq> 0" "cells t a = Some (mknode LEFT (addr l) (addr r) (caddr cs) c)" "addr l = 0 \<longleftrightarrow> l = Lf" "addr r = 0 \<longleftrightarrow> r = Lf"
    using assms(1) addr_0_iff by (auto simp: hangs_def)
  thus ?thesis using assms(2) by (auto simp: razes_def destroy_loop.simps [of free a] destroy_turn_def)
qed

lemma razes_leaf:
  assumes "hangs t (Nd c Lf a Lf) cs"
  shows "\<exists>t'. freed {a} t cs t' \<and> razes free t a [a] t' (caddr cs)"
proof -
  obtain t' where "freed {a} t cs t'"
    "\<And>ctx. destroy_turn free a (t, ctx) = rbind (free a ctx) (\<lambda>ctx. Inr (caddr cs, t', ctx))"
    using destroy_leaf [OF assms, of free] by blast
  moreover have "a \<noteq> 0" using assms by (auto simp: hangs_def)
  ultimately show ?thesis by (auto simp: razes_def destroy_loop.simps [of free a] rbind_case split: sum.split)
qed

text \<open>Below a node, one child is razed: what remains of the node hangs where it did.\<close>

lemma razes_child:
  assumes t: "hangs t (mk s c a T u) cs"
    and IH: "\<And>cs. hangs t T cs \<Longrightarrow> T \<noteq> Lf \<Longrightarrow>
      \<exists>t'. freed (set (inord T)) t cs t' \<and> razes free t (addr T) (postord T) t' (caddr cs)"
    and down: "T \<noteq> Lf \<Longrightarrow> razes free t a [] t (addr T)"
  shows "\<exists>t'. hangs t' (mk s c a Lf u) cs \<and> (\<forall>x\<in>set (inord T). cells t' x = None) \<and> root t' = root t \<and>
    kept_off (set (inord (mk s c a T u)) \<union> set (cnodes cs)) t t' \<and> razes free t a (postord T) t' a"
proof (cases "T = Lf")
  case True
  thus ?thesis using t by (intro exI [of _ t]) (simp add: razes_refl kept_off_def)
next
  case False
  let ?cs = "(s, c, a, u) # cs"
  have h: "hangs t T ?cs" using t by (simp add: hangs_frame)
  from IH [OF h False] obtain t' where t': "freed (set (inord T)) t ?cs t'" "razes free t (addr T) (postord T) t' a" by auto
  have "hangs t' Lf ?cs" using t'(1) h by (auto simp: hangs_def freed_def)
  hence "hangs t' (mk s c a Lf u) cs" by (simp only: hangs_frame)
  moreover have "razes free t a (postord T) t' a" using razes_trans [OF down [OF False] t'(2)] by simp
  ultimately show ?thesis using t'(1) by (intro exI [of _ t']) (auto simp: freed_def elim: kept_mono)
qed

lemma razes_tree:
  "hangs t T cs \<Longrightarrow> T \<noteq> Lf \<Longrightarrow>
     \<exists>t'. freed (set (inord T)) t cs t' \<and> razes free t (addr T) (postord T) t' (caddr cs)"
proof (induction T arbitrary: t cs)
  case (Nd c l a r)
  have "l \<noteq> Lf \<Longrightarrow> razes free t a [] t (addr l)" using razes_down [OF Nd.prems(1), of free] by simp
  from razes_child [of t LEFT c a l r cs free, OF _ Nd.IH(1) this] Nd.prems(1)
  obtain t1 where t1: "hangs t1 (Nd c Lf a r) cs" "\<forall>x\<in>set (inord l). cells t1 x = None" "root t1 = root t"
    "kept_off (set (inord (Nd c l a r)) \<union> set (cnodes cs)) t t1" "razes free t a (postord l) t1 a"
    by (auto simp: mk_def)
  have "r \<noteq> Lf \<Longrightarrow> razes free t1 a [] t1 (addr r)" using razes_down [OF t1(1), of free] by simp
  from razes_child [of t1 RIGHT c a r Lf cs free, OF _ Nd.IH(2) this] t1(1)
  obtain t2 where t2: "hangs t2 (Nd c Lf a Lf) cs" "\<forall>x\<in>set (inord r). cells t2 x = None" "root t2 = root t1"
    "kept_off (set (inord (Nd c Lf a r)) \<union> set (cnodes cs)) t1 t2" "razes free t1 a (postord r) t2 a"
    by (auto simp: mk_def)
  from razes_leaf [OF t2(1)] obtain t3 where t3: "freed {a} t2 cs t3" "razes free t2 a [a] t3 (caddr cs)" by blast
  have d: "distinct (inord (Nd c l a r) @ cnodes cs)" using Nd.prems(1) by (simp add: hangs_def)
  have l: "cells t3 x = None" if "x \<in> set (inord l)" for x
  proof -
    have "x \<noteq> a" "x \<notin> set (inord r)" "x \<notin> set (cnodes cs)" using that d by auto
    thus ?thesis using that t1(2) t2(4) t3(1) by (simp add: freed_def kept_off_def)
  qed
  have r: "cells t3 x = None" if "x \<in> set (inord r)" for x
    using that t2(2) d t3(1) by (auto simp: freed_def kept_off_def)
  have k: "kept_off (set (inord (Nd c l a r)) \<union> set (cnodes cs)) t t3"
    by (rule kept_mono [OF kept_trans [OF t1(4) kept_trans [OF t2(4), of _ t3]]])
      (use t3(1) in \<open>auto simp: freed_def\<close>)
  have "freed (set (inord (Nd c l a r))) t cs t3" using l r k t1(3) t2(3) t3(1) by (auto simp: freed_def)
  thus ?case using razes_trans [OF t1(5) razes_trans [OF t2(5) t3(2)]] by auto
qed simp

lemma rbt_destroy_ok:
  assumes "represents t T"
  shows "\<exists>t'. rbt_destroy free t ctx = rbind (rfold free (postord T) ctx) (\<lambda>ctx. Inr (t', ctx)) \<and> root t' = 0 \<and>
    (\<forall>a\<in>set (inord T). cells t' a = None) \<and> kept_off (set (inord T)) t t'"
proof (cases "T = Lf")
  case True
  thus ?thesis using assms by (intro exI [of _ t]) (auto simp: rbt_destroy_def represents_def kept_off_def)
next
  case False
  have "hangs t T []" "root t = addr T" "addr T \<noteq> 0"
    using assms False addr_0_iff by (auto simp: hangs_def represents_def)
  from razes_tree [OF this(1) False, of free] obtain t' where
    t': "freed (set (inord T)) t [] t'" "razes free t (addr T) (postord T) t' 0" by auto
  hence "rbt_destroy free t ctx = rbind (rfold free (postord T) ctx) (\<lambda>ctx. Inr (t'\<lparr>root := 0\<rparr>, ctx))"
    using \<open>root t = addr T\<close> \<open>addr T \<noteq> 0\<close>
    by (auto simp: rbt_destroy_def razes_def returns_def rbind_case destroy_loop.simps [of free 0] split: sum.split)
  thus ?thesis using t'(1) by (intro exI [of _ "t'\<lparr>root := 0\<rparr>"]) (auto simp: freed_def kept_off_def)
qed

end
