(* ===== verification/Rb_Iface.thy ===== *)
theory Rb_Iface
  imports Rb_Spec
begin

text \<open>
  The interface that the users of a keyed tree rely on: an ordered index of nodes, in which a node is
  found by its key.  The locale \<open>ordered_index\<close> has the laws and, proved once inside of it, what a
  search returns after an insertion and after a removal.  It is interpreted on the tree with unsigned
  and with signed keys.
\<close>

section \<open>Lists in the order of their keys\<close>

definition ascending :: "(u64 \<Rightarrow> 'k :: linorder) \<Rightarrow> u64 list \<Rightarrow> bool" where
  "ascending f xs \<longleftrightarrow> sorted_wrt (\<lambda>a b. f a < f b) xs"

lemma ascending_append:
  "ascending f (xs @ ys) \<longleftrightarrow> ascending f xs \<and> ascending f ys \<and> (\<forall>a\<in>set xs. \<forall>b\<in>set ys. f a < f b)"
  by (simp add: ascending_def sorted_wrt_append)

lemma ascending_Cons: "ascending f (x # xs) \<longleftrightarrow> (\<forall>b\<in>set xs. f x < f b) \<and> ascending f xs"
  by (simp add: ascending_def)

lemma ascending_split:
  assumes "ascending f xs" and "\<forall>a\<in>set xs. f a \<noteq> k"
  obtains ls rs where "xs = ls @ rs" "\<forall>a\<in>set ls. f a < k" "\<forall>a\<in>set rs. k < f a"
proof -
  have "\<exists>ls rs. xs = ls @ rs \<and> (\<forall>a\<in>set ls. f a < k) \<and> (\<forall>a\<in>set rs. k < f a)"
    using assms
  proof (induction xs)
    case (Cons x xs)
    show ?case
    proof (cases "f x < k")
      case True
      obtain ls rs where "xs = ls @ rs" "\<forall>a\<in>set ls. f a < k" "\<forall>a\<in>set rs. k < f a"
        using Cons by (auto simp: ascending_Cons)
      thus ?thesis using True by (intro exI [of _ "x # ls"] exI [of _ rs]) auto
    next
      case False
      thus ?thesis using Cons.prems by (intro exI [of _ "[]"] exI [of _ "x # xs"]) (auto simp: ascending_Cons)
    qed
  qed simp
  thus ?thesis using that by blast
qed

section \<open>The interface\<close>

locale ordered_index =
  fixes rank :: "'q \<Rightarrow> 'k :: linorder"
    and key :: "u64 \<Rightarrow> 'q"
    and content :: "'s \<Rightarrow> u64 list \<Rightarrow> bool"
    and node_init :: "u64 \<Rightarrow> 's \<Rightarrow> 's"
    and node_free :: "u64 \<Rightarrow> 's \<Rightarrow> 's"
    and insert_node :: "u64 \<Rightarrow> 's \<Rightarrow> ('s \<times> int) res"
    and find_node :: "'s \<Rightarrow> 'q \<Rightarrow> u64 res"
    and remove_node :: "u64 \<Rightarrow> 's \<Rightarrow> 's res"
  assumes content_ascending: "content t xs \<Longrightarrow> ascending (\<lambda>a. rank (key a)) xs"
    and content_nonnull: "content t xs \<Longrightarrow> 0 \<notin> set xs"
    and insert_new: "content t (ls @ rs) \<Longrightarrow> ptr_ok n \<Longrightarrow> n \<notin> set (ls @ rs) \<Longrightarrow>
      \<forall>a\<in>set ls. rank (key a) < rank (key n) \<Longrightarrow> \<forall>a\<in>set rs. rank (key n) < rank (key a) \<Longrightarrow>
      \<exists>t'. insert_node n (node_init n t) = Inr (t', RBT_INSERT_OK) \<and> content t' (ls @ n # rs)"
    and insert_old: "content t xs \<Longrightarrow> ptr_ok n \<Longrightarrow> n \<notin> set xs \<Longrightarrow> e \<in> set xs \<Longrightarrow> rank (key e) = rank (key n) \<Longrightarrow>
      \<exists>t'. insert_node n (node_init n t) = Inr (t', RBT_INSERT_EXISTS) \<and> content t' xs"
    and find_hit: "content t xs \<Longrightarrow> e \<in> set xs \<Longrightarrow> rank (key e) = rank k \<Longrightarrow> find_node t k = Inr e"
    and find_miss: "content t xs \<Longrightarrow> \<forall>a\<in>set xs. rank (key a) \<noteq> rank k \<Longrightarrow> find_node t k = Inr 0"
    and remove_content: "content t (ls @ n # rs) \<Longrightarrow>
      \<exists>t'. remove_node n t = Inr t' \<and> content (node_free n t') (ls @ rs)"
begin

lemma find_total: "content t xs \<Longrightarrow> \<exists>e. find_node t k = Inr e \<and> (e = 0 \<or> e \<in> set xs \<and> rank (key e) = rank k)"
  using find_hit [of t xs _ k] find_miss [of t xs k] by blast

lemma find_null_iff:
  assumes "content t xs"
  shows "find_node t k = Inr 0 \<longleftrightarrow> (\<forall>a\<in>set xs. rank (key a) \<noteq> rank k)"
proof (cases "\<exists>e\<in>set xs. rank (key e) = rank k")
  case True
  then obtain e where "e \<in> set xs" "rank (key e) = rank k" by blast
  thus ?thesis using find_hit [OF assms] content_nonnull [OF assms] by auto
qed (use find_miss [OF assms] in auto)

text \<open>What a search gives depends on the nodes with the key alone.\<close>

lemma find_cong:
  assumes "content t xs" and "content t' ys" and "\<And>a. rank (key a) = rank k \<Longrightarrow> a \<in> set xs \<longleftrightarrow> a \<in> set ys"
  shows "find_node t k = find_node t' k"
proof (cases "\<exists>e\<in>set xs. rank (key e) = rank k")
  case True
  then obtain e where "e \<in> set xs" "rank (key e) = rank k" by blast
  thus ?thesis using find_hit [OF assms(1)] find_hit [OF assms(2)] assms(3) by auto
next
  case False
  moreover from this have "\<forall>a\<in>set ys. rank (key a) \<noteq> rank k" using assms(3) by blast
  ultimately show ?thesis using find_miss [OF assms(1), of k] find_miss [OF assms(2), of k] by auto
qed

lemma find_after_insert:
  assumes "content t xs" and "ptr_ok n" and "n \<notin> set xs" and "find_node t (key n) = Inr 0"
  shows "\<exists>t' ls rs. insert_node n (node_init n t) = Inr (t', RBT_INSERT_OK) \<and> xs = ls @ rs \<and> content t' (ls @ n # rs) \<and>
    (\<forall>k. find_node t' k = (if rank k = rank (key n) then Inr n else find_node t k))"
proof -
  have "\<forall>a\<in>set xs. rank (key a) \<noteq> rank (key n)" using assms(4) find_null_iff [OF assms(1)] by simp
  then obtain ls rs where s: "xs = ls @ rs" "\<forall>a\<in>set ls. rank (key a) < rank (key n)" "\<forall>a\<in>set rs. rank (key n) < rank (key a)"
    by (rule ascending_split [OF content_ascending [OF assms(1)]])
  obtain t' where t': "insert_node n (node_init n t) = Inr (t', RBT_INSERT_OK)" "content t' (ls @ n # rs)"
    using insert_new [of t ls rs n] assms(1-3) s by auto
  have "find_node t' k = (if rank k = rank (key n) then Inr n else find_node t k)" for k
  proof (cases "rank k = rank (key n)")
    case False
    hence "find_node t' k = find_node t k" by (intro find_cong [OF t'(2) assms(1)]) (auto simp: s(1))
    thus ?thesis using False by simp
  qed (use find_hit [OF t'(2), of n k] in simp)
  thus ?thesis using t' s(1) by blast
qed

lemma insert_taken:
  assumes "content t xs" and "ptr_ok n" and "n \<notin> set xs" and "find_node t (key n) \<noteq> Inr 0"
  shows "\<exists>t'. insert_node n (node_init n t) = Inr (t', RBT_INSERT_EXISTS) \<and> content t' xs \<and> (\<forall>k. find_node t' k = find_node t k)"
proof -
  obtain e where "e \<in> set xs" "rank (key e) = rank (key n)" using assms(4) find_null_iff [OF assms(1)] by blast
  then obtain t' where t': "insert_node n (node_init n t) = Inr (t', RBT_INSERT_EXISTS)" "content t' xs"
    using insert_old [OF assms(1-3)] by blast
  thus ?thesis using find_cong [OF t'(2) assms(1)] by auto
qed

lemma find_after_remove:
  assumes "content t xs" and "n \<in> set xs"
  shows "\<exists>t' ls rs. remove_node n t = Inr t' \<and> xs = ls @ n # rs \<and> content (node_free n t') (ls @ rs) \<and>
    (\<forall>k. find_node (node_free n t') k = (if rank k = rank (key n) then Inr 0 else find_node t k))"
proof -
  obtain ls rs where s: "xs = ls @ n # rs" using assms(2) by (auto simp: in_set_conv_decomp)
  obtain t' where t': "remove_node n t = Inr t'" "content (node_free n t') (ls @ rs)"
    using remove_content [of t ls n rs] assms(1) s by auto
  have "rank (key a) \<noteq> rank (key n)" if "a \<in> set (ls @ rs)" for a
    using content_ascending [OF assms(1)] that by (auto simp: s ascending_append ascending_Cons)
  hence hit: "rank k = rank (key n) \<Longrightarrow> find_node (node_free n t') k = Inr 0" for k
    using find_miss [OF t'(2), of k] by metis
  have "find_node (node_free n t') k = (if rank k = rank (key n) then Inr 0 else find_node t k)" for k
  proof (cases "rank k = rank (key n)")
    case False
    hence "find_node (node_free n t') k = find_node t k" by (intro find_cong [OF t'(2) assms(1)]) (auto simp: s)
    thus ?thesis using False by simp
  qed (simp add: hit)
  thus ?thesis using t' s by blast
qed

end

section \<open>The tree provides it\<close>

definition node_init :: "u64 \<Rightarrow> rbtree \<Rightarrow> rbtree" where
  "node_init n t = t\<lparr>cells := (cells t)(n \<mapsto> \<lparr>rb_left = 0, rb_right = 0, packed = 0\<rparr>)\<rparr>"

definition node_free :: "u64 \<Rightarrow> rbtree \<Rightarrow> rbtree" where
  "node_free n t = t\<lparr>cells := (cells t)(n := None)\<rparr>"

definition keyed :: "(u64 \<Rightarrow> 'k :: linorder) \<Rightarrow> rbtree \<Rightarrow> u64 list \<Rightarrow> bool" where
  "keyed f t xs \<longleftrightarrow> rb_nodes t xs \<and> ascending f xs"

lemma rb_nodes_off: "kept_off A t t' \<Longrightarrow> root t' = root t \<Longrightarrow> set xs \<inter> A = {} \<Longrightarrow> rb_nodes t xs \<Longrightarrow> rb_nodes t' xs"
  by (auto simp: rb_nodes_def represents_def intro: holds_kept)

lemma rb_nodes_init: "n \<notin> set xs \<Longrightarrow> rb_nodes t xs \<Longrightarrow> rb_nodes (node_init n t) xs"
  by (rule rb_nodes_off [of "{n}" t]) (auto simp: node_init_def kept_off_def)

lemma rb_nodes_free: "n \<notin> set xs \<Longrightarrow> rb_nodes t xs \<Longrightarrow> rb_nodes (node_free n t) xs"
  by (rule rb_nodes_off [of "{n}" t]) (auto simp: node_free_def kept_off_def)

lemma rb_nodes_distinct: "rb_nodes t xs \<Longrightarrow> distinct xs"
  by (auto simp: rb_nodes_def represents_def)

text \<open>Both kinds of keys are 64-bit words, compared through an injective \<open>rank\<close>.\<close>

definition rank_cmp :: "(u64 \<Rightarrow> 'k :: linorder) \<Rightarrow> (u64 \<Rightarrow> u64) \<Rightarrow> u64 \<Rightarrow> u64 \<Rightarrow> int" where
  "rank_cmp rank key k x = key_cmp (k = key x) (rank k < rank (key x))"

lemma rank_cmp_sides:
  "rank_cmp rank key (key a) a = RBT_EQUALS"
  "rank k < rank (key a) \<Longrightarrow> rank_cmp rank key k a = RBT_LESS_THAN"
  "rank (key a) < rank k \<Longrightarrow> rank_cmp rank key k a = RBT_GREATER_THAN"
  by (auto simp: rank_cmp_def key_cmp_def)

lemma rank_cmp_split:
  assumes "inj rank" and "keyed (\<lambda>a. rank (key a)) t xs" and "e \<in> set xs" and "rank (key e) = rank k"
  obtains ls rs where "xs = ls @ e # rs" "rank_cmp rank key k e = RBT_EQUALS"
    "\<forall>a\<in>set ls. rank_cmp rank key k a = RBT_GREATER_THAN" "\<forall>a\<in>set rs. rank_cmp rank key k a = RBT_LESS_THAN"
proof -
  obtain ls rs where s: "xs = ls @ e # rs" using assms(3) by (auto simp: in_set_conv_decomp)
  have "key e = k" using assms(1,4) by (simp add: inj_eq)
  moreover have "ascending (\<lambda>a. rank (key a)) (ls @ e # rs)" using assms(2) by (simp add: keyed_def s)
  ultimately show ?thesis using assms(4)
    by (intro that [OF s]) (auto simp: rank_cmp_sides ascending_append ascending_Cons)
qed

lemma rank_cmp_missing:
  assumes "keyed (\<lambda>a. rank (key a)) t xs" and "\<forall>a\<in>set xs. rank (key a) \<noteq> rank k"
  obtains ls rs where "xs = ls @ rs"
    "\<forall>a\<in>set ls. rank_cmp rank key k a = RBT_GREATER_THAN" "\<forall>a\<in>set rs. rank_cmp rank key k a = RBT_LESS_THAN"
proof -
  have a: "ascending (\<lambda>a. rank (key a)) xs" using assms(1) by (simp add: keyed_def)
  show ?thesis
    by (rule ascending_split [OF a assms(2)], rule that) (auto simp: rank_cmp_sides)
qed

lemma keyed_insert_new:
  fixes rank :: "u64 \<Rightarrow> 'k :: linorder"
  assumes "keyed (\<lambda>a. rank (key a)) t (ls @ rs)" and "ptr_ok n" and "n \<notin> set (ls @ rs)"
    and "\<forall>a\<in>set ls. rank (key a) < rank (key n)" and "\<forall>a\<in>set rs. rank (key n) < rank (key a)"
  shows "\<exists>t'. rbind (bst_insert (rank_cmp rank key (key n)) n (node_init n t)) (insert_result n) = Inr (t', RBT_INSERT_OK) \<and>
    keyed (\<lambda>a. rank (key a)) t' (ls @ n # rs)"
proof -
  have "rb_nodes (node_init n t) (ls @ rs)" using assms(1,3) rb_nodes_init by (simp add: keyed_def)
  moreover have "cells (node_init n t) n \<noteq> None" by (simp add: node_init_def)
  ultimately obtain t' where
    "rbind (bst_insert (rank_cmp rank key (key n)) n (node_init n t)) (insert_result n) = Inr (t', RBT_INSERT_OK)"
    "rb_nodes t' (ls @ n # rs)"
    using rbt_insert_ok [of "node_init n t" ls rs n "rank_cmp rank key (key n)"] assms(2-)
    by (auto simp: rank_cmp_sides codes_neq)
  thus ?thesis using assms by (auto simp: keyed_def ascending_append ascending_Cons)
qed

lemma keyed_insert_old:
  fixes rank :: "u64 \<Rightarrow> 'k :: linorder"
  assumes "inj rank" and "keyed (\<lambda>a. rank (key a)) t xs" and "n \<notin> set xs" and "e \<in> set xs" and "rank (key e) = rank (key n)"
  shows "\<exists>t'. rbind (bst_insert (rank_cmp rank key (key n)) n (node_init n t)) (insert_result n) = Inr (t', RBT_INSERT_EXISTS) \<and>
    keyed (\<lambda>a. rank (key a)) t' xs"
proof -
  from rank_cmp_split [OF assms(1,2,4,5)] obtain ls rs where s: "xs = ls @ e # rs"
    "rank_cmp rank key (key n) e = RBT_EQUALS" "\<forall>a\<in>set ls. rank_cmp rank key (key n) a = RBT_GREATER_THAN"
    "\<forall>a\<in>set rs. rank_cmp rank key (key n) a = RBT_LESS_THAN" .
  have i: "rb_nodes (node_init n t) xs" using assms(2,3) rb_nodes_init by (simp add: keyed_def)
  have "rbind (bst_insert (rank_cmp rank key (key n)) n (node_init n t)) (insert_result n) =
      Inr (node_init n t, RBT_INSERT_EXISTS)"
    by (rule rbt_insert_exists [OF i [unfolded s(1)] s(2) _ s(4)]) (use s(3) in \<open>auto simp: codes_neq\<close>)
  thus ?thesis using i assms(2) by (auto simp: keyed_def)
qed

lemma keyed_remove:
  assumes "keyed f t (ls @ n # rs)"
  shows "\<exists>t'. rbt_remove n t = Inr t' \<and> keyed f (node_free n t') (ls @ rs)"
proof -
  from rbt_remove_ok [of t ls n rs] assms obtain t' where t': "rbt_remove n t = Inr t'" "rb_nodes t' (ls @ rs)"
    by (auto simp: keyed_def)
  moreover have "n \<notin> set (ls @ rs)" using rb_nodes_distinct [of t "ls @ n # rs"] assms by (simp add: keyed_def)
  ultimately show ?thesis using assms rb_nodes_free [of n "ls @ rs" t'] by (auto simp: keyed_def ascending_append ascending_Cons)
qed

lemma keyed_find:
  fixes rank :: "u64 \<Rightarrow> 'k :: linorder"
  assumes "inj rank" and "keyed (\<lambda>a. rank (key a)) t xs" and st: "steers step (\<lambda>p. p) (rank_cmp rank key k)"
  shows "e \<in> set xs \<Longrightarrow> rank (key e) = rank k \<Longrightarrow> returns (walk step 0 t (root t)) = Inr e"
    and "\<forall>a\<in>set xs. rank (key a) \<noteq> rank k \<Longrightarrow> returns (walk step 0 t (root t)) = Inr 0"
proof -
  obtain T where T: "root t = addr T" "holds (cells t) 0 T" "inord T = xs"
    using assms(2) by (auto simp: keyed_def rb_nodes_def represents_def)
  show "returns (walk step 0 t (root t)) = Inr e" if "e \<in> set xs" "rank (key e) = rank k"
    by (rule rank_cmp_split [OF assms(1,2) that]) (simp add: T(1) walk_found [OF st T(2)] T(3) returns_def)
  show "returns (walk step 0 t (root t)) = Inr 0" if "\<forall>a\<in>set xs. rank (key a) \<noteq> rank k"
    by (rule rank_cmp_missing [OF assms(2) that]) (simp add: T(1) walk_missing [OF st T(2)] T(3) returns_def)
qed

lemma inj_sint: "inj (sint :: u64 \<Rightarrow> int)"
  by (rule injI) (rule signed_word_eqI)

lemma steers_unsigned:
  "steers (\<lambda>n p. find_step (key p = k) (k < key p) n p) (\<lambda>p. p) (rank_cmp (\<lambda>x. x) key k)"
  by (auto simp: steers_def codes_neq codes_neq [symmetric] key_cmp_def find_step_def rank_cmp_def)

lemma steers_signed:
  "steers (\<lambda>n p. find_step (key p = k) (sint k < sint (key p)) n p) (\<lambda>p. p) (rank_cmp sint key k)"
  by (auto simp: steers_def codes_neq codes_neq [symmetric] key_cmp_def find_step_def rank_cmp_def)

lemma rbt_insert_u64_alt:
  "rbt_insert_u64 key n t = rassert (n \<noteq> 0) (Panic ''invalid params!'')
     (rbind (bst_insert (rank_cmp (\<lambda>x. x) key (key n)) n t) (insert_result n))"
  by (simp add: rbt_insert_u64_def bst_insert_unsigned_def rank_cmp_def [abs_def])

lemma rbt_insert_i64_alt:
  "rbt_insert_i64 key n t = rassert (n \<noteq> 0) (Panic ''invalid params!'')
     (rbind (bst_insert (rank_cmp sint key (key n)) n t) (insert_result n))"
  by (simp add: rbt_insert_i64_def bst_insert_signed_def rank_cmp_def [abs_def])

interpretation u64_tree: ordered_index "\<lambda>x. x" key "keyed key" node_init node_free
  "rbt_insert_u64 key" "rbt_find_u64 key" rbt_remove for key
proof unfold_locales
  fix t xs ls rs n e k
  show "keyed key t xs \<Longrightarrow> ascending key xs" by (simp add: keyed_def)
  show "keyed key t xs \<Longrightarrow> 0 \<notin> set xs" using rb_nodes_nonnull [of t xs 0] by (auto simp: keyed_def ptr_ok_def)
  show "\<exists>t'. rbt_insert_u64 key n (node_init n t) = Inr (t', RBT_INSERT_OK) \<and> keyed key t' (ls @ n # rs)"
    if "keyed key t (ls @ rs)" "ptr_ok n" "n \<notin> set (ls @ rs)" "\<forall>a\<in>set ls. key a < key n" "\<forall>a\<in>set rs. key n < key a"
    using keyed_insert_new [of "\<lambda>x. x", OF that] that(2) by (simp add: rbt_insert_u64_alt)
  show "\<exists>t'. rbt_insert_u64 key n (node_init n t) = Inr (t', RBT_INSERT_EXISTS) \<and> keyed key t' xs"
    if "keyed key t xs" "ptr_ok n" "n \<notin> set xs" "e \<in> set xs" "key e = key n"
    using keyed_insert_old [of "\<lambda>x. x", OF _ that(1,3,4,5)] that(2) by (simp add: rbt_insert_u64_alt)
  show "keyed key t xs \<Longrightarrow> e \<in> set xs \<Longrightarrow> key e = k \<Longrightarrow> rbt_find_u64 key t k = Inr e"
    "keyed key t xs \<Longrightarrow> \<forall>a\<in>set xs. key a \<noteq> k \<Longrightarrow> rbt_find_u64 key t k = Inr 0"
    unfolding rbt_find_u64_def using keyed_find [of "\<lambda>x. x", OF _ _ steers_unsigned] by simp_all
  show "keyed key t (ls @ n # rs) \<Longrightarrow> \<exists>t'. rbt_remove n t = Inr t' \<and> keyed key (node_free n t') (ls @ rs)"
    by (rule keyed_remove)
qed

interpretation i64_tree: ordered_index sint key "keyed (\<lambda>a. sint (key a))" node_init node_free
  "rbt_insert_i64 key" "rbt_find_i64 key" rbt_remove for key
proof unfold_locales
  fix t xs ls rs n e k
  show "keyed (\<lambda>a. sint (key a)) t xs \<Longrightarrow> ascending (\<lambda>a. sint (key a)) xs" by (simp add: keyed_def)
  show "keyed (\<lambda>a. sint (key a)) t xs \<Longrightarrow> 0 \<notin> set xs" using rb_nodes_nonnull [of t xs 0] by (auto simp: keyed_def ptr_ok_def)
  show "\<exists>t'. rbt_insert_i64 key n (node_init n t) = Inr (t', RBT_INSERT_OK) \<and> keyed (\<lambda>a. sint (key a)) t' (ls @ n # rs)"
    if "keyed (\<lambda>a. sint (key a)) t (ls @ rs)" "ptr_ok n" "n \<notin> set (ls @ rs)" "\<forall>a\<in>set ls. sint (key a) < sint (key n)" "\<forall>a\<in>set rs. sint (key n) < sint (key a)"
    using keyed_insert_new [of sint, OF that] that(2) by (simp add: rbt_insert_i64_alt)
  show "\<exists>t'. rbt_insert_i64 key n (node_init n t) = Inr (t', RBT_INSERT_EXISTS) \<and> keyed (\<lambda>a. sint (key a)) t' xs"
    if "keyed (\<lambda>a. sint (key a)) t xs" "ptr_ok n" "n \<notin> set xs" "e \<in> set xs" "sint (key e) = sint (key n)"
    using keyed_insert_old [OF inj_sint that(1,3,4,5)] that(2) by (simp add: rbt_insert_i64_alt)
  show "keyed (\<lambda>a. sint (key a)) t xs \<Longrightarrow> e \<in> set xs \<Longrightarrow> sint (key e) = sint k \<Longrightarrow> rbt_find_i64 key t k = Inr e"
    "keyed (\<lambda>a. sint (key a)) t xs \<Longrightarrow> \<forall>a\<in>set xs. sint (key a) \<noteq> sint k \<Longrightarrow> rbt_find_i64 key t k = Inr 0"
    unfolding rbt_find_i64_def using keyed_find [OF inj_sint _ steers_signed] by simp_all
  show "keyed (\<lambda>a. sint (key a)) t (ls @ n # rs) \<Longrightarrow> \<exists>t'. rbt_remove n t = Inr t' \<and> keyed (\<lambda>a. sint (key a)) (node_free n t') (ls @ rs)"
    by (rule keyed_remove)
qed

end
