(* ===== verification/Rb_Props.thy ===== *)
theory Rb_Props
  imports Rb_Iface
begin

text \<open>
  The properties of the red-black tree, each with a concrete tree of three nodes at which it applies.
\<close>

section \<open>Height\<close>

primrec tree_height :: "rbt \<Rightarrow> nat" where
  "tree_height Lf = 0"
| "tree_height (Nd c l a r) = Suc (max (tree_height l) (tree_height r))"

lemma height_bheight: "invc T \<Longrightarrow> invh T \<Longrightarrow> tree_height T \<le> 2 * bheight T + (if hue T = RED then 1 else 0)"
proof (induction T)
  case (Nd c l a r)
  hence "tree_height l \<le> 2 * bheight l + (if hue l = RED then 1 else 0)"
    "tree_height r \<le> 2 * bheight l + (if hue r = RED then 1 else 0)" by simp_all
  thus ?case using Nd.prems by (cases c) (auto split: if_splits)
qed simp

lemma bheight_nodes: "invh T \<Longrightarrow> 2 ^ bheight T \<le> length (inord T) + 1"
proof (induction T)
  case (Nd c l a r)
  hence "2 ^ bheight l \<le> length (inord l) + 1" "2 ^ bheight l \<le> length (inord r) + 1" by simp_all
  thus ?case by (cases "c = BLACK") simp_all
qed simp

text \<open>The nodes from the root down to the one a search stops at.\<close>

primrec all_paths :: "rbt \<Rightarrow> u64 list set" where
  "all_paths Lf = {[]}"
| "all_paths (Nd c l a r) = (\<lambda>p. a # p) ` (all_paths l \<union> all_paths r)"

lemma all_paths_height: "p \<in> all_paths T \<Longrightarrow> length p \<le> tree_height T"
  by (induction T arbitrary: p) (auto simp: le_max_iff_disj)

section \<open>A tree of three nodes\<close>

definition three_tree :: rbt where
  "three_tree = Nd BLACK (Nd RED Lf 16 Lf) 32 (Nd RED Lf 48 Lf)"

definition three :: rbtree where
  "three = \<lparr>root = 32, cells = [16 \<mapsto> mknode LEFT 0 0 32 RED, 32 \<mapsto> mknode LEFT 16 48 0 BLACK,
     48 \<mapsto> mknode LEFT 0 0 32 RED, 64 \<mapsto> mknode LEFT 0 0 0 BLACK]\<rparr>"

lemma three_represents: "represents three three_tree"
  by (simp add: represents_def three_def three_tree_def ptr_ok_def bit_0)

lemma three_nodes: "rb_nodes three [16, 32, 48]"
  unfolding rb_nodes_def
  by (rule exI [of _ three_tree]) (simp add: three_represents, simp add: three_tree_def rb_ok_def)

definition addr_cond :: rbt_condition where
  "addr_cond a b = key_cmp (a = b) (a < b)"

lemma addr_cond_three:
  "addr_cond 64 16 = RBT_GREATER_THAN" "addr_cond 64 32 = RBT_GREATER_THAN" "addr_cond 64 48 = RBT_GREATER_THAN"
  "addr_cond 32 16 = RBT_GREATER_THAN" "addr_cond 32 32 = RBT_EQUALS" "addr_cond 32 48 = RBT_LESS_THAN"
  by (simp_all add: addr_cond_def key_cmp_def)

section \<open>Properties\<close>

text \<open>Property C20: inserting a node that the condition puts after the nodes \<open>ls\<close> and before the nodes
  \<open>rs\<close> of a red-black tree succeeds: the loop of the rebalancing ends, no null pointer is read, and the
  store then holds a red-black tree with exactly the nodes \<open>ls\<close>, the new node and \<open>rs\<close> in this order; no
  other node of the store is changed.\<close>
theorem rbt_insert_spec:
  assumes "rb_nodes t (ls @ rs)" and "ptr_ok n" and "n \<notin> set (ls @ rs)" and "cells t n \<noteq> None"
    and "\<forall>a\<in>set ls. cond n a = RBT_GREATER_THAN" and "\<forall>a\<in>set rs. cond n a = RBT_LESS_THAN"
  shows "\<exists>t'. rbt_insert cond n t = Inr (t', RBT_INSERT_OK) \<and> rb_nodes t' (ls @ n # rs) \<and>
    kept_off (set (ls @ n # rs)) t t'"
proof -
  have "n \<noteq> 0" using assms(2) by auto
  moreover have "\<forall>a\<in>set ls. cond n a \<noteq> RBT_EQUALS \<and> cond n a \<noteq> RBT_LESS_THAN"
    using assms(5) by (auto simp: codes_neq)
  ultimately show ?thesis using rbt_insert_ok [of t ls rs n "cond n"] assms
    by (auto simp: rbt_insert_def bst_insert_conditional_def)
qed

theorem rbt_insert_spec_witness:
  "\<exists>t'. rbt_insert addr_cond 64 three = Inr (t', RBT_INSERT_OK) \<and> rb_nodes t' [16, 32, 48, 64] \<and>
    kept_off {16, 32, 48, 64} three t'"
  using rbt_insert_spec [of three "[16, 32, 48]" "[]" 64 addr_cond] three_nodes
  by (simp add: addr_cond_three ptr_ok_def bit_0 three_def)

text \<open>Property C21: removing a node of a red-black tree succeeds, with every loop ending, and leaves a
  red-black tree with the other nodes in the same order; the removed node itself and all other nodes of
  the store are not changed.\<close>
theorem rbt_remove_spec:
  assumes "rb_nodes t (ls @ n # rs)"
  shows "\<exists>t'. rbt_remove n t = Inr t' \<and> rb_nodes t' (ls @ rs) \<and> kept_off (set (ls @ rs)) t t'"
  by (rule rbt_remove_ok [OF assms])

theorem rbt_remove_spec_witness:
  "\<exists>t'. rbt_remove 32 three = Inr t' \<and> rb_nodes t' [16, 48] \<and> kept_off {16, 48} three t'"
  using rbt_remove_spec [of three "[16]" 32 "[48]"] three_nodes by simp

text \<open>Property C22: a search with a condition that is consistent with the order of the nodes returns the
  equal node, if there is one, and \<open>RBT_FIND_NOT_FOUND\<close> without writing a node if there is none.\<close>
theorem rbt_find_spec:
  assumes "rb_nodes t (ls @ ms @ rs)" and "length ms \<le> 1"
    and "\<forall>a\<in>set ls. cond ctx a = RBT_GREATER_THAN" and "\<forall>a\<in>set ms. cond ctx a = RBT_EQUALS"
    and "\<forall>a\<in>set rs. cond ctx a = RBT_LESS_THAN"
  shows "rbt_find cond ctx t = Inr (case ms of [] \<Rightarrow> (RBT_FIND_NOT_FOUND, None) | e # _ \<Rightarrow> (RBT_FIND_OK, Some e))"
proof (cases ms)
  case Nil
  thus ?thesis using rbt_find_missing [of t ls rs cond ctx] assms by simp
next
  case (Cons e es)
  hence "ms = [e]" using assms(2) by simp
  thus ?thesis using rbt_find_ok [of t ls e rs cond ctx] assms by simp
qed

theorem rbt_find_spec_witness:
  "rbt_find addr_cond 32 three = Inr (RBT_FIND_OK, Some 32) \<and>
   rbt_find addr_cond 64 three = Inr (RBT_FIND_NOT_FOUND, None)"
  using rbt_find_spec [of three "[16]" "[32]" "[48]" addr_cond 32]
    rbt_find_spec [of three "[16, 32, 48]" "[]" "[]" addr_cond 64] three_nodes
  by (simp add: addr_cond_three)

text \<open>Property C23: Property C23: \<open>rbt_for_each\<close> and \<open>rbt_for_each_rev\<close> end, and call the visitor on the nodes in
  order, respectively in reverse order, up to the first call that asks to stop.\<close>
theorem rbt_for_each_spec:
  assumes "rb_nodes t xs"
  shows "rbt_for_each visit t ctx = Inr (visit_list visit xs ctx) \<and>
    rbt_for_each_rev visit t ctx = Inr (visit_list visit (rev xs) ctx)"
  by (simp add: rbt_for_each_ok [OF assms] rbt_for_each_rev_ok [OF assms])

theorem rbt_for_each_spec_witness:
  "rbt_for_each (\<lambda>a s. (s @ [a], a \<noteq> 32)) three [] = Inr [16, 32] \<and>
   rbt_for_each_rev (\<lambda>a s. (s @ [a], a \<noteq> 16)) three [] = Inr [48, 32, 16]"
  using rbt_for_each_spec [OF three_nodes, of "\<lambda>a s. (s @ [a], a \<noteq> 32)" "[]"]
    rbt_for_each_spec [OF three_nodes, of "\<lambda>a s. (s @ [a], a \<noteq> 16)" "[]"] by simp

text \<open>Property C24: \<open>rbt_destroy\<close> ends and frees every node exactly once, children before their
  parent, and never reads a node after it was freed (such a read would be a fault); afterwards the tree is
  empty, none of its nodes is in the store and no other node was changed.\<close>
theorem rbt_destroy_spec:
  assumes "represents t T" and "\<And>x s. x \<in> set (inord T) \<Longrightarrow> \<exists>s'. free x s = Inr s'"
  shows "\<exists>t' ctx'. rbt_destroy free t ctx = Inr (t', ctx') \<and> rfold free (postord T) ctx = Inr ctx' \<and>
    mset (postord T) = mset (inord T) \<and> distinct (postord T) \<and> root t' = 0 \<and>
    (\<forall>a\<in>set (inord T). cells t' a = None) \<and> kept_off (set (inord T)) t t'"
proof -
  have s: "set (postord T) = set (inord T)" using mset_postord [of T] by (metis set_mset_mset)
  have d: "distinct (postord T)"
    using assms(1) mset_eq_imp_distinct_iff [OF mset_postord [of T]] by (simp add: represents_def)
  have "\<exists>ctx'. rfold free ys ctx = Inr ctx'" if "set ys \<subseteq> set (inord T)" for ys ctx
    using that
  proof (induction ys arbitrary: ctx)
    case (Cons y ys)
    obtain s where "free y ctx = Inr s" using assms(2) [of y ctx] Cons.prems by auto
    thus ?case using Cons.IH [of s] Cons.prems by simp
  qed simp
  then obtain ctx' where "rfold free (postord T) ctx = Inr ctx'" using s by blast
  thus ?thesis using rbt_destroy_ok [OF assms(1), of free ctx] s d mset_postord [of T] by auto
qed

theorem rbt_destroy_spec_witness:
  "\<exists>t'. rbt_destroy (\<lambda>x s. Inr (x # s)) three [] = Inr (t', [32, 48, 16]) \<and> root t' = 0 \<and>
    cells t' 16 = None \<and> cells t' 32 = None \<and> cells t' 48 = None"
  using rbt_destroy_spec [OF three_represents, of "\<lambda>x s. Inr (x # s)" "[]"]
  by (auto simp: three_tree_def)

text \<open>No path of a tree with \<open>n\<close> nodes is longer than twice the logarithm of \<open>n + 1\<close>: this
  bounds the turns of every search.\<close>
theorem rbt_depth_bound:
  assumes "rb_nodes t xs"
  shows "\<exists>T. represents t T \<and> inord T = xs \<and> (\<forall>p\<in>all_paths T. 2 ^ ((length p + 1) div 2) \<le> length xs + 1)"
proof -
  obtain T where T: "represents t T" "rb_ok T" "inord T = xs" using assms by (auto simp: rb_nodes_def)
  have "(length p + 1) div 2 \<le> bheight T" if "p \<in> all_paths T" for p
    using all_paths_height [OF that] height_bheight [of T] T(2) by (simp add: rb_ok_def)
  moreover have "2 ^ bheight T \<le> length xs + 1" using bheight_nodes [of T] T(2,3) by (auto simp: rb_ok_def)
  ultimately have "2 ^ ((length p + 1) div 2) \<le> length xs + 1" if "p \<in> all_paths T" for p
    using that by (meson le_trans one_le_numeral power_increasing)
  thus ?thesis using T by blast
qed

theorem rbt_depth_bound_witness:
  "\<exists>T. represents three T \<and> inord T = [16, 32, 48] \<and> (\<forall>p\<in>all_paths T. 2 ^ ((length p + 1) div 2) \<le> length [16, 32, 48 :: u64] + 1)"
  by (rule rbt_depth_bound [OF three_nodes])

text \<open>A condition code other than the three named ones does not keep a node out of the
  tree: the node is inserted as if it were greater, and \<open>RBT_INSERT_OK\<close> is returned.\<close>
theorem rbt_insert_custom_code:
  assumes "rb_nodes t xs" and "ptr_ok n" and "n \<notin> set xs" and "cells t n \<noteq> None"
    and "\<forall>a\<in>set xs. cond n a \<notin> {RBT_LESS_THAN, RBT_GREATER_THAN, RBT_EQUALS}"
  shows "\<exists>t'. rbt_insert cond n t = Inr (t', RBT_INSERT_OK) \<and> rb_nodes t' (xs @ [n])"
proof -
  have "n \<noteq> 0" using assms(2) by auto
  thus ?thesis using rbt_insert_ok [of t xs "[]" n "cond n"] assms
    by (auto simp: rbt_insert_def bst_insert_conditional_def)
qed

theorem rbt_insert_custom_code_witness:
  "\<exists>t'. rbt_insert (\<lambda>a b. 7) 64 three = Inr (t', RBT_INSERT_OK) \<and> rb_nodes t' [16, 32, 48, 64]"
  using rbt_insert_custom_code [OF three_nodes, of 64 "\<lambda>a b. 7"]
  by (simp add: ptr_ok_def bit_0 three_def RBT_LESS_THAN_def RBT_GREATER_THAN_def RBT_EQUALS_def)

end
