(* ===== verification/Vfs.thy ===== *)
theory Vfs
  imports Rb_Iface
begin

text \<open>
  The file descriptor tables of \<open>kernel/vfs/vfs.c\<close>: a red-black tree keyed by the descriptor, whose
  nodes hold the operations of a device.  The operations of a device act on a state of type \<open>'w\<close>, which
  the table does not look at.  The table is a finite map from descriptors to open files, and binding and
  closing a descriptor refine the update and the deletion on that map.
\<close>

section \<open>Model\<close>

type_synonym i32 = "32 word"

record 'w file_operations =
  op_read :: "(u64 \<Rightarrow> u64 \<Rightarrow> u32 \<Rightarrow> 'w \<Rightarrow> 'w \<times> int) option"
  op_write :: "(u64 \<Rightarrow> u64 \<Rightarrow> u32 \<Rightarrow> 'w \<Rightarrow> 'w \<times> int) option"
  op_open :: "(u64 \<Rightarrow> u64 \<Rightarrow> 'w \<Rightarrow> 'w \<times> int) option"
  op_close :: "(u64 \<Rightarrow> i32 \<Rightarrow> 'w \<Rightarrow> 'w \<times> int) option"
  op_mmap :: "(u64 \<Rightarrow> u64 \<Rightarrow> u32 \<Rightarrow> u32 \<Rightarrow> u32 \<Rightarrow> u32 \<Rightarrow> 'w \<Rightarrow> 'w \<times> int) option"

text \<open>What follows the tree header in a node.\<close>

record 'w file_descriptor_node =
  fd :: u64
  ops :: "'w file_operations option"
  device_data :: u64

record 'w fd_table =
  files :: rbtree
  fd_nodes :: "u64 \<Rightarrow> 'w file_descriptor_node option"

definition FD_TABLE_INIT :: "'w fd_table" where
  "FD_TABLE_INIT = \<lparr>files = RBT_INIT (\<lambda>_. None), fd_nodes = (\<lambda>_. None)\<rparr>"

definition VFS_OK :: int where
  "VFS_OK = 0"

definition VFS_ERR_BADF :: int where
  "VFS_ERR_BADF = -1"

definition VFS_ERR_NODEV :: int where
  "VFS_ERR_NODEV = -2"

definition VFS_ERR_NOSUP :: int where
  "VFS_ERR_NOSUP = -3"

definition VFS_ERR_INVAL :: int where
  "VFS_ERR_INVAL = -4"

definition VFS_MAX_SIZE :: u32 where
  "VFS_MAX_SIZE = 0x40000000"

definition fd_key :: "'w fd_table \<Rightarrow> u64 \<Rightarrow> u64" where
  "fd_key T a = (case fd_nodes T a of None \<Rightarrow> 0 | Some n \<Rightarrow> fd n)"

text \<open>\<open>node\<close> is the address that \<open>kmalloc\<close> returns.  The literal that is stored through it clears the
  header.\<close>

definition descriptor_new ::
  "u64 \<Rightarrow> i32 \<Rightarrow> 'w file_operations option \<Rightarrow> u64 \<Rightarrow> 'w fd_table \<Rightarrow> 'w fd_table" where
  "descriptor_new node d oper data T =
     T\<lparr>files := node_init node (files T),
       fd_nodes := (fd_nodes T)(node \<mapsto> \<lparr>fd = scast d, ops = oper, device_data = data\<rparr>)\<rparr>"

datatype file_operation = OP_READ | OP_WRITE | OP_OPEN | OP_CLOSE | OP_MMAP

definition op_missing :: "file_operation \<Rightarrow> 'w file_operations \<Rightarrow> bool" where
  "op_missing op f =
     (case op of OP_READ \<Rightarrow> op_read f = None | OP_WRITE \<Rightarrow> op_write f = None | OP_OPEN \<Rightarrow> op_open f = None
      | OP_CLOSE \<Rightarrow> op_close f = None | OP_MMAP \<Rightarrow> op_mmap f = None)"

text \<open>The result code and the descriptor's node, 0 if it is not set.\<close>

definition validate_descriptor_op :: "'w fd_table option \<Rightarrow> i32 \<Rightarrow> file_operation \<Rightarrow> (int \<times> u64) res" where
  "validate_descriptor_op table d op =
     (case table of
        None \<Rightarrow> Inr (VFS_ERR_INVAL, 0)
      | Some T \<Rightarrow>
          (if sint d < 0 then Inr (VFS_ERR_INVAL, 0)
           else
             rbind (rbt_find_u64 (fd_key T) (files T) (scast d)) (\<lambda>descriptor.
             if descriptor = 0 then Inr (VFS_ERR_BADF, 0)
             else case fd_nodes T descriptor of
               None \<Rightarrow> Inl Fault
             | Some n \<Rightarrow>
                 (case ops n of
                    None \<Rightarrow> Inr (VFS_ERR_NODEV, descriptor)
                  | Some f \<Rightarrow>
                      (if op_missing op f then Inr (VFS_ERR_NOSUP, descriptor) else Inr (VFS_OK, descriptor))))))"

definition vfs_bind ::
  "u64 \<Rightarrow> 'w fd_table \<Rightarrow> i32 \<Rightarrow> 'w file_operations option \<Rightarrow> u64 \<Rightarrow> ('w fd_table \<times> int) res" where
  "vfs_bind node T d oper data =
     (if sint d < 0 then Inr (T, VFS_ERR_INVAL)
      else
        let T = descriptor_new node d oper data T in
        rbind (rbt_insert_u64 (fd_key T) node (files T)) (\<lambda>(t, r).
        if r = RBT_INSERT_OK then Inr (T\<lparr>files := t\<rparr>, VFS_OK)
        else if r = RBT_INSERT_EXISTS then Inr (T\<lparr>files := t\<rparr>, VFS_ERR_BADF)
        else Inl (Panic '''')))"

definition vfs_open :: "'w fd_table \<Rightarrow> u64 \<Rightarrow> ('w fd_table \<times> int) res" where
  "vfs_open T name = Inl (Panic ''TODO: implement file system'')"

definition kfree_descriptor :: "u64 \<Rightarrow> 'w fd_table \<Rightarrow> 'w fd_table" where
  "kfree_descriptor node T = T\<lparr>files := node_free node (files T), fd_nodes := (fd_nodes T)(node := None)\<rparr>"

definition remove_descriptor :: "u64 \<Rightarrow> 'w fd_table \<Rightarrow> 'w fd_table res" where
  "remove_descriptor node T =
     rbind (rbt_remove node (files T)) (\<lambda>t. Inr (kfree_descriptor node (T\<lparr>files := t\<rparr>)))"

text \<open>The operation that a validated descriptor has; a missing node or pointer is a fault.\<close>

definition the_op ::
  "('w file_operations \<Rightarrow> 'f option) \<Rightarrow> u64 \<Rightarrow> 'w fd_table option \<Rightarrow> (u64 \<times> 'f) res" where
  "the_op sel descriptor table =
     (case table of
        None \<Rightarrow> Inl Fault
      | Some T \<Rightarrow>
          (case fd_nodes T descriptor of
             None \<Rightarrow> Inl Fault
           | Some n \<Rightarrow>
               (case ops n of
                  None \<Rightarrow> Inl Fault
                | Some f \<Rightarrow> (case sel f of None \<Rightarrow> Inl Fault | Some g \<Rightarrow> Inr (device_data n, g)))))"

definition vfs_close :: "'w fd_table option \<Rightarrow> i32 \<Rightarrow> 'w \<Rightarrow> ('w fd_table option \<times> 'w \<times> int) res" where
  "vfs_close table d w =
     rbind (validate_descriptor_op table d OP_CLOSE) (\<lambda>(result, descriptor).
     if result \<noteq> VFS_OK \<and> result \<noteq> VFS_ERR_NOSUP then Inr (table, w, result)
     else
       rbind
         (if result \<noteq> VFS_OK then Inr (w, VFS_OK)
          else rbind (the_op op_close descriptor table) (\<lambda>(data, close). Inr (close data d w))) (\<lambda>(w, result).
       if result \<noteq> VFS_OK then Inr (table, w, result)
       else case table of
         None \<Rightarrow> Inl Fault
       | Some T \<Rightarrow> rbind (remove_descriptor descriptor T) (\<lambda>T. Inr (Some T, w, VFS_OK))))"

definition vfs_read :: "'w fd_table option \<Rightarrow> i32 \<Rightarrow> u64 \<Rightarrow> u32 \<Rightarrow> 'w \<Rightarrow> ('w \<times> int) res" where
  "vfs_read table d buf cnt w =
     (if sint d < 0 \<or> 2147483647 < sint d then Inr (w, VFS_ERR_BADF)
      else if cnt = 0 \<or> VFS_MAX_SIZE < cnt then Inr (w, VFS_ERR_INVAL)
      else
        rbind (validate_descriptor_op table d OP_READ) (\<lambda>(result, descriptor).
        if result \<noteq> VFS_OK then Inr (w, result)
        else rbind (the_op op_read descriptor table) (\<lambda>(data, read). Inr (read data buf cnt w))))"

definition vfs_write :: "'w fd_table option \<Rightarrow> i32 \<Rightarrow> u64 \<Rightarrow> u32 \<Rightarrow> 'w \<Rightarrow> ('w \<times> int) res" where
  "vfs_write table d buf cnt w =
     (if sint d < 0 \<or> 2147483647 < sint d then Inr (w, VFS_ERR_BADF)
      else if cnt = 0 \<or> VFS_MAX_SIZE < cnt then Inr (w, VFS_ERR_INVAL)
      else
        rbind (validate_descriptor_op table d OP_WRITE) (\<lambda>(result, descriptor).
        if result \<noteq> VFS_OK then Inr (w, result)
        else rbind (the_op op_write descriptor table) (\<lambda>(data, wr). Inr (wr data buf cnt w))))"

definition vfs_mmap ::
  "'w fd_table option \<Rightarrow> u64 \<Rightarrow> u32 \<Rightarrow> u32 \<Rightarrow> u32 \<Rightarrow> i32 \<Rightarrow> u32 \<Rightarrow> 'w \<Rightarrow> ('w \<times> int) res" where
  "vfs_mmap table adr len prot flags d offset w =
     rbind (validate_descriptor_op table d OP_MMAP) (\<lambda>(result, descriptor).
     if result \<noteq> VFS_OK then Inr (w, result)
     else rbind (the_op op_mmap descriptor table) (\<lambda>(data, mmap). Inr (mmap data adr len prot flags offset w)))"

section \<open>The table as a map\<close>

definition fd_map :: "'w fd_table \<Rightarrow> u64 \<Rightarrow> 'w file_descriptor_node option" where
  "fd_map T k =
     (case rbt_find_u64 (fd_key T) (files T) k of Inl e \<Rightarrow> None | Inr a \<Rightarrow> if a = 0 then None else fd_nodes T a)"

definition fd_holds :: "'w fd_table \<Rightarrow> u64 list \<Rightarrow> bool" where
  "fd_holds T xs \<longleftrightarrow> keyed (fd_key T) (files T) xs \<and> (\<forall>a\<in>set xs. fd_nodes T a \<noteq> None)"

definition fd_ok :: "'w fd_table \<Rightarrow> bool" where
  "fd_ok T \<longleftrightarrow> (\<exists>xs. fd_holds T xs)"

lemma fd_find:
  assumes "fd_holds T xs"
  shows "\<exists>a. rbt_find_u64 (fd_key T) (files T) k = Inr a \<and>
    (if a = 0 then fd_map T k = None \<and> (\<forall>b\<in>set xs. fd_key T b \<noteq> k)
     else a \<in> set xs \<and> fd_key T a = k \<and> fd_nodes T a = fd_map T k \<and> fd_map T k \<noteq> None)"
proof -
  have k: "keyed (fd_key T) (files T) xs" using assms by (simp add: fd_holds_def)
  from u64_tree.find_total [OF k, of k] obtain a where
    a: "rbt_find_u64 (fd_key T) (files T) k = Inr a" "a = 0 \<or> a \<in> set xs \<and> fd_key T a = k" by blast
  show ?thesis
  proof (cases "a = 0")
    case True
    thus ?thesis using a(1) u64_tree.find_null_iff [OF k, of k] by (simp add: fd_map_def)
  next
    case False
    hence "a \<in> set xs" "fd_key T a = k" using a(2) by simp_all
    thus ?thesis using a(1) False assms by (auto simp: fd_map_def fd_holds_def)
  qed
qed

lemma fd_map_iff:
  assumes "fd_holds T xs"
  shows "fd_map T k = Some n \<longleftrightarrow> (\<exists>a\<in>set xs. fd_nodes T a = Some n \<and> fd n = k)"
proof -
  have k: "keyed (fd_key T) (files T) xs" using assms by (simp add: fd_holds_def)
  show ?thesis
  proof
    assume "fd_map T k = Some n"
    thus "\<exists>a\<in>set xs. fd_nodes T a = Some n \<and> fd n = k"
      using fd_find [OF assms, of k] by (auto simp: fd_key_def split: if_splits)
  next
    assume "\<exists>a\<in>set xs. fd_nodes T a = Some n \<and> fd n = k"
    then obtain a where a: "a \<in> set xs" "fd_nodes T a = Some n" "fd_key T a = k" by (auto simp: fd_key_def)
    hence "rbt_find_u64 (fd_key T) (files T) k = Inr a" using u64_tree.find_hit [OF k] by blast
    thus "fd_map T k = Some n" using a u64_tree.content_nonnull [OF k] by (auto simp: fd_map_def)
  qed
qed

lemma fd_map_eqI:
  assumes "fd_holds T xs" and "\<And>k n. (\<exists>a\<in>set xs. fd_nodes T a = Some n \<and> fd n = k) \<longleftrightarrow> m k = Some n"
  shows "fd_map T = m"
proof
  fix k
  show "fd_map T k = m k" using fd_map_iff [OF assms(1), of k] assms(2) [of _ k] by (metis not_None_eq)
qed

lemma fd_table_init: "fd_holds FD_TABLE_INIT []"
  by (auto simp: fd_holds_def FD_TABLE_INIT_def RBT_INIT_def keyed_def ascending_def rb_nodes_def represents_def
      rb_ok_def intro!: exI [of _ Lf])

section \<open>Binding\<close>

lemma keyed_cong: "keyed f t xs \<Longrightarrow> \<forall>a\<in>set xs. g a = f a \<Longrightarrow> keyed g t xs"
  by (auto simp: keyed_def ascending_def intro: sorted_wrt_mono_rel [rotated])

lemma keyed_off: "fd_holds T xs \<Longrightarrow> fd_nodes T a = None \<Longrightarrow> a \<notin> set xs"
  by (auto simp: fd_holds_def)

lemma fd_key_new:
  "fd_nodes T node = None \<Longrightarrow> fd_holds T xs \<Longrightarrow> keyed (fd_key (descriptor_new node d oper data T)) (files T) xs"
  by (rule keyed_cong [of "fd_key T"])
    (use keyed_off [of T xs node] in \<open>auto simp: fd_holds_def fd_key_def descriptor_new_def\<close>)

lemma fd_key_files [simp]: "fd_key (T\<lparr>files := t\<rparr>) = fd_key T"
  by (simp add: fd_key_def fun_eq_iff)

lemma vfs_bind_ok:
  assumes T: "fd_holds T xs" and new: "ptr_ok node" "fd_nodes T node = None" and d: "0 \<le> sint d"
  shows "\<exists>T'. vfs_bind node T d oper data =
      Inr (T', if fd_map T (scast d) = None then VFS_OK else VFS_ERR_BADF) \<and> fd_ok T' \<and>
    fd_map T' = (if fd_map T (scast d) = None
       then (fd_map T)(scast d \<mapsto> \<lparr>fd = scast d, ops = oper, device_data = data\<rparr>) else fd_map T)"
proof -
  let ?N = "\<lparr>fd = scast d, ops = oper, device_data = data\<rparr>" and ?T = "descriptor_new node d oper data T"
  have k: "keyed (fd_key ?T) (files T) xs" by (rule fd_key_new [OF new(2) T])
  have off: "node \<notin> set xs" by (rule keyed_off [OF T new(2)])
  have key: "fd_key ?T node = scast d" by (simp add: fd_key_def descriptor_new_def)
  have files: "files ?T = node_init node (files T)" by (simp add: descriptor_new_def)
  have nodes: "fd_nodes ?T = (fd_nodes T)(node \<mapsto> ?N)" by (simp add: descriptor_new_def)
  have same: "rbt_find_u64 (fd_key ?T) (files T) (scast d) = Inr 0 \<longleftrightarrow> fd_map T (scast d) = None"
    using u64_tree.find_null_iff [OF k] fd_find [OF T, of "scast d"] off
    by (auto simp: fd_key_def nodes split: if_splits)
  show ?thesis
  proof (cases "fd_map T (scast d) = None")
    case True
    from u64_tree.find_after_insert [OF k new(1) off] True same key obtain t ls rs where
      t: "rbt_insert_u64 (fd_key ?T) node (files ?T) = Inr (t, RBT_INSERT_OK)" "xs = ls @ rs"
        "keyed (fd_key ?T) t (ls @ node # rs)" unfolding files by auto
    have h: "fd_holds (?T\<lparr>files := t\<rparr>) (ls @ node # rs)"
      using t(2,3) T by (auto simp: fd_holds_def nodes)
    have "fd_map (?T\<lparr>files := t\<rparr>) = (fd_map T)(scast d \<mapsto> ?N)"
    proof (rule fd_map_eqI [OF h])
      fix k n
      have "(\<exists>a\<in>set (ls @ node # rs). fd_nodes (?T\<lparr>files := t\<rparr>) a = Some n \<and> fd n = k) \<longleftrightarrow>
          n = ?N \<and> k = scast d \<or> fd_map T k = Some n"
        using off fd_map_iff [OF T, of k n] by (auto simp: nodes t(2))
      thus "(\<exists>a\<in>set (ls @ node # rs). fd_nodes (?T\<lparr>files := t\<rparr>) a = Some n \<and> fd n = k) \<longleftrightarrow>
          ((fd_map T)(scast d \<mapsto> ?N)) k = Some n" using True by auto
    qed
    thus ?thesis using t(1) h d True by (auto simp: vfs_bind_def fd_ok_def)
  next
    case False
    from u64_tree.insert_taken [OF k new(1) off] False same key obtain t where
      t: "rbt_insert_u64 (fd_key ?T) node (files ?T) = Inr (t, RBT_INSERT_EXISTS)" "keyed (fd_key ?T) t xs"
      unfolding files by auto
    have h: "fd_holds (?T\<lparr>files := t\<rparr>) xs" using t(2) T by (auto simp: fd_holds_def nodes)
    have "fd_map (?T\<lparr>files := t\<rparr>) = fd_map T"
      by (rule fd_map_eqI [OF h], simp add: nodes fd_map_iff [OF T]) (use off in metis)
    moreover have "RBT_INSERT_EXISTS \<noteq> RBT_INSERT_OK" by (simp add: RBT_INSERT_EXISTS_def RBT_INSERT_OK_def RBT_EQUALS_def)
    ultimately show ?thesis using t(1) h d False by (auto simp: vfs_bind_def fd_ok_def)
  qed
qed

section \<open>Using and closing\<close>

text \<open>The code that the checks of an operation give for an entry of the map.\<close>

definition op_status :: "file_operation \<Rightarrow> 'w file_descriptor_node option \<Rightarrow> int" where
  "op_status op e =
     (case e of
        None \<Rightarrow> VFS_ERR_BADF
      | Some n \<Rightarrow>
          (case ops n of
             None \<Rightarrow> VFS_ERR_NODEV
           | Some f \<Rightarrow> (if op_missing op f then VFS_ERR_NOSUP else VFS_OK)))"

lemmas vfs_codes = VFS_OK_def VFS_ERR_BADF_def VFS_ERR_NODEV_def VFS_ERR_NOSUP_def VFS_ERR_INVAL_def

lemma validate_ok:
  assumes "fd_holds T xs" and "0 \<le> sint d"
  shows "\<exists>a. validate_descriptor_op (Some T) d op = Inr (op_status op (fd_map T (scast d)), a) \<and>
    (fd_map T (scast d) \<noteq> None \<longrightarrow> a \<in> set xs \<and> fd_nodes T a = fd_map T (scast d))"
  using fd_find [OF assms(1), of "scast d"] assms(2)
  by (fastforce simp: validate_descriptor_op_def op_status_def split: if_splits option.splits)

lemma the_op_ok:
  "fd_nodes T a = Some n \<Longrightarrow> ops n = Some f \<Longrightarrow> sel f = Some g \<Longrightarrow> the_op sel a (Some T) = Inr (device_data n, g)"
  by (simp add: the_op_def)

lemma fd_ok_holds: "fd_ok T \<Longrightarrow> (\<And>xs. fd_holds T xs \<Longrightarrow> P) \<Longrightarrow> P"
  by (auto simp: fd_ok_def)

lemma remove_descriptor_ok:
  assumes T: "fd_holds T xs" and a: "a \<in> set xs"
  shows "\<exists>T'. remove_descriptor a T = Inr T' \<and> fd_ok T' \<and> fd_map T' = (fd_map T)(fd_key T a := None)"
proof -
  have k: "keyed (fd_key T) (files T) xs" using T by (simp add: fd_holds_def)
  from u64_tree.find_after_remove [OF k a] obtain t ls rs where
    t: "rbt_remove a (files T) = Inr t" "xs = ls @ a # rs" "keyed (fd_key T) (node_free a t) (ls @ rs)" by blast
  let ?T = "kfree_descriptor a (T\<lparr>files := t\<rparr>)"
  have off: "a \<notin> set (ls @ rs)" and other: "\<forall>b\<in>set (ls @ rs). fd_key T b \<noteq> fd_key T a"
    using u64_tree.content_ascending [OF k] by (auto simp: t(2) ascending_append ascending_Cons)
  have "keyed (fd_key ?T) (node_free a t) (ls @ rs)"
    by (rule keyed_cong [OF t(3)]) (use off in \<open>auto simp: fd_key_def kfree_descriptor_def\<close>)
  hence h: "fd_holds ?T (ls @ rs)" using T off by (auto simp: fd_holds_def kfree_descriptor_def t(2))
  have "fd_map ?T = (fd_map T)(fd_key T a := None)"
  proof (rule fd_map_eqI [OF h])
    fix k n
    have "(\<exists>b\<in>set (ls @ rs). fd_nodes T b = Some n \<and> fd n = k) \<longleftrightarrow>
        k \<noteq> fd_key T a \<and> (\<exists>b\<in>set xs. fd_nodes T b = Some n \<and> fd n = k)"
      using other by (auto simp: t(2) fd_key_def split: option.splits)
    thus "(\<exists>b\<in>set (ls @ rs). fd_nodes ?T b = Some n \<and> fd n = k) \<longleftrightarrow> ((fd_map T)(fd_key T a := None)) k = Some n"
      using off fd_map_iff [OF T, of k n] by (auto simp: kfree_descriptor_def)
  qed
  thus ?thesis using t(1) h by (auto simp: remove_descriptor_def fd_ok_def)
qed

text \<open>What closing an entry gives: its own close operation is called if it has one, and may refuse.\<close>

definition close_outcome :: "'w file_descriptor_node option \<Rightarrow> i32 \<Rightarrow> 'w \<Rightarrow> 'w \<times> int" where
  "close_outcome e d w =
     (case e of
        None \<Rightarrow> (w, VFS_ERR_BADF)
      | Some n \<Rightarrow>
          (case ops n of
             None \<Rightarrow> (w, VFS_ERR_NODEV)
           | Some f \<Rightarrow> (case op_close f of None \<Rightarrow> (w, VFS_OK) | Some c \<Rightarrow> c (device_data n) d w)))"

lemma vfs_close_ok:
  assumes T: "fd_holds T xs" and d: "0 \<le> sint d" and o: "close_outcome (fd_map T (scast d)) d w = (w', r)"
  shows "\<exists>T'. vfs_close (Some T) d w = Inr (Some T', w', r) \<and> fd_ok T' \<and>
    fd_map T' = (if r = VFS_OK then (fd_map T)(scast d := None) else fd_map T)"
proof -
  obtain a where a: "validate_descriptor_op (Some T) d OP_CLOSE = Inr (op_status OP_CLOSE (fd_map T (scast d)), a)"
    "fd_map T (scast d) \<noteq> None \<Longrightarrow> a \<in> set xs \<and> fd_nodes T a = fd_map T (scast d)"
    using validate_ok [OF T d] by blast
  have "fd_ok T" using T by (auto simp: fd_ok_def)
  show ?thesis
  proof (cases "\<exists>n f. fd_map T (scast d) = Some n \<and> ops n = Some f")
    case False
    thus ?thesis using a(1) o \<open>fd_ok T\<close>
      by (auto simp: vfs_close_def op_status_def close_outcome_def vfs_codes split: option.splits)
  next
    case True
    then obtain n f where n: "fd_map T (scast d) = Some n" "ops n = Some f" by blast
    have "a \<in> set xs" "fd_nodes T a = Some n" using a(2) n(1) by auto
    moreover have "fd n = scast d" using fd_map_iff [OF T, of "scast d" n] n(1) by auto
    ultimately obtain T' where T': "remove_descriptor a T = Inr T'" "fd_ok T'" "fd_map T' = (fd_map T)(scast d := None)"
      using remove_descriptor_ok [OF T, of a] by (auto simp: fd_key_def)
    show ?thesis using a(1) o n T' \<open>fd_ok T\<close> the_op_ok [OF \<open>fd_nodes T a = Some n\<close> n(2), of op_close]
      by (auto simp: vfs_close_def op_status_def close_outcome_def vfs_codes op_missing_def split: option.splits)
  qed
qed

text \<open>The outcome of an operation on an entry: it is called with the entry's data, if there is one.\<close>

definition op_outcome ::
  "('w file_operations \<Rightarrow> 'f option) \<Rightarrow> (u64 \<Rightarrow> 'f \<Rightarrow> 'w \<times> int) \<Rightarrow> 'w \<Rightarrow> 'w file_descriptor_node option \<Rightarrow> 'w \<times> int" where
  "op_outcome sel call w e =
     (case e of
        None \<Rightarrow> (w, VFS_ERR_BADF)
      | Some n \<Rightarrow>
          (case ops n of
             None \<Rightarrow> (w, VFS_ERR_NODEV)
           | Some f \<Rightarrow> (case sel f of None \<Rightarrow> (w, VFS_ERR_NOSUP) | Some g \<Rightarrow> call (device_data n) g)))"

lemma dispatch_ok:
  assumes "fd_holds T xs" and "0 \<le> sint d" and "\<And>f. op_missing op f \<longleftrightarrow> sel f = None"
  shows "rbind (validate_descriptor_op (Some T) d op) (\<lambda>(result, descriptor).
      if result \<noteq> VFS_OK then Inr (w, result)
      else rbind (the_op sel descriptor (Some T)) (\<lambda>(data, g). Inr (call data g))) =
    Inr (op_outcome sel call w (fd_map T (scast d)))"
proof -
  obtain a where a: "validate_descriptor_op (Some T) d op = Inr (op_status op (fd_map T (scast d)), a)"
    "fd_map T (scast d) \<noteq> None \<Longrightarrow> fd_nodes T a = fd_map T (scast d)"
    using validate_ok [OF assms(1,2)] by blast
  show ?thesis using a assms(3)
    by (auto simp: op_status_def op_outcome_def the_op_def vfs_codes split: option.splits)
qed

section \<open>A table with one descriptor\<close>

definition console :: "nat file_operations" where
  "console = \<lparr>op_read = None, op_write = Some (\<lambda>data buf cnt w. (w + unat cnt, 0)), op_open = None,
     op_close = Some (\<lambda>data d w. (0, 0)), op_mmap = None\<rparr>"

definition one_table :: "nat fd_table" where
  "one_table = \<lparr>files = \<lparr>root = 16, cells = [16 \<mapsto> mknode LEFT 0 0 0 BLACK]\<rparr>,
     fd_nodes = [16 \<mapsto> \<lparr>fd = 1, ops = Some console, device_data = 7\<rparr>]\<rparr>"

lemma one_table_holds: "fd_holds one_table [16]"
  by (auto simp: fd_holds_def keyed_def ascending_def rb_nodes_def represents_def one_table_def ptr_ok_def bit_0
      rb_ok_def intro!: exI [of _ "Nd BLACK Lf 16 Lf"])

lemma one_table_ok: "fd_ok one_table"
  using one_table_holds by (auto simp: fd_ok_def)

lemma one_table_map: "fd_map one_table = [1 \<mapsto> \<lparr>fd = 1, ops = Some console, device_data = 7\<rparr>]"
  by (rule fd_map_eqI [OF one_table_holds]) (auto simp: one_table_def split: if_splits)

section \<open>Properties\<close>

text \<open>Property C25: binding a descriptor that is not negative, with a node that is not in use, refines the
  update of the map from descriptors to files: a free descriptor gets the given operations and data
  and \<open>VFS_OK\<close> is returned, a taken one keeps what it has and \<open>VFS_ERR_BADF\<close> is returned; all other
  descriptors keep what they have.\<close>
theorem vfs_bind_spec:
  assumes "fd_ok T" and "ptr_ok node" and "fd_nodes T node = None" and "0 \<le> sint d"
  shows "\<exists>T'. vfs_bind node T d oper data =
      Inr (T', if fd_map T (scast d) = None then VFS_OK else VFS_ERR_BADF) \<and> fd_ok T' \<and>
    fd_map T' = (if fd_map T (scast d) = None
       then (fd_map T)(scast d \<mapsto> \<lparr>fd = scast d, ops = oper, device_data = data\<rparr>) else fd_map T)"
  using assms(1) by (rule fd_ok_holds) (rule vfs_bind_ok [OF _ assms(2-)])

theorem vfs_bind_spec_witness:
  "(\<exists>T'. vfs_bind 32 one_table 2 None 9 = Inr (T', VFS_OK) \<and>
     fd_map T' = [1 \<mapsto> \<lparr>fd = 1, ops = Some console, device_data = 7\<rparr>, 2 \<mapsto> \<lparr>fd = 2, ops = None, device_data = 9\<rparr>]) \<and>
   (\<exists>T'. vfs_bind 32 one_table 1 None 9 = Inr (T', VFS_ERR_BADF) \<and>
     fd_map T' = [1 \<mapsto> \<lparr>fd = 1, ops = Some console, device_data = 7\<rparr>])"
  using vfs_bind_spec [OF one_table_ok, of 32 2 None 9] vfs_bind_spec [OF one_table_ok, of 32 1 None 9]
  by (simp add: one_table_map ptr_ok_def bit_0) (auto simp: one_table_def)

text \<open>Property C26: closing a descriptor that is not negative gives what the entry's own close operation
  gives, \<open>VFS_OK\<close> if it has none, and the error of the checks if there is no such entry or no device; the
  descriptor is deleted from the map exactly if the result is \<open>VFS_OK\<close>, and its node is freed.\<close>
theorem vfs_close_spec:
  assumes "fd_ok T" and "0 \<le> sint d" and "close_outcome (fd_map T (scast d)) d w = (w', r)"
  shows "\<exists>T'. vfs_close (Some T) d w = Inr (Some T', w', r) \<and> fd_ok T' \<and>
    fd_map T' = (if r = VFS_OK then (fd_map T)(scast d := None) else fd_map T)"
  using assms(1) by (rule fd_ok_holds) (rule vfs_close_ok [OF _ assms(2-)])

theorem vfs_close_spec_witness:
  "(\<exists>T'. vfs_close (Some one_table) 1 5 = Inr (Some T', 0, VFS_OK) \<and> fd_ok T' \<and> fd_map T' = Map.empty) \<and>
   (\<exists>T'. vfs_close (Some one_table) 2 5 = Inr (Some T', 5, VFS_ERR_BADF) \<and> fd_map T' = fd_map one_table)"
  using vfs_close_spec [OF one_table_ok, of 1 5 0 VFS_OK] vfs_close_spec [OF one_table_ok, of 2 5 5 VFS_ERR_BADF]
  by (simp add: one_table_map close_outcome_def console_def) (auto simp: vfs_codes one_table_map console_def)

text \<open>Reading, writing and mapping through a descriptor call the operation of the entry with
  its data, and fail with the code of the first check that does not hold, without touching any device.\<close>
theorem vfs_dispatch_spec:
  assumes "fd_ok T"
  shows "vfs_read (Some T) d buf cnt w =
      Inr (if sint d < 0 then (w, VFS_ERR_BADF) else if cnt = 0 \<or> VFS_MAX_SIZE < cnt then (w, VFS_ERR_INVAL)
           else op_outcome op_read (\<lambda>data f. f data buf cnt w) w (fd_map T (scast d))) \<and>
    vfs_write (Some T) d buf cnt w =
      Inr (if sint d < 0 then (w, VFS_ERR_BADF) else if cnt = 0 \<or> VFS_MAX_SIZE < cnt then (w, VFS_ERR_INVAL)
           else op_outcome op_write (\<lambda>data f. f data buf cnt w) w (fd_map T (scast d))) \<and>
    vfs_mmap (Some T) adr len prot flags d offset w =
      Inr (if sint d < 0 then (w, VFS_ERR_INVAL)
           else op_outcome op_mmap (\<lambda>data f. f data adr len prot flags offset w) w (fd_map T (scast d)))"
proof -
  obtain xs where T: "fd_holds T xs" using assms by (auto simp: fd_ok_def)
  have "\<not> 2147483647 < sint d" using sint_lt [of d] by simp
  thus ?thesis
    using dispatch_ok [OF T, of d OP_READ op_read w "\<lambda>data f. f data buf cnt w"]
      dispatch_ok [OF T, of d OP_WRITE op_write w "\<lambda>data f. f data buf cnt w"]
      dispatch_ok [OF T, of d OP_MMAP op_mmap w "\<lambda>data f. f data adr len prot flags offset w"]
    by (auto simp: vfs_read_def vfs_write_def vfs_mmap_def op_missing_def validate_descriptor_op_def vfs_codes not_less)
qed

theorem vfs_dispatch_spec_witness:
  "vfs_write (Some one_table) 1 0 12 (30 :: nat) = Inr (42, VFS_OK) \<and>
   vfs_read (Some one_table) 1 0 12 (30 :: nat) = Inr (30, VFS_ERR_NOSUP) \<and>
   vfs_read (Some one_table) 1 0 0 (30 :: nat) = Inr (30, VFS_ERR_INVAL) \<and>
   vfs_mmap (Some one_table) 0 0 0 0 (- 1) 0 (30 :: nat) = Inr (30, VFS_ERR_INVAL)"
  using vfs_dispatch_spec [OF one_table_ok, of 1 0 12 30] vfs_dispatch_spec [OF one_table_ok, of 1 0 0 30]
    vfs_dispatch_spec [OF one_table_ok, of "- 1" 0 0 30 0 0 0 0 0]
  by (simp add: one_table_map op_outcome_def console_def VFS_MAX_SIZE_def) (simp add: vfs_codes)

end
