(* ===== verification/Locks.thy ===== *)
theory Locks
  imports Kprelude
begin

text \<open>
  The locks of \<open>include/lib/lock.h\<close>.  The spinlock and the recursive CPU lock are modelled as systems
  of CPUs that run the acquire, try and release operations concurrently: every load, store and
  read-modify-write of the lock is one step of one CPU, and the steps of different CPUs interleave in
  any order.  Memory is sequentially consistent in the model.  The invariants over the reachable
  states give mutual exclusion and the meaning of the recursion count.
\<close>

section \<open>Interrupt flags\<close>

text \<open>\<open>daifset #0xf\<close> sets the four mask bits of the register.\<close>

definition DAIF_MASK :: u64 where
  "DAIF_MASK = 0x3C0"

definition irqsave :: "u64 \<Rightarrow> u64 \<times> u32" where
  "irqsave daif = (daif OR DAIF_MASK, ucast daif)"

definition irqrestore :: "u32 \<Rightarrow> u64 \<Rightarrow> u64" where
  "irqrestore flags daif = ucast flags"

section \<open>The spinlock\<close>

record spinlock =
  sl_flag :: int

definition SPINLOCK_INIT :: spinlock where
  "SPINLOCK_INIT = \<lparr>sl_flag = 0\<rparr>"

definition spinlock_trylock :: "spinlock \<Rightarrow> spinlock \<times> bool" where
  "spinlock_trylock l = (if sl_flag l = 0 then (l\<lparr>sl_flag := 1\<rparr>, True) else (l, False))"

definition spinlock_release :: "spinlock \<Rightarrow> spinlock" where
  "spinlock_release l = l\<lparr>sl_flag := 0\<rparr>"

definition spinlock_is_locked :: "spinlock \<Rightarrow> bool" where
  "spinlock_is_locked l \<longleftrightarrow> sl_flag l \<noteq> 0"

text \<open>Where a CPU is in \<open>spinlock_acquire\<close>: in the loop that waits for the flag to be clear, before the
  exchange, or past it.\<close>

datatype spin_pc = SP_OUT | SP_LDAXR | SP_CAS | SP_IN

record spin_sys =
  sp_lock :: spinlock
  sp_pc :: "nat \<Rightarrow> spin_pc"

datatype spin_action = SP_ACQUIRE | SP_STEP | SP_RELEASE | SP_TRYLOCK

definition spin_init :: spin_sys where
  "spin_init = \<lparr>sp_lock = SPINLOCK_INIT, sp_pc = (\<lambda>_. SP_OUT)\<rparr>"

definition spin_goto :: "nat \<Rightarrow> spin_pc \<Rightarrow> spin_sys \<Rightarrow> spin_sys" where
  "spin_goto c p s = s\<lparr>sp_pc := (sp_pc s)(c := p)\<rparr>"

definition spinlock_acquire :: "nat \<Rightarrow> spin_sys \<Rightarrow> spin_sys option" where
  "spinlock_acquire c s =
     (case sp_pc s c of
        SP_LDAXR \<Rightarrow> Some (if sl_flag (sp_lock s) = 0 then spin_goto c SP_CAS s else s)
      | SP_CAS \<Rightarrow>
          (case spinlock_trylock (sp_lock s) of
             (l, ok) \<Rightarrow> Some (spin_goto c (if ok then SP_IN else SP_LDAXR) (s\<lparr>sp_lock := l\<rparr>)))
      | _ \<Rightarrow> None)"

definition spin_act :: "spin_action \<Rightarrow> nat \<Rightarrow> spin_sys \<Rightarrow> spin_sys option" where
  "spin_act a c s =
     (case a of
        SP_ACQUIRE \<Rightarrow> (if sp_pc s c = SP_OUT then Some (spin_goto c SP_LDAXR s) else None)
      | SP_STEP \<Rightarrow> spinlock_acquire c s
      | SP_RELEASE \<Rightarrow>
          (if sp_pc s c = SP_IN then Some (spin_goto c SP_OUT (s\<lparr>sp_lock := spinlock_release (sp_lock s)\<rparr>)) else None)
      | SP_TRYLOCK \<Rightarrow>
          (if sp_pc s c = SP_OUT then
             (case spinlock_trylock (sp_lock s) of
                (l, ok) \<Rightarrow> Some (spin_goto c (if ok then SP_IN else SP_OUT) (s\<lparr>sp_lock := l\<rparr>)))
           else None))"

inductive spin_reach :: "spin_sys \<Rightarrow> bool" where
  init: "spin_reach spin_init"
| step: "spin_reach s \<Longrightarrow> spin_act a c s = Some s' \<Longrightarrow> spin_reach s'"

text \<open>A run from the initial state, for the witnesses.\<close>

fun spin_run :: "(spin_action \<times> nat) list \<Rightarrow> spin_sys \<Rightarrow> spin_sys option" where
  "spin_run [] s = Some s"
| "spin_run ((a, c) # as) s = (case spin_act a c s of None \<Rightarrow> None | Some s \<Rightarrow> spin_run as s)"

definition spin_inv :: "spin_sys \<Rightarrow> bool" where
  "spin_inv s \<longleftrightarrow>
     (\<forall>c. sp_pc s c = SP_IN \<longrightarrow> sl_flag (sp_lock s) \<noteq> 0) \<and>
     (\<forall>c d. sp_pc s c = SP_IN \<longrightarrow> sp_pc s d = SP_IN \<longrightarrow> c = d) \<and>
     (sl_flag (sp_lock s) \<noteq> 0 \<longrightarrow> (\<exists>c. sp_pc s c = SP_IN))"

lemmas spin_defs = spin_act_def spinlock_acquire_def spin_goto_def spinlock_trylock_def spinlock_release_def

lemma spin_inv_act: "spin_inv s \<Longrightarrow> spin_act a c s = Some s' \<Longrightarrow> spin_inv s'"
  by (cases a)
    (auto simp: spin_inv_def spin_defs split: if_splits spin_pc.splits, (metis spin_pc.distinct)+)

lemma spin_reach_inv: "spin_reach s \<Longrightarrow> spin_inv s"
proof (induction rule: spin_reach.induct)
  case init
  show ?case by (simp add: spin_inv_def spin_init_def SPINLOCK_INIT_def)
qed (rule spin_inv_act)

lemma spin_run_reach: "spin_reach s \<Longrightarrow> spin_run as s = Some s' \<Longrightarrow> spin_reach s'"
  by (induction as s rule: spin_run.induct) (auto split: option.splits intro: spin_reach.step)

section \<open>The recursive CPU lock\<close>

record cpulock =
  cl_flag :: int
  cl_count :: u32

definition CPULOCK_INIT :: cpulock where
  "CPULOCK_INIT = \<lparr>cl_flag = -1, cl_count = 0\<rparr>"

definition cpulock_is_locked :: "cpulock \<Rightarrow> bool" where
  "cpulock_is_locked l \<longleftrightarrow> cl_flag l \<noteq> -1"

definition cpulock_is_owner :: "nat \<Rightarrow> cpulock \<Rightarrow> bool" where
  "cpulock_is_owner cpuid l \<longleftrightarrow> cl_flag l = int cpuid"

text \<open>Where a CPU is: outside of the operations; in \<open>cpulock_acquire\<close> before the increment of the count, in
  the waiting loop or before the exchange; in \<open>cpulock_trylock\<close> before its exchange or the store of the
  count; in \<open>cpulock_release\<close> before the test of the count or the store of the flag.\<close>

datatype cpu_pc = CP_OUT | CP_ADD | CP_LDAXR | CP_CAS | CP_TRY_CAS | CP_TRY_SET | CP_REL_TEST | CP_REL_STORE

text \<open>\<open>cp_depth\<close> counts the acquisitions of a CPU that it has not released.\<close>

record cpu_sys =
  cp_lock :: cpulock
  cp_pc :: "nat \<Rightarrow> cpu_pc"
  cp_depth :: "nat \<Rightarrow> nat"

text \<open>\<open>CP_STEP True\<close> is a step in which the weak exchange fails although the flag is as expected.\<close>

datatype cpu_action = CP_ACQUIRE | CP_TRYLOCK | CP_RELEASE | CP_STEP bool

definition cpu_init :: cpu_sys where
  "cpu_init = \<lparr>cp_lock = CPULOCK_INIT, cp_pc = (\<lambda>_. CP_OUT), cp_depth = (\<lambda>_. 0)\<rparr>"

definition cpu_goto :: "nat \<Rightarrow> cpu_pc \<Rightarrow> cpu_sys \<Rightarrow> cpu_sys" where
  "cpu_goto c p s = s\<lparr>cp_pc := (cp_pc s)(c := p)\<rparr>"

definition cpu_add :: "nat \<Rightarrow> u32 \<Rightarrow> cpu_sys \<Rightarrow> cpu_sys" where
  "cpu_add c n s =
     cpu_goto c CP_OUT (s\<lparr>cp_lock := (cp_lock s)\<lparr>cl_count := n\<rparr>, cp_depth := (cp_depth s)(c := Suc (cp_depth s c))\<rparr>)"

definition cpu_flag :: "int \<Rightarrow> cpu_sys \<Rightarrow> cpu_sys" where
  "cpu_flag f s = s\<lparr>cp_lock := (cp_lock s)\<lparr>cl_flag := f\<rparr>\<rparr>"

definition cpulock_acquire :: "nat \<Rightarrow> bool \<Rightarrow> cpu_sys \<Rightarrow> cpu_sys option" where
  "cpulock_acquire c weak s =
     (case cp_pc s c of
        CP_OUT \<Rightarrow> Some (cpu_goto c (if cl_flag (cp_lock s) = int c then CP_ADD else CP_LDAXR) s)
      | CP_LDAXR \<Rightarrow> Some (if cl_flag (cp_lock s) = -1 then cpu_goto c CP_CAS s else s)
      | CP_CAS \<Rightarrow>
          Some (if cl_flag (cp_lock s) = -1 \<and> \<not> weak then cpu_goto c CP_ADD (cpu_flag (int c) s)
                else cpu_goto c CP_LDAXR s)
      | CP_ADD \<Rightarrow> Some (cpu_add c (cl_count (cp_lock s) + 1) s)
      | _ \<Rightarrow> None)"

definition cpulock_trylock :: "nat \<Rightarrow> cpu_sys \<Rightarrow> cpu_sys option" where
  "cpulock_trylock c s =
     (case cp_pc s c of
        CP_OUT \<Rightarrow> Some (cpu_goto c (if cl_flag (cp_lock s) = int c then CP_ADD else CP_TRY_CAS) s)
      | CP_TRY_CAS \<Rightarrow>
          Some (if cl_flag (cp_lock s) = -1 then cpu_goto c CP_TRY_SET (cpu_flag (int c) s)
                else cpu_goto c CP_OUT s)
      | CP_TRY_SET \<Rightarrow> Some (cpu_add c 1 s)
      | _ \<Rightarrow> None)"

definition cpulock_release :: "nat \<Rightarrow> cpu_sys \<Rightarrow> cpu_sys option" where
  "cpulock_release c s =
     (case cp_pc s c of
        CP_OUT \<Rightarrow>
          (if 0 < cp_depth s c then
             Some (cpu_goto c CP_REL_TEST
               (s\<lparr>cp_lock := (cp_lock s)\<lparr>cl_count := cl_count (cp_lock s) - 1\<rparr>,
                  cp_depth := (cp_depth s)(c := cp_depth s c - 1)\<rparr>))
           else None)
      | CP_REL_TEST \<Rightarrow> Some (cpu_goto c (if cl_count (cp_lock s) = 0 then CP_REL_STORE else CP_OUT) s)
      | CP_REL_STORE \<Rightarrow> Some (cpu_goto c CP_OUT (cpu_flag (-1) s))
      | _ \<Rightarrow> None)"

definition cpu_act :: "cpu_action \<Rightarrow> nat \<Rightarrow> cpu_sys \<Rightarrow> cpu_sys option" where
  "cpu_act a c s =
     (case a of
        CP_ACQUIRE \<Rightarrow> (if cp_pc s c = CP_OUT then cpulock_acquire c False s else None)
      | CP_TRYLOCK \<Rightarrow> (if cp_pc s c = CP_OUT then cpulock_trylock c s else None)
      | CP_RELEASE \<Rightarrow> (if cp_pc s c = CP_OUT then cpulock_release c s else None)
      | CP_STEP weak \<Rightarrow>
          (case cp_pc s c of
             CP_OUT \<Rightarrow> None
           | CP_TRY_CAS \<Rightarrow> cpulock_trylock c s
           | CP_TRY_SET \<Rightarrow> cpulock_trylock c s
           | CP_REL_TEST \<Rightarrow> cpulock_release c s
           | CP_REL_STORE \<Rightarrow> cpulock_release c s
           | _ \<Rightarrow> cpulock_acquire c weak s))"

text \<open>The reachable states in which no CPU nests its acquisitions more than \<open>N\<close> deep.\<close>

inductive cpu_reach :: "nat \<Rightarrow> cpu_sys \<Rightarrow> bool" for N where
  init: "cpu_reach N cpu_init"
| step: "cpu_reach N s \<Longrightarrow> cpu_act a c s = Some s' \<Longrightarrow> \<forall>d. cp_depth s' d \<le> N \<Longrightarrow> cpu_reach N s'"

fun cpu_run :: "(cpu_action \<times> nat) list \<Rightarrow> cpu_sys \<Rightarrow> cpu_sys option" where
  "cpu_run [] s = Some s"
| "cpu_run ((a, c) # as) s = (case cpu_act a c s of None \<Rightarrow> None | Some s \<Rightarrow> cpu_run as s)"

fun cpu_bounded :: "nat \<Rightarrow> (cpu_action \<times> nat) list \<Rightarrow> cpu_sys \<Rightarrow> bool" where
  "cpu_bounded N [] s \<longleftrightarrow> True"
| "cpu_bounded N ((a, c) # as) s \<longleftrightarrow>
     (case cpu_act a c s of None \<Rightarrow> False | Some s \<Rightarrow> (\<forall>d. cp_depth s d \<le> N) \<and> cpu_bounded N as s)"

lemma cpu_run_reach: "cpu_reach N s \<Longrightarrow> cpu_bounded N as s \<Longrightarrow> cpu_run as s = Some s' \<Longrightarrow> cpu_reach N s'"
  by (induction as s rule: cpu_run.induct) (auto split: option.splits intro: cpu_reach.step)

definition cpu_owns :: "cpu_sys \<Rightarrow> nat \<Rightarrow> bool" where
  "cpu_owns s c \<longleftrightarrow> 0 < cp_depth s c \<or> cp_pc s c \<in> {CP_ADD, CP_TRY_SET, CP_REL_TEST, CP_REL_STORE}"

definition cpu_inv :: "nat \<Rightarrow> cpu_sys \<Rightarrow> bool" where
  "cpu_inv N s \<longleftrightarrow>
     -1 \<le> cl_flag (cp_lock s) \<and>
     (\<forall>c. cpu_owns s c \<longleftrightarrow> cl_flag (cp_lock s) = int c) \<and>
     (\<forall>c. cpu_owns s c \<longrightarrow> unat (cl_count (cp_lock s)) = cp_depth s c) \<and>
     (cl_flag (cp_lock s) = -1 \<longrightarrow> cl_count (cp_lock s) = 0) \<and>
     (\<forall>c. cp_depth s c \<le> N) \<and>
     (\<forall>c. cp_pc s c \<in> {CP_TRY_SET, CP_REL_STORE} \<longrightarrow> cp_depth s c = 0)"

lemmas cpu_defs = cpu_act_def cpulock_acquire_def cpulock_trylock_def cpulock_release_def cpu_goto_def
  cpu_add_def cpu_flag_def

text \<open>A step that only moves the program counter of a CPU between places of the same ownership.\<close>

lemma cpu_inv_goto:
  assumes "cpu_inv N s" and "p \<in> {CP_ADD, CP_TRY_SET, CP_REL_TEST, CP_REL_STORE} \<or> 0 < cp_depth s c \<longleftrightarrow> cpu_owns s c"
    and "p \<in> {CP_TRY_SET, CP_REL_STORE} \<Longrightarrow> cp_depth s c = 0"
  shows "cpu_inv N (cpu_goto c p s)"
proof -
  have "cpu_owns (cpu_goto c p s) d \<longleftrightarrow> cpu_owns s d" for d
    using assms(2) by (cases "d = c") (auto simp: cpu_owns_def cpu_goto_def)
  thus ?thesis using assms(1,3) by (auto simp: cpu_inv_def cpu_goto_def)
qed

lemma cpu_inv_take:
  assumes "cpu_inv N s" and "cl_flag (cp_lock s) = -1" and "p \<in> {CP_ADD, CP_TRY_SET}"
  shows "cpu_inv N (cpu_goto c p (cpu_flag (int c) s))"
proof -
  have free: "\<not> cpu_owns s d" for d using assms(1,2) by (auto simp: cpu_inv_def)
  have "cpu_owns (cpu_goto c p (cpu_flag (int c) s)) d \<longleftrightarrow> d = c" for d
    using free [of d] assms(3) by (cases "d = c") (auto simp: cpu_owns_def cpu_goto_def cpu_flag_def)
  moreover have "cp_depth s d = 0" for d using free [of d] by (simp add: cpu_owns_def)
  moreover have "cl_count (cp_lock s) = 0" using assms(1,2) by (simp add: cpu_inv_def)
  ultimately show ?thesis using assms(1) by (auto simp: cpu_inv_def cpu_goto_def cpu_flag_def)
qed

lemma cpu_inv_add:
  assumes "cpu_inv N s" and "cpu_owns s c" and "n = of_nat (Suc (cp_depth s c))" and "Suc (cp_depth s c) \<le> N"
    and "N < 2 ^ 32"
  shows "cpu_inv N (cpu_add c n s)"
proof -
  have f: "cl_flag (cp_lock s) = int c" using assms(1,2) by (auto simp: cpu_inv_def)
  have "cpu_owns (cpu_add c n s) d \<longleftrightarrow> cpu_owns s d" for d
    using assms(2) by (cases "d = c") (auto simp: cpu_owns_def cpu_goto_def cpu_add_def)
  moreover have "unat n = Suc (cp_depth s c)" using assms(3-5) by (simp add: unat_of_nat del: of_nat_Suc)
  ultimately show ?thesis using assms(1,4) f by (auto simp: cpu_inv_def cpu_goto_def cpu_add_def)
qed

lemma cpu_inv_sub:
  assumes "cpu_inv N s" and "0 < cp_depth s c"
  shows "cpu_inv N (cpu_goto c CP_REL_TEST (s\<lparr>cp_lock := (cp_lock s)\<lparr>cl_count := cl_count (cp_lock s) - 1\<rparr>,
    cp_depth := (cp_depth s)(c := cp_depth s c - 1)\<rparr>))" (is "cpu_inv N ?s")
proof -
  have o: "cpu_owns s c" using assms(2) by (simp add: cpu_owns_def)
  hence f: "cl_flag (cp_lock s) = int c" and n: "unat (cl_count (cp_lock s)) = cp_depth s c"
    using assms(1) by (auto simp: cpu_inv_def)
  have "cpu_owns ?s d \<longleftrightarrow> cpu_owns s d" for d using o by (cases "d = c") (auto simp: cpu_owns_def cpu_goto_def)
  moreover have "unat (cl_count (cp_lock s) - 1) = cp_depth s c - 1"
    using n assms(2) by (metis gr_implies_not0 unat_0 unat_minus_one)
  ultimately show ?thesis using assms(1) f by (auto simp: cpu_inv_def cpu_goto_def intro: le_trans [OF diff_le_self])
qed

lemma cpu_inv_drop:
  assumes "cpu_inv N s" and "cp_pc s c = CP_REL_STORE"
  shows "cpu_inv N (cpu_goto c CP_OUT (cpu_flag (-1) s))"
proof -
  have o: "cpu_owns s c" "cp_depth s c = 0" using assms by (auto simp: cpu_owns_def cpu_inv_def)
  hence f: "cl_flag (cp_lock s) = int c" "unat (cl_count (cp_lock s)) = 0" using assms(1) by (auto simp: cpu_inv_def)
  have "\<not> cpu_owns (cpu_goto c CP_OUT (cpu_flag (-1) s)) d" for d
    using o(2) assms(1) f(1) by (cases "d = c") (auto simp: cpu_owns_def cpu_goto_def cpu_flag_def cpu_inv_def)
  thus ?thesis using assms(1) f(2) by (auto simp: cpu_inv_def cpu_goto_def cpu_flag_def unat_eq_0)
qed

lemma unat_word_id: "of_nat (unat w) = w" for w :: u32
  by simp

lemma cpu_inv_count: "cpu_inv N s \<Longrightarrow> cpu_owns s c \<Longrightarrow> cl_count (cp_lock s) = of_nat (cp_depth s c)"
  using unat_word_id [of "cl_count (cp_lock s)"] by (auto simp: cpu_inv_def)

lemma cpu_inv_owner: "cpu_inv N s \<Longrightarrow> cpu_owns s c \<longleftrightarrow> cl_flag (cp_lock s) = int c"
  by (simp add: cpu_inv_def)

lemma cpu_inv_act:
  assumes inv: "cpu_inv N s" and act: "cpu_act a c s = Some s'" and d: "\<forall>d. cp_depth s' d \<le> N" and N: "N < 2 ^ 32"
  shows "cpu_inv N s'"
proof -
  have own: "cpu_owns s c \<longleftrightarrow> 0 < cp_depth s c" if "cp_pc s c \<in> {CP_OUT, CP_LDAXR, CP_CAS, CP_TRY_CAS}"
    using that by (auto simp: cpu_owns_def)
  have add: "cpu_inv N (cpu_add c n s)" if "s' = cpu_add c n s" "n = of_nat (Suc (cp_depth s c))" "cpu_owns s c" for n
  proof (rule cpu_inv_add [OF inv that(3,2) _ N])
    show "Suc (cp_depth s c) \<le> N" using spec [OF d, of c] that(1) by (simp add: cpu_add_def cpu_goto_def)
  qed
  show ?thesis
  proof (cases "cp_pc s c")
    case CP_OUT
    thus ?thesis using act own cpu_inv_goto [OF inv, of _ c] cpu_inv_sub [OF inv, of c] cpu_inv_owner [OF inv, of c]
      by (cases a) (auto simp: cpu_act_def cpulock_acquire_def cpulock_trylock_def cpulock_release_def split: if_splits)
  next
    case CP_ADD
    hence "cpu_owns s c" by (simp add: cpu_owns_def)
    moreover have "s' = cpu_add c (cl_count (cp_lock s) + 1) s"
      using act CP_ADD by (cases a) (auto simp: cpu_act_def cpulock_acquire_def)
    ultimately show ?thesis using add [of "cl_count (cp_lock s) + 1"] cpu_inv_count [OF inv, of c] by simp
  next
    case CP_LDAXR
    thus ?thesis using act own inv cpu_inv_goto [OF inv, of CP_CAS c]
      by (cases a) (auto simp: cpu_act_def cpulock_acquire_def split: if_splits)
  next
    case CP_CAS
    thus ?thesis using act own cpu_inv_goto [OF inv, of CP_LDAXR c] cpu_inv_take [OF inv, of CP_ADD c]
      by (cases a) (auto simp: cpu_act_def cpulock_acquire_def split: if_splits)
  next
    case CP_TRY_CAS
    thus ?thesis using act own cpu_inv_goto [OF inv, of CP_OUT c] cpu_inv_take [OF inv, of CP_TRY_SET c]
      by (cases a) (auto simp: cpu_act_def cpulock_trylock_def split: if_splits)
  next
    case CP_TRY_SET
    hence "cpu_owns s c" "cp_depth s c = 0" using inv by (auto simp: cpu_owns_def cpu_inv_def)
    thus ?thesis using act CP_TRY_SET add [of 1] by (cases a) (auto simp: cpu_act_def cpulock_trylock_def)
  next
    case CP_REL_TEST
    hence o: "cpu_owns s c" by (simp add: cpu_owns_def)
    hence "cl_count (cp_lock s) = 0 \<longleftrightarrow> cp_depth s c = 0"
      using inv by (auto simp: cpu_inv_def unat_eq_0 [symmetric])
    thus ?thesis using act CP_REL_TEST o cpu_inv_goto [OF inv, of _ c]
      by (cases a) (auto simp: cpu_act_def cpulock_release_def split: if_splits)
  next
    case CP_REL_STORE
    thus ?thesis using act cpu_inv_drop [OF inv] by (cases a) (auto simp: cpu_act_def cpulock_release_def)
  qed
qed

lemma cpu_reach_inv: "cpu_reach N s \<Longrightarrow> N < 2 ^ 32 \<Longrightarrow> cpu_inv N s"
proof (induction rule: cpu_reach.induct)
  case init
  show ?case by (simp add: cpu_inv_def cpu_init_def CPULOCK_INIT_def cpu_owns_def)
next
  case (step s a c s')
  thus ?case using cpu_inv_act by blast
qed

section \<open>Locks with interrupts masked\<close>

definition spinlock_trylock_irqsave :: "spinlock \<Rightarrow> u64 \<Rightarrow> (spinlock \<times> u64 \<times> u32) \<times> bool" where
  "spinlock_trylock_irqsave l daif =
     (let (masked, flags) = irqsave daif in
      case spinlock_trylock l of
        (l, ok) \<Rightarrow> if ok then ((l, masked, flags), True) else ((l, irqrestore flags masked, flags), False))"

definition spinlock_release_irqrestore :: "spinlock \<Rightarrow> u32 \<Rightarrow> u64 \<Rightarrow> spinlock \<times> u64" where
  "spinlock_release_irqrestore l flags daif = (spinlock_release l, irqrestore flags daif)"

lemma irq_roundtrip: "daif < 2 ^ 32 \<Longrightarrow> irqrestore (snd (irqsave daif)) x = daif"
  by (simp add: irqrestore_def irqsave_def) (simp add: unsigned_ucast_eq word_unat_eq_iff unsigned_take_bit_eq take_bit_nat_eq_self word_less_nat_alt)

section \<open>Properties\<close>

text \<open>Property C27: in every reachable state of the CPUs that use a spinlock, at most one CPU is in the
  critical section, the flag is set exactly while one is, and whenever no CPU is there a CPU that waits
  gets the lock with two steps of its own.\<close>
theorem spinlock_mutex:
  assumes "spin_reach s"
  shows "(sp_pc s c = SP_IN \<longrightarrow> sp_pc s d = SP_IN \<longrightarrow> c = d) \<and>
    (spinlock_is_locked (sp_lock s) \<longleftrightarrow> (\<exists>c. sp_pc s c = SP_IN)) \<and>
    (sp_pc s c = SP_LDAXR \<longrightarrow> \<not> spinlock_is_locked (sp_lock s) \<longrightarrow>
       (\<exists>s'. spin_run [(SP_STEP, c), (SP_STEP, c)] s = Some s' \<and> sp_pc s' c = SP_IN))"
  using spin_reach_inv [OF assms]
  by (auto simp: spin_inv_def spinlock_is_locked_def spin_defs)

theorem spinlock_mutex_witness:
  "\<exists>s. spin_run [(SP_ACQUIRE, 0), (SP_ACQUIRE, 1), (SP_STEP, 0), (SP_STEP, 1), (SP_STEP, 1), (SP_STEP, 0)] spin_init = Some s \<and>
     sp_pc s 1 = SP_IN \<and> sp_pc s 0 = SP_LDAXR \<and> spinlock_is_locked (sp_lock s)"
proof -
  let ?as = "[(SP_ACQUIRE, 0), (SP_ACQUIRE, 1), (SP_STEP, 0), (SP_STEP, 1), (SP_STEP, 1), (SP_STEP, 0 :: nat)]"
  let ?pc = "(\<lambda>_. SP_OUT)(0 := SP_LDAXR, 1 := SP_IN)"
  have r: "spin_run ?as spin_init = Some \<lparr>sp_lock = \<lparr>sl_flag = 1\<rparr>, sp_pc = ?pc\<rparr>"
    by (simp add: spin_defs spin_init_def SPINLOCK_INIT_def fun_upd_twist)
  have "spin_reach \<lparr>sp_lock = \<lparr>sl_flag = 1\<rparr>, sp_pc = ?pc\<rparr>" by (rule spin_run_reach [OF spin_reach.init r])
  from spinlock_mutex [OF this, of 1 0] show ?thesis using r by auto
qed

text \<open>Property C28: in every reachable state of the CPUs that use a recursive lock, with fewer than
  \<open>2 ^ 32\<close> nested acquisitions, at most one CPU has acquisitions it has not released, the lock names
  that CPU as its owner and counts its acquisitions; a lock that nobody holds or operates on is as
  initialised; and a CPU that waits for a lock with a clear flag gets it with three steps of its own.\<close>
theorem cpulock_mutex:
  assumes "cpu_reach N s" and "N < 2 ^ 32"
  shows "(0 < cp_depth s c \<longrightarrow> 0 < cp_depth s d \<longrightarrow> c = d) \<and>
    (0 < cp_depth s c \<longrightarrow> cpulock_is_owner c (cp_lock s) \<and> unat (cl_count (cp_lock s)) = cp_depth s c) \<and>
    ((\<forall>c. cp_pc s c = CP_OUT \<and> cp_depth s c = 0) \<longrightarrow> cp_lock s = CPULOCK_INIT) \<and>
    (cp_pc s c = CP_LDAXR \<longrightarrow> \<not> cpulock_is_locked (cp_lock s) \<longrightarrow>
       (\<exists>s'. cpu_run [(CP_STEP False, c), (CP_STEP False, c), (CP_STEP False, c)] s = Some s' \<and> cp_depth s' c = 1))"
proof -
  have inv: "cpu_inv N s" by (rule cpu_reach_inv [OF assms])
  have own: "0 < cp_depth s c \<Longrightarrow> cl_flag (cp_lock s) = int c \<and> unat (cl_count (cp_lock s)) = cp_depth s c" for c
    using cpu_inv_owner [OF inv, of c] inv by (auto simp: cpu_inv_def cpu_owns_def)
  have "c = d" if "0 < cp_depth s c" "0 < cp_depth s d" using own [OF that(1)] own [OF that(2)] by simp
  moreover have "cp_lock s = CPULOCK_INIT" if "\<forall>c. cp_pc s c = CP_OUT \<and> cp_depth s c = 0"
    using inv that nonneg_int_cases [of "cl_flag (cp_lock s)"]
    by (cases "cl_flag (cp_lock s) = -1") (auto simp: cpu_inv_def cpu_owns_def CPULOCK_INIT_def)
  moreover have "\<exists>s'. cpu_run [(CP_STEP False, c), (CP_STEP False, c), (CP_STEP False, c)] s = Some s' \<and> cp_depth s' c = 1"
    if "cp_pc s c = CP_LDAXR" "\<not> cpulock_is_locked (cp_lock s)"
  proof -
    have "cp_depth s c = 0" using own [of c] that(2) by (auto simp: cpulock_is_locked_def)
    thus ?thesis using that by (simp add: cpu_defs cpulock_is_locked_def)
  qed
  ultimately show ?thesis using own [of c] by (simp add: cpulock_is_owner_def)
qed

theorem cpulock_mutex_witness:
  "\<exists>s. cpu_run [(CP_ACQUIRE, 2), (CP_STEP False, 2), (CP_ACQUIRE, 1), (CP_STEP False, 2), (CP_STEP False, 2),
       (CP_STEP False, 1), (CP_ACQUIRE, 2), (CP_STEP False, 2)] cpu_init = Some s \<and>
     cp_depth s 2 = 2 \<and> cp_depth s 1 = 0 \<and> cpulock_is_owner 2 (cp_lock s) \<and> unat (cl_count (cp_lock s)) = 2"
proof -
  let ?as = "[(CP_ACQUIRE, 2), (CP_STEP False, 2), (CP_ACQUIRE, 1), (CP_STEP False, 2), (CP_STEP False, 2),
       (CP_STEP False, 1), (CP_ACQUIRE, 2), (CP_STEP False, 2 :: nat)]"
  let ?s = "\<lparr>cp_lock = \<lparr>cl_flag = 2, cl_count = 2\<rparr>, cp_pc = (\<lambda>_. CP_OUT)(1 := CP_LDAXR, 2 := CP_OUT),
    cp_depth = (\<lambda>_. 0)(2 := 2)\<rparr>"
  have r: "cpu_run ?as cpu_init = Some ?s"
    by (simp add: cpu_defs cpu_init_def CPULOCK_INIT_def fun_upd_twist numeral_2_eq_2)
  moreover have "cpu_bounded 2 ?as cpu_init"
    by (simp add: cpu_defs cpu_init_def CPULOCK_INIT_def)
  ultimately have "cpu_reach 2 ?s" using cpu_run_reach [OF cpu_reach.init] by blast
  from cpulock_mutex [OF this, of 2 1] show ?thesis using r by auto
qed

text \<open>A failed attempt to take a spinlock with interrupts masked leaves the lock and the
  interrupt mask as they were; releasing a lock that was taken so restores both.\<close>
theorem spinlock_irqsave_roundtrip:
  assumes "daif < 2 ^ 32" and "spinlock_trylock_irqsave l daif = ((l', daif', flags), ok)"
  shows "if ok then sl_flag l = 0 \<and> daif' = daif OR DAIF_MASK \<and> spinlock_release_irqrestore l' flags daif' = (l, daif)
    else l' = l \<and> daif' = daif"
  using assms(2) irq_roundtrip [OF assms(1)]
  by (auto simp: spinlock_trylock_irqsave_def spinlock_release_irqrestore_def spinlock_trylock_def spinlock_release_def
      irqsave_def split: if_splits)

theorem spinlock_irqsave_roundtrip_witness:
  "spinlock_trylock_irqsave SPINLOCK_INIT 0x80 = ((\<lparr>sl_flag = 1\<rparr>, 0x3C0, 0x80), True) \<and>
   spinlock_release_irqrestore \<lparr>sl_flag = 1\<rparr> 0x80 0x3C0 = (SPINLOCK_INIT, 0x80)"
proof -
  have e: "spinlock_trylock_irqsave SPINLOCK_INIT 0x80 = ((\<lparr>sl_flag = 1\<rparr>, 0x3C0, 0x80), True)" by code_simp
  from spinlock_irqsave_roundtrip [OF _ e] show ?thesis using e by simp
qed

end
