(* ===== verification/Fmt.thy ===== *)
theory Fmt
  imports Kprelude
begin

text \<open>
  The string routines of \<open>lib/string/string.c\<close> and the number formatting of \<open>lib/string/fmt.c\<close>.  A
  buffer is the list of its characters and a write or a read outside of it is a fault.  The in-place
  conversion of a number, which writes the digits backwards and reverses them, is proved equal to a
  reference that builds the text from the digits of the number.
\<close>

abbreviation NUL :: char where
  "NUL \<equiv> CHR 0x00"

definition buf_get :: "string \<Rightarrow> nat \<Rightarrow> char res" where
  "buf_get buf i = (if i < length buf then Inr (buf ! i) else Inl Fault)"

definition buf_put :: "string \<Rightarrow> nat \<Rightarrow> char \<Rightarrow> string res" where
  "buf_put buf i c = (if i < length buf then Inr (buf[i := c]) else Inl Fault)"

section \<open>Strings\<close>

text \<open>\<open>n\<close> is the number of turns that the loop still has.\<close>

fun strcopy_loop :: "nat \<Rightarrow> nat \<Rightarrow> string \<Rightarrow> string \<Rightarrow> (string \<times> bool) res" where
  "strcopy_loop 0 i dst src = Inr (dst, False)"
| "strcopy_loop (Suc n) i dst src =
     rbind (buf_get src i) (\<lambda>c.
     rbind (buf_put dst i c) (\<lambda>dst.
     if c = NUL then Inr (dst, True) else strcopy_loop n (Suc i) dst src))"

text \<open>The bound of the loop is computed in 64 bits.\<close>

definition strcopy :: "string \<Rightarrow> string \<Rightarrow> u64 \<Rightarrow> string res" where
  "strcopy dst src max_size =
     rbind (strcopy_loop (unat (max_size - 1)) 0 dst src) (\<lambda>(dst, done).
     if done then Inr dst else buf_put dst (unat (max_size - 1)) NUL)"

fun streq_loop :: "string \<Rightarrow> string \<Rightarrow> bool res" where
  "streq_loop (x # xs) (y # ys) =
     (if x \<noteq> NUL \<and> y \<noteq> NUL then (if x \<noteq> y then Inr False else streq_loop xs ys)
      else Inr (x = NUL \<and> y = NUL))"
| "streq_loop _ _ = Inl Fault"

text \<open>\<open>None\<close> is the null pointer.  Equal pointers give the same strings.\<close>

definition streq :: "string option \<Rightarrow> string option \<Rightarrow> bool res" where
  "streq a b =
     (case (a, b) of
        (None, None) \<Rightarrow> Inr True
      | (Some x, Some y) \<Rightarrow> streq_loop x y
      | _ \<Rightarrow> Inr False)"

fun strlen :: "string \<Rightarrow> nat res" where
  "strlen [] = Inl Fault"
| "strlen (c # cs) = (if c = NUL then Inr 0 else rbind (strlen cs) (\<lambda>n. Inr (Suc n)))"

section \<open>Numbers\<close>

definition uint8_t_to_ascii_char :: "u8 \<Rightarrow> char res" where
  "uint8_t_to_ascii_char n =
     rassert (n < 9) (Panic ''uint8_t_to_ascii_char: requires the input number to be between 0 and 9'')
       (Inr (char_of (unat n + 48)))"

datatype STDINT_TYPES =
  STDINT_INT8 | STDINT_UINT8 | STDINT_INT16 | STDINT_UINT16
  | STDINT_INT32 | STDINT_UINT32 | STDINT_INT64 | STDINT_UINT64

datatype STDINT_BASE_REPR =
  STDINT_BASE_REPR_DEC | STDINT_BASE_REPR_HEX | STDINT_BASE_REPR_BIN | STDINT_BASE_REPR_OCT

definition STDINT_BASE_REPR_CHARS :: string where
  "STDINT_BASE_REPR_CHARS = ''0123456789ABCDEF''"

definition repr_base :: "STDINT_BASE_REPR \<Rightarrow> u64" where
  "repr_base r =
     (case r of STDINT_BASE_REPR_DEC \<Rightarrow> 10 | STDINT_BASE_REPR_HEX \<Rightarrow> 16 | STDINT_BASE_REPR_BIN \<Rightarrow> 2
      | STDINT_BASE_REPR_OCT \<Rightarrow> 8)"

definition repr_prefix :: "STDINT_BASE_REPR \<Rightarrow> string" where
  "repr_prefix r =
     (case r of STDINT_BASE_REPR_DEC \<Rightarrow> '''' | STDINT_BASE_REPR_HEX \<Rightarrow> ''0x'' | STDINT_BASE_REPR_BIN \<Rightarrow> ''0b''
      | STDINT_BASE_REPR_OCT \<Rightarrow> ''0'')"

definition repr_len :: "STDINT_BASE_REPR \<Rightarrow> nat" where
  "repr_len r =
     (case r of STDINT_BASE_REPR_DEC \<Rightarrow> 0 | STDINT_BASE_REPR_HEX \<Rightarrow> 2 | STDINT_BASE_REPR_BIN \<Rightarrow> 2
      | STDINT_BASE_REPR_OCT \<Rightarrow> 1)"

text \<open>The two enumerations have all their values here, so that the \<open>default\<close> panics of the two switches on
  them are not reached.\<close>

text \<open>The union is its 64 bits; the member of a type is made of the low ones.  The result is whether the
  number is negative, and its magnitude.\<close>

definition signed_value :: "u64 \<Rightarrow> bool \<times> u64" where
  "signed_value v = (if sint v < 0 then (True, - v) else (False, v))"

definition stdint_value :: "STDINT_TYPES \<Rightarrow> u64 \<Rightarrow> bool \<times> u64" where
  "stdint_value t n =
     (case t of
        STDINT_INT8 \<Rightarrow> signed_value (scast (ucast n :: u8))
      | STDINT_UINT8 \<Rightarrow> (False, ucast (ucast n :: u8))
      | STDINT_INT16 \<Rightarrow> signed_value (scast (ucast n :: u16))
      | STDINT_UINT16 \<Rightarrow> (False, ucast (ucast n :: u16))
      | STDINT_INT32 \<Rightarrow> signed_value (scast (ucast n :: u32))
      | STDINT_UINT32 \<Rightarrow> (False, ucast (ucast n :: u32))
      | STDINT_INT64 \<Rightarrow> signed_value n
      | STDINT_UINT64 \<Rightarrow> (False, n))"

text \<open>Characters written one after the other, the way of \<open>buf[i++] = c\<close>.\<close>

fun buf_append :: "string \<Rightarrow> string \<Rightarrow> nat \<Rightarrow> (string \<times> nat) res" where
  "buf_append [] buf i = Inr (buf, i)"
| "buf_append (c # cs) buf i = rbind (buf_put buf i c) (\<lambda>buf. buf_append cs buf (Suc i))"

definition ascii_panic :: kerror where
  "ascii_panic = Panic ''stdint_to_ascii: provided buffer is smaller than requied for provided stdint''"

lemma repr_base_ge2: "2 \<le> unat (repr_base r)"
  by (cases r) (simp_all add: repr_base_def)

function digit_loop ::
  "STDINT_BASE_REPR \<Rightarrow> nat \<Rightarrow> nat \<Rightarrow> string \<Rightarrow> nat \<Rightarrow> u64 \<Rightarrow> (string \<times> nat) res" where
  "digit_loop r buf_len extra buf i v =
     (if 0 < v then
        let digit = v mod repr_base r in
        if buf_len \<le> i + 1 + extra then Inl ascii_panic
        else
          rbind (buf_put buf i (STDINT_BASE_REPR_CHARS ! unat digit)) (\<lambda>buf.
          digit_loop r buf_len extra buf (Suc i) (v div repr_base r))
      else Inr (buf, i))"
  by pat_completeness auto
termination
proof (relation "measure (\<lambda>(r, l, e, b, i, v). unat v)", goal_cases)
  case (2 r l e b i v digit b')
  have "unat v div unat (repr_base r) < unat v"
    using 2(1) repr_base_ge2 [of r] by (intro div_less_dividend) (simp_all add: word_less_nat_alt)
  thus ?case by (simp add: unat_div)
qed simp

declare digit_loop.simps [simp del]

function rev_loop :: "string \<Rightarrow> nat \<Rightarrow> nat \<Rightarrow> string res" where
  "rev_loop buf start en =
     (if start < en then
        rbind (buf_get buf start) (\<lambda>tmp.
        rbind (buf_get buf en) (\<lambda>x.
        rbind (buf_put buf start x) (\<lambda>buf.
        rbind (buf_put buf en tmp) (\<lambda>buf.
        rev_loop buf (Suc start) (en - 1)))))
      else Inr buf)"
  by pat_completeness auto
termination by (relation "measure (\<lambda>(b, s, e). e - s)") auto

declare rev_loop.simps [simp del]

definition stdint_to_ascii ::
  "u64 \<Rightarrow> STDINT_TYPES \<Rightarrow> string \<Rightarrow> nat \<Rightarrow> STDINT_BASE_REPR \<Rightarrow> string res" where
  "stdint_to_ascii n t buf buf_len r =
     (let (negative, v) = stdint_value t n in
      if v = 0 \<and> \<not> negative then
        (if buf_len < 2 + repr_len r then Inl ascii_panic
         else
           rbind (buf_append (repr_prefix r @ ''0'') buf 0) (\<lambda>(buf, i).
           buf_put buf i NUL))
      else
        rbind (digit_loop r buf_len (of_bool negative + repr_len r) buf 0 v) (\<lambda>(buf, i).
        rbind (buf_append (rev (repr_prefix r)) buf i) (\<lambda>(buf, i).
        rbind (if negative then buf_append ''-'' buf i else Inr (buf, i)) (\<lambda>(buf, i).
        rbind (buf_put buf i NUL) (\<lambda>buf.
        rev_loop buf 0 (i - 1))))))"

section \<open>Formatted output\<close>

fun puts :: "string \<Rightarrow> string \<Rightarrow> string res" where
  "puts out [] = Inl Fault"
| "puts out (c # cs) = (if c = NUL then Inr out else puts (out @ [c]) cs)"

definition put_number :: "STDINT_TYPES \<Rightarrow> STDINT_BASE_REPR \<Rightarrow> string \<Rightarrow> u64 \<Rightarrow> string \<Rightarrow> (string \<times> string) res" where
  "put_number t r out n buf =
     rbind (stdint_to_ascii n t buf 1024 r) (\<lambda>buf.
     rbind (puts out buf) (\<lambda>out. Inr (out, buf)))"

text \<open>\<open>out\<close> is what \<open>putc\<close> got so far, \<open>f\<close> the memory from the format pointer on, \<open>str\<close> the memory behind
  a string argument and \<open>ap\<close> the arguments still to be taken.\<close>

definition fmt_arg :: "u64 list \<Rightarrow> (u64 \<Rightarrow> u64 list \<Rightarrow> 'a res) \<Rightarrow> 'a res" where
  "fmt_arg ap k = (case ap of [] \<Rightarrow> Inl Fault | a # ap \<Rightarrow> k a ap)"

definition fmt_conv ::
  "(u64 \<Rightarrow> string) \<Rightarrow> char \<Rightarrow> string \<Rightarrow> string \<Rightarrow> u64 list \<Rightarrow> (string \<times> string \<times> u64 list) res" where
  "fmt_conv str c out buf ap =
     (let num = (\<lambda>t r. fmt_arg ap (\<lambda>a ap. rbind (put_number t r out a buf) (\<lambda>(out, buf). Inr (out, buf, ap)))) in
      if c = CHR ''%'' then Inr (out @ ''%'', buf, ap)
      else if c = CHR ''c'' then fmt_arg ap (\<lambda>a ap. Inr (out @ [char_of (unat a mod 256)], buf, ap))
      else if c = CHR ''s'' then
        fmt_arg ap (\<lambda>a ap. rbind (puts out (if a = 0 then ''(null)'' @ [NUL] else str a)) (\<lambda>out. Inr (out, buf, ap)))
      else if c = CHR ''d'' then num STDINT_INT32 STDINT_BASE_REPR_DEC
      else if c = CHR ''u'' then num STDINT_UINT32 STDINT_BASE_REPR_DEC
      else if c = CHR ''x'' then num STDINT_UINT32 STDINT_BASE_REPR_HEX
      else if c = CHR ''p'' then num STDINT_UINT64 STDINT_BASE_REPR_HEX
      else if c = CHR ''b'' then num STDINT_UINT64 STDINT_BASE_REPR_BIN
      else if c = CHR ''l'' then num STDINT_UINT64 STDINT_BASE_REPR_DEC
      else Inr (out @ ''%'' @ [c], buf, ap))"

fun fmt_loop ::
  "(u64 \<Rightarrow> string) \<Rightarrow> string \<Rightarrow> string \<Rightarrow> string \<Rightarrow> u64 list \<Rightarrow> string res" where
  "fmt_loop str [] out buf ap = Inl Fault"
| "fmt_loop str (c # f) out buf ap =
     (if c = NUL then Inr out
      else if c \<noteq> CHR ''%'' then fmt_loop str f (out @ [c]) buf ap
      else case f of
        [] \<Rightarrow> Inl Fault
      | d # f \<Rightarrow> rbind (fmt_conv str d out buf ap) (\<lambda>(out, buf, ap). fmt_loop str f out buf ap))"

definition str_fmt_print :: "(u64 \<Rightarrow> string) \<Rightarrow> string \<Rightarrow> string \<Rightarrow> u64 list \<Rightarrow> string res" where
  "str_fmt_print str buf f ap = fmt_loop str f [] buf ap"

section \<open>The reference text of a number\<close>

fun digits_of :: "nat \<Rightarrow> nat \<Rightarrow> nat list" where
  "digits_of b n = (if n = 0 \<or> b < 2 then [] else digits_of b (n div b) @ [n mod b])"

declare digits_of.simps [simp del]

fun digits_value :: "nat \<Rightarrow> nat list \<Rightarrow> nat" where
  "digits_value b [] = 0"
| "digits_value b (d # ds) = d * b ^ length ds + digits_value b ds"

lemma digits_value_append:
  "digits_value b (xs @ ys) = digits_value b xs * b ^ length ys + digits_value b ys"
  by (induction xs) (simp_all add: power_add algebra_simps)

lemma digits_value_digits_of: "2 \<le> b \<Longrightarrow> digits_value b (digits_of b n) = n"
  by (induction b n rule: digits_of.induct) (subst digits_of.simps, simp add: digits_value_append)

lemma digits_of_less: "2 \<le> b \<Longrightarrow> d \<in> set (digits_of b n) \<Longrightarrow> d < b"
proof (induction b n rule: digits_of.induct)
  case (1 b n)
  thus ?case using digits_of.simps [of b n] by (auto split: if_splits)
qed

definition digit_char :: "nat \<Rightarrow> char" where
  "digit_char d = STDINT_BASE_REPR_CHARS ! d"

definition number_text :: "STDINT_BASE_REPR \<Rightarrow> bool \<Rightarrow> nat \<Rightarrow> string" where
  "number_text r negative v =
     (if negative then ''-'' else '''') @ repr_prefix r
       @ (if v = 0 then ''0'' else map digit_char (digits_of (unat (repr_base r)) v))"

section \<open>The in-place conversion\<close>

lemma buf_append_at:
  "length cs \<le> length rest \<Longrightarrow>
     buf_append cs (pre @ rest) (length pre) = Inr (pre @ cs @ drop (length cs) rest, length pre + length cs)"
proof (induction cs arbitrary: pre rest)
  case (Cons c cs)
  then obtain x xs where "rest = x # xs" by (cases rest) auto
  thus ?case using Cons.IH [of xs "pre @ [c]"] Cons.prems
    by (simp add: buf_put_def)
qed simp

lemma rev_loop_at:
  "mid \<noteq> [] \<Longrightarrow>
     rev_loop (pre @ mid @ post) (length pre) (length pre + length mid - 1) = Inr (pre @ rev mid @ post)"
proof (induction "length mid" arbitrary: pre mid post rule: less_induct)
  case less
  show ?case
  proof (cases "length mid = 1")
    case True
    then obtain x where "mid = [x]" by (cases mid) auto
    thus ?thesis by (simp add: rev_loop.simps [of _ "length pre" "length pre"])
  next
    case False
    obtain x m y where mid: "mid = x # m @ [y]"
      using less.prems False by (cases mid; cases "tl mid" rule: rev_cases) auto
    have step: "rev_loop (pre @ mid @ post) (length pre) (length pre + length mid - 1) =
        rev_loop ((pre @ [y]) @ m @ (x # post)) (Suc (length pre)) (length pre + length mid - 2)"
      by (subst rev_loop.simps) (simp add: mid buf_get_def buf_put_def nth_append list_update_append)
    show ?thesis
    proof (cases "m = []")
      case True
      show ?thesis unfolding step by (subst rev_loop.simps) (simp add: mid True)
    next
      case False
      have "rev_loop ((pre @ [y]) @ m @ (x # post)) (length (pre @ [y])) (length (pre @ [y]) + length m - 1) =
          Inr ((pre @ [y]) @ rev m @ x # post)"
        using less.hyps [of m "pre @ [y]" "x # post"] False by (simp add: mid)
      thus ?thesis unfolding step by (simp add: mid)
    qed
  qed
qed

lemma digit_loop_at:
  assumes "buf_len \<le> length ds + length rest"
  shows "digit_loop r buf_len extra (ds @ rest) (length ds) v =
    (let t = rev (map digit_char (digits_of (unat (repr_base r)) (unat v))) in
     if v \<noteq> 0 \<and> buf_len \<le> length ds + length t + extra then Inl ascii_panic
     else Inr (ds @ t @ drop (length t) rest, length ds + length t))"
  using assms
proof (induction "unat v" arbitrary: ds rest v rule: less_induct)
  case less
  show ?case
  proof (cases "v = 0")
    case True
    thus ?thesis by (simp add: digit_loop.simps [of _ _ _ _ _ 0] digits_of.simps [of _ 0])
  next
    case False
    let ?b = "unat (repr_base r)" and ?w = "v div repr_base r"
    let ?c = "digit_char (unat v mod ?b)"
    have w: "unat ?w = unat v div ?b" by (simp add: unat_div)
    have small: "unat ?w < unat v"
      using False repr_base_ge2 [of r] unfolding w
      by (intro div_less_dividend) (auto simp: unat_gt_0)
    have ds: "digits_of ?b (unat v) = digits_of ?b (unat ?w) @ [unat v mod ?b]"
      using False repr_base_ge2 [of r] by (simp add: w digits_of.simps [of _ "unat v"] unat_eq_0)
    have pos: "0 < v" using False by (simp add: word_gt_0)
    show ?thesis
    proof (cases "buf_len \<le> length ds + 1 + extra")
      case True
      thus ?thesis using pos by (simp add: digit_loop.simps [of _ _ _ _ _ v] ds Let_def)
    next
      case room: False
      then obtain x xs where rest: "rest = x # xs" using less.prems by (cases rest) auto
      have "digit_loop r buf_len extra (ds @ rest) (length ds) v =
          digit_loop r buf_len extra ((ds @ [?c]) @ xs) (length (ds @ [?c])) ?w"
        using pos room by (simp add: digit_loop.simps [of _ _ _ _ _ v] rest Let_def buf_put_def
            digit_char_def unat_mod)
      also have "\<dots> = (let t = rev (map digit_char (digits_of ?b (unat ?w))) in
          if ?w \<noteq> 0 \<and> buf_len \<le> length (ds @ [?c]) + length t + extra then Inl ascii_panic
          else Inr ((ds @ [?c]) @ t @ drop (length t) xs, length (ds @ [?c]) + length t))"
        using less.hyps [OF small, of "ds @ [?c]" xs] less.prems by (simp add: rest)
      finally show ?thesis
        using room False
        by (cases "?w = 0") (simp_all add: ds rest Let_def digits_of.simps [of _ 0])
    qed
  qed
qed

lemma repr_len_prefix: "repr_len r = length (repr_prefix r)"
  by (cases r) (simp_all add: repr_len_def repr_prefix_def)

lemma stdint_value_zero: "stdint_value t n = (neg, v) \<Longrightarrow> v = 0 \<Longrightarrow> \<not> neg"
  by (cases t) (auto simp: stdint_value_def signed_value_def split: if_splits)

lemma digits_of_Nil: "2 \<le> b \<Longrightarrow> digits_of b n = [] \<longleftrightarrow> n = 0"
  by (subst digits_of.simps) auto

lemma number_text_nonempty: "number_text r negative v \<noteq> []"
  using digits_of_Nil [OF repr_base_ge2, of r v] by (simp add: number_text_def)

text \<open>The text is written backwards, then reversed.\<close>

lemma stdint_to_ascii_fits:
  assumes "stdint_value t n = (negative, v)" "v \<noteq> 0" "number_text r negative (unat v) = s"
    "length s < buf_len" "buf_len \<le> length buf"
  shows "stdint_to_ascii n t buf buf_len r = Inr (s @ NUL # drop (Suc (length s)) buf)"
proof -
  let ?d = "map digit_char (digits_of (unat (repr_base r)) (unat v))"
  have s: "s = (if negative then ''-'' else '''') @ repr_prefix r @ ?d"
    using assms(2,3) by (auto simp: number_text_def unat_eq_0)
  have "digit_loop r buf_len (of_bool negative + repr_len r) buf 0 v =
      Inr (rev ?d @ drop (length ?d) buf, length (rev ?d))"
    using digit_loop_at [of buf_len "[]" buf r "of_bool negative + repr_len r" v] assms(4,5)
    by (cases negative) (simp_all add: repr_len_prefix Let_def s)
  moreover have "buf_append (rev (repr_prefix r)) (rev ?d @ drop (length ?d) buf) (length (rev ?d)) =
      Inr (rev (repr_prefix r @ ?d) @ drop (length (repr_prefix r @ ?d)) buf, length (rev (repr_prefix r @ ?d)))"
    using buf_append_at [of "rev (repr_prefix r)" "drop (length ?d) buf" "rev ?d"] assms(4,5)
    by (cases negative) (simp_all add: s add.commute)
  moreover have "(if negative then buf_append ''-'' (rev (repr_prefix r @ ?d)
        @ drop (length (repr_prefix r @ ?d)) buf) (length (rev (repr_prefix r @ ?d)))
      else Inr (rev (repr_prefix r @ ?d) @ drop (length (repr_prefix r @ ?d)) buf, length (rev (repr_prefix r @ ?d)))) =
      Inr (rev s @ drop (length s) buf, length (rev s))"
    using buf_append_at [of "''-''" "drop (length (repr_prefix r @ ?d)) buf" "rev (repr_prefix r @ ?d)"] assms(4,5)
    by (cases negative) (simp_all add: s)
  moreover have "buf_put (rev s @ drop (length s) buf) (length (rev s)) NUL =
      Inr (rev s @ NUL # drop (Suc (length s)) buf)"
    using assms(4,5) by (simp add: buf_put_def list_update_append flip: Cons_nth_drop_Suc)
  moreover have "rev_loop (rev s @ NUL # drop (Suc (length s)) buf) 0 (length (rev s) - 1) =
      Inr (s @ NUL # drop (Suc (length s)) buf)"
    using rev_loop_at [of "rev s" "[]" "NUL # drop (Suc (length s)) buf"] number_text_nonempty assms(3)
    by auto
  ultimately show ?thesis
    using assms(1,2) by (cases negative) (simp_all add: stdint_to_ascii_def Let_def del: buf_append.simps)
qed

lemma stdint_to_ascii_text:
  assumes "buf_len \<le> length buf" "stdint_value t n = (negative, v)"
  shows "stdint_to_ascii n t buf buf_len r =
    (let s = number_text r negative (unat v) in
     if length s < buf_len then Inr (s @ NUL # drop (Suc (length s)) buf) else Inl ascii_panic)"
proof (cases "v = 0")
  case True
  have neg: "\<not> negative" using stdint_value_zero [OF assms(2)] True by simp
  show ?thesis
  proof (cases "buf_len < 2 + repr_len r")
    case small: True
    thus ?thesis using assms True neg
      by (simp add: stdint_to_ascii_def number_text_def repr_len_prefix Let_def)
  next
    case False
    thus ?thesis using assms True neg buf_append_at [of "repr_prefix r @ ''0''" buf "[]"]
      by (simp add: stdint_to_ascii_def number_text_def repr_len_prefix Let_def buf_put_def
          list_update_append upd_conv_take_nth_drop)
  qed
next
  case False
  let ?s = "number_text r negative (unat v)"
  show ?thesis
  proof (cases "length ?s < buf_len")
    case small: False
    thus ?thesis
      using assms False digit_loop_at [of buf_len "[]" buf r "of_bool negative + repr_len r" v]
      by (cases negative) (simp_all add: stdint_to_ascii_def repr_len_prefix Let_def number_text_def unat_eq_0)
  next
    case True
    thus ?thesis using stdint_to_ascii_fits [OF assms(2) False refl True assms(1)] by (simp add: Let_def)
  qed
qed

text \<open>Property C29: formatting a number is equivalent to the reference: for every type, base and value, a
  buffer of \<open>buf_len\<close> characters gets the sign, the prefix and the digits, then the terminator, and keeps
  the rest of its contents, when the text and the terminator fit in it; otherwise the function panics.\<close>
theorem stdint_to_ascii_equiv:
  assumes "buf_len \<le> length buf" "stdint_value t n = (negative, v)"
  shows "stdint_to_ascii n t buf buf_len r =
    (let s = number_text r negative (unat v) in
     if length s < buf_len then Inr (s @ NUL # drop (Suc (length s)) buf) else Inl ascii_panic)"
  by (rule stdint_to_ascii_text [OF assms])

theorem stdint_to_ascii_equiv_witness:
  "stdint_to_ascii 0xFFFFFFD6 STDINT_INT32 (replicate 8 CHR ''z'') 8 STDINT_BASE_REPR_DEC =
     Inr (''-42'' @ [NUL] @ ''zzzz'')"
proof -
  have d: "digits_of 10 42 = [4, 2]" by (simp add: digits_of.simps)
  have v: "stdint_value STDINT_INT32 0xFFFFFFD6 = (True, 42)" by code_simp
  have "number_text STDINT_BASE_REPR_DEC True (unat (42 :: u64)) = ''-42''"
    by (simp add: number_text_def repr_prefix_def repr_base_def d digit_char_def STDINT_BASE_REPR_CHARS_def)
  thus ?thesis
    using stdint_to_ascii_equiv [OF _ v, of 8 "replicate 8 CHR ''z''" STDINT_BASE_REPR_DEC]
    by (simp add: Let_def numeral_eq_Suc)
qed

text \<open>What the text denotes: the digits read back are the magnitude, and the sign and the magnitude are the
  number of the C type.\<close>

definition stdint_int :: "STDINT_TYPES \<Rightarrow> u64 \<Rightarrow> int" where
  "stdint_int t n =
     (case t of
        STDINT_INT8 \<Rightarrow> sint (ucast n :: u8) | STDINT_UINT8 \<Rightarrow> uint (ucast n :: u8)
      | STDINT_INT16 \<Rightarrow> sint (ucast n :: u16) | STDINT_UINT16 \<Rightarrow> uint (ucast n :: u16)
      | STDINT_INT32 \<Rightarrow> sint (ucast n :: u32) | STDINT_UINT32 \<Rightarrow> uint (ucast n :: u32)
      | STDINT_INT64 \<Rightarrow> sint n | STDINT_UINT64 \<Rightarrow> uint n)"

lemma uint_of_sint: "- (2 ^ 63) \<le> k \<Longrightarrow> 0 \<le> k \<Longrightarrow> k \<le> 2 ^ 63 \<Longrightarrow> uint (word_of_int k :: u64) = k"
  by (simp add: uint_word_of_int)

lemma signed_value_int:
  "signed_value v = (neg, m) \<Longrightarrow> (if neg then - int (unat m) else int (unat m)) = sint v"
proof (cases "sint v < 0")
  case True
  assume "signed_value v = (neg, m)"
  hence nm: "neg" "m = - v" using True by (simp_all add: signed_value_def)
  have "- v = word_of_int (- sint v)" by simp
  moreover have "- (2 ^ 63) \<le> sint v" using sint_greater_eq [of v] by simp
  ultimately have "uint (- v) = - sint v" using True uint_of_sint [of "- sint v"] by simp
  thus ?thesis using nm by simp
next
  case False
  assume "signed_value v = (neg, m)"
  moreover have "uint v = sint v"
    using False uint_of_sint [of "sint v"] sint_less [of v] by simp
  ultimately show ?thesis using False by (simp add: signed_value_def)
qed

lemma stdint_value_int:
  "stdint_value t n = (neg, m) \<Longrightarrow> (if neg then - int (unat m) else int (unat m)) = stdint_int t n"
  by (cases t)
    (auto simp: stdint_value_def stdint_int_def sint_up_scast is_up uint_up_ucast dest!: signed_value_int
      simp del: of_int_sint)

section \<open>The text of a format\<close>

text \<open>A format is a sequence of plain characters and conversions; its text depends on the arguments.\<close>

datatype fmt_piece = Plain char | Conv char

fun fmt_render :: "fmt_piece list \<Rightarrow> string" where
  "fmt_render [] = []"
| "fmt_render (Plain c # ps) = c # fmt_render ps"
| "fmt_render (Conv d # ps) = CHR ''%'' # d # fmt_render ps"

fun fmt_piece_ok :: "fmt_piece \<Rightarrow> bool" where
  "fmt_piece_ok (Plain c) = (c \<noteq> NUL \<and> c \<noteq> CHR ''%'')"
| "fmt_piece_ok (Conv d) = True"

definition stdint_text :: "STDINT_TYPES \<Rightarrow> STDINT_BASE_REPR \<Rightarrow> u64 \<Rightarrow> string" where
  "stdint_text t r a = (case stdint_value t a of (negative, v) \<Rightarrow> number_text r negative (unat v))"

definition conv_text :: "(u64 \<Rightarrow> string) \<Rightarrow> char \<Rightarrow> u64 \<Rightarrow> string option" where
  "conv_text str d a =
     (if d = CHR ''c'' then Some [char_of (unat a mod 256)]
      else if d = CHR ''s'' then Some (if a = 0 then ''(null)'' else takeWhile (\<lambda>c. c \<noteq> NUL) (str a))
      else if d = CHR ''d'' then Some (stdint_text STDINT_INT32 STDINT_BASE_REPR_DEC a)
      else if d = CHR ''u'' then Some (stdint_text STDINT_UINT32 STDINT_BASE_REPR_DEC a)
      else if d = CHR ''x'' then Some (stdint_text STDINT_UINT32 STDINT_BASE_REPR_HEX a)
      else if d = CHR ''p'' then Some (stdint_text STDINT_UINT64 STDINT_BASE_REPR_HEX a)
      else if d = CHR ''b'' then Some (stdint_text STDINT_UINT64 STDINT_BASE_REPR_BIN a)
      else if d = CHR ''l'' then Some (stdint_text STDINT_UINT64 STDINT_BASE_REPR_DEC a)
      else None)"

fun fmt_text :: "(u64 \<Rightarrow> string) \<Rightarrow> fmt_piece list \<Rightarrow> u64 list \<Rightarrow> string option" where
  "fmt_text str [] ap = Some []"
| "fmt_text str (Plain c # ps) ap = map_option (\<lambda>s. c # s) (fmt_text str ps ap)"
| "fmt_text str (Conv d # ps) ap =
     (if d \<in> set ''csduxpbl'' then
        (case ap of [] \<Rightarrow> None
         | a # ap \<Rightarrow> map_option (\<lambda>s. the (conv_text str d a) @ s) (fmt_text str ps ap))
      else map_option (\<lambda>s. (if d = CHR ''%'' then ''%'' else ''%'' @ [d]) @ s) (fmt_text str ps ap))"

lemma length_digits_of: "2 \<le> b \<Longrightarrow> n < b ^ k \<Longrightarrow> length (digits_of b n) \<le> k"
proof (induction k arbitrary: n)
  case 0
  thus ?case by (simp add: digits_of.simps)
next
  case (Suc k)
  have "n div b < b ^ k" using Suc.prems by (simp add: div_less_iff_less_mult mult.commute)
  thus ?case using Suc by (simp add: digits_of.simps [of b n])
qed

lemma number_text_short: "length (number_text r negative (unat (v :: u64))) \<le> 67"
proof -
  have "unat v < 2 ^ 64" using unsigned_less [of v] by simp
  also have "(2 :: nat) ^ 64 \<le> unat (repr_base r) ^ 64" by (intro power_mono repr_base_ge2) simp
  finally have "length (digits_of (unat (repr_base r)) (unat v)) \<le> 64"
    by (intro length_digits_of repr_base_ge2)
  moreover have "length (repr_prefix r) \<le> 2" by (cases r) (simp_all add: repr_prefix_def)
  ultimately show ?thesis by (simp add: number_text_def)
qed

lemma digit_char_not_NUL: "d < 16 \<Longrightarrow> digit_char d \<noteq> NUL"
  by (simp add: digit_char_def STDINT_BASE_REPR_CHARS_def nth_Cons' numeral_eq_Suc)

lemma number_text_not_NUL: "NUL \<notin> set (number_text r negative v)"
proof -
  have "unat (repr_base r) \<le> 16" by (cases r) (simp_all add: repr_base_def)
  hence "NUL \<notin> digit_char ` set (digits_of (unat (repr_base r)) v)"
    using digits_of_less [OF repr_base_ge2] digit_char_not_NUL by (metis (no_types, lifting) imageE order_less_le_trans)
  moreover have "NUL \<notin> set (repr_prefix r)" by (cases r) (simp_all add: repr_prefix_def)
  ultimately show ?thesis by (auto simp: number_text_def)
qed

lemma puts_text: "NUL \<in> set s \<Longrightarrow> puts out s = Inr (out @ takeWhile (\<lambda>c. c \<noteq> NUL) s)"
  by (induction s arbitrary: out) auto

lemma takeWhile_NUL: "NUL \<notin> set s \<Longrightarrow> takeWhile (\<lambda>c. c \<noteq> NUL) (s @ NUL # r) = s"
  by (induction s) auto

lemma put_number_text:
  assumes "length buf = 1024"
  shows "\<exists>buf'. length buf' = 1024 \<and> put_number t r out a buf = Inr (out @ stdint_text t r a, buf')"
proof -
  obtain neg v where v: "stdint_value t a = (neg, v)" by fastforce
  let ?s = "number_text r neg (unat v)"
  have fits: "length ?s < 1024" using number_text_short [of r neg v] by simp
  have "stdint_to_ascii a t buf 1024 r = Inr (?s @ NUL # drop (Suc (length ?s)) buf)"
    using stdint_to_ascii_text [of 1024 buf t a neg v r] v fits assms by (simp add: Let_def)
  thus ?thesis using fits assms
    by (simp add: put_number_def puts_text takeWhile_NUL number_text_not_NUL stdint_text_def v)
qed

lemma fmt_conv_text:
  assumes "length buf = 1024" "\<forall>a. NUL \<in> set (str a)"
    "fmt_text str (Conv d # ps) ap = Some s"
  shows "\<exists>buf' ap' t u. length buf' = 1024 \<and> fmt_conv str d out buf ap = Inr (out @ t, buf', ap')
     \<and> fmt_text str ps ap' = Some u \<and> s = t @ u"
proof (cases "d \<in> set ''csduxpbl''")
  case True
  then obtain a ap' u where ap: "ap = a # ap'" "fmt_text str ps ap' = Some u" "s = the (conv_text str d a) @ u"
    using assms(3) unfolding fmt_text.simps if_P [OF True] by (auto split: list.splits)
  have num: "\<exists>buf'. length buf' = 1024
      \<and> rbind (put_number t r out a buf) (\<lambda>(out, buf). Inr (out, buf, ap')) = Inr (out @ stdint_text t r a, buf', ap')"
    for t r using put_number_text [OF assms(1), of t r out a] by auto
  have str: "puts out (str a) = Inr (out @ takeWhile (\<lambda>c. c \<noteq> NUL) (str a))"
    using assms(2) by (simp add: puts_text)
  have "d = CHR ''c'' \<or> d = CHR ''s'' \<or> d = CHR ''d'' \<or> d = CHR ''u'' \<or> d = CHR ''x'' \<or> d = CHR ''p''
      \<or> d = CHR ''b'' \<or> d = CHR ''l''"
    using True by simp
  hence "\<exists>buf'. length buf' = 1024 \<and> fmt_conv str d out buf ap = Inr (out @ the (conv_text str d a), buf', ap')"
    by (elim disjE) (simp_all add: fmt_conv_def conv_text_def fmt_arg_def ap Let_def num str assms(1))
  thus ?thesis using ap by blast
next
  case False
  let ?t = "if d = CHR ''%'' then ''%'' else ''%'' @ [d]"
  obtain u where "fmt_text str ps ap = Some u" "s = ?t @ u"
    using assms(3) unfolding fmt_text.simps if_not_P [OF False] by auto
  moreover have "fmt_conv str d out buf ap = Inr (out @ ?t, buf, ap)"
    using False by (simp add: fmt_conv_def Let_def)
  ultimately show ?thesis using assms(1) by blast
qed

lemma fmt_loop_text:
  assumes "length buf = 1024" "\<forall>a. NUL \<in> set (str a)" "list_all fmt_piece_ok ps" "fmt_text str ps ap = Some s"
  shows "\<exists>buf' ap'. fmt_loop str (fmt_render ps @ f) out buf ap = fmt_loop str f (out @ s) buf' ap'"
  using assms
proof (induction ps arbitrary: out buf ap s)
  case (Cons p ps)
  show ?case
  proof (cases p)
    case (Plain c)
    thus ?thesis using Cons.prems Cons.IH [of buf ap _ "out @ [c]"] by auto
  next
    case (Conv d)
    obtain buf' ap' t u where "length buf' = 1024" "fmt_conv str d out buf ap = Inr (out @ t, buf', ap')"
        "fmt_text str ps ap' = Some u" "s = t @ u"
      using fmt_conv_text [of buf str d ps ap s out] Cons.prems Conv by blast
    thus ?thesis using Conv Cons.prems Cons.IH [of buf' ap' u "out @ t"] by simp
  qed
qed auto

text \<open>Printing a format gives, in order, its plain characters and the texts of its
  conversions, for every format, as long as there is an argument for every conversion that takes one and
  the string arguments are terminated.\<close>
theorem str_fmt_print_spec:
  assumes "length buf = 1024" "\<forall>a. NUL \<in> set (str a)" "list_all fmt_piece_ok ps" "fmt_text str ps ap = Some s"
  shows "str_fmt_print str buf (fmt_render ps @ [NUL]) ap = Inr s"
  using fmt_loop_text [OF assms, of "[NUL]" "[]"] by (auto simp: str_fmt_print_def)

theorem str_fmt_print_spec_witness:
  "str_fmt_print (\<lambda>a. ''uart'' @ [NUL]) (replicate 1024 NUL) (''%s: %d%%'' @ [NUL]) [1, 7] = Inr ''uart: 7%''"
proof -
  let ?ps = "[Conv CHR ''s'', Plain CHR '':'', Plain CHR '' '', Conv CHR ''d'', Conv CHR ''%'']"
  have d: "digits_of 10 7 = [7]" by (simp add: digits_of.simps)
  have v: "stdint_value STDINT_INT32 7 = (False, 7)" by code_simp
  have t: "stdint_text STDINT_INT32 STDINT_BASE_REPR_DEC 7 = ''7''"
    by (simp add: stdint_text_def v number_text_def repr_prefix_def repr_base_def d digit_char_def
        STDINT_BASE_REPR_CHARS_def)
  have "str_fmt_print (\<lambda>a. ''uart'' @ [NUL]) (replicate 1024 NUL) (fmt_render ?ps @ [NUL]) [1, 7] = Inr ''uart: 7%''"
    by (rule str_fmt_print_spec) (simp_all add: conv_text_def t)
  thus ?thesis by simp
qed

lemma fmt_loop_plain:
  "CHR ''%'' \<notin> set f \<Longrightarrow>
     fmt_loop str f out buf ap =
     (if NUL \<in> set f then Inr (out @ takeWhile (\<lambda>c. c \<noteq> NUL) f) else Inl Fault)"
  by (induction f arbitrary: out) auto

text \<open>Property C30: a format that ends in a lone percent sign makes the loop step over the terminator: what is
  behind the format in memory is printed too, up to the next terminator, and the access faults where
  there is none in what can be read.\<close>
theorem str_fmt_print_overread:
  assumes "length buf = 1024" "\<forall>a. NUL \<in> set (str a)" "list_all fmt_piece_ok ps" "fmt_text str ps ap = Some s"
    "CHR ''%'' \<notin> set behind"
  shows "str_fmt_print str buf (fmt_render ps @ ''%'' @ [NUL] @ behind) ap =
      (if NUL \<in> set behind then Inr (s @ ''%'' @ [NUL] @ takeWhile (\<lambda>c. c \<noteq> NUL) behind) else Inl Fault)"
proof -
  obtain buf' ap' where l: "fmt_loop str (fmt_render ps @ ''%'' @ [NUL] @ behind) [] buf ap =
      fmt_loop str (''%'' @ [NUL] @ behind) ([] @ s) buf' ap'"
    using fmt_loop_text [OF assms(1-4), of "''%'' @ [NUL] @ behind" "[]"] by blast
  have "fmt_conv str NUL s buf' ap' = Inr (s @ ''%'' @ [NUL], buf', ap')"
    by (simp add: fmt_conv_def Let_def)
  thus ?thesis unfolding str_fmt_print_def l using fmt_loop_plain [OF assms(5), of str _ buf' ap'] by simp
qed


theorem str_fmt_print_overread_witness:
  "str_fmt_print (\<lambda>a. [NUL]) (replicate 1024 NUL) (''100%'' @ [NUL] @ ''key'' @ [NUL]) [] =
     Inr (''100%'' @ [NUL] @ ''key'')"
proof -
  have "fmt_text (\<lambda>a. [NUL]) (map Plain ''100'') [] = Some ''100''" by simp
  note r = str_fmt_print_overread [OF _ _ _ this, of "replicate 1024 NUL" "''key'' @ [NUL]"]
  have "str_fmt_print (\<lambda>a. [NUL]) (replicate 1024 NUL) (''100%'' @ [NUL] @ ''key'' @ [NUL]) [] =
     (if NUL \<in> set (''key'' @ [NUL]) then Inr (''100%'' @ [NUL] @ takeWhile (\<lambda>c. c \<noteq> NUL) (''key'' @ [NUL]))
      else Inl Fault)"
    using r by simp
  thus ?thesis by simp
qed

section \<open>The string routines on terminated strings\<close>

lemma strlen_text: "NUL \<notin> set s \<Longrightarrow> strlen (s @ NUL # r) = Inr (length s)"
  by (induction s) auto

lemma streq_loop_text:
  "NUL \<notin> set s \<Longrightarrow> NUL \<notin> set t \<Longrightarrow> streq_loop (s @ NUL # r) (t @ NUL # r') = Inr (s = t)"
proof (induction s arbitrary: t)
  case Nil
  thus ?case by (cases t) auto
next
  case (Cons c s)
  thus ?case by (cases t) auto
qed

lemma strcopy_loop_text:
  assumes "NUL \<notin> set s" "if length s < n then length s < length d else n \<le> length d" "length d0 = length p"
  shows "strcopy_loop n (length p) (d0 @ d) (p @ s @ NUL # r) =
    Inr (if length s < n then (d0 @ s @ NUL # drop (Suc (length s)) d, True) else (d0 @ take n s @ drop n d, False))"
  using assms
proof (induction n arbitrary: s d d0 p)
  case (Suc n)
  then obtain x d' where d: "d = x # d'" by (cases d) (auto split: if_splits)
  show ?case
  proof (cases s)
    case Nil
    thus ?thesis using Suc.prems by (simp add: buf_get_def buf_put_def d nth_append list_update_append)
  next
    case (Cons c cs)
    have "strcopy_loop (Suc n) (length p) (d0 @ d) (p @ s @ NUL # r) =
        strcopy_loop n (length (p @ [c])) ((d0 @ [c]) @ d') ((p @ [c]) @ cs @ NUL # r)"
      using Suc.prems by (auto simp: buf_get_def buf_put_def d Cons nth_append list_update_append)
    also have "\<dots> = Inr (if length cs < n then ((d0 @ [c]) @ cs @ NUL # drop (Suc (length cs)) d', True)
        else ((d0 @ [c]) @ take n cs @ drop n d', False))"
      using Suc.IH [of cs d' "d0 @ [c]" "p @ [c]"] Suc.prems by (simp add: d Cons split: if_splits)
    finally show ?thesis by (simp add: d Cons)
  qed
qed simp

text \<open>Copying a terminated string into a buffer of \<open>max_size\<close> characters leaves in it the
  string, cut at \<open>max_size - 1\<close> characters, and a terminator, and keeps the rest of the buffer.\<close>
theorem strcopy_spec:
  assumes "NUL \<notin> set s" "max_size \<noteq> 0" "unat max_size \<le> length dst"
  shows "strcopy dst (s @ NUL # r) max_size =
    (let t = take (unat max_size - 1) s in Inr (t @ NUL # drop (Suc (length t)) dst))"
proof -
  have u: "unat (max_size - 1) = unat max_size - 1" using assms(2) by (simp add: unat_sub word_less_1 word_le_def unat_minus_one)
  show ?thesis
  proof (cases "length s < unat max_size - 1")
    case True
    thus ?thesis using strcopy_loop_text [OF assms(1), of "unat max_size - 1" dst "[]" "[]" r] assms(3)
      by (simp add: strcopy_def u)
  next
    case False
    have "0 < unat max_size" using assms(2) by (simp add: unat_gt_0)
    thus ?thesis using False strcopy_loop_text [OF assms(1), of "unat max_size - 1" dst "[]" "[]" r] assms(3)
      by (simp add: strcopy_def u buf_put_def list_update_append min_def flip: Cons_nth_drop_Suc)
  qed
qed

theorem strcopy_spec_witness:
  "strcopy ''abcdef'' (''hello'' @ NUL # []) 4 = Inr (''hel'' @ NUL # ''ef'')"
  using strcopy_spec [of "''hello''" 4 "''abcdef''" "[]"] by simp

text \<open>A size of 0 wraps the bound of the loop: the whole string is copied, whatever the buffer holds.\<close>

lemma strcopy_zero:
  assumes "NUL \<notin> set s" "length s < length dst" "length s < 2 ^ 64 - 1"
  shows "strcopy dst (s @ NUL # r) 0 = Inr (s @ NUL # drop (Suc (length s)) dst)"
  using strcopy_loop_text [OF assms(1), of "unat (- 1 :: u64)" dst "[]" "[]" r] assms(2,3)
  by (simp add: strcopy_def unsigned_minus_1_eq_mask mask_eq_exp_minus_1)

end
