(* ===== verification/Term_Buffers.thy ===== *)
theory Term_Buffers
  imports Fmt
begin

text \<open>
  Queues: the contract that a first-in first-out buffer gives its clients, as the locale \<open>fifo\<close>, and the
  character buffer of a terminal (\<open>kernel/io/term/buffers.c\<close>), a chain of blocks that is written at
  the tail and read at the head.  The chain is the list of its blocks from \<open>head_buf\<close> on along \<open>next\<close>;
  \<open>tail_buf\<close> is its last block, and both pointers are null when it is empty.
\<close>

section \<open>The contract of a queue\<close>

datatype 'a fifo_call = QPush 'a | QPop

text \<open>A history of calls, with the elements that were accepted and those that came out.\<close>

fun fifo_run ::
  "('s \<Rightarrow> 'a \<Rightarrow> (bool \<times> 's) res) \<Rightarrow> ('s \<Rightarrow> ('a option \<times> 's) res) \<Rightarrow> 's \<Rightarrow> 'a fifo_call list
     \<Rightarrow> ('a list \<times> 'a list \<times> 's) res" where
  "fifo_run push pop s [] = Inr ([], [], s)"
| "fifo_run push pop s (QPush x # h) =
     rbind (push s x) (\<lambda>(b, s).
     rbind (fifo_run push pop s h) (\<lambda>(acc, out, s). Inr (if b then x # acc else acc, out, s)))"
| "fifo_run push pop s (QPop # h) =
     rbind (pop s) (\<lambda>(x, s).
     rbind (fifo_run push pop s h) (\<lambda>(acc, out, s). Inr (acc, (case x of None \<Rightarrow> out | Some x \<Rightarrow> x # out), s)))"

locale fifo =
  fixes good :: "'s \<Rightarrow> bool"
    and content :: "'s \<Rightarrow> 'a list"
    and push :: "'s \<Rightarrow> 'a \<Rightarrow> (bool \<times> 's) res"
    and pop :: "'s \<Rightarrow> ('a option \<times> 's) res"
  assumes push_law: "good s \<Longrightarrow>
      \<exists>b s'. push s x = Inr (b, s') \<and> good s' \<and> content s' = content s @ (if b then [x] else [])"
    and pop_law: "good s \<Longrightarrow>
      \<exists>s'. pop s = Inr (case content s of [] \<Rightarrow> None | x # _ \<Rightarrow> Some x, s') \<and> good s' \<and> content s' = tl (content s)"
begin

text \<open>What comes out, followed by what is left, is what was there, followed by what was accepted.\<close>

lemma run_order:
  "good s \<Longrightarrow>
     \<exists>acc out s'. fifo_run push pop s h = Inr (acc, out, s') \<and> good s' \<and> content s @ acc = out @ content s'"
proof (induction h arbitrary: s)
  case (Cons call h)
  show ?case
  proof (cases call)
    case (QPush x)
    obtain b s1 where s1: "push s x = Inr (b, s1)" "good s1" "content s1 = content s @ (if b then [x] else [])"
      using push_law [OF Cons.prems] by blast
    obtain acc out s' where "fifo_run push pop s1 h = Inr (acc, out, s')" "good s'" "content s1 @ acc = out @ content s'"
      using Cons.IH [OF s1(2)] by blast
    thus ?thesis using s1 QPush by (cases b) auto
  next
    case QPop
    obtain s1 where s1: "pop s = Inr (case content s of [] \<Rightarrow> None | x # _ \<Rightarrow> Some x, s1)" "good s1"
        "content s1 = tl (content s)"
      using pop_law [OF Cons.prems] by blast
    obtain acc out s' where "fifo_run push pop s1 h = Inr (acc, out, s')" "good s'" "content s1 @ acc = out @ content s'"
      using Cons.IH [OF s1(2)] by blast
    thus ?thesis using s1 QPop by (cases "content s") auto
  qed
qed simp

text \<open>The pops that find an element give the oldest one.\<close>

lemma pop_hd: "good s \<Longrightarrow> content s = x # xs \<Longrightarrow> \<exists>s'. pop s = Inr (Some x, s') \<and> good s' \<and> content s' = xs"
  using pop_law [of s] by auto

end

section \<open>The chain of blocks\<close>

record term_buffer =
  buf_size :: nat
  tb_head :: nat
  tb_tail :: nat
  tb_buf :: string

record term_buffer_handle =
  h_size :: nat
  allocated_size :: nat
  bufs :: "term_buffer list"

definition PAGE_BYTES :: nat where
  "PAGE_BYTES = 4096"

definition sizeof_term_buffer :: nat where
  "sizeof_term_buffer = 32"

definition term_buffer_handle_new :: term_buffer_handle where
  "term_buffer_handle_new = \<lparr>h_size = 0, allocated_size = 0, bufs = []\<rparr>"

text \<open>\<open>fresh\<close> gives what the allocated memory holds.\<close>

definition alloc_tail :: "(nat \<Rightarrow> char) \<Rightarrow> term_buffer_handle \<Rightarrow> nat \<Rightarrow> term_buffer_handle" where
  "alloc_tail fresh h sz =
     (let n = sz - sizeof_term_buffer;
          new_tail = \<lparr>buf_size = n, tb_head = 0, tb_tail = 0, tb_buf = map fresh [0..<n]\<rparr> in
      h\<lparr>bufs := bufs h @ [new_tail], allocated_size := allocated_size h + sz\<rparr>)"

definition free_head :: "term_buffer_handle \<Rightarrow> term_buffer \<Rightarrow> term_buffer_handle" where
  "free_head h b =
     h\<lparr>allocated_size := allocated_size h - (buf_size b + sizeof_term_buffer), bufs := tl (bufs h)\<rparr>"

definition term_buffer_push ::
  "(nat \<Rightarrow> char) \<Rightarrow> term_buffer_handle \<Rightarrow> char \<Rightarrow> (nat \<times> term_buffer_handle) res" where
  "term_buffer_push fresh h c =
     (let h = (if bufs h = [] \<or> buf_size (last (bufs h)) \<le> tb_tail (last (bufs h))
               then alloc_tail fresh h (max PAGE_BYTES (allocated_size h)) else h);
          b = last (bufs h) in
      rbind (buf_put (tb_buf b) (tb_tail b) c) (\<lambda>buf.
      let h = h\<lparr>bufs := butlast (bufs h) @ [b\<lparr>tb_buf := buf, tb_tail := tb_tail b + 1\<rparr>], h_size := h_size h + 1\<rparr> in
      Inr (h_size h, h)))"

definition head_buf :: "term_buffer_handle \<Rightarrow> term_buffer res" where
  "head_buf h = (case bufs h of [] \<Rightarrow> Inl Fault | b # _ \<Rightarrow> Inr b)"

definition set_head :: "term_buffer_handle \<Rightarrow> term_buffer \<Rightarrow> term_buffer_handle" where
  "set_head h b = h\<lparr>bufs := b # tl (bufs h)\<rparr>"

definition term_buffer_peek :: "term_buffer_handle \<Rightarrow> (nat \<times> char option) res" where
  "term_buffer_peek h =
     (if h_size h = 0 then Inr (0, None)
      else
        rbind (head_buf h) (\<lambda>b.
        rbind (buf_get (tb_buf b) (tb_head b)) (\<lambda>c. Inr (h_size h, Some c))))"

text \<open>\<open>want\<close>: the \<open>out\<close> pointer is not null.\<close>

definition term_buffer_pop :: "term_buffer_handle \<Rightarrow> bool \<Rightarrow> (bool \<times> char option \<times> term_buffer_handle) res" where
  "term_buffer_pop h want =
     (if h_size h = 0 then Inr (False, None, h)
      else
        rbind (head_buf h) (\<lambda>b.
        rbind (if want then rbind (buf_get (tb_buf b) (tb_head b)) (\<lambda>c. Inr (Some c)) else Inr None) (\<lambda>out.
        let b = b\<lparr>tb_head := tb_head b + 1\<rparr>;
            h = set_head (h\<lparr>h_size := h_size h - 1\<rparr>) b in
        Inr (True, out, if tb_head b = tb_tail b then free_head h b else h))))"

text \<open>A turn of the loop that neither moves characters nor frees the block would be repeated for ever.\<close>

function pop_n_loop ::
  "term_buffer_handle \<Rightarrow> nat \<Rightarrow> nat \<Rightarrow> string \<Rightarrow> (nat \<times> string \<times> term_buffer_handle) res" where
  "pop_n_loop h n popped out =
     (if popped < n \<and> 0 < h_size h then
        rbind (head_buf h) (\<lambda>b.
        let available = tb_tail b - tb_head b;
            t = min available (n - popped) in
        if length (tb_buf b) < tb_head b + t then Inl Fault
        else
          let out = out @ take t (drop (tb_head b) (tb_buf b));
              b = b\<lparr>tb_head := tb_head b + t\<rparr>;
              h = set_head (h\<lparr>h_size := h_size h - t\<rparr>) b in
          if tb_head b = tb_tail b then pop_n_loop (free_head h b) n (popped + t) out
          else if t = 0 then Inl Diverge
          else pop_n_loop h n (popped + t) out)
      else Inr (popped, out, h))"
  by pat_completeness auto
termination
proof (relation "measures [\<lambda>(h, n, p, out). length (bufs h), \<lambda>(h, n, p, out). n - p]", goal_cases)
  case (2 h n popped out b available t out' b' h')
  from 2(2) obtain bs where "bufs h = b # bs" by (auto simp: head_buf_def split: list.splits)
  thus ?case using 2 by (simp add: free_head_def set_head_def)
next
  case (3 h n popped out b available t out' b' h')
  from 3(2) obtain bs where "bufs h = b # bs" by (auto simp: head_buf_def split: list.splits)
  thus ?case using 3 by (simp add: set_head_def)
qed simp

declare pop_n_loop.simps [simp del]

definition term_buffer_pop_n :: "term_buffer_handle \<Rightarrow> nat \<Rightarrow> (nat \<times> string \<times> term_buffer_handle) res" where
  "term_buffer_pop_n h n = pop_n_loop h n 0 []"

definition term_buffer_remove_from_head :: "term_buffer_handle \<Rightarrow> (nat \<times> term_buffer_handle) res" where
  "term_buffer_remove_from_head h = rbind (term_buffer_pop h False) (\<lambda>(_, _, h). Inr (h_size h, h))"

section \<open>The chain is a queue\<close>

definition block_text :: "term_buffer \<Rightarrow> string" where
  "block_text b = take (tb_tail b - tb_head b) (drop (tb_head b) (tb_buf b))"

definition block_ok :: "term_buffer \<Rightarrow> bool" where
  "block_ok b = (tb_head b < tb_tail b \<and> tb_tail b \<le> buf_size b \<and> length (tb_buf b) = buf_size b)"

definition term_content :: "term_buffer_handle \<Rightarrow> string" where
  "term_content h = concat (map block_text (bufs h))"

text \<open>Every block of the chain has a character to give, and the two counters are right.\<close>

definition term_inv :: "term_buffer_handle \<Rightarrow> bool" where
  "term_inv h =
     (list_all block_ok (bufs h) \<and> h_size h = length (term_content h)
      \<and> allocated_size h = (\<Sum>b \<leftarrow> bufs h. buf_size b + sizeof_term_buffer))"

lemma term_inv_new: "term_inv term_buffer_handle_new" "term_content term_buffer_handle_new = []"
  by (simp_all add: term_inv_def term_content_def term_buffer_handle_new_def)

lemma block_text_nonempty: "block_ok b \<Longrightarrow> block_text b \<noteq> []"
  by (simp add: block_ok_def block_text_def)

lemma length_block_text: "block_ok b \<Longrightarrow> length (block_text b) = tb_tail b - tb_head b"
  by (auto simp: block_ok_def block_text_def min_def)

lemma block_text_drop: "block_text b = drop (tb_head b) (take (tb_tail b) (tb_buf b))"
  by (simp add: block_text_def drop_take)

lemma block_put:
  assumes "tb_head b \<le> tb_tail b" "tb_tail b < buf_size b" "length (tb_buf b) = buf_size b"
    "b' = b\<lparr>tb_buf := (tb_buf b)[tb_tail b := c], tb_tail := tb_tail b + 1\<rparr>"
  shows "block_ok b'" "block_text b' = block_text b @ [c]"
proof -
  show "block_ok b'" using assms by (simp add: block_ok_def)
  have "take (tb_tail b + 1) ((tb_buf b)[tb_tail b := c]) = take (tb_tail b) (tb_buf b) @ [c]"
    using assms by (simp add: take_Suc_conv_app_nth)
  thus "block_text b' = block_text b @ [c]" using assms by (simp add: block_text_drop)
qed

lemma term_buffer_push_spec:
  assumes "term_inv h"
  shows "\<exists>h'. term_buffer_push fresh h c = Inr (h_size h + 1, h') \<and> term_inv h'
     \<and> term_content h' = term_content h @ [c]"
proof -
  let ?h = "if bufs h = [] \<or> buf_size (last (bufs h)) \<le> tb_tail (last (bufs h))
    then alloc_tail fresh h (max PAGE_BYTES (allocated_size h)) else h"
  obtain h1 bs b where b: "?h = h1" "bufs h1 = bs @ [b]" "tb_head b \<le> tb_tail b" "tb_tail b < buf_size b"
      "length (tb_buf b) = buf_size b" "list_all block_ok bs" "term_content h = concat (map block_text bs) @ block_text b"
      "allocated_size h1 = (\<Sum>b \<leftarrow> bs @ [b]. buf_size b + sizeof_term_buffer)" "h_size h1 = h_size h"
  proof (cases "bufs h = [] \<or> buf_size (last (bufs h)) \<le> tb_tail (last (bufs h))")
    case True
    let ?n = "max PAGE_BYTES (allocated_size h) - sizeof_term_buffer"
    have n: "0 < ?n" "?n + sizeof_term_buffer = max PAGE_BYTES (allocated_size h)"
      by (simp_all add: PAGE_BYTES_def sizeof_term_buffer_def)
    show ?thesis
      using that [of "alloc_tail fresh h (max PAGE_BYTES (allocated_size h))" "bufs h"
        "\<lparr>buf_size = ?n, tb_head = 0, tb_tail = 0, tb_buf = map fresh [0..<?n]\<rparr>"] True assms n
      by (simp add: alloc_tail_def Let_def term_inv_def term_content_def block_text_def)
  next
    case False
    then obtain bs b where "bufs h = bs @ [b]" by (cases "bufs h" rule: rev_cases) auto
    thus ?thesis using that [of h bs b] False assms by (auto simp: term_inv_def term_content_def block_ok_def)
  qed
  let ?b = "b\<lparr>tb_buf := (tb_buf b)[tb_tail b := c], tb_tail := tb_tail b + 1\<rparr>"
  let ?h' = "h1\<lparr>bufs := bs @ [?b], h_size := h_size h + 1\<rparr>"
  have "term_buffer_push fresh h c = Inr (h_size h + 1, ?h')"
    unfolding term_buffer_push_def Let_def b(1) using b(2-) by (simp add: buf_put_def)
  moreover have "term_content ?h' = term_content h @ [c]"
    using b(2-) block_put(2) [OF b(3-5) refl] by (simp add: term_content_def)
  moreover have "term_inv ?h'"
    using b(2-) block_put(1) [OF b(3-5) refl] assms calculation(2) by (simp add: term_inv_def)
  ultimately show ?thesis by blast
qed

lemma term_inv_cases:
  assumes "term_inv h"
  obtains (empty) "h_size h = 0" "bufs h = []" "term_content h = []"
  | (block) b bs where "bufs h = b # bs" "block_ok b" "0 < h_size h" "term_content h = block_text b @ concat (map block_text bs)"
proof (cases "bufs h")
  case Nil
  thus ?thesis using assms empty by (simp add: term_inv_def term_content_def)
next
  case (Cons b bs)
  hence "block_ok b" using assms by (simp add: term_inv_def)
  thus ?thesis using block [of b bs] Cons assms block_text_nonempty [of b]
    by (simp add: term_inv_def term_content_def)
qed

text \<open>Taking \<open>t\<close> characters from the first block, which is freed when it has no more.\<close>

definition term_take :: "term_buffer_handle \<Rightarrow> term_buffer \<Rightarrow> nat \<Rightarrow> term_buffer_handle" where
  "term_take h b t =
     (let b = b\<lparr>tb_head := tb_head b + t\<rparr>; h = set_head (h\<lparr>h_size := h_size h - t\<rparr>) b in
      if tb_head b = tb_tail b then free_head h b else h)"

lemma term_take_spec:
  assumes "term_inv h" "bufs h = b # bs" "t \<le> tb_tail b - tb_head b"
  shows "term_inv (term_take h b t)" "term_content (term_take h b t) = drop t (term_content h)"
    "take t (term_content h) = take t (drop (tb_head b) (tb_buf b))"
proof -
  have b: "block_ok b" using assms by (simp add: term_inv_def)
  have len: "t \<le> length (block_text b)" using assms(3) length_block_text [OF b] by simp
  have con: "term_content h = block_text b @ concat (map block_text bs)" using assms(2) by (simp add: term_content_def)
  show "take t (term_content h) = take t (drop (tb_head b) (tb_buf b))"
    using assms(3) len by (simp add: con) (simp add: block_text_def min_def)
  have drop: "block_text (b\<lparr>tb_head := tb_head b + t\<rparr>) = drop t (block_text b)"
    by (simp add: block_text_def drop_take add.commute)
  show content: "term_content (term_take h b t) = drop t (term_content h)"
  proof (cases "tb_head b + t = tb_tail b")
    case True
    hence "t = length (block_text b)" using length_block_text [OF b] by simp
    thus ?thesis using assms(2) True
      by (simp add: term_take_def Let_def free_head_def set_head_def con) (simp add: term_content_def)
  next
    case False
    thus ?thesis using assms(2) drop len
      by (simp add: term_take_def Let_def set_head_def con) (simp add: term_content_def)
  qed
  show "term_inv (term_take h b t)"
    using assms content b unfolding term_inv_def
    by (auto simp: term_take_def Let_def free_head_def set_head_def block_ok_def)
qed

lemma term_buffer_peek_spec:
  assumes "term_inv h"
  shows "term_buffer_peek h =
    Inr (h_size h, case term_content h of [] \<Rightarrow> None | c # _ \<Rightarrow> Some c)"
  using assms
proof (cases rule: term_inv_cases)
  case empty
  thus ?thesis by (simp add: term_buffer_peek_def)
next
  case (block b bs)
  have "block_text b = tb_buf b ! tb_head b # drop 1 (block_text b)"
    using block(2) by (simp add: block_text_def block_ok_def take_Cons' flip: Cons_nth_drop_Suc)
  thus ?thesis using block
    by (cases "block_text b") (simp_all add: term_buffer_peek_def head_buf_def buf_get_def block_ok_def)
qed

lemma term_buffer_pop_spec:
  assumes "term_inv h"
  shows "\<exists>h'. term_buffer_pop h want =
      Inr (term_content h \<noteq> [], case term_content h of [] \<Rightarrow> None | c # _ \<Rightarrow> if want then Some c else None, h')
    \<and> term_inv h' \<and> term_content h' = tl (term_content h)"
  using assms
proof (cases rule: term_inv_cases)
  case empty
  thus ?thesis using assms by (simp add: term_buffer_pop_def)
next
  case (block b bs)
  have one: "1 \<le> tb_tail b - tb_head b" using block(2) by (auto simp: block_ok_def)
  note t = term_take_spec [OF assms block(1) one]
  have at: "tb_head b < length (tb_buf b)" using block(2) by (simp add: block_ok_def)
  have ne: "term_content h \<noteq> []" using block(2,4) block_text_nonempty by simp
  have "hd (term_content h) = tb_buf b ! tb_head b"
    using t(3) at ne by (cases "term_content h") (auto simp flip: Cons_nth_drop_Suc)
  hence "term_buffer_pop h want = Inr (True, if want then Some (hd (term_content h)) else None, term_take h b 1)"
    using block at by (simp add: term_buffer_pop_def head_buf_def buf_get_def term_take_def Let_def)
  thus ?thesis using t(1,2) ne by (cases "term_content h") auto
qed

lemma term_remove_spec:
  assumes "term_inv h"
  shows "\<exists>h'. term_buffer_remove_from_head h = Inr (length (tl (term_content h)), h')
    \<and> term_inv h' \<and> term_content h' = tl (term_content h)"
  using term_buffer_pop_spec [OF assms, of False]
  by (auto simp: term_buffer_remove_from_head_def term_inv_def)

text \<open>Each turn takes what the first block has, or what is still asked for.\<close>

lemma pop_n_loop_step:
  assumes "bufs h = b # bs" "block_ok b" "0 < h_size h" "popped < n" "t = min (tb_tail b - tb_head b) (n - popped)"
  shows "pop_n_loop h n popped out =
    pop_n_loop (term_take h b t) n (popped + t) (out @ take t (drop (tb_head b) (tb_buf b)))"
proof -
  have hb: "head_buf h = Inr b" using assms(1) by (simp add: head_buf_def)
  have room: "\<not> length (tb_buf b) < tb_head b + t" and pos: "0 < t"
    using assms(2,4,5) by (auto simp: block_ok_def)
  show ?thesis
  proof (cases "tb_head b + t = tb_tail b")
    case True
    thus ?thesis using assms(3,4) room pos hb
      by (subst pop_n_loop.simps) (simp add: Let_def term_take_def flip: assms(5))
  next
    case False
    thus ?thesis using assms(3,4) room pos hb
      by (subst pop_n_loop.simps) (simp add: Let_def term_take_def flip: assms(5))
  qed
qed

lemma pop_n_loop_spec:
  assumes "term_inv h" "k = min (n - popped) (length (term_content h))"
  shows "\<exists>h'. pop_n_loop h n popped out = Inr (popped + k, out @ take k (term_content h), h')
    \<and> term_inv h' \<and> term_content h' = drop k (term_content h)"
  using assms
proof (induction "length (term_content h)" arbitrary: h popped out k rule: less_induct)
  case less
  show ?case
    using less.prems(1)
  proof (cases rule: term_inv_cases)
    case empty
    thus ?thesis using less.prems by (subst pop_n_loop.simps) simp
  next
    case (block b bs)
    show ?thesis
    proof (cases "popped < n")
      case False
      thus ?thesis using less.prems by (subst pop_n_loop.simps) simp
    next
      case True
      obtain t where t: "t = min (tb_tail b - tb_head b) (n - popped)" by simp
      have le: "t \<le> tb_tail b - tb_head b" using t by simp
      note ts = term_take_spec [OF less.prems(1) block(1) le]
      have pos: "0 < t" using block(2) True by (simp add: block_ok_def t)
      have len: "t \<le> length (term_content h)" "t \<le> k"
        using length_block_text [OF block(2)] block(4) less.prems(2) by (simp_all add: t)
      have small: "length (term_content (term_take h b t)) < length (term_content h)"
        using pos len ts(2) by simp
      have rest: "k - t = min (n - (popped + t)) (length (term_content (term_take h b t)))"
        using less.prems(2) ts(2) by simp
      obtain h' where h': "pop_n_loop (term_take h b t) n (popped + t) (out @ take t (term_content h)) =
          Inr (popped + t + (k - t), (out @ take t (term_content h)) @ take (k - t) (drop t (term_content h)), h')"
          "term_inv h'" "term_content h' = drop (k - t) (drop t (term_content h))"
        using less.hyps [OF small ts(1) rest, of "out @ take t (term_content h)"] unfolding ts(2) by blast
      moreover have "take t (term_content h) @ take (k - t) (drop t (term_content h)) = take k (term_content h)"
        using len by (metis le_add_diff_inverse take_add)
      ultimately show ?thesis
        unfolding pop_n_loop_step [OF block(1,2,3) True t] using ts(3) len by simp
    qed
  qed
qed

section \<open>The contract holds of the chain\<close>

definition term_push :: "(nat \<Rightarrow> char) \<Rightarrow> term_buffer_handle \<Rightarrow> char \<Rightarrow> (bool \<times> term_buffer_handle) res" where
  "term_push fresh h c = rbind (term_buffer_push fresh h c) (\<lambda>(_, h). Inr (True, h))"

definition term_pop :: "term_buffer_handle \<Rightarrow> (char option \<times> term_buffer_handle) res" where
  "term_pop h = rbind (term_buffer_pop h True) (\<lambda>(_, c, h). Inr (c, h))"

interpretation term_q: fifo term_inv term_content "term_push fresh" term_pop for fresh
proof unfold_locales
  fix s x assume "term_inv s"
  thus "\<exists>b s'. term_push fresh s x = Inr (b, s') \<and> term_inv s' \<and> term_content s' = term_content s @ (if b then [x] else [])"
    using term_buffer_push_spec [of s fresh x] by (force simp: term_push_def)
next
  fix s assume "term_inv s"
  thus "\<exists>s'. term_pop s = Inr (case term_content s of [] \<Rightarrow> None | x # _ \<Rightarrow> Some x, s') \<and> term_inv s'
      \<and> term_content s' = tl (term_content s)"
    using term_buffer_pop_spec [of s True] by (cases "term_content s") (auto simp: term_pop_def)
qed

end
