(* ===== verification/Ring_Buffer.thy ===== *)
theory Ring_Buffer
  imports Kmath Term_Buffers
begin

text \<open>
  The two ring buffers of \<open>lib/buffer/pow2_ring.rs\<close>: the one with a C interface over memory of the caller,
  and the generic one over an array.  The memory is the list of the elements in it, each of \<open>t_size\<close>
  bytes.  The indices are 64-bit words, which are kept in range by the mask of the size, a power of two.
  Both are bounded queues, which refuse an element or drop their oldest one when they are full, depending on their mode.
\<close>

section \<open>The ring over the memory of a caller\<close>

record 'a pow2_ring_buffer =
  rb_buf :: "'a list"
  rb_size :: u64
  rb_tail :: u64
  rb_head :: u64
  overwrite :: bool

text \<open>\<open>buf_addr\<close> is the address of the memory; the size is the number of elements that it is meant to have.\<close>

definition pow2_ring_buffer_new ::
  "u64 \<Rightarrow> 'a list \<Rightarrow> u64 \<Rightarrow> u64 \<Rightarrow> bool \<Rightarrow> 'a pow2_ring_buffer res" where
  "pow2_ring_buffer_new buf_addr buf sz t_size over =
     (if (sz AND (sz - 1)) \<noteq> 0
      then Inl (Panic ''pow2_ring_buffer: Size must be pow of 2 and be aligned to the t_size'')
      else if t_size = 0
      then Inl (Panic ''attempt to calculate the remainder with a divisor of zero'')
      else if buf_addr mod t_size \<noteq> 0
      then Inl (Panic ''pow2_ring_buffer: Size must be pow of 2 and be aligned to the t_size'')
      else Inr \<lparr>rb_buf = buf, rb_size = sz, rb_tail = 0, rb_head = 0, overwrite = over\<rparr>)"

definition rb_mask :: "'a pow2_ring_buffer \<Rightarrow> u64" where
  "rb_mask rb = rb_size rb - 1"

definition rb_is_empty :: "'a pow2_ring_buffer \<Rightarrow> bool" where
  "rb_is_empty rb = (rb_head rb = rb_tail rb)"

definition rb_is_full :: "'a pow2_ring_buffer \<Rightarrow> bool" where
  "rb_is_full rb = (((rb_head rb + 1) AND rb_mask rb) = rb_tail rb)"

definition rb_write :: "'a list \<Rightarrow> u64 \<Rightarrow> 'a \<Rightarrow> 'a list res" where
  "rb_write buf i v = (if unat i < length buf then Inr (buf[unat i := v]) else Inl Fault)"

definition rb_read :: "'a list \<Rightarrow> u64 \<Rightarrow> 'a res" where
  "rb_read buf i = (if unat i < length buf then Inr (buf ! unat i) else Inl Fault)"

definition pow2_ring_buffer_push :: "'a pow2_ring_buffer \<Rightarrow> 'a \<Rightarrow> (bool \<times> 'a pow2_ring_buffer) res" where
  "pow2_ring_buffer_push rb v =
     (let is_full = rb_is_full rb in
      if \<not> is_full then
        rbind (rb_write (rb_buf rb) (rb_head rb) v) (\<lambda>buf.
        Inr (True, rb\<lparr>rb_buf := buf, rb_head := (rb_head rb + 1) AND rb_mask rb\<rparr>))
      else if overwrite rb then
        rbind (rb_write (rb_buf rb) (rb_head rb) v) (\<lambda>buf.
        Inr (False, rb\<lparr>rb_buf := buf, rb_head := (rb_head rb + 1) AND rb_mask rb,
                       rb_tail := (rb_tail rb + 1) AND rb_mask rb\<rparr>))
      else Inr (False, rb))"

definition pow2_ring_buffer_pop :: "'a pow2_ring_buffer \<Rightarrow> ('a option \<times> 'a pow2_ring_buffer) res" where
  "pow2_ring_buffer_pop rb =
     (if rb_is_empty rb then Inr (None, rb)
      else
        rbind (rb_read (rb_buf rb) (rb_tail rb)) (\<lambda>v.
        Inr (Some v, rb\<lparr>rb_tail := (rb_tail rb + 1) AND rb_mask rb\<rparr>)))"

section \<open>The ring over an array\<close>

text \<open>\<open>SIZE\<close> is the length of the array, and \<open>over\<close> the constant parameter \<open>OVERWRITE\<close>.\<close>

record 'a rs_ring =
  rs_buf :: "'a list"
  rs_tail :: u64
  rs_head :: u64

definition rs_mask :: "'a rs_ring \<Rightarrow> u64" where
  "rs_mask r = of_nat (length (rs_buf r)) - 1"

definition rs_new :: "'a list \<Rightarrow> 'a rs_ring" where
  "rs_new buf = \<lparr>rs_buf = buf, rs_tail = 0, rs_head = 0\<rparr>"

definition rs_push :: "bool \<Rightarrow> 'a rs_ring \<Rightarrow> 'a \<Rightarrow> (bool \<times> 'a rs_ring) res" where
  "rs_push over r v =
     (let next = (rs_head r + 1) AND rs_mask r in
      if next = rs_tail r \<and> \<not> over then Inr (False, r)
      else
        let r = (if next = rs_tail r then r\<lparr>rs_tail := (rs_tail r + 1) AND rs_mask r\<rparr> else r) in
        if unat (rs_head r) < length (rs_buf r)
        then Inr (True, r\<lparr>rs_buf := (rs_buf r)[unat (rs_head r) := v], rs_head := next\<rparr>)
        else Inl (Panic ''index out of bounds''))"

definition rs_pop :: "'a rs_ring \<Rightarrow> ('a option \<times> 'a rs_ring) res" where
  "rs_pop r =
     (if rs_head r = rs_tail r then Inr (None, r)
      else if unat (rs_tail r) < length (rs_buf r)
      then Inr (Some (rs_buf r ! unat (rs_tail r)), r\<lparr>rs_tail := (rs_tail r + 1) AND rs_mask r\<rparr>)
      else Inl (Panic ''index out of bounds''))"

section \<open>The elements of a ring\<close>

definition ring_len :: "nat \<Rightarrow> nat \<Rightarrow> nat \<Rightarrow> nat" where
  "ring_len n t h = (h + n - t) mod n"

definition ring_text :: "'a list \<Rightarrow> nat \<Rightarrow> nat \<Rightarrow> 'a list" where
  "ring_text buf t h = map (\<lambda>j. buf ! ((t + j) mod length buf)) [0..<ring_len (length buf) t h]"

lemma ring_len_eq:
  assumes "t < n" "h < n"
  shows "ring_len n t h = (if t \<le> h then h - t else h + n - t)"
proof (cases "t \<le> h")
  case True
  hence "(h + n - t) mod n = (h - t + n) mod n" by simp
  also have "\<dots> = h - t" using assms by (simp only: mod_add_self2) simp
  finally show ?thesis using True by (simp add: ring_len_def)
next
  case False
  thus ?thesis using assms by (simp add: ring_len_def)
qed

lemma ring_next: "x < n \<Longrightarrow> Suc x mod n = (if Suc x = n then 0 else Suc x)"
  by (simp add: mod_less)

lemma ring_at:
  assumes "t < n" "h < n" "j < ring_len n t h"
  shows "(t + j) mod n \<noteq> h"
proof (cases "t + j < n")
  case True
  thus ?thesis using assms by (simp add: ring_len_eq split: if_splits)
next
  case False
  hence "(t + j) mod n = (t + j - n) mod n" by (intro le_mod_geq) simp
  also have "\<dots> = t + j - n" using assms False by (simp add: ring_len_eq split: if_splits)
  finally show ?thesis using False assms by (simp add: ring_len_eq split: if_splits)
qed

lemma ring_len_push:
  assumes "t < n" "h < n" "Suc h mod n \<noteq> t"
  shows "ring_len n t (Suc h mod n) = Suc (ring_len n t h)"
proof (cases "Suc h = n")
  case True
  hence "0 < t" using assms by simp
  thus ?thesis using True assms ring_len_eq [of t n 0] ring_len_eq [of t n h] by simp
next
  case False
  thus ?thesis using assms ring_len_eq [of t n "Suc h"] ring_len_eq [of t n h] by (simp split: if_splits)
qed

lemma ring_len_pop:
  assumes "t < n" "h < n" "h \<noteq> t"
  shows "ring_len n t h = Suc (ring_len n (Suc t mod n) h)"
proof (cases "Suc t = n")
  case True
  thus ?thesis using assms ring_len_eq [of 0 n h] ring_len_eq [of t n h] by simp
next
  case False
  thus ?thesis using assms ring_len_eq [of "Suc t" n h] ring_len_eq [of t n h] by (simp split: if_splits)
qed

lemma ring_text_push:
  assumes "t < length buf" "h < length buf" "Suc h mod length buf \<noteq> t"
  shows "ring_text (buf[h := v]) t (Suc h mod length buf) = ring_text buf t h @ [v]"
proof -
  let ?n = "length buf"
  have last: "(t + ring_len ?n t h) mod ?n = h"
    using assms(1,2) by (simp add: ring_len_eq [OF assms(1,2)])
  have "buf[h := v] ! ((t + j) mod ?n) = buf ! ((t + j) mod ?n)" if "j < ring_len ?n t h" for j
    using ring_at [OF assms(1,2) that] by simp
  hence "map (\<lambda>j. buf[h := v] ! ((t + j) mod ?n)) [0..<ring_len ?n t h] = ring_text buf t h"
    unfolding ring_text_def by (intro map_cong) simp_all
  thus ?thesis using ring_len_push [OF assms] last assms(2) by (simp add: ring_text_def)
qed

lemma ring_text_pop:
  assumes "t < length buf" "h < length buf" "h \<noteq> t"
  shows "ring_text buf t h = buf ! t # ring_text buf (Suc t mod length buf) h"
proof -
  let ?n = "length buf"
  have "(t + Suc j) mod ?n = (Suc t mod ?n + j) mod ?n" for j
    by (simp add: mod_simps)
  moreover have "map f [0..<Suc m] = f 0 # map (\<lambda>j. f (Suc j)) [0..<m]" for f :: "nat \<Rightarrow> 'a" and m
    by (simp add: upt_conv_Cons map_Suc_upt [symmetric] del: upt_Suc)
  ultimately show ?thesis using assms(1) unfolding ring_text_def ring_len_pop [OF assms] by (simp del: upt_Suc)
qed

lemma ring_text_empty: "ring_text buf t t = []"
  by (simp add: ring_text_def ring_len_def)

text \<open>Overwriting drops the oldest element for the new one, when there is room for one at all.\<close>

lemma ring_text_overwrite:
  assumes "t < length buf" "h < length buf" "Suc h mod length buf = t" "1 < length buf"
  shows "ring_text (buf[h := v]) (Suc t mod length buf) (Suc h mod length buf) = tl (ring_text buf t h) @ [v]"
proof -
  let ?n = "length buf"
  have "h \<noteq> t" using assms by (auto simp: ring_next split: if_splits)
  hence "tl (ring_text buf t h) = ring_text buf (Suc t mod ?n) h" using ring_text_pop [OF assms(1,2)] by simp
  moreover have "Suc h mod ?n \<noteq> Suc t mod ?n" using \<open>h \<noteq> t\<close> assms(1,2,4) by (auto simp: ring_next split: if_splits)
  moreover have "Suc t mod ?n < ?n" using assms(1) by (intro mod_less_divisor) auto
  ultimately show ?thesis using ring_text_push [of "Suc t mod ?n" buf h v] assms(2) by simp
qed

lemma unat_ring_next:
  assumes "sz = 2 ^ k" "k < 64" "unat x < unat (sz :: u64)"
  shows "unat ((x + 1) AND (sz - 1)) = Suc (unat x) mod unat sz"
proof -
  have sz: "unat sz = 2 ^ k" using assms(1,2) by (simp add: unat_exp)
  have "unat (x + 1) = Suc (unat x)"
    using assms(3) unsigned_less [of sz, where ?'a = nat] by (intro unat_add_lem [THEN iffD1, of x 1, simplified]) simp
  moreover have "(x + 1) AND (sz - 1) = take_bit k (x + 1)"
    using assms(1) by (simp add: take_bit_eq_mask exp_minus_one_mask)
  ultimately show ?thesis using sz unsigned_take_bit_eq [of k "x + 1", where ?'a = nat] by (simp only: take_bit_eq_mod)
qed

section \<open>The rings are queues\<close>

definition rb_inv :: "'a pow2_ring_buffer \<Rightarrow> bool" where
  "rb_inv rb =
     ((\<exists>k < 64. rb_size rb = 2 ^ k) \<and> length (rb_buf rb) = unat (rb_size rb)
      \<and> unat (rb_tail rb) < length (rb_buf rb) \<and> unat (rb_head rb) < length (rb_buf rb))"

definition rb_content :: "'a pow2_ring_buffer \<Rightarrow> 'a list" where
  "rb_content rb = ring_text (rb_buf rb) (unat (rb_tail rb)) (unat (rb_head rb))"

lemma rb_next:
  assumes "rb_inv rb" "unat x < length (rb_buf rb)"
  shows "unat ((x + 1) AND rb_mask rb) = Suc (unat x) mod length (rb_buf rb)"
  using assms unat_ring_next by (auto simp: rb_inv_def rb_mask_def)

lemma rb_next_less:
  assumes "rb_inv rb" "unat x < length (rb_buf rb)"
  shows "unat ((x + 1) AND rb_mask rb) < length (rb_buf rb)"
  unfolding rb_next [OF assms] using assms(2) by (intro mod_less_divisor) auto

lemma rb_is_full_iff:
  "rb_inv rb \<Longrightarrow> rb_is_full rb \<longleftrightarrow> Suc (unat (rb_head rb)) mod length (rb_buf rb) = unat (rb_tail rb)"
  using rb_next [of rb "rb_head rb"] by (auto simp: rb_is_full_def rb_inv_def word_unat_eq_iff)

lemma ring_full_len:
  assumes "t < n" "h < n"
  shows "Suc h mod n = t \<longleftrightarrow> \<not> ring_len n t h < n - 1"
  using assms by (auto simp: ring_len_eq ring_next)

lemma rb_is_full_length:
  assumes "rb_inv rb"
  shows "rb_is_full rb \<longleftrightarrow> \<not> length (rb_content rb) < length (rb_buf rb) - 1"
  using ring_full_len [of "unat (rb_tail rb)" "length (rb_buf rb)" "unat (rb_head rb)"] assms
  unfolding rb_is_full_iff [OF assms] by (simp add: rb_content_def ring_text_def rb_inv_def)

lemma pow2_ring_buffer_push_spec:
  assumes "rb_inv rb"
  shows "\<exists>rb'. pow2_ring_buffer_push rb v = Inr (\<not> rb_is_full rb, rb') \<and> rb_inv rb' \<and> overwrite rb' = overwrite rb
     \<and> length (rb_buf rb') = length (rb_buf rb)
     \<and> rb_content rb' = (if \<not> rb_is_full rb then rb_content rb @ [v]
          else if overwrite rb then tl (rb_content rb @ [v]) else rb_content rb)"
proof -
  let ?n = "length (rb_buf rb)" and ?h = "unat (rb_head rb)" and ?t = "unat (rb_tail rb)"
  have h: "?h < ?n" "?t < ?n" using assms by (simp_all add: rb_inv_def)
  let ?rb = "rb\<lparr>rb_buf := (rb_buf rb)[?h := v], rb_head := (rb_head rb + 1) AND rb_mask rb\<rparr>"
  let ?ro = "?rb\<lparr>rb_tail := (rb_tail rb + 1) AND rb_mask rb\<rparr>"
  note f = rb_is_full_iff [OF assms] and nx = rb_next [OF assms h(1)] rb_next [OF assms h(2)]
  consider "\<not> rb_is_full rb" | "rb_is_full rb" "\<not> overwrite rb" | "rb_is_full rb" "overwrite rb" by blast
  thus ?thesis
  proof cases
    case 1
    have "rb_content ?rb = rb_content rb @ [v]" using ring_text_push [OF h(2,1)] 1 f nx by (simp add: rb_content_def)
    moreover have "rb_inv ?rb" using assms rb_next_less [OF assms h(1)] by (simp add: rb_inv_def)
    ultimately show ?thesis using 1 h by (simp add: pow2_ring_buffer_push_def rb_write_def)
  next
    case 2
    thus ?thesis using assms by (simp add: pow2_ring_buffer_push_def)
  next
    case 3
    have "rb_content ?ro = tl (rb_content rb @ [v])"
    proof (cases "?n = 1")
      case True
      thus ?thesis using h nx by (simp add: rb_content_def ring_text_empty)
    next
      case False
      hence ne: "1 < ?n" using h(1) by simp
      have "?h \<noteq> ?t" using 3(1) f h ne by (auto simp: ring_next split: if_splits)
      hence "rb_content rb \<noteq> []" using ring_text_pop [OF h(2,1)] by (simp add: rb_content_def)
      thus ?thesis using ring_text_overwrite [OF h(2,1) _ ne] 3(1) f nx by (simp add: rb_content_def)
    qed
    moreover have "rb_inv ?ro" using assms rb_next_less [OF assms h(1)] rb_next_less [OF assms h(2)] by (simp add: rb_inv_def)
    ultimately show ?thesis using 3 h by (simp add: pow2_ring_buffer_push_def rb_write_def)
  qed
qed

lemma pow2_ring_buffer_pop_spec:
  assumes "rb_inv rb"
  shows "\<exists>rb'. pow2_ring_buffer_pop rb = Inr (case rb_content rb of [] \<Rightarrow> None | x # _ \<Rightarrow> Some x, rb') \<and> rb_inv rb'
     \<and> overwrite rb' = overwrite rb \<and> length (rb_buf rb') = length (rb_buf rb) \<and> rb_content rb' = tl (rb_content rb)"
proof (cases "rb_is_empty rb")
  case True
  thus ?thesis using assms by (simp add: pow2_ring_buffer_pop_def rb_is_empty_def rb_content_def ring_text_empty)
next
  case False
  have h: "unat (rb_head rb) < length (rb_buf rb)" "unat (rb_tail rb) < length (rb_buf rb)"
    using assms(1) by (simp_all add: rb_inv_def)
  have ne: "unat (rb_head rb) \<noteq> unat (rb_tail rb)" using False by (simp add: rb_is_empty_def word_unat_eq_iff)
  let ?rb = "rb\<lparr>rb_tail := (rb_tail rb + 1) AND rb_mask rb\<rparr>"
  have "rb_content rb = rb_buf rb ! unat (rb_tail rb) # rb_content ?rb"
    using ring_text_pop [OF h(2,1) ne] rb_next [OF assms(1) h(2)] by (simp add: rb_content_def)
  moreover have "rb_inv ?rb" using assms(1) rb_next_less [OF assms(1) h(2)] by (simp add: rb_inv_def)
  ultimately show ?thesis using False h by (simp add: pow2_ring_buffer_pop_def rb_read_def)
qed

interpretation c_ring: fifo "\<lambda>rb. rb_inv rb \<and> \<not> overwrite rb" rb_content pow2_ring_buffer_push pow2_ring_buffer_pop
proof unfold_locales
  fix s :: "'a pow2_ring_buffer" and x
  assume "rb_inv s \<and> \<not> overwrite s"
  thus "\<exists>b s'. pow2_ring_buffer_push s x = Inr (b, s') \<and> (rb_inv s' \<and> \<not> overwrite s')
      \<and> rb_content s' = rb_content s @ (if b then [x] else [])"
    using pow2_ring_buffer_push_spec [of s x] by auto
next
  fix s :: "'a pow2_ring_buffer"
  assume "rb_inv s \<and> \<not> overwrite s"
  thus "\<exists>s'. pow2_ring_buffer_pop s = Inr (case rb_content s of [] \<Rightarrow> None | x # _ \<Rightarrow> Some x, s')
      \<and> (rb_inv s' \<and> \<not> overwrite s') \<and> rb_content s' = tl (rb_content s)"
    using pow2_ring_buffer_pop_spec [of s] by auto
qed

text \<open>Over an array: the array, whose length is a power of two, is the memory of such a ring.\<close>

definition rs_ring_of :: "bool \<Rightarrow> 'a rs_ring \<Rightarrow> 'a pow2_ring_buffer" where
  "rs_ring_of over r =
     \<lparr>rb_buf = rs_buf r, rb_size = of_nat (length (rs_buf r)), rb_tail = rs_tail r, rb_head = rs_head r, overwrite = over\<rparr>"

lemma rs_mask_of: "rb_mask (rs_ring_of over r) = rs_mask r"
  by (simp add: rb_mask_def rs_mask_def rs_ring_of_def)

text \<open>The two rings agree but for the answer of a push that overwrites, which the ring over an array accepts.\<close>

lemma rs_push_refines:
  assumes "rb_inv (rs_ring_of over r)"
  shows "\<exists>b r'. rs_push over r v = Inr (b \<or> over, r') \<and>
     pow2_ring_buffer_push (rs_ring_of over r) v = Inr (b, rs_ring_of over r')"
proof -
  have h: "unat (rs_head r) < length (rs_buf r)" using assms by (simp add: rb_inv_def rs_ring_of_def)
  show ?thesis
  proof (cases "(rs_head r + 1) AND rs_mask r = rs_tail r")
    case True
    thus ?thesis using h
      by (cases over) (auto simp: rs_push_def pow2_ring_buffer_push_def rb_is_full_def rs_mask_of rb_write_def Let_def
          intro!: exI [of _ False] exI, auto simp: rs_ring_of_def)
  next
    case False
    thus ?thesis using h
      by (simp add: rs_push_def pow2_ring_buffer_push_def rb_is_full_def rs_mask_of rb_write_def Let_def)
        (auto simp: rs_ring_of_def)
  qed
qed

lemma rs_pop_refines:
  assumes "rb_inv (rs_ring_of over r)"
  shows "\<exists>x r'. rs_pop r = Inr (x, r') \<and> pow2_ring_buffer_pop (rs_ring_of over r) = Inr (x, rs_ring_of over r')"
proof -
  have t: "unat (rs_tail r) < length (rs_buf r)" using assms by (simp add: rb_inv_def rs_ring_of_def)
  show ?thesis
  proof (cases "rs_head r = rs_tail r")
    case True
    thus ?thesis by (simp add: rs_pop_def pow2_ring_buffer_pop_def rb_is_empty_def) (simp add: rs_ring_of_def)
  next
    case False
    thus ?thesis using t
      by (simp add: rs_pop_def pow2_ring_buffer_pop_def rb_is_empty_def rs_mask_of rb_read_def)
        (simp add: rs_ring_of_def)
  qed
qed

lemma rs_not_overwrite: "\<not> overwrite (rs_ring_of False r)"
  by (simp add: rs_ring_of_def)

interpretation rs_q: fifo "\<lambda>r. rb_inv (rs_ring_of False r)" "\<lambda>r. rb_content (rs_ring_of False r)" "rs_push False" rs_pop
proof unfold_locales
  fix s :: "'a rs_ring" and x
  assume s: "rb_inv (rs_ring_of False s)"
  obtain b r' where r': "rs_push False s x = Inr (b, r')"
      "pow2_ring_buffer_push (rs_ring_of False s) x = Inr (b, rs_ring_of False r')"
    using rs_push_refines [OF s, of x] by auto
  thus "\<exists>b s'. rs_push False s x = Inr (b, s') \<and> rb_inv (rs_ring_of False s')
      \<and> rb_content (rs_ring_of False s') = rb_content (rs_ring_of False s) @ (if b then [x] else [])"
    using c_ring.push_law [of "rs_ring_of False s" x] s rs_not_overwrite [of s] by simp
next
  fix s :: "'a rs_ring"
  assume s: "rb_inv (rs_ring_of False s)"
  obtain x r' where r': "rs_pop s = Inr (x, r')" "pow2_ring_buffer_pop (rs_ring_of False s) = Inr (x, rs_ring_of False r')"
    using rs_pop_refines [OF s] by blast
  thus "\<exists>s'. rs_pop s = Inr (case rb_content (rs_ring_of False s) of [] \<Rightarrow> None | x # _ \<Rightarrow> Some x, s')
      \<and> rb_inv (rs_ring_of False s') \<and> rb_content (rs_ring_of False s') = tl (rb_content (rs_ring_of False s))"
    using c_ring.pop_law [of "rs_ring_of False s"] s rs_not_overwrite [of s] by simp
qed

section \<open>Bounded queues\<close>

text \<open>What a push answers, and what a pop gives; a queue with room for \<open>cap\<close> elements, which drops its oldest element
  for a new one when it may overwrite and refuses the new one otherwise.\<close>

datatype 'a ring_answer = RPushed bool | RPopped "'a option"

fun bounded_do :: "nat \<Rightarrow> bool \<Rightarrow> 'a list \<Rightarrow> 'a fifo_call \<Rightarrow> 'a ring_answer \<times> 'a list" where
  "bounded_do cap over xs (QPush v) =
     (if length xs < cap then (RPushed True, xs @ [v])
      else (RPushed False, if over then tl (xs @ [v]) else xs))"
| "bounded_do cap over xs QPop = (RPopped (case xs of [] \<Rightarrow> None | x # _ \<Rightarrow> Some x), tl xs)"

fun bounded_run :: "nat \<Rightarrow> bool \<Rightarrow> 'a list \<Rightarrow> 'a fifo_call list \<Rightarrow> 'a ring_answer list \<times> 'a list" where
  "bounded_run cap over xs [] = ([], xs)"
| "bounded_run cap over xs (c # h) =
     (let (a, xs) = bounded_do cap over xs c; (as, xs) = bounded_run cap over xs h in (a # as, xs))"

fun ring_do :: "'a pow2_ring_buffer \<Rightarrow> 'a fifo_call \<Rightarrow> ('a ring_answer \<times> 'a pow2_ring_buffer) res" where
  "ring_do rb (QPush v) = rbind (pow2_ring_buffer_push rb v) (\<lambda>(b, rb). Inr (RPushed b, rb))"
| "ring_do rb QPop = rbind (pow2_ring_buffer_pop rb) (\<lambda>(x, rb). Inr (RPopped x, rb))"

fun ring_run :: "'a pow2_ring_buffer \<Rightarrow> 'a fifo_call list \<Rightarrow> ('a ring_answer list \<times> 'a pow2_ring_buffer) res" where
  "ring_run rb [] = Inr ([], rb)"
| "ring_run rb (c # h) = rbind (ring_do rb c) (\<lambda>(a, rb). rbind (ring_run rb h) (\<lambda>(as, rb). Inr (a # as, rb)))"

lemma ring_do_bounded:
  assumes "rb_inv rb"
  shows "\<exists>a rb'. ring_do rb c = Inr (a, rb') \<and> rb_inv rb' \<and> overwrite rb' = overwrite rb
     \<and> length (rb_buf rb') = length (rb_buf rb)
     \<and> bounded_do (length (rb_buf rb) - 1) (overwrite rb) (rb_content rb) c = (a, rb_content rb')"
proof (cases c)
  case (QPush v)
  thus ?thesis using pow2_ring_buffer_push_spec [OF assms, of v] rb_is_full_length [OF assms] by auto
next
  case QPop
  thus ?thesis using pow2_ring_buffer_pop_spec [OF assms] by auto
qed

lemma ring_run_bounded:
  assumes "rb_inv rb"
  shows "\<exists>as rb'. ring_run rb h = Inr (as, rb') \<and> rb_inv rb' \<and> length (rb_buf rb') = length (rb_buf rb)
     \<and> bounded_run (length (rb_buf rb) - 1) (overwrite rb) (rb_content rb) h = (as, rb_content rb')"
  using assms
proof (induction h arbitrary: rb)
  case (Cons c h)
  obtain a rb1 where r: "ring_do rb c = Inr (a, rb1)" "rb_inv rb1" "overwrite rb1 = overwrite rb"
      "length (rb_buf rb1) = length (rb_buf rb)"
      "bounded_do (length (rb_buf rb) - 1) (overwrite rb) (rb_content rb) c = (a, rb_content rb1)"
    using ring_do_bounded [OF Cons.prems] by blast
  thus ?case using Cons.IH [OF r(2)] by fastforce
qed simp

section \<open>A new ring\<close>

lemma pow2_ring_buffer_new_inv:
  assumes "pow2_ring_buffer_new addr buf sz t_size over = Inr rb" "sz \<noteq> 0" "length buf = unat sz"
  shows "rb_inv rb \<and> overwrite rb = over \<and> rb_content rb = [] \<and> length (rb_buf rb) = unat sz"
proof -
  have "is_pow2 sz" "rb = \<lparr>rb_buf = buf, rb_size = sz, rb_tail = 0, rb_head = 0, overwrite = over\<rparr>"
    using assms(1,2) by (auto simp: pow2_ring_buffer_new_def is_pow2_def split: if_splits)
  thus ?thesis using is_pow2_D [of sz] assms(2,3)
    by (auto simp: rb_inv_def rb_content_def ring_text_empty unat_gt_0)
qed

text \<open>Without overwriting, what came out, followed by what is in the ring, is what was accepted, in order.\<close>

lemma pow2_ring_buffer_fifo:
  assumes "pow2_ring_buffer_new addr buf sz t_size False = Inr rb" "sz \<noteq> 0" "length buf = unat sz"
  shows "\<exists>acc out rb'. fifo_run pow2_ring_buffer_push pow2_ring_buffer_pop rb h = Inr (acc, out, rb')
     \<and> acc = out @ rb_content rb'"
proof -
  have rb: "rb_inv rb \<and> \<not> overwrite rb" "rb_content rb = []" using pow2_ring_buffer_new_inv [OF assms] by auto
  show ?thesis using c_ring.run_order [OF rb(1), of h] rb(2) by auto
qed

text \<open>Property C32: a new ring buffer over memory for \<open>sz\<close> elements, a power of two, is a bounded queue for
  \<open>sz - 1\<close> elements in both of its modes: on any sequence of pushes and pops it answers every call as the queue does and ends
  with the elements of the queue, without an access outside of its memory.  A full queue answers a push with false; if it
  overwrites, it takes the new element all the same and loses its oldest one, otherwise it refuses the new one.\<close>
theorem pow2_ring_buffer_refines:
  assumes "pow2_ring_buffer_new addr buf sz t_size over = Inr rb" "sz \<noteq> 0" "length buf = unat sz"
  shows "\<exists>as rb'. ring_run rb h = Inr (as, rb') \<and> bounded_run (unat sz - 1) over [] h = (as, rb_content rb')"
  using ring_run_bounded [of rb h] pow2_ring_buffer_new_inv [OF assms] by auto

theorem pow2_ring_buffer_refines_witness:
  "\<exists>as rb'. ring_run \<lparr>rb_buf = [0, 0, 0, 0 :: u8], rb_size = 4, rb_tail = 0, rb_head = 0, overwrite = True\<rparr>
        [QPush 1, QPush 2, QPush 3, QPush 4, QPop, QPush 5] = Inr (as, rb')
     \<and> as = [RPushed True, RPushed True, RPushed True, RPushed False, RPopped (Some 2), RPushed True]
     \<and> rb_content rb' = [3, 4, 5]"
  using pow2_ring_buffer_refines [of 0 "[0, 0, 0, 0]" 4 8 True
      "\<lparr>rb_buf = [0, 0, 0, 0 :: u8], rb_size = 4, rb_tail = 0, rb_head = 0, overwrite = True\<rparr>"
      "[QPush 1, QPush 2, QPush 3, QPush 4, QPop, QPush 5]"]
  by (auto simp: pow2_ring_buffer_new_def)

text \<open>A size of 0 passes the test of the constructor, and the first push writes outside of the memory.\<close>

lemma pow2_ring_buffer_zero:
  "\<exists>rb. pow2_ring_buffer_new 0 ([] :: 'a list) 0 8 over = Inr rb \<and> pow2_ring_buffer_push rb v = Inl Fault"
  by (simp add: pow2_ring_buffer_new_def pow2_ring_buffer_push_def rb_is_full_def rb_mask_def rb_write_def)

end
