(* ===== verification/Kvec.thy ===== *)
theory Kvec
  imports Kmath
begin

text \<open>
  The growing vector of \<open>lib/data_structures/kvec.c\<close> and \<open>kvec.h\<close>.  The sizes are machine words, and their
  products and sums wrap as they do in the code.  The container is the list of its bytes, or \<open>None\<close> for the
  null pointer.  The operations take the answer of \<open>kmalloc\<close> as an argument: for a size, the bytes of the
  memory it returns, about whose contents nothing is assumed, or the error that stops the kernel when there is
  no memory.  The lemmas show that the bytes of the container are those of a list of elements, which the
  operations change as the operations on lists do, and that the container has the room at any time.
\<close>

type_synonym kv_alloc = "u64 \<Rightarrow> u8 list res"

definition MIN_VEC_ITEMS :: u64 where
  "MIN_VEC_ITEMS = 8"

definition MIN_ORDER :: u64 where
  "MIN_ORDER = 6"

record kvec =
  T_size :: u64
  T_align :: u64
  kv_i :: u64
  container_bytes :: u64
  container :: "u8 list option"

text \<open>\<open>memcpy (dst + off, src, n)\<close> and the bytes that a read of \<open>n\<close> at \<open>off\<close> gives.\<close>

definition bytes_write :: "u8 list \<Rightarrow> u64 \<Rightarrow> u8 list \<Rightarrow> u8 list res" where
  "bytes_write dst off src =
     (if unat off + length src \<le> length dst
      then Inr (take (unat off) dst @ src @ drop (unat off + length src) dst) else Inl Fault)"

definition bytes_read :: "u8 list \<Rightarrow> u64 \<Rightarrow> u64 \<Rightarrow> u8 list res" where
  "bytes_read src off n =
     (if unat off + unat n \<le> length src then Inr (take (unat n) (drop (unat off) src)) else Inl Fault)"

definition kv_container :: "kvec \<Rightarrow> u8 list res" where
  "kv_container k = (case container k of None \<Rightarrow> Inl Fault | Some c \<Rightarrow> Inr c)"

text \<open>The loop of \<open>pow2_bytes_for\<close>; \<open>power_of2\<close> is 0 from 64 on, so for more than \<open>2 ^ 63\<close> bytes it never ends.\<close>

partial_function (option) pow2_order :: "u64 \<Rightarrow> u64 \<Rightarrow> u64 option" where
  "pow2_order bytes ord = (if power_of2 ord < bytes then pow2_order bytes (ord + 1) else Some ord)"

definition pow2_bytes_for :: "u64 \<Rightarrow> u64 \<Rightarrow> u64 res" where
  "pow2_bytes_for sz amount =
     (let bytes = sz * amount in
      case pow2_order bytes MIN_ORDER of None \<Rightarrow> Inl Diverge | Some ord \<Rightarrow> Inr (power_of2 ord))"

definition upsize_vec :: "kv_alloc \<Rightarrow> kvec \<Rightarrow> kvec res" where
  "upsize_vec kmalloc k =
     (let remalloc = container k \<noteq> None in
      rbind (if remalloc then Inr (container_bytes k * 2) else pow2_bytes_for (T_size k) MIN_VEC_ITEMS) (\<lambda>bytes.
      rbind (kmalloc bytes) (\<lambda>new_container.
      rbind
        (if remalloc then
           rbind (kv_container k) (\<lambda>c.
           rbind (bytes_read c 0 (kv_i k * T_size k)) (\<lambda>old.
           bytes_write new_container 0 old))
         else Inr new_container)
        (\<lambda>new_container. Inr (k\<lparr>container := Some new_container, container_bytes := bytes\<rparr>)))))"

definition downsize_vec :: "kv_alloc \<Rightarrow> kvec \<Rightarrow> kvec res" where
  "downsize_vec kmalloc k =
     (let bytes = container_bytes k div 2 in
      rassert (is_pow2 (container_bytes k)) (Panic ''is_pow2(k->container_bytes_)'') (
      rassert (container k \<noteq> None) (Panic ''k->container_'') (
      rassert (kv_i k * T_size k \<le> bytes) (Panic ''k->i_ * k->T_size_ <= bytes'') (
      if kv_i k = 0 then Inr (k\<lparr>container := None, container_bytes := 0\<rparr>)
      else
        rbind (pow2_bytes_for (T_size k) MIN_VEC_ITEMS) (\<lambda>min_bytes.
        if bytes < min_bytes then Inr k
        else
          rbind (kmalloc bytes) (\<lambda>new_container.
          rbind (kv_container k) (\<lambda>c.
          rbind (bytes_read c 0 (kv_i k * T_size k)) (\<lambda>old.
          rbind (bytes_write new_container 0 old) (\<lambda>new_container.
          Inr (k\<lparr>container := Some new_container, container_bytes := bytes\<rparr>))))))))))"

definition kvec_push :: "kv_alloc \<Rightarrow> kvec \<Rightarrow> u8 list \<Rightarrow> (u64 \<times> kvec) res" where
  "kvec_push kmalloc k inp =
     (let i_offset = kv_i k * T_size k in
      rbind (if i_offset + T_size k > container_bytes k then upsize_vec kmalloc k else Inr k) (\<lambda>k.
      rbind (kv_container k) (\<lambda>c.
      rbind (bytes_read inp 0 (T_size k)) (\<lambda>x.
      rbind (bytes_write c i_offset x) (\<lambda>c.
      Inr (kv_i k, k\<lparr>container := Some c, kv_i := kv_i k + 1\<rparr>))))))"

text \<open>The result is the index, or \<open>- 1\<close>, and the bytes that \<open>out\<close> gets when it is not null.\<close>

definition kvec_pop :: "kv_alloc \<Rightarrow> kvec \<Rightarrow> bool \<Rightarrow> (int \<times> u8 list option \<times> kvec) res" where
  "kvec_pop kmalloc k want =
     (if kv_i k = 0 then Inr (- 1, None, k)
      else
        let k = k\<lparr>kv_i := kv_i k - 1\<rparr>; i_offset = kv_i k * T_size k in
        rbind
          (if want then
             rbind (kv_container k) (\<lambda>c. rbind (bytes_read c i_offset (T_size k)) (\<lambda>x. Inr (Some x)))
           else Inr None)
          (\<lambda>out.
           if T_size k = 0 then Inl Fault
           else
             let capacity = container_bytes k div T_size k in
             rbind (if kv_i k \<le> capacity div 4 then downsize_vec kmalloc k else Inr k) (\<lambda>k.
             Inr (sint (kv_i k), out, k))))"

definition kvec_set ::
  "kvec \<Rightarrow> u64 \<Rightarrow> u8 list option \<Rightarrow> bool \<Rightarrow> (bool \<times> u8 list option \<times> kvec) res" where
  "kvec_set k i inp want =
     (case inp of
        None \<Rightarrow> Inr (False, None, k)
      | Some x \<Rightarrow>
          if kv_i k \<le> i then Inr (False, None, k)
          else
            rbind (kv_container k) (\<lambda>c.
            rbind (if want then rbind (bytes_read c (i * T_size k) (T_size k)) (\<lambda>x. Inr (Some x)) else Inr None) (\<lambda>prev.
            rbind (bytes_read x 0 (T_size k)) (\<lambda>x.
            rbind (bytes_write c (i * T_size k) x) (\<lambda>c.
            Inr (True, prev, k\<lparr>container := Some c\<rparr>))))))"

text \<open>The accesses of the four machine sizes and \<open>memcpy\<close> all move the \<open>T_size_\<close> bytes of the element.\<close>

definition kvec_get_copy :: "kvec \<Rightarrow> u64 \<Rightarrow> bool \<Rightarrow> (bool \<times> u8 list option) res" where
  "kvec_get_copy k i out =
     (if kv_i k \<le> i \<or> \<not> out then Inr (False, None)
      else
        rbind (kv_container k) (\<lambda>c.
        rbind (bytes_read c (i * T_size k) (T_size k)) (\<lambda>x. Inr (True, Some x))))"

text \<open>The pointer is given by its offset in the container.\<close>

definition kvec_get_mut :: "kvec \<Rightarrow> u64 \<Rightarrow> bool \<Rightarrow> (bool \<times> u64 option) res" where
  "kvec_get_mut k i out =
     (if kv_i k \<le> i \<or> \<not> out then Inr (False, None) else Inr (True, Some (i * T_size k)))"

definition kvec_new :: "u64 \<Rightarrow> u64 \<Rightarrow> kvec res" where
  "kvec_new sz align =
     rassert (is_pow2 align \<and> align \<le> 4096 \<and> align \<le> sz)
       (Panic ''is_pow2(_.T_align_) && _.T_align_ <= PAGE_ALIGN && _.T_align_ <= _.T_size_'') (
     rassert (is_aligned sz align) (Panic ''is_aligned(_.T_size_, _.T_align_)'') (
     Inr \<lparr>T_size = sz, T_align = align, kv_i = 0, container_bytes = 0, container = None\<rparr>))"

definition kvec_delete :: "kvec \<Rightarrow> kvec" where
  "kvec_delete k = \<lparr>T_size = 0, T_align = 0, kv_i = 0, container_bytes = 0, container = None\<rparr>"

definition kvec_empty :: "kvec \<Rightarrow> kvec" where
  "kvec_empty k = (if kv_i k = 0 then k else k\<lparr>kv_i := 0, container_bytes := 0, container := None\<rparr>)"

definition kvec_len :: "kvec \<Rightarrow> u64" where
  "kvec_len k = kv_i k"

section \<open>The elements of a vector\<close>

definition chunks :: "nat \<Rightarrow> nat \<Rightarrow> u8 list \<Rightarrow> u8 list list" where
  "chunks sz n c = map (\<lambda>j. take sz (drop (j * sz) c)) [0..<n]"

definition kvec_elems :: "kvec \<Rightarrow> u8 list list" where
  "kvec_elems k = (case container k of None \<Rightarrow> [] | Some c \<Rightarrow> chunks (unat (T_size k)) (unat (kv_i k)) c)"

text \<open>What the vector relies on from \<open>kmalloc\<close>: a successful answer has the size of the request, which is no more
  than the kernel's half of the address space holds.\<close>

definition kmalloc_law :: "kv_alloc \<Rightarrow> bool" where
  "kmalloc_law kmalloc \<longleftrightarrow> (\<forall>n c. kmalloc n = Inr c \<longrightarrow> length c = unat n \<and> unat n \<le> 2 ^ 47)"

text \<open>The room is a power of two, at least the least container, and holds the elements; there is no
  container exactly when there is no element.\<close>

definition kvec_inv :: "kvec \<Rightarrow> bool" where
  "kvec_inv k =
     (0 < T_size k \<and> unat (T_size k) \<le> 2 ^ 60
      \<and> (case container k of
           None \<Rightarrow> kv_i k = 0 \<and> container_bytes k = 0
         | Some c \<Rightarrow>
             0 < kv_i k \<and> length c = unat (container_bytes k) \<and> (\<exists>n. unat (container_bytes k) = 2 ^ n)
             \<and> length c \<le> 2 ^ 47 \<and> 8 * unat (T_size k) \<le> length c \<and> unat (kv_i k) * unat (T_size k) \<le> length c))"

section \<open>Sizes\<close>

lemma unat_times: "unat (a :: u64) * unat b < 2 ^ 64 \<Longrightarrow> unat (a * b) = unat a * unat b"
  by (simp add: unat_word_ariths)

lemma unat_plus: "unat (a :: u64) + unat b < 2 ^ 64 \<Longrightarrow> unat (a + b) = unat a + unat b"
  by (simp add: unat_word_ariths)

lemma pow2_order_ends:
  assumes "unat bytes \<le> 2 ^ 63" "unat ord < 64"
  shows "\<exists>r. pow2_order bytes ord = Some r \<and> unat r < 64 \<and> unat bytes \<le> 2 ^ unat r"
  using assms
proof (induction "64 - unat ord" arbitrary: ord rule: less_induct)
  case less
  have p: "unat (power_of2 ord) = 2 ^ unat ord" using less.prems(2) by (simp add: unat_power_of2 word_less_nat_alt)
  show ?case
  proof (cases "power_of2 ord < bytes")
    case True
    hence "(2::nat) ^ unat ord < 2 ^ 63" using p less.prems(1) by (simp add: word_less_nat_alt)
    hence o1: "unat ord < 63" using power_less_imp_less_exp [of "2::nat" "unat ord" 63] by simp
    have u: "unat (ord + 1) = unat ord + 1" using o1 by (simp add: unat_word_ariths)
    have "\<exists>r. pow2_order bytes (ord + 1) = Some r \<and> unat r < 64 \<and> unat bytes \<le> 2 ^ unat r"
      by (rule less.hyps) (use u o1 less.prems in simp_all)
    thus ?thesis using True by (subst pow2_order.simps) simp
  next
    case False
    thus ?thesis using p less.prems by (subst pow2_order.simps) (simp add: word_less_nat_alt not_less)
  qed
qed

lemma pow2_order_loops: "2 ^ 63 < unat bytes \<Longrightarrow> pow2_order bytes ord = None"
proof (rule ccontr)
  assume b: "2 ^ 63 < unat bytes" and "pow2_order bytes ord \<noteq> None"
  then obtain r where "pow2_order bytes ord = Some r" by blast
  hence "\<not> power_of2 r < bytes"
  proof (rule pow2_order.raw_induct [where P = "\<lambda>bytes ord r. \<not> power_of2 r < bytes", rotated])
    fix f bytes ord r
    assume "\<And>bytes ord r. f bytes ord = Some r \<Longrightarrow> \<not> power_of2 r < bytes"
      and "(if power_of2 ord < bytes then f bytes (ord + 1) else Some ord) = Some r"
    thus "\<not> power_of2 r < bytes" by (cases "power_of2 ord < bytes") auto
  qed
  moreover have "unat (power_of2 r) \<le> 2 ^ 63"
  proof (cases "r < 64")
    case True
    hence "(2::nat) ^ unat r \<le> 2 ^ 63" by (intro power_increasing) (auto simp: word_less_nat_alt)
    thus ?thesis using unat_power_of2 [OF True] by simp
  qed (simp add: power_of2_def)
  ultimately show False using b by (simp add: word_less_nat_alt)
qed

lemma pow2_bytes_for_room:
  assumes "unat sz \<le> 2 ^ 60"
  shows "\<exists>b n. pow2_bytes_for sz MIN_VEC_ITEMS = Inr b \<and> unat b = 2 ^ n \<and> 8 * unat sz \<le> unat b"
proof -
  have s: "unat (sz * 8) = 8 * unat sz" using assms by (simp add: unat_word_ariths)
  hence "unat (sz * 8) \<le> 2 ^ 63" using assms by simp
  from pow2_order_ends [OF this, of MIN_ORDER] obtain r where
    "pow2_order (sz * 8) MIN_ORDER = Some r" "unat r < 64" "8 * unat sz \<le> 2 ^ unat r" using s by (auto simp: MIN_ORDER_def)
  thus ?thesis by (simp add: pow2_bytes_for_def MIN_VEC_ITEMS_def unat_power_of2 word_less_nat_alt)
qed

lemma length_chunks [simp]: "length (chunks sz n c) = n"
  by (simp add: chunks_def)

lemma chunks_Suc: "chunks sz (Suc n) c = chunks sz n c @ [take sz (drop (n * sz) c)]"
  by (simp add: chunks_def)

lemma chunks_nth: "i < n \<Longrightarrow> chunks sz n c ! i = take sz (drop (i * sz) c)"
  by (simp add: chunks_def)

lemma chunk_fits: "j < n \<Longrightarrow> j * sz + sz \<le> n * (sz :: nat)"
proof -
  assume "j < n"
  hence "Suc j * sz \<le> n * sz" by (intro mult_le_mono1) simp
  thus ?thesis by simp
qed

lemma chunks_cong:
  assumes "take (n * sz) c = take (n * sz) d"
  shows "chunks sz n c = chunks sz n d"
proof (rule nth_equalityI)
  fix j assume "j < length (chunks sz n c)"
  hence j: "j < n" by simp
  have "take sz (drop (j * sz) x) = take sz (drop (j * sz) (take (n * sz) x))" for x :: "u8 list"
    using chunk_fits [OF j, of sz] by (simp add: drop_take)
  thus "chunks sz n c ! j = chunks sz n d ! j" using assms j by (metis chunks_nth)
qed simp

lemma chunks_write:
  assumes "i < n" "length x = sz" "n * sz \<le> length c"
  shows "chunks sz n (take (i * sz) c @ x @ drop (i * sz + sz) c) = (chunks sz n c)[i := x]"
proof (rule nth_equalityI)
  fix j assume "j < length (chunks sz n (take (i * sz) c @ x @ drop (i * sz + sz) c))"
  hence j: "j < n" by simp
  have fi: "i * sz + sz \<le> length c" using chunk_fits [OF assms(1), of sz] assms(3) by simp
  consider "j = i" | "j < i" | "i < j" by linarith
  thus "chunks sz n (take (i * sz) c @ x @ drop (i * sz + sz) c) ! j = (chunks sz n c)[i := x] ! j"
  proof cases
    case 1
    thus ?thesis using j assms fi by (simp add: chunks_nth)
  next
    case 2
    have "j * sz + sz \<le> i * sz" using chunk_fits [OF 2] .
    thus ?thesis using 2 j assms fi by (simp add: chunks_nth take_drop min_def)
  next
    case 3
    have "i * sz + sz \<le> j * sz" using chunk_fits [OF 3] .
    thus ?thesis using 3 j assms fi by (simp add: chunks_nth min_def)
  qed
qed simp

section \<open>The operations on the elements\<close>

text \<open>A call that ends with an error of \<open>kmalloc\<close>.\<close>

definition out_of_memory :: "kv_alloc \<Rightarrow> 'a res \<Rightarrow> bool" where
  "out_of_memory kmalloc r \<longleftrightarrow> (\<exists>n e. kmalloc n = Inl e \<and> r = Inl e)"

lemma out_of_memoryI: "kmalloc n = Inl e \<Longrightarrow> r = Inl e \<Longrightarrow> out_of_memory kmalloc r"
  by (auto simp: out_of_memory_def)

lemma out_of_memory_rbind: "out_of_memory kmalloc m \<Longrightarrow> out_of_memory kmalloc (rbind m f)"
  by (auto simp: out_of_memory_def)

lemma kmalloc_lawD: "kmalloc_law kmalloc \<Longrightarrow> kmalloc n = Inr c \<Longrightarrow> length c = unat n \<and> unat n \<le> 2 ^ 47"
  unfolding kmalloc_law_def by blast

lemma kv_copy_prefix:
  assumes "unat n \<le> length c" "unat n \<le> length new"
  shows "\<exists>new'. rbind (bytes_read c 0 n) (\<lambda>old. bytes_write new 0 old) = Inr new'
     \<and> length new' = length new \<and> take (unat n) new' = take (unat n) c"
  using assms by (simp add: bytes_read_def bytes_write_def)

lemma inv_offset:
  assumes "kvec_inv k" "i \<le> kv_i k"
  shows "unat (i * T_size k) = unat i * unat (T_size k)"
proof (cases "container k")
  case None
  thus ?thesis using assms by (simp add: kvec_inv_def)
next
  case (Some c)
  have "unat i * unat (T_size k) \<le> unat (kv_i k) * unat (T_size k)"
    using assms(2) by (intro mult_le_mono1) (simp add: word_le_nat_alt)
  also have "\<dots> \<le> 2 ^ 47" using assms(1) Some by (simp add: kvec_inv_def)
  finally show ?thesis by (intro unat_times) simp
qed

text \<open>Growing keeps the elements and makes room for one more.\<close>

definition grown :: "kvec \<Rightarrow> kvec \<Rightarrow> bool" where
  "grown k k' \<longleftrightarrow> T_size k' = T_size k \<and> kv_i k' = kv_i k \<and> (\<exists>c. container k' = Some c
     \<and> length c = unat (container_bytes k') \<and> (\<exists>n. length c = 2 ^ n) \<and> length c \<le> 2 ^ 47
     \<and> 8 * unat (T_size k) \<le> length c \<and> unat (kv_i k) * unat (T_size k) + unat (T_size k) \<le> length c
     \<and> chunks (unat (T_size k)) (unat (kv_i k)) c = kvec_elems k)"

lemma upsize_new:
  assumes "kvec_inv k" "kmalloc_law kmalloc" "container k = None"
  shows "out_of_memory kmalloc (upsize_vec kmalloc k) \<or> (\<exists>k'. upsize_vec kmalloc k = Inr k' \<and> grown k k')"
proof -
  have i: "kv_i k = 0" "unat (T_size k) \<le> 2 ^ 60" using assms(1,3) by (auto simp: kvec_inv_def)
  obtain b n where b: "pow2_bytes_for (T_size k) MIN_VEC_ITEMS = Inr b" "unat b = 2 ^ n" "8 * unat (T_size k) \<le> unat b"
    using pow2_bytes_for_room [OF i(2)] by auto
  show ?thesis
  proof (cases "kmalloc b")
    case (Inl e)
    thus ?thesis using b(1) assms(3) by (auto simp: upsize_vec_def intro!: out_of_memoryI)
  next
    case (Inr c)
    have c: "length c = unat b" "unat b \<le> 2 ^ 47" using kmalloc_lawD [OF assms(2) Inr] by simp_all
    have "upsize_vec kmalloc k = Inr (k\<lparr>container := Some c, container_bytes := b\<rparr>)"
      using b(1) assms(3) Inr by (simp add: upsize_vec_def)
    moreover have "grown k (k\<lparr>container := Some c, container_bytes := b\<rparr>)"
      using b c i(1) assms(3) by (auto simp: grown_def kvec_elems_def chunks_def)
    ultimately show ?thesis by blast
  qed
qed

lemma upsize_old:
  assumes "kvec_inv k" "kmalloc_law kmalloc" "container k = Some c"
  shows "out_of_memory kmalloc (upsize_vec kmalloc k) \<or> (\<exists>k'. upsize_vec kmalloc k = Inr k' \<and> grown k k')"
proof -
  let ?T = "unat (T_size k)" and ?b = "container_bytes k * 2"
  obtain n where i: "unat (kv_i k) * ?T \<le> length c" "length c = unat (container_bytes k)" "length c \<le> 2 ^ 47"
      "8 * ?T \<le> length c" "length c = 2 ^ n"
    using assms(1,3) by (auto simp: kvec_inv_def)
  have b: "unat ?b = length c * 2" using i(2,3) by (simp add: unat_word_ariths)
  have o: "unat (kv_i k * T_size k) = unat (kv_i k) * ?T" by (rule inv_offset [OF assms(1) order_refl])
  show ?thesis
  proof (cases "kmalloc ?b")
    case (Inl e)
    thus ?thesis using assms(3) by (auto simp: upsize_vec_def intro!: out_of_memoryI)
  next
    case (Inr new)
    have l: "length new = length c * 2" "length c * 2 \<le> 2 ^ 47" using kmalloc_lawD [OF assms(2) Inr] b by simp_all
    obtain c' where c': "rbind (bytes_read c 0 (kv_i k * T_size k)) (\<lambda>old. bytes_write new 0 old) = Inr c'"
        "length c' = length new" "take (unat (kv_i k) * ?T) c' = take (unat (kv_i k) * ?T) c"
      using kv_copy_prefix [of "kv_i k * T_size k" c new] o i(1) l by auto
    have "upsize_vec kmalloc k = Inr (k\<lparr>container := Some c', container_bytes := ?b\<rparr>)"
      using Inr c'(1) assms(3) by (simp add: upsize_vec_def kv_container_def)
    moreover have "\<exists>m. length c * 2 = 2 ^ m" using i(5) by (intro exI [of _ "Suc n"]) simp
    hence "grown k (k\<lparr>container := Some c', container_bytes := ?b\<rparr>)"
      using b c' l i chunks_cong [OF c'(3)] assms(3) by (simp add: grown_def kvec_elems_def)
    ultimately show ?thesis by blast
  qed
qed

lemma upsize_vec_spec:
  assumes "kvec_inv k" "kmalloc_law kmalloc"
  shows "out_of_memory kmalloc (upsize_vec kmalloc k) \<or> (\<exists>k'. upsize_vec kmalloc k = Inr k' \<and> grown k k')"
  using upsize_new [OF assms] upsize_old [OF assms] by (cases "container k") auto

lemma length_kvec_elems: "kvec_inv k \<Longrightarrow> length (kvec_elems k) = unat (kv_i k)"
  by (cases "container k") (auto simp: kvec_inv_def kvec_elems_def)

lemma kvec_elems_Some:
  "container k = Some c \<Longrightarrow> kvec_elems k = chunks (unat (T_size k)) (unat (kv_i k)) c"
  by (simp add: kvec_elems_def)

text \<open>Appending an element.\<close>

lemma store_grown:
  assumes "kvec_inv k" "grown k k'" "length x = unat (T_size k)"
  shows "\<exists>c k2. kv_container k' = Inr c \<and> bytes_read x 0 (T_size k) = Inr x \<and>
     rbind (bytes_write c (kv_i k * T_size k) x) (\<lambda>c. Inr (kv_i k, k'\<lparr>container := Some c, kv_i := kv_i k + 1\<rparr>)) = Inr (kv_i k, k2) \<and>
     kvec_inv k2 \<and> kvec_elems k2 = kvec_elems k @ [x] \<and> T_size k2 = T_size k"
proof -
  let ?T = "unat (T_size k)" and ?i = "unat (kv_i k)"
  obtain c n where g: "T_size k' = T_size k" "kv_i k' = kv_i k" "container k' = Some c" "length c = unat (container_bytes k')"
      "length c = 2 ^ n" "length c \<le> 2 ^ 47" "8 * ?T \<le> length c" "?i * ?T + ?T \<le> length c"
      "chunks ?T ?i c = kvec_elems k"
    using assms(2) by (auto simp: grown_def)
  have T: "0 < T_size k" "0 < ?T" "?T \<le> 2 ^ 60" using assms(1) by (auto simp: kvec_inv_def word_less_nat_alt)
  have o: "unat (kv_i k * T_size k) = ?i * ?T" by (rule inv_offset [OF assms(1) order_refl])
  have "?i \<le> ?i * ?T" using T(2) by simp
  hence "?i \<le> 2 ^ 47" using g(6,8) by linarith
  hence i1: "unat (kv_i k + 1) = Suc ?i" by (simp add: unat_word_ariths)
  hence pos: "0 < kv_i k + 1" by (simp add: word_less_nat_alt)
  have e: "\<exists>n. unat (container_bytes k') = 2 ^ n" using g(4,5) by metis
  let ?c = "take (?i * ?T) c @ x @ drop (?i * ?T + ?T) c"
  let ?k = "k'\<lparr>container := Some ?c, kv_i := kv_i k + 1\<rparr>"
  have len: "length ?c = length c" "length (kvec_elems k) = ?i" using g(8,9) assms(3) by (auto, metis length_chunks)
  have "chunks ?T (Suc ?i) ?c = kvec_elems k @ [x]"
    using chunks_write [of ?i "Suc ?i" x ?T c] assms(3) g(8,9) len(2)
    by (simp add: chunks_Suc [of _ _ c] list_update_append add.commute)
  moreover have "kvec_inv ?k" unfolding kvec_inv_def using g(1-4,6-8) e T len(1) i1 pos by (simp del: length_append)
  moreover have "bytes_read x 0 (T_size k) = Inr x" using assms(3) by (simp add: bytes_read_def)
  moreover have "bytes_write c (kv_i k * T_size k) x = Inr ?c" using g(8) o assms(3) by (simp add: bytes_write_def)
  ultimately show ?thesis using g(1,3) i1 by (simp add: kv_container_def kvec_elems_def)
qed

lemma kvec_push_elems:
  assumes "kvec_inv k" "kmalloc_law kmalloc" "length x = unat (T_size k)"
  shows "out_of_memory kmalloc (kvec_push kmalloc k x) \<or>
    (\<exists>k'. kvec_push kmalloc k x = Inr (kv_i k, k') \<and> kvec_inv k'
     \<and> kvec_elems k' = kvec_elems k @ [x] \<and> T_size k' = T_size k)"
proof -
  let ?m = "if kv_i k * T_size k + T_size k > container_bytes k then upsize_vec kmalloc k else Inr k"
  have p: "kvec_push kmalloc k x = rbind ?m (\<lambda>k1. rbind (kv_container k1) (\<lambda>c. rbind (bytes_read x 0 (T_size k1)) (\<lambda>x.
      rbind (bytes_write c (kv_i k * T_size k) x) (\<lambda>c. Inr (kv_i k1, k1\<lparr>container := Some c, kv_i := kv_i k1 + 1\<rparr>)))))"
    by (simp add: kvec_push_def Let_def)
  have "out_of_memory kmalloc ?m \<or> (\<exists>k'. ?m = Inr k' \<and> grown k k')"
  proof (cases "container_bytes k < kv_i k * T_size k + T_size k")
    case True
    thus ?thesis using upsize_vec_spec [OF assms(1,2)] by simp
  next
    case False
    have o: "unat (kv_i k * T_size k) = unat (kv_i k) * unat (T_size k)" by (rule inv_offset [OF assms(1) order_refl])
    obtain c where c: "container k = Some c"
      using False assms(1) by (cases "container k") (auto simp: kvec_inv_def word_less_nat_alt)
    have l: "unat (kv_i k) * unat (T_size k) \<le> 2 ^ 47" "unat (T_size k) \<le> 2 ^ 60"
      using assms(1) c by (auto simp: kvec_inv_def)
    have "unat (kv_i k * T_size k + T_size k) = unat (kv_i k) * unat (T_size k) + unat (T_size k)"
      using unat_plus [of "kv_i k * T_size k" "T_size k"] l unfolding o by simp
    hence "grown k k" using False assms(1) c by (auto simp: grown_def kvec_inv_def kvec_elems_def word_less_nat_alt not_less)
    thus ?thesis using False by simp
  qed
  thus ?thesis
  proof
    assume "out_of_memory kmalloc ?m"
    thus ?thesis unfolding p by (blast intro: out_of_memory_rbind)
  next
    assume "\<exists>k'. ?m = Inr k' \<and> grown k k'"
    then obtain k1 where k1: "?m = Inr k1" "grown k k1" by blast
    hence "T_size k1 = T_size k" "kv_i k1 = kv_i k" by (auto simp: grown_def)
    thus ?thesis unfolding p k1(1) using store_grown [OF assms(1) k1(2) assms(3)] by auto
  qed
qed

lemma kvec_inv_container:
  assumes "kvec_inv k" "i < kv_i k"
  obtains c where "container k = Some c" "unat i * unat (T_size k) + unat (T_size k) \<le> length c"
    "unat (kv_i k) * unat (T_size k) \<le> length c" "unat (i * T_size k) = unat i * unat (T_size k)" "unat i < unat (kv_i k)"
proof (cases "container k")
  case None
  thus ?thesis using assms by (simp add: kvec_inv_def)
next
  case (Some c)
  have i: "unat i < unat (kv_i k)" using assms(2) by (simp add: word_less_nat_alt)
  have "unat (kv_i k) * unat (T_size k) \<le> length c" using assms(1) Some by (simp add: kvec_inv_def)
  moreover have "unat (i * T_size k) = unat i * unat (T_size k)" using inv_offset [OF assms(1)] assms(2) by simp
  ultimately show ?thesis using that [of c] Some i chunk_fits [OF i, of "unat (T_size k)"] by simp
qed

text \<open>Shrinking keeps the elements; \<open>k\<close> is the state of \<open>kvec_pop\<close> after the index went down.\<close>

definition shrinkable :: "kvec \<Rightarrow> u8 list \<Rightarrow> bool" where
  "shrinkable k c \<longleftrightarrow> 0 < T_size k \<and> unat (T_size k) \<le> 2 ^ 60 \<and> container k = Some c \<and> length c = unat (container_bytes k)
     \<and> (\<exists>n. unat (container_bytes k) = 2 ^ n) \<and> length c \<le> 2 ^ 47 \<and> 8 * unat (T_size k) \<le> length c
     \<and> unat (kv_i k) * unat (T_size k) \<le> length c"

lemma pow2_unat: "unat (b :: u64) = 2 ^ n \<Longrightarrow> is_pow2 b"
proof -
  assume b: "unat b = 2 ^ n"
  have "(2::nat) ^ n < 2 ^ 64" using b unsigned_less [of b, where ?'a = nat] by simp
  hence n: "n < 64" using power_less_imp_less_exp [of "2::nat" n 64] by simp
  hence "b = 2 ^ n" using b by (simp add: word_unat_eq_iff unat_exp)
  thus ?thesis using is_pow2_exp [OF n] by simp
qed

lemma quarter_fits:
  assumes "shrinkable k c" "kv_i k \<le> container_bytes k div T_size k div 4"
  shows "unat (kv_i k * T_size k) = unat (kv_i k) * unat (T_size k)"
    and "unat (kv_i k) * unat (T_size k) \<le> length c div 2" and "kv_i k * T_size k \<le> container_bytes k div 2"
proof -
  let ?T = "unat (T_size k)"
  show u: "unat (kv_i k * T_size k) = unat (kv_i k) * ?T" using assms(1) by (intro unat_times) (auto simp: shrinkable_def)
  have "unat (kv_i k) \<le> length c div ?T div 4" using assms by (simp add: word_le_nat_alt unat_div shrinkable_def)
  hence "unat (kv_i k) * ?T \<le> length c div 4 div ?T * ?T" by (simp add: div_mult2_eq [symmetric] mult.commute)
  also have "\<dots> \<le> length c div 4" by simp
  finally show f: "unat (kv_i k) * ?T \<le> length c div 2" by simp
  show "kv_i k * T_size k \<le> container_bytes k div 2" using f u assms(1) by (simp add: word_le_nat_alt unat_div shrinkable_def)
qed

lemma downsize_move:
  assumes "shrinkable k c" "kv_i k \<le> container_bytes k div T_size k div 4" "kmalloc_law kmalloc" "kv_i k \<noteq> 0"
    "pow2_bytes_for (T_size k) MIN_VEC_ITEMS = Inr b" "8 * unat (T_size k) \<le> unat b" "\<not> container_bytes k div 2 < b"
  shows "out_of_memory kmalloc (downsize_vec kmalloc k) \<or>
    (\<exists>k'. downsize_vec kmalloc k = Inr k' \<and> kvec_inv k' \<and> kvec_elems k' = chunks (unat (T_size k)) (unat (kv_i k)) c
     \<and> T_size k' = T_size k \<and> kv_i k' = kv_i k)"
proof -
  let ?T = "unat (T_size k)" and ?b = "container_bytes k div 2"
  obtain n where s: "0 < T_size k" "?T \<le> 2 ^ 60" "container k = Some c" "length c = unat (container_bytes k)"
      "unat (container_bytes k) = 2 ^ n" "length c \<le> 2 ^ 47"
    using assms(1) by (auto simp: shrinkable_def)
  note q = quarter_fits [OF assms(1,2)]
  have ub: "unat ?b = length c div 2" using s(4) by (simp add: unat_div)
  have T8: "8 * ?T \<le> length c div 2" using assms(6,7) ub by (simp add: word_less_nat_alt)
  have "0 < ?T" using s(1) by (simp add: word_less_nat_alt)
  hence "n \<noteq> 0" using T8 s(4,5) by (cases n) auto
  hence e: "\<exists>m. unat ?b = 2 ^ m" using ub s(4,5) by (intro exI [of _ "n - 1"]) (cases n, auto)
  have d: "downsize_vec kmalloc k = rbind (kmalloc ?b) (\<lambda>new. rbind (rbind (bytes_read c 0 (kv_i k * T_size k)) (\<lambda>old. bytes_write new 0 old))
       (\<lambda>new. Inr (k\<lparr>container := Some new, container_bytes := ?b\<rparr>)))"
    using pow2_unat [OF s(5)] s(3) q(3) assms(4,5,7)
    by (cases "bytes_read c 0 (kv_i k * T_size k)") (simp_all add: downsize_vec_def kv_container_def Let_def)
  show ?thesis
  proof (cases "kmalloc ?b")
    case (Inl e)
    thus ?thesis using d by (auto intro!: out_of_memoryI)
  next
    case (Inr new)
    have l: "length new = length c div 2" using kmalloc_lawD [OF assms(3) Inr] ub by simp
    obtain c' where c': "rbind (bytes_read c 0 (kv_i k * T_size k)) (\<lambda>old. bytes_write new 0 old) = Inr c'"
        "length c' = length new" "take (unat (kv_i k) * ?T) c' = take (unat (kv_i k) * ?T) c"
      using kv_copy_prefix [of "kv_i k * T_size k" c new] q(1,2) l le_trans [OF q(2) div_le_dividend] by auto
    have "kvec_inv (k\<lparr>container := Some c', container_bytes := ?b\<rparr>)"
      unfolding kvec_inv_def using s(1,2,6) assms(4) ub e l c'(2) T8 q(2) by (auto simp: word_gt_0)
    thus ?thesis using d Inr c'(1) chunks_cong [OF c'(3)] by (simp add: kvec_elems_def)
  qed
qed

lemma downsize_vec_spec:
  assumes "shrinkable k c" "kv_i k \<le> container_bytes k div T_size k div 4" "kmalloc_law kmalloc"
  shows "out_of_memory kmalloc (downsize_vec kmalloc k) \<or>
    (\<exists>k'. downsize_vec kmalloc k = Inr k' \<and> kvec_inv k' \<and> kvec_elems k' = chunks (unat (T_size k)) (unat (kv_i k)) c
     \<and> T_size k' = T_size k \<and> kv_i k' = kv_i k)"
proof -
  obtain n where s: "0 < T_size k" "unat (T_size k) \<le> 2 ^ 60" "container k = Some c" "unat (container_bytes k) = 2 ^ n"
    using assms(1) by (auto simp: shrinkable_def)
  note q = quarter_fits [OF assms(1,2)]
  obtain b where b: "pow2_bytes_for (T_size k) MIN_VEC_ITEMS = Inr b" "8 * unat (T_size k) \<le> unat b"
    using pow2_bytes_for_room [OF s(2)] by auto
  consider "kv_i k = 0" | "kv_i k \<noteq> 0" "container_bytes k div 2 < b" | "kv_i k \<noteq> 0" "\<not> container_bytes k div 2 < b" by blast
  thus ?thesis
  proof cases
    case 1
    thus ?thesis using s q(3) pow2_unat [OF s(4)]
      by (simp add: downsize_vec_def kvec_inv_def kvec_elems_def chunks_def)
  next
    case 2
    have "kvec_inv k" using assms(1) 2(1) by (auto simp: kvec_inv_def shrinkable_def word_gt_0)
    thus ?thesis using s q(3) pow2_unat [OF s(4)] b(1) 2 by (simp add: downsize_vec_def kvec_elems_def)
  qed (use downsize_move [OF assms] b in blast)
qed

lemma sint_small:
  assumes "unat (x :: u64) < 2 ^ 63"
  shows "sint x = int (unat x)"
proof -
  have "signed_take_bit 63 (uint x) = uint x"
  proof (rule signed_take_bit_int_eq_self)
    have "- (2 ^ 63) \<le> (0 :: int)" by simp
    also have "\<dots> \<le> uint x" by (rule uint_ge_0)
    finally show "- (2 ^ 63) \<le> uint x" .
    have "int (unat x) < int (2 ^ 63)" using assms by (rule iffD2 [OF of_nat_less_iff])
    thus "uint x < 2 ^ 63" by simp
  qed
  moreover have "sint x = signed_take_bit 63 (uint x)" by (simp add: sint_uint)
  ultimately show ?thesis by simp
qed

text \<open>Taking the last element.\<close>

lemma kvec_pop_elems:
  assumes "kvec_inv k" "kmalloc_law kmalloc" "kvec_elems k \<noteq> []"
  shows "out_of_memory kmalloc (kvec_pop kmalloc k want) \<or>
    (\<exists>k'. kvec_pop kmalloc k want =
        Inr (int (length (kvec_elems k) - 1), if want then Some (last (kvec_elems k)) else None, k')
     \<and> kvec_inv k' \<and> kvec_elems k' = butlast (kvec_elems k) \<and> T_size k' = T_size k)"
proof -
  let ?T = "unat (T_size k)" and ?j = "kv_i k - 1" and ?k = "k\<lparr>kv_i := kv_i k - 1\<rparr>"
  have i: "kv_i k \<noteq> 0" using assms(3) length_kvec_elems [OF assms(1)] by auto
  hence uj: "unat ?j = unat (kv_i k) - 1" "?j < kv_i k" "unat (kv_i k) = Suc (unat ?j)"
    by (auto simp: unat_minus_one word_less_nat_alt unat_gt_0)
  obtain c where c: "container k = Some c" "unat ?j * ?T + ?T \<le> length c" "unat (?j * T_size k) = unat ?j * ?T"
    by (rule kvec_inv_container [OF assms(1) uj(2)], rule that)
  have el: "kvec_elems k = chunks ?T (unat ?j) c @ [take ?T (drop (unat ?j * ?T) c)]"
    unfolding kvec_elems_Some [OF c(1)] uj(3) chunks_Suc ..
  have sh: "shrinkable ?k c" using assms(1) c by (auto simp: shrinkable_def kvec_inv_def)
  have T: "0 < T_size k" "0 < ?T" "length c \<le> 2 ^ 47" using sh by (auto simp: shrinkable_def word_less_nat_alt)
  have "unat ?j \<le> unat ?j * ?T" using T(2) by simp
  hence "unat ?j \<le> 2 ^ 47" using c(2) T(3) by linarith
  hence "unat ?j < 2 ^ 63" by simp
  hence sj: "sint ?j = int (length (kvec_elems k) - 1)"
    using length_kvec_elems [OF assms(1)] uj(1) by (simp add: sint_small)
  let ?m = "if ?j \<le> container_bytes k div T_size k div 4 then downsize_vec kmalloc ?k else Inr ?k"
  have pop: "kvec_pop kmalloc k want = rbind ?m (\<lambda>k'. Inr (sint (kv_i k'), if want then Some (take ?T (drop (unat ?j * ?T) c)) else None, k'))"
    using i c T(1) by (auto simp: kvec_pop_def Let_def kv_container_def bytes_read_def)
  have "out_of_memory kmalloc ?m \<or> (\<exists>k'. ?m = Inr k' \<and> kvec_inv k' \<and> kvec_elems k' = chunks ?T (unat ?j) c
     \<and> T_size k' = T_size k \<and> kv_i k' = ?j)"
  proof (cases "?j \<le> container_bytes k div T_size k div 4")
    case True
    thus ?thesis using downsize_vec_spec [OF sh _ assms(2)] by simp
  next
    case False
    hence "0 < ?j" by (auto simp: word_gt_0)
    hence "kvec_inv ?k" using sh by (auto simp: kvec_inv_def shrinkable_def)
    thus ?thesis using False c(1) by (simp add: kvec_elems_def)
  qed
  thus ?thesis
  proof
    assume "out_of_memory kmalloc ?m"
    thus ?thesis unfolding pop by (blast intro: out_of_memory_rbind)
  next
    assume "\<exists>k'. ?m = Inr k' \<and> kvec_inv k' \<and> kvec_elems k' = chunks ?T (unat ?j) c \<and> T_size k' = T_size k \<and> kv_i k' = ?j"
    then obtain k' where "?m = Inr k'" "kvec_inv k'" "kvec_elems k' = chunks ?T (unat ?j) c" "T_size k' = T_size k" "kv_i k' = ?j"
      by blast
    thus ?thesis unfolding pop using sj el by simp
  qed
qed

lemma kvec_set_elems:
  assumes "kvec_inv k" "length x = unat (T_size k)"
  shows "\<exists>k'. kvec_set k i (Some x) want =
       Inr (if unat i < length (kvec_elems k) then (True, if want then Some (kvec_elems k ! unat i) else None, k')
            else (False, None, k'))
     \<and> kvec_inv k' \<and> kvec_elems k' = (kvec_elems k)[unat i := x] \<and> T_size k' = T_size k"
proof (cases "i < kv_i k")
  case True
  let ?T = "unat (T_size k)" and ?i = "unat i"
  obtain c where c: "container k = Some c" "?i * ?T + ?T \<le> length c" "unat (kv_i k) * ?T \<le> length c"
      "unat (i * T_size k) = ?i * ?T" "?i < unat (kv_i k)"
    by (rule kvec_inv_container [OF assms(1) True], rule that)
  let ?c = "take (?i * ?T) c @ x @ drop (?i * ?T + ?T) c"
  have "kvec_set k i (Some x) want =
      Inr (True, if want then Some (take ?T (drop (?i * ?T) c)) else None, k\<lparr>container := Some ?c\<rparr>)"
    using True c assms(2) by (simp add: kvec_set_def kv_container_def bytes_read_def bytes_write_def)
  moreover have "kvec_inv (k\<lparr>container := Some ?c\<rparr>)"
    using assms c by (auto simp: kvec_inv_def)
  moreover have "chunks ?T (unat (kv_i k)) ?c = (kvec_elems k)[?i := x]"
    using chunks_write [OF c(5) assms(2) c(3)] kvec_elems_Some [OF c(1)] by simp
  ultimately show ?thesis
    using c(5) length_kvec_elems [OF assms(1)] chunks_nth [OF c(5), of ?T c] kvec_elems_Some [OF c(1)]
    by (simp add: kvec_elems_Some)
next
  case False
  hence "kv_i k \<le> i" by (simp add: not_less)
  moreover from this have "unat (kv_i k) \<le> unat i" by (simp add: word_le_nat_alt)
  ultimately show ?thesis using assms(1) length_kvec_elems [OF assms(1)] by (simp add: kvec_set_def list_update_beyond)
qed

lemma kvec_get_copy_elems:
  assumes "kvec_inv k"
  shows "kvec_get_copy k i out =
    Inr (if unat i < length (kvec_elems k) \<and> out then (True, Some (kvec_elems k ! unat i)) else (False, None))"
proof (cases "i < kv_i k \<and> out")
  case True
  hence i: "i < kv_i k" by simp
  obtain c where c: "container k = Some c" "unat i * unat (T_size k) + unat (T_size k) \<le> length c"
     "unat (i * T_size k) = unat i * unat (T_size k)" "unat i < unat (kv_i k)"
    by (rule kvec_inv_container [OF assms i], rule that)
  thus ?thesis using True length_kvec_elems [OF assms]
    by (simp add: not_le kvec_get_copy_def kv_container_def bytes_read_def kvec_elems_Some chunks_nth)
next
  case False
  thus ?thesis using length_kvec_elems [OF assms] by (auto simp: kvec_get_copy_def word_less_nat_alt word_le_nat_alt)
qed

lemma kvec_new_spec:
  assumes "kvec_new sz al = Inr k" "unat sz \<le> 2 ^ 60"
  shows "kvec_inv k \<and> kvec_elems k = [] \<and> T_size k = sz"
proof -
  have "is_pow2 al" "al \<le> sz" using assms(1) by (auto simp: kvec_new_def rassert_def split: if_splits)
  hence "0 < sz" by (auto simp: is_pow2_def word_gt_0)
  thus ?thesis using assms by (auto simp: kvec_new_def kvec_inv_def kvec_elems_def rassert_def split: if_splits)
qed

lemma kvec_empty_spec: "kvec_inv k \<Longrightarrow> kvec_inv (kvec_empty k) \<and> kvec_elems (kvec_empty k) = []"
  by (cases "container k") (auto simp: kvec_empty_def kvec_inv_def kvec_elems_def)

section \<open>Histories\<close>

text \<open>A call of the interface and what it gives; the list operations that it stands for.\<close>

datatype kvec_call = VPush "u8 list" | VPop bool | VSet u64 "u8 list" bool | VGet u64

datatype kvec_answer = AIndex nat | APop int "u8 list option" | AFound bool "u8 list option"

fun kvec_do :: "kv_alloc \<Rightarrow> kvec \<Rightarrow> kvec_call \<Rightarrow> (kvec_answer \<times> kvec) res" where
  "kvec_do kmalloc k (VPush x) = rbind (kvec_push kmalloc k x) (\<lambda>(i, k). Inr (AIndex (unat i), k))"
| "kvec_do kmalloc k (VPop want) = rbind (kvec_pop kmalloc k want) (\<lambda>(i, out, k). Inr (APop i out, k))"
| "kvec_do kmalloc k (VSet i x want) = rbind (kvec_set k i (Some x) want) (\<lambda>(b, prev, k). Inr (AFound b prev, k))"
| "kvec_do kmalloc k (VGet i) = rbind (kvec_get_copy k i True) (\<lambda>(b, out). Inr (AFound b out, k))"

fun list_do :: "u8 list list \<Rightarrow> kvec_call \<Rightarrow> kvec_answer \<times> u8 list list" where
  "list_do xs (VPush x) = (AIndex (length xs), xs @ [x])"
| "list_do xs (VPop want) =
     (if xs = [] then (APop (- 1) None, xs)
      else (APop (int (length xs - 1)) (if want then Some (last xs) else None), butlast xs))"
| "list_do xs (VSet i x want) =
     (if unat i < length xs then (AFound True (if want then Some (xs ! unat i) else None), xs[unat i := x])
      else (AFound False None, xs))"
| "list_do xs (VGet i) =
     (if unat i < length xs then (AFound True (Some (xs ! unat i)), xs) else (AFound False None, xs))"

text \<open>Every call comes with the allocator of its moment.\<close>

fun kvec_run :: "kvec \<Rightarrow> (kv_alloc \<times> kvec_call) list \<Rightarrow> (kvec_answer list \<times> kvec) res" where
  "kvec_run k [] = Inr ([], k)"
| "kvec_run k ((kmalloc, call) # h) =
     rbind (kvec_do kmalloc k call) (\<lambda>(a, k). rbind (kvec_run k h) (\<lambda>(as, k). Inr (a # as, k)))"

fun list_run :: "u8 list list \<Rightarrow> kvec_call list \<Rightarrow> kvec_answer list \<times> u8 list list" where
  "list_run xs [] = ([], xs)"
| "list_run xs (call # h) = (let (a, xs) = list_do xs call; (as, xs) = list_run xs h in (a # as, xs))"

fun call_ok :: "u64 \<Rightarrow> kvec_call \<Rightarrow> bool" where
  "call_ok sz (VPush x) = (length x = unat sz)"
| "call_ok sz (VSet i x want) = (length x = unat sz)"
| "call_ok sz _ = True"

lemma kvec_do_list:
  assumes "kvec_inv k" "kmalloc_law kmalloc" "call_ok (T_size k) call"
  shows "out_of_memory kmalloc (kvec_do kmalloc k call) \<or>
    (\<exists>k'. kvec_do kmalloc k call = Inr (fst (list_do (kvec_elems k) call), k') \<and> kvec_inv k'
     \<and> kvec_elems k' = snd (list_do (kvec_elems k) call) \<and> T_size k' = T_size k)"
proof (cases call)
  case (VPush x)
  thus ?thesis using kvec_push_elems [OF assms(1,2), of x] assms(3) length_kvec_elems [OF assms(1)]
    by (auto intro: out_of_memory_rbind)
next
  case (VPop want)
  show ?thesis
  proof (cases "kvec_elems k = []")
    case True
    hence "kv_i k = 0" using length_kvec_elems [OF assms(1)] by (simp add: unat_eq_0)
    thus ?thesis using True assms(1) VPop by (simp add: kvec_pop_def)
  next
    case False
    thus ?thesis using kvec_pop_elems [OF assms(1,2) False, of want] VPop by (auto intro: out_of_memory_rbind)
  qed
next
  case (VSet i x want)
  thus ?thesis using kvec_set_elems [OF assms(1), of x i want] assms(3) by (auto simp: list_update_beyond)
next
  case (VGet i)
  thus ?thesis using kvec_get_copy_elems [OF assms(1), of i True] assms(1) by auto
qed

lemma kvec_run_list:
  assumes "kvec_inv k" "list_all (\<lambda>(kmalloc, call). kmalloc_law kmalloc \<and> call_ok (T_size k) call) h"
    "list_run (kvec_elems k) (map snd h) = (as, xs)"
  shows "(\<exists>kmalloc \<in> set (map fst h). out_of_memory kmalloc (kvec_run k h)) \<or>
    (\<exists>k'. kvec_run k h = Inr (as, k') \<and> kvec_inv k' \<and> kvec_elems k' = xs)"
  using assms
proof (induction h arbitrary: k as)
  case (Cons fc h)
  obtain km call where fc: "fc = (km, call)" by fastforce
  obtain a ys where a: "list_do (kvec_elems k) call = (a, ys)" by fastforce
  obtain as' where as: "list_run ys (map snd h) = (as', xs)" "as = a # as'"
    using Cons.prems(3) a fc by (auto split: prod.splits)
  have "kmalloc_law km" "call_ok (T_size k) call" using Cons.prems(2) fc by auto
  from kvec_do_list [OF Cons.prems(1) this] consider "out_of_memory km (kvec_do km k call)"
    | k1 where "kvec_do km k call = Inr (a, k1)" "kvec_inv k1" "kvec_elems k1 = ys" "T_size k1 = T_size k"
    using a by auto
  thus ?case
  proof cases
    case 1
    hence "out_of_memory km (kvec_run k (fc # h))" unfolding fc kvec_run.simps by (rule out_of_memory_rbind)
    thus ?thesis using fc by simp
  next
    case 2
    have "(\<exists>kmalloc \<in> set (map fst h). out_of_memory kmalloc (kvec_run k1 h)) \<or>
        (\<exists>k'. kvec_run k1 h = Inr (as', k') \<and> kvec_inv k' \<and> kvec_elems k' = xs)"
      by (rule Cons.IH) (use 2 as Cons.prems(2) in auto)
    thus ?thesis using 2(1) as(2) fc by (auto intro: out_of_memory_rbind)
  qed
qed simp

text \<open>Property C31: the vector refines the list of its elements.  For elements of at most \<open>2 ^ 60\<close> bytes, any
  sequence of calls with elements of that size, and allocators that return what was asked for or stop the
  kernel, a vector answers every call as the list does and ends with the elements of the list; the only error that a
  call can end with is one of the allocator.\<close>
theorem kvec_refines_list:
  assumes "kvec_new sz al = Inr k" "unat sz \<le> 2 ^ 60"
    and "list_all (\<lambda>(kmalloc, call). kmalloc_law kmalloc \<and> call_ok sz call) h" and "list_run [] (map snd h) = (as, xs)"
  shows "(\<exists>kmalloc \<in> set (map fst h). \<exists>n e. kmalloc n = Inl e \<and> kvec_run k h = Inl e) \<or>
    (\<exists>k'. kvec_run k h = Inr (as, k') \<and> kvec_inv k' \<and> kvec_elems k' = xs)"
  using kvec_run_list [of k h as xs] kvec_new_spec [OF assms(1,2)] assms(3,4) by (simp add: out_of_memory_def)

text \<open>An allocator whose memory is full of one byte.\<close>

definition kv_memory :: "u8 \<Rightarrow> kv_alloc" where
  "kv_memory b n = (if n \<le> 2 ^ 47 then Inr (replicate (unat n) b) else Inl (Panic ''out of memory''))"

lemma kv_memory_law: "kmalloc_law (kv_memory b)"
proof -
  have "unat (2 ^ 47 :: u64) = 2 ^ 47" by (rule unat_exp) simp
  thus ?thesis unfolding kmalloc_law_def kv_memory_def by (auto simp: word_le_nat_alt split: if_splits)
qed

theorem kvec_refines_list_witness:
  "\<exists>k k'. kvec_new 2 2 = Inr k
     \<and> kvec_run k [(kv_memory 7, VPush [1, 2]), (kv_memory 8, VPush [3, 4]), (kv_memory 9, VGet 1), (kv_memory 0, VPop True)] =
         Inr ([AIndex 0, AIndex 1, AFound True (Some [3, 4]), APop 1 (Some [3, 4])], k')
     \<and> kvec_elems k' = [[1, 2]]"
proof -
  let ?h = "[(kv_memory 7, VPush [1, 2]), (kv_memory 8, VPush [3, 4]), (kv_memory 9, VGet 1), (kv_memory 0, VPop True)]"
  obtain k where k: "kvec_new 2 2 = Inr k" by (simp add: kvec_new_def is_pow2_def is_aligned_def)
  have o: "pow2_order 16 6 = Some 6" by (subst pow2_order.simps) (simp add: power_of2_def)
  have "(\<exists>kmalloc \<in> set (map fst ?h). \<exists>n e. kmalloc n = Inl e \<and> kvec_run k ?h = Inl e) \<or> (\<exists>k'. kvec_run k ?h =
         Inr ([AIndex 0, AIndex 1, AFound True (Some [3, 4]), APop 1 (Some [3, 4])], k')
     \<and> kvec_inv k' \<and> kvec_elems k' = [[1, 2]])"
    by (rule kvec_refines_list [OF k]) (simp_all add: Let_def kv_memory_law)
  moreover have "is_ok (kvec_run k ?h)"
    using k o by (auto simp: kvec_new_def is_pow2_def is_aligned_def kvec_push_def upsize_vec_def pow2_bytes_for_def
        MIN_VEC_ITEMS_def MIN_ORDER_def power_of2_def kv_memory_def kv_container_def bytes_read_def bytes_write_def
        kvec_get_copy_def kvec_pop_def downsize_vec_def Let_def)
  ultimately show ?thesis using k by auto
qed

section \<open>Sizes that overflow\<close>

text \<open>Beyond the bound of the theorem nothing is lost: for larger elements the product of \<open>pow2_bytes_for\<close> wraps or its
  loop does not end, and the first push fails in one way or another, be it by a copy that runs past the room.\<close>

lemma kvec_push_overflow:
  assumes "container k = None" "container_bytes k = 0" "kv_i k = 0" "2 ^ 60 < unat (T_size k)" "kmalloc_law kmalloc"
  shows "\<exists>e. kvec_push kmalloc k x = Inl e"
proof (rule ccontr)
  assume "\<not> ?thesis"
  then obtain i k1 where p: "kvec_push kmalloc k x = Inr (i, k1)" by (cases "kvec_push kmalloc k x") auto
  have T: "0 < T_size k" using assms(4) by (auto simp: word_gt_0)
  obtain k2 c y where k2: "upsize_vec kmalloc k = Inr k2" "kv_container k2 = Inr c" "bytes_read x 0 (T_size k2) = Inr y"
      "is_ok (bytes_write c 0 y)"
    using p T assms(2,3) by (auto simp: kvec_push_def rbind_eq_Inr)
  obtain b where b: "kmalloc b = Inr c" "T_size k2 = T_size k"
    using k2(1,2) assms(1) by (auto simp: upsize_vec_def rbind_eq_Inr kv_container_def)
  have "length c \<le> 2 ^ 47" using kmalloc_lawD [OF assms(5) b(1)] by simp
  moreover have "length y = unat (T_size k)" using k2(3) b(2) by (auto simp: bytes_read_def split: if_splits)
  moreover have "length y \<le> length c" using k2(4) by (auto simp: bytes_write_def split: if_splits)
  ultimately have "unat (T_size k) \<le> 2 ^ 47" by simp
  thus False using assms(4) by simp
qed

end
