(* ===== verification/Term.thy ===== *)
theory Term
  imports Term_Buffers Kvec
begin

text \<open>
  The terminals of \<open>kernel/io/term/term.c\<close>: characters go to an output device until it refuses one, then
  into the buffer of the terminal, from which they go to the device when it is ready again.  The device
  is the parameter \<open>out\<close>, the function \<open>out_\<close> with its context \<open>ctx\<close> as the state that it changes; a
  negative answer means that the character was not taken.  Every operation runs under the lock of the
  terminal, so that the operations of a terminal are one after the other.
\<close>

record term_handle =
  term_id :: u64
  term_buf :: term_buffer_handle

type_synonym 'd term_out = "'d \<Rightarrow> char \<Rightarrow> int \<times> 'd"

definition term_new :: "u64 \<Rightarrow> term_handle \<times> u64" where
  "term_new uniqueid_count = (\<lparr>term_id = uniqueid_count, term_buf = term_buffer_handle_new\<rparr>, uniqueid_count + 1)"

text \<open>The blocks that are freed, in order, and the cleared handle.\<close>

definition term_delete :: "term_handle \<Rightarrow> term_buffer list \<times> term_handle" where
  "term_delete h = (bufs (term_buf h), \<lparr>term_id = 0, term_buf = term_buffer_handle_new\<rparr>)"

definition term_put :: "(nat \<Rightarrow> char) \<Rightarrow> term_handle \<Rightarrow> char \<Rightarrow> term_handle res" where
  "term_put fresh h c = rbind (term_buffer_push fresh (term_buf h) c) (\<lambda>(_, b). Inr (h\<lparr>term_buf := b\<rparr>))"

definition term_printc ::
  "(nat \<Rightarrow> char) \<Rightarrow> 'd term_out \<Rightarrow> term_handle \<Rightarrow> 'd \<Rightarrow> char \<Rightarrow> (bool \<times> term_handle \<times> 'd) res" where
  "term_printc fresh out h d c =
     (let (taken, d) =
        (if h_size (term_buf h) = 0 then (case out d c of (r, d) \<Rightarrow> (0 \<le> r, d)) else (False, d)) in
      if taken then Inr (True, h, d)
      else rbind (term_put fresh h c) (\<lambda>h. Inr (False, h, d)))"

text \<open>The characters that the device takes, up to the first it refuses; the rest of the string.\<close>

fun out_loop :: "'d term_out \<Rightarrow> 'd \<Rightarrow> string \<Rightarrow> (string \<times> 'd) res" where
  "out_loop out d [] = Inl Fault"
| "out_loop out d (c # s) =
     (if c = NUL then Inr (c # s, d)
      else case out d c of (r, d) \<Rightarrow> if 0 \<le> r then out_loop out d s else Inr (c # s, d))"

fun push_loop :: "(nat \<Rightarrow> char) \<Rightarrow> term_handle \<Rightarrow> string \<Rightarrow> term_handle res" where
  "push_loop fresh h [] = Inl Fault"
| "push_loop fresh h (c # s) =
     (if c = NUL then Inr h else rbind (term_put fresh h c) (\<lambda>h. push_loop fresh h s))"

definition term_prints ::
  "(nat \<Rightarrow> char) \<Rightarrow> 'd term_out \<Rightarrow> term_handle \<Rightarrow> 'd \<Rightarrow> string \<Rightarrow> (bool \<times> term_handle \<times> 'd) res" where
  "term_prints fresh out h d s =
     rbind (if h_size (term_buf h) = 0
            then rbind (out_loop out d s) (\<lambda>(s, d). rbind (buf_get s 0) (\<lambda>c. Inr (c = NUL, s, d)))
            else Inr (False, s, d)) (\<lambda>(finished, s, d).
     rbind (push_loop fresh h s) (\<lambda>h. Inr (finished, h, d)))"

text \<open>The slice is the memory from \<open>s\<close> on; \<open>n\<close> characters of it are still to be written.\<close>

fun out_slice :: "'d term_out \<Rightarrow> 'd \<Rightarrow> string \<Rightarrow> nat \<Rightarrow> (string \<times> nat \<times> 'd) res" where
  "out_slice out d s 0 = Inr (s, 0, d)"
| "out_slice out d [] (Suc n) = Inl Fault"
| "out_slice out d (c # s) (Suc n) =
     (case out d c of (r, d) \<Rightarrow> if r < 0 then Inr (c # s, Suc n, d) else out_slice out d s n)"

fun push_slice :: "(nat \<Rightarrow> char) \<Rightarrow> term_handle \<Rightarrow> string \<Rightarrow> nat \<Rightarrow> term_handle res" where
  "push_slice fresh h s 0 = Inr h"
| "push_slice fresh h [] (Suc n) = Inl Fault"
| "push_slice fresh h (c # s) (Suc n) = rbind (term_put fresh h c) (\<lambda>h. push_slice fresh h s n)"

definition term_print_slice ::
  "(nat \<Rightarrow> char) \<Rightarrow> 'd term_out \<Rightarrow> term_handle \<Rightarrow> 'd \<Rightarrow> string \<Rightarrow> nat \<Rightarrow> (bool \<times> term_handle \<times> 'd) res" where
  "term_print_slice fresh out h d s len =
     rbind (if h_size (term_buf h) = 0 then out_slice out d s len else Inr (s, len, d)) (\<lambda>(s, n, d).
     rbind (push_slice fresh h s n) (\<lambda>h. Inr (n = 0, h, d)))"

definition term_remove_head :: "term_handle \<Rightarrow> nat \<Rightarrow> (nat \<times> string \<times> term_handle) res" where
  "term_remove_head h n =
     rbind (term_buffer_pop_n (term_buf h) n) (\<lambda>(popped, s, b). Inr (popped, s, h\<lparr>term_buf := b\<rparr>))"

text \<open>Formatted output goes to a vector of characters first.\<close>

fun putfmt_all :: "kv_alloc \<Rightarrow> kvec \<Rightarrow> string \<Rightarrow> kvec res" where
  "putfmt_all kmalloc k [] = Inr k"
| "putfmt_all kmalloc k (c # s) = rbind (kvec_push kmalloc k [of_char c]) (\<lambda>(_, k). putfmt_all kmalloc k s)"

text \<open>The memory at \<open>kvec_data\<close>: nothing can be read at the null pointer.\<close>

definition kvec_data :: "kvec \<Rightarrow> string" where
  "kvec_data k = (case container k of None \<Rightarrow> [] | Some c \<Rightarrow> map (\<lambda>b. char_of (unat b)) c)"

definition term_outf ::
  "(u64 \<Rightarrow> string) \<Rightarrow> kv_alloc \<Rightarrow> (nat \<Rightarrow> char) \<Rightarrow> 'd term_out \<Rightarrow> term_handle \<Rightarrow> 'd \<Rightarrow> string \<Rightarrow> string \<Rightarrow> u64 list
     \<Rightarrow> (bool \<times> term_handle \<times> 'd) res" where
  "term_outf str kmalloc fresh out h d buf f ap =
     rbind (kvec_new 1 1) (\<lambda>k.
     rbind (str_fmt_print str buf f ap) (\<lambda>s.
     rbind (putfmt_all kmalloc k s) (\<lambda>k.
     term_prints fresh out h d (kvec_data k))))"

lemma remove_from_head_size:
  "term_buffer_remove_from_head b = Inr (n, b') \<Longrightarrow> h_size b' = h_size b - 1"
  by (auto simp: term_buffer_remove_from_head_def term_buffer_pop_def res_simps Let_def free_head_def set_head_def
      split: if_splits)

text \<open>A turn of the loop gives the head of the buffer to the device, and the loop ends with the buffer.\<close>

function ready_loop :: "'d term_out \<Rightarrow> term_buffer_handle \<Rightarrow> 'd \<Rightarrow> (bool \<times> term_buffer_handle \<times> 'd) res" where
  "ready_loop out b d =
     rbind (term_buffer_peek b) (\<lambda>(_, c).
     case c of
       None \<Rightarrow> Inl Fault
     | Some c \<Rightarrow>
         (case out d c of (r, d) \<Rightarrow>
          if 0 \<le> r then
            rbind (term_buffer_remove_from_head b) (\<lambda>(n, b').
            if n = 0 then Inr (True, b', d) else ready_loop out b' d)
          else Inr (False, b, d)))"
  by pat_completeness auto
termination
proof (relation "measure (\<lambda>(out, b, d). h_size b)", goal_cases)
  case (2 out b d x n0 c ch r d' y n b')
  have "h_size b \<noteq> 0" using 2(1,2,3) by (auto simp: term_buffer_peek_def split: if_splits)
  moreover have "h_size b' = h_size b - 1" using 2(6,7) remove_from_head_size [of b n b'] by auto
  ultimately show ?case by simp
qed simp

declare ready_loop.simps [simp del]

definition term_notify_ready_unlocked ::
  "'d term_out \<Rightarrow> term_handle \<Rightarrow> 'd \<Rightarrow> (bool \<times> term_handle \<times> 'd) res" where
  "term_notify_ready_unlocked out h d =
     (if h_size (term_buf h) = 0 then Inr (True, h, d)
      else rbind (ready_loop out (term_buf h) d) (\<lambda>(fin, b, d). Inr (fin, h\<lparr>term_buf := b\<rparr>, d)))"

text \<open>The loop of the flush, with a bound on its turns.\<close>

fun term_flush :: "nat \<Rightarrow> 'd term_out \<Rightarrow> term_handle \<Rightarrow> 'd \<Rightarrow> (term_handle \<times> 'd) res" where
  "term_flush 0 out h d = Inl Diverge"
| "term_flush (Suc fuel) out h d =
     rbind (term_notify_ready_unlocked out h d) (\<lambda>(fin, h, d).
     if fin then Inr (h, d) else term_flush fuel out h d)"

section \<open>The order of the output\<close>

text \<open>What the interface asks of a device: it keeps a log of the characters that it took.\<close>

definition keeps_log :: "'d term_out \<Rightarrow> ('d \<Rightarrow> string) \<Rightarrow> bool" where
  "keeps_log out log = (\<forall>d c. log (snd (out d c)) = log d @ (if 0 \<le> fst (out d c) then [c] else []))"

lemma keeps_logD:
  "keeps_log out log \<Longrightarrow> out d c = (r, d') \<Longrightarrow> log d' = log d @ (if 0 \<le> r then [c] else [])"
  unfolding keeps_log_def by (metis fst_conv snd_conv)

abbreviation term_good :: "term_handle \<Rightarrow> bool" where
  "term_good h \<equiv> term_inv (term_buf h)"

abbreviation term_text :: "term_handle \<Rightarrow> string" where
  "term_text h \<equiv> term_content (term_buf h)"

lemma term_good_size: "term_good h \<Longrightarrow> h_size (term_buf h) = 0 \<longleftrightarrow> term_text h = []"
  by (simp add: term_inv_def)

lemma term_put_spec:
  "term_good h \<Longrightarrow> \<exists>h'. term_put fresh h c = Inr h' \<and> term_good h' \<and> term_text h' = term_text h @ [c]"
  using term_buffer_push_spec [of "term_buf h" fresh c] by (force simp: term_put_def)

lemma term_printc_spec:
  assumes "term_good h" "keeps_log out log"
  shows "\<exists>fin h' d'. term_printc fresh out h d c = Inr (fin, h', d') \<and> term_good h'
     \<and> log d' @ term_text h' = log d @ term_text h @ [c] \<and> (fin \<longleftrightarrow> term_text h' = [])"
proof (cases "term_text h = []")
  case True
  obtain r d' where "out d c = (r, d')" by fastforce
  thus ?thesis using term_put_spec [OF assms(1), of fresh c] keeps_logD [OF assms(2), of d c r d'] True assms(1)
    by (auto simp: term_printc_def term_good_size)
next
  case False
  thus ?thesis using term_put_spec [OF assms(1), of fresh c] assms(1)
    by (auto simp: term_printc_def term_good_size)
qed

lemma out_loop_spec:
  assumes "keeps_log out log" "NUL \<notin> set s"
  shows "\<exists>s' d'. out_loop out d (s @ NUL # r) = Inr (s' @ NUL # r, d') \<and> NUL \<notin> set s' \<and> log d' @ s' = log d @ s"
  using assms(2)
proof (induction s arbitrary: d)
  case (Cons c s)
  obtain x d' where x: "out d c = (x, d')" by fastforce
  show ?case
  proof (cases "0 \<le> x")
    case True
    thus ?thesis using Cons.IH [of d'] Cons.prems x keeps_logD [OF assms(1) x] by auto
  next
    case False
    thus ?thesis using Cons.prems x keeps_logD [OF assms(1) x] by (auto intro: exI [of _ "c # s"])
  qed
qed (auto intro: exI [of _ "[]"])

lemma push_loop_spec:
  assumes "term_good h" "NUL \<notin> set s"
  shows "\<exists>h'. push_loop fresh h (s @ NUL # r) = Inr h' \<and> term_good h' \<and> term_text h' = term_text h @ s"
  using assms
proof (induction s arbitrary: h)
  case (Cons c s)
  obtain h1 where "term_put fresh h c = Inr h1" "term_good h1" "term_text h1 = term_text h @ [c]"
    using term_put_spec [OF Cons.prems(1)] by blast
  thus ?case using Cons.IH [of h1] Cons.prems by auto
qed simp

lemma term_prints_spec:
  assumes "term_good h" "keeps_log out log" "NUL \<notin> set s"
  shows "\<exists>fin h' d'. term_prints fresh out h d (s @ NUL # r) = Inr (fin, h', d') \<and> term_good h'
     \<and> log d' @ term_text h' = log d @ term_text h @ s \<and> (fin \<longleftrightarrow> term_text h' = [])"
proof (cases "term_text h = []")
  case True
  obtain s' d' where s': "out_loop out d (s @ NUL # r) = Inr (s' @ NUL # r, d')" "NUL \<notin> set s'" "log d' @ s' = log d @ s"
    using out_loop_spec [OF assms(2,3)] by blast
  obtain h' where "push_loop fresh h (s' @ NUL # r) = Inr h'" "term_good h'" "term_text h' = term_text h @ s'"
    using push_loop_spec [OF assms(1) s'(2)] by blast
  thus ?thesis using True s' assms(1)
    by (cases s') (auto simp: term_prints_def term_good_size buf_get_def)
next
  case False
  thus ?thesis using push_loop_spec [OF assms(1,3), of fresh r] assms(1)
    by (auto simp: term_prints_def term_good_size)
qed

lemma out_slice_spec:
  assumes "keeps_log out log"
  shows "\<exists>s' d'. out_slice out d (s @ r) (length s) = Inr (s' @ r, length s', d') \<and> log d' @ s' = log d @ s"
proof (induction s arbitrary: d)
  case (Cons c s)
  obtain x d' where x: "out d c = (x, d')" by fastforce
  show ?case
  proof (cases "0 \<le> x")
    case True
    thus ?thesis using Cons.IH [of d'] x keeps_logD [OF assms x] by auto
  next
    case False
    thus ?thesis using x keeps_logD [OF assms x] by (auto intro: exI [of _ "c # s"])
  qed
qed simp

lemma push_slice_spec:
  assumes "term_good h"
  shows "\<exists>h'. push_slice fresh h (s @ r) (length s) = Inr h' \<and> term_good h' \<and> term_text h' = term_text h @ s"
  using assms
proof (induction s arbitrary: h)
  case (Cons c s)
  obtain h1 where "term_put fresh h c = Inr h1" "term_good h1" "term_text h1 = term_text h @ [c]"
    using term_put_spec [OF Cons.prems(1)] by blast
  thus ?case using Cons.IH [of h1] by auto
qed simp

lemma term_print_slice_spec:
  assumes "term_good h" "keeps_log out log"
  shows "\<exists>fin h' d'. term_print_slice fresh out h d (s @ r) (length s) = Inr (fin, h', d') \<and> term_good h'
     \<and> log d' @ term_text h' = log d @ term_text h @ s"
proof (cases "term_text h = []")
  case True
  obtain s' d' where s': "out_slice out d (s @ r) (length s) = Inr (s' @ r, length s', d')" "log d' @ s' = log d @ s"
    using out_slice_spec [OF assms(2)] by blast
  obtain h' where "push_slice fresh h (s' @ r) (length s') = Inr h'" "term_good h'" "term_text h' = term_text h @ s'"
    using push_slice_spec [OF assms(1)] by blast
  thus ?thesis using True s' assms(1) by (auto simp: term_print_slice_def term_good_size)
next
  case False
  thus ?thesis using push_slice_spec [OF assms(1), of fresh s r] assms(1)
    by (auto simp: term_print_slice_def term_good_size)
qed

lemma ready_loop_spec:
  assumes "keeps_log out log" "term_inv b" "term_content b \<noteq> []"
  shows "\<exists>fin b' d'. ready_loop out b d = Inr (fin, b', d') \<and> term_inv b'
     \<and> log d' @ term_content b' = log d @ term_content b \<and> (fin \<longleftrightarrow> term_content b' = [])"
  using assms(2,3)
proof (induction "term_content b" arbitrary: b d)
  case (Cons c cs)
  obtain r d' where out: "out d c = (r, d')" by fastforce
  have peek: "term_buffer_peek b = Inr (h_size b, Some c)"
    using term_buffer_peek_spec [OF Cons.prems(1)] Cons.hyps(2) by (metis list.simps(5))
  have step: "ready_loop out b d = (if 0 \<le> r then
      rbind (term_buffer_remove_from_head b) (\<lambda>(n, b'). if n = 0 then Inr (True, b', d') else ready_loop out b' d')
    else Inr (False, b, d'))"
    by (subst ready_loop.simps) (simp add: peek out)
  show ?case
  proof (cases "0 \<le> r")
    case False
    thus ?thesis using step Cons.prems keeps_logD [OF assms(1) out] by auto
  next
    case True
    obtain b1 where b1: "term_buffer_remove_from_head b = Inr (length cs, b1)" "term_inv b1" "term_content b1 = cs"
      using term_remove_spec [OF Cons.prems(1)] Cons.hyps(2) by (metis list.sel(3))
    have log: "log d' = log d @ [c]" using keeps_logD [OF assms(1) out] True by simp
    have con: "term_content b = c # cs" using Cons.hyps(2) by simp
    show ?thesis
    proof (cases "cs = []")
      case nil: True
      thus ?thesis using step True b1 log con by auto
    next
      case ne: False
      thus ?thesis using step True b1 log con Cons.hyps(1) [of b1 d'] by auto
    qed
  qed
qed simp

lemma term_notify_ready_spec:
  assumes "keeps_log out log" "term_good h"
  shows "\<exists>fin h' d'. term_notify_ready_unlocked out h d = Inr (fin, h', d') \<and> term_good h'
     \<and> log d' @ term_text h' = log d @ term_text h \<and> (fin \<longleftrightarrow> term_text h' = [])"
proof (cases "term_text h = []")
  case True
  thus ?thesis using assms(2) by (auto simp: term_notify_ready_unlocked_def term_good_size)
next
  case False
  thus ?thesis using ready_loop_spec [OF assms False, of d] assms(2)
    by (force simp: term_notify_ready_unlocked_def term_good_size)
qed

text \<open>The calls of a terminal, each with what the memory of the allocator holds.\<close>

datatype term_call = TPrintc char | TPrints string string | TSlice string string | TReady

fun term_do ::
  "'d term_out \<Rightarrow> term_handle \<Rightarrow> 'd \<Rightarrow> (nat \<Rightarrow> char) \<times> term_call \<Rightarrow> (bool \<times> term_handle \<times> 'd) res" where
  "term_do out h d (fresh, TPrintc c) = term_printc fresh out h d c"
| "term_do out h d (fresh, TPrints s r) = term_prints fresh out h d (s @ NUL # r)"
| "term_do out h d (fresh, TSlice s r) = term_print_slice fresh out h d (s @ r) (length s)"
| "term_do out h d (fresh, TReady) = term_notify_ready_unlocked out h d"

fun call_text :: "term_call \<Rightarrow> string" where
  "call_text (TPrintc c) = [c]"
| "call_text (TPrints s r) = s"
| "call_text (TSlice s r) = s"
| "call_text TReady = []"

fun term_call_ok :: "term_call \<Rightarrow> bool" where
  "term_call_ok (TPrints s r) = (NUL \<notin> set s)"
| "term_call_ok _ = True"

fun term_run ::
  "'d term_out \<Rightarrow> term_handle \<Rightarrow> 'd \<Rightarrow> ((nat \<Rightarrow> char) \<times> term_call) list \<Rightarrow> (term_handle \<times> 'd) res" where
  "term_run out h d [] = Inr (h, d)"
| "term_run out h d (x # xs) = rbind (term_do out h d x) (\<lambda>(_, h, d). term_run out h d xs)"

lemma term_do_spec:
  assumes "keeps_log out log" "term_good h" "term_call_ok (snd x)"
  shows "\<exists>fin h' d'. term_do out h d x = Inr (fin, h', d') \<and> term_good h'
     \<and> log d' @ term_text h' = log d @ term_text h @ call_text (snd x)"
proof -
  obtain fresh call where x: "x = (fresh, call)" by fastforce
  show ?thesis
  proof (cases call)
    case (TPrintc c)
    thus ?thesis using term_printc_spec [OF assms(2,1), of fresh d c] by (auto simp: x)
  next
    case (TPrints s r)
    hence "NUL \<notin> set s" using assms(3) by (simp add: x)
    thus ?thesis using TPrints term_prints_spec [OF assms(2,1), of s fresh d r] by (auto simp: x)
  next
    case (TSlice s r)
    thus ?thesis using term_print_slice_spec [OF assms(2,1), of fresh d s r] by (auto simp: x)
  next
    case TReady
    thus ?thesis using term_notify_ready_spec [OF assms(1,2), of d] by (auto simp: x)
  qed
qed

lemma term_run_spec:
  assumes "keeps_log out log" "term_good h" "\<forall>x \<in> set xs. term_call_ok (snd x)"
  shows "\<exists>h' d'. term_run out h d xs = Inr (h', d') \<and> term_good h'
     \<and> log d' @ term_text h' = log d @ term_text h @ concat (map (\<lambda>x. call_text (snd x)) xs)"
  using assms(2,3)
proof (induction xs arbitrary: h d)
  case (Cons x xs)
  obtain fin h1 d1 where 1: "term_do out h d x = Inr (fin, h1, d1)" "term_good h1"
      "log d1 @ term_text h1 = log d @ term_text h @ call_text (snd x)"
    using term_do_spec [OF assms(1) Cons.prems(1)] Cons.prems(2) by (metis list.set_intros(1))
  obtain h' d' where 2: "term_run out h1 d1 xs = Inr (h', d')" "term_good h'"
      "log d' @ term_text h' = log d1 @ term_text h1 @ concat (map (\<lambda>x. call_text (snd x)) xs)"
    using Cons.IH [OF 1(2), of d1] Cons.prems(2) by auto
  have "log d' @ term_text h' = log d @ term_text h @ call_text (snd x) @ concat (map (\<lambda>x. call_text (snd x)) xs)"
    using 1(3) 2(3) by (metis append.assoc)
  thus ?case using 1(1) 2(1,2) by simp
qed simp

text \<open>Property C33: a terminal neither loses, repeats nor reorders characters: after any sequence of calls
  on a new terminal, what the device took since then, followed by what is in the buffer, is the text
  of the calls, in their order.\<close>
theorem term_order:
  assumes "keeps_log out log" "\<forall>x \<in> set xs. term_call_ok (snd x)"
  shows "\<exists>h' d'. term_run out (fst (term_new uid)) d xs = Inr (h', d')
     \<and> log d' @ term_content (term_buf h') = log d @ concat (map (\<lambda>x. call_text (snd x)) xs)"
  using term_run_spec [OF assms(1) _ assms(2), of "fst (term_new uid)" d] term_inv_new
  by (auto simp: term_new_def)

text \<open>A device that is busy from time to time: its state is the characters it took and the number of
  refusals still to come.\<close>

definition busy_out :: "(string \<times> nat) term_out" where
  "busy_out d c = (case d of (s, 0) \<Rightarrow> (0, (s @ [c], 2)) | (s, Suc n) \<Rightarrow> (- 1, (s, n)))"

lemma busy_out_log: "keeps_log busy_out fst"
  by (auto simp: keeps_log_def busy_out_def split: prod.splits nat.splits)

theorem term_order_witness:
  "\<exists>h' d'. term_run busy_out (fst (term_new 5)) ('''', 0)
        [(\<lambda>i. NUL, TPrints ''ab'' ''''), (\<lambda>i. NUL, TReady), (\<lambda>i. NUL, TPrintc CHR ''c'')] = Inr (h', d')
     \<and> fst d' @ term_content (term_buf h') = ''abc''"
  using term_order [OF busy_out_log, of
      "[(\<lambda>i. NUL, TPrints ''ab'' ''''), (\<lambda>i. NUL, TReady), (\<lambda>i. NUL, TPrintc CHR ''c'')]" 5 "('''', 0)"]
  by simp

section \<open>Flushing\<close>

text \<open>A device that cannot refuse for ever: every refusal makes \<open>wait\<close> smaller.\<close>

definition makes_progress :: "'d term_out \<Rightarrow> ('d \<Rightarrow> nat) \<Rightarrow> bool" where
  "makes_progress out wait = (\<forall>d c. fst (out d c) < 0 \<longrightarrow> wait (snd (out d c)) < wait d)"

lemma ready_loop_wait:
  assumes "makes_progress out wait" "term_inv b" "term_content b \<noteq> []" "ready_loop out b d = Inr (False, b', d')"
  shows "length (term_content b') < length (term_content b) \<or> term_content b' = term_content b \<and> wait d' < wait d"
  using assms(2-)
proof (induction "term_content b" arbitrary: b d)
  case (Cons c cs)
  have con: "term_content b = c # cs" using Cons.hyps(2) by simp
  obtain r d1 where out: "out d c = (r, d1)" by fastforce
  have peek: "term_buffer_peek b = Inr (h_size b, Some c)"
    using term_buffer_peek_spec [OF Cons.prems(1)] con by simp
  show ?case
  proof (cases "0 \<le> r")
    case False
    hence "b' = b" "d' = d1" using Cons.prems(3) by (simp_all add: ready_loop.simps [of out b d] peek out)
    moreover have "wait d1 < wait d"
      using assms(1) out False unfolding makes_progress_def by (metis fst_conv not_le snd_conv)
    ultimately show ?thesis by simp
  next
    case True
    obtain b1 where b1: "term_buffer_remove_from_head b = Inr (length cs, b1)" "term_inv b1" "term_content b1 = cs"
      using term_remove_spec [OF Cons.prems(1)] con by auto
    have "ready_loop out b1 d1 = Inr (False, b', d')" "cs \<noteq> []"
      using Cons.prems(3) True b1(1) by (auto simp: ready_loop.simps [of out b d] peek out split: if_splits)
    thus ?thesis using Cons.hyps(1) [of b1 d1] b1 con by auto
  qed
qed simp

text \<open>Property C34: flushing a terminal ends, with all its characters given to the device in order, when
  the device cannot refuse for ever.\<close>
theorem term_flush_ends:
  assumes "keeps_log out log" "makes_progress out wait" "term_inv (term_buf h)"
  shows "\<exists>fuel h' d'. term_flush fuel out h d = Inr (h', d') \<and> term_content (term_buf h') = []
     \<and> log d' = log d @ term_content (term_buf h)"
  using assms(3)
proof (induction "(length (term_text h), wait d)" arbitrary: h d rule: wf_induct_rule [OF wf_lex_prod [OF wf_less wf_less]])
  case 1
  obtain fin h1 d1 where n: "term_notify_ready_unlocked out h d = Inr (fin, h1, d1)" "term_good h1"
      "log d1 @ term_text h1 = log d @ term_text h" "fin \<longleftrightarrow> term_text h1 = []"
    using term_notify_ready_spec [OF assms(1) 1(2)] by blast
  show ?case
  proof (cases fin)
    case True
    thus ?thesis using n by (intro exI [of _ 1]) (simp add: One_nat_def)
  next
    case False
    have ne: "h_size (term_buf h) \<noteq> 0" "term_text h \<noteq> []"
      using n False 1(2) by (auto simp: term_notify_ready_unlocked_def term_good_size split: if_splits)
    then obtain b1 where "ready_loop out (term_buf h) d = Inr (False, b1, d1)" "term_buf h1 = b1"
      using n(1) False by (auto simp: term_notify_ready_unlocked_def res_simps)
    hence "length (term_text h1) < length (term_text h) \<or> term_text h1 = term_text h \<and> wait d1 < wait d"
      using ready_loop_wait [OF assms(2) 1(2) ne(2)] by simp
    then obtain fuel h' d' where "term_flush fuel out h1 d1 = Inr (h', d')" "term_text h' = []" "log d' = log d1 @ term_text h1"
      using 1(1) [of h1 d1] n(2) by auto
    thus ?thesis using n False by (intro exI [of _ "Suc fuel"]) simp
  qed
qed

lemma busy_out_progress: "makes_progress busy_out snd"
  by (auto simp: makes_progress_def busy_out_def split: prod.splits nat.splits)

theorem term_flush_ends_witness:
  "\<exists>fuel h' d'. term_flush fuel busy_out \<lparr>term_id = 0, term_buf = \<lparr>h_size = 2, allocated_size = 36,
        bufs = [\<lparr>buf_size = 4, tb_head = 0, tb_tail = 2, tb_buf = ''hi..''\<rparr>]\<rparr>\<rparr> (''>'', 7) = Inr (h', d')
     \<and> term_content (term_buf h') = [] \<and> fst d' = ''>hi''"
  using term_flush_ends [OF busy_out_log busy_out_progress, of
      "\<lparr>term_id = 0, term_buf = \<lparr>h_size = 2, allocated_size = 36,
        bufs = [\<lparr>buf_size = 4, tb_head = 0, tb_tail = 2, tb_buf = ''hi..''\<rparr>]\<rparr>\<rparr>" "(''>'', 7)"]
  by (simp add: term_inv_def term_content_def block_ok_def block_text_def sizeof_term_buffer_def)

section \<open>Formatted output is not terminated\<close>

text \<open>A vector of up to 64 characters: its container of 64 bytes has the characters and then whatever was
  in the memory before.\<close>

definition small_vec :: "u8 list \<Rightarrow> kvec \<Rightarrow> u8 list \<Rightarrow> bool" where
  "small_vec mem k bs =
     (T_size k = 1 \<and> kv_i k = of_nat (length bs) \<and> length bs \<le> 64
      \<and> (if bs = [] then container k = None \<and> container_bytes k = 0
         else container_bytes k = 64 \<and> container k = Some (bs @ drop (length bs) mem)))"

lemma least_container: "pow2_bytes_for 1 MIN_VEC_ITEMS = Inr 64"
proof -
  have "pow2_order 8 6 = Some 6" by (subst pow2_order.simps) (simp add: power_of2_def)
  thus ?thesis by (simp add: pow2_bytes_for_def MIN_VEC_ITEMS_def MIN_ORDER_def power_of2_def)
qed

lemma small_vec_push:
  assumes "small_vec mem k bs" "length bs < 64" "kmalloc 64 = Inr mem" "length mem = 64"
  shows "\<exists>k'. kvec_push kmalloc k [x] = Inr (of_nat (length bs), k') \<and> small_vec mem k' (bs @ [x])"
proof (cases "bs = []")
  case True
  thus ?thesis using assms least_container
    by (simp add: small_vec_def kvec_push_def upsize_vec_def Let_def kv_container_def bytes_read_def bytes_write_def)
next
  case False
  have l: "unat (of_nat (length bs) :: u64) = length bs" using assms(2) by (simp add: unat_of_nat)
  have "unat (of_nat (length bs) + 1 :: u64) = Suc (length bs)" using assms(2) l by (simp add: unat_word_ariths)
  hence "\<not> 64 < (of_nat (length bs) + 1 :: u64)" using assms(2) by (simp add: word_less_nat_alt)
  thus ?thesis using assms False l
    by (simp add: small_vec_def kvec_push_def Let_def kv_container_def bytes_read_def bytes_write_def add.commute)
qed

lemma putfmt_all_small:
  assumes "small_vec mem k bs" "length bs + length s \<le> 64" "kmalloc 64 = Inr mem" "length mem = 64"
  shows "\<exists>k'. putfmt_all kmalloc k s = Inr k' \<and> small_vec mem k' (bs @ map of_char s)"
  using assms(1,2)
proof (induction s arbitrary: k bs)
  case (Cons c s)
  have "length bs < 64" using Cons.prems(2) by simp
  then obtain k1 where "kvec_push kmalloc k [of_char c] = Inr (of_nat (length bs), k1)" "small_vec mem k1 (bs @ [of_char c])"
    using small_vec_push [where kmalloc = kmalloc, OF Cons.prems(1) _ assms(3,4)] by blast
  thus ?case using Cons.IH [of k1 "bs @ [of_char c]"] Cons.prems(2) by auto
qed auto

lemma char_of_of_char: "char_of (unat (of_char c :: u8)) = c"
proof -
  have "unat (of_nat (of_char c) :: u8) = of_char c"
    using nat_of_char_less_256 [of c] by (simp add: unat_of_nat)
  thus ?thesis unfolding of_nat_of_char by simp
qed

lemma term_outf_small:
  assumes "str_fmt_print str buf f ap = Inr s" "length s \<le> 64" "kmalloc 64 = Inr mem" "length mem = 64"
  shows "term_outf str kmalloc fresh out h d buf f ap =
    term_prints fresh out h d (if s = [] then [] else s @ map (\<lambda>b. char_of (unat b)) (drop (length s) mem))"
proof -
  obtain k where k: "kvec_new 1 1 = Inr k" "small_vec mem k []"
    by (simp add: kvec_new_def is_pow2_def is_aligned_def small_vec_def)
  obtain k' where k': "putfmt_all kmalloc k s = Inr k'" "small_vec mem k' (map of_char s)"
    using putfmt_all_small [where kmalloc = kmalloc, OF k(2) _ assms(3,4)] assms(2) by auto
  have "kvec_data k' = (if s = [] then [] else s @ map (\<lambda>b. char_of (unat b)) (drop (length s) mem))"
    using k'(2) by (auto simp: small_vec_def kvec_data_def char_of_of_char o_def map_idI)
  thus ?thesis using k k' assms(1) by (simp add: term_outf_def)
qed

text \<open>Without a character the vector has no container, whatever the allocator does.\<close>

lemma term_outf_empty:
  assumes "str_fmt_print str buf f ap = Inr []"
  shows "term_outf str kmalloc fresh out h d buf f ap = term_prints fresh out h d []"
  using assms by (simp add: term_outf_def kvec_new_def is_pow2_def is_aligned_def kvec_data_def)

lemma out_loop_unterminated: "NUL \<notin> set s \<Longrightarrow> out_loop out d s = Inl Fault \<or> (\<exists>c t d'. out_loop out d s = Inr (c # t, d') \<and> NUL \<notin> set (c # t))"
proof (induction s arbitrary: d)
  case (Cons c s)
  obtain r d' where "out d c = (r, d')" by fastforce
  thus ?case using Cons.IH [of d'] Cons.prems by auto
qed simp

lemma push_loop_unterminated:
  "term_good h \<Longrightarrow> NUL \<notin> set s \<Longrightarrow> push_loop fresh h s = Inl Fault"
proof (induction s arbitrary: h)
  case (Cons c s)
  obtain h1 where "term_put fresh h c = Inr h1" "term_good h1"
    using term_put_spec [OF Cons.prems(1)] by blast
  thus ?case using Cons.IH [of h1] Cons.prems by auto
qed simp

lemma term_prints_unterminated:
  assumes "term_good h" "NUL \<notin> set s"
  shows "term_prints fresh out h d s = Inl Fault"
proof (cases "h_size (term_buf h) = 0")
  case True
  thus ?thesis using out_loop_unterminated [OF assms(2), of out d] push_loop_unterminated [OF assms(1), of _ fresh]
    by (auto simp: term_prints_def buf_get_def simp del: push_loop.simps)
next
  case False
  thus ?thesis using push_loop_unterminated [OF assms] by (simp add: term_prints_def)
qed

text \<open>Property C40: the text of \<open>term_outf\<close> has no terminator in the vector: an empty text is read at the
  null pointer, and a text of 64 characters, which fills the container of 64 bytes that \<open>kmalloc\<close> gave, is read past its
  end.\<close>
theorem term_outf_unterminated:
  assumes "str_fmt_print str buf f ap = Inr s" "term_inv (term_buf h)"
    and "s = [] \<or> length s = 64 \<and> NUL \<notin> set s \<and> (\<exists>mem. kmalloc 64 = Inr mem \<and> length mem = 64)"
  shows "term_outf str kmalloc fresh out h d buf f ap = Inl Fault"
  using assms(3)
proof
  assume "s = []"
  thus ?thesis
    using term_outf_empty [of str buf f ap kmalloc fresh out h d] assms(1) term_prints_unterminated [OF assms(2), of "[]" fresh out d]
    by simp
next
  assume s: "length s = 64 \<and> NUL \<notin> set s \<and> (\<exists>mem. kmalloc 64 = Inr mem \<and> length mem = 64)"
  then obtain mem where m: "kmalloc 64 = Inr mem" "length mem = 64" by blast
  have "s \<noteq> []" using s by auto
  thus ?thesis using s m(2) term_outf_small [where kmalloc = kmalloc, OF assms(1) _ m, of fresh out h d] term_prints_unterminated [OF assms(2), of s fresh out d]
    by simp
qed

theorem term_outf_unterminated_witness:
  "term_outf (\<lambda>a. [NUL]) (kv_memory 0) (\<lambda>i. NUL) busy_out (fst (term_new 0)) ('''', 0) (replicate 1024 NUL)
     (replicate 64 CHR ''-'' @ [NUL]) [] = Inl Fault"
proof (rule term_outf_unterminated)
  have "fmt_loop str (replicate n CHR ''-'' @ [NUL]) os buf ap = Inr (os @ replicate n CHR ''-'')" for n str os buf ap
    by (induction n arbitrary: os) (simp_all add: replicate_app_Cons_same)
  thus "str_fmt_print (\<lambda>a. [NUL]) (replicate 1024 NUL) (replicate 64 CHR ''-'' @ [NUL]) [] =
      Inr (replicate 64 CHR ''-'')"
    by (simp add: str_fmt_print_def)
qed (simp_all add: term_new_def term_inv_new kv_memory_def)

end
