(* ===== verification/Dlinks.thy ===== *)
theory Dlinks
  imports Kprelude
begin

text \<open>
  Doubly linked lists on a store of nodes, the way the timers (\<open>kernel/time/timer.c\<close>) and the device
  table (\<open>kernel/devices/devices.c\<close>) keep theirs: a head pointer, and in every node the pointers to the
  previous and the next one.  Address 0 is the null pointer and an access to a node that is not in the
  store is a fault.  A loop that does not end is \<open>Diverge\<close>.  The lemmas relate the pointer operations to
  the list of nodes that the store represents.
\<close>

record 'a dnode =
  d_prev :: u64
  d_next :: u64
  d_data :: 'a

record 'a dlinks =
  d_head :: u64
  d_cells :: "u64 \<Rightarrow> 'a dnode option"

definition ends :: "'a res option \<Rightarrow> 'a res" where
  "ends r = (case r of None \<Rightarrow> Inl Diverge | Some r \<Rightarrow> r)"

definition d_at :: "u64 \<Rightarrow> 'a dlinks \<Rightarrow> 'a dnode res" where
  "d_at p t = (if p = 0 then Inl Fault else case d_cells t p of None \<Rightarrow> Inl Fault | Some n \<Rightarrow> Inr n)"

definition d_upd :: "u64 \<Rightarrow> ('a dnode \<Rightarrow> 'a dnode) \<Rightarrow> 'a dlinks \<Rightarrow> 'a dlinks res" where
  "d_upd p f t = rbind (d_at p t) (\<lambda>n. Inr (t\<lparr>d_cells := (d_cells t)(p \<mapsto> f n)\<rparr>))"

definition d_free :: "u64 \<Rightarrow> 'a dlinks \<Rightarrow> 'a dlinks res" where
  "d_free p t = rbind (d_at p t) (\<lambda>n. Inr (t\<lparr>d_cells := (d_cells t)(p := None)\<rparr>))"

text \<open>\<open>while (p && go(p)) p = p->next;\<close> and \<open>while (p->next) p = p->next;\<close>\<close>

partial_function (option) d_walk :: "('a dnode \<Rightarrow> bool) \<Rightarrow> 'a dlinks \<Rightarrow> u64 \<Rightarrow> u64 res option" where
  "d_walk go t p =
     (if p = 0 then Some (Inr 0)
      else case d_cells t p of
        None \<Rightarrow> Some (Inl Fault)
      | Some n \<Rightarrow> if go n then d_walk go t (d_next n) else Some (Inr p))"

partial_function (option) d_tail :: "'a dlinks \<Rightarrow> u64 \<Rightarrow> u64 res option" where
  "d_tail t p =
     (case d_cells t p of
        None \<Rightarrow> Some (Inl Fault)
      | Some n \<Rightarrow> if d_next n \<noteq> 0 then d_tail t (d_next n) else Some (Inr p))"

section \<open>The list in the store\<close>

text \<open>The nodes from \<open>p\<close> up to \<open>q\<close>, where \<open>pv\<close> is what the first of them has as its previous node.\<close>

fun dseg :: "(u64 \<Rightarrow> 'a dnode option) \<Rightarrow> u64 \<Rightarrow> u64 \<Rightarrow> (u64 \<times> 'a) list \<Rightarrow> u64 \<Rightarrow> bool" where
  "dseg h pv p [] q \<longleftrightarrow> p = q"
| "dseg h pv p ((a, x) # xs) q \<longleftrightarrow>
     p = a \<and> a \<noteq> 0 \<and> (\<exists>n. h a = Some \<lparr>d_prev = pv, d_next = n, d_data = x\<rparr> \<and> dseg h a n xs q)"

definition dlist :: "'a dlinks \<Rightarrow> (u64 \<times> 'a) list \<Rightarrow> bool" where
  "dlist t xs \<longleftrightarrow> dseg (d_cells t) 0 (d_head t) xs 0 \<and> distinct (map fst xs)"

definition last_addr :: "u64 \<Rightarrow> (u64 \<times> 'a) list \<Rightarrow> u64" where
  "last_addr pv xs = (if xs = [] then pv else fst (last xs))"

lemma last_addr_simps [simp]:
  "last_addr pv [] = pv" "last_addr pv (x # xs) = last_addr (fst x) xs"
  "last_addr pv (xs @ [y]) = fst y"
  by (simp_all add: last_addr_def)

lemma last_addr_append: "last_addr pv (xs @ ys) = last_addr (last_addr pv xs) ys"
  by (simp add: last_addr_def)

lemma last_addr_in: "last_addr pv xs \<in> insert pv (fst ` set xs)"
  by (auto simp: last_addr_def)

lemma dseg_append:
  "dseg h pv p (xs @ ys) q \<longleftrightarrow> (\<exists>m. dseg h pv p xs m \<and> dseg h (last_addr pv xs) m ys q)"
proof (induction xs arbitrary: pv p)
  case (Cons x xs)
  thus ?case by (cases x) auto
qed simp

lemma dseg_frame:
  "\<forall>a \<in> fst ` set xs. h' a = h a \<Longrightarrow> dseg h' pv p xs q \<longleftrightarrow> dseg h pv p xs q"
proof (induction xs arbitrary: pv p)
  case (Cons x xs)
  thus ?case by (cases x) auto
qed simp

lemma dseg_upd_other [simp]: "b \<notin> fst ` set xs \<Longrightarrow> dseg (h(b := y)) pv p xs q \<longleftrightarrow> dseg h pv p xs q"
  by (rule dseg_frame) auto

lemma dseg_nonnull: "dseg h pv p xs q \<Longrightarrow> 0 \<notin> fst ` set xs"
proof (induction xs arbitrary: pv p)
  case (Cons x xs)
  thus ?case by (cases x) auto
qed simp

lemma dseg_end: "dseg h pv p xs 0 \<Longrightarrow> p = (case xs of [] \<Rightarrow> 0 | x # _ \<Rightarrow> fst x)"
  by (cases xs) auto

lemma dseg_data: "dseg h pv p xs q \<Longrightarrow> (a, x) \<in> set xs \<Longrightarrow> \<exists>n. h a = Some n \<and> d_data n = x"
proof (induction xs arbitrary: pv p)
  case (Cons y xs)
  thus ?case by (cases y) auto
qed simp

text \<open>The walk stops at the first node that does not satisfy the condition.\<close>

lemma d_walk_list:
  assumes "dseg (d_cells t) pv p xs 0"
  shows "d_walk (\<lambda>n. P (d_data n)) t p = Some (Inr (case dropWhile (\<lambda>x. P (snd x)) xs of [] \<Rightarrow> 0 | x # _ \<Rightarrow> fst x))"
  using assms
proof (induction xs arbitrary: pv p)
  case Nil
  thus ?case by (simp add: d_walk.simps)
next
  case (Cons y xs)
  obtain a x where y: "y = (a, x)" by fastforce
  obtain n where n: "p = a" "a \<noteq> 0" "d_cells t a = Some \<lparr>d_prev = pv, d_next = n, d_data = x\<rparr>"
      "dseg (d_cells t) a n xs 0"
    using Cons.prems y by auto
  show ?case using n Cons.IH [OF n(4)] y by (simp add: d_walk.simps [of _ t a])
qed

lemma d_tail_list:
  assumes "dseg (d_cells t) pv p xs 0" "xs \<noteq> []"
  shows "d_tail t p = Some (Inr (fst (last xs)))"
  using assms
proof (induction xs arbitrary: pv p)
  case (Cons y xs)
  obtain a x where y: "y = (a, x)" by fastforce
  obtain n where n: "p = a" "a \<noteq> 0" "d_cells t a = Some \<lparr>d_prev = pv, d_next = n, d_data = x\<rparr>"
      "dseg (d_cells t) a n xs 0"
    using Cons.prems(1) y by auto
  show ?case
  proof (cases "xs = []")
    case True
    thus ?thesis using n y by (simp add: d_tail.simps [of t a])
  next
    case False
    have "n \<noteq> 0" using dseg_end [OF n(4)] dseg_nonnull [OF n(4)] False by (cases xs) auto
    thus ?thesis using n y Cons.IH [OF n(4) False] False by (simp add: d_tail.simps [of t a])
  qed
qed simp

lemma dlist_head: "dlist l xs \<Longrightarrow> d_head l = (case xs of [] \<Rightarrow> 0 | x # _ \<Rightarrow> fst x)"
  using dseg_end [of "d_cells l" 0 "d_head l" xs] by (auto simp: dlist_def)

lemma dlist_nonnull: "dlist l xs \<Longrightarrow> x \<in> set xs \<Longrightarrow> fst x \<noteq> 0"
  using dseg_nonnull by (fastforce simp: dlist_def)

lemma dlist_data: "dlist l xs \<Longrightarrow> (a, x) \<in> set xs \<Longrightarrow> \<exists>n. d_at a l = Inr n \<and> d_data n = x"
  using dlist_nonnull [of l xs "(a, x)"] dseg_data [of "d_cells l" 0 "d_head l" xs 0 a x]
  by (auto simp: dlist_def d_at_def)

section \<open>Linking and unlinking\<close>

text \<open>\<open>node->next = curr; node->prev = curr->prev; if (curr->prev) curr->prev->next = node; else head = node;
  curr->prev = node;\<close>\<close>

definition d_link_before :: "u64 \<Rightarrow> u64 \<Rightarrow> 'a dlinks \<Rightarrow> 'a dlinks res" where
  "d_link_before node cur t =
     rbind (d_upd node (\<lambda>n. n\<lparr>d_next := cur\<rparr>) t) (\<lambda>t.
     rbind (d_at cur t) (\<lambda>c.
     rbind (d_upd node (\<lambda>n. n\<lparr>d_prev := d_prev c\<rparr>) t) (\<lambda>t.
     rbind (if d_prev c \<noteq> 0 then d_upd (d_prev c) (\<lambda>n. n\<lparr>d_next := node\<rparr>) t else Inr (t\<lparr>d_head := node\<rparr>)) (\<lambda>t.
     d_upd cur (\<lambda>n. n\<lparr>d_prev := node\<rparr>) t))))"

text \<open>\<open>tail->next = node; node->prev = tail;\<close>\<close>

definition d_link_after :: "u64 \<Rightarrow> u64 \<Rightarrow> 'a dlinks \<Rightarrow> 'a dlinks res" where
  "d_link_after node tail t =
     rbind (d_upd tail (\<lambda>n. n\<lparr>d_next := node\<rparr>) t) (\<lambda>t.
     d_upd node (\<lambda>n. n\<lparr>d_prev := tail\<rparr>) t)"

text \<open>\<open>if (prev) prev->next = next; else head = next; if (next) next->prev = prev;\<close> for a node that was read
  before.\<close>

definition d_unlink :: "'a dnode \<Rightarrow> 'a dlinks \<Rightarrow> 'a dlinks res" where
  "d_unlink c t =
     rbind (if d_prev c \<noteq> 0 then d_upd (d_prev c) (\<lambda>n. n\<lparr>d_next := d_next c\<rparr>) t
            else Inr (t\<lparr>d_head := d_next c\<rparr>)) (\<lambda>t.
     if d_next c \<noteq> 0 then d_upd (d_next c) (\<lambda>n. n\<lparr>d_prev := d_prev c\<rparr>) t else Inr t)"

lemma dseg_last:
  "dseg h pv p (xs @ [(b, z)]) q \<longleftrightarrow>
     dseg h pv p xs b \<and> b \<noteq> 0 \<and> h b = Some \<lparr>d_prev = last_addr pv xs, d_next = q, d_data = z\<rparr>"
  by (auto simp: dseg_append)

text \<open>A new node, which is in the store and not in the list.\<close>

definition d_fresh :: "'a dlinks \<Rightarrow> (u64 \<times> 'a) list \<Rightarrow> u64 \<Rightarrow> 'a \<Rightarrow> bool" where
  "d_fresh t xs a x \<longleftrightarrow>
     a \<noteq> 0 \<and> a \<notin> fst ` set xs \<and> d_cells t a = Some \<lparr>d_prev = 0, d_next = 0, d_data = x\<rparr>"

text \<open>The cells that do not belong to a list.\<close>

definition d_outside :: "'a dlinks \<Rightarrow> 'a dlinks \<Rightarrow> (u64 \<times> 'a) list \<Rightarrow> bool" where
  "d_outside t t' xs \<longleftrightarrow> (\<forall>b. b \<notin> fst ` set xs \<longrightarrow> d_cells t' b = d_cells t b)"

lemma d_link_before_list:
  assumes "dlist t (xs @ (c, y) # ys)" "d_fresh t (xs @ (c, y) # ys) a x"
  shows "\<exists>t'. d_link_before a c t = Inr t' \<and> dlist t' (xs @ (a, x) # (c, y) # ys)
     \<and> d_outside t t' (xs @ (a, x) # (c, y) # ys)"
proof (cases xs rule: rev_cases)
  case Nil
  obtain n where n: "d_head t = c" "c \<noteq> 0" "d_cells t c = Some \<lparr>d_prev = 0, d_next = n, d_data = y\<rparr>"
      "dseg (d_cells t) c n ys 0" "c \<notin> fst ` set ys" "distinct (map fst ys)"
    using assms(1) Nil by (auto simp: dlist_def)
  have a: "a \<noteq> 0" "a \<noteq> c" "a \<notin> fst ` set ys" "d_cells t a = Some \<lparr>d_prev = 0, d_next = 0, d_data = x\<rparr>"
    using assms(2) Nil by (auto simp: d_fresh_def)
  show ?thesis using n a Nil
    by (simp add: d_link_before_def d_upd_def d_at_def dlist_def d_outside_def)
next
  case (snoc xs' bz)
  obtain b z where bz: "bz = (b, z)" by fastforce
  obtain n where n: "dseg (d_cells t) 0 (d_head t) xs' b" "b \<noteq> 0"
      "d_cells t b = Some \<lparr>d_prev = last_addr 0 xs', d_next = c, d_data = z\<rparr>" "c \<noteq> 0"
      "d_cells t c = Some \<lparr>d_prev = b, d_next = n, d_data = y\<rparr>" "dseg (d_cells t) c n ys 0"
    using assms(1) unfolding snoc bz dlist_def dseg_append by auto
  have d: "b \<notin> fst ` set xs'" "c \<notin> fst ` set xs'" "b \<notin> fst ` set ys" "c \<notin> fst ` set ys" "b \<noteq> c"
      "distinct (map fst (xs @ (c, y) # ys))"
    using assms(1) by (auto simp: snoc bz dlist_def)
  have a: "a \<noteq> 0" "a \<noteq> c" "a \<noteq> b" "a \<notin> fst ` set ys" "a \<notin> fst ` set xs'"
      "d_cells t a = Some \<lparr>d_prev = 0, d_next = 0, d_data = x\<rparr>"
    using assms(2) by (auto simp: d_fresh_def snoc bz)
  have "\<exists>t'. d_link_before a c t = Inr t' \<and> d_head t' = d_head t
     \<and> d_cells t' = (d_cells t)(a \<mapsto> \<lparr>d_prev = b, d_next = c, d_data = x\<rparr>,
         b \<mapsto> \<lparr>d_prev = last_addr 0 xs', d_next = a, d_data = z\<rparr>, c \<mapsto> \<lparr>d_prev = a, d_next = n, d_data = y\<rparr>)"
    using n a d by (simp add: d_link_before_def d_upd_def d_at_def)
  thus ?thesis using n a d by (auto simp: snoc bz dlist_def dseg_append d_outside_def)
qed

lemma d_link_after_list:
  assumes "dlist t xs" "d_fresh t xs a x" "xs \<noteq> []"
  shows "\<exists>t'. d_link_after a (fst (last xs)) t = Inr t' \<and> dlist t' (xs @ [(a, x)]) \<and> d_outside t t' (xs @ [(a, x)])"
proof -
  obtain xs' b z where xs: "xs = xs' @ [(b, z)]" using assms(3) by (metis rev_exhaust surj_pair)
  have n: "dseg (d_cells t) 0 (d_head t) xs' b" "b \<noteq> 0"
      "d_cells t b = Some \<lparr>d_prev = last_addr 0 xs', d_next = 0, d_data = z\<rparr>" "b \<notin> fst ` set xs'"
      "distinct (map fst xs)"
    using assms(1) by (auto simp: xs dlist_def dseg_last)
  have a: "a \<noteq> 0" "a \<noteq> b" "a \<notin> fst ` set xs'" "d_cells t a = Some \<lparr>d_prev = 0, d_next = 0, d_data = x\<rparr>"
    using assms(2) by (auto simp: d_fresh_def xs)
  show ?thesis using n a
    by (auto simp: xs d_link_after_def d_upd_def d_at_def dlist_def dseg_append d_outside_def)
qed

lemma d_unlink_list:
  assumes "dlist t (xs @ (c, y) # ys)" "d_cells t c = Some cn"
  shows "\<exists>t'. d_unlink cn t = Inr t' \<and> dlist t' (xs @ ys) \<and> d_cells t' c = Some cn
     \<and> d_outside t t' (xs @ ys)"
proof -
  obtain h where h: "dseg (d_cells t) 0 (d_head t) xs c" "c \<noteq> 0"
      "cn = \<lparr>d_prev = last_addr 0 xs, d_next = h, d_data = y\<rparr>" "dseg (d_cells t) c h ys 0"
    using assms by (auto simp: dlist_def dseg_append)
  have d: "c \<notin> fst ` set xs" "c \<notin> fst ` set ys" "distinct (map fst (xs @ ys))" "fst ` set xs \<inter> fst ` set ys = {}"
    using assms(1) by (auto simp: dlist_def)
  have "\<exists>t1. (if d_prev cn \<noteq> 0 then d_upd (d_prev cn) (\<lambda>n. n\<lparr>d_next := d_next cn\<rparr>) t
        else Inr (t\<lparr>d_head := d_next cn\<rparr>)) = Inr t1
     \<and> dseg (d_cells t1) 0 (d_head t1) xs h \<and> (\<forall>b. b \<notin> fst ` set xs \<longrightarrow> d_cells t1 b = d_cells t b)"
  proof (cases xs rule: rev_cases)
    case Nil
    thus ?thesis using h by simp
  next
    case (snoc xs' bz)
    obtain b z where bz: "bz = (b, z)" by fastforce
    thus ?thesis using h(1,3) d(3) by (auto simp: snoc dseg_last d_upd_def d_at_def)
  qed
  then obtain t1 where t1: "(if d_prev cn \<noteq> 0 then d_upd (d_prev cn) (\<lambda>n. n\<lparr>d_next := d_next cn\<rparr>) t
        else Inr (t\<lparr>d_head := d_next cn\<rparr>)) = Inr t1"
     "dseg (d_cells t1) 0 (d_head t1) xs h" "\<forall>b. b \<notin> fst ` set xs \<longrightarrow> d_cells t1 b = d_cells t b" by blast
  have "\<forall>a \<in> fst ` set ys. d_cells t1 a = d_cells t a" using d(4) t1(3) by blast
  hence ys1: "dseg (d_cells t1) c h ys 0" using h(4) dseg_frame [of ys "d_cells t1" "d_cells t" c h 0] by simp
  have "\<exists>t'. (if d_next cn \<noteq> 0 then d_upd (d_next cn) (\<lambda>n. n\<lparr>d_prev := d_prev cn\<rparr>) t1 else Inr t1) = Inr t'
     \<and> d_head t' = d_head t1 \<and> dseg (d_cells t') (last_addr 0 xs) h ys 0
     \<and> (\<forall>b. b \<notin> fst ` set ys \<longrightarrow> d_cells t' b = d_cells t1 b)"
  proof (cases ys)
    case Nil
    thus ?thesis using ys1 h(3) by simp
  next
    case (Cons e ys')
    obtain b z where e: "e = (b, z)" by fastforce
    thus ?thesis using ys1 h(3) d(3) by (auto simp: Cons d_upd_def d_at_def)
  qed
  then obtain t' where t': "d_unlink cn t = Inr t'" "d_head t' = d_head t1" "dseg (d_cells t') (last_addr 0 xs) h ys 0"
      "\<forall>b. b \<notin> fst ` set ys \<longrightarrow> d_cells t' b = d_cells t1 b"
    using t1(1) by (auto simp: d_unlink_def)
  moreover have "dseg (d_cells t') 0 (d_head t') xs h"
    using t1(2) t'(2,4) d(4) by (subst dseg_frame [of xs _ "d_cells t1"]) (auto simp: disjoint_iff)
  moreover have "d_outside t t' (xs @ ys)" using t'(4) t1(3) by (simp add: d_outside_def image_Un)
  ultimately show ?thesis
    using d assms(2) t1(3) by (auto simp: dlist_def dseg_append)
qed

section \<open>Changing the data of a node\<close>

lemma dlist_set_data:
  assumes "dlist t (xs @ (a, x) # ys)" "d_cells t a = Some n"
  shows "dlist (t\<lparr>d_cells := (d_cells t)(a \<mapsto> n\<lparr>d_data := y\<rparr>)\<rparr>) (xs @ (a, y) # ys)"
  using assms by (auto simp: dlist_def dseg_append)

lemma dlist_cell: "dlist t xs \<Longrightarrow> (a, x) \<in> set xs \<Longrightarrow> \<exists>n. d_cells t a = Some n \<and> d_data n = x"
  using dseg_data [of "d_cells t" 0 "d_head t" xs 0 a x] by (simp add: dlist_def)

lemma dlist_unique: "dlist t xs \<Longrightarrow> (a, x) \<in> set xs \<Longrightarrow> (a, y) \<in> set xs \<Longrightarrow> x = y"
  using eq_key_imp_eq_value [of xs a x y] by (simp add: dlist_def)

end
