(* ===== verification/Timer.thy ===== *)
theory Timer
  imports Dlinks
begin

text \<open>
  Clocks and timer events (\<open>kernel/time/clock.c\<close>, \<open>time.h\<close> and \<open>timer.c\<close>).  Time points are 64-bit words that
  are read as signed numbers of nanoseconds.  The devices are seen through what they answer: the ticks
  of the clock source are arguments, and the calls that program the timer are kept in order in
  \<open>notified\<close>, with the answer of the device as an argument.  The event list of a clock is a doubly linked
  list in the order of expiration.
\<close>

section \<open>Ticks and nanoseconds\<close>

definition NS_PER_S :: u64 where
  "NS_PER_S = 1000000000"

text \<open>A shift by the width or more is not defined in C.\<close>

function shift_loop :: "u64 \<Rightarrow> u64 \<Rightarrow> nat \<Rightarrow> nat res" where
  "shift_loop a d s =
     (if 64 \<le> s + 1 then Inl Fault
      else if push_bit (s + 1) a div d < 2 ^ 32 then shift_loop a d (s + 1)
      else Inr s)"
  by pat_completeness auto
termination by (relation "measure (\<lambda>(a, d, s). 64 - s)") auto

declare shift_loop.simps [simp del]

definition compute_mult_shift :: "u64 \<Rightarrow> (u32 \<times> nat \<times> u32 \<times> nat) res" where
  "compute_mult_shift freq_hz =
     (if freq_hz = 0 then Inl Fault
      else
        rbind (shift_loop NS_PER_S freq_hz 0) (\<lambda>s.
        rbind (shift_loop freq_hz NS_PER_S 0) (\<lambda>is.
        Inr (ucast (push_bit s NS_PER_S div freq_hz), s, ucast (push_bit is freq_hz div NS_PER_S), is))))"

text \<open>The product has 128 bits.\<close>

definition tick_to_ns :: "u64 \<Rightarrow> u32 \<Rightarrow> nat \<Rightarrow> u64" where
  "tick_to_ns ticks mult shift = of_nat (unat ticks * unat mult div 2 ^ shift)"

definition ns_to_tick :: "u64 \<Rightarrow> u32 \<Rightarrow> nat \<Rightarrow> u64" where
  "ns_to_tick ns inv_mult inv_shift = of_nat (unat ns * unat inv_mult div 2 ^ inv_shift)"

section \<open>Clocks\<close>

record timer_data =
  te_id :: u64
  te_expires :: u64
  te_event :: u64
  te_ctx :: u64

record clock =
  dev_timer :: bool
  c_mult :: u32
  c_shift :: nat
  c_inv_mult :: u32
  c_inv_shift :: nat
  c_offset :: u64
  c_mutable :: bool
  event_list :: "timer_data dlinks"
  notified :: "u64 list"

text \<open>The clock source gives its frequency.\<close>

definition setup_new_clock ::
  "(u64 \<Rightarrow> timer_data dnode option) \<Rightarrow> bool \<Rightarrow> u64 \<Rightarrow> u32 \<times> nat \<times> u32 \<times> nat \<Rightarrow> bool \<Rightarrow> clock" where
  "setup_new_clock h timer offset p mut =
     (case p of (mult, shift, inv_mult, inv_shift) \<Rightarrow>
      \<lparr>dev_timer = timer, c_mult = mult, c_shift = shift, c_inv_mult = inv_mult, c_inv_shift = inv_shift,
       c_offset = offset, c_mutable = mut, event_list = \<lparr>d_head = 0, d_cells = h\<rparr>, notified = []\<rparr>)"

definition clock_new ::
  "(u64 \<Rightarrow> timer_data dnode option) \<Rightarrow> u64 \<Rightarrow> u64 \<Rightarrow> bool \<Rightarrow> u64 \<Rightarrow> bool \<Rightarrow> clock res" where
  "clock_new h freq_hz ticks timer current_time mut =
     rbind (compute_mult_shift freq_hz) (\<lambda>p.
     case p of (mult, shift, _, _) \<Rightarrow>
     Inr (setup_new_clock h timer (current_time - tick_to_ns ticks mult shift) p mut))"

definition clock_new_offset ::
  "(u64 \<Rightarrow> timer_data dnode option) \<Rightarrow> u64 \<Rightarrow> bool \<Rightarrow> u64 \<Rightarrow> bool \<Rightarrow> clock res" where
  "clock_new_offset h freq_hz timer offset mut =
     rbind (compute_mult_shift freq_hz) (\<lambda>p. Inr (setup_new_clock h timer offset p mut))"

definition clocksource_now_ns :: "u64 \<Rightarrow> clock \<Rightarrow> u64" where
  "clocksource_now_ns ticks c = tick_to_ns ticks (c_mult c) (c_shift c)"

definition clock_now :: "u64 \<Rightarrow> clock \<Rightarrow> u64" where
  "clock_now ticks c = clocksource_now_ns ticks c + c_offset c"

definition clock_set_time :: "u64 \<Rightarrow> clock \<Rightarrow> u64 \<Rightarrow> clock res" where
  "clock_set_time ticks c current_time =
     rassert (c_mutable c) (Panic ''clock_set_time: cannot set time on an immutable clock'')
       (Inr (c\<lparr>c_offset := current_time - clocksource_now_ns ticks c\<rparr>))"

definition clock_time_until :: "u64 \<Rightarrow> clock \<Rightarrow> u64 \<Rightarrow> u64" where
  "clock_time_until ticks c tp = tp - clock_now ticks c"

section \<open>Timer events\<close>

definition head_tick :: "clock \<Rightarrow> timer_data \<Rightarrow> u64" where
  "head_tick c e = ns_to_tick (te_expires e - c_offset c) (c_inv_mult c) (c_inv_shift c)"

definition setup_head_timer :: "int \<Rightarrow> clock \<Rightarrow> clock res" where
  "setup_head_timer op_res c =
     rbind (d_at (d_head (event_list c)) (event_list c)) (\<lambda>n.
     rassert (0 \<le> op_res) (Panic ''op_res >= 0'')
       (Inr (c\<lparr>notified := notified c @ [head_tick c (d_data n)]\<rparr>)))"

definition insert_event :: "u64 \<Rightarrow> u64 \<Rightarrow> timer_data dlinks \<Rightarrow> timer_data dlinks res" where
  "insert_event node t l =
     (if d_head l \<noteq> 0 then
        rbind (ends (d_walk (\<lambda>n. sint (te_expires (d_data n)) \<le> sint t) l (d_head l))) (\<lambda>cur.
        if cur \<noteq> 0 then d_link_before node cur l
        else rbind (ends (d_tail l (d_head l))) (\<lambda>tail. d_link_after node tail l))
      else Inr (l\<lparr>d_head := node\<rparr>))"

text \<open>\<open>a\<close> is the address that \<open>kmalloc\<close> gives for the node, and \<open>uid\<close> the counter of the identifiers.\<close>

definition timer_create_event ::
  "int \<Rightarrow> u64 \<Rightarrow> u64 \<Rightarrow> clock \<Rightarrow> u64 \<Rightarrow> u64 \<Rightarrow> u64 \<Rightarrow> (u64 \<times> u64 \<times> clock) res" where
  "timer_create_event op_res a uid c cb ctx t =
     (if \<not> dev_timer c then Inl (Panic ''timer: provided clock does not support timer operations'')
      else
        let e = \<lparr>te_id = uid, te_expires = t, te_event = cb, te_ctx = ctx\<rparr>;
            l = event_list c in
        rbind (insert_event a t (l\<lparr>d_cells := (d_cells l)(a \<mapsto> \<lparr>d_prev = 0, d_next = 0, d_data = e\<rparr>)\<rparr>)) (\<lambda>l.
        let c = c\<lparr>event_list := l\<rparr> in
        rbind (if d_head l = a then setup_head_timer op_res c else Inr c) (\<lambda>c.
        Inr (uid, uid + 1, c))))"

definition timer_create_event_delta ::
  "int \<Rightarrow> u64 \<Rightarrow> u64 \<Rightarrow> u64 \<Rightarrow> clock \<Rightarrow> u64 \<Rightarrow> u64 \<Rightarrow> u64 \<Rightarrow> (u64 \<times> u64 \<times> clock) res" where
  "timer_create_event_delta op_res a uid ticks c cb ctx delta_ns =
     timer_create_event op_res a uid c cb ctx (clock_now ticks c + delta_ns)"

definition timer_cancel_event :: "int \<Rightarrow> u64 \<Rightarrow> clock \<Rightarrow> clock res" where
  "timer_cancel_event op_res event_id c =
     (let l = event_list c in
      rbind (ends (d_walk (\<lambda>n. te_id (d_data n) \<noteq> event_id) l (d_head l))) (\<lambda>cur.
      rbind (d_at cur l) (\<lambda>n.
      rbind (d_unlink n l) (\<lambda>l.
      rbind (d_free cur l) (\<lambda>l.
      let c = c\<lparr>event_list := l\<rparr> in
      if d_prev n = 0 \<and> d_head l \<noteq> 0 then setup_head_timer op_res c else Inr c)))))"

text \<open>The clock is read for every node that the loop looks at: \<open>ticks i\<close> is the \<open>i\<close>-th reading.\<close>

partial_function (option) expired_loop ::
  "(nat \<Rightarrow> u64) \<Rightarrow> clock \<Rightarrow> u64 \<Rightarrow> u64 list \<Rightarrow> (u64 list \<times> u64) res option" where
  "expired_loop ticks c p acc =
     (if p = 0 then Some (Inr (acc, 0))
      else case d_cells (event_list c) p of
        None \<Rightarrow> Some (Inl Fault)
      | Some n \<Rightarrow>
          if sint (te_expires (d_data n)) \<le> sint (clock_now (ticks (length acc)) c)
          then expired_loop ticks c (d_next n) (acc @ [p])
          else Some (Inr (acc, p)))"

fun event_calls :: "timer_data dlinks \<Rightarrow> u64 list \<Rightarrow> (u64 \<times> u64) list res" where
  "event_calls l [] = Inr []"
| "event_calls l (p # ps) =
     rbind (d_at p l) (\<lambda>n.
     rbind (event_calls l ps) (\<lambda>cs. Inr ((te_event (d_data n), te_ctx (d_data n)) # cs)))"

fun free_all :: "timer_data dlinks \<Rightarrow> u64 list \<Rightarrow> timer_data dlinks res" where
  "free_all l [] = Inr l"
| "free_all l (p # ps) = rbind (d_free p l) (\<lambda>l. free_all l ps)"

text \<open>The result has the calls of the events in order; the calls do not change the list here.\<close>

definition handle_events :: "int \<Rightarrow> (nat \<Rightarrow> u64) \<Rightarrow> clock \<Rightarrow> ((u64 \<times> u64) list \<times> clock) res" where
  "handle_events op_res ticks c =
     rbind (ends (expired_loop ticks c (d_head (event_list c)) [])) (\<lambda>(events, cur).
     let c = c\<lparr>event_list := (event_list c)\<lparr>d_head := cur\<rparr>\<rparr> in
     rbind (if cur \<noteq> 0 then
              rbind (d_upd cur (\<lambda>n. n\<lparr>d_prev := 0\<rparr>) (event_list c)) (\<lambda>l.
              setup_head_timer op_res (c\<lparr>event_list := l\<rparr>))
            else Inr c) (\<lambda>c.
     rbind (event_calls (event_list c) events) (\<lambda>calls.
     rbind (free_all (event_list c) events) (\<lambda>l.
     Inr (calls, c\<lparr>event_list := l\<rparr>)))))"

section \<open>The accuracy of the conversion\<close>

lemma unat_push_bit: "unat (a :: u64) * 2 ^ k < 2 ^ 64 \<Longrightarrow> unat (push_bit k a) = unat a * 2 ^ k"
  by (simp add: unsigned_push_bit_eq take_bit_nat_eq_self push_bit_eq_mult [where ?'a = nat])

text \<open>The loop finds the largest shift for which the factor has 32 bits.\<close>

lemma shift_loop_spec:
  assumes "0 < d" "s < k" "unat a * 2 ^ k < 2 ^ 64" "2 ^ 32 \<le> unat a * 2 ^ k div unat d" "k < 64"
    "unat a * 2 ^ s div unat d < 2 ^ 32"
  shows "\<exists>s'. shift_loop a d s = Inr s' \<and> s' < k \<and> unat a * 2 ^ s' div unat d < 2 ^ 32
     \<and> 2 ^ 32 \<le> unat a * 2 ^ (s' + 1) div unat d"
  using assms
proof (induction a d s rule: shift_loop.induct)
  case (1 a d s)
  have le: "unat a * 2 ^ (s + 1) \<le> unat a * 2 ^ k" using 1(3) by (intro mult_le_mono2 power_increasing) simp_all
  hence fits: "unat a * 2 ^ (s + 1) < 2 ^ 64" using 1(4) by (rule le_less_trans)
  have u: "unat (push_bit (s + 1) a div d) = unat a * 2 ^ (s + 1) div unat d"
    using unat_push_bit [OF fits] by (simp add: unat_div)
  have lt: "push_bit (s + 1) a div d < 2 ^ 32 \<longleftrightarrow> unat a * 2 ^ (s + 1) div unat d < 2 ^ 32"
    unfolding word_less_nat_alt u by simp
  show ?case
  proof (cases "unat a * 2 ^ (s + 1) div unat d < 2 ^ 32")
    case True
    hence "s + 1 \<noteq> k" using 1(5) by auto
    hence sk: "s + 1 < k" using 1(3) by simp
    hence s64: "\<not> 64 \<le> s + 1" using 1(6) by simp
    have "shift_loop a d s = shift_loop a d (s + 1)"
      using True lt s64 by (subst shift_loop.simps) simp
    thus ?thesis using 1(1) [OF s64 _ 1(2) sk 1(4,5,6) True] True lt by simp
  next
    case False
    have "\<not> 64 \<le> s + 1" using 1(3,6) by simp
    hence "shift_loop a d s = Inr s" using False lt by (subst shift_loop.simps) simp
    thus ?thesis using False 1(3,7) by simp
  qed
qed

lemma factor_top: "m = a * 2 ^ s div d \<Longrightarrow> 2 ^ 32 \<le> a * 2 ^ (s + 1) div d \<Longrightarrow> 0 < d \<Longrightarrow> (2 :: nat) ^ 31 \<le> m"
proof -
  assume m: "m = a * 2 ^ s div d" and top: "2 ^ 32 \<le> a * 2 ^ (s + 1) div d" and d: "0 < d"
  have "a * 2 ^ (s + 1) < 2 * ((m + 1) * d)"
    using d dividend_less_div_times [of d "a * 2 ^ s"] by (simp add: m algebra_simps)
  hence "a * 2 ^ (s + 1) div d < 2 * (m + 1)" using d by (simp add: div_less_iff_less_mult algebra_simps)
  thus ?thesis using top by simp
qed

lemma compute_mult_shift_ok:
  assumes "0 < freq" "freq \<le> 4000000000"
  shows "\<exists>m s im is. compute_mult_shift freq = Inr (m, s, im, is)
     \<and> unat m = 1000000000 * 2 ^ s div unat freq \<and> 2 ^ 31 \<le> unat m
     \<and> unat im = unat freq * 2 ^ is div 1000000000 \<and> 2 ^ 31 \<le> unat im"
proof -
  have f: "0 < unat freq" "unat freq \<le> 4000000000"
    using assms by (simp_all add: word_less_nat_alt word_le_nat_alt)
  have G: "unat NS_PER_S = 1000000000" "0 < NS_PER_S" by (simp_all add: NS_PER_S_def)
  have "4294967296 * unat freq \<le> 1000000000 * 2 ^ 34" using f by simp
  hence top: "2 ^ 32 \<le> unat NS_PER_S * 2 ^ 34 div unat freq"
    using f(1) by (simp add: G less_eq_div_iff_mult_less_eq mult.commute)
  obtain s where s: "shift_loop NS_PER_S freq 0 = Inr s" "unat NS_PER_S * 2 ^ s div unat freq < 2 ^ 32"
      "2 ^ 32 \<le> unat NS_PER_S * 2 ^ (s + 1) div unat freq" "s < 34"
    using shift_loop_spec [OF assms(1), of 0 34 NS_PER_S] top f div_le_dividend [of 1000000000 "unat freq"]
    by (auto simp: G)
  let ?P = "\<lambda>k. 4294967296 * 1000000000 \<le> unat freq * 2 ^ k"
  have ex: "?P 62" using f(1) by simp
  obtain k where k: "?P k" "k \<le> 62" "\<forall>j < k. \<not> ?P j"
    using ex Least_le [of ?P 62] LeastI [of ?P 62] not_less_Least [of _ ?P] by blast
  have k0: "0 < k" using k(1) f(2) by (cases k) auto
  have "unat freq * 2 ^ (k - 1) < 4294967296 * 1000000000" using k(3) k0 by (metis diff_less less_numeral_extra(1) not_less)
  hence fits: "unat freq * 2 ^ k < 2 ^ 64" using k0 by (cases k) simp_all
  have topi: "2 ^ 32 \<le> unat freq * 2 ^ k div unat NS_PER_S"
    using k(1) by (simp add: G less_eq_div_iff_mult_less_eq)
  have z: "unat freq * 2 ^ 0 div unat NS_PER_S < 2 ^ 32" using f(2) by (simp add: G div_less_iff_less_mult)
  have "k < 64" using k(2) by simp
  then obtain i where i: "shift_loop freq NS_PER_S 0 = Inr i" "unat freq * 2 ^ i div unat NS_PER_S < 2 ^ 32"
      "2 ^ 32 \<le> unat freq * 2 ^ (i + 1) div unat NS_PER_S" "i < k"
    using shift_loop_spec [OF G(2) k0 fits topi _ z] by blast
  have m: "unat (push_bit s NS_PER_S div freq) = 1000000000 * 2 ^ s div unat freq"
  proof -
    have "(2 :: nat) ^ s \<le> 2 ^ 33" using s(4) by (intro power_increasing) simp_all
    thus ?thesis using unat_push_bit [of NS_PER_S s] by (simp add: G unat_div)
  qed
  have im: "unat (push_bit i freq div NS_PER_S) = unat freq * 2 ^ i div 1000000000"
  proof -
    have "unat freq * 2 ^ i \<le> unat freq * 2 ^ k" using i(4) by (intro mult_le_mono2 power_increasing) simp_all
    hence "unat freq * 2 ^ i < 2 ^ 64" using fits by (rule le_less_trans)
    thus ?thesis using unat_push_bit [of freq i] by (simp add: G unat_div)
  qed
  have cast: "unat w < 2 ^ 32 \<Longrightarrow> unat (ucast w :: u32) = unat w" for w :: u64
    by (simp add: unsigned_ucast_eq take_bit_nat_eq_self)
  have "compute_mult_shift freq = Inr (ucast (push_bit s NS_PER_S div freq), s, ucast (push_bit i freq div NS_PER_S), i)"
    using assms(1) s(1) i(1) by (simp add: compute_mult_shift_def word_gt_0)
  moreover have "2 ^ 31 \<le> 1000000000 * 2 ^ s div unat freq" "2 ^ 31 \<le> unat freq * 2 ^ i div 1000000000"
    using factor_top [OF refl, of 1000000000 s "unat freq"] factor_top [OF refl, of "unat freq" i 1000000000] s(3) i(3) f(1)
    by (simp_all add: G)
  ultimately show ?thesis using s(2) i(2) cast m im by (auto simp: G)
qed

lemma scaled_error:
  assumes "0 < f" "m = g * 2 ^ s div f" "(2 :: nat) ^ 31 \<le> m" "n = t * m div 2 ^ s"
  shows "n * f \<le> t * g" "(t * g - n * f) * 2 ^ 31 < 2 ^ 31 * f + t * g"
proof -
  let ?S = "(2 :: nat) ^ s"
  have mf: "m * f \<le> g * ?S" "g * ?S < (m + 1) * f"
    using assms(1,2) dividend_less_div_times [of f "g * ?S"] by (simp_all add: add.commute)
  have nS: "n * ?S \<le> t * m" "t * m < (n + 1) * ?S"
    using assms(4) dividend_less_div_times [of ?S "t * m"] by (simp_all add: add.commute)
  have "n * f * ?S = n * ?S * f" by simp
  also have "\<dots> \<le> t * m * f" using nS(1) by (rule mult_le_mono1)
  also have "\<dots> = t * (m * f)" by simp
  also have "\<dots> \<le> t * (g * ?S)" using mf(1) by (rule mult_le_mono2)
  finally have leS: "n * f * ?S \<le> t * g * ?S" by (simp add: mult.assoc)
  thus le: "n * f \<le> t * g" by simp
  have "t * g * ?S \<le> t * ((m + 1) * f)" using mf(2) by (simp add: mult.assoc)
  also have "\<dots> = t * m * f + t * f" by (simp add: algebra_simps)
  also have "\<dots> < (n + 1) * ?S * f + t * f" using nS(2) assms(1) by simp
  finally have "t * g * ?S < ?S * f + t * f + n * f * ?S" by (simp add: algebra_simps)
  hence e: "(t * g - n * f) * ?S < ?S * f + t * f"
    unfolding diff_mult_distrib less_diff_conv2 [OF leS] .
  have "(t * g - n * f) * 2 ^ 31 * ?S < 2 ^ 31 * f * ?S + t * (2 ^ 31 * f)"
    using e by (simp add: algebra_simps)
  also have "\<dots> \<le> 2 ^ 31 * f * ?S + t * (m * f)" using assms(3) by (intro add_left_mono mult_le_mono2 mult_le_mono1)
  also have "\<dots> \<le> 2 ^ 31 * f * ?S + t * (g * ?S)" using mf(1) by (intro add_left_mono mult_le_mono2)
  finally have "(t * g - n * f) * 2 ^ 31 * ?S < (2 ^ 31 * f + t * g) * ?S" by (simp add: algebra_simps)
  thus "(t * g - n * f) * 2 ^ 31 < 2 ^ 31 * f + t * g" by simp
qed

lemma sint_of_small: "n < 2 ^ 63 \<Longrightarrow> sint (of_nat n :: u64) = int n"
  by (simp add: signed_of_nat signed_take_bit_int_eq_self)

text \<open>Property C35: for every frequency up to 4 GHz the factors of a clock are found, and the conversion of
  ticks to nanoseconds with them is never ahead of the exact value, and behind it by less than a
  nanosecond and a part in \<open>2 ^ 31\<close> of it.\<close>
theorem tick_to_ns_accurate:
  assumes "0 < freq" "freq \<le> 4000000000"
  shows "\<exists>m s im is. compute_mult_shift freq = Inr (m, s, im, is)
     \<and> (\<forall>ticks. unat ticks * unat m div 2 ^ s < 2 ^ 63 \<longrightarrow>
          (let ns = nat (sint (tick_to_ns ticks m s)) in
           0 \<le> sint (tick_to_ns ticks m s)
           \<and> ns * unat freq \<le> unat ticks * 1000000000
           \<and> (unat ticks * 1000000000 - ns * unat freq) * 2 ^ 31 < 2 ^ 31 * unat freq + unat ticks * 1000000000))"
proof -
  obtain m s im i where c: "compute_mult_shift freq = Inr (m, s, im, i)"
      "unat m = 1000000000 * 2 ^ s div unat freq" "2 ^ 31 \<le> unat m"
    using compute_mult_shift_ok [OF assms] by blast
  have f: "0 < unat freq" using assms(1) by (simp add: word_less_nat_alt)
  have "let ns = nat (sint (tick_to_ns ticks m s)) in
        0 \<le> sint (tick_to_ns ticks m s)
        \<and> ns * unat freq \<le> unat ticks * 1000000000
        \<and> (unat ticks * 1000000000 - ns * unat freq) * 2 ^ 31 < 2 ^ 31 * unat freq + unat ticks * 1000000000"
    if "unat ticks * unat m div 2 ^ s < 2 ^ 63" for ticks
    using scaled_error [OF f c(2,3) refl, of "unat ticks"] sint_of_small [OF that]
    by (simp add: tick_to_ns_def Let_def)
  thus ?thesis using c(1) by blast
qed

theorem tick_to_ns_accurate_witness:
  "\<exists>m s im is. compute_mult_shift 24000000 = Inr (m, s, im, is)
     \<and> (unat (24000000 :: u64) * unat m div 2 ^ s < 2 ^ 63 \<longrightarrow>
          nat (sint (tick_to_ns 24000000 m s)) * 24000000 \<le> 24000000 * 1000000000)"
proof -
  have "(0 :: u64) < 24000000" "(24000000 :: u64) \<le> 4000000000" by simp_all
  from tick_to_ns_accurate [OF this] show ?thesis by (fastforce simp: Let_def)
qed

section \<open>The event list\<close>

abbreviation expiry :: "u64 \<times> timer_data \<Rightarrow> int" where
  "expiry x \<equiv> sint (te_expires (snd x))"

definition timers :: "clock \<Rightarrow> (u64 \<times> timer_data) list \<Rightarrow> bool" where
  "timers c xs \<longleftrightarrow> dlist (event_list c) xs \<and> sorted (map expiry xs)"

text \<open>The new node goes behind all the nodes that do not expire later.\<close>

lemma insert_event_list:
  assumes "dlist l xs" "d_fresh l xs a e" "te_expires e = t"
  defines "P \<equiv> \<lambda>x. expiry x \<le> sint t"
  shows "\<exists>l'. insert_event a t l = Inr l' \<and> dlist l' (takeWhile P xs @ (a, e) # dropWhile P xs)
     \<and> d_outside l l' (takeWhile P xs @ (a, e) # dropWhile P xs)"
proof (cases xs)
  case Nil
  thus ?thesis using assms(1,2)
    by (auto simp: dlist_head insert_event_def dlist_def d_fresh_def d_outside_def)
next
  case (Cons x1 xs1)
  have head: "d_head l \<noteq> 0" using dlist_nonnull [OF assms(1), of x1] dlist_head [OF assms(1)] Cons by simp
  have walk: "d_walk (\<lambda>n. sint (te_expires (d_data n)) \<le> sint t) l (d_head l) =
      Some (Inr (case dropWhile P xs of [] \<Rightarrow> 0 | x # _ \<Rightarrow> fst x))"
    using d_walk_list [of l 0 "d_head l" xs "\<lambda>d. sint (te_expires d) \<le> sint t"] assms(1) by (simp add: dlist_def P_def)
  show ?thesis
  proof (cases "dropWhile P xs")
    case Nil
    hence "takeWhile P xs = xs" by (metis takeWhile_dropWhile_id append_Nil2)
    moreover have "d_tail l (d_head l) = Some (Inr (fst (last xs)))"
      using d_tail_list [of l 0 "d_head l" xs] assms(1) Cons by (simp add: dlist_def)
    ultimately show ?thesis
      using d_link_after_list [OF assms(1,2)] Cons head walk Nil by (simp add: insert_event_def ends_def)
  next
    case (Cons y ys)
    obtain c d where y: "y = (c, d)" by fastforce
    have xs: "xs = takeWhile P xs @ (c, d) # ys" using Cons y by (metis takeWhile_dropWhile_id)
    have "c \<noteq> 0" using dlist_nonnull [OF assms(1), of "(c, d)"] xs by (metis in_set_conv_decomp fst_conv)
    thus ?thesis
      using d_link_before_list [of l "takeWhile P xs" c d ys a e] assms(1,2) xs head walk Cons y
      by (simp add: insert_event_def ends_def)
  qed
qed

lemma sorted_insert:
  assumes "sorted (map expiry xs)"
  shows "sorted (map expiry (takeWhile (\<lambda>x. expiry x \<le> sint (te_expires e)) xs @ (a, e)
     # dropWhile (\<lambda>x. expiry x \<le> sint (te_expires e)) xs))"
  using assms
proof (induction xs)
  case (Cons x xs)
  show ?case
  proof (cases "expiry x \<le> sint (te_expires e)")
    case True
    thus ?thesis using Cons by (auto dest: set_takeWhileD set_dropWhileD)
  next
    case False
    thus ?thesis using Cons.prems by auto
  qed
qed simp

lemma d_fresh_new:
  assumes "a \<noteq> 0" "a \<notin> fst ` set xs"
  shows "d_fresh (l\<lparr>d_cells := (d_cells l)(a \<mapsto> \<lparr>d_prev = 0, d_next = 0, d_data = e\<rparr>)\<rparr>) xs a e"
    "dlist l xs \<Longrightarrow> dlist (l\<lparr>d_cells := (d_cells l)(a \<mapsto> \<lparr>d_prev = 0, d_next = 0, d_data = e\<rparr>)\<rparr>) xs"
  using assms by (simp_all add: d_fresh_def dlist_def)

lemma setup_head_timer_list:
  assumes "dlist (event_list c) ((a, e) # xs)" "0 \<le> op_res"
  shows "setup_head_timer op_res c = Inr (c\<lparr>notified := notified c @ [head_tick c e]\<rparr>)"
  using assms dlist_data [OF assms(1), of a e] dlist_head [OF assms(1)] by (auto simp: setup_head_timer_def)

text \<open>A clock with two events, for the concrete instances.\<close>

definition demo_event :: "u64 \<Rightarrow> u64 \<Rightarrow> timer_data" where
  "demo_event i t = \<lparr>te_id = i, te_expires = t, te_event = 100 + i, te_ctx = 0\<rparr>"

definition demo_clock :: clock where
  "demo_clock =
     \<lparr>dev_timer = True, c_mult = 1, c_shift = 0, c_inv_mult = 1, c_inv_shift = 0, c_offset = 0, c_mutable = False,
      event_list = \<lparr>d_head = 16, d_cells = (\<lambda>_. None)(16 \<mapsto> \<lparr>d_prev = 0, d_next = 32, d_data = demo_event 1 50\<rparr>,
        32 \<mapsto> \<lparr>d_prev = 16, d_next = 0, d_data = demo_event 2 90\<rparr>)\<rparr>, notified = []\<rparr>"

lemma demo_clock_timers: "timers demo_clock [(16, demo_event 1 50), (32, demo_event 2 90)]"
  by (simp add: timers_def dlist_def demo_clock_def demo_event_def)

text \<open>Property C36: a timer event goes into the list of its clock behind every event that does not expire
  later, so that the list stays in the order of expiration and of creation, and the timer device is
  programmed exactly when the new event is the first.\<close>
theorem timer_create_event_spec:
  assumes "timers c xs" "dev_timer c" "a \<noteq> 0" "a \<notin> fst ` set xs" "0 \<le> op_res"
    "e = \<lparr>te_id = uid, te_expires = t, te_event = cb, te_ctx = ctx\<rparr>"
    "ys = takeWhile (\<lambda>x. sint (te_expires (snd x)) \<le> sint t) xs"
    "zs = dropWhile (\<lambda>x. sint (te_expires (snd x)) \<le> sint t) xs"
  shows "\<exists>c'. timer_create_event op_res a uid c cb ctx t = Inr (uid, uid + 1, c') \<and> timers c' (ys @ (a, e) # zs)
     \<and> notified c' = notified c @ (if ys = [] then [head_tick c e] else [])"
proof -
  let ?l = "(event_list c)\<lparr>d_cells := (d_cells (event_list c))(a \<mapsto> \<lparr>d_prev = 0, d_next = 0, d_data = e\<rparr>)\<rparr>"
  have "dlist ?l xs" "d_fresh ?l xs a e"
    using d_fresh_new [OF assms(3,4)] assms(1) by (simp_all add: timers_def)
  then obtain l' where l': "insert_event a t ?l = Inr l'" "dlist l' (ys @ (a, e) # zs)"
    using insert_event_list [of ?l xs a e t] assms(6,7,8) by auto
  let ?c = "c\<lparr>event_list := l'\<rparr>"
  have srt: "sorted (map expiry (ys @ (a, e) # zs))"
    using sorted_insert [of xs e a] assms(1,6,7,8) by (simp add: timers_def)
  show ?thesis
  proof (cases "ys = []")
    case True
    hence "d_head l' = a" using dlist_head [OF l'(2)] by simp
    moreover have "setup_head_timer op_res ?c = Inr (?c\<lparr>notified := notified c @ [head_tick ?c e]\<rparr>)"
      using setup_head_timer_list [of ?c a e zs op_res] l'(2) True assms(5) by simp
    ultimately show ?thesis
      using True l' srt assms(2,6) by (simp add: timer_create_event_def timers_def head_tick_def Let_def)
  next
    case False
    then obtain y ys' where y: "ys = y # ys'" by (cases ys) auto
    hence "d_head l' = fst y" using dlist_head [OF l'(2)] by simp
    moreover have "fst y \<noteq> a" using l'(2) y by (auto simp: dlist_def)
    ultimately show ?thesis
      using False l' srt assms(2,6) by (simp add: timer_create_event_def timers_def Let_def)
  qed
qed

theorem timer_create_event_spec_witness:
  "\<exists>c'. timer_create_event 0 48 3 demo_clock 103 0 60 = Inr (3, 4, c')
     \<and> timers c' [(16, demo_event 1 50), (48, demo_event 3 60), (32, demo_event 2 90)] \<and> notified c' = notified demo_clock"
  using timer_create_event_spec [OF demo_clock_timers, of 48 0 "demo_event 3 60" 3 60 103 0 "[(16, demo_event 1 50)]"
      "[(32, demo_event 2 90)]"]
  by (simp add: demo_event_def) (simp add: demo_clock_def)

lemma d_free_list:
  assumes "dlist l xs" "p \<notin> fst ` set xs" "p \<noteq> 0" "d_cells l p = Some n"
  shows "d_free p l = Inr (l\<lparr>d_cells := (d_cells l)(p := None)\<rparr>)" "dlist (l\<lparr>d_cells := (d_cells l)(p := None)\<rparr>) xs"
  using assms by (simp_all add: d_free_def d_at_def dlist_def)

lemma timer_cancel_found:
  assumes "timers c (ys @ (a, e) # zs)" "0 \<le> op_res" "te_id e = event_id" "\<forall>y \<in> set ys. te_id (snd y) \<noteq> event_id"
  shows "\<exists>c'. timer_cancel_event op_res event_id c = Inr c' \<and> timers c' (ys @ zs) \<and> d_cells (event_list c') a = None
     \<and> notified c' = notified c @ (if ys = [] \<and> zs \<noteq> [] then [head_tick c (snd (hd zs))] else [])"
proof -
  let ?l = "event_list c" and ?xs = "ys @ (a, e) # zs"
  have dl: "dlist ?l ?xs" and srt: "sorted (map expiry ?xs)" using assms(1) by (auto simp: timers_def)
  have "dropWhile (\<lambda>x. te_id (snd x) \<noteq> event_id) ?xs = (a, e) # zs" using assms(3,4) by (simp add: dropWhile_append2)
  hence walk: "d_walk (\<lambda>n. te_id (d_data n) \<noteq> event_id) ?l (d_head ?l) = Some (Inr a)"
    using d_walk_list [of ?l 0 "d_head ?l" ?xs "\<lambda>d. te_id d \<noteq> event_id"] dl by (simp add: dlist_def)
  have a: "a \<noteq> 0" using dlist_nonnull [OF dl, of "(a, e)"] by simp
  obtain n where n: "d_cells ?l a = Some n" "d_at a ?l = Inr n"
    using dlist_data [OF dl, of a e] a by (auto simp: d_at_def split: option.splits)
  obtain l1 where l1: "d_unlink n ?l = Inr l1" "dlist l1 (ys @ zs)" "d_cells l1 a = Some n"
    using d_unlink_list [OF dl n(1)] by blast
  have an: "a \<notin> fst ` set (ys @ zs)" using dl by (auto simp: dlist_def)
  let ?l2 = "l1\<lparr>d_cells := (d_cells l1)(a := None)\<rparr>"
  note fr = d_free_list [OF l1(2) an a l1(3)]
  have prev: "d_prev n = 0 \<longleftrightarrow> ys = []"
  proof -
    have "d_prev n = last_addr 0 ys" using dl n(1) by (auto simp: dlist_def dseg_append)
    thus ?thesis using dlist_nonnull [OF dl] by (auto simp: last_addr_def)
  qed
  let ?c = "c\<lparr>event_list := ?l2\<rparr>"
  have srt': "sorted (map expiry (ys @ zs))" using srt by (simp add: sorted_append)
  show ?thesis
  proof (cases "ys = [] \<and> zs \<noteq> []")
    case True
    then obtain b f zs' where zs: "zs = (b, f) # zs'" by (cases zs) auto
    have "d_head ?l2 \<noteq> 0" using dlist_head [OF fr(2)] dlist_nonnull [OF fr(2), of "(b, f)"] True zs by simp
    moreover have "setup_head_timer op_res ?c = Inr (?c\<lparr>notified := notified c @ [head_tick ?c f]\<rparr>)"
      using setup_head_timer_list [of ?c b f zs' op_res] fr(2) True zs assms(2) by simp
    ultimately show ?thesis
      using walk a n l1 fr prev True srt' zs
      by (simp add: timer_cancel_event_def ends_def timers_def head_tick_def Let_def)
  next
    case False
    hence "\<not> (d_prev n = 0 \<and> d_head ?l2 \<noteq> 0)" using prev dlist_head [OF fr(2)] by auto
    thus ?thesis
      using walk a n l1 fr srt' False by (auto simp: timer_cancel_event_def ends_def timers_def Let_def)
  qed
qed

text \<open>Property C38: cancelling an event that is in the list takes it out and frees its node; one that is not,
  because it has expired or was cancelled before, makes the code read through the null pointer.\<close>
theorem timer_cancel_event_spec:
  assumes "timers c xs" "0 \<le> op_res" "dropWhile (\<lambda>x. te_id (snd x) \<noteq> event_id) xs = rest"
    "takeWhile (\<lambda>x. te_id (snd x) \<noteq> event_id) xs = ys"
  shows "case rest of
      [] \<Rightarrow> timer_cancel_event op_res event_id c = Inl Fault
    | (a, e) # zs \<Rightarrow>
        (\<exists>c'. timer_cancel_event op_res event_id c = Inr c' \<and> timers c' (ys @ zs) \<and> d_cells (event_list c') a = None
           \<and> notified c' = notified c @ (if ys = [] \<and> zs \<noteq> [] then [head_tick c (snd (hd zs))] else []))"
proof (cases rest)
  case Nil
  hence "d_walk (\<lambda>n. te_id (d_data n) \<noteq> event_id) (event_list c) (d_head (event_list c)) = Some (Inr 0)"
    using d_walk_list [of "event_list c" 0 "d_head (event_list c)" xs "\<lambda>d. te_id d \<noteq> event_id"] assms(1,3)
    by (simp add: timers_def dlist_def)
  thus ?thesis using Nil by (simp add: timer_cancel_event_def ends_def d_at_def Let_def)
next
  case (Cons y zs)
  obtain a e where y: "y = (a, e)" by fastforce
  have xs: "xs = ys @ (a, e) # zs" using assms(3,4) Cons y by (metis takeWhile_dropWhile_id)
  have "te_id e = event_id" using assms(3) Cons y hd_dropWhile [of "\<lambda>x. te_id (snd x) \<noteq> event_id" xs] by auto
  moreover have "\<forall>y \<in> set ys. te_id (snd y) \<noteq> event_id" using assms(4) set_takeWhileD by fastforce
  ultimately show ?thesis using timer_cancel_found [of c ys a e zs op_res event_id] assms(1,2) xs Cons y by simp
qed

theorem timer_cancel_event_spec_witness:
  "timer_cancel_event 0 7 demo_clock = Inl Fault
     \<and> (\<exists>c'. timer_cancel_event 0 1 demo_clock = Inr c' \<and> timers c' [(32, demo_event 2 90)])"
  using timer_cancel_event_spec [OF demo_clock_timers, of 0 7 "[]"]
    timer_cancel_event_spec [OF demo_clock_timers, of 0 1 "[(16, demo_event 1 50), (32, demo_event 2 90)]" "[]"]
  by (auto simp: demo_event_def)

abbreviation now_at :: "(nat \<Rightarrow> u64) \<Rightarrow> clock \<Rightarrow> nat \<Rightarrow> int" where
  "now_at ticks c i \<equiv> sint (clock_now (ticks i) c)"

lemma expired_loop_list:
  assumes "dseg (d_cells (event_list c)) pv p xs 0"
  shows "\<exists>es rs. xs = es @ rs
     \<and> expired_loop ticks c p acc = Some (Inr (acc @ map fst es, case rs of [] \<Rightarrow> 0 | x # _ \<Rightarrow> fst x))
     \<and> (\<forall>i < length es. expiry (es ! i) \<le> now_at ticks c (length acc + i))
     \<and> (rs \<noteq> [] \<longrightarrow> now_at ticks c (length acc + length es) < expiry (hd rs))"
  using assms
proof (induction xs arbitrary: pv p acc)
  case Nil
  thus ?case by (simp add: expired_loop.simps)
next
  case (Cons y xs)
  obtain a x where y: "y = (a, x)" by fastforce
  obtain n where n: "p = a" "a \<noteq> 0" "d_cells (event_list c) a = Some \<lparr>d_prev = pv, d_next = n, d_data = x\<rparr>"
      "dseg (d_cells (event_list c)) a n xs 0"
    using Cons.prems y by auto
  show ?case
  proof (cases "expiry y \<le> now_at ticks c (length acc)")
    case True
    obtain es rs where IH: "xs = es @ rs"
        "expired_loop ticks c n (acc @ [a]) = Some (Inr ((acc @ [a]) @ map fst es, case rs of [] \<Rightarrow> 0 | x # _ \<Rightarrow> fst x))"
        "\<forall>i < length es. expiry (es ! i) \<le> now_at ticks c (length (acc @ [a]) + i)"
        "rs \<noteq> [] \<longrightarrow> now_at ticks c (length (acc @ [a]) + length es) < expiry (hd rs)"
      using Cons.IH [OF n(4), of "acc @ [a]"] by blast
    have "expired_loop ticks c p acc = expired_loop ticks c n (acc @ [a])"
      using n True y by (simp add: expired_loop.simps [of ticks c a])
    moreover have "\<forall>i < length (y # es). expiry ((y # es) ! i) \<le> now_at ticks c (length acc + i)"
      using IH(3) True by (auto simp: nth_Cons split: nat.splits)
    ultimately show ?thesis using IH y by (intro exI [of _ "y # es"] exI [of _ rs]) simp
  next
    case False
    hence "expired_loop ticks c p acc = Some (Inr (acc, a))"
      using n y by (simp add: expired_loop.simps [of ticks c a])
    thus ?thesis using False y by (intro exI [of _ "[]"] exI [of _ "y # xs"]) simp
  qed
qed

lemma event_calls_list:
  assumes "\<forall>x \<in> set es. \<exists>n. d_at (fst x) l = Inr n \<and> d_data n = snd x"
  shows "event_calls l (map fst es) = Inr (map (\<lambda>x. (te_event (snd x), te_ctx (snd x))) es)"
  using assms by (induction es) auto

lemma free_all_list:
  assumes "dlist l rs" "distinct (map fst es)" "fst ` set es \<inter> fst ` set rs = {}"
    "\<forall>x \<in> set es. fst x \<noteq> 0 \<and> d_cells l (fst x) \<noteq> None"
  shows "\<exists>l'. free_all l (map fst es) = Inr l' \<and> dlist l' rs \<and> (\<forall>x \<in> set es. d_cells l' (fst x) = None)
     \<and> (\<forall>b. b \<notin> fst ` set es \<longrightarrow> d_cells l' b = d_cells l b)"
  using assms
proof (induction es arbitrary: l)
  case (Cons e es)
  obtain n where n: "d_cells l (fst e) = Some n" using Cons.prems(4) by auto
  have f: "fst e \<notin> fst ` set rs" "fst e \<noteq> 0" "fst e \<notin> fst ` set es" using Cons.prems by auto
  let ?l = "l\<lparr>d_cells := (d_cells l)(fst e := None)\<rparr>"
  note fr = d_free_list [OF Cons.prems(1) f(1,2) n]
  have "\<forall>x \<in> set es. fst x \<noteq> 0 \<and> d_cells ?l (fst x) \<noteq> None" using Cons.prems(4) f(3) by (auto simp: image_iff)
  then obtain l' where "free_all ?l (map fst es) = Inr l'" "dlist l' rs" "\<forall>x \<in> set es. d_cells l' (fst x) = None"
      "\<forall>b. b \<notin> fst ` set es \<longrightarrow> d_cells l' b = d_cells ?l b"
    using Cons.IH [OF fr(2)] Cons.prems(2,3) by auto
  thus ?case using fr(1) f(3) by (intro exI [of _ l']) auto
qed simp

text \<open>The list without its expired part.\<close>

lemma dlist_suffix:
  assumes "dlist l (es @ (a, e) # rs)"
  shows "\<exists>l'. d_upd a (\<lambda>n. n\<lparr>d_prev := 0\<rparr>) (l\<lparr>d_head := a\<rparr>) = Inr l' \<and> dlist l' ((a, e) # rs)
     \<and> (\<forall>b. b \<noteq> a \<longrightarrow> d_cells l' b = d_cells l b)"
proof -
  obtain n where n: "d_cells l a = Some \<lparr>d_prev = last_addr 0 es, d_next = n, d_data = e\<rparr>" "a \<noteq> 0"
      "dseg (d_cells l) a n rs 0" "a \<notin> fst ` set rs" "distinct (map fst rs)"
    using assms by (auto simp: dlist_def dseg_append)
  thus ?thesis by (simp add: d_upd_def d_at_def dlist_def)
qed

lemma cut_expired:
  assumes "dlist (event_list c) (es @ rs)" "0 \<le> op_res" "cur = (case rs of [] \<Rightarrow> 0 | x # _ \<Rightarrow> fst x)"
  shows "\<exists>c1. (if cur \<noteq> 0 then rbind (d_upd cur (\<lambda>n. n\<lparr>d_prev := 0\<rparr>) ((event_list c)\<lparr>d_head := cur\<rparr>)) (\<lambda>l.
        setup_head_timer op_res (c\<lparr>event_list := l\<rparr>)) else Inr (c\<lparr>event_list := (event_list c)\<lparr>d_head := cur\<rparr>\<rparr>)) = Inr c1
     \<and> dlist (event_list c1) rs \<and> (\<forall>x \<in> set es. d_cells (event_list c1) (fst x) = d_cells (event_list c) (fst x))
     \<and> notified c1 = notified c @ (if rs = [] then [] else [head_tick c (snd (hd rs))])"
proof (cases rs)
  case Nil
  thus ?thesis using assms(3) by (simp add: dlist_def)
next
  case (Cons y rs')
  obtain a e where y: "y = (a, e)" by fastforce
  obtain l' where l': "d_upd a (\<lambda>n. n\<lparr>d_prev := 0\<rparr>) ((event_list c)\<lparr>d_head := a\<rparr>) = Inr l'" "dlist l' ((a, e) # rs')"
      "\<forall>b. b \<noteq> a \<longrightarrow> d_cells l' b = d_cells (event_list c) b"
    using dlist_suffix [of "event_list c" es a e rs'] assms(1) Cons y by auto
  have "a \<noteq> 0" using dlist_nonnull [OF l'(2), of "(a, e)"] by simp
  moreover have "a \<notin> fst ` set es" using assms(1) Cons y by (auto simp: dlist_def)
  moreover have "setup_head_timer op_res (c\<lparr>event_list := l'\<rparr>) =
      Inr (c\<lparr>event_list := l', notified := notified c @ [head_tick c e]\<rparr>)"
    using setup_head_timer_list [of "c\<lparr>event_list := l'\<rparr>" a e rs' op_res] l'(2) assms(2) by (simp add: head_tick_def)
  ultimately show ?thesis using l' assms(3) Cons y by (force simp: image_iff)
qed

text \<open>Property C37: the handler of the timer interrupt calls the events that have expired, from the first on
  in the order of the list, each at a reading of the clock that is not before its expiration; it takes
  them out and frees them, leaves only events that expire after the last reading, and programs the
  device for the first of those.\<close>
theorem handle_events_spec:
  assumes "timers c xs" "0 \<le> op_res"
  shows "\<exists>es rs c'. xs = es @ rs
     \<and> handle_events op_res ticks c = Inr (map (\<lambda>x. (te_event (snd x), te_ctx (snd x))) es, c')
     \<and> (\<forall>i < length es. sint (te_expires (snd (es ! i))) \<le> sint (clock_now (ticks i) c))
     \<and> (\<forall>x \<in> set rs. sint (clock_now (ticks (length es)) c) < sint (te_expires (snd x)))
     \<and> timers c' rs \<and> (\<forall>x \<in> set es. d_cells (event_list c') (fst x) = None)
     \<and> notified c' = notified c @ (if rs = [] then [] else [head_tick c (snd (hd rs))])"
proof -
  let ?l = "event_list c"
  have dl: "dlist ?l xs" and srt: "sorted (map expiry xs)" using assms(1) by (auto simp: timers_def)
  obtain es rs where er: "xs = es @ rs"
      "expired_loop ticks c (d_head ?l) [] = Some (Inr (map fst es, case rs of [] \<Rightarrow> 0 | x # _ \<Rightarrow> fst x))"
      "\<forall>i < length es. expiry (es ! i) \<le> now_at ticks c i" "rs \<noteq> [] \<longrightarrow> now_at ticks c (length es) < expiry (hd rs)"
    using expired_loop_list [of c 0 "d_head ?l" xs ticks "[]"] dl by (auto simp: dlist_def)
  have later: "\<forall>x \<in> set rs. now_at ticks c (length es) < expiry x"
    using er(1,4) srt by (cases rs) (fastforce simp: sorted_append)+
  have dis: "distinct (map fst es)" "fst ` set es \<inter> fst ` set rs = {}" using dl er(1) by (auto simp: dlist_def)
  obtain cur where cur: "cur = (case rs of [] \<Rightarrow> 0 | x # _ \<Rightarrow> fst x)" by simp
  obtain c1 where c1: "(if cur \<noteq> 0 then rbind (d_upd cur (\<lambda>n. n\<lparr>d_prev := 0\<rparr>) (?l\<lparr>d_head := cur\<rparr>)) (\<lambda>l.
        setup_head_timer op_res (c\<lparr>event_list := l\<rparr>)) else Inr (c\<lparr>event_list := ?l\<lparr>d_head := cur\<rparr>\<rparr>)) = Inr c1"
      "dlist (event_list c1) rs" "\<forall>x \<in> set es. d_cells (event_list c1) (fst x) = d_cells ?l (fst x)"
      "notified c1 = notified c @ (if rs = [] then [] else [head_tick c (snd (hd rs))])"
    using cut_expired [of c es rs op_res cur] dl er(1) assms(2) cur by blast
  have "\<exists>n. d_at (fst x) (event_list c1) = Inr n \<and> d_data n = snd x" if "x \<in> set es" for x
    using dlist_data [OF dl, of "fst x" "snd x"] that er(1) c1(3) by (auto simp: d_at_def split: if_splits)
  hence nodes: "\<forall>x \<in> set es. \<exists>n. d_at (fst x) (event_list c1) = Inr n \<and> d_data n = snd x" by blast
  hence "\<forall>x \<in> set es. fst x \<noteq> 0 \<and> d_cells (event_list c1) (fst x) \<noteq> None"
    by (fastforce simp: d_at_def split: if_splits option.splits)
  then obtain l2 where l2: "free_all (event_list c1) (map fst es) = Inr l2" "dlist l2 rs" "\<forall>x \<in> set es. d_cells l2 (fst x) = None"
    using free_all_list [OF c1(2) dis] by blast
  have "handle_events op_res ticks c = Inr (map (\<lambda>x. (te_event (snd x), te_ctx (snd x))) es, c1\<lparr>event_list := l2\<rparr>)"
    using er(2) c1(1) event_calls_list [OF nodes] l2(1)
    by (cases "cur = 0") (auto simp: handle_events_def ends_def Let_def simp flip: cur)
  moreover have "timers (c1\<lparr>event_list := l2\<rparr>) rs" using l2(2) srt er(1) by (simp add: timers_def sorted_append)
  ultimately show ?thesis using er(1,3) later l2(3) c1(4) by (intro exI [of _ es] exI [of _ rs]) auto
qed

theorem handle_events_spec_witness:
  "\<exists>es rs c'. [(16, demo_event 1 50), (32, demo_event 2 90)] = es @ rs
     \<and> handle_events 0 (\<lambda>i. 60 + of_nat i) demo_clock = Inr (map (\<lambda>x. (te_event (snd x), te_ctx (snd x))) es, c')
     \<and> timers c' rs"
  using handle_events_spec [OF demo_clock_timers, of 0 "\<lambda>i. 60 + of_nat i"] by blast

end
