(* ===== verification/Devices.thy ===== *)
theory Devices
  imports Dlinks Fmt
begin

text \<open>
  The device table of \<open>kernel/devices/devices.c\<close>: for each class of devices a doubly linked list in the
  order of descending rank, the earlier registered first among equal ranks.  Names are strings in
  memory.
\<close>

datatype device_class =
  DEVICE_CLASS_GENERIC | DEVICE_CLASS_IRQ_CTRL | DEVICE_CLASS_SERIAL | DEVICE_CLASS_TIMER
  | DEVICE_CLASS_CLOCKSOURCE | DEVICE_CLASS_THERMAL_SENSOR

record device =
  dev_uid :: u64
  dev_name :: "string option"
  dev_rank :: u8
  dev_class :: device_class
  base_pa :: u64
  driver_state :: u64
  driver_ops :: u64

record device_table =
  device_lists :: "device_class \<Rightarrow> device dlinks"
  uid_counter :: u64

definition device_ctrl_init :: "device_table \<Rightarrow> device_table" where
  "device_ctrl_init t =
     t\<lparr>uid_counter := 1, device_lists := (\<lambda>k. (device_lists t k)\<lparr>d_head := 0\<rparr>)\<rparr>"

text \<open>The list operation under the lock: \<open>node\<close> is the address of the new node.\<close>

definition insert_device :: "u64 \<Rightarrow> u8 \<Rightarrow> device dlinks \<Rightarrow> device dlinks res" where
  "insert_device node rank l =
     (if d_head l = 0 then Inr (l\<lparr>d_head := node\<rparr>)
      else
        rbind (ends (d_walk (\<lambda>n. rank \<le> dev_rank (d_data n)) l (d_head l))) (\<lambda>cur.
        if cur = 0 then rbind (ends (d_tail l (d_head l))) (\<lambda>tail. d_link_after node tail l)
        else
          rbind (d_at cur l) (\<lambda>c.
          if d_prev c = 0 then
            rbind (d_upd node (\<lambda>n. n\<lparr>d_next := d_head l\<rparr>) l) (\<lambda>l.
            rbind (d_upd (d_head l) (\<lambda>n. n\<lparr>d_prev := node\<rparr>) l) (\<lambda>l.
            Inr (l\<lparr>d_head := node\<rparr>)))
          else
            rbind (d_upd (d_prev c) (\<lambda>n. n\<lparr>d_next := node\<rparr>) l) (\<lambda>l.
            rbind (d_upd node (\<lambda>n. n\<lparr>d_prev := d_prev c\<rparr>) l) (\<lambda>l.
            rbind (d_upd node (\<lambda>n. n\<lparr>d_next := cur\<rparr>) l) (\<lambda>l.
            d_upd cur (\<lambda>n. n\<lparr>d_prev := node\<rparr>) l))))))"

definition device_register ::
  "u64 \<Rightarrow> string option \<Rightarrow> device_class \<Rightarrow> u8 \<Rightarrow> u64 \<Rightarrow> u64 \<Rightarrow> device_table \<Rightarrow> device_table res" where
  "device_register a name class_id rank base ops t =
     (let dev = \<lparr>dev_uid = uid_counter t, dev_name = name, dev_rank = rank, dev_class = class_id, base_pa = base,
                 driver_state = 0, driver_ops = ops\<rparr>;
          l = device_lists t class_id;
          l = l\<lparr>d_cells := (d_cells l)(a \<mapsto> \<lparr>d_prev = 0, d_next = 0, d_data = dev\<rparr>)\<rparr> in
      rbind (insert_device a rank l) (\<lambda>l.
      Inr (t\<lparr>uid_counter := uid_counter t + 1, device_lists := (device_lists t)(class_id := l)\<rparr>)))"

text \<open>The pointer that is returned points to the device at the start of its node; 0 when there is none.\<close>

partial_function (option) device_search ::
  "(device \<Rightarrow> bool res) \<Rightarrow> device dlinks \<Rightarrow> u64 \<Rightarrow> u64 res option" where
  "device_search found l p =
     (if p = 0 then Some (Inr 0)
      else case d_cells l p of
        None \<Rightarrow> Some (Inl Fault)
      | Some n \<Rightarrow>
          (case found (d_data n) of
             Inl e \<Rightarrow> Some (Inl e)
           | Inr b \<Rightarrow> if b then Some (Inr p) else device_search found l (d_next n)))"

definition device_get_by_name :: "device_table \<Rightarrow> device_class \<Rightarrow> string option \<Rightarrow> u64 res" where
  "device_get_by_name t class_id name =
     (let l = device_lists t class_id in
      ends (device_search (\<lambda>d. streq (dev_name d) name) l (d_head l)))"

definition device_get_by_uid :: "device_table \<Rightarrow> device_class \<Rightarrow> u64 \<Rightarrow> u64 res" where
  "device_get_by_uid t class_id uid =
     (let l = device_lists t class_id in
      ends (device_search (\<lambda>d. Inr (dev_uid d = uid)) l (d_head l)))"

definition device_get_primary :: "device_table \<Rightarrow> device_class \<Rightarrow> u64" where
  "device_get_primary t class_id = d_head (device_lists t class_id)"

section \<open>The order of the list\<close>

definition devices :: "device_table \<Rightarrow> device_class \<Rightarrow> (u64 \<times> device) list \<Rightarrow> bool" where
  "devices t k xs \<longleftrightarrow> dlist (device_lists t k) xs \<and> sorted_wrt (\<lambda>x y. dev_rank (snd y) \<le> dev_rank (snd x)) xs"

text \<open>The two branches of the code do what the common link operation does.\<close>

lemma link_device:
  assumes "dlist l (xs @ (c, y) # ys)" "d_fresh l (xs @ (c, y) # ys) a x"
  shows "rbind (d_at c l) (\<lambda>cn.
      if d_prev cn = 0 then
        rbind (d_upd a (\<lambda>n. n\<lparr>d_next := d_head l\<rparr>) l) (\<lambda>l.
        rbind (d_upd (d_head l) (\<lambda>n. n\<lparr>d_prev := a\<rparr>) l) (\<lambda>l.
        Inr (l\<lparr>d_head := a\<rparr>)))
      else
        rbind (d_upd (d_prev cn) (\<lambda>n. n\<lparr>d_next := a\<rparr>) l) (\<lambda>l.
        rbind (d_upd a (\<lambda>n. n\<lparr>d_prev := d_prev cn\<rparr>) l) (\<lambda>l.
        rbind (d_upd a (\<lambda>n. n\<lparr>d_next := c\<rparr>) l) (\<lambda>l.
        d_upd c (\<lambda>n. n\<lparr>d_prev := a\<rparr>) l)))) = d_link_before a c l"
proof (cases xs rule: rev_cases)
  case Nil
  obtain n where "d_head l = c" "c \<noteq> 0" "d_cells l c = Some \<lparr>d_prev = 0, d_next = n, d_data = y\<rparr>"
    using assms(1) Nil by (auto simp: dlist_def)
  moreover have "a \<noteq> 0" "a \<noteq> c" "d_cells l a = Some \<lparr>d_prev = 0, d_next = 0, d_data = x\<rparr>"
    using assms(2) by (auto simp: d_fresh_def)
  ultimately show ?thesis by (simp add: d_link_before_def d_upd_def d_at_def)
next
  case (snoc xs' bz)
  obtain b z where bz: "bz = (b, z)" by fastforce
  obtain n where "b \<noteq> 0" "d_cells l b = Some \<lparr>d_prev = last_addr 0 xs', d_next = c, d_data = z\<rparr>" "c \<noteq> 0"
      "d_cells l c = Some \<lparr>d_prev = b, d_next = n, d_data = y\<rparr>"
    using assms(1) unfolding snoc bz dlist_def dseg_append by auto
  moreover have "b \<noteq> c" using assms(1) by (auto simp: snoc bz dlist_def)
  moreover have "a \<noteq> 0" "a \<noteq> c" "a \<noteq> b" "d_cells l a = Some \<lparr>d_prev = 0, d_next = 0, d_data = x\<rparr>"
    using assms(2) by (auto simp: d_fresh_def snoc bz)
  ultimately show ?thesis by (simp add: d_link_before_def d_upd_def d_at_def fun_upd_twist [of a b])
qed

lemma insert_device_list:
  assumes "dlist l xs" "d_fresh l xs a e" "P = (\<lambda>x. rank \<le> dev_rank (snd x))"
  shows "\<exists>l'. insert_device a rank l = Inr l' \<and> dlist l' (takeWhile P xs @ (a, e) # dropWhile P xs)"
proof (cases xs)
  case Nil
  thus ?thesis using assms(1,2) by (auto simp: dlist_head insert_device_def dlist_def d_fresh_def)
next
  case (Cons x1 xs1)
  have head: "d_head l \<noteq> 0" using dlist_nonnull [OF assms(1), of x1] dlist_head [OF assms(1)] Cons by simp
  have walk: "d_walk (\<lambda>n. rank \<le> dev_rank (d_data n)) l (d_head l) =
      Some (Inr (case dropWhile P xs of [] \<Rightarrow> 0 | x # _ \<Rightarrow> fst x))"
    using d_walk_list [of l 0 "d_head l" xs "\<lambda>d. rank \<le> dev_rank d"] assms(1,3) by (simp add: dlist_def)
  show ?thesis
  proof (cases "dropWhile P xs")
    case Nil
    hence "takeWhile P xs = xs" by (metis takeWhile_dropWhile_id append_Nil2)
    moreover have "d_tail l (d_head l) = Some (Inr (fst (last xs)))"
      using d_tail_list [of l 0 "d_head l" xs] assms(1) Cons by (simp add: dlist_def)
    ultimately show ?thesis
      using d_link_after_list [OF assms(1,2)] Cons head walk Nil by (auto simp: insert_device_def ends_def)
  next
    case (Cons y ys)
    obtain c d where y: "y = (c, d)" by fastforce
    have xs: "xs = takeWhile P xs @ (c, d) # ys" using Cons y by (metis takeWhile_dropWhile_id)
    have c: "c \<noteq> 0" using dlist_nonnull [OF assms(1), of "(c, d)"] xs by (metis in_set_conv_decomp fst_conv)
    have "dlist l (takeWhile P xs @ (c, d) # ys)" "d_fresh l (takeWhile P xs @ (c, d) # ys) a e"
      using assms(1,2) xs by simp_all
    note lb = link_device [OF this]
    have "insert_device a rank l = d_link_before a c l"
      using head walk Cons y c lb by (simp add: insert_device_def ends_def)
    thus ?thesis
      using d_link_before_list [of l "takeWhile P xs" c d ys a e] assms(1,2) xs Cons y by auto
  qed
qed

lemma sorted_insert_device:
  assumes "sorted_wrt (\<lambda>x y. dev_rank (snd y) \<le> dev_rank (snd x)) xs" "P = (\<lambda>x. dev_rank e \<le> dev_rank (snd x))"
  shows "sorted_wrt (\<lambda>x y. dev_rank (snd y) \<le> dev_rank (snd x)) (takeWhile P xs @ (a, e) # dropWhile P xs)"
  using assms(1)
proof (induction xs)
  case (Cons x xs)
  show ?case
  proof (cases "P x")
    case True
    thus ?thesis using Cons by (auto simp: assms(2) dest: set_takeWhileD set_dropWhileD)
  next
    case False
    hence "dev_rank (snd x) \<le> dev_rank e" by (simp add: assms(2))
    thus ?thesis using Cons.prems False by auto
  qed
qed simp

lemma device_register_list:
  assumes "devices t k xs" "a \<noteq> 0" "a \<notin> fst ` set xs"
    "e = \<lparr>dev_uid = uid_counter t, dev_name = name, dev_rank = rank, dev_class = k, base_pa = base,
        driver_state = 0, driver_ops = ops\<rparr>"
    "P = (\<lambda>x. rank \<le> dev_rank (snd x))"
  shows "\<exists>t'. device_register a name k rank base ops t = Inr t' \<and> devices t' k (takeWhile P xs @ (a, e) # dropWhile P xs)
     \<and> uid_counter t' = uid_counter t + 1 \<and> (\<forall>k'. k' \<noteq> k \<longrightarrow> device_lists t' k' = device_lists t k')"
proof -
  let ?l = "(device_lists t k)\<lparr>d_cells := (d_cells (device_lists t k))(a \<mapsto> \<lparr>d_prev = 0, d_next = 0, d_data = e\<rparr>)\<rparr>"
  have "dlist ?l xs" "d_fresh ?l xs a e"
    using assms(1-3) by (simp_all add: devices_def dlist_def d_fresh_def)
  then obtain l' where l': "insert_device a rank ?l = Inr l'" "dlist l' (takeWhile P xs @ (a, e) # dropWhile P xs)"
    using insert_device_list [OF _ _ assms(5)] by blast
  moreover have "sorted_wrt (\<lambda>x y. dev_rank (snd y) \<le> dev_rank (snd x)) (takeWhile P xs @ (a, e) # dropWhile P xs)"
    using sorted_insert_device [of xs P e a] assms(1,4,5) by (simp add: devices_def)
  ultimately show ?thesis using assms(4) by (auto simp: device_register_def devices_def Let_def)
qed

lemma device_search_list:
  assumes "dseg (d_cells l) pv p xs 0" "\<forall>x \<in> set xs. found (snd x) = Inr (P x)"
  shows "device_search found l p = Some (Inr (case dropWhile (\<lambda>x. \<not> P x) xs of [] \<Rightarrow> 0 | x # _ \<Rightarrow> fst x))"
  using assms
proof (induction xs arbitrary: pv p)
  case Nil
  thus ?case by (simp add: device_search.simps)
next
  case (Cons y xs)
  obtain a x where y: "y = (a, x)" by fastforce
  obtain n where n: "p = a" "a \<noteq> 0" "d_cells l a = Some \<lparr>d_prev = pv, d_next = n, d_data = x\<rparr>"
      "dseg (d_cells l) a n xs 0"
    using Cons.prems(1) y by auto
  show ?case using n Cons.IH [OF n(4)] Cons.prems(2) y by (simp add: device_search.simps [of _ l a])
qed

text \<open>Registrations of devices of any classes, each with the address of its node.\<close>

record device_request =
  req_node :: u64
  req_name :: "string option"
  req_class :: device_class
  req_rank :: u8
  req_base :: u64
  req_ops :: u64

fun register_all :: "device_request list \<Rightarrow> device_table \<Rightarrow> device_table res" where
  "register_all [] t = Inr t"
| "register_all (d # ds) t =
     rbind (device_register (req_node d) (req_name d) (req_class d) (req_rank d) (req_base d) (req_ops d) t)
       (\<lambda>t. register_all ds t)"

text \<open>The device that a request makes, and the ones of a sequence of requests, numbered in their order.\<close>

definition request_device :: "u64 \<Rightarrow> device_request \<Rightarrow> device" where
  "request_device uid d = \<lparr>dev_uid = uid, dev_name = req_name d, dev_rank = req_rank d, dev_class = req_class d,
     base_pa = req_base d, driver_state = 0, driver_ops = req_ops d\<rparr>"

fun with_uids :: "u64 \<Rightarrow> device_request list \<Rightarrow> (u64 \<times> device) list" where
  "with_uids u [] = []"
| "with_uids u (d # ds) = (req_node d, request_device u d) # with_uids (u + 1) ds"

lemma fst_with_uids [simp]: "map fst (with_uids u ds) = map req_node ds"
  by (induction ds arbitrary: u) auto

lemma with_uids_split:
  "with_uids u ds = pre @ e # post \<Longrightarrow>
    \<exists>p d q. ds = p @ d # q \<and> pre = with_uids u p \<and> e = (req_node d, request_device (u + of_nat (length p)) d)
      \<and> post = with_uids (u + of_nat (length p) + 1) q"
proof (induction pre arbitrary: u ds)
  case Nil
  then obtain d q where "ds = d # q" by (cases ds) auto
  thus ?case using Nil by (intro exI [of _ "[]"]) auto
next
  case (Cons x pre)
  then obtain d ds' where ds: "ds = d # ds'" "x = (req_node d, request_device u d)" "with_uids (u + 1) ds' = pre @ e # post"
    by (cases ds) auto
  from Cons.IH [OF ds(3)] obtain p d' q where "ds' = p @ d' # q" "pre = with_uids (u + 1) p"
      "e = (req_node d', request_device (u + 1 + of_nat (length p)) d')" "post = with_uids (u + 1 + of_nat (length p) + 1) q"
    by blast
  thus ?case using ds(1,2) by (intro exI [of _ "d # p"]) (simp add: ac_simps)
qed

lemma with_uids_ball:
  "(\<forall>x \<in> set (with_uids u ds). dev_class (snd x) = k \<longrightarrow> Q (dev_rank (snd x))) \<longleftrightarrow>
   (\<forall>d \<in> set ds. req_class d = k \<longrightarrow> Q (req_rank d))"
  by (induction ds arbitrary: u) (simp_all add: request_device_def)

text \<open>The devices of a rank stay in the order of their registration.\<close>

lemma filter_rank_insert:
  assumes "sorted_wrt (\<lambda>x y. dev_rank (snd y) \<le> dev_rank (snd x)) xs" "P = (\<lambda>x. dev_rank e \<le> dev_rank (snd x))"
  shows "filter (\<lambda>x. dev_rank (snd x) = r) (takeWhile P xs @ (a, e) # dropWhile P xs) =
    filter (\<lambda>x. dev_rank (snd x) = r) xs @ (if dev_rank e = r then [(a, e)] else [])"
  using assms(1)
proof (induction xs)
  case (Cons x xs)
  show ?case
  proof (cases "P x")
    case True
    thus ?thesis using Cons by simp
  next
    case False
    hence "dev_rank (snd x) < dev_rank e" by (simp add: assms(2))
    moreover have "\<forall>y \<in> set xs. dev_rank (snd y) \<le> dev_rank (snd x)" using Cons.prems by simp
    ultimately have "\<forall>y \<in> set (x # xs). dev_rank (snd y) < dev_rank e" by auto
    hence "dev_rank e = r \<Longrightarrow> filter (\<lambda>x. dev_rank (snd x) = r) (x # xs) = []"
      unfolding filter_empty_conv by auto
    thus ?thesis using False by simp
  qed
qed simp

lemma distinct_insert:
  assumes "distinct (map fst xs)" "a \<notin> fst ` set xs"
  shows "distinct (map fst (takeWhile P xs @ (a, e) # dropWhile P xs))"
    "set (takeWhile P xs @ (a, e) # dropWhile P xs) = insert (a, e) (set xs)"
proof -
  have "map fst xs = map fst (takeWhile P xs) @ map fst (dropWhile P xs)" "set xs = set (takeWhile P xs) \<union> set (dropWhile P xs)"
    by (simp_all flip: map_append set_append)
  thus "distinct (map fst (takeWhile P xs @ (a, e) # dropWhile P xs))"
      "set (takeWhile P xs @ (a, e) # dropWhile P xs) = insert (a, e) (set xs)"
    using assms by auto
qed

text \<open>The list of a class after a sequence of registrations: of each rank, the devices that it had and then the new ones of
  the class, in their order.\<close>

definition extends :: "device_class \<Rightarrow> (u64 \<times> device) list \<Rightarrow> (u64 \<times> device) list \<Rightarrow> (u64 \<times> device) list \<Rightarrow> bool" where
  "extends k xs es ys \<longleftrightarrow> (\<forall>r. filter (\<lambda>x. dev_rank (snd x) = r) ys =
     filter (\<lambda>x. dev_rank (snd x) = r) xs @ filter (\<lambda>x. dev_class (snd x) = k \<and> dev_rank (snd x) = r) es)"

lemma register_one:
  assumes "\<And>k. devices t k (xs k)" "req_node d \<noteq> 0" "\<And>k. req_node d \<notin> fst ` set (xs k)"
  shows "\<exists>t' ys. device_register (req_node d) (req_name d) (req_class d) (req_rank d) (req_base d) (req_ops d) t = Inr t'
     \<and> uid_counter t' = uid_counter t + 1 \<and> (\<forall>k. devices t' k (ys k)
       \<and> extends k (xs k) [(req_node d, request_device (uid_counter t) d)] (ys k)
       \<and> fst ` set (ys k) \<subseteq> insert (req_node d) (fst ` set (xs k)))"
proof -
  let ?k = "req_class d" and ?e = "request_device (uid_counter t) d" and ?a = "req_node d"
  let ?P = "\<lambda>x :: u64 \<times> device. req_rank d \<le> dev_rank (snd x)"
  let ?n = "takeWhile ?P (xs ?k) @ (?a, ?e) # dropWhile ?P (xs ?k)"
  obtain t1 where t1: "device_register ?a (req_name d) ?k (req_rank d) (req_base d) (req_ops d) t = Inr t1" "devices t1 ?k ?n"
      "uid_counter t1 = uid_counter t + 1" "\<forall>k'. k' \<noteq> ?k \<longrightarrow> device_lists t1 k' = device_lists t k'"
    using device_register_list [OF assms(1) [of ?k] assms(2) assms(3) [of ?k] request_device_def refl] by blast
  have "distinct (map fst (xs ?k))" using assms(1) [of ?k] by (simp add: devices_def dlist_def)
  hence s: "set ?n = insert (?a, ?e) (set (xs ?k))" by (rule distinct_insert(2) [OF _ assms(3)])
  have P: "?P = (\<lambda>x. dev_rank ?e \<le> dev_rank (snd x))" and e: "dev_class ?e = ?k" by (simp_all add: request_device_def)
  have "sorted_wrt (\<lambda>x y. dev_rank (snd y) \<le> dev_rank (snd x)) (xs ?k)" using assms(1) [of ?k] by (simp add: devices_def)
  hence x: "extends ?k (xs ?k) [(?a, ?e)] ?n" unfolding extends_def by (simp only: filter_rank_insert [OF _ P]) (simp add: e)
  have "devices t1 k ((xs(?k := ?n)) k) \<and> extends k (xs k) [(?a, ?e)] ((xs(?k := ?n)) k)
       \<and> fst ` set ((xs(?k := ?n)) k) \<subseteq> insert ?a (fst ` set (xs k))" for k
  proof (cases "k = ?k")
    case True
    thus ?thesis using t1(2) x s by simp
  next
    case False
    hence "extends k (xs k) [(?a, ?e)] (xs k)" using e by (simp add: extends_def)
    moreover have "devices t1 k (xs k)" using t1(4) assms(1) [of k] False by (simp add: devices_def)
    ultimately show ?thesis using False by auto
  qed
  thus ?thesis using t1(1,3) by (intro exI [of _ t1] exI [of _ "xs(?k := ?n)"]) simp
qed

lemma extends_trans: "extends k xs [e] ys \<Longrightarrow> extends k ys es zs \<Longrightarrow> extends k xs (e # es) zs"
  by (auto simp: extends_def)

lemma disjoint_sub: "A \<subseteq> insert x B \<Longrightarrow> C \<inter> B = {} \<Longrightarrow> x \<notin> C \<Longrightarrow> C \<inter> A = {}"
  by blast

lemma register_all_list:
  assumes "\<And>k. devices t k (xs k)" "distinct (map req_node ds)" "0 \<notin> req_node ` set ds"
    "\<And>k. req_node ` set ds \<inter> fst ` set (xs k) = {}"
  shows "\<exists>t' ys. register_all ds t = Inr t' \<and>
     (\<forall>k. devices t' k (ys k) \<and> extends k (xs k) (with_uids (uid_counter t) ds) (ys k))"
  using assms
proof (induction ds arbitrary: t xs)
  case Nil
  thus ?case by (auto simp: extends_def)
next
  case (Cons d ds)
  have a: "req_node d \<noteq> 0" "\<And>k. req_node d \<notin> fst ` set (xs k)" using Cons.prems(3,4) by auto
  obtain t1 ys where t1: "device_register (req_node d) (req_name d) (req_class d) (req_rank d) (req_base d) (req_ops d) t = Inr t1"
      "uid_counter t1 = uid_counter t + 1" and ys: "\<forall>k. devices t1 k (ys k)
       \<and> extends k (xs k) [(req_node d, request_device (uid_counter t) d)] (ys k)
       \<and> fst ` set (ys k) \<subseteq> insert (req_node d) (fst ` set (xs k))"
    using register_one [OF Cons.prems(1) a] by (elim exE conjE) (rule that)
  have d: "req_node d \<notin> req_node ` set ds" "distinct (map req_node ds)" "0 \<notin> req_node ` set ds" using Cons.prems(2,3) by simp_all
  have dv: "devices t1 k (ys k)" and sub: "fst ` set (ys k) \<subseteq> insert (req_node d) (fst ` set (xs k))" for k
    using ys by simp_all
  have "req_node ` set ds \<inter> fst ` set (xs k) = {}" for k using Cons.prems(4) [of k] by simp
  hence dis: "req_node ` set ds \<inter> fst ` set (ys k) = {}" for k by (rule disjoint_sub [OF sub _ d(1)])
  obtain t' zs where t': "register_all ds t1 = Inr t'"
      "\<forall>k. devices t' k (zs k) \<and> extends k (ys k) (with_uids (uid_counter t1) ds) (zs k)"
    using Cons.IH [OF dv d(2,3) dis] by (elim exE conjE) (rule that)
  have "extends k (xs k) (with_uids (uid_counter t) (d # ds)) (zs k)" for k
  proof -
    have "extends k (xs k) [(req_node d, request_device (uid_counter t) d)] (ys k)" using ys by simp
    moreover have "extends k (ys k) (with_uids (uid_counter t + 1) ds) (zs k)" using t'(2) t1(2) by simp
    ultimately show ?thesis unfolding with_uids.simps by (rule extends_trans)
  qed
  thus ?case using t1(1) t' by (intro exI [of _ t'] exI [of _ zs]) simp
qed

lemma devices_at_head:
  assumes "devices t k (y # ys)"
  shows "device_get_primary t k = fst y \<and> (\<exists>n. d_cells (device_lists t k) (fst y) = Some n \<and> d_data n = snd y)"
proof -
  obtain a x where y: "y = (a, x)" by fastforce
  show ?thesis using assms unfolding y by (auto simp: devices_def dlist_def device_get_primary_def)
qed

lemma extends_nil:
  assumes "extends k [] es []" "x \<in> set es"
  shows "dev_class (snd x) \<noteq> k"
proof
  assume "dev_class (snd x) = k"
  hence "x \<in> set (filter (\<lambda>z. dev_class (snd z) = k \<and> dev_rank (snd z) = dev_rank (snd x)) es)" using assms(2) by simp
  moreover have "filter (\<lambda>z. dev_class (snd z) = k \<and> dev_rank (snd z) = dev_rank (snd x)) es = []"
    using assms(1) by (simp add: extends_def)
  ultimately show False by simp
qed

text \<open>The head of a list that extends the empty one.\<close>

lemma extends_head:
  assumes "extends k [] es (y # ys)" "sorted_wrt (\<lambda>x y. dev_rank (snd y) \<le> dev_rank (snd x)) (y # ys)"
  shows "\<exists>pre post. es = pre @ y # post \<and> dev_class (snd y) = k
     \<and> (\<forall>x \<in> set pre. dev_class (snd x) = k \<longrightarrow> dev_rank (snd x) < dev_rank (snd y))
     \<and> (\<forall>x \<in> set post. dev_class (snd x) = k \<longrightarrow> dev_rank (snd x) \<le> dev_rank (snd y))"
proof -
  have e: "filter (\<lambda>x. dev_class (snd x) = k \<and> dev_rank (snd x) = r) es = filter (\<lambda>x. dev_rank (snd x) = r) (y # ys)" for r
    using assms(1) by (simp add: extends_def)
  have top: "dev_rank (snd x) \<le> dev_rank (snd y)" if "x \<in> set es" "dev_class (snd x) = k" for x
  proof -
    have "x \<in> set (filter (\<lambda>z. dev_rank (snd z) = dev_rank (snd x)) (y # ys))" unfolding e [symmetric] using that by simp
    hence "x \<in> set (y # ys)" unfolding set_filter by blast
    thus ?thesis using assms(2) by auto
  qed
  have "filter (\<lambda>x. dev_class (snd x) = k \<and> dev_rank (snd x) = dev_rank (snd y)) es =
      y # filter (\<lambda>x. dev_rank (snd x) = dev_rank (snd y)) ys"
    unfolding e by simp
  from filter_eq_ConsD [OF this] obtain pre post where s: "es = pre @ y # post" "dev_class (snd y) = k"
      "\<forall>x \<in> set pre. \<not> (dev_class (snd x) = k \<and> dev_rank (snd x) = dev_rank (snd y))"
    by blast
  thus ?thesis using top by (intro exI [of _ pre] exI [of _ post]) (auto simp: order_less_le)
qed

text \<open>Property C39: after any sequence of registrations, of devices of any classes, on an initialised table, every class has
  its own primary device: none if no device of the class was registered, and otherwise the one of the highest rank in the
  class, among those of that rank the one that was registered first, with the contents of its registration and its number in
  the sequence as its identifier.\<close>
theorem device_get_primary_spec:
  assumes "distinct (map req_node ds)" "0 \<notin> req_node ` set ds"
  shows "\<exists>t'. register_all ds (device_ctrl_init t) = Inr t' \<and> (\<forall>k.
     if \<forall>d \<in> set ds. req_class d \<noteq> k then device_get_primary t' k = 0
     else \<exists>pre d post. ds = pre @ d # post \<and> req_class d = k \<and> device_get_primary t' k = req_node d
       \<and> (\<exists>n. d_cells (device_lists t' k) (req_node d) = Some n \<and> d_data n = request_device (1 + of_nat (length pre)) d)
       \<and> (\<forall>x \<in> set pre. req_class x = k \<longrightarrow> req_rank x < req_rank d)
       \<and> (\<forall>x \<in> set post. req_class x = k \<longrightarrow> req_rank x \<le> req_rank d))"
proof -
  let ?t = "device_ctrl_init t" and ?es = "with_uids 1 ds"
  have "devices ?t k []" and u: "uid_counter ?t = 1" for k by (simp_all add: devices_def dlist_def device_ctrl_init_def)
  hence "\<exists>t' ys. register_all ds ?t = Inr t' \<and> (\<forall>k. devices t' k (ys k) \<and> extends k [] (with_uids (uid_counter ?t) ds) (ys k))"
    using assms by (intro register_all_list [of ?t "\<lambda>_. []" ds]) simp_all
  then obtain t' ys where t': "register_all ds ?t = Inr t'" "\<And>k. devices t' k (ys k)" "\<And>k. extends k [] ?es (ys k)"
    unfolding u by blast
  have "if \<forall>d \<in> set ds. req_class d \<noteq> k then device_get_primary t' k = 0
     else \<exists>pre d post. ds = pre @ d # post \<and> req_class d = k \<and> device_get_primary t' k = req_node d
       \<and> (\<exists>n. d_cells (device_lists t' k) (req_node d) = Some n \<and> d_data n = request_device (1 + of_nat (length pre)) d)
       \<and> (\<forall>x \<in> set pre. req_class x = k \<longrightarrow> req_rank x < req_rank d)
       \<and> (\<forall>x \<in> set post. req_class x = k \<longrightarrow> req_rank x \<le> req_rank d)" for k
  proof (cases "ys k")
    case Nil
    have "dev_class (snd x) \<noteq> k" if "x \<in> set ?es" for x
      using extends_nil [OF t'(3) [of k, unfolded Nil] that] .
    hence "\<forall>d \<in> set ds. req_class d \<noteq> k" using with_uids_ball [of 1 ds k "\<lambda>_. False"] by simp
    moreover have "device_get_primary t' k = 0" using t'(2) [of k] Nil by (simp add: devices_def dlist_def device_get_primary_def)
    ultimately show ?thesis by simp
  next
    case (Cons y zs)
    obtain pre post where es: "?es = pre @ y # post" "dev_class (snd y) = k"
       "\<forall>x \<in> set pre. dev_class (snd x) = k \<longrightarrow> dev_rank (snd x) < dev_rank (snd y)"
       "\<forall>x \<in> set post. dev_class (snd x) = k \<longrightarrow> dev_rank (snd x) \<le> dev_rank (snd y)"
      using extends_head [of k ?es y zs] t'(2,3) [of k] Cons by (auto simp: devices_def)
    obtain p d q where d: "ds = p @ d # q" "pre = with_uids 1 p" "y = (req_node d, request_device (1 + of_nat (length p)) d)"
        "post = with_uids (1 + of_nat (length p) + 1) q"
      using with_uids_split [OF es(1)] by blast
    have k: "req_class d = k" using es(2) d(3) by (simp add: request_device_def)
    have y: "fst y = req_node d" "snd y = request_device (1 + of_nat (length p)) d" "dev_rank (snd y) = req_rank d"
      using d(3) by (simp_all add: request_device_def)
    have "\<forall>x \<in> set p. req_class x = k \<longrightarrow> req_rank x < req_rank d"
      using es(3) unfolding d(2) y(3) with_uids_ball [of _ p k "\<lambda>r. r < req_rank d"] .
    moreover have "\<forall>x \<in> set q. req_class x = k \<longrightarrow> req_rank x \<le> req_rank d"
      using es(4) unfolding d(4) y(3) with_uids_ball [of _ q k "\<lambda>r. r \<le> req_rank d"] .
    moreover have "device_get_primary t' k = req_node d \<and>
        (\<exists>n. d_cells (device_lists t' k) (req_node d) = Some n \<and> d_data n = request_device (1 + of_nat (length p)) d)"
      using devices_at_head [OF t'(2) [of k, unfolded Cons]] unfolding y(1,2) .
    moreover have nk: "\<not> (\<forall>d \<in> set ds. req_class d \<noteq> k)" using d(1) k by simp
    ultimately show ?thesis unfolding if_not_P [OF nk] using d(1) k by (intro exI [of _ p] exI [of _ d] exI [of _ q]) simp
  qed
  thus ?thesis using t'(1) by blast
qed

definition demo_devices :: "device_request list" where
  "demo_devices =
     [\<lparr>req_node = 16, req_name = Some ''a'', req_class = DEVICE_CLASS_TIMER, req_rank = 10, req_base = 0, req_ops = 1\<rparr>,
      \<lparr>req_node = 32, req_name = Some ''b'', req_class = DEVICE_CLASS_SERIAL, req_rank = 255, req_base = 0, req_ops = 2\<rparr>,
      \<lparr>req_node = 48, req_name = Some ''c'', req_class = DEVICE_CLASS_TIMER, req_rank = 20, req_base = 0, req_ops = 3\<rparr>]"

theorem device_get_primary_spec_witness:
  "\<exists>t'. register_all demo_devices
        (device_ctrl_init \<lparr>device_lists = (\<lambda>k. \<lparr>d_head = 7, d_cells = (\<lambda>_. None)\<rparr>), uid_counter = 9\<rparr>) = Inr t' \<and> (\<forall>k.
     if \<forall>d \<in> set demo_devices. req_class d \<noteq> k then device_get_primary t' k = 0
     else \<exists>pre d post. demo_devices = pre @ d # post \<and> req_class d = k \<and> device_get_primary t' k = req_node d
       \<and> (\<exists>n. d_cells (device_lists t' k) (req_node d) = Some n \<and> d_data n = request_device (1 + of_nat (length pre)) d)
       \<and> (\<forall>x \<in> set pre. req_class x = k \<longrightarrow> req_rank x < req_rank d)
       \<and> (\<forall>x \<in> set post. req_class x = k \<longrightarrow> req_rank x \<le> req_rank d))"
  by (rule device_get_primary_spec) (simp_all add: demo_devices_def)

text \<open>A search by name gives the first device of the list with that name, when the names are terminated.\<close>

lemma device_get_by_name_spec:
  assumes "devices t k xs" "NUL \<notin> set s" "\<forall>x \<in> set xs. \<exists>s' r. dev_name (snd x) = Some (s' @ NUL # r) \<and> NUL \<notin> set s'"
  shows "\<exists>P. device_get_by_name t k (Some (s @ NUL # [])) =
      Inr (case dropWhile (\<lambda>x. \<not> P x) xs of [] \<Rightarrow> 0 | x # _ \<Rightarrow> fst x)
    \<and> (\<forall>x \<in> set xs. P x \<longleftrightarrow> (\<exists>r. dev_name (snd x) = Some (s @ NUL # r)))"
proof -
  let ?P = "\<lambda>x :: u64 \<times> device. \<exists>r. dev_name (snd x) = Some (s @ NUL # r)"
  have tW: "takeWhile (\<lambda>c. c \<noteq> NUL) (s' @ NUL # r) = s'" if "NUL \<notin> set s'" for s' r
    using that by (induction s') auto
  have "\<forall>x \<in> set xs. streq (dev_name (snd x)) (Some (s @ NUL # [])) = Inr (?P x)"
  proof
    fix x assume "x \<in> set xs"
    then obtain s' r where n: "dev_name (snd x) = Some (s' @ NUL # r)" "NUL \<notin> set s'" using assms(3) by blast
    have "?P x \<longleftrightarrow> s' = s" using n tW [OF assms(2)] tW [OF n(2)] by (metis option.inject)
    thus "streq (dev_name (snd x)) (Some (s @ NUL # [])) = Inr (?P x)"
      using n assms(2) by (simp add: streq_def streq_loop_text)
  qed
  hence "device_get_by_name t k (Some (s @ NUL # [])) =
      Inr (case dropWhile (\<lambda>x. \<not> ?P x) xs of [] \<Rightarrow> 0 | x # _ \<Rightarrow> fst x)"
    using device_search_list [of "device_lists t k" 0 "d_head (device_lists t k)" xs
        "\<lambda>d. streq (dev_name d) (Some (s @ NUL # []))" ?P] assms(1)
    by (simp add: device_get_by_name_def devices_def dlist_def ends_def Let_def)
  thus ?thesis by (intro exI [of _ ?P]) simp
qed

end
