(* ===== verification/Kmem.thy ===== *)
theory Kmem
  imports Page_Regions "HOL-Library.AList"
begin

text \<open>
  The state of the kernel's memory management above the page allocator: the lists of free and of
  reserved virtual areas of \<open>vmalloc.c\<close>, the containers their nodes live in
  (\<open>vmalloc/containers/containers.c\<close>, \<open>vmalloc/mdt/mdt.c\<close>) and the reserve of pages
  (\<open>reserve_malloc.c\<close>).

  A linked list is the list of its nodes in the order of the \<open>next\<close> pointers, each with its address.
  A container is its address and its bits; the node at index \<open>i\<close> lies behind the bits.  Releasing the
  last node of a container gives the container to \<open>raw_kfree\<close>, which is a parameter of the operations
  here, since \<open>raw_kmalloc.c\<close> is above them.
\<close>

section \<open>State\<close>

datatype vmalloc_lists = KMAP_LIST | DYNAMIC_LIST

record fva_node =
  fva_start :: u64
  fva_size :: u64

record area_mdt =
  am_tag :: u64
  am_kmapped :: bool
  am_pa_assigned :: bool
  am_device_mem :: bool
  am_permanent :: bool

record pa_info =
  pi_pa :: u64
  pi_va :: u64
  pi_order :: u64

record rva_node =
  rva_start :: u64
  rva_size :: u64
  rva_info :: area_mdt
  rva_pas :: "(u64 \<times> pa_info) list"
  rva_pa_count :: u32

record 'm kmem =
  fva_list :: "vmalloc_lists \<Rightarrow> (u64 \<times> fva_node) list"
  rva_list :: "vmalloc_lists \<Rightarrow> (u64 \<times> rva_node) list"
  fva_conts :: "(u64 \<times> u8 list) list"
  rva_conts :: "(u64 \<times> u8 list) list"
  mdt_conts :: "(u64 \<times> u64 list) list"
  page_st :: page_state
  reserved_addr :: "pv_ptr list"
  reserved_pages :: u32
  addr_space :: u64
  str_addr :: "string \<Rightarrow> u64"
  mmu_st :: 'm

type_synonym 'm rawfree = "u64 \<Rightarrow> 'm kmem \<Rightarrow> 'm kmem res"

definition MM_MMU_HI_BITS :: nat where
  "MM_MMU_HI_BITS = 48"

definition vunsign :: "u64 \<Rightarrow> u64 res" where
  "vunsign va = va_zero_extend va MM_MMU_HI_BITS"

definition vsign :: "u64 \<Rightarrow> u64 res" where
  "vsign va = va_sign_extend va MM_MMU_HI_BITS"

definition list_from_va :: "u64 \<Rightarrow> 'm kmem \<Rightarrow> vmalloc_lists res" where
  "list_from_va uva km =
     rbind (vunsign (kpa_to_kva (addr_space km))) (\<lambda>addr_space_end.
     Inr (if uva < addr_space_end then KMAP_LIST else DYNAMIC_LIST))"

section \<open>Reserved areas by address\<close>

text \<open>The loop of \<open>find_rva\<close> tests the address of the caller's variable, not the node, so that it runs
  into the null pointer when no area starts at \<open>start\<close>.\<close>

fun rva_index :: "u64 \<Rightarrow> (u64 \<times> rva_node) list \<Rightarrow> nat res" where
  "rva_index start [] = Inl Fault"
| "rva_index start ((a, n) # xs) =
     (if rva_start n = start then Inr 0 else rbind (rva_index start xs) (\<lambda>i. Inr (Suc i)))"

definition find_rva :: "u64 \<Rightarrow> 'm kmem \<Rightarrow> (vmalloc_lists \<times> nat) option res" where
  "find_rva start km =
     rbind (if is_kva start then vunsign start else Inr start) (\<lambda>start.
     rbind (list_from_va start km) (\<lambda>l.
     if rva_list km l = [] then Inr None
     else rbind (rva_index start (rva_list km l)) (\<lambda>i. Inr (Some (l, i)))))"

definition upd_rva_list :: "vmalloc_lists \<Rightarrow> ((u64 \<times> rva_node) list \<Rightarrow> (u64 \<times> rva_node) list) \<Rightarrow> 'm kmem \<Rightarrow> 'm kmem" where
  "upd_rva_list l f km = km\<lparr>rva_list := (rva_list km)(l := f (rva_list km l))\<rparr>"

definition upd_fva_list :: "vmalloc_lists \<Rightarrow> ((u64 \<times> fva_node) list \<Rightarrow> (u64 \<times> fva_node) list) \<Rightarrow> 'm kmem \<Rightarrow> 'm kmem" where
  "upd_fva_list l f km = km\<lparr>fva_list := (fva_list km)(l := f (fva_list km l))\<rparr>"

definition set_tag :: "u64 \<Rightarrow> rva_node \<Rightarrow> rva_node" where
  "set_tag t n = n\<lparr>rva_info := (rva_info n)\<lparr>am_tag := t\<rparr>\<rparr>"

definition upd_nth :: "nat \<Rightarrow> ('b \<Rightarrow> 'b) \<Rightarrow> ('a \<times> 'b) list \<Rightarrow> ('a \<times> 'b) list" where
  "upd_nth i f xs = xs[i := (fst (xs ! i), f (snd (xs ! i)))]"

definition vmalloc_update_tag :: "u64 \<Rightarrow> u64 \<Rightarrow> 'm kmem \<Rightarrow> ('m kmem \<times> u64) res" where
  "vmalloc_update_tag addr new_tag km =
     rassert (addr \<noteq> 0) (Panic ''vmalloc_update_tag: addr'') (
     rbind (vunsign addr) (\<lambda>va.
     rbind (find_rva va km) (\<lambda>found.
     case found of
       None \<Rightarrow> Inl (Panic ''vmalloc_update_tag: requested va not allocated'')
     | Some (l, i) \<Rightarrow>
         Inr (upd_rva_list l (upd_nth i (set_tag new_tag)) km, am_tag (rva_info (snd (rva_list km l ! i)))))))"

section \<open>The reserve\<close>

definition RESERVE_MALLOC_SIZE :: nat where
  "RESERVE_MALLOC_SIZE = 32"

fun res_find :: "u32 \<Rightarrow> nat list \<Rightarrow> nat option" where
  "res_find bits [] = None"
| "res_find bits (i # is) = (if bitfield_get bits i \<noteq> 0 then Some i else res_find bits is)"

definition with_pages :: "(page_state \<Rightarrow> (page_state \<times> 'b) res) \<Rightarrow> 'm kmem \<Rightarrow> ('m kmem \<times> 'b) res" where
  "with_pages f km = rbind (f (page_st km)) (\<lambda>(s, x). Inr (km\<lparr>page_st := s\<rparr>, x))"

text \<open>Every caller passes a tag.\<close>

definition reserve_malloc :: "u64 \<Rightarrow> 'm kmem \<Rightarrow> ('m kmem \<times> pv_ptr) res" where
  "reserve_malloc new_tag km =
     (case res_find (reserved_pages km) [0 ..< RESERVE_MALLOC_SIZE] of
        None \<Rightarrow> Inl (Panic ''reserve_malloc: no more reserved pages available'')
      | Some i \<Rightarrow>
          if length (reserved_addr km) \<le> i then Inl Fault
          else let pv = reserved_addr km ! i in
            rbind (vmalloc_update_tag (pv_va pv) new_tag km) (\<lambda>(km, _).
            rbind (with_pages (page_allocator_update_tag (pv_pa pv) new_tag) km) (\<lambda>(km, _).
            Inr (km\<lparr>reserved_pages := bitfield_clear (reserved_pages km) i\<rparr>, pv))))"

section \<open>Containers\<close>

definition FVA_NODE_COUNT :: nat where "FVA_NODE_COUNT = 169" \<comment> \<open>\<open>DATA_BYTES / sizeof(fva_node) - 1\<close>\<close>
definition RVA_NODE_COUNT :: nat where "RVA_NODE_COUNT = 71"
definition PA_MDT_CONTAINER_NODES :: nat where "PA_MDT_CONTAINER_NODES = 127"

definition FVA_NODES :: nat where "FVA_NODES = 40" \<comment> \<open>offset of \<open>nodes\<close> in a container\<close>
definition RVA_NODES :: nat where "RVA_NODES = 32"
definition PA_MDT_ENTRIES :: nat where "PA_MDT_ENTRIES = 32"

definition FVA_NODE_SIZE :: nat where "FVA_NODE_SIZE = 24"
definition RVA_NODE_SIZE :: nat where "RVA_NODE_SIZE = 56"
definition PA_MDT_SIZE :: nat where "PA_MDT_SIZE = 32"

definition bf_count :: "nat \<Rightarrow> nat \<Rightarrow> nat" where
  "bf_count n cap = (n + cap - 1) div cap"

definition node_bit :: "'a::len word list \<Rightarrow> nat \<Rightarrow> bool" where
  "node_bit bs i = (bitfield_get (bs ! (i div LENGTH('a))) (i mod LENGTH('a)) \<noteq> 0)"

definition set_node_bit :: "nat \<Rightarrow> 'a::len word list \<Rightarrow> 'a word list" where
  "set_node_bit i bs = bs[i div LENGTH('a) := bitfield_set_high (bs ! (i div LENGTH('a))) (i mod LENGTH('a))]"

definition clear_node_bit :: "nat \<Rightarrow> 'a::len word list \<Rightarrow> 'a word list" where
  "clear_node_bit i bs = bs[i div LENGTH('a) := bitfield_clear (bs ! (i div LENGTH('a))) (i mod LENGTH('a))]"

text \<open>The first free node of the containers.\<close>

fun conts_take :: "nat \<Rightarrow> (u64 \<times> 'a::len word list) list \<Rightarrow> ((u64 \<times> 'a word list) list \<times> u64 \<times> nat) option" where
  "conts_take cnt [] = None"
| "conts_take cnt ((c, bs) # cs) =
     (case List.find (\<lambda>i. \<not> node_bit bs i) [0 ..< cnt] of
        Some i \<Rightarrow> Some ((c, set_node_bit i bs) # cs, c, i)
      | None \<Rightarrow> map_option (\<lambda>(cs, x). ((c, bs) # cs, x)) (conts_take cnt cs))"

definition cont_node :: "nat \<Rightarrow> nat \<Rightarrow> u64 \<Rightarrow> nat \<Rightarrow> u64" where
  "cont_node off sz c i = c + of_nat (off + sz * i)"

text \<open>A new container comes zeroed from the reserve and is linked behind the last one.  The list of the
  containers is read and written by the two functions.\<close>

definition node_new ::
  "nat \<Rightarrow> nat \<Rightarrow> nat \<Rightarrow> string \<Rightarrow> ('m kmem \<Rightarrow> (u64 \<times> 'a::len word list) list) \<Rightarrow>
   ((u64 \<times> 'a word list) list \<Rightarrow> 'm kmem \<Rightarrow> 'm kmem) \<Rightarrow> 'm kmem \<Rightarrow> ('m kmem \<times> u64) res" where
  "node_new cnt off sz tag get put km =
     (case conts_take cnt (get km) of
        Some (cs, c, i) \<Rightarrow> Inr (put cs km, cont_node off sz c i)
      | None \<Rightarrow>
          if get km = [] then Inl Fault
          else
            rbind (reserve_malloc (str_addr km tag) km) (\<lambda>(km, pv).
            let new = (pv_va pv, set_node_bit 0 (replicate (bf_count cnt LENGTH('a)) 0)) in
            Inr (put (get km @ [new]) km, cont_node off sz (pv_va pv) 0)))"

definition get_new_fva_node :: "'m kmem \<Rightarrow> ('m kmem \<times> u64) res" where
  "get_new_fva_node = node_new FVA_NODE_COUNT FVA_NODES FVA_NODE_SIZE ''vmalloc node container fva'' fva_conts (\<lambda>cs km. km\<lparr>fva_conts := cs\<rparr>)"

definition get_new_rva_node :: "'m kmem \<Rightarrow> ('m kmem \<times> u64) res" where
  "get_new_rva_node = node_new RVA_NODE_COUNT RVA_NODES RVA_NODE_SIZE ''vmalloc node container rva'' rva_conts (\<lambda>cs km. km\<lparr>rva_conts := cs\<rparr>)"

definition mdt_node_new :: "'m kmem \<Rightarrow> ('m kmem \<times> u64) res" where
  "mdt_node_new = node_new PA_MDT_CONTAINER_NODES PA_MDT_ENTRIES PA_MDT_SIZE ''vmalloc mdt container'' mdt_conts (\<lambda>cs km. km\<lparr>mdt_conts := cs\<rparr>)"

text \<open>The container of a node is found by its alignment; \<open>err\<close> is what becomes of a node that does not belong
  to one.  All but the first container are given back when
  their last node is.\<close>

definition node_release ::
  "kerror \<Rightarrow> nat \<Rightarrow> nat \<Rightarrow> nat \<Rightarrow> ('m kmem \<Rightarrow> (u64 \<times> 'a::len word list) list) \<Rightarrow>
   ((u64 \<times> 'a word list) list \<Rightarrow> 'm kmem \<Rightarrow> 'm kmem) \<Rightarrow> 'm rawfree \<Rightarrow> u64 \<Rightarrow> 'm kmem \<Rightarrow> 'm kmem res" where
  "node_release err cnt off sz get put rawfree node km =
     (let c = node AND NOT (PAGE_SIZE - 1); i = unat (node - (c + of_nat off)) div sz in
      rassert (i < cnt) err (
      case map_of (get km) c of
        None \<Rightarrow> Inl Fault
      | Some bs \<Rightarrow>
          let bs = clear_node_bit i bs; km = put (AList.update c bs (get km)) km in
          if c = fst (hd (get km)) \<or> list_ex (\<lambda>w. w \<noteq> 0) bs then Inr km
          else rawfree c (put (AList.delete c (get km)) km)))"

definition free_fva_node :: "'m rawfree \<Rightarrow> u64 \<Rightarrow> 'm kmem \<Rightarrow> 'm kmem res" where
  "free_fva_node = node_release (Panic ''i < FVA_NODE_COUNT'') FVA_NODE_COUNT FVA_NODES FVA_NODE_SIZE fva_conts (\<lambda>cs km. km\<lparr>fva_conts := cs\<rparr>)"

definition free_rva_node :: "'m rawfree \<Rightarrow> u64 \<Rightarrow> 'm kmem \<Rightarrow> 'm kmem res" where
  "free_rva_node = node_release (Panic ''i < RVA_NODE_COUNT'') RVA_NODE_COUNT RVA_NODES RVA_NODE_SIZE rva_conts (\<lambda>cs km. km\<lparr>rva_conts := cs\<rparr>)"

definition mdt_node_free :: "'m rawfree \<Rightarrow> u64 \<Rightarrow> 'm kmem \<Rightarrow> 'm kmem res" where
  "mdt_node_free = node_release Fault PA_MDT_CONTAINER_NODES PA_MDT_ENTRIES PA_MDT_SIZE mdt_conts (\<lambda>cs km. km\<lparr>mdt_conts := cs\<rparr>)"

end
