(* ===== verification/Vmalloc.thy ===== *)
theory Vmalloc
  imports Kmem
begin

text \<open>
  The allocator of virtual address ranges (\<open>kernel/mm/malloc/vmalloc/vmalloc.c\<close> and the descriptions of
  physical pages of \<open>vmalloc/mdt/mdt.c\<close>).  Free and reserved areas are kept in two pairs of sorted lists,
  one for the range that is mapped with the offset of the kernel and one for the rest of the upper half.
\<close>

section \<open>Free areas\<close>

definition fva_at :: "vmalloc_lists \<Rightarrow> nat \<Rightarrow> 'm kmem \<Rightarrow> fva_node" where
  "fva_at l i km = snd (fva_list km l ! i)"

definition reserve_from_fva_node :: "'m rawfree \<Rightarrow> vmalloc_lists \<Rightarrow> nat \<Rightarrow> u64 \<Rightarrow> u64 \<Rightarrow> 'm kmem \<Rightarrow> ('m kmem \<times> u64) res" where
  "reserve_from_fva_node rawfree l i va bytes km =
     (let cur = fva_at l i km; cur_start = fva_start cur; cur_end = fva_start cur + fva_size cur in
      if va = cur_start \<and> bytes = fva_size cur then
        let node = fst (fva_list km l ! i); km = upd_fva_list l (\<lambda>xs. take i xs @ drop (Suc i) xs) km in
        rbind (free_fva_node rawfree node km) (\<lambda>km. Inr (km, va))
      else if va = cur_start then
        Inr (upd_fva_list l (upd_nth i (\<lambda>n. n\<lparr>fva_start := fva_start n + bytes, fva_size := fva_size n - bytes\<rparr>)) km, va)
      else if va + bytes = cur_end then
        Inr (upd_fva_list l (upd_nth i (\<lambda>n. n\<lparr>fva_size := va - cur_start\<rparr>)) km, va)
      else
        rbind (get_new_fva_node km) (\<lambda>(km, node).
        let new = \<lparr>fva_start = va + bytes, fva_size = cur_end - (va + bytes)\<rparr> in
        Inr (upd_fva_list l (\<lambda>xs. take (Suc i) (upd_nth i (\<lambda>n. n\<lparr>fva_size := va - cur_start\<rparr>) xs)
               @ (node, new) # drop (Suc i) xs) km, va)))"

definition PAGE_L3 :: u64 where "PAGE_L3 = 0x1000"
definition PAGE_L2 :: u64 where "PAGE_L2 = PAGE_L3 * 512"
definition PAGE_L1 :: u64 where "PAGE_L1 = PAGE_L2 * 512"

definition dynamic_fits_page_aligned :: "u64 \<Rightarrow> u64 \<Rightarrow> u64 \<Rightarrow> u64 \<Rightarrow> bool" where
  "dynamic_fits_page_aligned pg_align bytes cur_start cur_end =
     (let aligned = align_up cur_start pg_align in
      if aligned < cur_start then False
      else if aligned \<ge> cur_end then False
      else aligned + bytes \<le> cur_end)"

definition pop_align :: "u64 \<Rightarrow> u64" where
  "pop_align bytes = (if bytes \<ge> PAGE_L1 then PAGE_L1 else if bytes \<ge> PAGE_L2 then PAGE_L2 else PAGE_L3)"

text \<open>The loop of \<open>pop_fva\<close>: the index of the chosen area and the address that is taken from it.  The area
  is tested with the alignment of its size and taken with the alignment of a page.\<close>

fun pop_search :: "vmalloc_lists \<Rightarrow> u64 \<Rightarrow> u64 \<Rightarrow> nat \<Rightarrow> (nat \<times> u64) option \<Rightarrow> (u64 \<times> fva_node) list \<Rightarrow> (nat \<times> u64) option" where
  "pop_search l bytes kmap_va i unaligned [] = (if l = DYNAMIC_LIST then unaligned else None)"
| "pop_search l bytes kmap_va i unaligned ((a, n) # xs) =
     (let cur_start = fva_start n; cur_size = fva_size n; cur_end = cur_start + cur_size in
      if l = KMAP_LIST then
        if cur_start \<le> kmap_va \<and> cur_end \<ge> kmap_va + bytes then Some (i, kmap_va)
        else pop_search l bytes kmap_va (Suc i) unaligned xs
      else if bytes \<le> cur_size then
        if cur_size \<ge> PAGE_SIZE \<and> dynamic_fits_page_aligned (pop_align bytes) bytes cur_start cur_end
        then Some (i, align_up cur_start PAGE_SIZE)
        else pop_search l bytes kmap_va (Suc i) (if unaligned = None then Some (i, cur_start) else unaligned) xs
      else pop_search l bytes kmap_va (Suc i) unaligned xs)"

definition pop_fva :: "'m rawfree \<Rightarrow> vmalloc_lists \<Rightarrow> u64 \<Rightarrow> u64 \<Rightarrow> 'm kmem \<Rightarrow> ('m kmem \<times> u64) res" where
  "pop_fva rawfree l pages p km =
     (let bytes = pages * PAGE_SIZE in
      rbind (if l = KMAP_LIST then vunsign (kpa_to_kva p) else Inr 0) (\<lambda>kmap_va.
      case pop_search l bytes kmap_va 0 None (fva_list km l) of
        None \<Rightarrow> Inl (Panic ''vmalloc: no available free virtual address range found'')
      | Some (i, va) \<Rightarrow> reserve_from_fva_node rawfree l i va bytes km))"

text \<open>The position of the first area that does not start below \<open>va\<close>.\<close>

definition fva_pos :: "u64 \<Rightarrow> (u64 \<times> fva_node) list \<Rightarrow> nat" where
  "fva_pos va xs = length (takeWhile (\<lambda>x. fva_start (snd x) < va) xs)"

definition push_fva :: "'m rawfree \<Rightarrow> vmalloc_lists \<Rightarrow> u64 \<Rightarrow> u64 \<Rightarrow> 'm kmem \<Rightarrow> 'm kmem res" where
  "push_fva rawfree l va bytes km =
     (let xs = fva_list km l; i = fva_pos va xs;
          joins_prev = (0 < i \<and> fva_start (snd (xs ! (i - 1))) + fva_size (snd (xs ! (i - 1))) = va);
          joins_next = (i < length xs \<and> va + bytes = fva_start (snd (xs ! i))) in
      if joins_prev then
        if joins_next then
          let node = fst (xs ! i); more_size = fva_size (snd (xs ! i)) in
          free_fva_node rawfree node
            (upd_fva_list l (\<lambda>xs. take i (upd_nth (i - 1) (\<lambda>n. n\<lparr>fva_size := fva_size n + bytes + more_size\<rparr>) xs)
               @ drop (Suc i) xs) km)
        else Inr (upd_fva_list l (upd_nth (i - 1) (\<lambda>n. n\<lparr>fva_size := fva_size n + bytes\<rparr>)) km)
      else if joins_next then
        Inr (upd_fva_list l (upd_nth i (\<lambda>n. n\<lparr>fva_start := va, fva_size := fva_size n + bytes\<rparr>)) km)
      else
        rbind (get_new_fva_node km) (\<lambda>(km, node).
        Inr (upd_fva_list l (\<lambda>xs. take i xs @ (node, \<lparr>fva_start = va, fva_size = bytes\<rparr>) # drop i xs) km)))"

section \<open>Reserved areas\<close>

record vmalloc_cfg =
  vc_use_kmap :: bool
  vc_kmap_pa :: u64
  vc_assign_pa :: bool
  vc_device_mem :: bool
  vc_permanent :: bool

definition rva_at :: "u64 \<Rightarrow> 'm kmem \<Rightarrow> rva_node res" where
  "rva_at t km =
     (case map_of (rva_list km KMAP_LIST @ rva_list km DYNAMIC_LIST) t of None \<Rightarrow> Inl Fault | Some n \<Rightarrow> Inr n)"

definition upd_rva :: "u64 \<Rightarrow> (rva_node \<Rightarrow> rva_node) \<Rightarrow> 'm kmem \<Rightarrow> 'm kmem" where
  "upd_rva t f km = km\<lparr>rva_list := (\<lambda>l. map (\<lambda>(a, n). (a, if a = t then f n else n)) (rva_list km l))\<rparr>"

text \<open>The release of the descriptions of an area, whose node has left the list.\<close>

definition vmalloc_pa_mdt_free :: "'m rawfree \<Rightarrow> rva_node \<Rightarrow> 'm kmem \<Rightarrow> 'm kmem res" where
  "vmalloc_pa_mdt_free rawfree n km = rfold (\<lambda>x km. mdt_node_free rawfree (fst x) km) (rva_pas n) km"

definition pop_rva :: "'m rawfree \<Rightarrow> vmalloc_lists \<Rightarrow> u64 \<Rightarrow> 'm kmem \<Rightarrow> ('m kmem \<times> u64 \<times> area_mdt) res" where
  "pop_rva rawfree l start km =
     rbind (find_rva start km) (\<lambda>found.
     case found of
       None \<Rightarrow> Inl (Panic ''vmalloc: attempted to free an unreserved virtual address'')
     | Some (fl, i) \<Rightarrow>
         let xs = rva_list km fl; (node, n) = xs ! i in
         rassert (\<not> am_permanent (rva_info n)) (Panic ''vmalloc: cannot free a permanent va'') (
         let km = (if 0 < i then upd_rva_list fl (\<lambda>xs. take i xs @ drop (Suc i) xs) km
                   else upd_rva_list l (\<lambda>_. drop 1 xs) km) in
         rbind (vmalloc_pa_mdt_free rawfree n km) (\<lambda>km.
         rbind (free_rva_node rawfree node km) (\<lambda>km.
         Inr (km, rva_size n, rva_info n)))))"

definition push_rva :: "vmalloc_lists \<Rightarrow> u64 \<Rightarrow> u64 \<Rightarrow> u64 \<Rightarrow> vmalloc_cfg \<Rightarrow> 'm kmem \<Rightarrow> ('m kmem \<times> u64) res" where
  "push_rva l pages start tag cfg km =
     (let bytes = pages * PAGE_SIZE; i = length (takeWhile (\<lambda>x. rva_start (snd x) < start) (rva_list km l)) in
      rbind (get_new_rva_node km) (\<lambda>(km, node).
      let n = \<lparr>rva_start = start, rva_size = bytes,
               rva_info = \<lparr>am_tag = tag, am_kmapped = vc_use_kmap cfg, am_pa_assigned = vc_assign_pa cfg,
                           am_device_mem = vc_device_mem cfg, am_permanent = vc_permanent cfg\<rparr>,
               rva_pas = [], rva_pa_count = 0\<rparr> in
      Inr (upd_rva_list l (\<lambda>xs. take i xs @ (node, n) # drop i xs) km, node)))"

text \<open>The address of the area and its token.\<close>

definition vmalloc :: "'m rawfree \<Rightarrow> u64 \<Rightarrow> u64 \<Rightarrow> vmalloc_cfg \<Rightarrow> 'm kmem \<Rightarrow> ('m kmem \<times> u64 \<times> u64) res" where
  "vmalloc rawfree pages tag cfg km =
     (let l = (if vc_use_kmap cfg then KMAP_LIST else DYNAMIC_LIST) in
      rassert (vc_use_kmap cfg \<longrightarrow> is_pow2 pages) (Panic ''vmalloc: only pow2 n pages can be requested for kmapping'') (
      rassert (vc_use_kmap cfg \<longrightarrow> vc_assign_pa cfg) (Panic ''vmalloc: kmap can only be configured with assign_pa = true'') (
      rbind (pop_fva rawfree l pages (vc_kmap_pa cfg) km) (\<lambda>(km, start).
      rbind (push_rva l pages start tag cfg km) (\<lambda>(km, node).
      rbind (vsign start) (\<lambda>va. Inr (km, va, node)))))))"

definition vmalloc_get_token :: "u64 \<Rightarrow> 'm kmem \<Rightarrow> u64 res" where
  "vmalloc_get_token addr km =
     rbind (find_rva addr km) (\<lambda>found.
     case found of
       None \<Rightarrow> Inl (Panic ''vmalloc_get_token: token not found'')
     | Some (l, i) \<Rightarrow> Inr (fst (rva_list km l ! i)))"

definition vmalloc_get_mdt :: "u64 \<Rightarrow> 'm kmem \<Rightarrow> area_mdt res" where
  "vmalloc_get_mdt t km = rbind (rva_at t km) (\<lambda>n. Inr (rva_info n))"

text \<open>The descriptions of an area are sorted by virtual address.\<close>

definition pa_insert :: "u64 \<times> pa_info \<Rightarrow> (u64 \<times> pa_info) list \<Rightarrow> (u64 \<times> pa_info) list" where
  "pa_insert x xs = takeWhile (\<lambda>y. pi_va (snd y) \<le> pi_va (snd x)) xs @ x # dropWhile (\<lambda>y. pi_va (snd y) \<le> pi_va (snd x)) xs"

definition vmalloc_push_pa :: "u64 \<Rightarrow> u64 \<Rightarrow> u64 \<Rightarrow> u64 \<Rightarrow> 'm kmem \<Rightarrow> 'm kmem res" where
  "vmalloc_push_pa t order pa va km =
     rbind (rva_at t km) (\<lambda>_.
     let km = upd_rva t (\<lambda>n. n\<lparr>rva_pa_count := rva_pa_count n + 1\<rparr>) km in
     rbind (mdt_node_new km) (\<lambda>(km, node).
     Inr (upd_rva t (\<lambda>n. n\<lparr>rva_pas := pa_insert (node, \<lparr>pi_pa = pa, pi_va = va, pi_order = order\<rparr>) (rva_pas n)\<rparr>) km)))"

definition vmalloc_get_pa_count :: "u64 \<Rightarrow> 'm kmem \<Rightarrow> nat res" where
  "vmalloc_get_pa_count t km = rbind (rva_at t km) (\<lambda>n. Inr (unat (rva_pa_count n)))"

text \<open>\<^const>\<open>None\<close> is the result \<open>false\<close>.\<close>

definition vmalloc_get_pa_info :: "u64 \<Rightarrow> nat \<Rightarrow> 'm kmem \<Rightarrow> pa_info list option res" where
  "vmalloc_get_pa_info t buf_size km =
     rbind (rva_at t km) (\<lambda>n.
     let cnt = unat (rva_pa_count n) in
     if buf_size < cnt then Inr None
     else if cnt < length (rva_pas n) then Inr None
     else Inr (Some (map snd (rva_pas n))))"

definition vfree :: "'m rawfree \<Rightarrow> u64 \<Rightarrow> 'm kmem \<Rightarrow> ('m kmem \<times> u64) res" where
  "vfree rawfree t km =
     rbind (rva_at t km) (\<lambda>rva.
     let va = rva_start rva in
     rbind (list_from_va va km) (\<lambda>l.
     rbind (pop_rva rawfree l va km) (\<lambda>(km, bytes, _).
     rbind (push_fva rawfree l va bytes km) (\<lambda>km.
     Inr (km, bytes)))))"

section \<open>Questions\<close>

definition vmalloc_get_free_bytes :: "'m kmem \<Rightarrow> u64" where
  "vmalloc_get_free_bytes km =
     fold (\<lambda>x b. b + fva_size (snd x)) (fva_list km KMAP_LIST @ fva_list km DYNAMIC_LIST) 0"

definition vmalloc_get_reserved_bytes :: "'m kmem \<Rightarrow> u64" where
  "vmalloc_get_reserved_bytes km =
     fold (\<lambda>x b. b + rva_size (snd x)) (rva_list km KMAP_LIST @ rva_list km DYNAMIC_LIST) 0"

datatype va_info = VA_FREE u64 u64 | VA_RESERVED u64 u64 rva_node | VA_UNREGISTERED

fun find_free_area :: "u64 \<Rightarrow> (u64 \<times> fva_node) list \<Rightarrow> fva_node option" where
  "find_free_area a [] = None"
| "find_free_area a ((p, n) # xs) =
     (if fva_start n > a then None
      else if fva_start n + fva_size n > a then Some n
      else find_free_area a xs)"

fun find_reserved_area :: "u64 \<Rightarrow> (u64 \<times> rva_node) list \<Rightarrow> rva_node option" where
  "find_reserved_area a [] = None"
| "find_reserved_area a ((p, n) # xs) =
     (if rva_start n > a then None
      else if rva_start n + rva_size n > a then Some n
      else find_reserved_area a xs)"

definition vmalloc_get_addr_info :: "u64 \<Rightarrow> 'm kmem \<Rightarrow> va_info res" where
  "vmalloc_get_addr_info addr km =
     rbind (vunsign addr) (\<lambda>a.
     rbind (list_from_va a km) (\<lambda>l.
     case find_free_area a (fva_list km l) of
       Some n \<Rightarrow> rbind (vsign (fva_start n)) (\<lambda>s. Inr (VA_FREE s (fva_size n)))
     | None \<Rightarrow>
         (case find_reserved_area a (rva_list km l) of
            Some n \<Rightarrow> rbind (vsign (rva_start n)) (\<lambda>s. Inr (VA_RESERVED s (rva_size n) n))
          | None \<Rightarrow> Inr VA_UNREGISTERED)))"

section \<open>Start\<close>

text \<open>The first containers are two pages of the early allocator and one more for the descriptions.\<close>

definition vmalloc_init_containers :: "mm_info \<Rightarrow> early_state \<Rightarrow> 'm kmem \<Rightarrow> (early_state \<times> 'm kmem) res" where
  "vmalloc_init_containers m es km =
     rbind (early_kalloc m PAGE_SIZE (str_addr km ''vmalloc node container (fva first container)'') True False es) (\<lambda>(es, f).
     rbind (early_kalloc m PAGE_SIZE (str_addr km ''vmalloc node container (rva first container)'') True False es) (\<lambda>(es, r).
     Inr (es, km\<lparr>fva_conts := [(pv_va f, replicate (bf_count FVA_NODE_COUNT 8) 0)],
                 rva_conts := [(pv_va r, replicate (bf_count RVA_NODE_COUNT 8) 0)]\<rparr>)))"

definition vmalloc_pa_mdt_init :: "mm_info \<Rightarrow> early_state \<Rightarrow> 'm kmem \<Rightarrow> (early_state \<times> 'm kmem) res" where
  "vmalloc_pa_mdt_init m es km =
     rbind (early_kalloc m PAGE_SIZE (str_addr km ''vmalloc pa mdt'') True False es) (\<lambda>(es, c).
     Inr (es, km\<lparr>mdt_conts := [(pv_va c, replicate (bf_count PA_MDT_CONTAINER_NODES 64) 0)]\<rparr>))"

definition reserve_slot :: "mm_info \<Rightarrow> nat \<Rightarrow> early_state \<times> 'm kmem \<Rightarrow> (early_state \<times> 'm kmem) res" where
  "reserve_slot m i st = (case st of (es, km) \<Rightarrow>
     rassert (bitfield_get (reserved_pages km) i = 0) (Panic ''reserve_malloc_init: bit'') (
     rbind (early_kalloc m PAGE_SIZE (str_addr km ''reserved page'') False False es) (\<lambda>(es, pv).
     rassert (pv_pa pv \<noteq> 0 \<and> ptrs_are_kmapped pv) (Panic ''reserve_malloc_init: pv'')
       (Inr (es, km\<lparr>reserved_addr := (reserved_addr km)[i := pv],
                   reserved_pages := bitfield_set_high (reserved_pages km) i\<rparr>)))))"

definition reserve_malloc_init :: "mm_info \<Rightarrow> early_state \<Rightarrow> 'm kmem \<Rightarrow> (early_state \<times> 'm kmem) res" where
  "reserve_malloc_init m es km =
     rbind (rfold (reserve_slot m) [0 ..< RESERVE_MALLOC_SIZE] (es, km\<lparr>reserved_pages := 0\<rparr>)) (\<lambda>(es, km).
     rassert (reserved_pages km = NOT 0) (Panic ''reserve_malloc_init: reserved_pages'') (Inr (es, km)))"

definition vmalloc_init :: "mm_info \<Rightarrow> early_state \<Rightarrow> 'm kmem \<Rightarrow> (early_state \<times> 'm kmem) res" where
  "vmalloc_init m es km =
     rbind (vmalloc_init_containers m es km) (\<lambda>(es, km).
     rbind (vmalloc_pa_mdt_init m es km) (\<lambda>(es, km).
     rbind (get_new_fva_node km) (\<lambda>(km, k).
     rbind (get_new_fva_node km) (\<lambda>(km, d).
     rbind (vunsign (kpa_to_kva 0)) (\<lambda>k_start.
     rbind (vunsign (kpa_to_kva (addr_space km))) (\<lambda>d_start.
     rbind (vunsign (NOT 0)) (\<lambda>top.
     Inr (es, km\<lparr>fva_list := (\<lambda>l. case l of
              KMAP_LIST \<Rightarrow> [(k, \<lparr>fva_start = k_start, fva_size = kpa_to_kva (addr_space km) - kpa_to_kva 0\<rparr>)]
            | DYNAMIC_LIST \<Rightarrow> [(d, \<lparr>fva_start = d_start, fva_size = top - d_start + 1\<rparr>)]),
          rva_list := (\<lambda>_. [])\<rparr>))))))))"

definition vmalloc_reserve_memreg :: "'m rawfree \<Rightarrow> early_memreg \<Rightarrow> 'm kmem \<Rightarrow> 'm kmem res" where
  "vmalloc_reserve_memreg rawfree mb km =
     (if em_free mb then Inr km
      else
        rbind (pop_fva rawfree KMAP_LIST (em_pages mb) (em_addr mb) km) (\<lambda>(km, start).
        rbind (vsign start) (\<lambda>s.
        rassert (ptrs_are_kmapped (pv_ptr_new (em_addr mb) s)) (Panic ''vmalloc_update_memregs'') (
        rbind (push_rva KMAP_LIST (em_pages mb) start (if is_kva (em_tag mb) then em_tag mb else kpa_to_kva (em_tag mb))
                 \<lparr>vc_use_kmap = True, vc_kmap_pa = em_addr mb, vc_assign_pa = True, vc_device_mem = em_device_memory mb,
                  vc_permanent = em_permanent mb\<rparr> km) (\<lambda>(km, _).
        Inr km)))))"

definition vmalloc_update_memregs :: "'m rawfree \<Rightarrow> early_memreg list \<Rightarrow> 'm kmem \<Rightarrow> ('m kmem \<times> u64) res" where
  "vmalloc_update_memregs rawfree mregs km =
     rassert (fva_list km KMAP_LIST \<noteq> [] \<and> fva_list km DYNAMIC_LIST \<noteq> []) (Panic ''vmalloc: not initialized'') (
     rassert (length (fva_list km KMAP_LIST) = 1 \<and> length (fva_list km DYNAMIC_LIST) = 1) (Panic ''vmalloc: not initialized'') (
     rbind (rfold (vmalloc_reserve_memreg rawfree) mregs km) (\<lambda>km.
     if fva_list km KMAP_LIST = [] then Inl Fault
     else rbind (vsign (fva_start (snd (last (fva_list km KMAP_LIST))))) (\<lambda>v. Inr (km, v)))))"

end
