(* ===== verification/Raw_Kmalloc.thy ===== *)
theory Raw_Kmalloc
  imports Vmalloc Mmu_Table
begin

text \<open>
  The allocator of kernel pages (\<open>kernel/mm/malloc/raw_kmalloc/raw_kmalloc.c\<close>): physical pages of the page
  allocator, virtual addresses of \<open>vmalloc\<close>, and the mapping of the ones to the others.  The kernel's
  mapping is reached through the two functions of \<open>mmu_ops\<close>, which work on the whole state, because the
  tables come from the reserve and go back through \<open>raw_kfree\<close>.
\<close>

record raw_kmalloc_cfg =
  rc_fill_reserve :: bool
  rc_assign_pa :: bool
  rc_kmap :: bool
  rc_device_mem :: bool
  rc_permanent :: bool
  rc_init_zeroed :: bool

definition RAW_KMALLOC_KMAP_CFG :: raw_kmalloc_cfg where
  "RAW_KMALLOC_KMAP_CFG = \<lparr>rc_fill_reserve = True, rc_assign_pa = True, rc_kmap = True, rc_device_mem = False,
     rc_permanent = False, rc_init_zeroed = False\<rparr>"

definition RAW_KMALLOC_DYNAMIC_CFG :: raw_kmalloc_cfg where
  "RAW_KMALLOC_DYNAMIC_CFG = \<lparr>rc_fill_reserve = True, rc_assign_pa = True, rc_kmap = False, rc_device_mem = False,
     rc_permanent = False, rc_init_zeroed = False\<rparr>"

definition STD_MMU_KMEM_CFG :: mmu_pg_cfg where
  "STD_MMU_KMEM_CFG = \<lparr>attr_index = 0, ap = MMU_AP_EL0_NONE_EL1_RW, shareability = 3, non_secure = False,
     access_flag = True, pxn = False, uxn = True, sw = 0\<rparr>"

definition STD_MMU_DEVICE_CFG :: mmu_pg_cfg where
  "STD_MMU_DEVICE_CFG = \<lparr>attr_index = 1, ap = MMU_AP_EL0_NONE_EL1_RW, shareability = 0, non_secure = False,
     access_flag = True, pxn = True, uxn = True, sw = 0\<rparr>"

record 'm mmu_ops =
  mo_map :: "u64 \<Rightarrow> u64 \<Rightarrow> u64 \<Rightarrow> mmu_pg_cfg \<Rightarrow> 'm kmem \<Rightarrow> ('m kmem \<times> mmu_map_result) res"
  mo_unmap :: "u64 \<Rightarrow> u64 \<Rightarrow> 'm kmem \<Rightarrow> ('m kmem \<times> mmu_unmap_result) res"

definition vmalloc_cfg_from_raw_kmalloc_cfg :: "raw_kmalloc_cfg \<Rightarrow> u64 \<Rightarrow> vmalloc_cfg" where
  "vmalloc_cfg_from_raw_kmalloc_cfg cfg kmap_pa =
     \<lparr>vc_use_kmap = rc_kmap cfg, vc_kmap_pa = (if rc_kmap cfg then kmap_pa else 0), vc_assign_pa = rc_assign_pa cfg,
      vc_device_mem = rc_device_mem cfg, vc_permanent = rc_permanent cfg\<rparr>"

section \<open>Release\<close>

definition page_free_km :: "u64 \<Rightarrow> 'm kmem \<Rightarrow> 'm kmem res" where
  "page_free_km pa km = rbind (page_free pa (page_st km)) (\<lambda>s. Inr (km\<lparr>page_st := s\<rparr>))"

text \<open>The body of \<open>raw_kfree\<close>, with \<open>f\<close> for its own calls of \<open>raw_kfree\<close>, which are for the
  containers that become empty.\<close>

definition raw_kfree_step :: "'m mmu_ops \<Rightarrow> 'm rawfree \<Rightarrow> 'm rawfree" where
  "raw_kfree_step ops f ptr km =
     rbind (vmalloc_get_token ptr km) (\<lambda>t.
     rbind (vmalloc_get_mdt t km) (\<lambda>vinfo.
     if am_kmapped vinfo then
       rbind (vfree f t km) (\<lambda>(km, bytes).
       rbind (page_free_km (kva_to_kpa ptr) km) (\<lambda>km.
       if am_pa_assigned vinfo then
         rbind (mo_unmap ops ptr bytes km) (\<lambda>(km, r). rassert (r = MMU_UNMAP_OK) (Panic ''raw_kfree: mmu_unmap'') (Inr km))
       else Inr km))
     else
       rbind (vmalloc_get_pa_count t km) (\<lambda>cnt.
       rbind (vmalloc_get_pa_info t cnt km) (\<lambda>pas.
       case pas of
         None \<Rightarrow> Inl (Panic ''raw_kfree: vmalloc_get_pa_info'')
       | Some pas \<Rightarrow>
           if length pas < cnt then Inl Fault
           else
             rbind (rfold (\<lambda>i km. page_free_km (pi_pa i) km) pas km) (\<lambda>km.
             rbind (vfree f t km) (\<lambda>(km, bytes).
             rbind (mo_unmap ops ptr bytes km) (\<lambda>(km, r).
             rassert (r = MMU_UNMAP_OK) (Panic ''raw_kfree: mmu_unmap'') (Inr km))))))))"

text \<open>A call that goes deeper than the bound is \<^const>\<open>Diverge\<close>.\<close>

fun raw_kfree_n :: "'m mmu_ops \<Rightarrow> nat \<Rightarrow> 'm rawfree" where
  "raw_kfree_n ops 0 ptr km = Inl Diverge"
| "raw_kfree_n ops (Suc d) ptr km = raw_kfree_step ops (raw_kfree_n ops d) ptr km"

text \<open>Every nested call is for a container that has left its list, so the number of containers bounds the
  depth.\<close>

definition kmem_depth :: "'m kmem \<Rightarrow> nat" where
  "kmem_depth km = Suc (length (fva_conts km) + length (rva_conts km) + length (mdt_conts km))"

definition raw_kfree :: "'m mmu_ops \<Rightarrow> u64 \<Rightarrow> 'm kmem \<Rightarrow> 'm kmem res" where
  "raw_kfree ops ptr km = raw_kfree_n ops (kmem_depth km) ptr km"

section \<open>Allocation\<close>

definition raw_page_data :: "u64 \<Rightarrow> raw_kmalloc_cfg \<Rightarrow> mm_page_data" where
  "raw_page_data tag cfg =
     \<lparr>pd_tag = tag, pd_device_mem = rc_device_mem cfg, pd_permanent = rc_permanent cfg, pd_cache_size = 0\<rparr>"

definition raw_mmu_cfg :: "raw_kmalloc_cfg \<Rightarrow> mmu_pg_cfg" where
  "raw_mmu_cfg cfg = (if rc_device_mem cfg then STD_MMU_DEVICE_CFG else STD_MMU_KMEM_CFG)"

definition raw_kmalloc_kmap :: "'m mmu_ops \<Rightarrow> u64 \<Rightarrow> u64 \<Rightarrow> raw_kmalloc_cfg \<Rightarrow> 'm kmem \<Rightarrow> ('m kmem \<times> u64) res" where
  "raw_kmalloc_kmap ops pages tag cfg km =
     rassert (is_pow2 pages) (Panic ''only pow2 n pages can be kmapped'') (
     rbind (with_pages (page_malloc (unat (log2_floor_u64 pages)) (raw_page_data tag cfg)) km) (\<lambda>(km, pa).
     rbind (vmalloc (raw_kfree ops) pages tag (vmalloc_cfg_from_raw_kmalloc_cfg cfg pa) km) (\<lambda>(km, va, _).
     rbind (mo_map ops va pa (pages * PAGE_SIZE) (raw_mmu_cfg cfg) km) (\<lambda>(km, r).
     rassert (r = MMU_MAP_OK) (Panic ''raw_kmalloc: mmu_map'') (Inr (km, va))))))"

function dyn_loop :: "'m mmu_ops \<Rightarrow> u64 \<Rightarrow> raw_kmalloc_cfg \<Rightarrow> u64 \<Rightarrow> u64 \<Rightarrow> u64 \<Rightarrow> 'm kmem \<Rightarrow> 'm kmem res" where
  "dyn_loop ops tag cfg t va rem km =
     (if rem > 0 then
        let ord = log2_floor_u64 rem; order_bytes = power_of2 ord * PAGE_SIZE in
        rbind (with_pages (page_malloc (unat ord) (raw_page_data tag cfg)) km) (\<lambda>(km, pa).
        rbind (vmalloc_push_pa t ord pa va km) (\<lambda>km.
        rbind (mo_map ops va pa order_bytes (raw_mmu_cfg cfg) km) (\<lambda>(km, r).
        rassert (r = MMU_MAP_OK) (Panic ''raw_kmalloc: mmu_map'')
          (dyn_loop ops tag cfg t (va + order_bytes) (rem - power_of2 ord) km))))
      else Inr km)"
  by pat_completeness auto
termination
proof (relation "measure (\<lambda>(ops, tag, cfg, t, va, rem, km). unat rem)", goal_cases)
  case (2 ops tag cfg t va rem km ord ob x y pa z u v r)
  hence "unat (rem - power_of2 ord) = unat rem - 2 ^ unat ord"
    using unat_minus_log2_floor(1) [of rem "unat ord"] by (simp add: word_gt_0)
  thus ?case using 2 by (simp add: word_gt_0 unat_gt_0)
qed simp

declare dyn_loop.simps [simp del]

definition raw_kmalloc_dynamic :: "'m mmu_ops \<Rightarrow> u64 \<Rightarrow> u64 \<Rightarrow> raw_kmalloc_cfg \<Rightarrow> 'm kmem \<Rightarrow> ('m kmem \<times> u64) res" where
  "raw_kmalloc_dynamic ops pages tag cfg km =
     rassert (rc_assign_pa cfg) (Panic ''vmalloc: TODO: NOT IMPLEMENTED YET'') (
     rbind (vmalloc (raw_kfree ops) pages tag (vmalloc_cfg_from_raw_kmalloc_cfg cfg 0) km) (\<lambda>(km, start, t).
     rbind (dyn_loop ops tag cfg t start pages km) (\<lambda>km.
     Inr (km, start))))"

text \<open>\<open>raw_kmalloc\<close> up to the refilling of the reserve; the zeroing of the pages does not change this state.\<close>

definition raw_kmalloc_nofill :: "'m mmu_ops \<Rightarrow> u64 \<Rightarrow> u64 \<Rightarrow> raw_kmalloc_cfg \<Rightarrow> 'm kmem \<Rightarrow> ('m kmem \<times> u64) res" where
  "raw_kmalloc_nofill ops pages tag cfg km =
     rassert (rc_assign_pa cfg) (Panic ''TODO: dynamic mapping not implemented yet'') (
     if rc_kmap cfg then raw_kmalloc_kmap ops pages tag cfg km else raw_kmalloc_dynamic ops pages tag cfg km)"

definition fill_slot :: "'m mmu_ops \<Rightarrow> nat \<Rightarrow> 'm kmem \<Rightarrow> 'm kmem res" where
  "fill_slot ops i km =
     (if bitfield_get (reserved_pages km) i \<noteq> 0 then Inr km
      else
        rbind (raw_kmalloc_nofill ops 1 (str_addr km ''reserved page'') (RAW_KMALLOC_KMAP_CFG\<lparr>rc_fill_reserve := False\<rparr>) km) (\<lambda>(km, va).
        if length (reserved_addr km) \<le> i then Inl Fault
        else Inr (km\<lparr>reserved_addr := (reserved_addr km)[i := pv_ptr_new (kva_to_kpa va) va],
                     reserved_pages := bitfield_set_high (reserved_pages km) i\<rparr>)))"

text \<open>An allocation for the reserve can take pages from it, which is why the loop is repeated.\<close>

partial_function (option) fill_loop :: "'m mmu_ops \<Rightarrow> 'm kmem \<Rightarrow> 'm kmem res option" where
  "fill_loop ops km =
     (if reserved_pages km = NOT 0 then Some (Inr km)
      else case rfold (fill_slot ops) [0 ..< RESERVE_MALLOC_SIZE] km of
        Inl e \<Rightarrow> Some (Inl e)
      | Inr km \<Rightarrow> fill_loop ops km)"

declare fill_loop.simps [code]

definition reserve_malloc_fill :: "'m mmu_ops \<Rightarrow> 'm kmem \<Rightarrow> 'm kmem res" where
  "reserve_malloc_fill ops km = (case fill_loop ops km of None \<Rightarrow> Inl Diverge | Some r \<Rightarrow> r)"

definition raw_kmalloc :: "'m mmu_ops \<Rightarrow> u64 \<Rightarrow> u64 \<Rightarrow> raw_kmalloc_cfg \<Rightarrow> 'm kmem \<Rightarrow> ('m kmem \<times> u64) res" where
  "raw_kmalloc ops pages tag cfg km =
     rbind (raw_kmalloc_nofill ops pages tag cfg km) (\<lambda>(km, va).
     if rc_fill_reserve cfg then rbind (reserve_malloc_fill ops km) (\<lambda>km. Inr (km, va)) else Inr (km, va))"

end
