(* ===== verification/Raw_Correct.thy ===== *)
theory Raw_Correct
  imports Raw_Kmalloc "HOL-Library.Multiset"
begin

text \<open>
  Ownership of the pages that the kernel maps with its offset.  \<open>rk_inv km R\<close> says that \<open>R\<close> is a set of
  allocated blocks, given by virtual address and number of pages, that is apart from the pages that the
  memory management keeps for itself: the reserve and the containers of its nodes.  The lemmas show how the
  operations change it, down to the containers that are released in the middle of another operation.
\<close>

section \<open>Addresses\<close>

definition kblk :: "block \<Rightarrow> u64 \<times> nat" where
  "kblk b = (kpa_to_kva (ucast (fst b) * PAGE_SIZE), 2 ^ snd b)"

definition kend :: "u64 \<Rightarrow> u64" where
  "kend sp = sp + 2 ^ 47"

lemma small_high_bits:
  assumes "unat p < 2 ^ k" "k \<le> n"
  shows "\<not> bit (p :: u64) n"
proof
  assume "bit p n"
  hence "bit (unat p) n" by (simp add: bit_unsigned_iff)
  moreover have "(2 :: nat) ^ k \<le> 2 ^ n" using assms(2) by (simp add: power_increasing)
  hence "unat p < 2 ^ n" using assms(1) by (rule less_le_trans [rotated])
  hence "unat p div 2 ^ n = 0" by (rule div_less)
  ultimately show False by (simp add: bit_iff_odd)
qed

definition kbase :: u64 where "kbase = 2 ^ 47"

lemma bit_kbase [simp]: "bit kbase n \<longleftrightarrow> n = 47"
  unfolding kbase_def bit_exp_iff by (auto simp: possible_bit_def)

lemma unat_kbase: "unat kbase = 2 ^ 47" by (simp add: kbase_def)

lemma kva_off:
  assumes "unat p < 2 ^ 47"
  shows "unat (p + kbase) = unat p + 2 ^ 47" and "p + kbase = (p OR kbase)"
    and "unat (kpa_to_kva p) = unat p + (2 ^ 64 - 2 ^ 47)"
proof -
  have hb: "bit p n \<Longrightarrow> n < 47" for n using small_high_bits [OF assms, of n] by linarith
  show "unat (p + kbase) = unat p + 2 ^ 47" using assms by (simp add: unat_word_ariths unat_kbase)
  have "(p AND kbase) = 0" by (intro bit_word_eqI) (auto simp: bit_simps dest: hb)
  thus "p + kbase = (p OR kbase)" using word_plus_and_or [of p kbase] by simp
  have "(p AND KERNEL_BASE) = 0" unfolding KERNEL_BASE_mask
    by (intro bit_word_eqI) (auto simp: bit_simps dest: hb)
  hence "kpa_to_kva p = p + KERNEL_BASE" using word_plus_and_or [of p KERNEL_BASE] by (simp add: kpa_to_kva_def)
  moreover have "unat KERNEL_BASE = 2 ^ 64 - 2 ^ 47" by (simp add: KERNEL_BASE_def KERNEL_ADDR_BITS_def)
  ultimately show "unat (kpa_to_kva p) = unat p + (2 ^ 64 - 2 ^ 47)" using assms by (simp add: unat_word_ariths)
qed

lemma vunsign_kva: "unat p < 2 ^ 47 \<Longrightarrow> vunsign (kpa_to_kva p) = Inr (p + kbase)"
proof -
  assume p: "unat p < 2 ^ 47"
  have hb: "bit p n \<Longrightarrow> n < 47" for n using small_high_bits [OF p, of n] by linarith
  have "vunsign (kpa_to_kva p) = Inr (take_bit 48 (kpa_to_kva p))"
    unfolding vunsign_def MM_MMU_HI_BITS_def kpa_to_kva_def KERNEL_BASE_mask
    by (rule va_zero_extend_bits) (auto simp: bit_simps)
  also have "take_bit 48 (kpa_to_kva p) = (p OR kbase)"
    unfolding kpa_to_kva_def KERNEL_BASE_mask
    by (intro bit_word_eqI) (auto simp: bit_simps dest: hb)
  finally show ?thesis using kva_off(2) [OF p] by simp
qed

lemma vsign_kva: "unat p < 2 ^ 47 \<Longrightarrow> vsign (p + kbase) = Inr (kpa_to_kva p)"
proof -
  assume p: "unat p < 2 ^ 47"
  have hb: "bit p n \<Longrightarrow> n < 47" for n using small_high_bits [OF p, of n] by linarith
  have "\<forall>n. 48 \<le> n \<and> n < 64 \<longrightarrow> \<not> bit (p OR kbase) n" by (auto simp: bit_simps dest: hb)
  hence "vsign (p OR kbase) = Inr ((p OR kbase) OR NOT (mask 48))"
    unfolding vsign_def MM_MMU_HI_BITS_def
    by (subst va_sign_extend_bits) (auto simp: bit_simps)
  also have "((p OR kbase) OR NOT (mask 48)) = kpa_to_kva p"
    unfolding kpa_to_kva_def KERNEL_BASE_mask
    by (intro bit_word_eqI) (auto simp: bit_simps dest: hb)
  finally show ?thesis using kva_off(2) [OF p] by simp
qed

lemma kva_back: "unat p < 2 ^ 47 \<Longrightarrow> kva_to_kpa (kpa_to_kva p) = p \<and> is_kva (kpa_to_kva p)"
proof
  assume p: "unat p < 2 ^ 47"
  have hb: "bit p n \<Longrightarrow> n < 47" for n using small_high_bits [OF p, of n] by linarith
  have "(p AND KERNEL_BASE) = 0" unfolding KERNEL_BASE_mask
    by (intro bit_word_eqI) (auto simp: bit_simps dest: hb)
  thus "kva_to_kpa (kpa_to_kva p) = p" by (rule kva_kpa_inverse)
  show "is_kva (kpa_to_kva p)" using kva_off(3) [OF p]
    by (simp add: is_kva_def word_le_nat_alt KERNEL_BASE_def KERNEL_ADDR_BITS_def)
qed

section \<open>Ownership\<close>

text \<open>The addresses of the pages that the memory management keeps: those in the reserve and the containers
  behind the first ones, which are never released.\<close>

definition res_vas :: "'m kmem \<Rightarrow> u64 list" where
  "res_vas km = map (\<lambda>i. pv_va (reserved_addr km ! i))
     (filter (\<lambda>i. bitfield_get (reserved_pages km) i \<noteq> 0 \<and> i < length (reserved_addr km)) [0 ..< RESERVE_MALLOC_SIZE])"

definition ints :: "'m kmem \<Rightarrow> u64 multiset" where
  "ints km = mset (res_vas km) + mset (map fst (tl (fva_conts km))) + mset (map fst (tl (rva_conts km)))
     + mset (map fst (tl (mdt_conts km)))"

definition rk_core ::
  "page_state \<Rightarrow> u64 \<Rightarrow> (u64 \<times> rva_node) list \<Rightarrow> u64 multiset \<Rightarrow> u64 set \<Rightarrow> (u64 \<times> nat) set \<Rightarrow> bool" where
  "rk_core s sp xs M T R \<longleftrightarrow>
     (\<exists>A. page_repr s A \<and> R \<union> (\<lambda>v. (v, 1)) ` (set_mset M \<union> T) \<subseteq> kblk ` A) \<and>
     (\<forall>v. count M v \<le> 1) \<and> set_mset M \<inter> T = {} \<and> (set_mset M \<union> T) \<inter> fst ` R = {} \<and>
     ps_N s * 4096 \<le> unat sp \<and> unat sp < 2 ^ 47 \<and> (\<forall>(a, n) \<in> set xs. am_kmapped (rva_info n))"

type_synonym ktables = "u64 \<Rightarrow> (nat \<Rightarrow> mmu_hw_dc) option"

definition rk_inv :: "ktables kmem \<Rightarrow> (u64 \<times> nat) set \<Rightarrow> bool" where
  "rk_inv km R \<longleftrightarrow> rk_core (page_st km) (addr_space km) (rva_list km KMAP_LIST) (ints km) (dom (mmu_st km)) R"

lemma coreI:
  assumes "page_repr s A" "R \<subseteq> kblk ` A" "\<And>v. v \<in># M \<Longrightarrow> (v, 1) \<in> kblk ` A" "\<And>v. v \<in> T \<Longrightarrow> (v, 1) \<in> kblk ` A"
    "\<And>v. count M v \<le> 1" "\<And>v. v \<in># M \<Longrightarrow> v \<notin> T" "\<And>v n. v \<in># M \<Longrightarrow> (v, n) \<notin> R" "\<And>v n. v \<in> T \<Longrightarrow> (v, n) \<notin> R"
    "ps_N s * 4096 \<le> unat sp" "unat sp < 2 ^ 47" "\<And>a n. (a, n) \<in> set xs \<Longrightarrow> am_kmapped (rva_info n)"
  shows "rk_core s sp xs M T R"
  unfolding rk_core_def
proof (intro conjI exI [of _ A])
  show "R \<union> (\<lambda>v. (v, 1)) ` (set_mset M \<union> T) \<subseteq> kblk ` A" using assms(2-4) by blast
  show "set_mset M \<inter> T = {}" using assms(6) by blast
  show "(set_mset M \<union> T) \<inter> fst ` R = {}"
  proof (rule equals0I)
    fix v assume "v \<in> (set_mset M \<union> T) \<inter> fst ` R"
    then obtain n where "(v, n) \<in> R" "v \<in># M \<or> v \<in> T" by auto
    thus False using assms(7,8) by blast
  qed
  show "\<forall>(a, n) \<in> set xs. am_kmapped (rva_info n)" using assms(11) by auto
qed (use assms(1,5,9,10) in simp_all)

lemma coreE:
  assumes "rk_core s sp xs M T R"
  obtains A where "page_repr s A" "R \<subseteq> kblk ` A" "\<And>v. v \<in># M \<Longrightarrow> (v, 1) \<in> kblk ` A" "\<And>v. v \<in> T \<Longrightarrow> (v, 1) \<in> kblk ` A"
    "\<And>v. count M v \<le> 1" "\<And>v. v \<in># M \<Longrightarrow> v \<notin> T" "\<And>v n. v \<in># M \<Longrightarrow> (v, n) \<notin> R" "\<And>v n. v \<in> T \<Longrightarrow> (v, n) \<notin> R"
    "ps_N s * 4096 \<le> unat sp" "unat sp < 2 ^ 47" "\<And>a n. (a, n) \<in> set xs \<Longrightarrow> am_kmapped (rva_info n)"
proof -
  obtain A where A: "page_repr s A" "R \<union> (\<lambda>v. (v, 1)) ` (set_mset M \<union> T) \<subseteq> kblk ` A"
    using assms by (auto simp: rk_core_def)
  have k: "(a, n) \<in> set xs \<Longrightarrow> am_kmapped (rva_info n)" for a n using assms unfolding rk_core_def by fast
  have d: "set_mset M \<inter> T = {}" "(set_mset M \<union> T) \<inter> fst ` R = {}" "\<And>v. count M v \<le> 1"
    "ps_N s * 4096 \<le> unat sp" "unat sp < 2 ^ 47" using assms unfolding rk_core_def by simp_all
  have r: "v \<in> set_mset M \<union> T \<Longrightarrow> (v, n) \<notin> R" for v n using d(2) by force
  show ?thesis
  proof (rule that [OF A(1)])
    show "R \<subseteq> kblk ` A" "v \<in># M \<Longrightarrow> (v, 1) \<in> kblk ` A" "v \<in> T \<Longrightarrow> (v, 1) \<in> kblk ` A" for v using A(2) by blast+
    show "v \<in># M \<Longrightarrow> v \<notin> T" for v using d(1) by blast
    show "v \<in># M \<Longrightarrow> (v, n) \<notin> R" "v \<in> T \<Longrightarrow> (v, n) \<notin> R" for v n using r by blast+
  qed (use d k in simp_all)
qed

lemma core_sub:
  assumes c: "rk_core s sp xs M T R" and s: "M' \<subseteq># M" "T' \<subseteq> T" "R' \<subseteq> R"
    and k: "\<forall>(a, n) \<in> set ys. am_kmapped (rva_info n)"
  shows "rk_core s sp ys M' T' R'"
proof -
  have m: "v \<in># M' \<Longrightarrow> v \<in># M" for v using s(1) by (rule mset_subset_eqD)
  have n: "count M' v \<le> count M v" for v using s(1) by (rule mset_subset_eq_count)
  show ?thesis using c
  proof (rule coreE, goal_cases)
    case (1 A)
    show ?case
    proof (rule coreI [OF 1(1)])
      show "R' \<subseteq> kblk ` A" using 1(2) s(3) by (rule order_trans [rotated])
      show "count M' v \<le> 1" for v using n 1(5) by (rule le_trans)
      show "v \<in># M' \<Longrightarrow> (v, 1) \<in> kblk ` A" "v \<in># M' \<Longrightarrow> (v, n) \<notin> R'" "v \<in># M' \<Longrightarrow> v \<notin> T'" for v n
        using 1(3,6,7) [OF m [of v]] s(2,3) by blast+
      show "v \<in> T' \<Longrightarrow> (v, 1) \<in> kblk ` A" "v \<in> T' \<Longrightarrow> (v, n) \<notin> R'" for v n
        using 1(4,8) [of v] s(2,3) by blast+
      show "(a, n) \<in> set ys \<Longrightarrow> am_kmapped (rva_info n)" for a n using k by auto
    qed (fact 1(9,10))+
  qed
qed

lemma repr_block:
  assumes "page_repr s A" "b \<in> A"
  shows "2 ^ snd b dvd unat (fst b)" and "unat (fst b) + 2 ^ snd b \<le> ps_N s"
  using assms tiling_wf [of "ps_N s" _ "fst b" "snd b"] by (auto simp: page_repr_def pinv_def)

lemma repr_apart:
  assumes "page_repr s A" "b \<in> A" "c \<in> A" "b \<noteq> c"
  shows "blk b \<inter> blk c = {}"
  using assms by (auto simp: page_repr_def pinv_def tiling_def disjoint_blocks_def)

text \<open>The physical address of a block and its place among the addresses of the kernel.\<close>

lemma block_pa:
  assumes "page_repr s A" "b \<in> A" "ps_N s * 4096 \<le> unat sp" "unat sp < 2 ^ 47"
  shows "unat (ucast (fst b) * PAGE_SIZE :: u64) = unat (fst b) * 4096"
    and "unat (fst b) * 4096 + 2 ^ snd b * 4096 \<le> unat sp"
    and "unat (ucast (fst b) * PAGE_SIZE :: u64) < unat sp"
proof -
  have "(unat (fst b) + 2 ^ snd b) * 4096 \<le> ps_N s * 4096" using repr_block(2) [OF assms(1,2)] by simp
  hence b: "unat (fst b) * 4096 + 2 ^ snd b * 4096 \<le> unat sp" using assms(3) by (simp add: add_mult_distrib)
  thus "unat (fst b) * 4096 + 2 ^ snd b * 4096 \<le> unat sp" .
  have "0 < (2 :: nat) ^ snd b * 4096" by simp
  hence l: "unat (fst b) * 4096 < unat sp" using b by linarith
  hence "unat (fst b) * 4096 < 2 ^ 64" using assms(4) by simp
  thus e: "unat (ucast (fst b) * PAGE_SIZE :: u64) = unat (fst b) * 4096"
    by (simp add: unat_word_ariths unsigned_ucast_eq take_bit_eq_mod PAGE_SIZE_def)
  show "unat (ucast (fst b) * PAGE_SIZE :: u64) < unat sp" unfolding e by (rule l)
qed

lemma block_kva:
  assumes "page_repr s A" "b \<in> A" "ps_N s * 4096 \<le> unat sp" "unat sp < 2 ^ 47"
  shows "unat (fst (kblk b)) = unat (fst b) * 4096 + (2 ^ 64 - 2 ^ 47)" and "kva_to_kpa (fst (kblk b)) = ucast (fst b) * PAGE_SIZE"
    and "vunsign (fst (kblk b)) = Inr (ucast (fst b) * PAGE_SIZE + kbase)" and "is_kva (fst (kblk b))"
proof -
  have l: "unat (ucast (fst b) * PAGE_SIZE :: u64) < 2 ^ 47" using block_pa(3) [OF assms] assms(4) by linarith
  show "unat (fst (kblk b)) = unat (fst b) * 4096 + (2 ^ 64 - 2 ^ 47)"
    using kva_off(3) [OF l] block_pa(1) [OF assms] by (simp add: kblk_def)
  show "kva_to_kpa (fst (kblk b)) = ucast (fst b) * PAGE_SIZE" "is_kva (fst (kblk b))"
    using kva_back [OF l] by (simp_all add: kblk_def)
  show "vunsign (fst (kblk b)) = Inr (ucast (fst b) * PAGE_SIZE + kbase)" using vunsign_kva [OF l] by (simp add: kblk_def)
qed

lemma kblk_start:
  assumes "page_repr s A" "ps_N s * 4096 \<le> unat sp" "unat sp < 2 ^ 47" "b \<in> A" "c \<in> A" "fst (kblk b) = fst (kblk c)"
  shows "b = c"
proof (rule ccontr)
  assume "b \<noteq> c"
  hence "blk b \<inter> blk c = {}" using repr_apart assms(1,4,5) by blast
  moreover have "unat (fst b) = unat (fst c)"
    using block_kva(1) [OF assms(1,4,2,3)] block_kva(1) [OF assms(1,5,2,3)] assms(6) by simp
  ultimately show False by (auto simp: blk_def)
qed

text \<open>A page changes hands.\<close>

lemma core_start:
  assumes "page_repr s A" "ps_N s * 4096 \<le> unat sp" "unat sp < 2 ^ 47" "(v, m) \<in> kblk ` A" "(v, n) \<in> kblk ` A"
  shows "m = n"
proof -
  obtain b c where b: "b \<in> A" "kblk b = (v, m)" and c: "c \<in> A" "kblk c = (v, n)" using assms(4,5) by (metis imageE)
  have "b = c" by (rule kblk_start [OF assms(1-3) b(1) c(1)]) (simp add: b(2) c(2))
  thus ?thesis using b(2) c(2) by simp
qed

lemma core_absorb:
  assumes "rk_core s sp xs M T (insert (v, 1) R)" "(v, 1) \<notin> R"
  shows "rk_core s sp xs (add_mset v M) T R" and "rk_core s sp xs M (insert v T) R"
proof -
  obtain A where A: "page_repr s A" "insert (v, 1) R \<subseteq> kblk ` A" "\<And>v. v \<in># M \<Longrightarrow> (v, 1) \<in> kblk ` A"
    "\<And>v. v \<in> T \<Longrightarrow> (v, 1) \<in> kblk ` A" "\<And>v. count M v \<le> 1" "\<And>v. v \<in># M \<Longrightarrow> v \<notin> T"
    "\<And>w n. w \<in># M \<Longrightarrow> (w, n) \<notin> insert (v, 1) R" "\<And>w n. w \<in> T \<Longrightarrow> (w, n) \<notin> insert (v, 1) R"
    "ps_N s * 4096 \<le> unat sp" "unat sp < 2 ^ 47" "\<And>a n. (a, n) \<in> set xs \<Longrightarrow> am_kmapped (rva_info n)"
    by (rule coreE [OF assms(1)], rule that)
  have r: "(v, n) \<notin> R" for n
  proof
    assume n: "(v, n) \<in> R"
    hence "n = 1" using core_start [OF A(1,9,10), of v n 1] A(2) by blast
    thus False using n assms(2) by simp
  qed
  have m: "v \<notin># M" "v \<notin> T" using A(7,8) [of v 1] by blast+
  have c: "count (add_mset v M) w \<le> 1" for w using A(5) [of w] m(1) by (auto simp: not_in_iff)
  have v: "(v, 1) \<in> kblk ` A" "R \<subseteq> kblk ` A" using A(2) by blast+
  show "rk_core s sp xs (add_mset v M) T R"
  proof (rule coreI [OF A(1) v(2) _ A(4) c _ _ _ A(9,10,11)])
    fix w n assume "w \<in># add_mset v M"
    hence w: "w = v \<or> w \<in># M" by simp
    show "(w, 1) \<in> kblk ` A" "w \<notin> T" using w v(1) m(2) A(3,6) [of w] by blast+
    show "(w, n) \<notin> R" using w r A(7) [of w n] by blast
  qed (use A(8) in blast)+
  show "rk_core s sp xs M (insert v T) R"
  proof (rule coreI [OF A(1) v(2) A(3) _ A(5) _ _ _ A(9,10,11)])
    fix w n assume "w \<in> insert v T"
    hence w: "w = v \<or> w \<in> T" by simp
    show "(w, 1) \<in> kblk ` A" using w v(1) A(4) [of w] by blast
    show "(w, n) \<notin> R" using w r A(8) [of w n] by blast
  next
    fix w assume "w \<in># M"
    thus "w \<notin> insert v T" using m(1) A(6) [of w] by blast
  qed (use A(7) in blast)+
qed

lemma core_detach:
  assumes "rk_core s sp xs (add_mset v M) T R"
  shows "rk_core s sp xs M T (insert (v, 1) R)" and "(v, 1) \<notin> R"
proof -
  obtain A where A: "page_repr s A" "R \<subseteq> kblk ` A" "\<And>w. w \<in># add_mset v M \<Longrightarrow> (w, 1) \<in> kblk ` A"
    "\<And>v. v \<in> T \<Longrightarrow> (v, 1) \<in> kblk ` A" "\<And>w. count (add_mset v M) w \<le> 1" "\<And>w. w \<in># add_mset v M \<Longrightarrow> w \<notin> T"
    "\<And>w n. w \<in># add_mset v M \<Longrightarrow> (w, n) \<notin> R" "\<And>v n. v \<in> T \<Longrightarrow> (v, n) \<notin> R"
    "ps_N s * 4096 \<le> unat sp" "unat sp < 2 ^ 47" "\<And>a n. (a, n) \<in> set xs \<Longrightarrow> am_kmapped (rva_info n)"
    by (rule coreE [OF assms(1)], rule that)
  show "(v, 1) \<notin> R" using A(7) [of v 1] by simp
  have v: "v \<notin># M" using A(5) [of v] by (simp add: not_in_iff)
  have c: "count M w \<le> 1" for w using A(5) [of w] by (simp split: if_splits)
  have m: "w \<in># M \<Longrightarrow> w \<in># add_mset v M" for w by simp
  have v': "(v, 1) \<in> kblk ` A" "v \<notin> T" using A(3,6) [of v] by simp_all
  show "rk_core s sp xs M T (insert (v, 1) R)"
  proof (rule coreI [OF A(1) _ A(3) [OF m] A(4) c A(6) [OF m] _ _ A(9,10,11)])
    show "insert (v, 1) R \<subseteq> kblk ` A" using v'(1) A(2) by blast
    show "w \<in># M \<Longrightarrow> (w, n) \<notin> insert (v, 1) R" for w n using v A(7) [OF m, of w n] by blast
    show "w \<in> T \<Longrightarrow> (w, n) \<notin> insert (v, 1) R" for w n using v'(2) A(8) [of w n] by blast
  qed
qed

end
