(* ===== verification/Cache_Malloc.thy ===== *)
theory Cache_Malloc
  imports Kmath Dlinks Alloc_Iface
begin

text \<open>
  The allocator of small objects (\<open>kernel/mm/malloc/cache_malloc/cache_malloc.c\<close>).  For each of the nine
  sizes there is a list of caches, blocks of 4 or 8 pages with entries of that size, a bit for each
  entry, the links of the list and an identification word at the end.  A cache is a node of a doubly
  linked list whose data are the bits and the identification; the entries belong to the clients, and
  the words that a client wrote are the function \<open>cm_client\<close>.  The allocator of pages below
  (\<open>raw_kmalloc\<close> and \<open>raw_kfree\<close>) is a pair of functions on its own state \<open>cm_raw\<close>.
\<close>

section \<open>Sizes and layout\<close>

definition CACHE_CLASSES :: nat where
  "CACHE_CLASSES = 9"

definition CACHE_PAGES :: "nat \<Rightarrow> nat" where
  "CACHE_PAGES i = (if i < 7 then 4 else 8)"

definition CACHE_ENTRIES :: "nat \<Rightarrow> nat" where
  "CACHE_ENTRIES i = [2013, 1014, 509, 255, 127, 63, 31, 31, 15] ! i"

definition BF_BITS :: nat where
  "BF_BITS = 64"

definition CACHE_BITFIELDS :: "nat \<Rightarrow> nat" where
  "CACHE_BITFIELDS i = (CACHE_ENTRIES i + BF_BITS - 1) div BF_BITS"

definition CACHE_PADDING :: "nat \<Rightarrow> nat" where
  "CACHE_PADDING i = [0, 1, 1, 1, 11, 28, 60, 124, 252] ! i"

definition cache_size :: "nat \<Rightarrow> nat" where
  "cache_size i = 8 * 2 ^ i"

definition CACHE_ID_MASK :: u64 where
  "CACHE_ID_MASK = 0xF"

definition CACHE_ID_MAGIC :: u64 where
  "CACHE_ID_MAGIC = (0xAAAAAAAAAAAAAAAA AND NOT CACHE_ID_MASK)"

definition cache_bytes :: "nat \<Rightarrow> nat" where
  "cache_bytes i = CACHE_PAGES i * 4096"

section \<open>State\<close>

record cbody =
  cb_class :: nat
  reserved :: "u64 list"
  cache_id :: u64

record cm_class =
  first_cache :: u64
  last_cache :: u64
  ff_cache :: u64
  ff_n :: nat
  ff_i :: nat
  cache_count :: nat

record 'r cm_state =
  cm_classes :: "nat \<Rightarrow> cm_class"
  cm_cells :: "u64 \<Rightarrow> cbody dnode option"
  cm_client :: "u64 \<Rightarrow> u64"
  cm_raw :: 'r

definition cm_class_init :: cm_class where
  "cm_class_init = \<lparr>first_cache = 0, last_cache = 0, ff_cache = 0, ff_n = 0, ff_i = 0, cache_count = 0\<rparr>"

definition cache_malloc_init :: "'r cm_state \<Rightarrow> 'r cm_state" where
  "cache_malloc_init st = st\<lparr>cm_classes := (\<lambda>i. if i < CACHE_CLASSES then cm_class_init else cm_classes st i)\<rparr>"

definition upd_class :: "nat \<Rightarrow> (cm_class \<Rightarrow> cm_class) \<Rightarrow> 'r cm_state \<Rightarrow> 'r cm_state" where
  "upd_class i f st = st\<lparr>cm_classes := (cm_classes st)(i := f (cm_classes st i))\<rparr>"

text \<open>The enumerators of \<open>cache_malloc_size\<close> are the sizes of the classes.\<close>

definition cache_idx_from_size :: "u64 \<Rightarrow> nat res" where
  "cache_idx_from_size sz =
     rassert (8 \<le> sz \<and> sz \<le> 2048) (Panic ''size >= CACHE_8 && size <= CACHE_2048'')
       (Inr (unat (log2_floor_u64 sz) - unat (log2_floor_u64 8)))"

text \<open>The list of the caches of a class, and a cache of the class: at another address, or in a cache of
  another class, there are no such fields.\<close>

definition cm_list :: "nat \<Rightarrow> 'r cm_state \<Rightarrow> cbody dlinks" where
  "cm_list i st = \<lparr>d_head = first_cache (cm_classes st i), d_cells = cm_cells st\<rparr>"

definition get_generic_fields :: "nat \<Rightarrow> u64 \<Rightarrow> 'r cm_state \<Rightarrow> cbody dnode res" where
  "get_generic_fields i p st =
     (case cm_cells st p of
        None \<Rightarrow> Inl Fault
      | Some n \<Rightarrow> if p \<noteq> 0 \<and> cb_class (d_data n) = i then Inr n else Inl Fault)"

definition put_fields :: "u64 \<Rightarrow> cbody dnode \<Rightarrow> 'r cm_state \<Rightarrow> 'r cm_state" where
  "put_fields p n st = st\<lparr>cm_cells := (cm_cells st)(p \<mapsto> n)\<rparr>"

definition set_reserved :: "u64 list \<Rightarrow> cbody dnode \<Rightarrow> cbody dnode" where
  "set_reserved r n = n\<lparr>d_data := (d_data n)\<lparr>reserved := r\<rparr>\<rparr>"

section \<open>Free entries\<close>

function scan_bits :: "u64 \<Rightarrow> nat \<Rightarrow> nat \<Rightarrow> nat" where
  "scan_bits w entries j =
     (if j < entries then (if bitfield_get w j = 0 then j else scan_bits w entries (Suc j)) else j)"
  by pat_completeness auto
termination by (relation "measure (\<lambda>(w, e, j). e - j)") auto

declare scan_bits.simps [simp del]

definition bf_entries :: "nat \<Rightarrow> nat \<Rightarrow> nat" where
  "bf_entries i n = (if n < CACHE_ENTRIES i div BF_BITS then BF_BITS else CACHE_ENTRIES i mod BF_BITS)"

definition full_mask :: "nat \<Rightarrow> u64" where
  "full_mask entries = (if 64 \<le> entries then NOT 0 else push_bit entries 1 - 1)"

text \<open>The two indices are results also when nothing was found.\<close>

function find_empty_slot :: "nat \<Rightarrow> u64 list \<Rightarrow> bool \<Rightarrow> nat \<Rightarrow> nat \<Rightarrow> (bool \<times> nat \<times> nat) res" where
  "find_empty_slot i r first_iter bf_n bf_i =
     (if bf_n < CACHE_BITFIELDS i then
        if length r \<le> bf_n then Inl Fault
        else if r ! bf_n = full_mask (bf_entries i bf_n) then find_empty_slot i r False (Suc bf_n) bf_i
        else
          let k = scan_bits (r ! bf_n) (bf_entries i bf_n) (if first_iter then bf_i else 0) in
          if k < bf_entries i bf_n then Inr (True, bf_n, k)
          else find_empty_slot i r False (Suc bf_n) k
      else Inr (False, bf_n, bf_i))"
  by pat_completeness auto
termination by (relation "measure (\<lambda>(i, r, f, n, k). CACHE_BITFIELDS i - n)") auto

declare find_empty_slot.simps [simp del]

section \<open>Allocation\<close>

type_synonym 'r raw_malloc = "nat \<Rightarrow> 'r \<Rightarrow> ('r \<times> u64) res"
type_synonym 'r raw_free = "u64 \<Rightarrow> 'r \<Rightarrow> 'r res"

text \<open>The memory of a new cache is zeroed, also the words that will belong to the clients.\<close>

definition new_body :: "nat \<Rightarrow> cbody" where
  "new_body i = \<lparr>cb_class = i, reserved = replicate (CACHE_BITFIELDS i) 0, cache_id = CACHE_ID_MAGIC OR of_nat (i + 3)\<rparr>"

definition new_cache :: "'r raw_malloc \<Rightarrow> nat \<Rightarrow> u64 \<Rightarrow> 'r cm_state \<Rightarrow> ('r cm_state \<times> u64) res" where
  "new_cache raw i prev st =
     rbind (raw (CACHE_PAGES i) (cm_raw st)) (\<lambda>(r, p).
     let st = st\<lparr>cm_raw := r,
                 cm_client := (\<lambda>a. if unat p \<le> unat a \<and> unat a < unat p + cache_bytes i then 0 else cm_client st a)\<rparr>;
         st = put_fields p \<lparr>d_prev = prev, d_next = 0, d_data = new_body i\<rparr> st in
     Inr (upd_class i (\<lambda>c. c\<lparr>cache_count := cache_count c + 1\<rparr>) st, p))"

text \<open>The first cache from \<open>cur\<close> on with a free entry.\<close>

partial_function (option) search_caches ::
  "nat \<Rightarrow> 'r cm_state \<Rightarrow> u64 \<Rightarrow> (u64 \<times> nat \<times> nat) option res option" where
  "search_caches i st cur =
     (if cur = 0 then Some (Inr None)
      else case get_generic_fields i cur st of
        Inl e \<Rightarrow> Some (Inl e)
      | Inr c \<Rightarrow>
          (case find_empty_slot i (reserved (d_data c)) True 0 0 of
             Inl e \<Rightarrow> Some (Inl e)
           | Inr (found, n, k) \<Rightarrow>
               if found then Some (Inr (Some (cur, n, k))) else search_caches i st (d_next c)))"

declare search_caches.simps [code]

definition set_hint :: "u64 \<Rightarrow> nat \<Rightarrow> nat \<Rightarrow> cm_class \<Rightarrow> cm_class" where
  "set_hint p n k c = c\<lparr>ff_cache := p, ff_n := n, ff_i := k\<rparr>"

definition hint_of :: "(u64 \<times> nat \<times> nat) option \<Rightarrow> cm_class \<Rightarrow> cm_class" where
  "hint_of h = (case h of None \<Rightarrow> set_hint 0 0 0 | Some (p, n, k) \<Rightarrow> set_hint p n k)"

text \<open>The cache that is used: the one of the hint, or a new one at the end of the list.\<close>

definition pick_cache :: "'r raw_malloc \<Rightarrow> nat \<Rightarrow> 'r cm_state \<Rightarrow> ('r cm_state \<times> u64 \<times> nat \<times> nat) res" where
  "pick_cache raw i st =
     (let s = cm_classes st i in
      if ff_cache s \<noteq> 0 then Inr (st, ff_cache s, ff_n s, ff_i s)
      else
        rbind (new_cache raw i (last_cache s) st) (\<lambda>(st, p).
        rbind (if first_cache s = 0 then Inr (upd_class i (\<lambda>c. c\<lparr>first_cache := p\<rparr>) st)
               else rbind (get_generic_fields i (last_cache s) st) (\<lambda>l.
                    Inr (put_fields (last_cache s) (l\<lparr>d_next := p\<rparr>) st))) (\<lambda>st.
        Inr (upd_class i (\<lambda>c. c\<lparr>last_cache := p, ff_cache := p\<rparr>) st, p, 0, 0))))"

text \<open>The next free entry of the cache is taken, and the hint moves on to the one after it.\<close>

definition take_entry :: "nat \<Rightarrow> u64 \<Rightarrow> nat \<Rightarrow> nat \<Rightarrow> 'r cm_state \<Rightarrow> ('r cm_state \<times> u64) res" where
  "take_entry i p n k st =
     rbind (get_generic_fields i p st) (\<lambda>c.
     rbind (find_empty_slot i (reserved (d_data c)) True n k) (\<lambda>(found, n, k).
     rassert found (Panic ''slot_found'') (
     let r = (reserved (d_data c))[n := bitfield_set_high (reserved (d_data c) ! n) k];
         st = put_fields p (set_reserved r c) st;
         res = p + of_nat ((n * BF_BITS + k) * cache_size i) in
     rbind (find_empty_slot i r True n k) (\<lambda>(found, n, k).
     if found then Inr (upd_class i (set_hint p n k) st, res)
     else
       rbind (ends (search_caches i st (first_cache (cm_classes st i)))) (\<lambda>h.
       Inr (upd_class i (hint_of h) st, res))))))"

definition cache_malloc :: "'r raw_malloc \<Rightarrow> u64 \<Rightarrow> 'r cm_state \<Rightarrow> ('r cm_state \<times> u64) res" where
  "cache_malloc raw sz st =
     rbind (cache_idx_from_size sz) (\<lambda>i.
     if unat sz \<noteq> cache_size i then Inl Fault
     else rbind (pick_cache raw i st) (\<lambda>(st, p, n, k). take_entry i p n k st))"

section \<open>Release\<close>

text \<open>The word at an address: the identification of a cache that ends there, or a word of a client.\<close>

definition id_at :: "'r cm_state \<Rightarrow> nat \<Rightarrow> u64 \<Rightarrow> u64 option" where
  "id_at st pages a =
     (case cm_cells st (a - of_nat (pages * 4096 - 8)) of
        None \<Rightarrow> None
      | Some n \<Rightarrow> if CACHE_PAGES (cb_class (d_data n)) = pages then Some (cache_id (d_data n)) else None)"

definition cm_word :: "'r cm_state \<Rightarrow> u64 \<Rightarrow> u64" where
  "cm_word st a = (case id_at st 4 a of Some w \<Rightarrow> w | None \<Rightarrow> (case id_at st 8 a of Some w \<Rightarrow> w | None \<Rightarrow> cm_client st a))"

definition id_word :: "'r cm_state \<Rightarrow> u64 \<Rightarrow> nat \<Rightarrow> u64" where
  "id_word st p pages = cm_word st (align_down p (of_nat (pages * 4096)) + of_nat (pages * 4096 - 8))"

definition has_magic :: "u64 \<Rightarrow> bool" where
  "has_magic w = ((w AND CACHE_ID_MAGIC) = CACHE_ID_MAGIC)"

definition cache_malloc_size_from_ptr :: "'r cm_state \<Rightarrow> u64 \<Rightarrow> u64 option" where
  "cache_malloc_size_from_ptr st p =
     (if has_magic (id_word st p 4) then Some (power_of2 (id_word st p 4 AND CACHE_ID_MASK))
      else if has_magic (id_word st p 8) then Some (power_of2 (id_word st p 8 AND CACHE_ID_MASK))
      else None)"

text \<open>A cache without entries in use leaves the list.\<close>

definition unlink_links :: "nat \<Rightarrow> cbody dnode \<Rightarrow> 'r cm_state \<Rightarrow> 'r cm_state res" where
  "unlink_links i f st =
     rbind (if d_prev f \<noteq> 0
            then rbind (get_generic_fields i (d_prev f) st) (\<lambda>n. Inr (put_fields (d_prev f) (n\<lparr>d_next := d_next f\<rparr>) st))
            else Inr (upd_class i (\<lambda>c. c\<lparr>first_cache := d_next f\<rparr>) st)) (\<lambda>st.
     if d_next f \<noteq> 0
     then rbind (get_generic_fields i (d_next f) st) (\<lambda>n. Inr (put_fields (d_next f) (n\<lparr>d_prev := d_prev f\<rparr>) st))
     else Inr (upd_class i (\<lambda>c. c\<lparr>last_cache := d_prev f\<rparr>) st))"

definition unlink_cache :: "nat \<Rightarrow> u64 \<Rightarrow> cbody dnode \<Rightarrow> 'r cm_state \<Rightarrow> 'r cm_state res" where
  "unlink_cache i p f st =
     rbind (unlink_links i f st) (\<lambda>st.
     let st = (if ff_cache (cm_classes st i) = p then upd_class i (set_hint 0 0 0) st else st);
         st = upd_class i (\<lambda>c. c\<lparr>cache_count := cache_count c - 1\<rparr>) st in
     if ff_cache (cm_classes st i) = 0 then
       rbind (ends (search_caches i st (first_cache (cm_classes st i)))) (\<lambda>h.
       Inr (case h of None \<Rightarrow> st | Some (q, n, k) \<Rightarrow> upd_class i (set_hint q n k) st))
     else Inr st)"

text \<open>The entry of the pointer is given back, and the cache too when it was the last one.\<close>

definition free_entry :: "'r raw_free \<Rightarrow> nat \<Rightarrow> u64 \<Rightarrow> u64 \<Rightarrow> 'r cm_state \<Rightarrow> 'r cm_state res" where
  "free_entry rawfree i sz ptr st =
     (let p = align_down ptr (of_nat (cache_bytes i)) in
      rbind (get_generic_fields i p st) (\<lambda>f.
      let entry = unat (ptr - p) div unat sz; n = entry div BF_BITS; k = entry mod BF_BITS; r = reserved (d_data f) in
      if length r \<le> n then Inl Fault
      else
        rassert (bitfield_get (r ! n) k \<noteq> 0) (Panic ''cache_free: double free'') (
        let r = r[n := bitfield_clear (r ! n) k]; f = set_reserved r f; st = put_fields p f st in
        if list_ex (\<lambda>w. w \<noteq> 0) r then
          Inr (if ff_cache (cm_classes st i) = 0 then upd_class i (set_hint p n k) st else st)
        else
          rbind (unlink_cache i p f st) (\<lambda>st.
          rbind (rawfree p (cm_raw st)) (\<lambda>rw.
          Inr (st\<lparr>cm_cells := (cm_cells st)(p := None), cm_raw := rw\<rparr>))))))"

definition cache_free :: "'r raw_free \<Rightarrow> u64 \<Rightarrow> 'r cm_state \<Rightarrow> 'r cm_state res" where
  "cache_free rawfree ptr st =
     (case cache_malloc_size_from_ptr st ptr of
        None \<Rightarrow> Inl (Panic ''cache_free: provided pointer does not relate to a valid cache allocation'')
      | Some sz \<Rightarrow> rbind (cache_idx_from_size sz) (\<lambda>i. free_entry rawfree i sz ptr st))"

end
