(* ===== verification/Cache_Slots.thy ===== *)
theory Cache_Slots
  imports Cache_Malloc
begin

text \<open>
  The entries of a cache and its bits: what the search for a free entry finds, and the layout of a
  cache in memory.
\<close>

section \<open>Entries and bits\<close>

definition taken :: "nat \<Rightarrow> cbody \<Rightarrow> nat set" where
  "taken i b = {e. e < CACHE_ENTRIES i \<and> bit (reserved b ! (e div BF_BITS)) (e mod BF_BITS)}"

definition body_ok :: "nat \<Rightarrow> cbody \<Rightarrow> bool" where
  "body_ok i b \<longleftrightarrow>
     cb_class b = i \<and> length (reserved b) = CACHE_BITFIELDS i
     \<and> (\<forall>n < CACHE_BITFIELDS i. \<forall>k. bf_entries i n \<le> k \<longrightarrow> \<not> bit (reserved b ! n) k)
     \<and> cache_id b = (CACHE_ID_MAGIC OR of_nat (i + 3))"

lemma entry_index_arith:
  fixes E q m n k :: nat
  assumes "E = q * 64 + m" "m < 64"
  shows "n < (if m = 0 then q else q + 1) \<and> k < (if n < q then 64 else m) \<longleftrightarrow> n * 64 + k < E \<and> k < 64"
proof -
  consider "n < q" | "n = q" | "q < n" by linarith
  thus ?thesis
  proof cases
    case 1
    hence "n * 64 + 64 \<le> q * 64" by linarith
    thus ?thesis using 1 assms by auto
  next
    case 2
    thus ?thesis using assms by auto
  next
    case 3
    hence "q * 64 + 64 \<le> n * 64" by linarith
    thus ?thesis using 3 assms by auto
  qed
qed

lemma entry_index:
  "n < CACHE_BITFIELDS i \<and> k < bf_entries i n \<longleftrightarrow> n * BF_BITS + k < CACHE_ENTRIES i \<and> k < BF_BITS"
proof -
  obtain q m where qm: "CACHE_ENTRIES i div 64 = q" "CACHE_ENTRIES i mod 64 = m" by blast
  have E: "CACHE_ENTRIES i = q * 64 + m" "m < 64" using qm by auto
  have "CACHE_BITFIELDS i = (if m = 0 then q else q + 1)"
  proof (cases "m = 0")
    case True
    thus ?thesis using E by (simp add: CACHE_BITFIELDS_def BF_BITS_def)
  next
    case False
    hence "CACHE_ENTRIES i + 64 - 1 = (m - 1) + (q + 1) * 64" using E by simp
    thus ?thesis using False E(2) unfolding CACHE_BITFIELDS_def BF_BITS_def by simp
  qed
  thus ?thesis using entry_index_arith [OF E, of n k] unfolding bf_entries_def BF_BITS_def qm by simp
qed

lemma bf_entries_le: "bf_entries i n \<le> 64"
  by (simp add: bf_entries_def BF_BITS_def mod_le_divisor less_imp_le)

lemma bit_full_mask: "e \<le> 64 \<Longrightarrow> bit (full_mask e) j \<longleftrightarrow> j < e"
  by (cases "e = 64") (auto simp: full_mask_def bit_simps exp_minus_one_mask push_bit_one_exp)

lemma bitfield_get_zero: "bitfield_get w j = 0 \<longleftrightarrow> \<not> bit w j" for w :: "'a::len word"
  by (simp add: bitfield_get_def and_one_eq bit_iff_odd_drop_bit even_iff_mod_2_eq_zero)

lemma scan_bits_free: "scan_bits w e j < e \<Longrightarrow> \<not> bit w (scan_bits w e j)"
proof (induction w e j rule: scan_bits.induct)
  case (1 w e j)
  thus ?case using scan_bits.simps [of w e j] by (auto simp: bitfield_get_zero split: if_splits)
qed

lemma scan_bits_full: "j \<le> x \<Longrightarrow> x < e \<Longrightarrow> \<not> scan_bits w e j < e \<Longrightarrow> bit w x"
proof (induction w e j rule: scan_bits.induct)
  case (1 w e j)
  thus ?case using scan_bits.simps [of w e j]
    by (cases "x = j") (auto simp: bitfield_get_zero split: if_splits)
qed

text \<open>What \<open>find_empty_slot\<close> finds is free, and when it finds nothing everything from the start on is taken.\<close>

lemma find_empty_slot_spec:
  assumes "length r = CACHE_BITFIELDS i"
  shows "\<exists>f n' k'. find_empty_slot i r first n k = Inr (f, n', k')
     \<and> (f \<longrightarrow> n' < CACHE_BITFIELDS i \<and> k' < bf_entries i n' \<and> \<not> bit (r ! n') k')
     \<and> (\<not> f \<longrightarrow> (\<forall>m j. n \<le> m \<longrightarrow> m < CACHE_BITFIELDS i \<longrightarrow> j < bf_entries i m \<longrightarrow> (m = n \<longrightarrow> first \<longrightarrow> k \<le> j) \<longrightarrow> bit (r ! m) j))"
  using assms
proof (induction i r first n k rule: find_empty_slot.induct)
  case (1 i r first n k)
  let ?e = "bf_entries i n" and ?j = "if first then k else 0"
  let ?s = "scan_bits (r ! n) ?e ?j"
  have up: "n \<le> m \<longleftrightarrow> m = n \<or> Suc n \<le> m" for m by auto
  consider "CACHE_BITFIELDS i \<le> n" | "n < CACHE_BITFIELDS i" "r ! n = full_mask ?e"
    | "n < CACHE_BITFIELDS i" "r ! n \<noteq> full_mask ?e" "?s < ?e"
    | "n < CACHE_BITFIELDS i" "r ! n \<noteq> full_mask ?e" "\<not> ?s < ?e" by linarith
  thus ?case
  proof cases
    case 1
    thus ?thesis by (subst find_empty_slot.simps) auto
  next
    case 2
    have lr: "\<not> length r \<le> n" using 2 1(3) by simp
    have "find_empty_slot i r first n k = find_empty_slot i r False (Suc n) k"
      using 2 lr by (subst find_empty_slot.simps) simp
    moreover have "\<forall>j < ?e. bit (r ! n) j" using 2(2) bit_full_mask [OF bf_entries_le] by simp
    ultimately show ?thesis using 1(1) [OF 2(1) lr 2(2) 1(3)] by (auto simp: up)
  next
    case 3
    have lr: "\<not> length r \<le> n" using 3 1(3) by simp
    have "find_empty_slot i r first n k = Inr (True, n, ?s)"
      using 3 lr by (subst find_empty_slot.simps) (simp add: Let_def)
    thus ?thesis using 3 scan_bits_free [OF 3(3)] by auto
  next
    case 4
    have lr: "\<not> length r \<le> n" using 4 1(3) by simp
    have "find_empty_slot i r first n k = find_empty_slot i r False (Suc n) ?s"
      using 4 lr by (subst find_empty_slot.simps) (simp add: Let_def)
    moreover have "\<forall>j. ?j \<le> j \<longrightarrow> j < ?e \<longrightarrow> bit (r ! n) j" using scan_bits_full [OF _ _ 4(3)] by blast
    ultimately show ?thesis using 1(2) [OF 4(1) lr 4(2) refl 4(3) 1(3)] by (auto simp: up)
  qed
qed

section \<open>Taking and giving back an entry\<close>

definition slot_free :: "nat \<Rightarrow> cbody \<Rightarrow> nat \<Rightarrow> nat \<Rightarrow> bool" where
  "slot_free i b n k \<longleftrightarrow> n < CACHE_BITFIELDS i \<and> k < bf_entries i n \<and> \<not> bit (reserved b ! n) k"

definition all_taken :: "nat \<Rightarrow> cbody \<Rightarrow> bool" where
  "all_taken i b \<longleftrightarrow> taken i b = {..< CACHE_ENTRIES i}"

lemma entry_split: "e < CACHE_ENTRIES i \<Longrightarrow> e div BF_BITS < CACHE_BITFIELDS i \<and> e mod BF_BITS < bf_entries i (e div BF_BITS)"
  using entry_index [of "e div BF_BITS" i "e mod BF_BITS"] by (simp add: BF_BITS_def)

lemma slot_entry:
  assumes "n < CACHE_BITFIELDS i" "k < bf_entries i n"
  shows "n * BF_BITS + k < CACHE_ENTRIES i" and "(n * BF_BITS + k) div BF_BITS = n" and "(n * BF_BITS + k) mod BF_BITS = k"
proof -
  have "n * BF_BITS + k < CACHE_ENTRIES i" "k < BF_BITS" using assms entry_index by blast+
  thus "n * BF_BITS + k < CACHE_ENTRIES i" and "(n * BF_BITS + k) div BF_BITS = n" and "(n * BF_BITS + k) mod BF_BITS = k"
    by (simp_all add: BF_BITS_def)
qed

lemma slot_free_entry: "slot_free i b n k \<Longrightarrow> n * BF_BITS + k < CACHE_ENTRIES i \<and> n * BF_BITS + k \<notin> taken i b"
  using slot_entry [of n i k] by (auto simp: slot_free_def taken_def)

lemma find_empty_slot_all:
  assumes "body_ok i b" "find_empty_slot i (reserved b) True 0 0 = Inr (f, n, k)"
  shows "if f then slot_free i b n k else all_taken i b"
proof (cases f)
  case True
  thus ?thesis using find_empty_slot_spec [of "reserved b" i True 0 0] assms
    by (auto simp: body_ok_def slot_free_def)
next
  case False
  hence "\<forall>m j. m < CACHE_BITFIELDS i \<longrightarrow> j < bf_entries i m \<longrightarrow> bit (reserved b ! m) j"
    using find_empty_slot_spec [of "reserved b" i True 0 0] assms by (auto simp: body_ok_def)
  thus ?thesis using False entry_split by (auto simp: all_taken_def taken_def)
qed

lemma find_empty_slot_some:
  assumes "body_ok i b" "find_empty_slot i (reserved b) True n k = Inr (f, n', k')" 
  shows "(f \<longrightarrow> slot_free i b n' k') \<and> (slot_free i b n k \<longrightarrow> f)"
  using find_empty_slot_spec [of "reserved b" i True n k] assms
  by (auto simp: body_ok_def slot_free_def)

lemma find_empty_slot_total: "body_ok i b \<Longrightarrow> \<exists>f n' k'. find_empty_slot i (reserved b) first n k = Inr (f, n', k')"
  using find_empty_slot_spec [of "reserved b" i first n k] by (auto simp: body_ok_def)

definition take_slot :: "nat \<Rightarrow> nat \<Rightarrow> cbody \<Rightarrow> cbody" where
  "take_slot n k b = b\<lparr>reserved := (reserved b)[n := bitfield_set_high (reserved b ! n) k]\<rparr>"

definition drop_slot :: "nat \<Rightarrow> nat \<Rightarrow> cbody \<Rightarrow> cbody" where
  "drop_slot n k b = b\<lparr>reserved := (reserved b)[n := bitfield_clear (reserved b ! n) k]\<rparr>"

lemma taken_mono_upd:
  assumes "length (reserved b) = CACHE_BITFIELDS i" "n < CACHE_BITFIELDS i" "k < bf_entries i n"
    and "\<forall>j. bit w j \<longleftrightarrow> (if j = k then v else bit (reserved b ! n) j)"
  shows "taken i (b\<lparr>reserved := (reserved b)[n := w]\<rparr>)
     = (if v then insert (n * BF_BITS + k) (taken i b) else taken i b - {n * BF_BITS + k})"
proof -
  have "e \<in> taken i (b\<lparr>reserved := (reserved b)[n := w]\<rparr>) \<longleftrightarrow>
      e < CACHE_ENTRIES i \<and> (if e = n * BF_BITS + k then v else bit (reserved b ! (e div BF_BITS)) (e mod BF_BITS))" for e
  proof (cases "e div BF_BITS = n")
    case True
    have "e = n * BF_BITS + k \<longleftrightarrow> e mod BF_BITS = k"
      using True slot_entry(3) [OF assms(2,3)] div_mult_mod_eq [of e BF_BITS] by metis
    thus ?thesis using True assms by (simp add: taken_def)
  next
    case False
    hence "e \<noteq> n * BF_BITS + k" using slot_entry(2) [OF assms(2,3)] by auto
    thus ?thesis using False by (simp add: taken_def)
  qed
  thus ?thesis using slot_entry(1) [OF assms(2,3)] by (auto simp: taken_def)
qed

lemma bf_entry_64: "k < bf_entries i n \<Longrightarrow> k < 64"
  using bf_entries_le [of i n] by simp

lemma take_slot_ok:
  assumes "body_ok i b" "slot_free i b n k"
  shows "body_ok i (take_slot n k b)" and "taken i (take_slot n k b) = insert (n * BF_BITS + k) (taken i b)"
proof -
  have k: "k < 64" using assms(2) bf_entry_64 by (auto simp: slot_free_def)
  show "taken i (take_slot n k b) = insert (n * BF_BITS + k) (taken i b)"
    unfolding take_slot_def using assms k taken_mono_upd [of b i n k _ True]
    by (simp add: body_ok_def slot_free_def bit_bitfield_set_high)
  show "body_ok i (take_slot n k b)"
    using assms k by (auto simp: take_slot_def body_ok_def slot_free_def bit_bitfield_set_high nth_list_update)
qed

lemma drop_slot_ok:
  assumes "body_ok i b" "n < CACHE_BITFIELDS i" "k < bf_entries i n"
  shows "body_ok i (drop_slot n k b)" and "taken i (drop_slot n k b) = taken i b - {n * BF_BITS + k}"
proof -
  show "taken i (drop_slot n k b) = taken i b - {n * BF_BITS + k}"
    unfolding drop_slot_def using assms taken_mono_upd [of b i n k _ False]
    by (simp add: body_ok_def bit_bitfield_clear)
  show "body_ok i (drop_slot n k b)"
    using assms by (auto simp: drop_slot_def body_ok_def bit_bitfield_clear nth_list_update)
qed

lemma any_taken:
  assumes "body_ok i b"
  shows "list_ex (\<lambda>w. w \<noteq> 0) (reserved b) \<longleftrightarrow> taken i b \<noteq> {}"
proof
  assume "list_ex (\<lambda>w. w \<noteq> 0) (reserved b)"
  then obtain n where n: "n < CACHE_BITFIELDS i" "reserved b ! n \<noteq> 0"
    using assms by (auto simp: list_ex_length body_ok_def)
  then obtain k where k: "bit (reserved b ! n) k" by (auto simp: bit_eq_iff)
  hence "k < bf_entries i n" using assms n(1) by (meson body_ok_def not_le)
  hence "n * BF_BITS + k \<in> taken i b" using slot_entry [OF n(1)] k by (simp add: taken_def)
  thus "taken i b \<noteq> {}" by blast
next
  assume "taken i b \<noteq> {}"
  then obtain e where e: "e < CACHE_ENTRIES i" "bit (reserved b ! (e div BF_BITS)) (e mod BF_BITS)"
    by (auto simp: taken_def)
  hence "reserved b ! (e div BF_BITS) \<noteq> 0" by auto
  thus "list_ex (\<lambda>w. w \<noteq> 0) (reserved b)"
    using entry_split [OF e(1)] assms by (auto simp: list_ex_length body_ok_def)
qed

lemma empty_body:
  assumes "i < CACHE_CLASSES"
  shows "body_ok i (new_body i)"
    and "taken i (new_body i) = {}"
    and "slot_free i (new_body i) 0 0"
proof -
  have "0 < CACHE_ENTRIES i" using assms
    by (auto simp: CACHE_CLASSES_def CACHE_ENTRIES_def less_Suc_eq numeral_eq_Suc)
  hence "0 < CACHE_BITFIELDS i \<and> 0 < bf_entries i 0" using entry_split [of 0 i] by simp
  thus "slot_free i (new_body i) 0 0"
    by (simp add: slot_free_def new_body_def)
qed (use entry_split in \<open>auto simp: body_ok_def taken_def new_body_def\<close>)

end
