(* ===== verification/Cache_Class.thy ===== *)
theory Cache_Class
  imports Cache_Slots
begin

text \<open>
  The caches of one class.  \<open>crep i st xs\<close> says that the caches of class \<open>i\<close> are the list \<open>xs\<close> of addresses
  and contents; the lemmas give the effect on that list of the search, of a new cache, of a change of the bits
  and of the removal of a cache.
\<close>

section \<open>The invariant of a class\<close>

definition hint_ok :: "nat \<Rightarrow> cm_class \<Rightarrow> (u64 \<times> cbody) list \<Rightarrow> bool" where
  "hint_ok i c xs \<longleftrightarrow>
     (if ff_cache c = 0 then \<forall>(p, b) \<in> set xs. all_taken i b
      else \<exists>b. (ff_cache c, b) \<in> set xs \<and> slot_free i b (ff_n c) (ff_i c))"

definition class_list :: "nat \<Rightarrow> 'r cm_state \<Rightarrow> (u64 \<times> cbody) list \<Rightarrow> bool" where
  "class_list i st xs \<longleftrightarrow>
     dlist (cm_list i st) xs \<and> (\<forall>(p, b) \<in> set xs. body_ok i b)
     \<and> last_cache (cm_classes st i) = last_addr 0 xs \<and> cache_count (cm_classes st i) = length xs"

definition crep :: "nat \<Rightarrow> 'r cm_state \<Rightarrow> (u64 \<times> cbody) list \<Rightarrow> bool" where
  "crep i st xs \<longleftrightarrow>
     class_list i st xs \<and> hint_ok i (cm_classes st i) xs \<and> (\<forall>(p, b) \<in> set xs. taken i b \<noteq> {})"

lemma upd_class_simps [simp]:
  "cm_classes (upd_class i f st) = (cm_classes st)(i := f (cm_classes st i))"
  "cm_cells (upd_class i f st) = cm_cells st" "cm_client (upd_class i f st) = cm_client st"
  "cm_raw (upd_class i f st) = cm_raw st"
  by (simp_all add: upd_class_def)

lemma put_fields_simps [simp]:
  "cm_cells (put_fields p n st) = (cm_cells st)(p \<mapsto> n)" "cm_classes (put_fields p n st) = cm_classes st"
  "cm_client (put_fields p n st) = cm_client st" "cm_raw (put_fields p n st) = cm_raw st"
  by (simp_all add: put_fields_def)

lemma cm_list_simps [simp]: "d_cells (cm_list i st) = cm_cells st" "d_head (cm_list i st) = first_cache (cm_classes st i)"
  by (simp_all add: cm_list_def)

lemma class_list_frame:
  assumes "cm_classes st' j = cm_classes st j" "\<forall>a \<in> fst ` set xs. cm_cells st' a = cm_cells st a"
  shows "class_list j st' xs = class_list j st xs"
  using dseg_frame [OF assms(2)] assms(1) by (simp add: class_list_def dlist_def)

lemma crep_frame:
  assumes "cm_classes st' j = cm_classes st j" "\<forall>a \<in> fst ` set xs. cm_cells st' a = cm_cells st a"
  shows "crep j st' xs = crep j st xs"
  using class_list_frame [OF assms] assms(1) by (simp add: crep_def)

lemma class_list_hint:
  "class_list j (upd_class i (set_hint p n k) st) xs = class_list j st xs"
  "class_list j (upd_class i (hint_of h) st) xs = class_list j st xs"
  by (auto simp: class_list_def dlist_def set_hint_def hint_of_def split: option.splits)

lemma class_list_get:
  assumes "class_list i st xs" "(p, b) \<in> set xs"
  shows "\<exists>n. get_generic_fields i p st = Inr n \<and> cm_cells st p = Some n \<and> d_data n = b \<and> p \<noteq> 0 \<and> body_ok i b"
proof -
  have d: "dlist (cm_list i st) xs" and b: "body_ok i b" using assms by (auto simp: class_list_def)
  obtain n where n: "cm_cells st p = Some n" "d_data n = b" using dlist_cell [OF d assms(2)] by auto
  have "p \<noteq> 0" using dlist_nonnull [OF d assms(2)] by simp
  thus ?thesis using n b by (simp add: get_generic_fields_def body_ok_def)
qed

section \<open>The search\<close>

lemma search_caches_spec:
  assumes "dseg (cm_cells st) pv p xs 0" "\<forall>(q, b) \<in> set xs. body_ok i b"
  shows "\<exists>h. search_caches i st p = Some (Inr h)
     \<and> (case h of None \<Rightarrow> \<forall>(q, b) \<in> set xs. all_taken i b
        | Some (q, n, k) \<Rightarrow> \<exists>b. (q, b) \<in> set xs \<and> slot_free i b n k)"
  using assms
proof (induction xs arbitrary: pv p)
  case Nil
  thus ?case by (subst search_caches.simps) simp
next
  case (Cons y xs)
  obtain a b where y: "y = (a, b)" by fastforce
  obtain nx where nx: "p = a" "a \<noteq> 0" "cm_cells st a = Some \<lparr>d_prev = pv, d_next = nx, d_data = b\<rparr>"
      "dseg (cm_cells st) a nx xs 0"
    using Cons.prems(1) y by auto
  have b: "body_ok i b" using Cons.prems(2) y by simp
  have g: "get_generic_fields i a st = Inr \<lparr>d_prev = pv, d_next = nx, d_data = b\<rparr>"
    using nx b by (simp add: get_generic_fields_def body_ok_def)
  obtain f n k where f: "find_empty_slot i (reserved b) True 0 0 = Inr (f, n, k)"
    using find_empty_slot_total [OF b] by blast
  show ?case
  proof (cases f)
    case True
    hence "search_caches i st p = Some (Inr (Some (a, n, k)))"
      using nx g f by (subst search_caches.simps) simp
    thus ?thesis using find_empty_slot_all [OF b f] True y by auto
  next
    case False
    hence "search_caches i st p = search_caches i st nx"
      using nx g f by (subst search_caches.simps) simp
    moreover obtain h where h: "search_caches i st nx = Some (Inr h)"
        "case h of None \<Rightarrow> \<forall>(q, b) \<in> set xs. all_taken i b
         | Some (q, n, k) \<Rightarrow> \<exists>b. (q, b) \<in> set xs \<and> slot_free i b n k"
      using Cons.IH [OF nx(4)] Cons.prems(2) by auto
    ultimately show ?thesis using find_empty_slot_all [OF b f] False y
      by (cases h) (auto split: prod.splits)
  qed
qed

lemma search_class:
  assumes "class_list i st xs"
  shows "\<exists>h. search_caches i st (first_cache (cm_classes st i)) = Some (Inr h) \<and> hint_ok i (hint_of h (cm_classes st i)) xs"
proof -
  have d: "dseg (cm_cells st) 0 (first_cache (cm_classes st i)) xs 0" "\<forall>(q, b) \<in> set xs. body_ok i b"
    using assms by (auto simp: class_list_def dlist_def)
  obtain h where h: "search_caches i st (first_cache (cm_classes st i)) = Some (Inr h)"
      "case h of None \<Rightarrow> \<forall>(q, b) \<in> set xs. all_taken i b
       | Some (q, n, k) \<Rightarrow> \<exists>b. (q, b) \<in> set xs \<and> slot_free i b n k"
    using search_caches_spec [OF d] by blast
  have "0 \<notin> fst ` set xs" using dseg_nonnull [OF d(1)] .
  hence "hint_ok i (hint_of h (cm_classes st i)) xs"
    using h(2) by (auto simp: hint_ok_def hint_of_def set_hint_def split: option.splits prod.splits) force
  thus ?thesis using h(1) by blast
qed

section \<open>A new cache\<close>

lemma pick_cache_hint:
  "ff_cache (cm_classes st i) \<noteq> 0 \<Longrightarrow>
     pick_cache raw i st = Inr (st, ff_cache (cm_classes st i), ff_n (cm_classes st i), ff_i (cm_classes st i))"
  by (simp add: pick_cache_def Let_def)

lemma pick_cache_new:
  assumes "class_list i st xs" "ff_cache (cm_classes st i) = 0"
    and "raw (CACHE_PAGES i) (cm_raw st) = Inr (r, p)" "p \<noteq> 0" "p \<notin> fst ` set xs" "i < CACHE_CLASSES"
  shows "\<exists>st'. pick_cache raw i st = Inr (st', p, 0, 0) \<and> class_list i st' (xs @ [(p, new_body i)])
     \<and> cm_raw st' = r \<and> (\<forall>a. a \<notin> insert p (fst ` set xs) \<longrightarrow> cm_cells st' a = cm_cells st a)
     \<and> (\<forall>j. j \<noteq> i \<longrightarrow> cm_classes st' j = cm_classes st j)
     \<and> (\<forall>a. \<not> (unat p \<le> unat a \<and> unat a < unat p + cache_bytes i) \<longrightarrow> cm_client st' a = cm_client st a)"
proof (cases xs rule: rev_cases)
  case Nil
  thus ?thesis using assms empty_body [OF assms(6)]
    by (auto simp: pick_cache_def new_cache_def class_list_def dlist_def Let_def)
next
  case (snoc ys bz)
  obtain b z where bz: "bz = (b, z)" by fastforce
  have d: "dseg (cm_cells st) 0 (first_cache (cm_classes st i)) ys b" "b \<noteq> 0" "b \<notin> fst ` set ys"
      "cm_cells st b = Some \<lparr>d_prev = last_addr 0 ys, d_next = 0, d_data = z\<rparr>" "body_ok i z"
      "distinct (map fst ys)" "\<forall>(p, b) \<in> set ys. body_ok i b" "last_cache (cm_classes st i) = b"
      "cache_count (cm_classes st i) = Suc (length ys)" "p \<noteq> b" "p \<notin> fst ` set ys"
    using assms(1,5) by (auto simp: snoc bz class_list_def dlist_def dseg_last)
  have "cb_class z = i" using d(5) by (simp add: body_ok_def)
  moreover have "first_cache (cm_classes st i) \<noteq> 0"
    using d(1,2) dseg_nonnull [OF d(1)] by (cases ys) auto
  ultimately show ?thesis using d assms(2-4) empty_body(1) [OF assms(6)]
    by (auto simp: pick_cache_def new_cache_def class_list_def dlist_def Let_def get_generic_fields_def
        snoc bz dseg_append last_addr_append)
qed

section \<open>The bits of a cache\<close>

lemma class_list_body:
  assumes "class_list i st (xs @ (p, b) # ys)" "cm_cells st p = Some n" "body_ok i (b\<lparr>reserved := r\<rparr>)"
  shows "class_list i (put_fields p (set_reserved r n) st) (xs @ (p, b\<lparr>reserved := r\<rparr>) # ys)"
proof -
  have d: "dlist (cm_list i st) (xs @ (p, b) # ys)" using assms(1) by (simp add: class_list_def)
  have "d_data n = b" using dlist_cell [OF d, of p b] assms(2) by simp
  moreover have "cm_list i (put_fields p (set_reserved r n) st)
      = (cm_list i st)\<lparr>d_cells := (cm_cells st)(p \<mapsto> n\<lparr>d_data := (d_data n)\<lparr>reserved := r\<rparr>\<rparr>)\<rparr>"
    by (simp add: cm_list_def set_reserved_def)
  ultimately have "dlist (cm_list i (put_fields p (set_reserved r n) st)) (xs @ (p, b\<lparr>reserved := r\<rparr>) # ys)"
    using dlist_set_data [OF d, of n "b\<lparr>reserved := r\<rparr>"] assms(2) by simp
  moreover have "last_addr 0 (xs @ (p, b\<lparr>reserved := r\<rparr>) # ys) = last_addr 0 (xs @ (p, b) # ys)"
    by (simp add: last_addr_def)
  ultimately show ?thesis using assms(1,3) by (auto simp: class_list_def)
qed

section \<open>The removal of a cache\<close>

lemma get_put_upd:
  assumes "d_upd p f (cm_list i st) = Inr t" "\<forall>n. cm_cells st p = Some n \<longrightarrow> cb_class (d_data n) = i"
  shows "rbind (get_generic_fields i p st) (\<lambda>n. Inr (put_fields p (f n) st)) = Inr (st\<lparr>cm_cells := d_cells t\<rparr>)
     \<and> d_head t = first_cache (cm_classes st i)"
  using assms
  by (auto simp: d_upd_def d_at_def get_generic_fields_def put_fields_def split: if_splits option.splits)

lemma unlink_links_spec:
  assumes "class_list i st (xs @ (p, b) # ys)" "cm_cells st p = Some f"
  shows "\<exists>st'. unlink_links i f st = Inr st' \<and> dlist (cm_list i st') (xs @ ys)
     \<and> cm_classes st' = (cm_classes st)(i := (cm_classes st i)
           \<lparr>first_cache := first_cache (cm_classes st' i), last_cache := last_addr 0 (xs @ ys)\<rparr>)
     \<and> cm_raw st' = cm_raw st \<and> cm_client st' = cm_client st
     \<and> (\<forall>a. a \<notin> fst ` set (xs @ ys) \<longrightarrow> cm_cells st' a = cm_cells st a)"
proof -
  have d: "dlist (cm_list i st) (xs @ (p, b) # ys)" and ok: "\<forall>(p, b) \<in> set (xs @ (p, b) # ys). body_ok i b"
    using assms(1) by (auto simp: class_list_def)
  obtain t' where t': "d_unlink f (cm_list i st) = Inr t'" "dlist t' (xs @ ys)" "d_outside (cm_list i st) t' (xs @ ys)"
    using d_unlink_list [OF d, of f] assms(2) by auto
  have nx: "d_next f = (case ys of [] \<Rightarrow> 0 | y # _ \<Rightarrow> fst y)" and pv: "d_prev f = last_addr 0 xs"
    using d assms(2) dseg_end [of "cm_cells st" p "d_next f" ys] by (auto simp: dlist_def dseg_append)
  have cls: "cm_cells st a = Some n \<Longrightarrow> a \<in> fst ` set (xs @ ys) \<Longrightarrow> cb_class (d_data n) = i" for a n
    using dlist_cell [OF d, of a] ok by (fastforce simp: body_ok_def)
  have cls': "d_cells t' a = Some n \<Longrightarrow> a \<in> fst ` set (xs @ ys) \<Longrightarrow> cb_class (d_data n) = i" for a n
    using dlist_cell [OF t'(2), of a] ok by (fastforce simp: body_ok_def)
  obtain t1 where A: "(if d_prev f \<noteq> 0 then d_upd (d_prev f) (\<lambda>n. n\<lparr>d_next := d_next f\<rparr>) (cm_list i st)
        else Inr ((cm_list i st)\<lparr>d_head := d_next f\<rparr>)) = Inr t1"
    and B: "(if d_next f \<noteq> 0 then d_upd (d_next f) (\<lambda>n. n\<lparr>d_prev := d_prev f\<rparr>) t1 else Inr t1) = Inr t'"
    using t'(1) by (auto simp: d_unlink_def rbind_eq_Inr)
  let ?s1 = "upd_class i (\<lambda>c. c\<lparr>first_cache := d_head t1\<rparr>) (st\<lparr>cm_cells := d_cells t1\<rparr>)"
  have l1: "cm_list i ?s1 = t1" by (simp add: cm_list_def)
  have s1: "(if d_prev f \<noteq> 0
            then rbind (get_generic_fields i (d_prev f) st) (\<lambda>n. Inr (put_fields (d_prev f) (n\<lparr>d_next := d_next f\<rparr>) st))
            else Inr (upd_class i (\<lambda>c. c\<lparr>first_cache := d_next f\<rparr>) st)) = Inr ?s1"
  proof (cases "d_prev f = 0")
    case True
    thus ?thesis using A by (auto simp: upd_class_def cm_list_def)
  next
    case False
    hence "d_prev f \<in> fst ` set (xs @ ys)" using pv last_addr_in [of 0 xs] by auto
    thus ?thesis using False A get_put_upd [of "d_prev f" _ i st t1] cls by (auto simp: upd_class_def)
  qed
  let ?s2 = "upd_class i (\<lambda>c. c\<lparr>last_cache := last_addr 0 (xs @ ys)\<rparr>) (?s1\<lparr>cm_cells := d_cells t'\<rparr>)"
  have la: "last_cache (cm_classes st i) = last_addr p ys" using assms(1) by (simp add: class_list_def last_addr_append)
  have "(if d_next f \<noteq> 0
     then rbind (get_generic_fields i (d_next f) ?s1) (\<lambda>n. Inr (put_fields (d_next f) (n\<lparr>d_prev := d_prev f\<rparr>) ?s1))
     else Inr (upd_class i (\<lambda>c. c\<lparr>last_cache := d_prev f\<rparr>) ?s1)) = Inr ?s2"
  proof (cases "d_next f = 0")
    case True
    hence "ys = []" using nx dlist_nonnull [OF d] by (cases ys) auto
    thus ?thesis using True B pv by (simp add: upd_class_def)
  next
    case False
    then obtain y zs where ys: "ys = y # zs" "d_next f = fst y" using nx by (cases ys) auto
    have "\<forall>n. cm_cells ?s1 (d_next f) = Some n \<longrightarrow> cb_class (d_data n) = i"
      using False B cls' [of "d_next f"] ys by (auto simp: d_upd_def d_at_def split: if_splits option.splits)
    hence "rbind (get_generic_fields i (d_next f) ?s1) (\<lambda>n. Inr (put_fields (d_next f) (n\<lparr>d_prev := d_prev f\<rparr>) ?s1))
        = Inr (?s1\<lparr>cm_cells := d_cells t'\<rparr>)"
      using False B get_put_upd [of "d_next f" "\<lambda>n. n\<lparr>d_prev := d_prev f\<rparr>" i ?s1 t'] unfolding l1 by simp
    moreover have "last_addr 0 (xs @ ys) = last_cache (cm_classes st i)" using la ys by (simp add: last_addr_append)
    ultimately show ?thesis using False by (simp add: upd_class_def)
  qed
  hence "unlink_links i f st = Inr ?s2" unfolding unlink_links_def s1 by simp
  moreover have "cm_list i ?s2 = t'" using B by (auto simp: cm_list_def d_upd_def rbind_eq_Inr split: if_splits)
  moreover have "\<forall>a. a \<notin> fst ` set (xs @ ys) \<longrightarrow> d_cells t' a = cm_cells st a" using t'(3) by (simp add: d_outside_def)
  ultimately show ?thesis using t'(2) by auto
qed

lemma unlink_cache_spec:
  assumes "class_list i st (xs @ (p, b) # ys)" "cm_cells st p = Some f"
    and "ff_cache (cm_classes st i) \<in> {0, p} \<or> hint_ok i (cm_classes st i) (xs @ ys)"
  shows "\<exists>st'. unlink_cache i p f st = Inr st' \<and> class_list i st' (xs @ ys) \<and> hint_ok i (cm_classes st' i) (xs @ ys)
     \<and> cm_raw st' = cm_raw st \<and> cm_client st' = cm_client st
     \<and> (\<forall>a. a \<notin> fst ` set (xs @ ys) \<longrightarrow> cm_cells st' a = cm_cells st a)
     \<and> (\<forall>j. j \<noteq> i \<longrightarrow> cm_classes st' j = cm_classes st j)"
proof -
  obtain s1 where s1: "unlink_links i f st = Inr s1" "dlist (cm_list i s1) (xs @ ys)"
     "cm_classes s1 = (cm_classes st)(i := (cm_classes st i)
           \<lparr>first_cache := first_cache (cm_classes s1 i), last_cache := last_addr 0 (xs @ ys)\<rparr>)"
     "cm_raw s1 = cm_raw st" "cm_client s1 = cm_client st"
     "\<forall>a. a \<notin> fst ` set (xs @ ys) \<longrightarrow> cm_cells s1 a = cm_cells st a"
    using unlink_links_spec [OF assms(1,2)] by blast
  define s3 where "s3 = upd_class i (\<lambda>c. c\<lparr>cache_count := cache_count c - 1\<rparr>)
     (if ff_cache (cm_classes s1 i) = p then upd_class i (set_hint 0 0 0) s1 else s1)"
  have c1: "last_cache (cm_classes s1 i) = last_addr 0 (xs @ ys)" "cache_count (cm_classes s1 i) = cache_count (cm_classes st i)"
     "ff_cache (cm_classes s1 i) = ff_cache (cm_classes st i)" "ff_n (cm_classes s1 i) = ff_n (cm_classes st i)"
     "ff_i (cm_classes s1 i) = ff_i (cm_classes st i)" "\<forall>j. j \<noteq> i \<longrightarrow> cm_classes s1 j = cm_classes st j"
    by (subst s1(3), simp)+
  have cl: "class_list i s3 (xs @ ys)"
    using assms(1) s1(2) c1 by (auto simp: s3_def class_list_def dlist_def set_hint_def)
  have fr: "cm_raw s3 = cm_raw st" "cm_client s3 = cm_client st"
     "\<forall>a. a \<notin> fst ` set (xs @ ys) \<longrightarrow> cm_cells s3 a = cm_cells st a" "\<forall>j. j \<noteq> i \<longrightarrow> cm_classes s3 j = cm_classes st j"
    using s1(4-6) c1(6) by (auto simp: s3_def)
  have uc: "unlink_cache i p f st =
     (if ff_cache (cm_classes s3 i) = 0 then
       rbind (ends (search_caches i s3 (first_cache (cm_classes s3 i)))) (\<lambda>h.
       Inr (case h of None \<Rightarrow> s3 | Some (q, n, k) \<Rightarrow> upd_class i (set_hint q n k) s3))
     else Inr s3)"
    unfolding unlink_cache_def s1(1) s3_def Let_def by simp
  show ?thesis
  proof (cases "ff_cache (cm_classes s3 i) = 0")
    case True
    obtain h where h: "search_caches i s3 (first_cache (cm_classes s3 i)) = Some (Inr h)"
        "hint_ok i (hint_of h (cm_classes s3 i)) (xs @ ys)"
      using search_class [OF cl] by blast
    let ?s4 = "case h of None \<Rightarrow> s3 | Some (q, n, k) \<Rightarrow> upd_class i (set_hint q n k) s3"
    have "unlink_cache i p f st = Inr ?s4" using uc h(1) True by (simp add: ends_def)
    moreover have "class_list i ?s4 (xs @ ys)"
      using cl by (auto simp: class_list_hint split: option.splits)
    moreover have "hint_ok i (cm_classes ?s4 i) (xs @ ys)"
      using h(2) True by (auto simp: hint_of_def hint_ok_def set_hint_def split: option.splits)
    moreover have "cm_raw ?s4 = cm_raw s3 \<and> cm_client ?s4 = cm_client s3 \<and> cm_cells ?s4 = cm_cells s3
        \<and> (\<forall>j. j \<noteq> i \<longrightarrow> cm_classes ?s4 j = cm_classes s3 j)"
      by (auto split: option.splits)
    ultimately show ?thesis using fr by metis
  next
    case False
    hence "ff_cache (cm_classes st i) \<noteq> p" "ff_cache (cm_classes st i) \<noteq> 0"
      using c1(3) by (auto simp: s3_def set_hint_def split: if_splits)
    hence "hint_ok i (cm_classes s3 i) (xs @ ys)"
      using assms(3) c1 by (simp add: s3_def hint_ok_def)
    thus ?thesis using uc False cl fr by auto
  qed
qed

section \<open>Taking an entry\<close>

lemma take_entry_spec:
  assumes cl: "class_list i st (xs @ (p, b) # ys)" and fr: "slot_free i b n k"
    and tk: "\<forall>(q, c) \<in> set (xs @ ys). taken i c \<noteq> {}"
  shows "\<exists>st' n1 k1. take_entry i p n k st = Inr (st', p + of_nat ((n1 * BF_BITS + k1) * cache_size i))
     \<and> slot_free i b n1 k1 \<and> crep i st' (xs @ (p, take_slot n1 k1 b) # ys)
     \<and> cm_raw st' = cm_raw st \<and> cm_client st' = cm_client st \<and> (\<forall>a. a \<noteq> p \<longrightarrow> cm_cells st' a = cm_cells st a)
     \<and> (\<forall>j. j \<noteq> i \<longrightarrow> cm_classes st' j = cm_classes st j)"
proof -
  obtain c where c: "get_generic_fields i p st = Inr c" "cm_cells st p = Some c" "d_data c = b" "p \<noteq> 0" "body_ok i b"
    using class_list_get [OF cl, of p b] by auto
  obtain f n1 k1 where f: "find_empty_slot i (reserved b) True n k = Inr (f, n1, k1)"
    using find_empty_slot_total [OF c(5)] by blast
  have f1: "f" "slot_free i b n1 k1" using find_empty_slot_some [OF c(5) f] fr by auto
  let ?b = "take_slot n1 k1 b"
  have b: "body_ok i ?b" "taken i ?b \<noteq> {}" using take_slot_ok [OF c(5) f1(2)] by auto
  let ?s1 = "put_fields p (set_reserved (reserved ?b) c) st"
  have cl1: "class_list i ?s1 (xs @ (p, ?b) # ys)"
    using class_list_body [OF cl c(2), of "reserved ?b"] b(1) by (simp add: take_slot_def)
  have tk1: "\<forall>(q, c) \<in> set (xs @ (p, ?b) # ys). taken i c \<noteq> {}" using tk b(2) by auto
  obtain g n2 k2 where g: "find_empty_slot i (reserved ?b) True n1 k1 = Inr (g, n2, k2)"
    using find_empty_slot_total [OF b(1)] by blast
  have te: "take_entry i p n k st = (if g then Inr (upd_class i (set_hint p n2 k2) ?s1, p + of_nat ((n1 * BF_BITS + k1) * cache_size i))
      else rbind (ends (search_caches i ?s1 (first_cache (cm_classes ?s1 i)))) (\<lambda>h.
         Inr (upd_class i (hint_of h) ?s1, p + of_nat ((n1 * BF_BITS + k1) * cache_size i))))"
    using c(1,3) f f1(1) g unfolding take_entry_def by (simp add: rassert_def take_slot_def Let_def)
  show ?thesis
  proof (cases g)
    case True
    have "slot_free i ?b n2 k2" using find_empty_slot_some [OF b(1) g] True by simp
    hence "crep i (upd_class i (set_hint p n2 k2) ?s1) (xs @ (p, ?b) # ys)"
      using cl1 tk1 c(4) unfolding crep_def class_list_hint by (auto simp: hint_ok_def set_hint_def)
    thus ?thesis using te True f1(2) by auto
  next
    case False
    obtain h where h: "search_caches i ?s1 (first_cache (cm_classes ?s1 i)) = Some (Inr h)"
        "hint_ok i (hint_of h (cm_classes ?s1 i)) (xs @ (p, ?b) # ys)"
      using search_class [OF cl1] by blast
    hence "crep i (upd_class i (hint_of h) ?s1) (xs @ (p, ?b) # ys)"
      using cl1 tk1 unfolding crep_def class_list_hint by simp
    thus ?thesis using te False f1(2) h(1) by (auto simp: ends_def)
  qed
qed

section \<open>Giving an entry back\<close>

lemma hint_ok_other:
  assumes "hint_ok i c (xs @ (p, b) # ys)" "ff_cache c \<noteq> 0" "ff_cache c \<noteq> p"
  shows "hint_ok i c (xs @ ys)" and "hint_ok i c (xs @ (p, b') # ys)"
  using assms by (auto simp: hint_ok_def)

lemma slot_free_drop: "slot_free i b n k \<Longrightarrow> slot_free i (drop_slot m j b) n k"
  by (cases "n = m"; cases "m < length (reserved b)")
    (auto simp: slot_free_def drop_slot_def bit_bitfield_clear list_update_beyond)

text \<open>The pointer \<open>ptr\<close> is to entry \<open>e\<close> of the cache at \<open>p\<close>, which is in use.\<close>

lemma free_entry_keep:
  assumes cr: "crep i st (xs @ (p, b) # ys)" and e: "e \<in> taken i b" "taken i b \<noteq> {e}"
    and ptr: "align_down ptr (of_nat (cache_bytes i)) = p" "unat (ptr - p) div unat sz = e"
  shows "\<exists>st'. free_entry rawfree i sz ptr st = Inr st'
     \<and> crep i st' (xs @ (p, drop_slot (e div BF_BITS) (e mod BF_BITS) b) # ys)
     \<and> cm_raw st' = cm_raw st \<and> cm_client st' = cm_client st \<and> (\<forall>a. a \<noteq> p \<longrightarrow> cm_cells st' a = cm_cells st a)
     \<and> (\<forall>j. j \<noteq> i \<longrightarrow> cm_classes st' j = cm_classes st j)"
proof -
  let ?n = "e div BF_BITS" and ?k = "e mod BF_BITS"
  let ?b = "drop_slot ?n ?k b"
  have cl: "class_list i st (xs @ (p, b) # ys)" and hi: "hint_ok i (cm_classes st i) (xs @ (p, b) # ys)"
    and tk: "\<forall>(q, c) \<in> set (xs @ ys). taken i c \<noteq> {}" using cr by (auto simp: crep_def)
  obtain c where c: "get_generic_fields i p st = Inr c" "cm_cells st p = Some c" "d_data c = b" "p \<noteq> 0" "body_ok i b"
    using class_list_get [OF cl, of p b] by auto
  have nk: "?n < CACHE_BITFIELDS i" "?k < bf_entries i ?n" "bit (reserved b ! ?n) ?k" "?n * BF_BITS + ?k = e"
    using e(1) entry_split [of e i] by (auto simp: taken_def)
  have b: "body_ok i ?b" "taken i ?b \<noteq> {}" using drop_slot_ok [OF c(5) nk(1,2)] e nk(4) by auto
  have sf: "slot_free i ?b ?n ?k" using nk c(5) by (simp add: slot_free_def drop_slot_def body_ok_def bit_bitfield_clear)
  let ?s1 = "put_fields p (set_reserved (reserved ?b) c) st"
  have cl1: "class_list i ?s1 (xs @ (p, ?b) # ys)"
    using class_list_body [OF cl c(2), of "reserved ?b"] b(1) by (simp add: drop_slot_def)
  have len: "\<not> length (reserved b) \<le> ?n" "list_ex (\<lambda>w. w \<noteq> 0) (reserved ?b)"
    using nk(1) c(5) any_taken [OF b(1)] b(2) by (auto simp: body_ok_def)
  let ?s2 = "if ff_cache (cm_classes ?s1 i) = 0 then upd_class i (set_hint p ?n ?k) ?s1 else ?s1"
  have "free_entry rawfree i sz ptr st = Inr ?s2"
    using c(1,3) nk(3) len unfolding free_entry_def ptr Let_def
    by (simp add: rassert_def drop_slot_def bitfield_get_zero)
  moreover have "hint_ok i (cm_classes ?s2 i) (xs @ (p, ?b) # ys)"
  proof -
    consider "ff_cache (cm_classes st i) = 0" | "ff_cache (cm_classes st i) = p" | "ff_cache (cm_classes st i) \<notin> {0, p}"
      by blast
    thus ?thesis
    proof cases
      case 1
      thus ?thesis using sf c(4) by (auto simp: hint_ok_def set_hint_def)
    next
      case 2
      then obtain b' where b': "(p, b') \<in> set (xs @ (p, b) # ys)" "slot_free i b' (ff_n (cm_classes st i)) (ff_i (cm_classes st i))"
        using hi c(4) by (auto simp: hint_ok_def)
      have "b' = b" using dlist_unique [of "cm_list i st" "xs @ (p, b) # ys" p b' b] b'(1) cl by (simp add: class_list_def)
      hence "slot_free i ?b (ff_n (cm_classes st i)) (ff_i (cm_classes st i))" using slot_free_drop b'(2) by blast
      thus ?thesis using 2 c(4) by (auto simp: hint_ok_def)
    next
      case 3
      thus ?thesis using hint_ok_other(2) [OF hi] by simp
    qed
  qed
  moreover have "class_list i ?s2 (xs @ (p, ?b) # ys)" using cl1 by (simp add: class_list_hint)
  moreover have "\<forall>(q, c) \<in> set (xs @ (p, ?b) # ys). taken i c \<noteq> {}" using tk b(2) by auto
  ultimately show ?thesis by (auto simp: crep_def)
qed

lemma free_entry_last:
  assumes cr: "crep i st (xs @ (p, b) # ys)" and e: "taken i b = {e}"
    and ptr: "align_down ptr (of_nat (cache_bytes i)) = p" "unat (ptr - p) div unat sz = e"
  shows "\<exists>st'. free_entry rawfree i sz ptr st = rbind (rawfree p (cm_raw st)) (\<lambda>rw. Inr (st'\<lparr>cm_raw := rw\<rparr>))
     \<and> crep i st' (xs @ ys) \<and> cm_client st' = cm_client st \<and> cm_cells st' p = None
     \<and> (\<forall>a. a \<notin> fst ` set (xs @ (p, b) # ys) \<longrightarrow> cm_cells st' a = cm_cells st a)
     \<and> (\<forall>j. j \<noteq> i \<longrightarrow> cm_classes st' j = cm_classes st j)"
proof -
  let ?n = "e div BF_BITS" and ?k = "e mod BF_BITS"
  let ?b = "drop_slot ?n ?k b"
  have cl: "class_list i st (xs @ (p, b) # ys)" and hi: "hint_ok i (cm_classes st i) (xs @ (p, b) # ys)"
    and tk: "\<forall>(q, c) \<in> set (xs @ ys). taken i c \<noteq> {}" using cr by (auto simp: crep_def)
  obtain c where c: "get_generic_fields i p st = Inr c" "cm_cells st p = Some c" "d_data c = b" "p \<noteq> 0" "body_ok i b"
    using class_list_get [OF cl, of p b] by auto
  have "e \<in> taken i b" using e by simp
  hence nk: "?n < CACHE_BITFIELDS i" "?k < bf_entries i ?n" "bit (reserved b ! ?n) ?k" "?n * BF_BITS + ?k = e"
    using entry_split [of e i] by (auto simp: taken_def)
  have b: "body_ok i ?b" "taken i ?b = {}" using drop_slot_ok [OF c(5) nk(1,2)] e nk(4) by auto
  let ?f = "set_reserved (reserved ?b) c"
  let ?s1 = "put_fields p ?f st"
  have cl1: "class_list i ?s1 (xs @ (p, ?b) # ys)"
    using class_list_body [OF cl c(2), of "reserved ?b"] b(1) by (simp add: drop_slot_def)
  have h1: "ff_cache (cm_classes ?s1 i) \<in> {0, p} \<or> hint_ok i (cm_classes ?s1 i) (xs @ ys)"
    using hint_ok_other(1) [OF hi] by auto
  obtain s2 where s2: "unlink_cache i p ?f ?s1 = Inr s2" "class_list i s2 (xs @ ys)" "hint_ok i (cm_classes s2 i) (xs @ ys)"
     "cm_raw s2 = cm_raw st" "cm_client s2 = cm_client st"
     "\<forall>a. a \<notin> fst ` set (xs @ ys) \<longrightarrow> cm_cells s2 a = cm_cells ?s1 a" "\<forall>j. j \<noteq> i \<longrightarrow> cm_classes s2 j = cm_classes st j"
    using unlink_cache_spec [OF cl1 _ h1, of ?f] by auto
  have len: "\<not> length (reserved b) \<le> ?n" "\<not> list_ex (\<lambda>w. w \<noteq> 0) (reserved ?b)"
    using nk(1) c(5) any_taken [OF b(1)] b(2) by (auto simp: body_ok_def)
  let ?s3 = "s2\<lparr>cm_cells := (cm_cells s2)(p := None)\<rparr>"
  have "free_entry rawfree i sz ptr st = rbind (rawfree p (cm_raw st)) (\<lambda>rw. Inr (?s3\<lparr>cm_raw := rw\<rparr>))"
    using c(1,3) nk(3) len s2(1,4) unfolding free_entry_def ptr Let_def
    by (simp add: rassert_def drop_slot_def bitfield_get_zero)
  moreover have "p \<notin> fst ` set (xs @ ys)" using cl by (auto simp: class_list_def dlist_def)
  moreover from this have "crep i ?s3 (xs @ ys)"
    using crep_frame [of ?s3 i s2 "xs @ ys"] s2(2,3) tk by (force simp: crep_def)
  ultimately show ?thesis using s2(5-7) by (intro exI [of _ ?s3]) auto
qed

end
