(* ===== verification/Cache_Ident.thy ===== *)
theory Cache_Ident
  imports Cache_Class
begin

text \<open>
  All the caches together: where they lie in memory, which objects are in use, and what
  \<open>cache_malloc_size_from_ptr\<close> finds for a pointer to one of them.
\<close>

section \<open>Layout\<close>

definition pg_span :: "u64 \<times> nat \<Rightarrow> nat set" where
  "pg_span b = {unat (fst b) ..< unat (fst b) + snd b * 4096}"

definition obj_span :: "u64 \<times> nat \<Rightarrow> nat set" where
  "obj_span b = {unat (fst b) ..< unat (fst b) + snd b}"

lemma class_cases: "i < CACHE_CLASSES \<Longrightarrow> i \<in> {0, 1, 2, 3, 4, 5, 6, 7, 8}"
  by (auto simp: CACHE_CLASSES_def)

lemma class_layout:
  assumes "i < CACHE_CLASSES"
  shows "CACHE_ENTRIES i * cache_size i + 8 * CACHE_BITFIELDS i + 16 + 8 * CACHE_PADDING i + 8 = cache_bytes i"
  using class_cases [OF assms]
  by (auto simp: CACHE_ENTRIES_def cache_size_def CACHE_BITFIELDS_def CACHE_PADDING_def cache_bytes_def CACHE_PAGES_def BF_BITS_def)

lemma class_size_pos [simp]: "0 < cache_size i"
  by (simp add: cache_size_def)

lemma entry_end:
  assumes "i < CACHE_CLASSES" "e < CACHE_ENTRIES i"
  shows "e * cache_size i + cache_size i \<le> CACHE_ENTRIES i * cache_size i" "e * cache_size i + cache_size i + 24 \<le> cache_bytes i"
proof -
  have "Suc e * cache_size i \<le> CACHE_ENTRIES i * cache_size i" using assms(2) by (intro mult_le_mono1) simp
  thus "e * cache_size i + cache_size i \<le> CACHE_ENTRIES i * cache_size i" by simp
  thus "e * cache_size i + cache_size i + 24 \<le> cache_bytes i" using class_layout [OF assms(1)] by linarith
qed

lemma cache_bytes_pow: "cache_bytes i = 2 ^ (if i < 7 then 14 else 15)"
  by (simp add: cache_bytes_def CACHE_PAGES_def)

lemma idx_of_size: "i < CACHE_CLASSES \<Longrightarrow> cache_idx_from_size (of_nat (cache_size i)) = Inr i \<and> unat (of_nat (cache_size i) :: u64) = cache_size i"
  by (drule class_cases, elim insertE emptyE)
    (simp_all add: cache_idx_from_size_def cache_size_def rassert_def unat_log2_floor_u64 bit_length.simps)

lemma idx_of_nibble:
  assumes "cache_idx_from_size (power_of2 (w AND CACHE_ID_MASK)) = Inr j"
  shows "j < CACHE_CLASSES \<and> power_of2 (w AND CACHE_ID_MASK) = of_nat (cache_size j)"
proof -
  define n where "n = unat (w AND CACHE_ID_MASK)"
  define sz where "sz = power_of2 (w AND CACHE_ID_MASK)"
  have "(w AND CACHE_ID_MASK) = take_bit 4 w"
    by (simp add: CACHE_ID_MASK_def take_bit_eq_mask mask_eq_exp_minus_1)
  hence n: "n < 16" unfolding n_def by (simp add: take_bit_eq_mod unat_mod)
  hence sz: "unat sz = 2 ^ n" using unat_power_of2 [of "w AND CACHE_ID_MASK"]
    by (simp add: sz_def n_def word_less_nat_alt)
  hence "sz \<noteq> 0" by (auto simp: word_unat_eq_iff)
  moreover have b8: "bit_length 8 = 4" by (simp add: bit_length.simps)
  ultimately have j: "8 \<le> sz" "sz \<le> 2048" "j = bit_length (2 ^ n) - 1 - 3"
    using assms sz unfolding sz_def [symmetric]
    by (auto simp: cache_idx_from_size_def rassert_def unat_log2_floor_u64 b8 split: if_splits)
  have "(8 :: nat) \<le> 2 ^ n" "(2 ^ n :: nat) \<le> 2048" using j(1,2) sz by (simp_all add: word_le_nat_alt)
  hence n3: "3 \<le> n" "n \<le> 11"
    using power_le_imp_le_exp [of "2 :: nat" 3 n] power_le_imp_le_exp [of "2 :: nat" n 11] by simp_all
  have "bit_length (2 ^ n) = Suc n"
    using bit_length_le_iff [of "2 ^ n" "Suc n"] less_bit_length_iff [of n "2 ^ n"] by simp
  hence jn: "j = n - 3" using j(3) by simp
  have "cache_size j = 2 ^ (j + 3)" by (simp add: cache_size_def power_add)
  hence "cache_size j = 2 ^ n" using n3 jn by simp
  moreover have "sz = of_nat (unat sz)" by simp
  hence "sz = of_nat (2 ^ n)" using sz by metis
  ultimately show ?thesis using n3 jn unfolding sz_def [symmetric] CACHE_CLASSES_def by simp
qed

lemma id_of_class:
  "i < CACHE_CLASSES \<Longrightarrow> has_magic (CACHE_ID_MAGIC OR of_nat (i + 3))
     \<and> power_of2 ((CACHE_ID_MAGIC OR of_nat (i + 3)) AND CACHE_ID_MASK) = of_nat (cache_size i)"
  by (drule class_cases, elim insertE emptyE)
    (simp_all add: has_magic_def CACHE_ID_MAGIC_def CACHE_ID_MASK_def power_of2_def cache_size_def)

section \<open>All the caches\<close>

definition addrs :: "('a \<times> 'b) list \<Rightarrow> 'a set" where
  "addrs xs = fst ` set xs"

lemma addrsI: "(p, b) \<in> set xs \<Longrightarrow> p \<in> addrs xs"
  by (force simp: addrs_def)

lemma addrsE: "p \<in> addrs xs \<Longrightarrow> (\<And>b. (p, b) \<in> set xs \<Longrightarrow> thesis) \<Longrightarrow> thesis"
  by (auto simp: addrs_def)

lemma addrs_simps [simp]: "addrs [] = {}" "addrs (x # xs) = insert (fst x) (addrs xs)" "addrs (xs @ ys) = addrs xs \<union> addrs ys"
  by (simp_all add: addrs_def image_Un)

definition placed :: "(nat \<Rightarrow> (u64 \<times> cbody) list) \<Rightarrow> bool" where
  "placed X \<longleftrightarrow>
     (\<forall>i < CACHE_CLASSES. \<forall>p \<in> addrs (X i). p \<noteq> 0 \<and> cache_bytes i dvd unat p \<and> unat p + cache_bytes i \<le> 2 ^ 64)
     \<and> (\<forall>i < CACHE_CLASSES. \<forall>j < CACHE_CLASSES. \<forall>p \<in> addrs (X i). \<forall>q \<in> addrs (X j).
          (i, p) \<noteq> (j, q) \<longrightarrow> pg_span (p, CACHE_PAGES i) \<inter> pg_span (q, CACHE_PAGES j) = {})"

definition cm_shape :: "'r cm_state \<Rightarrow> (nat \<Rightarrow> (u64 \<times> cbody) list) \<Rightarrow> bool" where
  "cm_shape st X \<longleftrightarrow>
     (\<forall>i < CACHE_CLASSES. crep i st (X i)) \<and> placed X
     \<and> (\<forall>p. cm_cells st p \<noteq> None \<longrightarrow> (\<exists>i < CACHE_CLASSES. p \<in> addrs (X i)))"

definition cm_caches :: "(nat \<Rightarrow> (u64 \<times> cbody) list) \<Rightarrow> (u64 \<times> nat) set" where
  "cm_caches X = (\<Union>i < CACHE_CLASSES. (\<lambda>x. (fst x, CACHE_PAGES i)) ` set (X i))"

definition cm_objs :: "(nat \<Rightarrow> (u64 \<times> cbody) list) \<Rightarrow> (u64 \<times> nat) set" where
  "cm_objs X = {(p + of_nat (e * cache_size i), cache_size i) | i p b e. i < CACHE_CLASSES \<and> (p, b) \<in> set (X i) \<and> e \<in> taken i b}"

lemma unat_add_off: "unat p + m < 2 ^ 64 \<Longrightarrow> unat (p + of_nat m :: u64) = unat p + m"
  by (simp add: unat_word_ariths unat_of_nat mod_less)

lemma placed_base: "placed X \<Longrightarrow> i < CACHE_CLASSES \<Longrightarrow> p \<in> addrs (X i) \<Longrightarrow>
    p \<noteq> 0 \<and> cache_bytes i dvd unat p \<and> unat p + cache_bytes i \<le> 2 ^ 64"
  unfolding placed_def by blast

lemma placed_apart:
  assumes "placed X" "i < CACHE_CLASSES" "j < CACHE_CLASSES" "p \<in> addrs (X i)" "q \<in> addrs (X j)"
    and "unat p \<le> a" "a < unat p + cache_bytes i" "unat q \<le> a" "a < unat q + cache_bytes j"
  shows "i = j \<and> p = q"
proof (rule ccontr)
  assume "\<not> (i = j \<and> p = q)"
  hence "(i, p) \<noteq> (j, q)" by simp
  hence "pg_span (p, CACHE_PAGES i) \<inter> pg_span (q, CACHE_PAGES j) = {}"
    using assms(1) [unfolded placed_def, THEN conjunct2, rule_format, OF assms(2-5)] by simp
  moreover have "a \<in> pg_span (p, CACHE_PAGES i) \<inter> pg_span (q, CACHE_PAGES j)"
    using assms(6-9) by (simp add: pg_span_def cache_bytes_def)
  ultimately show False by blast
qed

lemma shape_cell:
  assumes "cm_shape st X" "i < CACHE_CLASSES" "(p, b) \<in> set (X i)"
  shows "\<exists>n. cm_cells st p = Some n \<and> d_data n = b \<and> body_ok i b"
proof -
  have "class_list i st (X i)" using assms(1,2) by (simp add: cm_shape_def crep_def)
  thus ?thesis using class_list_get [OF _ assms(3)] by blast
qed

lemma shape_dom: "cm_shape st X \<Longrightarrow> cm_cells st p = Some n \<Longrightarrow> \<exists>i < CACHE_CLASSES. p \<in> addrs (X i)"
  unfolding cm_shape_def by blast

lemma align_base:
  assumes "2 ^ k dvd unat p" "off < 2 ^ k" "unat p + off < 2 ^ 64" "k < 64"
  shows "align_down (p + of_nat off :: u64) (2 ^ k) = p"
proof -
  have "unat (align_down (p + of_nat off) (2 ^ k)) = unat p + off - (unat p + off) mod 2 ^ k"
    using unat_align_down [OF assms(4)] unat_add_off [OF assms(3)] by simp
  also have "(unat p + off) mod 2 ^ k = off" using assms(1,2) by (auto elim!: dvdE)
  finally show ?thesis by (simp add: word_unat_eq_iff)
qed

section \<open>Identification\<close>

lemma no_cache_inside:
  assumes "cm_shape st X" "i < CACHE_CLASSES" "p \<in> addrs (X i)" "0 < d" "d < cache_bytes i"
  shows "cm_cells st (p + of_nat d) = None"
proof (rule ccontr)
  assume "cm_cells st (p + of_nat d) \<noteq> None"
  then obtain j where j: "j < CACHE_CLASSES" "p + of_nat d \<in> addrs (X j)" using shape_dom [OF assms(1)] by blast
  have pl: "placed X" using assms(1) by (simp add: cm_shape_def)
  have u: "unat (p + of_nat d) = unat p + d" using placed_base [OF pl assms(2,3)] assms(5) unat_add_off [of p d] by simp
  have "0 < cache_bytes j" by (simp add: cache_bytes_pow)
  hence "p = p + of_nat d"
    using placed_apart [OF pl assms(2) j(1) assms(3) j(2), of "unat p + d"] u assms(5) by simp
  hence "unat p = unat p + d" using u by metis
  thus False using assms(4) by simp
qed

lemma cm_word_id:
  assumes sh: "cm_shape st X" and i: "i < CACHE_CLASSES" and pb: "(p, b) \<in> set (X i)"
  shows "cm_word st (p + of_nat (cache_bytes i - 8)) = (CACHE_ID_MAGIC OR of_nat (i + 3))"
proof -
  obtain n where n: "cm_cells st p = Some n" "d_data n = b" "body_ok i b" using shape_cell [OF assms] by blast
  have id: "cache_id b = (CACHE_ID_MAGIC OR of_nat (i + 3))" "cb_class b = i" using n(3) by (simp_all add: body_ok_def)
  show ?thesis
  proof (cases "i < 7")
    case True
    hence "id_at st 4 (p + of_nat (cache_bytes i - 8)) = Some (cache_id b)"
      using n id by (simp add: id_at_def cache_bytes_def CACHE_PAGES_def)
    thus ?thesis using id by (simp add: cm_word_def)
  next
    case False
    have by8: "cache_bytes i - 8 = 32760" "cache_bytes i = 32768" "CACHE_PAGES i = 8"
      using False by (simp_all add: cache_bytes_def CACHE_PAGES_def)
    have "p \<in> addrs (X i)" using pb by (rule addrsI)
    hence nc: "cm_cells st (p + of_nat 16384) = None" using no_cache_inside [OF sh i, of p 16384] by8 by simp
    have off: "p + of_nat 32760 - of_nat (4 * 4096 - 8) = p + of_nat 16384" "p + of_nat 32760 - of_nat (8 * 4096 - 8) = p"
      by simp_all
    have "id_at st 4 (p + of_nat 32760) = None" unfolding id_at_def off nc by simp
    moreover have "id_at st 8 (p + of_nat 32760) = Some (cache_id b)" unfolding id_at_def off using n id by8 by simp
    ultimately show ?thesis using id unfolding cm_word_def by8 by simp
  qed
qed

lemma cm_word_client:
  assumes sh: "cm_shape st X" and i: "i < CACHE_CLASSES" "7 \<le> i" and pb: "(p, b) \<in> set (X i)"
  shows "cm_word st (p + 16376) = cm_client st (p + 16376)"
proof -
  obtain n where n: "cm_cells st p = Some n" "d_data n = b" "body_ok i b" using shape_cell [OF sh i(1) pb] by blast
  have pl: "placed X" using sh by (simp add: cm_shape_def)
  have p: "p \<noteq> 0" "2 ^ 15 dvd unat p" using placed_base [OF pl i(1) addrsI [OF pb]] i(2) by (simp_all add: cache_bytes_pow)
  have ge: "2 ^ 15 \<le> unat p" using p by (auto intro!: dvd_imp_le simp: unat_gt_0)
  have "\<not> (\<exists>m. cm_cells st (p - 16384) = Some m \<and> CACHE_PAGES (cb_class (d_data m)) = 8)"
  proof
    assume "\<exists>m. cm_cells st (p - 16384) = Some m \<and> CACHE_PAGES (cb_class (d_data m)) = 8"
    then obtain m where m: "cm_cells st (p - 16384) = Some m" "CACHE_PAGES (cb_class (d_data m)) = 8" by blast
    then obtain j where j: "j < CACHE_CLASSES" "p - 16384 \<in> addrs (X j)" using shape_dom [OF sh] by blast
    then obtain c where c: "(p - 16384, c) \<in> set (X j)" by (blast elim: addrsE)
    have "cb_class (d_data m) = j" using shape_cell [OF sh j(1) c] m(1) by (auto simp: body_ok_def)
    hence "2 ^ 15 dvd unat (p - 16384)" using placed_base [OF pl j] m(2)
      by (auto simp: cache_bytes_def split: if_splits)
    moreover have "unat (p - 16384) = unat p - 2 ^ 14" using ge by (subst unat_sub) (simp_all add: word_le_nat_alt)
    ultimately have "(2 :: nat) ^ 15 dvd unat p - (unat p - 2 ^ 14)" using p(2) by (metis dvd_diff_nat)
    thus False using ge by (auto dest!: dvd_imp_le)
  qed
  moreover have "p + 16376 - of_nat (4 * 4096 - 8) = p" "p + 16376 - of_nat (8 * 4096 - 8) = p - 16384" by simp_all
  ultimately have "id_at st 4 (p + 16376) = None" "id_at st 8 (p + 16376) = None"
    unfolding id_at_def using n i(2) by (auto simp: body_ok_def CACHE_PAGES_def split: option.splits)
  thus ?thesis by (simp add: cm_word_def)
qed

text \<open>A pointer into a cache of four pages, or into the second half of one of eight, is always identified; in
  the first half of one of eight pages the word that is read belongs to a client.\<close>

lemma size_from_ptr:
  assumes sh: "cm_shape st X" and i: "i < CACHE_CLASSES" and pb: "(p, b) \<in> set (X i)" and off: "off < cache_bytes i"
  shows "cache_malloc_size_from_ptr st (p + of_nat off) =
     Some (if 7 \<le> i \<and> off < 16384 \<and> has_magic (cm_client st (p + 16376))
           then power_of2 (cm_client st (p + 16376) AND CACHE_ID_MASK) else of_nat (cache_size i))"
proof -
  have pl: "placed X" using sh by (simp add: cm_shape_def)
  have "p \<in> addrs (X i)" using pb by (rule addrsI)
  hence p: "cache_bytes i dvd unat p" "unat p + cache_bytes i \<le> 2 ^ 64" using placed_base [OF pl i] by blast+
  note own = cm_word_id [OF sh i pb] and idc = id_of_class [OF i]
  show ?thesis
  proof (cases "i < 7")
    case True
    hence cb: "cache_bytes i = 2 ^ 14" by (simp add: cache_bytes_pow)
    have "align_down (p + of_nat off) (2 ^ 14) = p" using align_base [of 14 p off] p off cb by simp
    hence "id_word st (p + of_nat off) 4 = (CACHE_ID_MAGIC OR of_nat (i + 3))"
      using own cb by (simp add: id_word_def)
    thus ?thesis using idc True by (simp add: cache_malloc_size_from_ptr_def)
  next
    case False
    hence cb: "cache_bytes i = 2 ^ 15" by (simp add: cache_bytes_pow)
    have "align_down (p + of_nat off) (2 ^ 15) = p" using align_base [of 15 p off] p off cb by simp
    hence w8: "id_word st (p + of_nat off) 8 = (CACHE_ID_MAGIC OR of_nat (i + 3))"
      using own cb by (simp add: id_word_def)
    have d14: "2 ^ 14 dvd unat p" using p(1) cb dvd_trans [OF le_imp_power_dvd [of 14 15 "2 :: nat"]] by simp
    show ?thesis
    proof (cases "off < 16384")
      case True
      hence "align_down (p + of_nat off) (2 ^ 14) = p" using align_base [of 14 p off] d14 p cb by simp
      hence "id_word st (p + of_nat off) 4 = cm_client st (p + 16376)"
        using cm_word_client [OF sh i _ pb] False by (simp add: id_word_def)
      thus ?thesis using idc False True w8 by (simp add: cache_malloc_size_from_ptr_def)
    next
      case off2: False
      have u: "unat (p + of_nat 16384) = unat p + 16384" using unat_add_off [of p 16384] p cb by simp
      have "align_down (p + of_nat 16384 + of_nat (off - 16384)) (2 ^ 14) = p + of_nat 16384"
        using align_base [of 14 "p + of_nat 16384" "off - 16384"] d14 p cb u off off2 by simp
      moreover have "p + of_nat 16384 + of_nat (off - 16384) = p + of_nat off" using off2 by (simp add: of_nat_diff)
      ultimately have "id_word st (p + of_nat off) 4 = (CACHE_ID_MAGIC OR of_nat (i + 3))"
        using own cb by (simp add: id_word_def add.assoc)
      thus ?thesis using idc off2 by (simp add: cache_malloc_size_from_ptr_def)
    qed
  qed
qed

end
