(* ===== verification/Raw_Owner.thy ===== *)
theory Raw_Owner
  imports Raw_Correct Cache_Ident
begin

text \<open>
  How the operations below \<open>raw_kmalloc\<close> move pages: the page allocator, the reserve, the containers of nodes
  and the lists of areas keep \<open>rk_inv\<close>.  Whatever releases a container is a parameter here, of which only
  the law of a release is used.
\<close>

section \<open>Pages\<close>

lemma blk_apart:
  assumes "blk b \<inter> blk c = {}"
  shows "unat (fst b) + 2 ^ snd b \<le> unat (fst c) \<or> unat (fst c) + 2 ^ snd c \<le> unat (fst b)"
proof (rule ccontr)
  assume "\<not> ?thesis"
  hence "max (unat (fst b)) (unat (fst c)) \<in> blk b \<inter> blk c" by (auto simp: blk_def)
  thus False using assms by blast
qed

lemma snd_kblk: "snd (kblk b) = 2 ^ snd b"
  by (simp add: kblk_def)

lemma core_alloc:
  assumes c: "rk_core s sp xs M T R" and m: "page_malloc k d s = Inr (s', pa)"
  shows "rk_core s' sp xs M T (insert (kpa_to_kva pa, 2 ^ k) R)" and "\<forall>b \<in> R. pg_span (kpa_to_kva pa, 2 ^ k) \<inter> pg_span b = {}"
    and "unat pa < unat sp" and "unat sp < 2 ^ 47"
proof -
  obtain A where A: "page_repr s A" "R \<subseteq> kblk ` A" "\<And>v. v \<in># M \<Longrightarrow> (v, 1) \<in> kblk ` A"
    "\<And>v. v \<in> T \<Longrightarrow> (v, 1) \<in> kblk ` A" "\<And>v. count M v \<le> 1" "\<And>v. v \<in># M \<Longrightarrow> v \<notin> T"
    "\<And>v n. v \<in># M \<Longrightarrow> (v, n) \<notin> R" "\<And>v n. v \<in> T \<Longrightarrow> (v, n) \<notin> R"
    "ps_N s * 4096 \<le> unat sp" "unat sp < 2 ^ 47" "\<And>a n. (a, n) \<in> set xs \<Longrightarrow> am_kmapped (rva_info n)"
    by (rule coreE [OF c], rule that)
  let ?b = "(page_idx pa, k)"
  obtain F where F: "pinv s F A" "no_buddies (ps_MAX_ORDER s) F" using A(1) by (auto simp: page_repr_def)
  have "page_alloc (k, d) s = Inr (s', ?b)" using m by (simp add: page_alloc_def)
  from page_alloc_ok [OF F this] have b: "page_repr s' (insert ?b A)" "\<forall>c \<in> A. blk ?b \<inter> blk c = {}" "ps_N s' = ps_N s"
      "pa = ucast (page_idx pa) * PAGE_SIZE" using m by auto
  have n: "ps_N s' * 4096 \<le> unat sp" using A(9) b(3) by simp
  have kb: "kblk ?b = (kpa_to_kva pa, 2 ^ k)" using b(4) by (simp add: kblk_def)
  have nw: "(kpa_to_kva pa, j) \<notin> kblk ` A" for j
  proof
    assume "(kpa_to_kva pa, j) \<in> kblk ` A"
    then obtain c where c: "c \<in> A" "(kpa_to_kva pa, j) = kblk c" by blast
    have "?b = c" by (rule kblk_start [OF b(1) n A(10)]) (use c in \<open>auto simp: kb c(2) [symmetric]\<close>)
    thus False using b(2) c(1) blk_nonempty [of ?b] by blast
  qed
  show "rk_core s' sp xs M T (insert (kpa_to_kva pa, 2 ^ k) R)"
  proof (rule coreI [OF b(1) _ _ _ A(5,6) _ _ n A(10,11)])
    show "insert (kpa_to_kva pa, 2 ^ k) R \<subseteq> kblk ` insert ?b A" using A(2) kb by auto
    show "v \<in># M \<Longrightarrow> (v, 1) \<in> kblk ` insert ?b A" "v \<in> T \<Longrightarrow> (v, 1) \<in> kblk ` insert ?b A" for v
      using A(3,4) by blast+
    show "v \<in># M \<Longrightarrow> (v, n) \<notin> insert (kpa_to_kva pa, 2 ^ k) R" "v \<in> T \<Longrightarrow> (v, n) \<notin> insert (kpa_to_kva pa, 2 ^ k) R" for v n
      using nw A(3,4,7,8) [of v] by blast+
  qed
  show "unat pa < unat sp" using block_pa(3) [OF b(1) _ n A(10), of ?b] b(4) by simp
  show "unat sp < 2 ^ 47" by fact
  show "\<forall>b \<in> R. pg_span (kpa_to_kva pa, 2 ^ k) \<inter> pg_span b = {}"
  proof
    fix x assume "x \<in> R"
    then obtain c where c: "c \<in> A" "x = kblk c" using A(2) by blast
    have cs: "?b \<in> insert ?b A" "c \<in> insert ?b A" using c by auto
    note kv = block_kva(1) [OF b(1) cs(1) n A(10)] block_kva(1) [OF b(1) cs(2) n A(10)]
    have "unat (page_idx pa) + 2 ^ k \<le> unat (fst c) \<or> unat (fst c) + 2 ^ snd c \<le> unat (page_idx pa)"
      using blk_apart [of ?b c] b(2) c(1) by simp
    hence "(unat (page_idx pa) + 2 ^ k) * 4096 \<le> unat (fst c) * 4096 \<or> (unat (fst c) + 2 ^ snd c) * 4096 \<le> unat (page_idx pa) * 4096"
      by (meson mult_le_mono1)
    thus "pg_span (kpa_to_kva pa, 2 ^ k) \<inter> pg_span x = {}"
      unfolding kb [symmetric] c(2) pg_span_def kv snd_kblk by (auto simp: add_mult_distrib)
  qed
qed

lemma core_free:
  assumes c: "rk_core s sp xs M T R" and r: "(v, n) \<in> R" and f: "page_free (kva_to_kpa v) s = Inr s'"
  shows "rk_core s' sp xs M T (R - {(v, n)})"
proof -
  obtain A where A: "page_repr s A" "R \<subseteq> kblk ` A" "\<And>v. v \<in># M \<Longrightarrow> (v, 1) \<in> kblk ` A"
    "\<And>v. v \<in> T \<Longrightarrow> (v, 1) \<in> kblk ` A" "\<And>v. count M v \<le> 1" "\<And>v. v \<in># M \<Longrightarrow> v \<notin> T"
    "\<And>v n. v \<in># M \<Longrightarrow> (v, n) \<notin> R" "\<And>v n. v \<in> T \<Longrightarrow> (v, n) \<notin> R"
    "ps_N s * 4096 \<le> unat sp" "unat sp < 2 ^ 47" "\<And>a n. (a, n) \<in> set xs \<Longrightarrow> am_kmapped (rva_info n)"
    by (rule coreE [OF c], rule that)
  obtain b where b: "b \<in> A" "(v, n) = kblk b" using A(2) r by blast
  have v: "v = fst (kblk b)" using b(2) by (metis fst_conv)
  have "page_release b s = Inr s'" using f block_kva(2) [OF A(1) b(1) A(9,10)] v by (simp add: page_release_def)
  from page_release_ok [OF A(1) b(1) this] have p: "page_repr s' (A - {b})" "ps_N s' = ps_N s" by auto
  have keep: "x \<in> kblk ` A \<Longrightarrow> x \<noteq> (v, n) \<Longrightarrow> x \<in> kblk ` (A - {b})" for x using b(2) by auto
  show ?thesis
  proof (rule coreI [OF p(1) _ _ _ A(5,6) _ _ _ A(10,11)])
    show "R - {(v, n)} \<subseteq> kblk ` (A - {b})" using keep A(2) by blast
    show "w \<in># M \<Longrightarrow> (w, 1) \<in> kblk ` (A - {b})" for w using keep [OF A(3)] A(7) [of w 1] r by blast
    show "w \<in> T \<Longrightarrow> (w, 1) \<in> kblk ` (A - {b})" for w using keep [OF A(4)] A(8) [of w 1] r by blast
    show "w \<in># M \<Longrightarrow> (w, j) \<notin> R - {(v, n)}" "w \<in> T \<Longrightarrow> (w, j) \<notin> R - {(v, n)}" for w j using A(7,8) by blast+
    show "ps_N s' * 4096 \<le> unat sp" using A(9) p(2) by simp
  qed
qed

lemma repr_tag:
  assumes "page_repr s A" "page_allocator_update_tag pa t s = Inr (s', x)"
  shows "page_repr s' A \<and> ps_N s' = ps_N s"
proof -
  obtain F where F: "pinv s F A" "no_buddies (ps_MAX_ORDER s) F" using assms(1) by (auto simp: page_repr_def)
  obtain n where n: "get_node s (page_idx pa) = Inr n"
     "upd_node (page_idx pa) (\<lambda>n. n\<lparr>pn_page := (pn_page n)\<lparr>pd_tag := t\<rparr>\<rparr>) s = Inr s'"
    using assms(2) by (auto simp: page_allocator_update_tag_def Let_def rbind_eq_Inr rassert_eq_Inr)
  have i: "unat (page_idx pa) < ps_N s" using n(1) by (auto simp: get_node_def split: if_splits)
  have "upd_node (page_idx pa) (\<lambda>n. n\<lparr>pn_page := (pn_page n)\<lparr>pd_tag := t\<rparr>\<rparr>) s =
     upd_node (page_idx pa) (\<lambda>m. m\<lparr>pn_page := (pn_page (ps_nodes s (page_idx pa)))\<lparr>pd_tag := t\<rparr>\<rparr>) s"
    by (simp add: upd_node_def)
  then obtain u where "s' = u" "pinv u F A" "ps_N u = ps_N s" "ps_MAX_ORDER u = ps_MAX_ORDER s"
    using pinv_set_page [OF F(1) i] n(2) by (metis sum.inject(2))
  thus ?thesis using F(2) by (auto simp: page_repr_def)
qed

lemma core_tag:
  assumes "rk_core s sp xs M T R" "page_allocator_update_tag pa t s = Inr (s', x)"
  shows "rk_core s' sp xs M T R"
proof -
  have "page_repr s A \<Longrightarrow> page_repr s' A \<and> ps_N s' = ps_N s" for A using repr_tag assms(2) by blast
  thus ?thesis using assms(1) by (auto simp: rk_core_def)
qed

section \<open>The reserve\<close>

lemma mset_filter_out:
  assumes "distinct xs" "i \<in> set xs" "P i"
  shows "mset (filter P xs) = add_mset i (mset (filter (\<lambda>j. P j \<and> j \<noteq> i) xs))"
proof -
  have "remove1 i (filter P xs) = filter (\<lambda>j. j \<noteq> i) (filter P xs)"
    using assms(1) by (auto simp: distinct_remove1_removeAll removeAll_filter_not_eq intro: filter_cong)
  hence e: "remove1 i (filter P xs) = filter (\<lambda>j. P j \<and> j \<noteq> i) xs" by simp
  have "i \<in> set (filter P xs)" using assms(2,3) by simp
  hence "mset (filter P xs) = add_mset i (mset (remove1 i (filter P xs)))" by simp
  thus ?thesis unfolding e .
qed

lemma bitfield_bit: "bitfield_get b i \<noteq> 0 \<longleftrightarrow> bit b i" for b :: "'a::len word"
proof -
  have "bitfield_get b i = 0 \<or> bitfield_get b i = 1" by (simp add: bitfield_get_def and_one_eq mod2_eq_if)
  thus ?thesis using bitfield_get_iff [of b i] by auto
qed

lemma res_find_bit: "res_find b xs = Some i \<Longrightarrow> i \<in> set xs \<and> bit b i"
  by (induction xs) (auto split: if_splits simp: bitfield_bit)

lemma res_vas_take:
  assumes "res_find (reserved_pages km) [0 ..< RESERVE_MALLOC_SIZE] = Some i" "i < length (reserved_addr km)"
    "reserved_addr km' = reserved_addr km" "reserved_pages km' = bitfield_clear (reserved_pages km) i"
  shows "mset (res_vas km) = add_mset (pv_va (reserved_addr km ! i)) (mset (res_vas km'))"
proof -
  have b: "i \<in> set [0 ..< RESERVE_MALLOC_SIZE]" "bit (reserved_pages km) i" using res_find_bit [OF assms(1)] by auto
  let ?P = "\<lambda>j. bitfield_get (reserved_pages km) j \<noteq> 0 \<and> j < length (reserved_addr km)"
  have m: "mset (filter ?P [0 ..< RESERVE_MALLOC_SIZE]) = add_mset i (mset (filter (\<lambda>j. ?P j \<and> j \<noteq> i) [0 ..< RESERVE_MALLOC_SIZE]))"
    by (rule mset_filter_out) (use b assms(2) in \<open>simp_all add: bitfield_bit\<close>)
  have e: "filter (\<lambda>j. ?P j \<and> j \<noteq> i) [0 ..< RESERVE_MALLOC_SIZE] =
     filter (\<lambda>j. bitfield_get (reserved_pages km') j \<noteq> 0 \<and> j < length (reserved_addr km')) [0 ..< RESERVE_MALLOC_SIZE]"
    using assms(3,4) by (intro filter_cong) (auto simp: bitfield_bit bit_bitfield_clear)
  show ?thesis unfolding res_vas_def mset_map m e image_mset_add_mset assms(3) ..
qed

lemma upd_tag_kmapped:
  assumes "vmalloc_update_tag a t km = Inr (km', x)"
  shows "\<exists>ys. km' = km\<lparr>rva_list := ys\<rparr> \<and> ((\<forall>(a, n) \<in> set (rva_list km KMAP_LIST). am_kmapped (rva_info n)) \<longrightarrow>
     (\<forall>(a, n) \<in> set (ys KMAP_LIST). am_kmapped (rva_info n)))"
proof -
  obtain l i where li: "km' = upd_rva_list l (upd_nth i (set_tag t)) km" 
    using assms by (auto simp: vmalloc_update_tag_def rbind_eq_Inr rassert_eq_Inr split: option.splits)
  have "\<forall>(a, n) \<in> set (upd_nth i (set_tag t) xs). am_kmapped (rva_info n)"
    if k: "\<forall>(a, n) \<in> set xs. am_kmapped (rva_info n)" for xs
  proof (cases "i < length xs")
    case False
    thus ?thesis using k by (simp add: upd_nth_def list_update_beyond)
  next
    case True
    hence "am_kmapped (rva_info (snd (xs ! i)))" using k nth_mem [OF True] by (cases "xs ! i") auto
    thus ?thesis using k set_update_subset_insert [of xs i "(fst (xs ! i), set_tag t (snd (xs ! i)))"]
      unfolding upd_nth_def by (force simp: set_tag_def)
  qed
  thus ?thesis unfolding li upd_rva_list_def
    by (intro exI [of _ "(rva_list km)(l := upd_nth i (set_tag t) (rva_list km l))"]) auto
qed

lemma reserve_malloc_core:
  assumes "rk_core (page_st km) (addr_space km) (rva_list km KMAP_LIST) (ints km) T R" "reserve_malloc t km = Inr (km', pv)"
  shows "rk_core (page_st km') (addr_space km') (rva_list km' KMAP_LIST) (ints km') T (insert (pv_va pv, 1) R)" and "(pv_va pv, 1) \<notin> R" and "mmu_st km' = mmu_st km"
    and "fva_conts km' = fva_conts km" "rva_conts km' = rva_conts km" "mdt_conts km' = mdt_conts km"
proof -
  obtain i k1 x1 k2 x2 where i: "res_find (reserved_pages km) [0 ..< RESERVE_MALLOC_SIZE] = Some i" "i < length (reserved_addr km)"
    and pv: "pv = reserved_addr km ! i"
    and k1: "vmalloc_update_tag (pv_va pv) t km = Inr (k1, x1)"
    and k2: "with_pages (page_allocator_update_tag (pv_pa pv) t) k1 = Inr (k2, x2)"
    and k3: "km' = k2\<lparr>reserved_pages := bitfield_clear (reserved_pages k2) i\<rparr>"
    using assms(2) by (auto simp: reserve_malloc_def rbind_eq_Inr Let_def split: option.splits if_splits)
  obtain ys where ys: "k1 = km\<lparr>rva_list := ys\<rparr>" "(\<forall>(a, n) \<in> set (rva_list km KMAP_LIST). am_kmapped (rva_info n)) \<longrightarrow>
     (\<forall>(a, n) \<in> set (ys KMAP_LIST). am_kmapped (rva_info n))" using upd_tag_kmapped [OF k1] by blast
  obtain s' where s': "page_allocator_update_tag (pv_pa pv) t (page_st km) = Inr (s', x2)" "k2 = k1\<lparr>page_st := s'\<rparr>"
    using k2 ys(1) by (auto simp: with_pages_def rbind_eq_Inr)
  have km': "km' = km\<lparr>rva_list := ys, page_st := s', reserved_pages := bitfield_clear (reserved_pages km) i\<rparr>"
    using k3 s'(2) ys(1) by simp
  have "mset (res_vas km) = add_mset (pv_va pv) (mset (res_vas km'))"
    using res_vas_take [OF i, of km'] pv km' by simp
  hence m: "ints km = add_mset (pv_va pv) (ints km')" using km' by (simp add: ints_def)
  have c: "rk_core (page_st km) (addr_space km) (rva_list km KMAP_LIST) (add_mset (pv_va pv) (ints km')) T R"
    using assms(1) m by simp
  note d = core_detach [OF c]
  show "(pv_va pv, 1) \<notin> R" by (rule d(2))
  have "\<forall>(a, n) \<in> set (ys KMAP_LIST). am_kmapped (rva_info n)" using ys(2) assms(1) by (simp add: rk_core_def)
  hence "rk_core (page_st km) (addr_space km) (ys KMAP_LIST) (ints km') T (insert (pv_va pv, 1) R)"
    by (intro core_sub [OF d(1)]) auto
  from core_tag [OF this s'(1)] show "rk_core (page_st km') (addr_space km') (rva_list km' KMAP_LIST) (ints km') T (insert (pv_va pv, 1) R)"
    using km' by simp
  show "mmu_st km' = mmu_st km" "fva_conts km' = fva_conts km" "rva_conts km' = rva_conts km" "mdt_conts km' = mdt_conts km"
    using km' by simp_all
qed


lemma reserve_malloc_inv:
  assumes "rk_inv km R" "reserve_malloc t km = Inr (km', pv)"
  shows "rk_inv km' (insert (pv_va pv, 1) R)" and "(pv_va pv, 1) \<notin> R" and "mmu_st km' = mmu_st km"
    and "fva_conts km' = fva_conts km" "rva_conts km' = rva_conts km" "mdt_conts km' = mdt_conts km"
  using reserve_malloc_core [OF assms(1) [unfolded rk_inv_def] assms(2)] by (simp_all add: rk_inv_def)

section \<open>Containers\<close>

lemma core_fewer:
  assumes "rk_core s sp xs M T R" "M' \<subseteq># M"
  shows "rk_core s sp xs M' T R"
proof -
  have "\<forall>(a, n) \<in> set xs. am_kmapped (rva_info n)" using assms(1) unfolding rk_core_def by (elim conjE)
  thus ?thesis by (rule core_sub [OF assms order_refl order_refl])
qed

lemma mset_move:
  assumes "P + X = I + Y" "add_mset c Y \<subseteq># X"
  shows "add_mset c P \<subseteq># I"
proof -
  obtain Z where "X = add_mset c Y + Z" using assms(2) by (auto simp: mset_subset_eq_exists_conv)
  hence "I + Y = (add_mset c P + Z) + Y" using assms(1) by (simp add: ac_simps)
  thus ?thesis by simp
qed

lemma mset_keys_filter:
  assumes "c \<in> fst ` set xs"
  shows "add_mset c (mset (map fst (filter (\<lambda>y. fst y \<noteq> c) xs))) \<subseteq># mset (map fst xs)"
proof -
  have "mset (map fst xs) = mset (map fst (filter (\<lambda>y. fst y \<noteq> c) xs)) + mset (filter (\<lambda>y. y = c) (map fst xs))"
    by (induction xs) auto
  moreover have "c \<in># mset (filter (\<lambda>y. y = c) (map fst xs))" using assms by auto
  ultimately show ?thesis by (metis mset_subset_eq_add_right mset_subset_eq_single union_mset_add_mset_right add_mset_add_single subset_mset.add_left_mono)
qed

definition frees :: "ktables rawfree \<Rightarrow> bool" where
  "frees f \<longleftrightarrow> (\<forall>km R v n km'. rk_inv km R \<longrightarrow> (v, n) \<in> R \<longrightarrow> f v km = Inr km' \<longrightarrow> rk_inv km' (R - {(v, n)}))"

lemma freesD: "frees f \<Longrightarrow> rk_inv km R \<Longrightarrow> (v, n) \<in> R \<Longrightarrow> f v km = Inr km' \<Longrightarrow> rk_inv km' (R - {(v, n)})"
  unfolding frees_def by blast

text \<open>The three lists of containers are read and written in the same way.\<close>

locale container_list =
  fixes conts :: "ktables kmem \<Rightarrow> (u64 \<times> 'a::len word list) list"
    and put :: "(u64 \<times> 'a word list) list \<Rightarrow> ktables kmem \<Rightarrow> ktables kmem"
  assumes conts_put: "conts (put cs km) = cs"
    and put_ints: "ints (put cs km) + mset (map fst (tl (conts km))) = ints km + mset (map fst (tl cs))"
    and put_page_st: "page_st (put cs km) = page_st km"
    and put_addr_space: "addr_space (put cs km) = addr_space km"
    and put_rva_list: "rva_list (put cs km) = rva_list km"
    and put_mmu_st: "mmu_st (put cs km) = mmu_st km"
    and conts_frame: "fva_conts km' = fva_conts km \<Longrightarrow> rva_conts km' = rva_conts km \<Longrightarrow> mdt_conts km' = mdt_conts km \<Longrightarrow>
      conts km' = conts km"
begin

lemmas put_simps = conts_put put_page_st put_addr_space put_rva_list put_mmu_st

lemma put_same:
  assumes "rk_inv km R" "map fst cs = map fst (conts km)"
  shows "rk_inv (put cs km) R"
proof -
  have "map fst (tl cs) = map fst (tl (conts km))" using assms(2) by (metis map_tl)
  hence "ints (put cs km) = ints km" using put_ints [of cs km] by simp
  thus ?thesis using assms(1) by (simp add: rk_inv_def put_simps)
qed

lemma put_new:
  assumes "rk_inv km (insert (v, 1) R)" "(v, 1) \<notin> R" "conts km \<noteq> []"
  shows "rk_inv (put (conts km @ [(v, bs)]) km) R"
proof -
  have "tl (conts km @ [(v, bs)]) = tl (conts km) @ [(v, bs)]" using assms(3) by simp
  hence "ints (put (conts km @ [(v, bs)]) km) = add_mset v (ints km)"
    using put_ints [of "conts km @ [(v, bs)]" km] by simp
  thus ?thesis using core_absorb(1) [OF assms(1) [unfolded rk_inv_def] assms(2)] by (simp add: rk_inv_def put_simps)
qed

lemma put_delete:
  assumes "rk_inv km R" "c \<in> fst ` set (conts km)" "c \<noteq> fst (hd (conts km))"
  shows "rk_inv (put (AList.delete c (conts km)) km) (insert (c, 1) R)" and "(c, 1) \<notin> R"
proof -
  obtain x xs where x: "conts km = x # xs" using assms(2) by (cases "conts km") auto
  hence f: "fst x \<noteq> c" "c \<in> fst ` set xs" using assms(2,3) by auto
  have d: "tl (AList.delete c (conts km)) = filter (\<lambda>y. fst y \<noteq> c) xs"
    using x f(1) by (auto simp: AList.delete_eq case_prod_beta' intro: filter_cong)
  have "add_mset c (ints (put (AList.delete c (conts km)) km)) \<subseteq># ints km"
    by (rule mset_move [OF put_ints [of "AList.delete c (conts km)" km]]) (use mset_keys_filter [OF f(2)] x d in simp)
  hence c: "rk_core (page_st km) (addr_space km) (rva_list km KMAP_LIST) (add_mset c (ints (put (AList.delete c (conts km)) km)))
      (dom (mmu_st km)) R"
    by (rule core_fewer [OF assms(1) [unfolded rk_inv_def]])
  show "rk_inv (put (AList.delete c (conts km)) km) (insert (c, 1) R)" using core_detach(1) [OF c]
    by (simp add: rk_inv_def put_simps)
  show "(c, 1) \<notin> R" by (rule core_detach(2) [OF c])
qed

end


lemma conts_take_keys: "conts_take cnt cs = Some (cs', c, i) \<Longrightarrow> map fst cs' = map fst cs"
  by (induction cs arbitrary: cs') (auto split: option.splits)

context container_list
begin

lemma node_new_inv:
  assumes "rk_inv km R" "node_new cnt off sz tag conts put km = Inr (km', a)"
  shows "rk_inv km' R"
proof (cases "conts_take cnt (conts km)")
  case (Some x)
  obtain cs c i where x: "x = (cs, c, i)" by (cases x) auto
  have "km' = put cs km" using assms(2) Some x by (simp add: node_new_def)
  thus ?thesis using put_same [OF assms(1) conts_take_keys] Some x by simp
next
  case None
  then obtain k1 pv where k1: "conts km \<noteq> []" "reserve_malloc (str_addr km tag) km = Inr (k1, pv)"
      "km' = put (conts k1 @ [(pv_va pv, set_node_bit 0 (replicate (bf_count cnt LENGTH('a)) 0))]) k1"
    using assms(2) by (auto simp: node_new_def rbind_eq_Inr Let_def split: if_splits)
  note r = reserve_malloc_inv [OF assms(1) k1(2)]
  show ?thesis unfolding k1(3) by (rule put_new [OF r(1,2)]) (use conts_frame [OF r(4-6)] k1(1) in simp)
qed

lemma node_release_inv:
  assumes "rk_inv km R" "frees f" "node_release err cnt off sz conts put f node km = Inr km'"
  shows "rk_inv km' R"
proof -
  define c where "c = (node AND NOT (PAGE_SIZE - 1))"
  define i where "i = unat (node - (c + of_nat off)) div sz"
  obtain bs where bs: "map_of (conts km) c = Some bs"
    using assms(3) by (auto simp: node_release_def Let_def rassert_eq_Inr c_def split: option.splits)
  define k1 where "k1 = put (AList.update c (clear_node_bit i bs) (conts km)) km"
  have c: "c \<in> fst ` set (conts km)" using bs by (metis map_of_eq_None_iff option.distinct(1))
  hence ks: "map fst (AList.update c (clear_node_bit i bs) (conts km)) = map fst (conts km)" by (simp add: update_keys)
  have i1: "rk_inv k1 R" unfolding k1_def by (rule put_same [OF assms(1) ks])
  have c1: "c \<in> fst ` set (conts k1)" using ks c unfolding k1_def conts_put by (metis set_map)
  consider "km' = k1" | "c \<noteq> fst (hd (conts k1))" "f c (put (AList.delete c (conts k1)) k1) = Inr km'"
    using assms(3) bs by (auto simp: node_release_def Let_def rassert_eq_Inr c_def [symmetric] i_def [symmetric] k1_def [symmetric] split: if_splits)
  thus ?thesis
  proof cases
    case 2
    note d = put_delete [OF i1 c1 2(1)]
    have "rk_inv km' (insert (c, 1) R - {(c, 1)})" by (rule freesD [OF assms(2) d(1) _ 2(2)]) simp
    thus ?thesis using d(2) by simp
  qed (use i1 in simp)
qed

end

interpretation fvac: container_list fva_conts "\<lambda>cs km. km\<lparr>fva_conts := cs\<rparr>"
  by unfold_locales (auto simp: ints_def res_vas_def)

interpretation rvac: container_list rva_conts "\<lambda>cs km. km\<lparr>rva_conts := cs\<rparr>"
  by unfold_locales (auto simp: ints_def res_vas_def)

interpretation mdtc: container_list mdt_conts "\<lambda>cs km. km\<lparr>mdt_conts := cs\<rparr>"
  by unfold_locales (auto simp: ints_def res_vas_def)

lemma new_node_inv:
  assumes "rk_inv km R"
  shows "get_new_fva_node km = Inr (km', a) \<Longrightarrow> rk_inv km' R" and "get_new_rva_node km = Inr (km', a) \<Longrightarrow> rk_inv km' R"
    and "mdt_node_new km = Inr (km', a) \<Longrightarrow> rk_inv km' R"
  using fvac.node_new_inv [OF assms] rvac.node_new_inv [OF assms] mdtc.node_new_inv [OF assms]
  unfolding get_new_fva_node_def get_new_rva_node_def mdt_node_new_def by blast+

lemma free_node_inv:
  assumes "rk_inv km R" "frees f"
  shows "free_fva_node f a km = Inr km' \<Longrightarrow> rk_inv km' R" and "free_rva_node f a km = Inr km' \<Longrightarrow> rk_inv km' R"
    and "mdt_node_free f a km = Inr km' \<Longrightarrow> rk_inv km' R"
  using fvac.node_release_inv [OF assms] rvac.node_release_inv [OF assms] mdtc.node_release_inv [OF assms]
  unfolding free_fva_node_def free_rva_node_def mdt_node_free_def by blast+

section \<open>Areas\<close>

lemma upd_fva_inv [simp]: "rk_inv (upd_fva_list l g km) R = rk_inv km R"
  by (simp add: upd_fva_list_def rk_inv_def ints_def res_vas_def)

lemma rva_list_inv:
  assumes "rk_inv km R" "\<forall>(a, n) \<in> set (ys KMAP_LIST). am_kmapped (rva_info n)"
  shows "rk_inv (km\<lparr>rva_list := ys\<rparr>) R"
proof -
  have "ints (km\<lparr>rva_list := ys\<rparr>) = ints km" by (simp add: ints_def res_vas_def)
  thus ?thesis using core_sub [OF assms(1) [unfolded rk_inv_def] subset_mset.order_refl order_refl order_refl assms(2)]
    by (simp add: rk_inv_def)
qed

lemma inv_kmapped: "rk_inv km R \<Longrightarrow> (a, n) \<in> set (rva_list km KMAP_LIST) \<Longrightarrow> am_kmapped (rva_info n)"
  unfolding rk_inv_def by (erule coreE)

lemma inv_space: "rk_inv km R \<Longrightarrow> unat (addr_space km) < 2 ^ 47"
  by (simp add: rk_inv_def rk_core_def)

lemma reserve_from_inv:
  assumes "rk_inv km R" "frees f" "reserve_from_fva_node f l i va bytes km = Inr (km', a)"
  shows "rk_inv km' R" and "a = va"
proof -
  let ?k = "upd_fva_list l (\<lambda>xs. take i xs @ drop (Suc i) xs) km"
  have k: "rk_inv ?k R" using assms(1) by simp
  have "rk_inv km' R \<and> a = va"
    using assms(3,1) free_node_inv(1) [OF k assms(2)] new_node_inv(1) [OF assms(1)]
    unfolding reserve_from_fva_node_def Let_def by (auto simp: rbind_eq_Inr split: if_splits)
  thus "rk_inv km' R" "a = va" by simp_all
qed

lemma pop_search_kmap: "pop_search KMAP_LIST bytes k i u xs = Some (j, va) \<Longrightarrow> va = k"
  by (induction xs arbitrary: i) (auto simp: Let_def split: if_splits)

lemma pop_fva_inv:
  assumes "rk_inv km R" "frees f" "pop_fva f l pages p km = Inr (km', va)"
  shows "rk_inv km' R" and "l = KMAP_LIST \<Longrightarrow> vunsign (kpa_to_kva p) = Inr va"
proof -
  obtain k i w where k: "(if l = KMAP_LIST then vunsign (kpa_to_kva p) else Inr 0) = Inr k"
    "pop_search l (pages * PAGE_SIZE) k 0 None (fva_list km l) = Some (i, w)"
    "reserve_from_fva_node f l i w (pages * PAGE_SIZE) km = Inr (km', va)"
    using assms(3) by (auto simp: pop_fva_def Let_def rbind_eq_Inr split: option.splits)
  note r = reserve_from_inv [OF assms(1,2) k(3)]
  show "rk_inv km' R" by (rule r(1))
  assume "l = KMAP_LIST"
  thus "vunsign (kpa_to_kva p) = Inr va" using k(1,2) r(2) by (auto dest: pop_search_kmap)
qed

lemma push_fva_inv:
  assumes "rk_inv km R" "frees f" "push_fva f l va bytes km = Inr km'"
  shows "rk_inv km' R"
proof -
  have k: "free_fva_node f a (upd_fva_list l g km) = Inr km' \<Longrightarrow> rk_inv km' R" for a g
    using free_node_inv(1) [OF _ assms(2), of "upd_fva_list l g km"] assms(1) by simp
  show ?thesis using assms(3,1) k new_node_inv(1) [OF assms(1)]
    unfolding push_fva_def Let_def by (auto simp: rbind_eq_Inr split: if_splits)
qed

lemma push_rva_inv:
  assumes "rk_inv km R" "push_rva l pages start tag cfg km = Inr (km', a)" "l = KMAP_LIST \<longrightarrow> vc_use_kmap cfg"
  shows "rk_inv km' R"
proof -
  obtain k1 g n where k1: "get_new_rva_node km = Inr (k1, a)" "km' = k1\<lparr>rva_list := (rva_list k1)(l := g)\<rparr>"
    "set g \<subseteq> insert (a, n) (set (rva_list k1 l))" "am_kmapped (rva_info n) = vc_use_kmap cfg"
    using assms(2) by (auto simp: push_rva_def Let_def rbind_eq_Inr upd_rva_list_def dest: in_set_takeD in_set_dropD intro!: that)
  have i1: "rk_inv k1 R" by (rule new_node_inv(2) [OF assms(1) k1(1)])
  have "\<forall>(b, m) \<in> set (((rva_list k1)(l := g)) KMAP_LIST). am_kmapped (rva_info m)"
    using inv_kmapped [OF i1] k1(3,4) assms(3) by auto
  thus ?thesis unfolding k1(2) by (rule rva_list_inv [OF i1])
qed

lemma kmap_end:
  assumes "rk_inv km R" "list_from_va va km = Inr KMAP_LIST"
  shows "\<not> is_kva va"
proof -
  note sp = inv_space [OF assms(1)]
  have "va < addr_space km + kbase"
    using assms(2) vunsign_kva [OF sp] by (auto simp: list_from_va_def rbind_eq_Inr split: if_splits)
  hence "unat va < 2 ^ 48" using kva_off(1) [OF sp] sp by (simp add: word_less_nat_alt)
  thus ?thesis by (simp add: is_kva_def word_le_nat_alt KERNEL_BASE_def KERNEL_ADDR_BITS_def)
qed

lemma find_rva_list:
  assumes "rk_inv km R" "list_from_va va km = Inr KMAP_LIST" "find_rva va km = Inr (Some (l, i))"
  shows "l = KMAP_LIST"
  using assms(2,3) kmap_end [OF assms(1,2)] by (auto simp: find_rva_def rbind_eq_Inr split: if_splits)

lemma mdt_free_inv:
  assumes "rk_inv km R" "frees f" "vmalloc_pa_mdt_free f n km = Inr km'"
  shows "rk_inv km' R"
  by (rule rfold_invariant [where P = "\<lambda>km. rk_inv km R", OF assms(3) [unfolded vmalloc_pa_mdt_free_def] assms(1)])
     (rule free_node_inv(3) [OF _ assms(2)])

lemma pop_rva_inv:
  assumes "rk_inv km R" "frees f" "list_from_va va km = Inr l" "pop_rva f l va km = Inr (km', x)"
  shows "rk_inv km' R"
proof -
  obtain fl i where fl: "find_rva va km = Inr (Some (fl, i))"
    using assms(4) by (auto simp: pop_rva_def rbind_eq_Inr split: option.splits)
  define k1 where "k1 = (if 0 < i then upd_rva_list fl (\<lambda>xs. take i xs @ drop (Suc i) xs) km
     else upd_rva_list l (\<lambda>_. drop 1 (rva_list km fl)) km)"
  obtain node n where nn: "rva_list km fl ! i = (node, n)" by (cases "rva_list km fl ! i") auto
  obtain k2 where k2: "vmalloc_pa_mdt_free f n k1 = Inr k2" "free_rva_node f node k2 = Inr km'"
    using assms(4) fl nn by (auto simp: pop_rva_def rbind_eq_Inr rassert_eq_Inr k1_def Let_def split: if_splits)
  have "set (rva_list k1 KMAP_LIST) \<subseteq> set (rva_list km KMAP_LIST)"
    using find_rva_list [OF assms(1) _ fl] assms(3)
    by (auto simp: k1_def upd_rva_list_def dest: in_set_takeD in_set_dropD)
  hence "\<forall>(a, n) \<in> set (rva_list k1 KMAP_LIST). am_kmapped (rva_info n)" using inv_kmapped [OF assms(1)] by auto
  moreover have "k1 = km\<lparr>rva_list := rva_list k1\<rparr>" by (simp add: k1_def upd_rva_list_def)
  ultimately have i1: "rk_inv k1 R" using rva_list_inv [OF assms(1)] by metis
  show ?thesis using free_node_inv(2) [OF mdt_free_inv [OF i1 assms(2) k2(1)] assms(2) k2(2)] .
qed

lemma vfree_inv:
  assumes "rk_inv km R" "frees f" "vfree f t km = Inr (km', bytes)"
  shows "rk_inv km' R"
proof -
  obtain n :: rva_node and l k1 x where k1: "list_from_va (rva_start n) km = Inr l" "pop_rva f l (rva_start n) km = Inr (k1, bytes, x)"
    "push_fva f l (rva_start n) bytes k1 = Inr km'"
    using assms(3) by (auto simp: vfree_def rbind_eq_Inr Let_def)
  show ?thesis by (rule push_fva_inv [OF pop_rva_inv [OF assms(1,2) k1(1,2)] assms(2) k1(3)])
qed

lemma vmalloc_inv:
  assumes "rk_inv km R" "frees f" "vmalloc f pages tag cfg km = Inr (km', va, t)"
  shows "rk_inv km' R"
    and "vc_use_kmap cfg \<Longrightarrow> unat (vc_kmap_pa cfg) < 2 ^ 47 \<Longrightarrow> va = kpa_to_kva (vc_kmap_pa cfg)"
proof -
  let ?l = "if vc_use_kmap cfg then KMAP_LIST else DYNAMIC_LIST"
  obtain k1 start where k1: "pop_fva f ?l pages (vc_kmap_pa cfg) km = Inr (k1, start)"
    "push_rva ?l pages start tag cfg k1 = Inr (km', t)" "vsign start = Inr va"
    using assms(3) by (force simp: vmalloc_def Let_def rbind_eq_Inr rassert_eq_Inr)
  note p = pop_fva_inv [OF assms(1,2) k1(1)]
  show "rk_inv km' R" by (rule push_rva_inv [OF p(1) k1(2)]) auto
  assume u: "vc_use_kmap cfg" "unat (vc_kmap_pa cfg) < 2 ^ 47"
  hence "start = vc_kmap_pa cfg + kbase" using p(2) vunsign_kva [OF u(2)] by simp
  thus "va = kpa_to_kva (vc_kmap_pa cfg)" using k1(3) vsign_kva [OF u(2)] by simp
qed

end
