(* ===== verification/Cache_Correct.thy ===== *)
theory Cache_Correct
  imports Cache_Ident
begin

text \<open>
  Correctness of the allocator of small objects over any allocator of pages with the laws of the locale
  \<open>raw_pages\<close>: what \<open>cache_malloc\<close> returns is apart from every object in use, and \<open>cache_free\<close> gives back
  exactly the object of the pointer.
\<close>

section \<open>Objects\<close>

definition slot_obj :: "nat \<Rightarrow> u64 \<Rightarrow> nat \<Rightarrow> u64 \<times> nat" where
  "slot_obj i p e = (p + of_nat (e * cache_size i), cache_size i)"

lemma cm_objs_slots: "cm_objs X = {slot_obj i p e | i p b e. i < CACHE_CLASSES \<and> (p, b) \<in> set (X i) \<and> e \<in> taken i b}"
  by (simp add: cm_objs_def slot_obj_def)

lemma slot_span:
  assumes "placed X" "i < CACHE_CLASSES" "p \<in> addrs (X i)" "e < CACHE_ENTRIES i"
  shows "obj_span (slot_obj i p e) = {unat p + e * cache_size i ..< unat p + e * cache_size i + cache_size i}"
    and "obj_span (slot_obj i p e) \<subseteq> pg_span (p, CACHE_PAGES i)"
proof -
  have "unat p + cache_bytes i \<le> 2 ^ 64" using placed_base [OF assms(1-3)] by simp
  hence "unat (p + of_nat (e * cache_size i)) = unat p + e * cache_size i"
    using unat_add_off [of p "e * cache_size i"] entry_end(2) [OF assms(2,4)] by linarith
  thus sp: "obj_span (slot_obj i p e) = {unat p + e * cache_size i ..< unat p + e * cache_size i + cache_size i}"
    by (simp add: obj_span_def slot_obj_def)
  show "obj_span (slot_obj i p e) \<subseteq> pg_span (p, CACHE_PAGES i)"
    using entry_end(2) [OF assms(2,4)] unfolding sp by (auto simp: pg_span_def cache_bytes_def)
qed

lemma placed_two: "placed X \<Longrightarrow> i < CACHE_CLASSES \<Longrightarrow> j < CACHE_CLASSES \<Longrightarrow> p \<in> addrs (X i) \<Longrightarrow> q \<in> addrs (X j) \<Longrightarrow>
    (i, p) \<noteq> (j, q) \<Longrightarrow> pg_span (p, CACHE_PAGES i) \<inter> pg_span (q, CACHE_PAGES j) = {}"
  unfolding placed_def by blast

lemma slots_apart:
  assumes "placed X" "i < CACHE_CLASSES" "j < CACHE_CLASSES" "p \<in> addrs (X i)" "q \<in> addrs (X j)"
    and "e < CACHE_ENTRIES i" "f < CACHE_ENTRIES j" "(i, p, e) \<noteq> (j, q, f)"
  shows "obj_span (slot_obj i p e) \<inter> obj_span (slot_obj j q f) = {}"
proof (cases "i = j \<and> p = q")
  case True
  hence "e < f \<or> f < e" using assms(8) by auto
  hence "Suc e * cache_size i \<le> f * cache_size i \<or> Suc f * cache_size i \<le> e * cache_size i"
    using mult_le_mono1 Suc_leI by blast
  hence "e * cache_size i + cache_size i \<le> f * cache_size i \<or> f * cache_size i + cache_size i \<le> e * cache_size i"
    by (simp add: add.commute)
  thus ?thesis
    using True slot_span(1) [OF assms(1,2,4,6)] slot_span(1) [OF assms(1,3,5,7)] by auto
next
  case False
  hence "(i, p) \<noteq> (j, q)" by simp
  hence "pg_span (p, CACHE_PAGES i) \<inter> pg_span (q, CACHE_PAGES j) = {}"
    by (rule placed_two [OF assms(1-5)])
  thus ?thesis using slot_span(2) [OF assms(1,2,4,6)] slot_span(2) [OF assms(1,3,5,7)] by blast
qed

lemma slot_span_nonempty: "obj_span (slot_obj i p e) \<noteq> {}"
  by (simp add: obj_span_def slot_obj_def)

lemma slot_obj_inj:
  assumes "placed X" "i < CACHE_CLASSES" "j < CACHE_CLASSES" "p \<in> addrs (X i)" "q \<in> addrs (X j)"
    and "e < CACHE_ENTRIES i" "f < CACHE_ENTRIES j" "slot_obj i p e = slot_obj j q f"
  shows "i = j \<and> p = q \<and> e = f"
  using slots_apart [OF assms(1-7)] assms(8) slot_span_nonempty by (metis Int_absorb prod.inject)

section \<open>A change in one class\<close>

lemma placed_sub:
  assumes "placed X" "addrs xs \<subseteq> addrs (X i)"
  shows "placed (X(i := xs))"
proof -
  have sub: "a \<in> addrs ((X(i := xs)) j) \<Longrightarrow> a \<in> addrs (X j)" for a j using assms(2) by (cases "j = i") auto
  show ?thesis unfolding placed_def
  proof (intro conjI allI impI ballI)
    fix j k a b
    assume "j < CACHE_CLASSES" "k < CACHE_CLASSES" "a \<in> addrs ((X(i := xs)) j)" "b \<in> addrs ((X(i := xs)) k)"
      "(j, a) \<noteq> (k, b)"
    thus "pg_span (a, CACHE_PAGES j) \<inter> pg_span (b, CACHE_PAGES k) = {}" using placed_two [OF assms(1)] sub by blast
  qed (use placed_base [OF assms(1)] sub in blast)+
qed

lemma placed_new:
  assumes "placed X" "i < CACHE_CLASSES" "addrs xs = insert p (addrs (X i))"
    and "p \<noteq> 0" "cache_bytes i dvd unat p" "unat p + cache_bytes i \<le> 2 ^ 64"
    and "\<forall>b \<in> cm_caches X. pg_span (p, CACHE_PAGES i) \<inter> pg_span b = {}"
  shows "placed (X(i := xs))"
proof -
  let ?Y = "X(i := xs)"
  have in_Y: "a \<in> addrs (?Y j) \<longleftrightarrow> a \<in> addrs (X j) \<or> j = i \<and> a = p" for a j using assms(3) by auto
  have new: "pg_span (p, CACHE_PAGES i) \<inter> pg_span (q, CACHE_PAGES j) = {}" if "j < CACHE_CLASSES" "q \<in> addrs (X j)" for j q
    using assms(7) that by (force simp: cm_caches_def elim: addrsE)
  have two: "pg_span (a, CACHE_PAGES j) \<inter> pg_span (b, CACHE_PAGES k) = {}"
    if h: "j < CACHE_CLASSES" "k < CACHE_CLASSES" "a \<in> addrs (?Y j)" "b \<in> addrs (?Y k)" "(j, a) \<noteq> (k, b)" for j k a b
  proof -
    consider "a \<in> addrs (X j)" "b \<in> addrs (X k)" | "j = i" "a = p" "b \<in> addrs (X k)"
      | "a \<in> addrs (X j)" "k = i" "b = p" using h(3-5) in_Y by blast
    thus ?thesis
    proof cases
      case 1
      thus ?thesis using placed_two [OF assms(1) h(1,2)] h(5) by blast
    next
      case 2
      thus ?thesis using new [OF h(2)] by simp
    next
      case 3
      thus ?thesis using new [OF h(1), of a] by (simp add: Int_commute)
    qed
  qed
  have one: "a \<noteq> 0 \<and> cache_bytes j dvd unat a \<and> unat a + cache_bytes j \<le> 2 ^ 64"
    if "j < CACHE_CLASSES" "a \<in> addrs (?Y j)" for j a
    using that in_Y placed_base [OF assms(1)] assms(4-6) by blast
  show ?thesis unfolding placed_def using one two by (intro conjI allI impI ballI) blast+
qed

lemma shape_upd:
  assumes sh: "cm_shape st X" and i: "i < CACHE_CLASSES" and cr: "crep i st' xs" and pl: "placed (X(i := xs))"
    and cl: "\<forall>j. j \<noteq> i \<longrightarrow> cm_classes st' j = cm_classes st j"
    and ce: "\<forall>a. a \<notin> addrs xs \<union> addrs (X i) \<longrightarrow> cm_cells st' a = cm_cells st a"
    and go: "\<forall>a \<in> addrs (X i) - addrs xs. cm_cells st' a = None"
  shows "cm_shape st' (X(i := xs))"
proof -
  have disj: "a \<notin> addrs xs \<union> addrs (X i)" if "j < CACHE_CLASSES" "j \<noteq> i" "a \<in> addrs (X j)" for j a
  proof -
    have "0 < cache_bytes i" "0 < cache_bytes j" by (simp_all add: cache_bytes_pow)
    thus ?thesis using that i pl sh placed_apart [of X i j a a "unat a"] placed_apart [of "X(i := xs)" i j a a "unat a"]
      by (auto simp: cm_shape_def)
  qed
  have "crep j st' ((X(i := xs)) j)" if "j < CACHE_CLASSES" for j
  proof (cases "j = i")
    case False
    have "\<forall>a \<in> addrs (X j). cm_cells st' a = cm_cells st a" using ce disj [OF that False] by blast
    hence "crep j st' (X j) = crep j st (X j)" using cl False crep_frame [of st' j st "X j"] unfolding addrs_def by blast
    thus ?thesis using False that sh by (simp add: cm_shape_def)
  qed (use cr in simp)
  moreover have "\<exists>j < CACHE_CLASSES. a \<in> addrs ((X(i := xs)) j)" if a: "cm_cells st' a \<noteq> None" for a
  proof (cases "a \<in> addrs xs")
    case False
    hence n: "a \<notin> addrs (X i)" using go a by (metis DiffI)
    hence "cm_cells st a \<noteq> None" using False ce a by auto
    then obtain j where "j < CACHE_CLASSES" "a \<in> addrs (X j)" using shape_dom [OF sh] by blast
    thus ?thesis using n by (intro exI [of _ j]) auto
  qed (use i in auto)
  ultimately show ?thesis using pl unfolding cm_shape_def by blast
qed

section \<open>Objects of a class\<close>

definition class_objs :: "nat \<Rightarrow> (u64 \<times> cbody) list \<Rightarrow> (u64 \<times> nat) set" where
  "class_objs i xs = (\<Union>x \<in> set xs. slot_obj i (fst x) ` taken i (snd x))"

definition other_objs :: "nat \<Rightarrow> (nat \<Rightarrow> (u64 \<times> cbody) list) \<Rightarrow> (u64 \<times> nat) set" where
  "other_objs i X = (\<Union>j \<in> {..< CACHE_CLASSES} - {i}. class_objs j (X j))"

lemma class_objs_simps [simp]:
  "class_objs i [] = {}" "class_objs i ((p, b) # xs) = slot_obj i p ` taken i b \<union> class_objs i xs"
  "class_objs i (xs @ ys) = class_objs i xs \<union> class_objs i ys"
  by (auto simp: class_objs_def)

lemma class_objs_iff: "x \<in> class_objs i xs \<longleftrightarrow> (\<exists>p b e. (p, b) \<in> set xs \<and> e \<in> taken i b \<and> x = slot_obj i p e)"
  by (force simp: class_objs_def)

lemma cm_objs_union: "cm_objs X = (\<Union>j < CACHE_CLASSES. class_objs j (X j))"
proof -
  have "x \<in> cm_objs X \<longleftrightarrow> (\<exists>j < CACHE_CLASSES. x \<in> class_objs j (X j))" for x
    unfolding cm_objs_slots class_objs_iff by blast
  thus ?thesis by blast
qed

lemma cm_objs_class: "i < CACHE_CLASSES \<Longrightarrow> cm_objs (X(i := xs)) = class_objs i xs \<union> other_objs i X"
proof -
  assume i: "i < CACHE_CLASSES"
  have "(\<Union>j \<in> {..< CACHE_CLASSES} - {i}. class_objs j ((X(i := xs)) j)) = other_objs i X"
    unfolding other_objs_def by (rule SUP_cong) auto
  moreover have "(\<Union>j \<in> insert i ({..< CACHE_CLASSES} - {i}). class_objs j ((X(i := xs)) j))
      = class_objs i ((X(i := xs)) i) \<union> (\<Union>j \<in> {..< CACHE_CLASSES} - {i}. class_objs j ((X(i := xs)) j))"
    by (rule UN_insert)
  moreover have "insert i ({..< CACHE_CLASSES} - {i}) = {..< CACHE_CLASSES}" using i by (intro insert_Diff) simp
  ultimately show ?thesis unfolding cm_objs_union by (simp only: fun_upd_same)
qed

lemma cm_objs_at: "i < CACHE_CLASSES \<Longrightarrow> cm_objs X = class_objs i (X i) \<union> other_objs i X"
  using cm_objs_class [of i X "X i"] by simp

lemma objs_take:
  assumes "i < CACHE_CLASSES" "X i = xs @ (p, b) # ys" "taken i c = insert e (taken i b)"
  shows "cm_objs (X(i := xs @ (p, c) # ys)) = insert (slot_obj i p e) (cm_objs X)"
  unfolding cm_objs_class [OF assms(1)] cm_objs_at [OF assms(1), of X] by (simp add: assms(2,3))

lemma objs_fresh:
  assumes "placed X" "i < CACHE_CLASSES" "p \<in> addrs (X i)" "e < CACHE_ENTRIES i"
    and "\<forall>b. (p, b) \<in> set (X i) \<longrightarrow> e \<notin> taken i b" "x \<in> cm_objs X"
  shows "obj_span (slot_obj i p e) \<inter> obj_span x = {}"
proof -
  obtain j q c f where x: "x = slot_obj j q f" "j < CACHE_CLASSES" "(q, c) \<in> set (X j)" "f \<in> taken j c"
    using assms(6) unfolding cm_objs_slots by blast
  have "f < CACHE_ENTRIES j" using x(4) by (simp add: taken_def)
  moreover have "(i, p, e) \<noteq> (j, q, f)" using assms(5) x(3,4) by auto
  ultimately show ?thesis using slots_apart [of X i j p q e f] assms(1-4) x addrsI [OF x(3)] by simp
qed

lemma objs_rest:
  assumes "cm_shape st X" "i < CACHE_CLASSES" "X i = xs @ (p, b) # ys" "e \<in> taken i b"
  shows "slot_obj i p e \<notin> class_objs i (xs @ ys) \<union> other_objs i X"
proof
  assume "slot_obj i p e \<in> class_objs i (xs @ ys) \<union> other_objs i X"
  hence "\<exists>j q c f. slot_obj i p e = slot_obj j q f \<and> j < CACHE_CLASSES \<and> (q, c) \<in> set (X j) \<and> f \<in> taken j c
      \<and> (j \<noteq> i \<or> (q, c) \<in> set (xs @ ys))"
  proof
    assume "slot_obj i p e \<in> class_objs i (xs @ ys)"
    thus ?thesis unfolding class_objs_iff using assms(2,3) by (intro exI [of _ i]) auto
  next
    assume "slot_obj i p e \<in> other_objs i X"
    thus ?thesis unfolding other_objs_def by (auto simp: class_objs_iff)
  qed
  then obtain j q c f where x: "slot_obj i p e = slot_obj j q f" "j < CACHE_CLASSES" "(q, c) \<in> set (X j)" "f \<in> taken j c"
      "j \<noteq> i \<or> (q, c) \<in> set (xs @ ys)" by blast
  have pl: "placed X" and d: "distinct (map fst (X i))"
    using assms(1,2) by (auto simp: cm_shape_def crep_def class_list_def dlist_def)
  have "p \<in> addrs (X i)" using assms(3) by simp
  moreover have "e < CACHE_ENTRIES i" "f < CACHE_ENTRIES j" using assms(4) x(4) by (simp_all add: taken_def)
  ultimately have "i = j \<and> p = q" using slot_obj_inj [OF pl assms(2) x(2) _ addrsI [OF x(3)] _ _ x(1)] by blast
  thus False using x(5) d assms(3) by (force simp: image_iff)
qed

lemma objs_drop:
  assumes "cm_shape st X" "i < CACHE_CLASSES" "X i = xs @ (p, b) # ys" "e \<in> taken i b"
  shows "taken i c = taken i b - {e} \<Longrightarrow> cm_objs (X(i := xs @ (p, c) # ys)) = cm_objs X - {slot_obj i p e}"
    and "taken i b = {e} \<Longrightarrow> cm_objs (X(i := xs @ ys)) = cm_objs X - {slot_obj i p e}"
proof -
  have r: "slot_obj i p e \<notin> class_objs i (xs @ ys) \<union> other_objs i X" by (rule objs_rest [OF assms])
  have pl: "placed X" "p \<in> addrs (X i)" using assms(1,3) by (auto simp: cm_shape_def)
  have "slot_obj i p ` (taken i b - {e}) = slot_obj i p ` taken i b - {slot_obj i p e}"
    using slot_obj_inj [OF pl(1) assms(2,2) pl(2,2)] assms(4) by (force simp: taken_def)
  thus "taken i c = taken i b - {e} \<Longrightarrow> cm_objs (X(i := xs @ (p, c) # ys)) = cm_objs X - {slot_obj i p e}"
    and "taken i b = {e} \<Longrightarrow> cm_objs (X(i := xs @ ys)) = cm_objs X - {slot_obj i p e}"
    using r unfolding cm_objs_class [OF assms(2)] cm_objs_at [OF assms(2), of X] by (auto simp: assms(3))
qed

section \<open>Taking an entry\<close>

lemma take_shape:
  assumes sh: "cm_shape st X" and i: "i < CACHE_CLASSES" and cl: "class_list i st1 (xs @ (p, b) # ys)"
    and sf: "slot_free i b n k" and tk: "\<forall>(q, c) \<in> set (xs @ ys). taken i c \<noteq> {}"
    and pl: "placed (X(i := xs @ (p, b) # ys))" and sub: "addrs (X i) \<subseteq> addrs (xs @ (p, b) # ys)"
    and fr: "\<forall>j. j \<noteq> i \<longrightarrow> cm_classes st1 j = cm_classes st j"
      "\<forall>a. a \<notin> addrs (xs @ (p, b) # ys) \<longrightarrow> cm_cells st1 a = cm_cells st a"
  shows "\<exists>st' e Y. take_entry i p n k st1 = Inr (st', fst (slot_obj i p e)) \<and> cm_shape st' Y
     \<and> cm_caches Y = cm_caches (X(i := xs @ (p, b) # ys))
     \<and> cm_objs Y = insert (slot_obj i p e) (cm_objs (X(i := xs @ (p, b) # ys)))
     \<and> (\<forall>x \<in> cm_objs (X(i := xs @ (p, b) # ys)). obj_span (slot_obj i p e) \<inter> obj_span x = {})
     \<and> cm_raw st' = cm_raw st1 \<and> cm_client st' = cm_client st1"
proof -
  let ?X = "X(i := xs @ (p, b) # ys)"
  obtain st' n1 k1 where te: "take_entry i p n k st1 = Inr (st', p + of_nat ((n1 * BF_BITS + k1) * cache_size i))"
     "slot_free i b n1 k1" "crep i st' (xs @ (p, take_slot n1 k1 b) # ys)"
     "cm_raw st' = cm_raw st1" "cm_client st' = cm_client st1" "\<forall>a. a \<noteq> p \<longrightarrow> cm_cells st' a = cm_cells st1 a"
     "\<forall>j. j \<noteq> i \<longrightarrow> cm_classes st' j = cm_classes st1 j"
    using take_entry_spec [OF cl sf tk] by blast
  let ?e = "n1 * BF_BITS + k1" and ?c = "take_slot n1 k1 b"
  let ?Y = "X(i := xs @ (p, ?c) # ys)"
  have b: "body_ok i b" and d: "distinct (map fst (xs @ (p, b) # ys))" using cl by (auto simp: class_list_def dlist_def)
  have e: "?e < CACHE_ENTRIES i" "?e \<notin> taken i b" using slot_free_entry [OF te(2)] by auto
  have tkn: "taken i ?c = insert ?e (taken i b)" using take_slot_ok [OF b te(2)] by simp
  have "placed ?Y" using placed_sub [OF pl, of "xs @ (p, ?c) # ys" i] by simp
  hence sY: "cm_shape st' ?Y"
    using te(6,7) fr sub by (intro shape_upd [OF sh i te(3)]) auto
  have oY: "cm_objs ?Y = insert (slot_obj i p ?e) (cm_objs ?X)"
    using objs_take [OF i, of ?X xs p b ys ?c ?e] tkn by simp
  have "\<forall>c. (p, c) \<in> set (?X i) \<longrightarrow> ?e \<notin> taken i c"
    using d e(2) by (force simp: image_iff)
  hence "\<forall>x \<in> cm_objs ?X. obj_span (slot_obj i p ?e) \<inter> obj_span x = {}"
    using objs_fresh [OF pl i, of p ?e] e(1) by simp
  moreover have "cm_caches ?Y = cm_caches ?X" unfolding cm_caches_def by (rule SUP_cong) auto
  ultimately show ?thesis using te(1,4,5) sY oY by (intro exI [of _ st'] exI [of _ ?e] exI [of _ ?Y]) (simp add: slot_obj_def)
qed

section \<open>Giving an entry back\<close>

lemma slot_ptr:
  assumes "placed X" "i < CACHE_CLASSES" "p \<in> addrs (X i)" "e < CACHE_ENTRIES i"
  shows "align_down (fst (slot_obj i p e)) (of_nat (cache_bytes i)) = p"
    and "unat (fst (slot_obj i p e) - p) div unat (of_nat (cache_size i) :: u64) = e"
proof -
  let ?k = "if i < 7 then 14 else 15 :: nat"
  have base: "2 ^ ?k dvd unat p" "unat p + 2 ^ ?k \<le> 2 ^ 64" using placed_base [OF assms(1-3)] by (simp_all add: cache_bytes_pow)
  have off: "e * cache_size i < 2 ^ ?k" using entry_end(2) [OF assms(2,4)] by (simp add: cache_bytes_pow)
  hence "align_down (p + of_nat (e * cache_size i)) (2 ^ ?k) = p"
    using align_base [OF base(1) off] base(2) by simp
  thus "align_down (fst (slot_obj i p e)) (of_nat (cache_bytes i)) = p" by (simp add: slot_obj_def cache_bytes_pow)
  have "(2 :: nat) ^ ?k \<le> 2 ^ 15" by simp
  hence "e * cache_size i < 2 ^ 64" using off by (simp split: if_splits)
  hence "unat (of_nat (e * cache_size i) :: u64) = e * cache_size i" using unat_add_off [of 0 "e * cache_size i"] by simp
  moreover have "fst (slot_obj i p e) - p = of_nat (e * cache_size i)" by (simp add: slot_obj_def)
  ultimately show "unat (fst (slot_obj i p e) - p) div unat (of_nat (cache_size i) :: u64) = e"
    using idx_of_size [OF assms(2)] class_size_pos [of i] by simp
qed

lemma cm_shape_raw [simp]: "cm_shape (st\<lparr>cm_raw := r\<rparr>) X = cm_shape st X"
proof -
  have "crep i (st\<lparr>cm_raw := r\<rparr>) (X i) = crep i st (X i)" for i by (rule crep_frame) auto
  thus ?thesis by (simp add: cm_shape_def)
qed

lemma caches_iff: "(a, m) \<in> cm_caches X \<longleftrightarrow> (\<exists>j < CACHE_CLASSES. a \<in> addrs (X j) \<and> m = CACHE_PAGES j)"
  by (auto simp: cm_caches_def addrs_def)

lemma caches_add:
  assumes "i < CACHE_CLASSES"
  shows "cm_caches (X(i := X i @ [(p, b)])) = insert (p, CACHE_PAGES i) (cm_caches X)"
proof -
  have "a \<in> addrs ((X(i := X i @ [(p, b)])) j) \<longleftrightarrow> a \<in> addrs (X j) \<or> j = i \<and> a = p" for a j by auto
  hence "(a, m) \<in> cm_caches (X(i := X i @ [(p, b)])) \<longleftrightarrow> (a, m) \<in> insert (p, CACHE_PAGES i) (cm_caches X)" for a m
    using assms unfolding caches_iff insert_iff prod.inject by blast
  thus ?thesis by auto
qed

lemma caches_remove:
  assumes "placed X" "i < CACHE_CLASSES" "X i = xs @ (p, b) # ys" "distinct (map fst (xs @ (p, b) # ys))"
  shows "cm_caches (X(i := xs @ ys)) = cm_caches X - {(p, CACHE_PAGES i)}"
proof -
  have pX: "p \<in> addrs (X i)" and pY: "p \<notin> addrs (xs @ ys)" using assms(3,4) by (auto simp: addrs_def)
  have np: "p \<notin> addrs (X j)" if "j < CACHE_CLASSES" "j \<noteq> i" for j
  proof -
    have "0 < cache_bytes i" "0 < cache_bytes j" by (simp_all add: cache_bytes_pow)
    thus ?thesis using placed_apart [OF assms(1,2) that(1) pX, of p "unat p"] that(2) by auto
  qed
  have "a \<in> addrs ((X(i := xs @ ys)) j) \<longleftrightarrow> a \<in> addrs (X j) \<and> a \<noteq> p" if "j < CACHE_CLASSES" for a j
    using np [OF that] pY assms(3) by (cases "j = i") auto
  hence "(a, m) \<in> cm_caches (X(i := xs @ ys)) \<longleftrightarrow> (a, m) \<in> cm_caches X \<and> a \<noteq> p" for a m
    unfolding caches_iff by blast
  moreover have "(a, m) \<in> cm_caches X \<and> a = p \<longrightarrow> m = CACHE_PAGES i" for a m
    unfolding caches_iff using np by blast
  ultimately show ?thesis by auto
qed

lemma free_shape:
  assumes sh: "cm_shape st X" and i: "i < CACHE_CLASSES" and X: "X i = xs @ (p, b) # ys" and e: "e \<in> taken i b"
  shows "taken i b \<noteq> {e} \<Longrightarrow>
     \<exists>st' Y. free_entry rawfree i (of_nat (cache_size i)) (fst (slot_obj i p e)) st = Inr st' \<and> cm_shape st' Y
       \<and> cm_caches Y = cm_caches X \<and> cm_objs Y = cm_objs X - {slot_obj i p e}
       \<and> cm_raw st' = cm_raw st \<and> cm_client st' = cm_client st" (is "?A \<Longrightarrow> ?B")
    and "taken i b = {e} \<Longrightarrow>
     \<exists>st' Y. free_entry rawfree i (of_nat (cache_size i)) (fst (slot_obj i p e)) st
         = rbind (rawfree p (cm_raw st)) (\<lambda>rw. Inr (st'\<lparr>cm_raw := rw\<rparr>)) \<and> cm_shape st' Y
       \<and> cm_caches Y = cm_caches X - {(p, CACHE_PAGES i)} \<and> cm_objs Y = cm_objs X - {slot_obj i p e}
       \<and> cm_client st' = cm_client st" (is "?C \<Longrightarrow> ?D")
proof -
  have pl: "placed X" and cr: "crep i st (xs @ (p, b) # ys)" using sh i X by (auto simp: cm_shape_def)
  have pX: "p \<in> addrs (X i)" and ee: "e < CACHE_ENTRIES i" using X e by (auto simp: taken_def)
  have b: "body_ok i b" and d: "distinct (map fst (xs @ (p, b) # ys))"
    using cr by (auto simp: crep_def class_list_def dlist_def)
  note ptr = slot_ptr [OF pl i pX ee]
  show ?B if A: ?A
  proof -
    let ?c = "drop_slot (e div BF_BITS) (e mod BF_BITS) b"
    let ?Y = "X(i := xs @ (p, ?c) # ys)"
    obtain st' where st': "free_entry rawfree i (of_nat (cache_size i)) (fst (slot_obj i p e)) st = Inr st'"
       "crep i st' (xs @ (p, ?c) # ys)" "cm_raw st' = cm_raw st" "cm_client st' = cm_client st"
       "\<forall>a. a \<noteq> p \<longrightarrow> cm_cells st' a = cm_cells st a" "\<forall>j. j \<noteq> i \<longrightarrow> cm_classes st' j = cm_classes st j"
      using free_entry_keep [OF cr e A ptr] by blast
    have "placed ?Y" using placed_sub [OF pl, of "xs @ (p, ?c) # ys" i] X by simp
    hence "cm_shape st' ?Y" using st'(5,6) X by (intro shape_upd [OF sh i st'(2)]) auto
    moreover have "taken i ?c = taken i b - {e}" using drop_slot_ok(2) [OF b] entry_split [OF ee] by simp
    hence "cm_objs ?Y = cm_objs X - {slot_obj i p e}" using objs_drop(1) [OF sh i X e] by simp
    moreover have "cm_caches ?Y = cm_caches X" unfolding cm_caches_def using X by (intro SUP_cong) auto
    ultimately show ?thesis using st'(1,3,4) by blast
  qed
  show ?D if C: ?C
  proof -
    let ?Y = "X(i := xs @ ys)"
    obtain st' where st': "free_entry rawfree i (of_nat (cache_size i)) (fst (slot_obj i p e)) st
         = rbind (rawfree p (cm_raw st)) (\<lambda>rw. Inr (st'\<lparr>cm_raw := rw\<rparr>))"
       "crep i st' (xs @ ys)" "cm_client st' = cm_client st" "cm_cells st' p = None"
       "\<forall>a. a \<notin> fst ` set (xs @ (p, b) # ys) \<longrightarrow> cm_cells st' a = cm_cells st a"
       "\<forall>j. j \<noteq> i \<longrightarrow> cm_classes st' j = cm_classes st j"
      using free_entry_last [OF cr C ptr] by blast
    have "placed ?Y" using placed_sub [OF pl, of "xs @ ys" i] X by auto
    hence "cm_shape st' ?Y" using st'(4-6) X unfolding addrs_def [symmetric] by (intro shape_upd [OF sh i st'(2)]) auto
    moreover have "cm_objs ?Y = cm_objs X - {slot_obj i p e}" using objs_drop(2) [OF sh i X e C] .
    moreover have "cm_caches ?Y = cm_caches X - {(p, CACHE_PAGES i)}"
      using caches_remove [OF pl i X d] .
    ultimately show ?thesis using st'(1,3) by blast
  qed
qed

end
