(* ===== verification/Cache_Alloc.thy ===== *)
theory Cache_Alloc
  imports Cache_Correct
begin

text \<open>
  The contract of the allocator of small objects.  \<open>raw_pages\<close> is what it relies on in the allocator of
  pages; from it follow the laws of an allocator for the objects of the caches, and with them the safety of
  every history of requests and releases.
\<close>

section \<open>The pointer of an object\<close>

definition misread :: "'r cm_state \<Rightarrow> nat \<Rightarrow> u64 \<Rightarrow> nat \<Rightarrow> bool" where
  "misread st i p e \<longleftrightarrow> 7 \<le> i \<and> e * cache_size i < 16384 \<and> has_magic (cm_client st (p + 16376))"

lemma cache_free_ident:
  assumes sh: "cm_shape st X" and i: "i < CACHE_CLASSES" and pb: "(p, b) \<in> set (X i)" and e: "e \<in> taken i b"
  shows "\<not> misread st i p e \<Longrightarrow>
     cache_free rawfree (fst (slot_obj i p e)) st = free_entry rawfree i (of_nat (cache_size i)) (fst (slot_obj i p e)) st"
    and "misread st i p e \<Longrightarrow> cache_free rawfree (fst (slot_obj i p e)) st = Inr st' \<Longrightarrow>
     free_entry rawfree i (of_nat (cache_size i)) (fst (slot_obj i p e)) st = Inr st'"
proof -
  have pl: "placed X" using sh by (simp add: cm_shape_def)
  have ee: "e < CACHE_ENTRIES i" using e by (simp add: taken_def)
  have off: "e * cache_size i < cache_bytes i" using entry_end(2) [OF i ee] class_size_pos [of i] by linarith
  note sz = size_from_ptr [OF sh i pb off]
  have ptr: "fst (slot_obj i p e) = p + of_nat (e * cache_size i)" by (simp add: slot_obj_def)
  show "\<not> misread st i p e \<Longrightarrow>
     cache_free rawfree (fst (slot_obj i p e)) st = free_entry rawfree i (of_nat (cache_size i)) (fst (slot_obj i p e)) st"
    using sz idx_of_size [OF i] unfolding cache_free_def ptr by (auto simp: misread_def)
  assume m: "misread st i p e" and f: "cache_free rawfree (fst (slot_obj i p e)) st = Inr st'"
  let ?w = "cm_client st (p + 16376)"
  have m': "7 \<le> i" "e * cache_size i < 2 ^ 14" "has_magic ?w" using m by (simp_all add: misread_def)
  have "cache_malloc_size_from_ptr st (p + of_nat (e * cache_size i)) = Some (power_of2 (?w AND CACHE_ID_MASK))"
    using sz m' by simp
  then obtain j where j: "cache_idx_from_size (power_of2 (?w AND CACHE_ID_MASK)) = Inr j"
      "free_entry rawfree j (power_of2 (?w AND CACHE_ID_MASK)) (fst (slot_obj i p e)) st = Inr st'"
    using f unfolding cache_free_def ptr by (auto simp: rbind_eq_Inr)
  have jn: "j < CACHE_CLASSES" "power_of2 (?w AND CACHE_ID_MASK) = of_nat (cache_size j)"
    using idx_of_nibble [OF j(1)] by auto
  have base: "2 ^ 15 dvd unat p" "unat p + 2 ^ 15 \<le> 2 ^ 64"
    using placed_base [OF pl i addrsI [OF pb]] m'(1) by (simp_all add: cache_bytes_pow)
  let ?k = "if j < 7 then 14 else 15 :: nat"
  have "2 ^ ?k dvd unat p" using base(1) dvd_trans [OF le_imp_power_dvd [of ?k 15 "2 :: nat"]] by simp
  hence "align_down (p + of_nat (e * cache_size i)) (2 ^ ?k) = p"
    using align_base [of ?k p "e * cache_size i"] m'(2) base(2) by (auto split: if_splits)
  hence al: "align_down (fst (slot_obj i p e)) (of_nat (cache_bytes j)) = p" unfolding ptr by (simp add: cache_bytes_pow)
  obtain n where n: "cm_cells st p = Some n" "cb_class (d_data n) = i"
    using shape_cell [OF sh i pb] by (auto simp: body_ok_def)
  have "j = i" using j(2) n unfolding free_entry_def al
    by (auto simp: get_generic_fields_def rbind_eq_Inr split: if_splits)
  thus "free_entry rawfree i (of_nat (cache_size i)) (fst (slot_obj i p e)) st = Inr st'" using j(2) jn(2) by simp
qed

section \<open>The contract\<close>

definition raw_block :: "'r raw_malloc \<Rightarrow> nat \<Rightarrow> 'r \<Rightarrow> ('r \<times> (u64 \<times> nat)) res" where
  "raw_block raw n r = rbind (raw n r) (\<lambda>(r, p). Inr (r, (p, n)))"

definition raw_unblock :: "'r raw_free \<Rightarrow> u64 \<times> nat \<Rightarrow> 'r \<Rightarrow> 'r res" where
  "raw_unblock rawfree b r = rawfree (fst b) r"

definition cm_inv :: "('r \<Rightarrow> (u64 \<times> nat) set \<Rightarrow> bool) \<Rightarrow> 'r cm_state \<Rightarrow> (nat \<Rightarrow> (u64 \<times> cbody) list) \<Rightarrow> bool" where
  "cm_inv rrepr st X \<longleftrightarrow> cm_shape st X \<and> rrepr (cm_raw st) (cm_caches X)"

definition cm_repr :: "('r \<Rightarrow> (u64 \<times> nat) set \<Rightarrow> bool) \<Rightarrow> 'r cm_state \<Rightarrow> (u64 \<times> nat) set \<Rightarrow> bool" where
  "cm_repr rrepr st A \<longleftrightarrow> (\<exists>X. cm_inv rrepr st X \<and> cm_objs X = A)"

definition cm_alloc :: "'r raw_malloc \<Rightarrow> u64 \<Rightarrow> 'r cm_state \<Rightarrow> ('r cm_state \<times> (u64 \<times> nat)) res" where
  "cm_alloc raw sz st = rbind (cache_malloc raw sz st) (\<lambda>(st, p). Inr (st, (p, unat sz)))"

definition cm_release :: "'r raw_free \<Rightarrow> u64 \<times> nat \<Rightarrow> 'r cm_state \<Rightarrow> 'r cm_state res" where
  "cm_release rawfree b st = cache_free rawfree (fst b) st"

locale raw_pages = allocator rrepr pg_span "raw_block raw" "raw_unblock rawfree"
  for rrepr :: "'r \<Rightarrow> (u64 \<times> nat) set \<Rightarrow> bool" and raw :: "'r raw_malloc" and rawfree :: "'r raw_free" +
  assumes raw_placed: "rrepr r R \<Longrightarrow> (p, n) \<in> R \<Longrightarrow> p \<noteq> 0 \<and> n * 4096 dvd unat p \<and> unat p + n * 4096 \<le> 2 ^ 64"
begin

lemma malloc_hint:
  assumes "cm_inv rrepr st X" "i < CACHE_CLASSES" "ff_cache (cm_classes st i) \<noteq> 0"
  shows "\<exists>st' x Y. cache_malloc raw (of_nat (cache_size i)) st = Inr (st', fst x) \<and> snd x = cache_size i
     \<and> cm_inv rrepr st' Y \<and> cm_objs Y = insert x (cm_objs X) \<and> (\<forall>y \<in> cm_objs X. obj_span x \<inter> obj_span y = {})"
proof -
  have sh: "cm_shape st X" and rr: "rrepr (cm_raw st) (cm_caches X)" using assms(1) by (auto simp: cm_inv_def)
  have cr: "crep i st (X i)" and pl: "placed X" using sh assms(2) by (auto simp: cm_shape_def)
  obtain b where b: "(ff_cache (cm_classes st i), b) \<in> set (X i)" "slot_free i b (ff_n (cm_classes st i)) (ff_i (cm_classes st i))"
    using cr assms(3) by (auto simp: crep_def hint_ok_def)
  obtain xs ys where X: "X i = xs @ (ff_cache (cm_classes st i), b) # ys" using b(1) by (meson split_list)
  have eq: "X(i := xs @ (ff_cache (cm_classes st i), b) # ys) = X" using X by (metis fun_upd_triv)
  have tk: "\<forall>(q, c) \<in> set (xs @ ys). taken i c \<noteq> {}" using cr X by (auto simp: crep_def)
  have cl: "class_list i st (xs @ (ff_cache (cm_classes st i), b) # ys)" using cr X by (simp add: crep_def)
  obtain st' e Y where s: "take_entry i (ff_cache (cm_classes st i)) (ff_n (cm_classes st i)) (ff_i (cm_classes st i)) st
        = Inr (st', fst (slot_obj i (ff_cache (cm_classes st i)) e))"
      "cm_shape st' Y" "cm_caches Y = cm_caches X" "cm_objs Y = insert (slot_obj i (ff_cache (cm_classes st i)) e) (cm_objs X)"
      "\<forall>x \<in> cm_objs X. obj_span (slot_obj i (ff_cache (cm_classes st i)) e) \<inter> obj_span x = {}" "cm_raw st' = cm_raw st"
    using take_shape [OF sh assms(2) cl b(2) tk] X pl unfolding eq by auto
  have "cache_malloc raw (of_nat (cache_size i)) st = Inr (st', fst (slot_obj i (ff_cache (cm_classes st i)) e))"
    using idx_of_size [OF assms(2)] s(1) pick_cache_hint [OF assms(3)] by (simp add: cache_malloc_def)
  moreover have "cm_inv rrepr st' Y" using s(2,3,6) rr by (simp add: cm_inv_def)
  moreover have "snd (slot_obj i (ff_cache (cm_classes st i)) e) = cache_size i" by (simp add: slot_obj_def)
  ultimately show ?thesis using s(4,5) by blast
qed

lemma malloc_new:
  assumes "cm_inv rrepr st X" "i < CACHE_CLASSES" "ff_cache (cm_classes st i) = 0" "raw (CACHE_PAGES i) (cm_raw st) = Inr (r, p)"
  shows "\<exists>st' x Y. cache_malloc raw (of_nat (cache_size i)) st = Inr (st', fst x) \<and> snd x = cache_size i
     \<and> cm_inv rrepr st' Y \<and> cm_objs Y = insert x (cm_objs X) \<and> (\<forall>y \<in> cm_objs X. obj_span x \<inter> obj_span y = {})"
proof -
  have sh: "cm_shape st X" and rr: "rrepr (cm_raw st) (cm_caches X)" using assms(1) by (auto simp: cm_inv_def)
  have cr: "crep i st (X i)" and pl: "placed X" using sh assms(2) by (auto simp: cm_shape_def)
  have rb: "raw_block raw (CACHE_PAGES i) (cm_raw st) = Inr (r, (p, CACHE_PAGES i))" using assms(4) by (simp add: raw_block_def)
  have r': "rrepr r (insert (p, CACHE_PAGES i) (cm_caches X))" using alloc_repr [OF rr rb] .
  have pp: "p \<noteq> 0" "cache_bytes i dvd unat p" "unat p + cache_bytes i \<le> 2 ^ 64"
    using raw_placed [OF r', of p "CACHE_PAGES i"] by (simp_all add: cache_bytes_def)
  have ap: "\<forall>b \<in> cm_caches X. pg_span (p, CACHE_PAGES i) \<inter> pg_span b = {}" using alloc_fresh [OF rr rb] by blast
  have np: "p \<notin> addrs (X i)"
  proof
    assume "p \<in> addrs (X i)"
    hence "(p, CACHE_PAGES i) \<in> cm_caches X" using assms(2) by (auto simp: caches_iff)
    thus False using ap alloc_nonempty [OF rr rb] by blast
  qed
  let ?zs = "X i @ [(p, new_body i)]"
  have plz: "placed (X(i := ?zs))" using placed_new [OF pl assms(2) _ pp ap, of ?zs] by simp
  have cl: "class_list i st (X i)" using cr by (simp add: crep_def)
  obtain s1 where s1: "pick_cache raw i st = Inr (s1, p, 0, 0)" "class_list i s1 ?zs" "cm_raw s1 = r"
     "\<forall>a. a \<notin> insert p (fst ` set (X i)) \<longrightarrow> cm_cells s1 a = cm_cells st a"
     "\<forall>j. j \<noteq> i \<longrightarrow> cm_classes s1 j = cm_classes st j"
    using pick_cache_new [of i st "X i" raw r p, OF cl assms(3,4) pp(1) np [unfolded addrs_def] assms(2)] by blast
  have tk: "\<forall>(q, c) \<in> set (X i @ []). taken i c \<noteq> {}" using cr by (simp add: crep_def)
  have eq: "cm_objs (X(i := ?zs)) = cm_objs X"
    unfolding cm_objs_class [OF assms(2)] cm_objs_at [OF assms(2), of X] by (simp add: empty_body(2) [OF assms(2)])
  have "cm_caches (X(i := ?zs)) = insert (p, CACHE_PAGES i) (cm_caches X)"
    using caches_add [OF assms(2)] by simp
  moreover have fr: "\<forall>a. a \<notin> addrs ?zs \<longrightarrow> cm_cells s1 a = cm_cells st a" using s1(4) unfolding addrs_def [symmetric] by simp
  have sub: "addrs (X i) \<subseteq> addrs ?zs" by auto
  obtain st' e Y where s: "take_entry i p 0 0 s1 = Inr (st', fst (slot_obj i p e))"
      "cm_shape st' Y" "cm_caches Y = cm_caches (X(i := ?zs))" "cm_objs Y = insert (slot_obj i p e) (cm_objs X)"
      "\<forall>x \<in> cm_objs X. obj_span (slot_obj i p e) \<inter> obj_span x = {}" "cm_raw st' = r"
    using take_shape [OF sh assms(2) s1(2) empty_body(3) [OF assms(2)] tk plz sub s1(5) fr] s1(3) unfolding eq by auto
  ultimately have "cm_inv rrepr st' Y" using r' by (simp add: cm_inv_def)
  moreover have "cache_malloc raw (of_nat (cache_size i)) st = Inr (st', fst (slot_obj i p e))"
    using idx_of_size [OF assms(2)] s(1) s1(1) by (simp add: cache_malloc_def)
  moreover have "snd (slot_obj i p e) = cache_size i" by (simp add: slot_obj_def)
  ultimately show ?thesis using s(4,5) by blast
qed

end

context raw_pages
begin

lemma cm_objE:
  assumes "x \<in> cm_objs X"
  shows "\<exists>i p b e xs ys. i < CACHE_CLASSES \<and> X i = xs @ (p, b) # ys \<and> e \<in> taken i b \<and> x = slot_obj i p e"
proof -
  obtain i p b e where x: "i < CACHE_CLASSES" "(p, b) \<in> set (X i)" "e \<in> taken i b" "x = slot_obj i p e"
    using assms unfolding cm_objs_slots by blast
  thus ?thesis using split_list [OF x(2)] by blast
qed

lemma free_entry_inv:
  assumes inv: "cm_inv rrepr st X" and i: "i < CACHE_CLASSES" and X: "X i = xs @ (p, b) # ys" and e: "e \<in> taken i b"
    and f: "free_entry rawfree i (of_nat (cache_size i)) (fst (slot_obj i p e)) st = Inr st'"
  shows "\<exists>Y. cm_inv rrepr st' Y \<and> cm_objs Y = cm_objs X - {slot_obj i p e}"
proof -
  have sh: "cm_shape st X" and rr: "rrepr (cm_raw st) (cm_caches X)" using inv by (auto simp: cm_inv_def)
  show ?thesis
  proof (cases "taken i b = {e}")
    case False
    thus ?thesis using free_shape(1) [OF sh i X e False, of rawfree] f rr by (auto simp: cm_inv_def)
  next
    case True
    obtain s1 Y where s1: "rbind (rawfree p (cm_raw st)) (\<lambda>rw. Inr (s1\<lparr>cm_raw := rw\<rparr>)) = Inr st'" "cm_shape s1 Y"
        "cm_caches Y = cm_caches X - {(p, CACHE_PAGES i)}" "cm_objs Y = cm_objs X - {slot_obj i p e}"
      using free_shape(2) [OF sh i X e True, of rawfree] f by auto
    then obtain rw where rw: "rawfree p (cm_raw st) = Inr rw" "st' = s1\<lparr>cm_raw := rw\<rparr>" by (auto simp: rbind_eq_Inr)
    have "(p, CACHE_PAGES i) \<in> cm_caches X" using i X by (auto simp: caches_iff)
    hence "rrepr rw (cm_caches Y)" using release_repr [OF rr, of "(p, CACHE_PAGES i)" rw] rw(1) s1(3)
      by (simp add: raw_unblock_def)
    thus ?thesis using s1(2,4) rw(2) by (auto simp: cm_inv_def)
  qed
qed

lemma free_inv:
  assumes inv: "cm_inv rrepr st X" and x: "x \<in> cm_objs X" and f: "cache_free rawfree (fst x) st = Inr st'"
  shows "\<exists>Y. cm_inv rrepr st' Y \<and> cm_objs Y = cm_objs X - {x}"
proof -
  obtain i p b e xs ys where s: "i < CACHE_CLASSES" "X i = xs @ (p, b) # ys" "e \<in> taken i b" "x = slot_obj i p e"
    using cm_objE [OF x] by blast
  have sh: "cm_shape st X" and pb: "(p, b) \<in> set (X i)" using inv s(2) by (auto simp: cm_inv_def)
  have "free_entry rawfree i (of_nat (cache_size i)) (fst (slot_obj i p e)) st = Inr st'"
    using cache_free_ident [OF sh s(1) pb s(3)] f s(4) by metis
  thus ?thesis using free_entry_inv [OF inv s(1-3)] s(4) by blast
qed

lemma malloc_inv:
  assumes inv: "cm_inv rrepr st X" and m: "cache_malloc raw sz st = Inr (st', p)"
  shows "\<exists>Y. cm_inv rrepr st' Y \<and> cm_objs Y = insert (p, unat sz) (cm_objs X) \<and> 0 < unat sz
     \<and> (\<forall>y \<in> cm_objs X. obj_span (p, unat sz) \<inter> obj_span y = {})"
proof -
  obtain i where idx: "cache_idx_from_size sz = Inr i" "unat sz = cache_size i" 
    and pick: "rbind (pick_cache raw i st) (\<lambda>(st, p, n, k). take_entry i p n k st) = Inr (st', p)"
    using m by (auto simp: cache_malloc_def rbind_eq_Inr split: if_splits)
  have "sz \<le> 2048" using idx(1) by (auto simp: cache_idx_from_size_def rassert_def split: if_splits)
  hence "8 * 2 ^ i \<le> (2048 :: nat)" using idx(2) by (simp add: word_le_nat_alt cache_size_def)
  hence "i \<le> 8" using power_le_imp_le_exp [of "2 :: nat" i 8] by simp
  hence i: "i < CACHE_CLASSES" by (simp add: CACHE_CLASSES_def)
  have "of_nat (unat sz) = sz" by simp
  hence sz: "sz = of_nat (cache_size i)" using idx(2) by simp
  have "\<exists>s2 x Y. cache_malloc raw sz st = Inr (s2, fst x) \<and> snd x = cache_size i
     \<and> cm_inv rrepr s2 Y \<and> cm_objs Y = insert x (cm_objs X) \<and> (\<forall>y \<in> cm_objs X. obj_span x \<inter> obj_span y = {})"
  proof (cases "ff_cache (cm_classes st i) = 0")
    case True
    then obtain r q where "raw (CACHE_PAGES i) (cm_raw st) = Inr (r, q)"
      using pick by (auto simp: pick_cache_def new_cache_def rbind_eq_Inr Let_def)
    thus ?thesis using malloc_new [OF inv i True] unfolding sz by blast
  next
    case False
    thus ?thesis using malloc_hint [OF inv i] unfolding sz by blast
  qed
  then obtain s2 x Y where x: "cache_malloc raw sz st = Inr (s2, fst x)" "snd x = cache_size i" "cm_inv rrepr s2 Y"
      "cm_objs Y = insert x (cm_objs X)" "\<forall>y \<in> cm_objs X. obj_span x \<inter> obj_span y = {}" by blast
  have "x = (p, unat sz)" "s2 = st'" using x(1,2) m idx(2) by (auto simp: prod_eq_iff)
  thus ?thesis using x(3-5) idx(2) by auto
qed

end

sublocale raw_pages \<subseteq> cm: allocator "cm_repr rrepr" obj_span "cm_alloc raw" "cm_release rawfree"
proof
  fix s A q s' b
  assume r: "cm_repr rrepr s A" and a: "cm_alloc raw q s = Inr (s', b)"
  obtain p where p: "cache_malloc raw q s = Inr (s', p)" "b = (p, unat q)" using a by (auto simp: cm_alloc_def rbind_eq_Inr)
  obtain X where X: "cm_inv rrepr s X" "cm_objs X = A" using r by (auto simp: cm_repr_def)
  note m = malloc_inv [OF X(1) p(1)]
  show "cm_repr rrepr s' (insert b A)" using m X(2) p(2) by (auto simp: cm_repr_def)
  show "obj_span b \<noteq> {}" using m p(2) by (auto simp: obj_span_def)
  fix c assume "c \<in> A"
  thus "obj_span b \<inter> obj_span c = {}" using m X(2) p(2) by auto
next
  fix s A b s'
  assume r: "cm_repr rrepr s A" and b: "b \<in> A" and f: "cm_release rawfree b s = Inr s'"
  obtain X where X: "cm_inv rrepr s X" "cm_objs X = A" using r by (auto simp: cm_repr_def)
  show "cm_repr rrepr s' (A - {b})" using free_inv [OF X(1), of b s'] X(2) b f by (auto simp: cm_repr_def cm_release_def)
qed

section \<open>The initial state\<close>

lemma cache_init_shape: "cm_cells st = (\<lambda>_. None) \<Longrightarrow> cm_shape (cache_malloc_init st) (\<lambda>_. [])"
  by (simp add: cm_shape_def cache_malloc_init_def crep_def class_list_def hint_ok_def placed_def dlist_def cm_class_init_def)

lemma cm_objs_init: "cm_objs (\<lambda>_. []) = {}" "cm_caches (\<lambda>_. []) = {}"
  by (auto simp: cm_objs_def cm_caches_def)

lemma cache_init_repr:
  "cm_cells st = (\<lambda>_. None) \<Longrightarrow> rrepr (cm_raw st) {} \<Longrightarrow> cm_repr rrepr (cache_malloc_init st) {}"
  unfolding cm_repr_def cm_inv_def
  by (rule exI [of _ "\<lambda>_. []"]) (simp add: cache_init_shape cm_objs_init, simp add: cache_malloc_init_def)

end
