(* ===== verification/Raw_Safe.thy ===== *)
theory Raw_Safe
  imports Raw_Owner Cache_Alloc
begin

text \<open>
  The allocator of kernel pages keeps the contract \<open>raw_pages\<close> that the allocator of small objects relies on.
  What it needs of the kernel's mapping is the locale \<open>mmu_service\<close>; the mapping operations of
  \<open>arm/mmu/mmu.c\<close> with tables from the reserve (\<open>mm_mmu_default_allocator\<close> of \<open>kernel/mm/mm_mmu/mm_mmu.c\<close>)
  provide it.
\<close>

section \<open>What the mapping must keep\<close>

lemma rva_index_less: "rva_index start xs = Inr i \<Longrightarrow> i < length xs"
  by (induction xs arbitrary: i) (auto simp: rbind_eq_Inr split: if_splits)

text \<open>The node of an area that is mapped with the offset of the kernel.\<close>

lemma token_kmapped:
  assumes "rk_inv km R" "is_kva v" "vunsign v = Inr u" "u < addr_space km + kbase"
    "vmalloc_get_token v km = Inr t" "vmalloc_get_mdt t km = Inr vi"
  shows "am_kmapped vi"
proof -
  have lk: "list_from_va u km = Inr KMAP_LIST" using vunsign_kva [OF inv_space [OF assms(1)]] assms(4) by (simp add: list_from_va_def)
  obtain l i where li: "find_rva v km = Inr (Some (l, i))" "t = fst (rva_list km l ! i)"
    using assms(5) by (auto simp: vmalloc_get_token_def rbind_eq_Inr split: option.splits)
  have "l = KMAP_LIST" "i < length (rva_list km KMAP_LIST)"
    using li(1) assms(2,3) lk rva_index_less by (auto simp: find_rva_def rbind_eq_Inr split: if_splits)
  hence "t \<in> fst ` set (rva_list km KMAP_LIST)" using li(2) by simp
  then obtain n where n: "map_of (rva_list km KMAP_LIST) t = Some n" by (metis map_of_eq_None_iff not_Some_eq)
  hence "vi = rva_info n" using assms(6) by (auto simp: vmalloc_get_mdt_def rva_at_def rbind_eq_Inr map_add_def)
  thus ?thesis using inv_kmapped [OF assms(1) map_of_SomeD [OF n]] by simp
qed

locale mmu_service =
  fixes ops :: "ktables mmu_ops"
  assumes map_inv: "rk_inv km R \<Longrightarrow> mo_map ops va pa sz cfg km = Inr (km', r) \<Longrightarrow> rk_inv km' R"
    and unmap_inv: "rk_inv km R \<Longrightarrow> mo_unmap ops va sz km = Inr (km', u) \<Longrightarrow> rk_inv km' R"
begin

lemma raw_kfree_kmap:
  assumes "rk_inv km R" "(v, n) \<in> R" "frees f" "raw_kfree_step ops f v km = Inr km'"
  shows "rk_inv km' (R - {(v, n)})"
proof -
  obtain A where A: "page_repr (page_st km) A" "R \<subseteq> kblk ` A" "ps_N (page_st km) * 4096 \<le> unat (addr_space km)"
      "unat (addr_space km) < 2 ^ 47" 
    using assms(1) unfolding rk_inv_def by (elim coreE) (rule that)
  obtain b where b: "b \<in> A" "(v, n) = kblk b" using A(2) assms(2) by blast
  have v: "v = fst (kblk b)" using b(2) by (metis fst_conv)
  note kv = block_kva [OF A(1) b(1) A(3,4), folded v]
  have lt: "unat (ucast (fst b) * PAGE_SIZE :: u64) < unat (addr_space km)" by (rule block_pa(3) [OF A(1) b(1) A(3,4)])
  let ?u = "ucast (fst b) * PAGE_SIZE + kbase :: u64"
  have "?u < addr_space km + kbase" using lt kva_off(1) [OF A(4)] kva_off(1) [of "ucast (fst b) * PAGE_SIZE"] A(4)
    by (simp add: word_less_nat_alt)
  then obtain t vi where t: "vmalloc_get_token v km = Inr t" "vmalloc_get_mdt t km = Inr vi" "am_kmapped vi"
    using assms(4) token_kmapped [OF assms(1) kv(4,3)] by (auto simp: raw_kfree_step_def rbind_eq_Inr)
  then obtain k1 bytes k2 where k: "vfree f t km = Inr (k1, bytes)" "page_free_km (kva_to_kpa v) k1 = Inr k2"
      "(if am_pa_assigned vi then rbind (mo_unmap ops v bytes k2) (\<lambda>(km, r). rassert (r = MMU_UNMAP_OK) (Panic ''raw_kfree: mmu_unmap'') (Inr km))
        else Inr k2) = Inr km'"
    using assms(4) by (auto simp: raw_kfree_step_def rbind_eq_Inr)
  have i1: "rk_inv k1 R" by (rule vfree_inv [OF assms(1,3) k(1)])
  obtain s where s: "page_free (kva_to_kpa v) (page_st k1) = Inr s" "k2 = k1\<lparr>page_st := s\<rparr>"
    using k(2) by (auto simp: page_free_km_def rbind_eq_Inr)
  have "rk_core s (addr_space k1) (rva_list k1 KMAP_LIST) (ints k1) (dom (mmu_st k1)) (R - {(v, n)})"
    by (rule core_free [OF i1 [unfolded rk_inv_def] assms(2) s(1)])
  hence "rk_inv k2 (R - {(v, n)})" using s(2) by (simp add: rk_inv_def ints_def res_vas_def)
  thus ?thesis using k(3) unmap_inv by (auto simp: rbind_eq_Inr rassert_eq_Inr split: if_splits)
qed

lemma raw_kfree_frees: "frees (raw_kfree_n ops d)"
proof (induction d)
  case (Suc d)
  show ?case unfolding frees_def using raw_kfree_kmap [OF _ _ Suc] by simp
qed (simp add: frees_def)

end

section \<open>Allocation\<close>

lemma mset_filter_fewer: "mset (filter (\<lambda>j. P j \<and> Q j) xs) \<subseteq># mset (filter P xs)"
proof -
  have "mset (filter (\<lambda>j. P j \<and> Q j) xs) = filter_mset Q (mset (filter P xs))" by (induction xs) auto
  thus ?thesis using multiset_filter_subset [of Q "mset (filter P xs)"] by (rule ssubst)
qed

lemma res_vas_fill:
  assumes "i < RESERVE_MALLOC_SIZE" "i < length (reserved_addr km)"
    "reserved_addr km' = (reserved_addr km)[i := pv]" "reserved_pages km' = bitfield_set_high (reserved_pages km) i"
  shows "mset (res_vas km') \<subseteq># add_mset (pv_va pv) (mset (res_vas km))"
proof -
  let ?P = "\<lambda>j. bitfield_get (reserved_pages km) j \<noteq> 0 \<and> j < length (reserved_addr km)"
  let ?Q = "\<lambda>j. bitfield_get (reserved_pages km') j \<noteq> 0 \<and> j < length (reserved_addr km')"
  have i: "i \<in> set [0 ..< RESERVE_MALLOC_SIZE]" "?Q i"
    using assms by (auto simp: bitfield_bit bit_bitfield_set_high RESERVE_MALLOC_SIZE_def)
  have e: "filter (\<lambda>j. ?Q j \<and> j \<noteq> i) [0 ..< RESERVE_MALLOC_SIZE] = filter (\<lambda>j. ?P j \<and> j \<noteq> i) [0 ..< RESERVE_MALLOC_SIZE]"
    using assms(3,4) by (intro filter_cong) (auto simp: bitfield_bit bit_bitfield_set_high)
  have f: "map (\<lambda>j. pv_va (reserved_addr km' ! j)) (filter (\<lambda>j. ?P j \<and> j \<noteq> i) xs) =
      map (\<lambda>j. pv_va (reserved_addr km ! j)) (filter (\<lambda>j. ?P j \<and> j \<noteq> i) xs)" for xs
    using assms(3) by (intro map_cong) auto
  have "image_mset (\<lambda>j. pv_va (reserved_addr km ! j)) (mset (filter (\<lambda>j. ?P j \<and> j \<noteq> i) [0 ..< RESERVE_MALLOC_SIZE])) \<subseteq># mset (res_vas km)"
    unfolding res_vas_def mset_map by (rule image_mset_subseteq_mono [OF mset_filter_fewer])
  moreover have "mset (res_vas km') = add_mset (pv_va pv) (mset (map (\<lambda>j. pv_va (reserved_addr km ! j))
      (filter (\<lambda>j. ?P j \<and> j \<noteq> i) [0 ..< RESERVE_MALLOC_SIZE])))"
    unfolding res_vas_def mset_map mset_filter_out [of "[0 ..< RESERVE_MALLOC_SIZE]" i ?Q, OF distinct_upt i] e image_mset_add_mset
    unfolding mset_map [symmetric] f using assms(2,3) by simp
  ultimately show ?thesis unfolding mset_map by simp
qed

lemma res_fill_inv:
  assumes "rk_inv km (insert (pv_va pv, 1) R)" "(pv_va pv, 1) \<notin> R" "i < RESERVE_MALLOC_SIZE" "i < length (reserved_addr km)"
  shows "rk_inv (km\<lparr>reserved_addr := (reserved_addr km)[i := pv], reserved_pages := bitfield_set_high (reserved_pages km) i\<rparr>) R"
proof -
  let ?k = "km\<lparr>reserved_addr := (reserved_addr km)[i := pv], reserved_pages := bitfield_set_high (reserved_pages km) i\<rparr>"
  have "mset (res_vas ?k) \<subseteq># add_mset (pv_va pv) (mset (res_vas km))" by (rule res_vas_fill [OF assms(3,4)]) simp_all
  hence "ints ?k \<subseteq># add_mset (pv_va pv) (ints km)" by (simp add: ints_def)
  hence "rk_core (page_st km) (addr_space km) (rva_list km KMAP_LIST) (ints ?k) (dom (mmu_st km)) R"
    by (rule core_fewer [OF core_absorb(1) [OF assms(1) [unfolded rk_inv_def] assms(2)]])
  thus ?thesis by (simp add: rk_inv_def)
qed

context mmu_service
begin

lemma raw_kmalloc_kmap_inv:
  assumes "rk_inv km R" "rc_kmap cfg" "raw_kmalloc_kmap ops pages tag cfg km = Inr (km', va)"
  shows "rk_inv km' (insert (va, unat pages) R)" and "\<forall>b \<in> R. pg_span (va, unat pages) \<inter> pg_span b = {}"
    and "0 < unat pages"
proof -
  let ?k = "unat (log2_floor_u64 pages)"
  have p2: "is_pow2 pages" using assms(3) by (simp add: raw_kmalloc_kmap_def rassert_eq_Inr)
  obtain s pa k2 t r where s: "page_malloc ?k (raw_page_data tag cfg) (page_st km) = Inr (s, pa)"
    and k2: "vmalloc (raw_kfree ops) pages tag (vmalloc_cfg_from_raw_kmalloc_cfg cfg pa) (km\<lparr>page_st := s\<rparr>) = Inr (k2, va, t)"
    and k3: "mo_map ops va pa (pages * PAGE_SIZE) (raw_mmu_cfg cfg) k2 = Inr (km', r)"
    using assms(3) by (auto simp: raw_kmalloc_kmap_def with_pages_def rbind_eq_Inr rassert_eq_Inr)
  note c = core_alloc [OF assms(1) [unfolded rk_inv_def] s]
  have i1: "rk_inv (km\<lparr>page_st := s\<rparr>) (insert (kpa_to_kva pa, 2 ^ ?k) R)"
    using c(1) by (simp add: rk_inv_def ints_def res_vas_def)
  have f: "frees (raw_kfree ops)" using raw_kfree_frees unfolding frees_def raw_kfree_def by blast
  note v = vmalloc_inv [OF i1 f k2]
  have n: "unat pages = 2 ^ ?k" "0 < unat pages" using is_pow2_D [OF p2] log2_floor_exp by (auto simp: unat_exp)
  have va: "va = kpa_to_kva pa" using v(2) assms(2) c(3,4) by (simp add: vmalloc_cfg_from_raw_kmalloc_cfg_def)
  show "rk_inv km' (insert (va, unat pages) R)" using map_inv [OF v(1) k3] va n(1) by simp
  show "\<forall>b \<in> R. pg_span (va, unat pages) \<inter> pg_span b = {}" using c(2) va n(1) by simp
  show "0 < unat pages" by (rule n(2))
qed

lemma raw_kmalloc_nofill_inv:
  assumes "rk_inv km R" "rc_kmap cfg" "raw_kmalloc_nofill ops pages tag cfg km = Inr (km', va)"
  shows "rk_inv km' (insert (va, unat pages) R)" and "\<forall>b \<in> R. pg_span (va, unat pages) \<inter> pg_span b = {}"
    and "0 < unat pages"
proof -
  have m: "raw_kmalloc_kmap ops pages tag cfg km = Inr (km', va)"
    using assms(2,3) by (simp add: raw_kmalloc_nofill_def rassert_eq_Inr)
  show "rk_inv km' (insert (va, unat pages) R)" "\<forall>b \<in> R. pg_span (va, unat pages) \<inter> pg_span b = {}" "0 < unat pages"
    by (fact raw_kmalloc_kmap_inv [OF assms(1,2) m])+
qed

lemma fill_slot_inv:
  assumes "rk_inv km R" "i < RESERVE_MALLOC_SIZE" "fill_slot ops i km = Inr km'"
  shows "rk_inv km' R"
proof (cases "bitfield_get (reserved_pages km) i \<noteq> 0")
  case False
  then obtain k1 va where k1: "raw_kmalloc_nofill ops 1 (str_addr km ''reserved page'') (RAW_KMALLOC_KMAP_CFG\<lparr>rc_fill_reserve := False\<rparr>) km = Inr (k1, va)"
      "i < length (reserved_addr k1)" "km' = k1\<lparr>reserved_addr := (reserved_addr k1)[i := pv_ptr_new (kva_to_kpa va) va],
                     reserved_pages := bitfield_set_high (reserved_pages k1) i\<rparr>"
    using assms(3) by (auto simp: fill_slot_def rbind_eq_Inr split: if_splits)
  have pv: "pv_va (pv_ptr_new (kva_to_kpa va) va) = va" by (simp add: pv_ptr_new_def)
  have r: "rk_inv k1 (insert (va, 1) R)" "\<forall>b \<in> R. pg_span (va, 1) \<inter> pg_span b = {}"
    using raw_kmalloc_nofill_inv [OF assms(1) _ k1(1)] by (simp_all add: RAW_KMALLOC_KMAP_CFG_def)
  hence "(va, 1) \<notin> R" by (auto simp: pg_span_def)
  thus ?thesis unfolding k1(3) using res_fill_inv [of k1 "pv_ptr_new (kva_to_kpa va) va" R i, unfolded pv] r(1) k1(2) assms(2) by blast
qed (use assms in \<open>simp add: fill_slot_def\<close>)

lemma fill_loop_inv:
  assumes "fill_loop ops km = Some r" "rk_inv km R"
  shows "r = Inr km' \<longrightarrow> rk_inv km' R"
proof -
  have "ops = ops \<longrightarrow> rk_inv km R \<longrightarrow> (\<forall>km'. r = Inr km' \<longrightarrow> rk_inv km' R)"
  proof (rule fill_loop.raw_induct [where P = "\<lambda>ops' km r. ops' = ops \<longrightarrow> rk_inv km R \<longrightarrow> (\<forall>km'. r = Inr km' \<longrightarrow> rk_inv km' R)",
      OF _ assms(1)], intro impI allI)
    fix floop ops2 km2 r2 km'
    assume IH: "\<And>o2 k y. floop o2 k = Some y \<Longrightarrow> o2 = ops \<longrightarrow> rk_inv k R \<longrightarrow> (\<forall>km'. y = Inr km' \<longrightarrow> rk_inv km' R)"
      and e: "(if reserved_pages km2 = NOT 0 then Some (Inr km2)
        else case rfold (fill_slot ops2) [0 ..< RESERVE_MALLOC_SIZE] km2 of Inl e \<Rightarrow> Some (Inl e) | Inr km \<Rightarrow> floop ops2 km) = Some r2"
      and o: "ops2 = ops" and i: "rk_inv km2 R" and r: "r2 = Inr km'"
    show "rk_inv km' R"
    proof (cases "reserved_pages km2 = NOT 0")
      case False
      then obtain k1 where k1: "rfold (fill_slot ops) [0 ..< RESERVE_MALLOC_SIZE] km2 = Inr k1" "floop ops k1 = Some (Inr km')"
        using e r o by (auto split: sum.splits)
      have "rk_inv k1 R"
        by (rule rfold_invariant [where P = "\<lambda>km. rk_inv km R", OF k1(1) i]) (rule fill_slot_inv, auto)
      thus ?thesis using IH [OF k1(2)] by simp
    qed (use e r i in simp)
  qed
  thus ?thesis using assms(2) by simp
qed

lemma raw_kmalloc_inv:
  assumes "rk_inv km R" "rc_kmap cfg" "raw_kmalloc ops pages tag cfg km = Inr (km', va)"
  shows "rk_inv km' (insert (va, unat pages) R)" and "\<forall>b \<in> R. pg_span (va, unat pages) \<inter> pg_span b = {}"
    and "0 < unat pages"
proof -
  obtain k1 where k1: "raw_kmalloc_nofill ops pages tag cfg km = Inr (k1, va)" "km' = k1 \<or> reserve_malloc_fill ops k1 = Inr km'"
    using assms(3) by (auto simp: raw_kmalloc_def rbind_eq_Inr split: if_splits)
  note n = raw_kmalloc_nofill_inv [OF assms(1,2) k1(1)]
  show "rk_inv km' (insert (va, unat pages) R)"
    using k1(2) n(1) fill_loop_inv [of k1 _ "insert (va, unat pages) R" km'] by (auto simp: reserve_malloc_fill_def split: option.splits)
  show "\<forall>b \<in> R. pg_span (va, unat pages) \<inter> pg_span b = {}" "0 < unat pages" by (fact n(2,3))+
qed

end

section \<open>The pages of the caches\<close>

definition CACHE_MALLOC_RAW_KMALLOC_CFG :: raw_kmalloc_cfg where
  "CACHE_MALLOC_RAW_KMALLOC_CFG = \<lparr>rc_fill_reserve = True, rc_assign_pa = True, rc_kmap = True, rc_device_mem = False,
     rc_permanent = False, rc_init_zeroed = True\<rparr>"

text \<open>A number of pages is a value of \<open>size_t\<close>.\<close>

definition cache_raw :: "'m mmu_ops \<Rightarrow> u64 \<Rightarrow> 'm kmem raw_malloc" where
  "cache_raw ops tag n km =
     rassert (unat (of_nat n :: u64) = n) Fault (raw_kmalloc ops (of_nat n) tag CACHE_MALLOC_RAW_KMALLOC_CFG km)"

lemma rk_placed:
  assumes "rk_inv km R" "(v, n) \<in> R"
  shows "v \<noteq> 0 \<and> n * 4096 dvd unat v \<and> unat v + n * 4096 \<le> 2 ^ 64"
proof -
  obtain A where A: "page_repr (page_st km) A" "R \<subseteq> kblk ` A" "ps_N (page_st km) * 4096 \<le> unat (addr_space km)"
      "unat (addr_space km) < 2 ^ 47"
    using assms(1) unfolding rk_inv_def by (elim coreE) (rule that)
  obtain b where b: "b \<in> A" "(v, n) = kblk b" using A(2) assms(2) by blast
  have v: "v = fst (kblk b)" "n = 2 ^ snd b" using b(2) by (auto simp: kblk_def)
  have u: "unat v = unat (fst b) * 4096 + (2 ^ 64 - 2 ^ 47)" using block_kva(1) [OF A(1) b(1) A(3,4)] v(1) by simp
  have s: "unat (fst b) * 4096 + n * 4096 < 2 ^ 47" using block_pa(2) [OF A(1) b(1) A(3,4)] A(4) v(2) by linarith
  have "n < 2 ^ 47" using s by simp
  hence k: "snd b < 47" unfolding v(2) by (simp only: power_strict_increasing_iff)
  have "n * 4096 = 2 ^ (snd b + 12)" using v(2) by (simp add: power_add)
  moreover have "2 ^ (snd b + 12) < (2 :: nat) ^ 47" using s calculation by linarith
  hence "snd b + 12 < 47" by (simp only: power_strict_increasing_iff)
  hence "(2 :: nat) ^ (snd b + 12) dvd 2 ^ 47 * (2 ^ 17 - 1)" by (intro dvd_mult2 le_imp_power_dvd) simp
  ultimately have d: "n * 4096 dvd 2 ^ 64 - 2 ^ 47" by simp
  have "n dvd unat (fst b)" using repr_block(1) [OF A(1) b(1)] v(2) by simp
  hence "n * 4096 dvd unat (fst b) * 4096" by simp
  hence "n * 4096 dvd unat v" unfolding u using d by (rule dvd_add)
  moreover have "v \<noteq> 0"
  proof
    assume "v = 0"
    thus False using u by simp
  qed
  moreover have "unat v + n * 4096 \<le> 2 ^ 64" using u s by simp
  ultimately show ?thesis by blast
qed

context mmu_service
begin

lemma raw_pages_kernel: "raw_pages rk_inv (cache_raw ops tag) (raw_kfree ops)"
proof
  fix km R n km' b
  assume i: "rk_inv km R" and a: "raw_block (cache_raw ops tag) n km = Inr (km', b)"
  obtain va where va: "unat (of_nat n :: u64) = n" "raw_kmalloc ops (of_nat n) tag CACHE_MALLOC_RAW_KMALLOC_CFG km = Inr (km', va)" "b = (va, n)"
    using a by (auto simp: raw_block_def cache_raw_def rbind_eq_Inr rassert_eq_Inr)
  note r = raw_kmalloc_inv [OF i _ va(2), unfolded va(1), folded va(3)]
  show "rk_inv km' (insert b R)" "pg_span b \<noteq> {}" "c \<in> R \<Longrightarrow> pg_span b \<inter> pg_span c = {}" for c
    using r by (auto simp: CACHE_MALLOC_RAW_KMALLOC_CFG_def va(3) pg_span_def)
next
  fix km R b km'
  assume "rk_inv km R" "b \<in> R" "raw_unblock (raw_kfree ops) b km = Inr km'"
  thus "rk_inv km' (R - {b})" using freesD [OF raw_kfree_frees] by (cases b) (auto simp: raw_unblock_def raw_kfree_def)
qed (rule rk_placed)

end

end
