(* ===== verification/Mmu_Alloc.thy ===== *)
theory Mmu_Alloc
  imports Mmu_Table
begin

text \<open>
  What the operations on a mapping do to the allocator of its tables.  \<open>table_pages\<close> is the view of the
  allocator: a property of its state and of the set of live tables that a new table and a released one keep.
  Then mapping and unmapping keep it, whatever else they do to the tables.
\<close>

definition tbls_held :: "(u64 set \<Rightarrow> 'a \<Rightarrow> bool) \<Rightarrow> 'a mmu_state \<Rightarrow> bool" where
  "tbls_held P st \<longleftrightarrow> P (dom (tbls st)) (alst st)"

lemma held_info [simp]: "tbls_held P (upd_info f st) = tbls_held P st"
  by (simp add: tbls_held_def upd_info_def)

locale table_pages =
  fixes m :: "'a mmu_mapping" and P :: "u64 set \<Rightarrow> 'a \<Rightarrow> bool"
  assumes tbl_alloc: "P D a \<Longrightarrow> allocator_fn m sz a = Inr (a', t) \<Longrightarrow> P (insert t D) a'"
    and tbl_release: "P D a \<Longrightarrow> allocator_free_fn m t a = Inr a' \<Longrightarrow> P (D - {t}) a'"
begin

abbreviation held :: "'a mmu_state \<Rightarrow> bool" where
  "held st \<equiv> tbls_held P st"

lemma held_set:
  assumes "held st" "tbl_set_dc t i dc st = Inr st'"
  shows "held st'"
proof -
  obtain d where d: "tbls st t = Some d" "st' = st\<lparr>tbls := (tbls st)(t \<mapsto> d(unat i := dc))\<rparr>"
    using assms(2) by (auto simp: tbl_set_dc_def split: option.splits)
  have "dom (tbls st') = dom (tbls st)" using d by auto
  thus ?thesis using assms(1) d(2) by (simp add: tbls_held_def)
qed

lemma held_null:
  assumes "held st" "tbl_init_null t g st = Inr st'"
  shows "held st'"
proof -
  obtain d e where d: "tbls st t = Some d" "st' = st\<lparr>tbls := (tbls st)(t \<mapsto> e)\<rparr>"
    using assms(2) by (auto simp: tbl_init_null_def split: option.splits)
  have "dom (tbls st') = dom (tbls st)" using d by auto
  thus ?thesis using assms(1) d(2) by (simp add: tbls_held_def)
qed

lemma held_alloc:
  assumes "held st" "alloc_tbl m b st = Inr (st', t)"
  shows "held st'" and "t \<in> dom (tbls st')"
proof -
  let ?u = "upd_info (\<lambda>i. i\<lparr>alocated_tbls := alocated_tbls i + 1\<rparr>) st"
  obtain a where a: "allocator_fn m (8 * tbl_entries (gran m)) (alst ?u) = Inr (a, t)"
     "(if b then tbl_init_null t (gran m) (?u\<lparr>alst := a, tbls := (tbls ?u)(t \<mapsto> (\<lambda>_. 0))\<rparr>)
       else Inr (?u\<lparr>alst := a, tbls := (tbls ?u)(t \<mapsto> (\<lambda>_. 0))\<rparr>)) = Inr st'"
    using assms(2) by (auto simp: alloc_tbl_def Let_def rbind_eq_Inr rassert_eq_Inr)
  have "held ?u" using assms(1) by simp
  hence "held (?u\<lparr>alst := a, tbls := (tbls ?u)(t \<mapsto> (\<lambda>_. 0))\<rparr>)"
    using tbl_alloc [OF _ a(1)] by (simp add: tbls_held_def)
  thus "held st'" using a(2) held_null by (auto split: if_splits)
  show "t \<in> dom (tbls st')" using a(2) by (auto simp: tbl_init_null_def split: if_splits)
qed

lemma held_split:
  assumes "held st" "split_block m p i l st = Inr (st', t)"
  shows "held st'"
proof -
  obtain s1 s2 old where s: "alloc_tbl m False st = Inr (s1, t)"
    "tbl_set_dc p i (td_build (physmap_offset m) t) s2 = Inr st'"
    and o: "(\<exists>f. s2 = s1\<lparr>tbls := (tbls s1)(t \<mapsto> f)\<rparr>) \<or> tbl_init_null t (gran m) s1 = Inr s2"
    using assms(2) by (auto simp: split_block_def Let_def rbind_eq_Inr rassert_eq_Inr split: if_splits)
  note a = held_alloc [OF assms(1) s(1)]
  have "held s2" using o
  proof
    assume "\<exists>f. s2 = s1\<lparr>tbls := (tbls s1)(t \<mapsto> f)\<rparr>"
    then obtain f where f: "s2 = s1\<lparr>tbls := (tbls s1)(t \<mapsto> f)\<rparr>" by blast
    have "dom (tbls s2) = dom (tbls s1)" using f a(2) by auto
    thus "held s2" using a(1) f by (simp add: tbls_held_def)
  qed (rule held_null [OF a(1)])
  thus ?thesis using held_set [OF _ s(2)] by blast
qed

lemma held_free:
  assumes "held st" "free_tbl_rec n m t l st = Inr st'"
  shows "held st'"
  using assms
proof (induction n arbitrary: t l st st')
  case (Suc n)
  obtain s1 a where s1: "rfold (\<lambda>i st. rbind (mmu_tbl_get_dc st t (word_of_nat i)) (\<lambda>dc.
         if \<not> dc_get_valid dc then Inr st
         else rbind (dc_get_type dc (gran m) l) (\<lambda>ty.
              if ty = MMU_DESCRIPTOR_TABLE
              then rbind (tbl_from_td m dc (l + 1)) (\<lambda>t. free_tbl_rec n m t (l + 1) st)
              else Inr st))) [0..<unat (tbl_entries (gran m))] st = Inr s1"
      "allocator_free_fn m t (alst s1) = Inr a"
      "st' = upd_info (\<lambda>i. i\<lparr>freed_tbls := freed_tbls i + 1\<rparr>) (s1\<lparr>alst := a, tbls := (tbls s1)(t := None)\<rparr>)"
    using Suc.prems(2) by (auto simp: rbind_eq_Inr)
  have "held s1"
    by (rule rfold_invariant [where P = held, OF s1(1) Suc.prems(1)])
       (auto simp: rbind_eq_Inr split: if_splits dest: Suc.IH)
  hence "P (dom (tbls s1) - {t}) a" using tbl_release s1(2) by (simp add: tbls_held_def)
  moreover have "dom ((tbls s1)(t := None)) = dom (tbls s1) - {t}" by auto
  ultimately show ?case unfolding s1(3) held_info by (simp add: tbls_held_def)
qed simp

end

context table_pages
begin

lemma held_next:
  assumes "held u" "(case ty of MMU_DESCRIPTOR_BLOCK \<Rightarrow> split_block m t i l u
      | MMU_DESCRIPTOR_TABLE \<Rightarrow> rbind (tbl_from_td m d l) (\<lambda>t. Inr (u, t))
      | MMU_DESCRIPTOR_PAGE \<Rightarrow> Inl e) = Inr (s, n)"
  shows "held s"
  using assms held_split [OF assms(1)] by (cases ty) (auto simp: rbind_eq_Inr)

lemma held_step:
  assumes "held st" "map_step m va l t st = Inr (st', t')"
  shows "held st'"
proof -
  let ?u = "upd_info (\<lambda>i. i\<lparr>iters := iters i + 1\<rparr>) st"
  have u: "held ?u" using assms(1) by simp
  have "alloc_tbl m True ?u = Inr (s, n) \<Longrightarrow> tbl_set_dc t i d s = Inr s' \<Longrightarrow> held s'" for s n i d s'
    using held_set held_alloc(1) [OF u] by blast
  thus ?thesis using assms(2) held_next [OF u]
    by (auto simp: map_step_def Let_def rbind_eq_Inr split: if_splits)
qed

lemma held_descend: "held st \<Longrightarrow> map_descend m va n l t st = Inr (st', t') \<Longrightarrow> held st'"
  by (induction n arbitrary: l t st) (auto simp: rbind_eq_Inr dest: held_step)

lemma held_map_one:
  assumes "held st" "map_one m va pa cfg lv st = Inr st'"
  shows "held st'"
proof -
  obtain s1 t s2 old where s: "map_descend m va lv 0 (tbl_ptr m) st = Inr (s1, t)"
     "tbl_set_dc t (table_index va (gran m) lv) (bd_build cfg pa (gran m) lv) s1 = Inr s2"
     "(if dc_get_valid old then free_old m old lv s2 else Inr s2) = Inr st'"
    using assms(2) by (auto simp: map_one_def Let_def rbind_eq_Inr)
  have "held s2" using held_set [OF held_descend [OF assms(1) s(1)] s(2)] .
  thus ?thesis using s(3) held_free
    by (auto simp: free_old_def free_tbl_def rbind_eq_Inr simp del: free_tbl_rec.simps split: if_splits)
qed

lemma held_map_loop: "m' = m \<Longrightarrow> held st \<Longrightarrow> map_loop m' cfg va pa sz st = Inr st' \<Longrightarrow> held st'"
proof (induction m' cfg va pa sz st rule: map_loop.induct)
  case (1 m' cfg va pa sz st)
  show ?case
  proof (cases "sz = 0")
    case False
    then obtain t c s1 where s: "sz mod gran_bytes (gran m) = 0 \<and> va mod gran_bytes (gran m) = 0 \<and> pa mod gran_bytes (gran m) = 0"
      "get_target_lvl sz (gran m) va pa = Inr (t, c)" "map_one m va pa cfg t st = Inr s1"
      "map_loop m cfg (va + c) (pa + c) (sz - c) s1 = Inr st'"
      using "1.prems"(3) [unfolded "1.prems"(1) map_loop.simps [of m cfg va pa sz st]] by (auto simp: Let_def rbind_eq_Inr rassert_eq_Inr)
    show ?thesis
      using "1.IH" [OF False refl, of "(t, c)" t c s1] s held_map_one [OF "1.prems"(2) s(3)] "1.prems"(1) by simp
  qed (use "1.prems" in \<open>simp add: map_loop.simps\<close>)
qed

lemma held_map: "held st \<Longrightarrow> mmu_map (Some m) va pa sz cfg st = Inr (st', r) \<Longrightarrow> held st'"
  using held_map_loop [OF refl] by (auto simp: mmu_map_def rbind_eq_Inr split: if_splits)

lemma held_unmap_descend: "held st \<Longrightarrow> unmap_descend m va n l t st = Inr (st', x) \<Longrightarrow> held st'"
proof (induction n arbitrary: l t st)
  case (Suc n)
  let ?u = "upd_info (\<lambda>i. i\<lparr>iters := iters i + 1\<rparr>) st"
  have u: "held ?u" using Suc.prems(1) by simp
  show ?case using Suc.prems(2) u Suc.IH [OF held_next [OF u]]
    by (auto simp: Let_def rbind_eq_Inr split: if_splits)
qed simp

lemma held_unmap_one:
  assumes "held st" "unmap_one m va sz t c st = Inr (st', d)"
  shows "held st'"
proof -
  obtain s1 tb l b where s1: "unmap_descend m va t 0 (tbl_ptr m) st = Inr (s1, tb, l, b)"
    using assms(2) by (auto simp: unmap_one_def Let_def rbind_eq_Inr)
  have h: "held s1" by (rule held_unmap_descend [OF assms(1) s1])
  have "tbl_set_dc a i 0 s1 = Inr s2 \<Longrightarrow> free_tbl m x k s2 = Inr s3 \<Longrightarrow> held s3" for a i s2 x k s3
    using held_free [OF held_set [OF h]] unfolding free_tbl_def by blast
  thus ?thesis using assms(2) s1 h held_set [OF h]
    by (auto simp: unmap_one_def Let_def rbind_eq_Inr split: if_splits)
qed

lemma held_unmap_loop: "m' = m \<Longrightarrow> held st \<Longrightarrow> unmap_loop m' va sz st = Inr (st', r) \<Longrightarrow> held st'"
proof (induction m' va sz st rule: unmap_loop.induct)
  case (1 m' va sz st)
  show ?case
  proof (cases "sz = 0 \<or> sz mod gran_bytes (gran m) \<noteq> 0 \<or> va mod gran_bytes (gran m) \<noteq> 0")
    case False
    then obtain t c s1 d where s: "get_target_lvl sz (gran m) va 0 = Inr (t, c)" "unmap_one m va sz t c st = Inr (s1, d)"
      "unmap_loop m (va + d) (sz - d) s1 = Inr (st', r)"
      using "1.prems"(3) [unfolded "1.prems"(1) unmap_loop.simps [of m va sz st]] by (auto simp: rbind_eq_Inr)
    show ?thesis
      using "1.IH" [of "gran m" "(t, c)" t c "(s1, d)" s1 d] s held_unmap_one [OF "1.prems"(2) s(2)] "1.prems"(1) False by simp
  next
    case True
    thus ?thesis using "1.prems"(3) [unfolded "1.prems"(1) unmap_loop.simps [of m va sz st]] "1.prems"(2)
      by (auto simp: Let_def split: if_splits)
  qed
qed

lemma held_unmap: "held st \<Longrightarrow> mmu_unmap (Some m) va sz st = Inr (st', r) \<Longrightarrow> held st'"
  using held_unmap_loop [OF refl] by (auto simp: mmu_unmap_def split: if_splits)

end

section \<open>Ranges that release no table\<close>

text \<open>A range that is smaller than the block above a page is mapped and unmapped page by page, and the release of tables is
  not called: the operations are the same for every function that is given for it.\<close>

abbreviation with_free :: "'a mmu_mapping \<Rightarrow> (u64 \<Rightarrow> 'a \<Rightarrow> 'a res) \<Rightarrow> 'a mmu_mapping" where
  "with_free m f \<equiv> m\<lparr>allocator_free_fn := f\<rparr>"

lemma with_free_ops [simp]:
  "tbl_from_td (with_free m f) = tbl_from_td m" "alloc_tbl (with_free m f) = alloc_tbl m"
  by (simp_all add: fun_eq_iff tbl_from_td_def alloc_tbl_def Let_def cong: if_cong)

lemma with_free_split [simp]: "split_block (with_free m f) = split_block m"
  by (simp add: fun_eq_iff split_block_def Let_def cong: if_cong)

lemma with_free_step [simp]: "map_step (with_free m f) = map_step m"
  by (simp add: fun_eq_iff map_step_def Let_def cong: if_cong mmu_descriptor_type.case_cong)

lemma map_descend_free [simp]: "map_descend (with_free m f) va n l t st = map_descend m va n l t st"
  by (induction n arbitrary: l t st) (auto intro!: rbind_cong)

lemma unmap_descend_free [simp]: "unmap_descend (with_free m f) va n l t st = unmap_descend m va n l t st"
  by (induction n arbitrary: l t st) (simp_all add: Let_def cong: if_cong mmu_descriptor_type.case_cong)

lemma page_level_type: "dc_get_type dc g (max_level g) = Inr ty \<Longrightarrow> (ty = MMU_DESCRIPTOR_TABLE) = False"
  by (auto simp: dc_get_type_eq split: if_splits)

lemma map_one_free: "map_one (with_free m f) va pa cfg (max_level (gran m)) st = map_one m va pa cfg (max_level (gran m)) st"
proof -
  have "free_old (with_free m f) old (max_level (gran m)) st = free_old m old (max_level (gran m)) st" for old st
    unfolding free_old_def by (intro rbind_cong) (simp_all add: page_level_type)
  thus ?thesis by (simp add: map_one_def Let_def cong: if_cong)
qed

lemma unmap_one_free:
  "unmap_one (with_free m f) va sz (max_level (gran m)) c st = unmap_one m va sz (max_level (gran m)) c st"
proof -
  have "(if ty = MMU_DESCRIPTOR_TABLE \<and> v then a else b) = b" if "dc_get_type dc (gran m) (max_level (gran m)) = Inr ty"
    for ty v dc and a b :: "'a mmu_state res"
    using page_level_type [OF that] by simp
  hence "rbind (dc_get_type dc (gran m) (max_level (gran m))) (\<lambda>ty. rbind (if ty = MMU_DESCRIPTOR_TABLE \<and> v then a else b) k) =
      rbind (dc_get_type dc (gran m) (max_level (gran m))) (\<lambda>_. rbind b k)"
    for v dc and a b :: "'a mmu_state res" and k :: "'a mmu_state \<Rightarrow> ('a mmu_state \<times> u64) res"
    by (intro rbind_cong) simp_all
  thus ?thesis by (simp add: unmap_one_def Let_def cong: if_cong)
qed

lemma page_target:
  assumes "get_target_lvl sz g va pa = Inr (t, c)" "sz \<noteq> 0" "sz mod gran_bytes g = 0" "va mod gran_bytes g = 0"
    "pa mod gran_bytes g = 0" "unat sz < 2 ^ level_shift g (max_level g - 1)"
  shows "t = max_level g \<and> c = 2 ^ level_shift g t \<and> c \<le> sz"
proof -
  obtain t' where t': "get_target_lvl sz g va pa = Inr (t', 2 ^ level_shift g t')" "1 \<le> t'" "t' \<le> max_level g"
      "2 ^ level_shift g t' \<le> sz"
    by (rule get_target_lvl_ok [OF assms(2-5)])
  have "unat (2 ^ level_shift g t' :: u64) = 2 ^ level_shift g t'" by (rule unat_exp) (simp add: level_shift_less)
  hence "2 ^ level_shift g t' \<le> unat sz" using t'(4) unfolding word_le_nat_alt by simp
  hence "(2 :: nat) ^ level_shift g t' < 2 ^ level_shift g (max_level g - 1)" by (rule le_less_trans [OF _ assms(6)])
  hence "level_shift g t' < level_shift g (max_level g - 1)" by (rule power_less_imp_less_exp [rotated]) simp
  hence "\<not> t' \<le> max_level g - 1" unfolding level_shift_eq by (auto simp: not_less intro: mult_le_mono2)
  thus ?thesis using assms(1) t' by auto
qed

lemma map_loop_free:
  assumes "unat sz < 2 ^ level_shift (gran m) (max_level (gran m) - 1)"
  shows "map_loop (with_free m f) cfg va pa sz st = map_loop m cfg va pa sz st"
  using assms
proof (induction "unat sz" arbitrary: va pa sz st rule: less_induct)
  case less
  let ?g = "gran m"
  let ?b = "\<lambda>m' x. rbind (map_one m' va pa cfg (fst x) st) (\<lambda>st. map_loop m' cfg (va + snd x) (pa + snd x) (sz - snd x) st)"
  show ?case
  proof (cases "sz \<noteq> 0 \<and> sz mod gran_bytes ?g = 0 \<and> va mod gran_bytes ?g = 0 \<and> pa mod gran_bytes ?g = 0")
    case True
    have "?b (with_free m f) x = ?b m x" if x: "get_target_lvl sz ?g va pa = Inr x" for x
    proof -
      have t: "fst x = max_level ?g" "snd x = 2 ^ level_shift ?g (fst x)" "snd x \<le> sz"
        using page_target [of sz ?g va pa "fst x" "snd x"] x True less.prems by auto
      have "unat (sz - snd x) < unat sz" using sub_cover_less [of "level_shift ?g (fst x)" sz] t level_shift_less by simp
      thus ?thesis using less.hyps [of "sz - snd x"] less.prems t(1) by (simp add: map_one_free)
    qed
    thus ?thesis using True
      by (subst (1 2) map_loop.simps) (auto simp: Let_def case_prod_unfold intro!: rbind_cong [OF refl])
  next
    case False
    thus ?thesis by (subst (1 2) map_loop.simps) (auto simp: Let_def)
  qed
qed

lemma unmap_loop_free:
  assumes "unat sz < 2 ^ level_shift (gran m) (max_level (gran m) - 1)"
  shows "unmap_loop (with_free m f) va sz st = unmap_loop m va sz st"
  using assms
proof (induction "unat sz" arbitrary: va sz st rule: less_induct)
  case less
  let ?g = "gran m"
  let ?b = "\<lambda>m' x. rbind (unmap_one m' va sz (fst x) (snd x) st) (\<lambda>(st, c). unmap_loop m' (va + c) (sz - c) st)"
  show ?case
  proof (cases "sz \<noteq> 0 \<and> sz mod gran_bytes ?g = 0 \<and> va mod gran_bytes ?g = 0")
    case True
    have "?b (with_free m f) x = ?b m x" if x: "get_target_lvl sz ?g va 0 = Inr x" for x
    proof -
      have t: "fst x = max_level ?g" "snd x = 2 ^ level_shift ?g (fst x)" "snd x \<le> sz"
        using page_target [of sz ?g va 0 "fst x" "snd x"] x True less.prems by auto
      have n0: "snd x \<noteq> 0" unfolding t(2) by (simp add: word_unat_eq_iff unat_exp level_shift_less)
      have "unmap_loop (with_free m f) (va + c) (sz - c) s = unmap_loop m (va + c) (sz - c) s"
        if "unmap_one m va sz (fst x) (snd x) st = Inr (s, c)" for s c
      proof -
        have "c \<noteq> 0 \<and> c \<le> sz" using unmap_one_progress [OF that] True n0 t(3) by blast
        hence "unat (sz - c) = unat sz - unat c" "0 < unat c" "unat c \<le> unat sz"
          by (auto simp: unat_sub word_le_nat_alt unat_gt_0)
        hence "unat (sz - c) < unat sz" by linarith
        thus ?thesis using less.hyps [of "sz - c"] less.prems by simp
      qed
      thus ?thesis unfolding t(1) by (auto simp: unmap_one_free intro!: rbind_cong)
    qed
    thus ?thesis using True
      by (subst (1 2) unmap_loop.simps) (auto simp: Let_def case_prod_unfold intro!: rbind_cong [OF refl])
  next
    case False
    hence c: "sz mod gran_bytes ?g \<noteq> 0 \<or> va mod gran_bytes ?g \<noteq> 0" if "sz \<noteq> 0" using that by argo
    have "unmap_loop m' va sz st = Inr (st, if sz = 0 then MMU_UNMAP_OK else MMU_UNMAP_ERR)" if "gran m' = ?g" for m'
    proof (cases "sz = 0")
      case False
      show ?thesis by (subst unmap_loop.simps) (simp only: Let_def that if_P [OF c [OF False]] if_not_P [OF False])
    qed (subst unmap_loop.simps, simp)
    thus ?thesis by simp
  qed
qed

lemma map_free:
  "unat sz < 2 ^ level_shift (gran m) (max_level (gran m) - 1) \<Longrightarrow>
   mmu_map (Some (with_free m f)) va pa sz cfg st = mmu_map (Some m) va pa sz cfg st"
  by (simp add: mmu_map_def is_in_range_def map_loop_free)

lemma unmap_free:
  "unat sz < 2 ^ level_shift (gran m) (max_level (gran m) - 1) \<Longrightarrow>
   mmu_unmap (Some (with_free m f)) va sz st = mmu_unmap (Some m) va sz st"
  by (simp add: mmu_unmap_def unmap_loop_free)


end
