(* ===== verification/Kmalloc.thy ===== *)
theory Kmalloc
  imports Raw_Safe Mmu_Alloc
begin

text \<open>
  The kernel's heap (\<open>kernel/mm/malloc/kmalloc/kmalloc.c\<close>): small requests go to the caches, large ones to
  \<open>raw_kmalloc\<close>.  Everything below it is put together here: the caches take their pages from
  \<open>raw_kmalloc\<close>, which maps them with the operations of \<open>arm/mmu/mmu.c\<close>, whose tables come from the
  reserve (\<open>mm_mmu_default_allocator\<close> of \<open>kernel/mm/mm_mmu/mm_mmu.c\<close>).
\<close>

section \<open>The kernel's mapping\<close>

definition mm_mmu_default_allocator :: "u64 \<Rightarrow> 'm kmem \<Rightarrow> ('m kmem \<times> u64) res" where
  "mm_mmu_default_allocator bytes km =
     rbind (reserve_malloc (str_addr km ''mmu table'') km) (\<lambda>(km, pv). Inr (km, pv_va pv))"

text \<open>The mapping after \<open>early_reloc_cfg_end\<close>.  A table is only released when a block of 2 MiB or more takes
  its place or when such a block is unmapped; that release calls \<open>raw_kfree\<close> from the middle of an operation on
  the tables, where it would work on tables that the operation holds, and is an error in this model.  The operations
  on smaller ranges do not depend on it (\<open>kernel_small\<close>).\<close>

definition kernel_mapping :: "u64 \<Rightarrow> ktables kmem mmu_mapping" where
  "kernel_mapping root = \<lparr>rng = MMU_HI, gran = MMU_GRANULARITY_4KB, va_addr_bits = 48, physmap_offset = KERNEL_BASE,
     tbl_ptr = root, allocator_fn = mm_mmu_default_allocator,
     allocator_free_fn = (\<lambda>_ _. Inl (Panic ''release of a table from a mapping operation''))\<rparr>"

definition on_tables ::
  "(ktables kmem mmu_state \<Rightarrow> (ktables kmem mmu_state \<times> 'r) res) \<Rightarrow> ktables kmem \<Rightarrow> (ktables kmem \<times> 'r) res" where
  "on_tables f km =
     rbind (f \<lparr>tbls = mmu_st km, alst = km, op_info = None\<rparr>) (\<lambda>(st, r). Inr ((alst st)\<lparr>mmu_st := tbls st\<rparr>, r))"

definition kernel_ops :: "u64 \<Rightarrow> ktables mmu_ops" where
  "kernel_ops root = \<lparr>
     mo_map = (\<lambda>va pa sz cfg. on_tables (mmu_map (Some (kernel_mapping root)) va pa sz cfg)),
     mo_unmap = (\<lambda>va sz. on_tables (mmu_unmap (Some (kernel_mapping root)) va sz))\<rparr>"

lemma kernel_small:
  assumes "unat sz < 2 ^ 21"
  shows "mmu_map (Some (with_free (kernel_mapping root) f)) va pa sz cfg st = mmu_map (Some (kernel_mapping root)) va pa sz cfg st"
    and "mmu_unmap (Some (with_free (kernel_mapping root) f)) va sz st = mmu_unmap (Some (kernel_mapping root)) va sz st"
proof -
  have "level_shift MMU_GRANULARITY_4KB (max_level MMU_GRANULARITY_4KB - 1) = 21"
    by (simp add: level_shift_eq page_bits_eq mmu_granularity_shift_def max_level_def)
  hence g: "unat sz < 2 ^ level_shift (gran (kernel_mapping root)) (max_level (gran (kernel_mapping root)) - 1)"
    using assms by (simp add: kernel_mapping_def)
  show "mmu_map (Some (with_free (kernel_mapping root) f)) va pa sz cfg st = mmu_map (Some (kernel_mapping root)) va pa sz cfg st"
    by (rule map_free [OF g])
  show "mmu_unmap (Some (with_free (kernel_mapping root) f)) va sz st = mmu_unmap (Some (kernel_mapping root)) va sz st"
    by (rule unmap_free [OF g])
qed

text \<open>While the tables are worked on, the set of them is the one of the working copy.\<close>

definition tables_inv :: "(u64 \<times> nat) set \<Rightarrow> u64 set \<Rightarrow> ktables kmem \<Rightarrow> bool" where
  "tables_inv R D km \<longleftrightarrow> rk_core (page_st km) (addr_space km) (rva_list km KMAP_LIST) (ints km) D R"

lemma ints_mmu [simp]: "ints (km\<lparr>mmu_st := t\<rparr>) = ints km"
  by (simp add: ints_def res_vas_def)

lemma default_allocator_inv:
  assumes "tables_inv R D km" "mm_mmu_default_allocator bytes km = Inr (km', t)"
  shows "tables_inv R (insert t D) km'"
proof -
  obtain pv where pv: "reserve_malloc (str_addr km ''mmu table'') km = Inr (km', pv)" "t = pv_va pv"
    using assms(2) by (auto simp: mm_mmu_default_allocator_def rbind_eq_Inr)
  note r = reserve_malloc_core [OF assms(1) [unfolded tables_inv_def] pv(1)]
  show ?thesis unfolding tables_inv_def pv(2) by (rule core_absorb(2) [OF r(1,2)])
qed

interpretation kt: table_pages "kernel_mapping root" "tables_inv R" for root R
  by unfold_locales (auto simp: kernel_mapping_def intro: default_allocator_inv)

lemma on_tables_inv:
  assumes "rk_inv km R" "on_tables f km = Inr (km', r)"
    and "\<And>st st' r. tbls_held (tables_inv R) st \<Longrightarrow> f st = Inr (st', r) \<Longrightarrow> tbls_held (tables_inv R) st'"
  shows "rk_inv km' R"
proof -
  obtain st where st: "f \<lparr>tbls = mmu_st km, alst = km, op_info = None\<rparr> = Inr (st, r)" "km' = (alst st)\<lparr>mmu_st := tbls st\<rparr>"
    using assms(2) by (auto simp: on_tables_def rbind_eq_Inr)
  have "tbls_held (tables_inv R) \<lparr>tbls = mmu_st km, alst = km, op_info = None\<rparr>"
    using assms(1) by (simp add: tbls_held_def tables_inv_def rk_inv_def)
  from assms(3) [OF this st(1)] show ?thesis using st(2) by (simp add: tbls_held_def tables_inv_def rk_inv_def)
qed

interpretation km: mmu_service "kernel_ops root" for root
proof
  fix km R va pa sz cfg km' r
  assume i: "rk_inv km R" and m: "mo_map (kernel_ops root) va pa sz cfg km = Inr (km', r)"
  have "on_tables (mmu_map (Some (kernel_mapping root)) va pa sz cfg) km = Inr (km', r)" using m by (simp add: kernel_ops_def)
  thus "rk_inv km' R" by (rule on_tables_inv [OF i]) (rule kt.held_map)
next
  fix km R va sz km' u
  assume i: "rk_inv km R" and m: "mo_unmap (kernel_ops root) va sz km = Inr (km', u)"
  have "on_tables (mmu_unmap (Some (kernel_mapping root)) va sz) km = Inr (km', u)" using m by (simp add: kernel_ops_def)
  thus "rk_inv km' R" by (rule on_tables_inv [OF i]) (rule kt.held_unmap)
qed

interpretation kp: raw_pages rk_inv "cache_raw (kernel_ops root) tag" "raw_kfree (kernel_ops root)" for root tag
  by (rule km.raw_pages_kernel)

section \<open>The heap\<close>

definition CACHE_ALLOCATION_TAGS :: "string list" where
  "CACHE_ALLOCATION_TAGS = [''cache malloc 8'', ''cache malloc 16'', ''cache malloc 32'', ''cache malloc 64'',
     ''cache malloc 128'', ''cache malloc 256'', ''cache malloc 512'', ''cache malloc 1024'', ''cache malloc 2048'']"

text \<open>The tag that \<open>new_cache\<close> gives to the pages of a size.\<close>

definition cache_tag :: "'m kmem \<Rightarrow> u64 \<Rightarrow> u64" where
  "cache_tag km sz = (case cache_idx_from_size sz of
      Inr i \<Rightarrow> if i < CACHE_CLASSES then str_addr km (CACHE_ALLOCATION_TAGS ! i) else 0 | Inl _ \<Rightarrow> 0)"

definition cache_class_size :: "u64 \<Rightarrow> u64" where
  "cache_class_size bytes = max 8 (next_pow2_u64 bytes)"

definition kmalloc :: "'m mmu_ops \<Rightarrow> u64 \<Rightarrow> 'm kmem cm_state \<Rightarrow> ('m kmem cm_state \<times> u64) res" where
  "kmalloc ops bytes st =
     (if bytes > 2048 then
        rbind (raw_kmalloc ops (div_ceil bytes PAGE_SIZE) (str_addr (cm_raw st) ''kmalloc page'') RAW_KMALLOC_DYNAMIC_CFG (cm_raw st))
          (\<lambda>(km, va). Inr (st\<lparr>cm_raw := km\<rparr>, va))
      else let sz = cache_class_size bytes in
        cache_malloc (cache_raw ops (cache_tag (cm_raw st) sz)) sz st)"

text \<open>\<open>mm_va_is_in_kmap_range\<close>, on the part of the memory map that the heap keeps.\<close>

definition kmem_in_kmap_range :: "u64 \<Rightarrow> 'm kmem \<Rightarrow> bool" where
  "kmem_in_kmap_range ptr km =
     (if \<not> is_kva ptr then False else if ptr < kpa_to_kva (addr_space km) then True else False)"

definition kfree :: "'m mmu_ops \<Rightarrow> u64 \<Rightarrow> 'm kmem cm_state \<Rightarrow> 'm kmem cm_state res" where
  "kfree ops ptr st =
     (if kmem_in_kmap_range ptr (cm_raw st) then cache_free (raw_kfree ops) ptr st
      else rbind (raw_kfree ops ptr (cm_raw st)) (\<lambda>km. Inr (st\<lparr>cm_raw := km\<rparr>)))"

text \<open>\<open>memzero\<close> on the words that the clients own; the last word may be covered in part.\<close>

definition memzero :: "u64 \<Rightarrow> u64 \<Rightarrow> (u64 \<Rightarrow> u64) \<Rightarrow> u64 \<Rightarrow> u64" where
  "memzero ptr bytes m a =
     (if unat a < unat ptr \<or> unat ptr + unat bytes \<le> unat a then m a
      else if unat a + 8 \<le> unat ptr + unat bytes then 0
      else m a AND NOT (mask (8 * (unat ptr + unat bytes - unat a))))"

definition kzalloc :: "'m mmu_ops \<Rightarrow> u64 \<Rightarrow> 'm kmem cm_state \<Rightarrow> ('m kmem cm_state \<times> u64) res" where
  "kzalloc ops bytes st =
     rbind (kmalloc ops bytes st) (\<lambda>(st, ptr). Inr (st\<lparr>cm_client := memzero ptr bytes (cm_client st)\<rparr>, ptr))"

section \<open>A small kernel\<close>

text \<open>Eight pages, the first four of which hold the tables that lead to the last table of the first 2 MiB.\<close>

definition kva_page :: "nat \<Rightarrow> u64" where
  "kva_page i = kpa_to_kva (of_nat i * PAGE_SIZE)"

definition tiny_tables :: ktables where
  "tiny_tables = [kva_page 0 \<mapsto> (\<lambda>_. 0)(256 := td_build KERNEL_BASE (kva_page 1)),
     kva_page 1 \<mapsto> (\<lambda>_. 0)(0 := td_build KERNEL_BASE (kva_page 2)),
     kva_page 2 \<mapsto> (\<lambda>_. 0)(0 := td_build KERNEL_BASE (kva_page 3)),
     kva_page 3 \<mapsto> (\<lambda>_. 0)]"

definition tiny_pages :: page_state where
  "tiny_pages = (empty_state 8 3)\<lparr>ps_nodes := (\<lambda>_. empty_node)(4 := empty_node\<lparr>pn_data := 0x102\<rparr>),
     ps_free_lists := (\<lambda>_. NULL_IDX)(2 := 4)\<rparr>"

definition tiny_kmem :: "ktables kmem" where
  "tiny_kmem = \<lparr>
     fva_list = (\<lambda>l. if l = KMAP_LIST then [(0x5028, \<lparr>fva_start = 2 ^ 47, fva_size = 0x8000\<rparr>)] else []),
     rva_list = (\<lambda>_. []), fva_conts = [(0x5000, replicate 22 0)], rva_conts = [(0x6000, replicate 9 0)],
     mdt_conts = [], page_st = tiny_pages, reserved_addr = [], reserved_pages = NOT 0, addr_space = 0x8000,
     str_addr = (\<lambda>_. 0), mmu_st = tiny_tables\<rparr>"

definition tiny_heap :: "ktables kmem cm_state" where
  "tiny_heap = cache_malloc_init \<lparr>cm_classes = (\<lambda>_. cm_class_init), cm_cells = (\<lambda>_. None), cm_client = (\<lambda>_. 0), cm_raw = tiny_kmem\<rparr>"

section \<open>Small objects\<close>

lemma class_dvd:
  assumes "i < CACHE_CLASSES"
  shows "cache_size i dvd cache_bytes i"
proof -
  have "cache_size i = 2 ^ (i + 3)" by (simp add: cache_size_def power_add)
  moreover have "i + 3 \<le> 14" using assms by (simp add: CACHE_CLASSES_def)
  ultimately show ?thesis
    using le_imp_power_dvd [of "i + 3" 14 "2 :: nat"] le_imp_power_dvd [of "i + 3" 15 "2 :: nat"]
    unfolding cache_bytes_pow by (simp only: split: if_split) simp
qed

text \<open>Every object lies in the pages of a cache, at a multiple of its size.\<close>

lemma obj_cache:
  assumes "cm_inv rrepr st X" "b \<in> cm_objs X"
  shows "\<exists>p i. (p, CACHE_PAGES i) \<in> cm_caches X \<and> i < CACHE_CLASSES \<and> snd b = cache_size i \<and>
     unat (fst b) \<in> pg_span (p, CACHE_PAGES i) \<and> cache_size i dvd unat (fst b)"
proof -
  obtain i p c e where x: "i < CACHE_CLASSES" "(p, c) \<in> set (X i)" "e \<in> taken i c" "b = slot_obj i p e"
    using assms(2) unfolding cm_objs_slots by blast
  have pl: "placed X" using assms(1) by (simp add: cm_inv_def cm_shape_def)
  have e: "e < CACHE_ENTRIES i" using x(3) by (simp add: taken_def)
  note sp = slot_span [OF pl x(1) addrsI [OF x(2)] e]
  have "(p, CACHE_PAGES i) \<in> cm_caches X" using x(1) addrsI [OF x(2)] by (auto simp: caches_iff)
  moreover have "unat (fst b) \<in> obj_span b" using class_size_pos [of i] x(4) by (simp add: obj_span_def slot_obj_def)
  moreover have "unat (fst b) = unat p + e * cache_size i"
    using unat_add_off [of p "e * cache_size i"] entry_end(2) [OF x(1) e] placed_base [OF pl x(1) addrsI [OF x(2)]] class_size_pos [of i]
    unfolding x(4) slot_obj_def fst_conv by linarith
  moreover have "cache_size i dvd unat p"
    using placed_base [OF pl x(1) addrsI [OF x(2)]] dvd_trans [OF class_dvd [OF x(1)]] by blast
  ultimately show ?thesis using x(1,4) sp(2) by (intro exI [of _ p] exI [of _ i]) (auto simp: slot_obj_def)
qed

lemma obj_in_kmap:
  assumes "cm_repr rk_inv st A" "b \<in> A"
  shows "kmem_in_kmap_range (fst b) (cm_raw st)"
proof -
  let ?km = "cm_raw st"
  obtain X where X: "cm_inv rk_inv st X" "cm_objs X = A" using assms(1) by (auto simp: cm_repr_def)
  obtain p i where p: "(p, CACHE_PAGES i) \<in> cm_caches X" "unat (fst b) \<in> pg_span (p, CACHE_PAGES i)"
    using obj_cache [OF X(1), of b] X(2) assms(2) by blast
  have r: "rk_inv ?km (cm_caches X)" using X(1) by (simp add: cm_inv_def)
  obtain B where B: "page_repr (page_st ?km) B" "cm_caches X \<subseteq> kblk ` B" "ps_N (page_st ?km) * 4096 \<le> unat (addr_space ?km)"
      "unat (addr_space ?km) < 2 ^ 47"
    using r unfolding rk_inv_def by (elim coreE) (rule that)
  obtain c where c: "c \<in> B" "(p, CACHE_PAGES i) = kblk c" using B(2) p(1) by blast
  have pc: "p = fst (kblk c)" "CACHE_PAGES i = 2 ^ snd c" using c(2) by (auto simp: kblk_def)
  have "unat p = unat (fst c) * 4096 + (2 ^ 64 - 2 ^ 47)" using block_kva(1) [OF B(1) c(1) B(3,4)] pc(1) by simp
  moreover have "unat (fst c) * 4096 + CACHE_PAGES i * 4096 \<le> unat (addr_space ?km)" using block_pa(2) [OF B(1) c(1) B(3,4)] pc(2) by simp
  ultimately have "2 ^ 64 - 2 ^ 47 \<le> unat (fst b)" "unat (fst b) < unat (addr_space ?km) + (2 ^ 64 - 2 ^ 47)"
    using p(2) unfolding pg_span_def by auto
  moreover have "unat KERNEL_BASE = 2 ^ 64 - 2 ^ 47" by (simp add: KERNEL_BASE_def KERNEL_ADDR_BITS_def)
  ultimately show ?thesis using kva_off(3) [OF B(4)]
    by (simp add: kmem_in_kmap_range_def is_kva_def word_le_nat_alt word_less_nat_alt)
qed

section \<open>The heap as an allocator\<close>

definition kmalloc_obj :: "'m mmu_ops \<Rightarrow> u64 \<Rightarrow> 'm kmem cm_state \<Rightarrow> ('m kmem cm_state \<times> (u64 \<times> nat)) res" where
  "kmalloc_obj ops bytes st = rassert (bytes \<le> 2048) (Panic ''not a small object'')
     (rbind (kmalloc ops bytes st) (\<lambda>(st, p). Inr (st, (p, unat (cache_class_size bytes)))))"

definition kfree_obj :: "'m mmu_ops \<Rightarrow> u64 \<times> nat \<Rightarrow> 'm kmem cm_state \<Rightarrow> 'm kmem cm_state res" where
  "kfree_obj ops b st = kfree ops (fst b) st"

lemma kmalloc_obj_cache:
  assumes "kmalloc_obj ops bytes st = Inr (st', b)"
  shows "\<exists>tag. cm_alloc (cache_raw ops tag) (cache_class_size bytes) st = Inr (st', b)"
  using assms by (auto simp: kmalloc_obj_def kmalloc_def cm_alloc_def rassert_eq_Inr rbind_eq_Inr Let_def not_less split: if_splits)

interpretation kh: allocator "cm_repr rk_inv" obj_span "kmalloc_obj (kernel_ops root)" "kfree_obj (kernel_ops root)" for root
proof
  fix st A bytes st' b
  assume r: "cm_repr rk_inv st A" and a: "kmalloc_obj (kernel_ops root) bytes st = Inr (st', b)"
  obtain tag where t: "cm_alloc (cache_raw (kernel_ops root) tag) (cache_class_size bytes) st = Inr (st', b)"
    using kmalloc_obj_cache [OF a] by blast
  show "cm_repr rk_inv st' (insert b A)" by (rule kp.cm.alloc_repr [OF r t])
  show "obj_span b \<noteq> {}" by (rule kp.cm.alloc_nonempty [OF r t])
  show "c \<in> A \<Longrightarrow> obj_span b \<inter> obj_span c = {}" for c by (rule kp.cm.alloc_fresh [OF r t])
next
  fix st A b st'
  assume r: "cm_repr rk_inv st A" and b: "b \<in> A" and f: "kfree_obj (kernel_ops root) b st = Inr st'"
  have "cm_release (raw_kfree (kernel_ops root)) b st = Inr st'"
    using f obj_in_kmap [OF r b] by (simp add: kfree_obj_def kfree_def cm_release_def)
  thus "cm_repr rk_inv st' (A - {b})" by (rule kp.cm.release_repr [OF r b])
qed

lemma class_size_ge:
  assumes "bytes \<le> 2048"
  shows "unat bytes \<le> unat (cache_class_size bytes)"
proof (cases "bytes = 0")
  case False
  have "(2048 :: u64) \<le> 2 ^ 63" by simp
  hence "bytes \<le> 2 ^ 63" using assms by (rule order_trans [rotated])
  hence "bytes \<le> next_pow2_u64 bytes" using next_pow2_u64_spec [of bytes] False by (simp add: word_neq_0_conv)
  thus ?thesis by (simp add: cache_class_size_def word_le_nat_alt max_def)
qed simp

text \<open>A request for at most 2048 bytes that returns gives an object that is at least as large,
  whose address is a multiple of its size, and that is apart from every object that is in use.\<close>
theorem kmalloc_small_spec:
  assumes "cm_repr rk_inv st A" and "bytes \<le> 2048" and "kmalloc (kernel_ops root) bytes st = Inr (st', p)"
  shows "\<exists>n. unat bytes \<le> n \<and> n dvd unat p \<and> cm_repr rk_inv st' (insert (p, n) A) \<and>
     (\<forall>b \<in> A. obj_span (p, n) \<inter> obj_span b = {})"
proof -
  let ?n = "unat (cache_class_size bytes)"
  have k: "kmalloc_obj (kernel_ops root) bytes st = Inr (st', (p, ?n))" using assms(2,3) by (simp add: kmalloc_obj_def)
  have r: "cm_repr rk_inv st' (insert (p, ?n) A)" by (rule kh.alloc_repr [OF assms(1) k])
  then obtain X where X: "cm_inv rk_inv st' X" "cm_objs X = insert (p, ?n) A" by (auto simp: cm_repr_def)
  have "?n dvd unat p" using obj_cache [OF X(1), of "(p, ?n)"] X(2) by auto
  moreover have "\<forall>b \<in> A. obj_span (p, ?n) \<inter> obj_span b = {}" using kh.alloc_fresh [OF assms(1) k] by blast
  ultimately show ?thesis using r class_size_ge [OF assms(2)] by blast
qed


section \<open>The small kernel in use\<close>

lemma tiny_repr: "page_repr tiny_pages {(0, 0), (1, 0), (2, 0), (3, 0)}"
proof -
  let ?F = "(\<lambda>_. [])(2 := [4 :: u32])"
  have "linv tiny_pages ?F"
    by (rule linvI) (auto simp: tiny_pages_def empty_state_def NULL_IDX_less [of 4 8] split: if_splits)
  moreover have "free_blocks ?F = {(4, 2)}" by (auto simp: free_blocks_def split: if_splits)
  moreover have "tiling 8 {(0, 0), (1, 0), (2, 0), (3, 0), (4, 2)}"
    by (auto simp: tiling_def disjoint_blocks_def wf_block_def blk_def)
  ultimately have "pinv tiny_pages ?F {(0, 0), (1, 0), (2, 0), (3, 0)}"
    by (simp add: pinv_def orders_ok_def tiny_pages_def empty_state_def)
  moreover have "no_buddies (ps_MAX_ORDER tiny_pages) ?F" by (simp add: no_buddies_def buddy_of_def)
  ultimately show ?thesis by (auto simp: page_repr_def)
qed

lemma tiny_inv: "rk_inv tiny_kmem {}"
proof -
  have k: "kblk (0, 0) = (kva_page 0, 1)" "kblk (1, 0) = (kva_page 1, 1)" "kblk (2, 0) = (kva_page 2, 1)" "kblk (3, 0) = (kva_page 3, 1)"
    by (simp_all add: kblk_def kva_page_def)
  have d: "dom tiny_tables = {kva_page 0, kva_page 1, kva_page 2, kva_page 3}" by (auto simp: tiny_tables_def)
  have t: "(v, 1) \<in> kblk ` {(0, 0), (1, 0), (2, 0), (3, 0)}" if "v \<in> dom tiny_tables" for v
    using that unfolding d image_insert k by auto
  have i: "ints tiny_kmem = {#}" by (simp add: ints_def res_vas_def tiny_kmem_def)
  have "rk_core tiny_pages 0x8000 [] {#} (dom tiny_tables) {}"
    by (rule coreI [OF tiny_repr]) (use t in \<open>auto simp: tiny_pages_def empty_state_def\<close>)
  thus ?thesis using i by (simp add: rk_inv_def tiny_kmem_def)
qed

lemma tiny_raw: "is_ok (cache_raw (kernel_ops (kva_page 0)) (cache_tag tiny_kmem 8) 4 tiny_kmem)"
  by code_simp

lemma tiny_heap_repr: "cm_inv rk_inv tiny_heap (\<lambda>_. [])" "cm_repr rk_inv tiny_heap {}"
proof -
  have "cm_raw tiny_heap = tiny_kmem" by (simp add: tiny_heap_def cache_malloc_init_def)
  moreover have "cm_shape tiny_heap (\<lambda>_. [])" unfolding tiny_heap_def by (rule cache_init_shape) simp
  ultimately show i: "cm_inv rk_inv tiny_heap (\<lambda>_. [])" unfolding cm_inv_def cm_objs_init using tiny_inv by simp
  thus "cm_repr rk_inv tiny_heap {}" unfolding cm_repr_def using cm_objs_init(1) by blast
qed

lemma tiny_kmalloc: "\<exists>st' p. kmalloc (kernel_ops (kva_page 0)) 8 tiny_heap = Inr (st', p)"
proof -
  let ?raw = "cache_raw (kernel_ops (kva_page 0)) (cache_tag tiny_kmem 8)"
  have c: "CACHE_PAGES 0 = 4" "of_nat (cache_size 0) = (8 :: u64)" by (simp_all add: CACHE_PAGES_def cache_size_def)
  have h: "cm_raw tiny_heap = tiny_kmem" "ff_cache (cm_classes tiny_heap 0) = 0"
    by (simp_all add: tiny_heap_def cache_malloc_init_def cm_class_init_def CACHE_CLASSES_def)
  obtain r p where "?raw (CACHE_PAGES 0) (cm_raw tiny_heap) = Inr (r, p)"
    using tiny_raw unfolding c h by (auto simp: is_ok_iff)
  from kp.malloc_new [OF tiny_heap_repr(1) _ h(2) this] obtain st' x where "cache_malloc ?raw 8 tiny_heap = Inr (st', fst x)"
    unfolding c by (auto simp: CACHE_CLASSES_def)
  moreover have "cache_class_size 8 = 8" by code_simp
  ultimately show ?thesis by (auto simp: kmalloc_def h(1))
qed

theorem kmalloc_small_spec_witness:
  "\<exists>st' p n. kmalloc (kernel_ops (kva_page 0)) 8 tiny_heap = Inr (st', p) \<and> 8 \<le> n \<and> n dvd unat p \<and> cm_repr rk_inv st' {(p, n)}"
proof -
  obtain st' p where k: "kmalloc (kernel_ops (kva_page 0)) 8 tiny_heap = Inr (st', p)" using tiny_kmalloc by blast
  from kmalloc_small_spec [OF tiny_heap_repr(2) _ k] k show ?thesis by auto
qed


end
