(* ===== verification/Raw_Depth.thy ===== *)
theory Raw_Depth
  imports Kmalloc
begin

text \<open>
  \<open>raw_kfree\<close> calls itself through the containers of nodes: releasing an area may empty a container, which
  is then released itself.  Each of these calls happens after a container has left its list, so the number of
  containers bounds their depth, and the bound of the model is never what ends the recursion.
\<close>

definition conts_n :: "ktables kmem \<Rightarrow> nat" where
  "conts_n km = length (fva_conts km) + length (rva_conts km) + length (mdt_conts km)"

text \<open>A release may leave one more container than it found, for the area it gives back.\<close>

definition tame :: "ktables rawfree \<Rightarrow> bool" where
  "tame f \<longleftrightarrow> (\<forall>v km km'. f v km = Inr km' \<longrightarrow> conts_n km' \<le> Suc (conts_n km))"

definition agree :: "nat \<Rightarrow> ktables rawfree \<Rightarrow> ktables rawfree \<Rightarrow> bool" where
  "agree d f g \<longleftrightarrow> (\<forall>v km. conts_n km < d \<longrightarrow> f v km = g v km)"

lemma reserve_malloc_frame:
  assumes "reserve_malloc t km = Inr (km', pv)"
  shows "\<exists>ys s b. km' = km\<lparr>rva_list := ys, page_st := s, reserved_pages := b\<rparr>"
proof -
  obtain i k1 x1 k2 x2 where k1: "vmalloc_update_tag (pv_va pv) t km = Inr (k1, x1)"
    and k2: "with_pages (page_allocator_update_tag (pv_pa pv) t) k1 = Inr (k2, x2)"
    and k3: "km' = k2\<lparr>reserved_pages := bitfield_clear (reserved_pages k2) i\<rparr>"
    using assms by (auto simp: reserve_malloc_def rbind_eq_Inr Let_def split: option.splits if_splits)
  obtain ys where "k1 = km\<lparr>rva_list := ys\<rparr>" using upd_tag_kmapped [OF k1] by blast
  moreover obtain s where "k2 = k1\<lparr>page_st := s\<rparr>" using k2 by (auto simp: with_pages_def rbind_eq_Inr)
  ultimately show ?thesis using k3 by blast
qed

section \<open>Containers\<close>

locale counted_list = container_list conts put
  for conts :: "ktables kmem \<Rightarrow> (u64 \<times> 'a::len word list) list"
    and put :: "(u64 \<times> 'a word list) list \<Rightarrow> ktables kmem \<Rightarrow> ktables kmem" +
  assumes put_count: "conts_n (put cs km) + length (conts km) = conts_n km + length cs"
begin

lemma delete_less: "c \<in> fst ` set xs \<Longrightarrow> length (AList.delete c xs) < length xs"
  by (induction xs) (auto simp: le_imp_less_Suc length_delete_le)

lemma put_delete_count:
  assumes "map_of (conts km) c = Some bs"
  shows "conts_n (put (AList.update c bs' (conts km)) km) = conts_n km"
    and "conts_n (put (AList.delete c (AList.update c bs' (conts km))) (put (AList.update c bs' (conts km)) km)) < conts_n km"
proof -
  have c: "c \<in> fst ` set (conts km)" using assms by (metis map_of_eq_None_iff option.distinct(1))
  let ?u = "AList.update c bs' (conts km)"
  have "map fst ?u = map fst (conts km)" using c by (simp add: update_keys)
  hence l: "length ?u = length (conts km)" "c \<in> fst ` set ?u" using c by (metis length_map, metis set_map)
  show u: "conts_n (put ?u km) = conts_n km" using put_count [of ?u km] l by simp
  show "conts_n (put (AList.delete c ?u) (put ?u km)) < conts_n km"
    using put_count [of "AList.delete c ?u" "put ?u km"] u delete_less [OF l(2)] by (simp add: conts_put)
qed

lemma node_release_count:
  assumes "tame f" "node_release err cnt off sz conts put f node km = Inr km'"
  shows "conts_n km' \<le> conts_n km"
proof -
  define c where "c = (node AND NOT (PAGE_SIZE - 1))"
  define i where "i = unat (node - (c + of_nat off)) div sz"
  obtain bs where bs: "map_of (conts km) c = Some bs"
    using assms(2) by (auto simp: node_release_def Let_def rassert_eq_Inr c_def split: option.splits)
  define k1 where "k1 = put (AList.update c (clear_node_bit i bs) (conts km)) km"
  note n = put_delete_count [OF bs, of "clear_node_bit i bs", folded k1_def]
  consider "km' = k1" | "f c (put (AList.delete c (conts k1)) k1) = Inr km'"
    using assms(2) bs by (auto simp: node_release_def Let_def rassert_eq_Inr c_def [symmetric] i_def [symmetric] k1_def [symmetric] split: if_splits)
  thus ?thesis
  proof cases
    case 2
    hence "conts_n km' \<le> Suc (conts_n (put (AList.delete c (conts k1)) k1))" using assms(1) by (auto simp: tame_def)
    thus ?thesis using n(2) by (simp add: k1_def conts_put)
  qed (use n(1) in simp)
qed

lemma node_release_agree:
  assumes "agree d f g" "conts_n km \<le> d"
  shows "node_release err cnt off sz conts put f node km = node_release err cnt off sz conts put g node km"
proof -
  define c where "c = (node AND NOT (PAGE_SIZE - 1))"
  define i where "i = unat (node - (c + of_nat off)) div sz"
  show ?thesis
  proof (cases "map_of (conts km) c")
    case (Some bs)
    define k1 where "k1 = put (AList.update c (clear_node_bit i bs) (conts km)) km"
    note n = put_delete_count [OF Some, of "clear_node_bit i bs", folded k1_def]
    have "f c (put (AList.delete c (conts k1)) k1) = g c (put (AList.delete c (conts k1)) k1)"
      using assms n(2) unfolding agree_def k1_def conts_put by (meson less_le_trans)
    thus ?thesis using Some
      by (simp add: node_release_def Let_def c_def [symmetric] i_def [symmetric] k1_def [symmetric])
  qed (simp add: node_release_def Let_def c_def [symmetric])
qed

lemma node_new_count:
  assumes "node_new cnt off sz tag conts put km = Inr (km', a)"
  shows "conts_n km' \<le> Suc (conts_n km)"
proof (cases "conts_take cnt (conts km)")
  case (Some x)
  obtain cs c i where x: "x = (cs, c, i)" by (cases x) auto
  have "km' = put cs km" using assms Some x by (simp add: node_new_def)
  moreover have "length cs = length (conts km)" using conts_take_keys [of cnt "conts km" cs c i] Some x by (metis length_map)
  ultimately show ?thesis using put_count [of cs km] by simp
next
  case None
  then obtain k1 pv where k1: "reserve_malloc (str_addr km tag) km = Inr (k1, pv)"
      "km' = put (conts k1 @ [(pv_va pv, set_node_bit 0 (replicate (bf_count cnt LENGTH('a)) 0))]) k1"
    using assms by (auto simp: node_new_def rbind_eq_Inr Let_def split: if_splits)
  have "conts_n k1 = conts_n km" using reserve_malloc_frame [OF k1(1)] by (auto simp: conts_n_def)
  thus ?thesis using put_count [of "conts k1 @ [(pv_va pv, set_node_bit 0 (replicate (bf_count cnt LENGTH('a)) 0))]" k1] k1(2) by simp
qed

end

interpretation fvan: counted_list fva_conts "\<lambda>cs km. km\<lparr>fva_conts := cs\<rparr>"
  by unfold_locales (simp add: conts_n_def)

interpretation rvan: counted_list rva_conts "\<lambda>cs km. km\<lparr>rva_conts := cs\<rparr>"
  by unfold_locales (simp add: conts_n_def)

interpretation mdtn: counted_list mdt_conts "\<lambda>cs km. km\<lparr>mdt_conts := cs\<rparr>"
  by unfold_locales (simp add: conts_n_def)

lemma free_node_count:
  assumes "tame f"
  shows "free_fva_node f a km = Inr km' \<Longrightarrow> conts_n km' \<le> conts_n km" and "free_rva_node f a km = Inr km' \<Longrightarrow> conts_n km' \<le> conts_n km"
    and "mdt_node_free f a km = Inr km' \<Longrightarrow> conts_n km' \<le> conts_n km"
  unfolding free_fva_node_def free_rva_node_def mdt_node_free_def
  by (fact fvan.node_release_count [OF assms] rvan.node_release_count [OF assms] mdtn.node_release_count [OF assms])+

lemma free_node_agree:
  assumes "agree d f g" "conts_n km \<le> d"
  shows "free_fva_node f a km = free_fva_node g a km" and "free_rva_node f a km = free_rva_node g a km"
    and "mdt_node_free f a km = mdt_node_free g a km"
  using fvan.node_release_agree [OF assms] rvan.node_release_agree [OF assms] mdtn.node_release_agree [OF assms]
  unfolding free_fva_node_def free_rva_node_def mdt_node_free_def by blast+

lemma new_fva_count: "get_new_fva_node km = Inr (km', a) \<Longrightarrow> conts_n km' \<le> Suc (conts_n km)"
  using fvan.node_new_count unfolding get_new_fva_node_def by blast

section \<open>Areas\<close>

lemma count_lists [simp]:
  "conts_n (upd_fva_list l h km) = conts_n km" "conts_n (upd_rva_list l h' km) = conts_n km"
  by (simp_all add: upd_fva_list_def upd_rva_list_def conts_n_def)

lemma push_fva_count:
  assumes "tame f" "push_fva f l va bytes km = Inr km'"
  shows "conts_n km' \<le> Suc (conts_n km)"
proof -
  have "free_fva_node f a (upd_fva_list l h km) = Inr km' \<Longrightarrow> conts_n km' \<le> conts_n km" for a h
    using free_node_count(1) [OF assms(1), of a "upd_fva_list l h km" km'] by simp
  thus ?thesis using assms(2) new_fva_count [of km]
    unfolding push_fva_def Let_def by (fastforce simp: rbind_eq_Inr split: if_splits)
qed

lemma push_fva_agree:
  assumes "agree d f g" "conts_n km \<le> d"
  shows "push_fva f l va bytes km = push_fva g l va bytes km"
  using free_node_agree(1) [OF assms(1)] assms(2) by (simp add: push_fva_def Let_def)

lemma mdt_free_count:
  assumes "tame f" "rfold (\<lambda>x km. mdt_node_free f (fst x) km) xs km = Inr km'"
  shows "conts_n km' \<le> conts_n km"
  using assms(2)
proof (induction xs arbitrary: km)
  case (Cons x xs)
  then obtain k1 where "mdt_node_free f (fst x) km = Inr k1" "rfold (\<lambda>x km. mdt_node_free f (fst x) km) xs k1 = Inr km'"
    by (auto simp: rbind_eq_Inr)
  thus ?case using free_node_count(3) [OF assms(1)] Cons.IH by (meson le_trans)
qed simp

lemma mdt_free_agree:
  assumes "agree d f g" "tame f" "conts_n km \<le> d"
  shows "rfold (\<lambda>x km. mdt_node_free f (fst x) km) xs km = rfold (\<lambda>x km. mdt_node_free g (fst x) km) xs km"
  using assms(3)
proof (induction xs arbitrary: km)
  case (Cons x xs)
  have e: "mdt_node_free f (fst x) km = mdt_node_free g (fst x) km" by (rule free_node_agree(3) [OF assms(1) Cons.prems])
  have "mdt_node_free f (fst x) km = Inr k1 \<Longrightarrow> conts_n k1 \<le> d" for k1
    using free_node_count(3) [OF assms(2)] Cons.prems by (meson le_trans)
  thus ?case using e by (auto intro!: rbind_cong Cons.IH)
qed simp

lemma pop_rva_steps:
  assumes "find_rva va km = Inr (Some (fl, i))"
  obtains node and n :: rva_node and k1 where "conts_n k1 = conts_n km"
    "\<And>f. pop_rva f l va km = rassert (\<not> am_permanent (rva_info n)) (Panic ''vmalloc: cannot free a permanent va'')
       (rbind (rfold (\<lambda>x km. mdt_node_free f (fst x) km) (rva_pas n) k1) (\<lambda>km.
        rbind (free_rva_node f node km) (\<lambda>km. Inr (km, rva_size n, rva_info n))))"
proof -
  obtain node n where nn: "rva_list km fl ! i = (node, n)" by (cases "rva_list km fl ! i") auto
  define k1 where "k1 = (if 0 < i then upd_rva_list fl (\<lambda>xs. take i xs @ drop (Suc i) xs) km
     else upd_rva_list l (\<lambda>_. drop 1 (rva_list km fl)) km)"
  show ?thesis
  proof (rule that [of k1 n node])
    show "conts_n k1 = conts_n km" by (simp add: k1_def)
    show "pop_rva f l va km = rassert (\<not> am_permanent (rva_info n)) (Panic ''vmalloc: cannot free a permanent va'')
       (rbind (rfold (\<lambda>x km. mdt_node_free f (fst x) km) (rva_pas n) k1) (\<lambda>km.
        rbind (free_rva_node f node km) (\<lambda>km. Inr (km, rva_size n, rva_info n))))" for f
      using assms nn by (simp add: pop_rva_def vmalloc_pa_mdt_free_def k1_def Let_def)
  qed
qed

lemma pop_rva_none:
  assumes "\<not> (\<exists>fl i. find_rva va km = Inr (Some (fl, i)))"
  shows "\<exists>e. \<forall>f. pop_rva f l va km = Inl e"
  using assms by (cases "find_rva va km") (auto simp: pop_rva_def split: option.splits)

lemma pop_rva_count:
  assumes "tame f" "pop_rva f l va km = Inr (km', x)"
  shows "conts_n km' \<le> conts_n km"
proof -
  have "\<exists>fl i. find_rva va km = Inr (Some (fl, i))"
  proof (rule ccontr)
    assume "\<not> ?thesis"
    from pop_rva_none [OF this, of l] show False using assms(2) by auto
  qed
  then obtain fl i where fr: "find_rva va km = Inr (Some (fl, i))" by blast
  obtain node and n :: rva_node and k1 where k: "conts_n k1 = conts_n km"
    "\<And>f. pop_rva f l va km = rassert (\<not> am_permanent (rva_info n)) (Panic ''vmalloc: cannot free a permanent va'')
       (rbind (rfold (\<lambda>x km. mdt_node_free f (fst x) km) (rva_pas n) k1) (\<lambda>km.
        rbind (free_rva_node f node km) (\<lambda>km. Inr (km, rva_size n, rva_info n))))"
    by (rule pop_rva_steps [OF fr, of l], rule that)
  obtain k2 where k2: "rfold (\<lambda>x km. mdt_node_free f (fst x) km) (rva_pas n) k1 = Inr k2" "free_rva_node f node k2 = Inr km'"
    using assms(2) unfolding k(2) by (auto simp: rbind_eq_Inr rassert_eq_Inr)
  show ?thesis using mdt_free_count [OF assms(1) k2(1)] free_node_count(2) [OF assms(1) k2(2)] k(1) by linarith
qed

lemma pop_rva_agree:
  assumes "agree d f g" "tame f" "conts_n km \<le> d"
  shows "pop_rva f l va km = pop_rva g l va km"
proof (cases "\<exists>fl i. find_rva va km = Inr (Some (fl, i))")
  case True
  then obtain fl i where fr: "find_rva va km = Inr (Some (fl, i))" by blast
  obtain node and n :: rva_node and k1 where k: "conts_n k1 = conts_n km"
    "\<And>f. pop_rva f l va km = rassert (\<not> am_permanent (rva_info n)) (Panic ''vmalloc: cannot free a permanent va'')
       (rbind (rfold (\<lambda>x km. mdt_node_free f (fst x) km) (rva_pas n) k1) (\<lambda>km.
        rbind (free_rva_node f node km) (\<lambda>km. Inr (km, rva_size n, rva_info n))))"
    by (rule pop_rva_steps [OF fr, of l], rule that)
  have d1: "conts_n k1 \<le> d" using k(1) assms(3) by simp
  have e: "free_rva_node f node k2 = free_rva_node g node k2"
    if "rfold (\<lambda>x km. mdt_node_free f (fst x) km) (rva_pas n) k1 = Inr k2" for k2
    using free_node_agree(2) [OF assms(1)] mdt_free_count [OF assms(2) that] d1 by (meson le_trans)
  show ?thesis unfolding k(2) mdt_free_agree [OF assms(1,2) d1, symmetric]
    by (intro arg_cong [where f = "rassert _ _"] rbind_cong refl) (use e in simp)
next
  case False
  thus ?thesis using pop_rva_none [of va km l] by auto
qed

lemma vfree_count:
  assumes "tame f" "vfree f t km = Inr (km', b)"
  shows "conts_n km' \<le> Suc (conts_n km)"
proof -
  obtain n :: rva_node and l k1 x where k1: "pop_rva f l (rva_start n) km = Inr (k1, b, x)" "push_fva f l (rva_start n) b k1 = Inr km'"
    using assms(2) by (auto simp: vfree_def rbind_eq_Inr Let_def)
  show ?thesis using pop_rva_count [OF assms(1) k1(1)] push_fva_count [OF assms(1) k1(2)] by linarith
qed

lemma vfree_agree:
  assumes "agree d f g" "tame f" "conts_n km \<le> d"
  shows "vfree f t km = vfree g t km"
proof -
  have "push_fva f l va b k1 = push_fva g l va b k1" if "pop_rva f l va km = Inr (k1, b, x)" for l va k1 b x
    using push_fva_agree [OF assms(1)] pop_rva_count [OF assms(2) that] assms(3) by (meson le_trans)
  thus ?thesis unfolding vfree_def Let_def pop_rva_agree [OF assms, symmetric]
    by (intro rbind_cong refl) (auto intro!: rbind_cong)
qed

section \<open>The recursion\<close>

text \<open>The operations on the tables take pages from the reserve and leave the containers alone.\<close>

interpretation ktn: table_pages "kernel_mapping root" "\<lambda>D km. conts_n km = c" for root c
proof
  fix D a a' t sz
  assume c: "conts_n a = c" and a: "allocator_fn (kernel_mapping root) sz a = Inr (a', t)"
  obtain pv where "reserve_malloc (str_addr a ''mmu table'') a = Inr (a', pv)"
    using a by (auto simp: kernel_mapping_def mm_mmu_default_allocator_def rbind_eq_Inr)
  from reserve_malloc_frame [OF this] show "conts_n a' = c" using c by (auto simp: conts_n_def)
qed (simp add: kernel_mapping_def)

lemma unmap_count:
  assumes "mo_unmap (kernel_ops root) va sz km = Inr (km', u)"
  shows "conts_n km' = conts_n km"
proof -
  obtain st where st: "mmu_unmap (Some (kernel_mapping root)) va sz \<lparr>tbls = mmu_st km, alst = km, op_info = None\<rparr> = Inr (st, u)"
     "km' = (alst st)\<lparr>mmu_st := tbls st\<rparr>"
    using assms by (auto simp: kernel_ops_def on_tables_def rbind_eq_Inr)
  have "tbls_held (\<lambda>D k. conts_n k = conts_n km) st" by (rule ktn.held_unmap [OF _ st(1)]) (simp add: tbls_held_def)
  thus ?thesis using st(2) by (simp add: tbls_held_def conts_n_def)
qed

lemma page_free_count: "page_free_km pa km = Inr km' \<Longrightarrow> conts_n km' = conts_n km"
  by (auto simp: page_free_km_def rbind_eq_Inr conts_n_def)

lemma pages_free_count: "rfold (\<lambda>i km. page_free_km (pi_pa i) km) xs km = Inr km' \<Longrightarrow> conts_n km' = conts_n km"
  by (induction xs arbitrary: km) (auto simp: rbind_eq_Inr dest!: page_free_count)

lemma raw_kfree_Suc: "raw_kfree_n ops (Suc d) = raw_kfree_step ops (raw_kfree_n ops d)"
  by (intro ext) simp

lemma step_tame:
  assumes "tame f"
  shows "tame (raw_kfree_step (kernel_ops root) f)"
proof -
  have "conts_n km' \<le> Suc (conts_n km)" if r: "raw_kfree_step (kernel_ops root) f v km = Inr km'" for v km km'
  proof -
    obtain t vi where t: "vmalloc_get_token v km = Inr t" "vmalloc_get_mdt t km = Inr vi"
      using r by (auto simp: raw_kfree_step_def rbind_eq_Inr)
    show ?thesis
    proof (cases "am_kmapped vi")
      case True
      obtain k1 b k2 where "vfree f t km = Inr (k1, b)" "page_free_km (kva_to_kpa v) k1 = Inr k2"
          "km' = k2 \<or> (\<exists>u. mo_unmap (kernel_ops root) v b k2 = Inr (km', u))"
        using r t True by (auto simp: raw_kfree_step_def rbind_eq_Inr rassert_eq_Inr split: if_splits)
      thus ?thesis using vfree_count [OF assms] page_free_count unmap_count by metis
    next
      case False
      obtain cnt po where po: "vmalloc_get_pa_count t km = Inr cnt" "vmalloc_get_pa_info t cnt km = Inr po"
        using r t False by (auto simp: raw_kfree_step_def rbind_eq_Inr)
      obtain pas where pas: "po = Some pas" "\<not> length pas < cnt"
        using r t False po by (cases po) (auto simp: raw_kfree_step_def split: if_splits)
      obtain k1 k2 b u where "rfold (\<lambda>i km. page_free_km (pi_pa i) km) pas km = Inr k1" "vfree f t k1 = Inr (k2, b)"
          "mo_unmap (kernel_ops root) v b k2 = Inr (km', u)"
        using r t False po pas by (auto simp: raw_kfree_step_def rbind_eq_Inr rassert_eq_Inr)
      thus ?thesis using vfree_count [OF assms] pages_free_count unmap_count by metis
    qed
  qed
  thus ?thesis by (simp add: tame_def)
qed

lemma step_agree:
  assumes "agree d f g" "tame f"
  shows "agree (Suc d) (raw_kfree_step ops f) (raw_kfree_step ops g)"
proof -
  have "raw_kfree_step ops f v km = raw_kfree_step ops g v km" if c: "conts_n km \<le> d" for v km
  proof -
    have v: "vfree f t km = vfree g t km" for t by (rule vfree_agree [OF assms c])
    have w: "vfree f t k1 = vfree g t k1" if "rfold (\<lambda>i km. page_free_km (pi_pa i) km) pas km = Inr k1" for t pas k1
      using vfree_agree [OF assms] pages_free_count [OF that] c by simp
    show ?thesis unfolding raw_kfree_step_def v
      by (intro rbind_cong refl if_cong option.case_cong) (simp add: w)
  qed
  thus ?thesis by (simp add: agree_def)
qed

lemma raw_kfree_tame: "tame (raw_kfree_n (kernel_ops root) d)"
proof (induction d)
  case (Suc d)
  thus ?case unfolding raw_kfree_Suc by (rule step_tame)
qed (simp add: tame_def)

lemma raw_kfree_agree: "agree d (raw_kfree_n (kernel_ops root) d) ((raw_kfree_step (kernel_ops root) ^^ (d + e)) f)"
proof (induction d)
  case (Suc d)
  show ?case unfolding add_Suc raw_kfree_Suc funpow.simps o_apply by (rule step_agree [OF Suc raw_kfree_tame])
qed (simp add: agree_def)

text \<open>Property C10: the recursion of \<open>raw_kfree\<close> through the containers ends: it is never deeper than the number
  of containers plus one, so unfolding its body that often or more gives the result of \<open>raw_kfree\<close>, whatever
  stands for the calls below.\<close>
theorem raw_kfree_depth:
  "(raw_kfree_step (kernel_ops root) ^^ (kmem_depth km + e)) f ptr km = raw_kfree (kernel_ops root) ptr km"
  using raw_kfree_agree [of "kmem_depth km" root e f]
  by (simp add: agree_def raw_kfree_def kmem_depth_def conts_n_def del: funpow.simps)

end
