(* ===== verification/Spec2Isabelle.thy ===== *)
theory Spec2Isabelle
  imports Page_Regions Boot_Map Rb_Props Vfs Locks Ring_Buffer Term Timer Devices Raw_Depth
begin

text \<open>
  A verification library of an Armv8-A kernel for the i.MX8M Plus: C for the most part, with some Rust and assembly.
  The development covers the kernel's memory management from the boot-time memory map to \<open>kmalloc\<close>, the translation tables and
  the MMU registers, and the library components that the rest of the kernel is built from.

  \<^bold>\<open>Conventions.\<close>  The release build is modelled.  A routine that can fail returns a value of \<open>kerror + 'a\<close>
  (\<open>Kprelude\<close>): \<open>Panic\<close> for \<open>PANIC\<close> and a failing \<open>ASSERT\<close>, \<open>Fault\<close> for an access outside of an object or
  through the null pointer, \<open>Diverge\<close> for a loop that does not end.  \<open>DEBUG_ASSERT\<close> is nothing.  Machine integers are
  words of their width.  Mutable objects are fields of a record that is passed through, or cells of a store
  indexed by addresses where the code links objects by pointers.  Locks that only protect a component's own state are left
  out; the locks themselves are modelled as interleavings.

  \<^bold>\<open>The parts and how they build on each other.\<close>

  \<^item> \<open>Kprelude\<close>, \<open>Kmath\<close>: results, words, and the arithmetic and address helpers of \<open>include/lib/math.h\<close>, \<open>align.h\<close>,
    \<open>stdbitfield.h\<close>, \<open>mem.h\<close> and \<open>include/kernel/mm.h\<close>.

  \<^item> \<open>Mm_Info\<close>, \<open>Early_Kalloc\<close>: the memory map (\<open>mm/init/mem_regions/mem_regions.c\<close>, \<open>mm/mm_info.c\<close>) and the allocator of
    the boot (\<open>early_kalloc.c\<close>), a list of regions that is cut up.  A returned range was free, and nothing else changes.

  \<^item> \<open>Page_Allocator\<close>, \<open>Page_Lists\<close>, \<open>Page_Tiling\<close>, \<open>Page_Correct\<close>, \<open>Page_Regions\<close>: the buddy allocator
    \<open>mm/malloc/page_allocator/page_allocator.c\<close>.  The free lists are doubly linked lists through the array of page nodes
    (\<open>linv\<close>); the abstract state is a tiling of the pages by free and allocated blocks (\<open>pinv\<close>).  Allocation, release with
    full coalescing, reservation, initialisation and the hand-over of the boot-time regions are specified on every branch, and
    the allocator is an instance of the contract \<open>allocator\<close> (\<open>Alloc_Iface\<close>), which gives safety over histories.

  \<^item> \<open>Mmu_Desc\<close>, \<open>Mmu_Table\<close>, \<open>Mmu_Walk\<close>, \<open>Mmu_Map\<close>, \<open>Mmu_Progress\<close>, \<open>Mmu_Unmap\<close>, \<open>Mmu_Range\<close>, \<open>Mmu_Spec\<close>:
    descriptors, translation tables and the operations of \<open>src/arm/mmu/mmu.c\<close>, \<open>mmu_dc.h\<close> and \<open>mmu_tbl_ctrl.h\<close>.  The
    invariant gives each table a level; the abstract state is the translation function, which \<open>mmu_walk_page\<close> computes,
    and mapping and unmapping refine its update.  The allocator of tables is the interface \<open>table_alloc\<close>.  \<open>Mmu_Core\<close> has the
    handle of a core and the system registers (\<open>mmu_core.c\<close>), \<open>Boot_Map\<close> the first address space
    (\<open>mm/init/identity_mapping.c\<close>), for the memory map of the board.

  \<^item> \<open>Kmem\<close>, \<open>Vmalloc\<close>, \<open>Raw_Kmalloc\<close>: the state above the page allocator, with the lists of free and reserved virtual areas
    (\<open>mm/malloc/vmalloc\<close>), the containers of their nodes, the reserve of pages (\<open>reserve_malloc.c\<close>), and the allocator of
    kernel pages (\<open>raw_kmalloc.c\<close>), which calls the page allocator, the virtual areas and the MMU operations and is called
    by the containers again.  \<open>Raw_Correct\<close>, \<open>Raw_Owner\<close> and \<open>Raw_Safe\<close> show who owns which page (\<open>rk_inv\<close>): pages of clients,
    of the reserve, of containers and of tables are apart through every operation.  \<open>Mmu_Alloc\<close> has what the MMU operations do to
    the allocator of tables, and \<open>Raw_Depth\<close> that the recursion of \<open>raw_kfree\<close> ends.

  \<^item> \<open>Cache_Malloc\<close>, \<open>Cache_Slots\<close>, \<open>Cache_Class\<close>, \<open>Cache_Ident\<close>, \<open>Cache_Correct\<close>, \<open>Cache_Alloc\<close>: the allocator of small
    objects \<open>mm/malloc/cache_malloc/cache_malloc.c\<close> over any allocator of pages with the laws of the locale \<open>raw_pages\<close>, which
    \<open>raw_kmalloc\<close> is shown to have.  \<open>Kmalloc\<close> puts the heap together (\<open>kmalloc.c\<close>, \<open>mm_mmu.c\<close>): the objects that a client
    of \<open>kmalloc\<close> and \<open>kfree\<close> holds are apart at any time.

  \<^item> \<open>Rb_Tree\<close>, \<open>Rb_Repr\<close>, \<open>Rb_Insert\<close>, \<open>Rb_Remove\<close>, \<open>Rb_Spec\<close>, \<open>Rb_Iface\<close>, \<open>Rb_Props\<close>: the red-black tree
    \<open>lib/data_structures/rbtree.c\<close> on a store of nodes with parent pointers: the loops of the code compute functions on trees,
    which keep the red-black invariants.  \<open>Vfs\<close> is its user (\<open>kernel/vfs/vfs.c\<close>), by the interface \<open>ordered_index\<close>, and refines
    a map from descriptors to files.

  \<^item> \<open>Locks\<close> (\<open>include/lib/lock.h\<close>): step relations for any number of cpus, with the exclusion as an invariant of reachable
    states.  Interrupts on the same cpu are not interleaved.

  \<^item> \<open>Fmt\<close> (\<open>lib/string\<close>), \<open>Kvec\<close> (\<open>lib/data_structures/kvec.c\<close>), \<open>Ring_Buffer\<close> (\<open>lib/buffer/pow2_ring.rs\<close>), \<open>Term_Buffers\<close> and
    \<open>Term\<close> (\<open>kernel/io/term\<close>): formatting, the growing vector with word sizes and an allocator that may fail, the rings in both
    of their modes as bounded queues, and terminals that lose no character; queues share the interface \<open>fifo\<close>.

  \<^item> \<open>Dlinks\<close>, \<open>Timer\<close>, \<open>Devices\<close>: doubly linked lists on a store, timer events and clock conversion (\<open>kernel/time\<close>), and
    the device table (\<open>kernel/devices/devices.c\<close>).

  \<^bold>\<open>Bounds.\<close>  Loops that end are total functions with a termination proof.  Loops that may not end are partial functions
  into an option, whose value \<open>None\<close> becomes \<open>Diverge\<close>; that the ones of the trees and lists return on well-formed structures is
  part of their theorems.  Where a fuel is used its sufficiency is proved: the merge loop of the page allocator makes at
  most one turn per order (\<open>page_free_spec\<close>), the loop of \<open>mmu_map\<close> is measured by the rest of the range (\<open>mmu_map_succeeds\<close>), the
  recursion of \<open>raw_kfree\<close> is bounded by the containers (\<open>raw_kfree_depth\<close>), \<open>term_flush\<close> has enough fuel for every device that
  makes progress (\<open>term_flush_ends\<close>), and the release of a tree of tables goes down one level per call.

  \<^bold>\<open>Parameters.\<close>  Callbacks, comparison functions, devices, the contents of fresh memory and the answers of \<open>kmalloc\<close> to the
  library components are arguments of the definitions; what a theorem relies on from them is a hypothesis of it.

  \<^bold>\<open>Not modelled.\<close>  In \<open>Kmalloc\<close> the release of a translation table in the middle of a mapping operation is an error; it
  happens for ranges of 2 MiB and more only (\<open>kernel_small\<close>).  Left out are: the scheduler and tasks (switches of contexts in
  assembly, and queues that change under locks between them); the memory of user tasks, page faults and the ELF
  loader, which compose the modelled trees, pages and tables with tasks; the system calls above them; exceptions,
  interrupts and the boot code (assembly); the drivers, standard output and serial files (accesses to devices that the repository does
  not describe); panic reports, secondary cpus, wall time and the performance monitor (output, firmware and counters); the
  routines in assembly; and the user library and example programs, which run above the system calls.
\<close>

end
